(* ===== verification/Prelude.thy ===== *)
theory Prelude
  imports Complex_Main "HOL-Library.Word" "HOL-Library.Multiset"
begin

text \<open>
  Shared vocabulary of the development: JavaScript strings, the values and errors the library code
  passes around, the exception type, and generic lemmas on lists that several components use.

  A JavaScript string is a list of UTF-16 code units. A code unit is kept as a natural number,
  because the code reads it with \<^verbatim>\<open>charCodeAt\<close> and computes with the number;
  \<open>is_jsstring\<close> says that every unit fits 16 bits where a property needs it.
  A thrown error is the \<open>Inl\<close> side of a sum.
\<close>

unbundle bit_operations_syntax

named_theorems js_simps \<open>evaluation of the JavaScript string and number primitives\<close>

subsection \<open>Strings\<close>

type_synonym jsstring = "nat list"

definition js :: "string \<Rightarrow> jsstring" where
  "js s = map of_char s"

lemma js_Nil [simp]: "js [] = []"
  by (simp add: js_def)

lemma js_Cons [simp]: "js (c # s) = of_char c # js s"
  by (simp add: js_def)

definition is_jsstring :: "jsstring \<Rightarrow> bool" where
  "is_jsstring s \<longleftrightarrow> list_all (\<lambda>c. c < 2 ^ 16) s"

text \<open>\<^verbatim>\<open>charCodeAt\<close>: \<open>None\<close> is the NaN it returns out of range. No comparison with NaN holds.\<close>

definition charCodeAt :: "jsstring \<Rightarrow> int \<Rightarrow> nat option" where
  "charCodeAt s i = (if 0 \<le> i \<and> i < int (length s) then Some (s ! nat i) else None)"

text \<open>\<^verbatim>\<open>slice(s, a, b)\<close>: negative positions count from the end, both are clamped.\<close>

definition slice_pos :: "jsstring \<Rightarrow> int \<Rightarrow> nat" where
  "slice_pos s i = nat (if i < 0 then max (int (length s) + i) 0 else min i (int (length s)))"

definition slice :: "jsstring \<Rightarrow> int \<Rightarrow> int \<Rightarrow> jsstring" where
  "slice s a b = drop (slice_pos s a) (take (slice_pos s b) s)"

definition slice_from :: "jsstring \<Rightarrow> int \<Rightarrow> jsstring" where
  "slice_from s a = slice s a (int (length s))"

text \<open>\<^verbatim>\<open>lastIndexOf\<close> and \<^verbatim>\<open>indexOf\<close> with a one-unit needle; \<open>-1\<close> when there is none.\<close>

fun indexOf :: "jsstring \<Rightarrow> nat \<Rightarrow> int" where
  "indexOf [] c = -1"
| "indexOf (x # xs) c = (if x = c then 0 else (let r = indexOf xs c in if r = -1 then -1 else r + 1))"

definition indexOf_from :: "jsstring \<Rightarrow> nat \<Rightarrow> nat \<Rightarrow> int" where
  "indexOf_from s c i = (let r = indexOf (drop i s) c in if r = -1 then -1 else r + int i)"

fun lastIndexOf :: "jsstring \<Rightarrow> nat \<Rightarrow> int" where
  "lastIndexOf [] c = -1"
| "lastIndexOf (x # xs) c =
     (let r = lastIndexOf xs c in if r = -1 then (if x = c then 0 else -1) else r + 1)"

fun join :: "jsstring \<Rightarrow> jsstring list \<Rightarrow> jsstring" where
  "join sep [] = []"
| "join sep [x] = x"
| "join sep (x # y # ys) = x @ sep @ join sep (y # ys)"

text \<open>\<^verbatim>\<open>split\<close> at every unit that satisfies a predicate.\<close>

fun split_on :: "(nat \<Rightarrow> bool) \<Rightarrow> jsstring \<Rightarrow> jsstring list" where
  "split_on p [] = [[]]"
| "split_on p (c # s) =
     (if p c then [] # split_on p s
      else (case split_on p s of [] \<Rightarrow> [[c]] | x # xs \<Rightarrow> (c # x) # xs))"

text \<open>The units of a code point.\<close>

definition utf16 :: "nat \<Rightarrow> jsstring" where
  "utf16 p = (if p < 0x10000 then [p] else [0xD800 + (p - 0x10000) div 1024, 0xDC00 + (p - 0x10000) mod 1024])"

subsection \<open>Values and errors\<close>

text \<open>
  A Number is a finite value, a NaN or an infinity. Finite doubles are rationals; the code modelled
  here only adds, multiplies and rounds where the double result is exact.
\<close>

datatype jsnum = Fin rat | NaN | PosInf | NegInf

abbreviation jsint :: "int \<Rightarrow> jsnum" where
  "jsint i \<equiv> Fin (of_int i)"

datatype jsval = Undefined | Null | JBool bool | JNum jsnum | JBigInt int | JStr jsstring | JFunction nat | JObject nat

datatype range_desc =
    AnInteger
  | NonNegativeFinite
  | AtLeast rat
  | BelowPower nat                  \<comment> \<open>< 2^n\<close>
  | Between rat rat bool            \<comment> \<open>>= min and <= max; the flag is the BigInt suffix\<close>
  | UnsignedBits nat bool           \<comment> \<open>>= 0 and < 2 ** bits\<close>
  | SignedBits nat bool             \<comment> \<open>>= -(2 ** bits) and < 2 ** bits\<close>

datatype jserror =
    ERR_INVALID_ARG_TYPE string string   \<comment> \<open>argument name, expected type\<close>
  | ERR_OUT_OF_RANGE string range_desc
  | ERR_BUFFER_OUT_OF_BOUNDS
  | ERR_INVALID_URI
  | RangeError string
  | SystemError string
  | URIError
  | TypeError string
  | ERR_INVALID_THIS string
  | ERR_MISSING_ARGS "string list"
  | ERR_INVALID_TUPLE string string
  | ERR_ARG_NOT_ITERABLE string
  | ERR_INVALID_URL jsstring
  | ERR_INVALID_URL_SCHEME string
  | ERR_INVALID_FILE_URL_HOST
  | ERR_INVALID_FILE_URL_PATH string
  | ERR_INVALID_ARG_VALUE string string
  | ERR_INVALID_MIME_SYNTAX string jsstring int   \<comment> \<open>what, the text, the index or -1\<close>
  | ERR_INTERNAL_ASSERTION

type_synonym 'a result = "jserror + 'a"

fun bind :: "'a result \<Rightarrow> ('a \<Rightarrow> 'b result) \<Rightarrow> 'b result" where
  "bind (Inl e) f = Inl e"
| "bind (Inr x) f = f x"

lemma bind_eq_Inr: "bind r f = Inr y \<longleftrightarrow> (\<exists>x. r = Inr x \<and> f x = Inr y)"
  by (cases r) auto

text \<open>Decimal digits of a number, as template literals print it.\<close>

fun dec :: "nat \<Rightarrow> string" where
  "dec n = (if n < 10 then [char_of (48 + n)] else dec (n div 10) @ [char_of (48 + n mod 10)])"

declare dec.simps [simp del]

text \<open>The validators the modelled code calls (lib/internal/validators.js).\<close>

definition validateString :: "jsval \<Rightarrow> string \<Rightarrow> jsstring result" where
  "validateString v name =
     (case v of JStr s \<Rightarrow> Inr s | _ \<Rightarrow> Inl (ERR_INVALID_ARG_TYPE name ''string''))"

definition validateNumber :: "jsval \<Rightarrow> string \<Rightarrow> jsnum result" where
  "validateNumber v name =
     (case v of JNum n \<Rightarrow> Inr n | _ \<Rightarrow> Inl (ERR_INVALID_ARG_TYPE name ''number''))"

definition validateFunction :: "jsval \<Rightarrow> string \<Rightarrow> nat result" where
  "validateFunction v name =
     (case v of JFunction f \<Rightarrow> Inr f | _ \<Rightarrow> Inl (ERR_INVALID_ARG_TYPE name ''Function''))"

lemma validateString_JStr [simp]: "validateString (JStr s) name = Inr s"
  by (simp add: validateString_def)

lemma validateNumber_JNum [simp]: "validateNumber (JNum n) name = Inr n"
  by (simp add: validateNumber_def)

subsection \<open>Lemmas on the string primitives\<close>

lemma split_on_ne [simp]: "split_on p s \<noteq> []"
  by (induction s) (auto split: list.splits)

lemma split_on_snoc:
  "split_on p (s @ [c]) =
     (if p c then split_on p s @ [[]] else butlast (split_on p s) @ [last (split_on p s) @ [c]])"
  by (induction s) (auto split: list.splits)

lemma split_on_no_sep: "seg \<in> set (split_on p s) \<Longrightarrow> x \<in> set seg \<Longrightarrow> \<not> p x"
  by (induction s arbitrary: seg) (auto split: if_splits list.splits, blast)

lemma split_on_last_suffix: "\<exists>pre. s = pre @ last (split_on p s)"
proof (induction s rule: rev_induct)
  case (snoc c s)
  then show ?case by (auto simp: split_on_snoc)
qed simp

lemma split_on_single: "\<forall>x \<in> set s. \<not> p x \<Longrightarrow> split_on p s = [s]"
  by (induction s) auto

lemma join_snoc: "join sep (xs @ [x]) = (if xs = [] then x else join sep xs @ sep @ x)"
  by (induction sep xs rule: join.induct) auto

lemma join_append: "xs \<noteq> [] \<Longrightarrow> ys \<noteq> [] \<Longrightarrow> join sep (xs @ ys) = join sep xs @ sep @ join sep ys"
proof (induction sep xs rule: join.induct)
  case (2 sep x)
  then show ?case by (cases ys) auto
qed auto

lemma join_eq_Nil: "(\<And>x. x \<in> set xs \<Longrightarrow> x \<noteq> []) \<Longrightarrow> join sep xs = [] \<longleftrightarrow> xs = []"
  by (induction sep xs rule: join.induct) auto

lemma split_on_append_sep: "p c \<Longrightarrow> split_on p (s @ c # t) = split_on p s @ split_on p t"
  by (induction s) (auto split: list.splits)

lemma split_on_join:
  assumes "p c"
  shows "xs \<noteq> [] \<Longrightarrow> (\<And>x y. x \<in> set xs \<Longrightarrow> y \<in> set x \<Longrightarrow> \<not> p y) \<Longrightarrow> split_on p (join [c] xs) = xs"
  using assms
proof (induction "[c]" xs rule: join.induct)
  case (3 x y ys)
  have "split_on p (join [c] (y # ys)) = y # ys" by (rule 3(1)) (use 3 in auto)
  moreover have "split_on p x = [x]" by (rule split_on_single) (use 3 in auto)
  ultimately show ?case using 3 by (simp add: split_on_append_sep)
qed (auto simp: split_on_single)

lemma indexOf_bounds: "indexOf s c = -1 \<or> (0 \<le> indexOf s c \<and> indexOf s c < int (length s))"
  by (induction s) (auto simp: Let_def)

lemma indexOf_from_bounds:
  "indexOf_from s c i = -1 \<or> (int i \<le> indexOf_from s c i \<and> indexOf_from s c i < int (length s))"
  using indexOf_bounds [of "drop i s" c] by (auto simp: indexOf_from_def Let_def)

lemma lastIndexOf_none: "c \<notin> set s \<Longrightarrow> lastIndexOf s c = -1"
  by (induction s) auto

lemma lastIndexOf_ge: "lastIndexOf s c \<ge> -1"
  by (induction s) (auto simp: Let_def)

lemma lastIndexOf_snoc_neq: "x \<noteq> c \<Longrightarrow> lastIndexOf (s @ [x]) c = lastIndexOf s c"
  by (induction s) (auto simp: Let_def)

lemma lastIndexOf_nth: "lastIndexOf s c = i \<Longrightarrow> i \<noteq> -1 \<Longrightarrow> 0 \<le> i \<and> i < int (length s) \<and> s ! nat i = c"
proof (induction s arbitrary: i)
  case (Cons x s)
  show ?case
  proof (cases "lastIndexOf s c = -1")
    case False
    with Cons.IH [of "i - 1"] Cons.prems show ?thesis
      by (auto simp: Let_def nat_diff_distrib nat_add_distrib nth_Cons' split: if_splits)
  qed (use Cons.prems in \<open>auto split: if_splits\<close>)
qed simp

lemma lastIndexOf_append: "c \<notin> set t \<Longrightarrow> lastIndexOf (s @ c # t) c = int (length s)"
  by (induction s) (auto simp: lastIndexOf_none)

lemma slice_nonneg: "0 \<le> a \<Longrightarrow> a \<le> b \<Longrightarrow> b \<le> int (length s) \<Longrightarrow> slice s a b = take (nat b - nat a) (drop (nat a) s)"
  by (simp add: slice_def slice_pos_def drop_take)

lemma slice_zero: "0 \<le> b \<Longrightarrow> b \<le> int (length s) \<Longrightarrow> slice s 0 b = take (nat b) s"
  by (simp add: slice_nonneg)

lemma slice_from_nonneg: "0 \<le> a \<Longrightarrow> a \<le> int (length s) \<Longrightarrow> slice_from s a = drop (nat a) s"
  by (simp add: slice_from_def slice_def slice_pos_def)

lemma slice_middle: "slice (pre @ e @ post) (int (length pre)) (int (length pre + length e)) = e"
  by (simp add: slice_nonneg)

lemma charCodeAt_nth: "0 \<le> i \<Longrightarrow> i < int (length s) \<Longrightarrow> charCodeAt s i = Some (s ! nat i)"
  by (simp add: charCodeAt_def)

lemma charCodeAt_0: "charCodeAt s 0 = (case s of [] \<Rightarrow> None | c # _ \<Rightarrow> Some c)"
  by (simp add: charCodeAt_def split: list.split)

subsection \<open>Bits of code units\<close>

lemma low_bits:
  "c AND 0x3F = c mod (64::nat)" "c AND 0x3FF = c mod (1024::nat)"
proof -
  have "c AND mask 6 = c mod (64::nat)" "c AND mask 10 = c mod (1024::nat)"
    by (simp_all flip: take_bit_eq_mask add: take_bit_eq_mod)
  then show "c AND 0x3F = c mod (64::nat)" "c AND 0x3FF = c mod (1024::nat)"
    by (simp_all add: mask_eq_exp_minus_1)
qed

lemma utf16_pair:
  assumes "0xD800 \<le> c" "c < 0xDC00" "0xDC00 \<le> d" "d < 0xE000"
  shows "utf16 (0x10000 + (c mod 1024 * 1024 + d mod 1024)) = [c, d]"
proof -
  obtain x y where c: "c = 0xD800 + x" and d: "d = 0xDC00 + y"
    using assms le_Suc_ex by metis
  then have "x < 1024" "y < 1024" using assms by simp_all
  then have "c mod 1024 = x" "d mod 1024 = y"
    using mod_mult_self2 [of x 1024 54] mod_mult_self2 [of y 1024 55] by (simp_all add: c d add.commute)
  then show ?thesis using \<open>x < 1024\<close> \<open>y < 1024\<close> by (simp add: utf16_def c d)
qed

subsection \<open>Encodings\<close>

text \<open>
  What a pair of an encoder and a decoder promises on the values \<open>ok\<close>. Different values have different
  codes, and an element-wise code of a list is read back element by element.
\<close>

locale codec =
  fixes ok :: "'a \<Rightarrow> bool"
    and enc :: "'a \<Rightarrow> 'b result"
    and dec :: "'b \<Rightarrow> 'a result"
  assumes round: "ok x \<Longrightarrow> \<exists>y. enc x = Inr y \<and> dec y = Inr x"
begin

lemma enc_total: "ok x \<Longrightarrow> \<exists>y. enc x = Inr y"
  using round by blast

lemma enc_inj: "ok x \<Longrightarrow> ok y \<Longrightarrow> enc x = enc y \<Longrightarrow> x = y"
  using round [of x] round [of y] by auto

lemma enc_dec: "ok x \<Longrightarrow> enc x = Inr y \<Longrightarrow> dec y = Inr x"
  using round [of x] by auto

end

end
