(* ===== verification/QueryString.thy ===== *)
theory QueryString
  imports Prelude "HOL-Library.Word"
begin

text \<open>
  Query strings: lib/querystring.js and lib/internal/querystring.js. What \<^verbatim>\<open>Buffer#toString\<close> makes of
  bytes, what memory \<^verbatim>\<open>Buffer.allocUnsafe\<close> returns and what the engine prints for a Number are
  parameters; \<^verbatim>\<open>decodeURIComponent\<close> is the function of
  the language. A function that the options replace is an argument, \<open>None\<close> where they do not.
\<close>

unbundle bit_operations_syntax

record query_env =
  allocUnsafe :: "nat \<Rightarrow> nat list"
  buffer_toString :: "nat list \<Rightarrow> jsstring"
  number_toString :: "rat \<Rightarrow> jsstring"

subsection \<open>Tables\<close>

definition hex_digit :: "nat \<Rightarrow> nat" where
  "hex_digit n = (if n < 10 then 48 + n else 55 + n)"

definition hexTable :: "nat \<Rightarrow> jsstring" where
  "hexTable c = [37, hex_digit (c div 16), hex_digit (c mod 16)]"

definition isHexTable :: "nat \<Rightarrow> bool" where
  "isHexTable c \<longleftrightarrow> 48 \<le> c \<and> c < 58 \<or> 65 \<le> c \<and> c < 71 \<or> 97 \<le> c \<and> c < 103"

text \<open>The value of a hex digit, \<open>None\<close> for -1 and for undefined.\<close>

definition unhexTable :: "nat \<Rightarrow> nat option" where
  "unhexTable c =
     (if 48 \<le> c \<and> c < 58 then Some (c - 48)
      else if 65 \<le> c \<and> c < 71 then Some (c - 55)
      else if 97 \<le> c \<and> c < 103 then Some (c - 87)
      else None)"

definition noEscape :: "nat \<Rightarrow> bool" where
  "noEscape c \<longleftrightarrow>
     c = 33 \<or> 39 \<le> c \<and> c < 43 \<or> c = 45 \<or> c = 46 \<or> 48 \<le> c \<and> c < 58 \<or> 65 \<le> c \<and> c < 91 \<or> c = 95 \<or>
     97 \<le> c \<and> c < 123 \<or> c = 126"

subsection \<open>Escaping\<close>

text \<open>
  \<^verbatim>\<open>encodeStr\<close>. The inner loop over ASCII units and the outer one test the same position, so they are
  one loop over \<open>i\<close>.
\<close>

function encodeStr_loop :: "(nat \<Rightarrow> bool) \<Rightarrow> (nat \<Rightarrow> jsstring) \<Rightarrow> jsstring \<Rightarrow> nat \<Rightarrow> nat \<Rightarrow> jsstring \<Rightarrow> jsstring result" where
  "encodeStr_loop noEscapeTable table str i lastPos out =
     (if i < length str then
        (let c = str ! i;
             out' = (if lastPos < i then out @ slice str (int lastPos) (int i) else out)
         in if c < 0x80 then
              (if \<not> noEscapeTable c then encodeStr_loop noEscapeTable table str (i + 1) (i + 1) (out' @ table c)
               else encodeStr_loop noEscapeTable table str (i + 1) lastPos out)
            else if c < 0x800 then
              encodeStr_loop noEscapeTable table str (i + 1) (i + 1)
                (out' @ table (0xC0 OR drop_bit 6 c) @ table (0x80 OR (c AND 0x3F)))
            else if c < 0xD800 \<or> c \<ge> 0xE000 then
              encodeStr_loop noEscapeTable table str (i + 1) (i + 1)
                (out' @ table (0xE0 OR drop_bit 12 c) @ table (0x80 OR (drop_bit 6 c AND 0x3F)) @
                 table (0x80 OR (c AND 0x3F)))
            else if i + 1 \<ge> length str then Inl ERR_INVALID_URI
            else
              (let c2 = str ! (i + 1) AND 0x3FF;
                   c = 0x10000 + (push_bit 10 (c AND 0x3FF) OR c2)
               in encodeStr_loop noEscapeTable table str (i + 2) (i + 2)
                    (out' @ table (0xF0 OR drop_bit 18 c) @ table (0x80 OR (drop_bit 12 c AND 0x3F)) @
                     table (0x80 OR (drop_bit 6 c AND 0x3F)) @ table (0x80 OR (c AND 0x3F)))))
      else if lastPos = 0 then Inr str
      else if lastPos < length str then Inr (out @ slice_from str (int lastPos))
      else Inr out)"
  by pat_completeness auto
termination
  by (relation "measure (\<lambda>(_, _, str, i, _, _). length str - i)") (auto simp: Let_def)

declare encodeStr_loop.simps [simp del]

definition encodeStr :: "jsstring \<Rightarrow> (nat \<Rightarrow> bool) \<Rightarrow> (nat \<Rightarrow> jsstring) \<Rightarrow> jsstring result" where
  "encodeStr str noEscapeTable table =
     (if length str = 0 then Inr [] else encodeStr_loop noEscapeTable table str 0 0 [])"

text \<open>\<^verbatim>\<open>qsEscape\<close> of a string; other values are converted to one first.\<close>

definition qsEscape :: "jsstring \<Rightarrow> jsstring result" where
  "qsEscape str = encodeStr str noEscape hexTable"

subsection \<open>Unescaping\<close>

text \<open>\<^verbatim>\<open>decodeURIComponent\<close> of the language; \<open>None\<close> is the URIError it throws.\<close>

fun cont_bytes :: "nat \<Rightarrow> jsstring \<Rightarrow> (nat list \<times> jsstring) option" where
  "cont_bytes 0 s = Some ([], s)"
| "cont_bytes (Suc n) (c # h # l # s) =
     (case (c = 37, unhexTable h, unhexTable l) of
        (True, Some a, Some b) \<Rightarrow>
          if 0x80 \<le> 16 * a + b \<and> 16 * a + b < 0xC0
          then map_option (\<lambda>(bs, t). ((16 * a + b) # bs, t)) (cont_bytes n s) else None
      | _ \<Rightarrow> None)"
| "cont_bytes (Suc n) _ = None"

definition utf8_point :: "nat \<Rightarrow> nat list \<Rightarrow> nat option" where
  "utf8_point b bs =
     (let p = foldl (\<lambda>p x. 64 * p + x mod 64) (b mod (case bs of [_] \<Rightarrow> 32 | [_, _] \<Rightarrow> 16 | _ \<Rightarrow> 8)) bs
      in if (case bs of [_] \<Rightarrow> 0x80 \<le> p | [_, _] \<Rightarrow> 0x800 \<le> p \<and> (p < 0xD800 \<or> 0xE000 \<le> p)
             | _ \<Rightarrow> 0x10000 \<le> p \<and> p < 0x110000)
         then Some p else None)"

lemma cont_bytes_shorter: "cont_bytes n s = Some (bs, t) \<Longrightarrow> length t \<le> length s"
  by (induction n s arbitrary: bs t rule: cont_bytes.induct) (fastforce split: option.splits bool.splits if_splits)+

function decodeURIComponent :: "jsstring \<Rightarrow> jsstring option" where
  "decodeURIComponent [] = Some []"
| "decodeURIComponent (c # s) =
     (if c \<noteq> 37 then map_option ((#) c) (decodeURIComponent s)
      else case s of
        h # l # t \<Rightarrow>
          (case (unhexTable h, unhexTable l) of
             (Some a, Some b) \<Rightarrow>
               (let B = 16 * a + b
                in if B < 0x80 then map_option ((#) B) (decodeURIComponent t)
                   else if B < 0xC0 \<or> 0xF8 \<le> B then None
                   else case cont_bytes (if B < 0xE0 then 1 else if B < 0xF0 then 2 else 3) t of
                     None \<Rightarrow> None
                   | Some (bs, t') \<Rightarrow>
                       (case utf8_point B bs of
                          None \<Rightarrow> None
                        | Some p \<Rightarrow> map_option ((@) (utf16 p)) (decodeURIComponent t')))
           | _ \<Rightarrow> None)
      | _ \<Rightarrow> None)"
  by pat_completeness auto
termination
  by (relation "measure length") (auto dest: cont_bytes_shorter)

declare decodeURIComponent.simps(2) [simp del]

text \<open>
  \<^verbatim>\<open>unescapeBuffer\<close>. The buffer is allocated without being cleared: \<open>mem\<close> is what it holds, of the
  length of the string. A store keeps the low eight bits. The result is the bytes of the buffer.
\<close>

function unescape_loop :: "jsstring \<Rightarrow> bool \<Rightarrow> nat \<Rightarrow> nat list \<Rightarrow> bool \<Rightarrow> nat list \<times> bool" where
  "unescape_loop s decodeSpaces index out hasHex =
     (if index < length s then
        (let currentChar = s ! index in
         if currentChar = 43 \<and> decodeSpaces then unescape_loop s decodeSpaces (index + 1) (out @ [32]) hasHex
         else if currentChar = 37 \<and> int index < int (length s) - 2 then
           (case unhexTable (s ! (index + 1)) of
              None \<Rightarrow> unescape_loop s decodeSpaces (index + 1) (out @ [37]) hasHex
            | Some hexHigh \<Rightarrow>
                (case unhexTable (s ! (index + 2)) of
                   None \<Rightarrow> unescape_loop s decodeSpaces (index + 2) (out @ [37, s ! (index + 1) mod 256]) hasHex
                 | Some hexLow \<Rightarrow> unescape_loop s decodeSpaces (index + 3) (out @ [(hexHigh * 16 + hexLow) mod 256]) True))
         else unescape_loop s decodeSpaces (index + 1) (out @ [currentChar mod 256]) hasHex)
      else (out, hasHex))"
  by pat_completeness auto
termination
  by (relation "measure (\<lambda>(s, _, index, _, _). length s - index)") auto

declare unescape_loop.simps [simp del]

definition unescapeBuffer :: "query_env \<Rightarrow> jsstring \<Rightarrow> bool \<Rightarrow> nat list" where
  "unescapeBuffer env s decodeSpaces =
     (let (out, hasHex) = unescape_loop s decodeSpaces 0 [] False;
          buf = out @ drop (length out) (allocUnsafe env (length s))
      in if hasHex then take (length out) buf else buf)"

definition qsUnescape :: "query_env \<Rightarrow> jsstring \<Rightarrow> bool \<Rightarrow> jsstring" where
  "qsUnescape env s decodeSpaces =
     (case decodeURIComponent s of
        Some r \<Rightarrow> r
      | None \<Rightarrow> buffer_toString env (unescapeBuffer env s decodeSpaces))"

subsection \<open>Printing\<close>

definition bigint_toString :: "int \<Rightarrow> jsstring" where
  "bigint_toString i = (if i < 0 then js (CHR ''-'' # dec (nat (- i))) else js (dec (nat i)))"

definition stringifyPrimitive :: "query_env \<Rightarrow> jsval \<Rightarrow> jsstring" where
  "stringifyPrimitive env v =
     (case v of
        JStr s \<Rightarrow> s
      | JNum (Fin r) \<Rightarrow> number_toString env r
      | JBigInt i \<Rightarrow> bigint_toString i
      | JBool b \<Rightarrow> (if b then js ''true'' else js ''false'')
      | _ \<Rightarrow> [])"

definition encodeStringified :: "query_env \<Rightarrow> (jsstring \<Rightarrow> jsstring result) \<Rightarrow> jsval \<Rightarrow> jsstring result" where
  "encodeStringified env encode v =
     (case v of
        JStr s \<Rightarrow> (if length s \<noteq> 0 then encode s else Inr [])
      | JNum (Fin r) \<Rightarrow>
          (if \<bar>r\<bar> < 10 ^ 21 then Inr (number_toString env r) else encode (number_toString env r))
      | JBigInt i \<Rightarrow> Inr (bigint_toString i)
      | JBool b \<Rightarrow> Inr (if b then js ''true'' else js ''false'')
      | _ \<Rightarrow> Inr [])"

definition encodeStringifiedCustom ::
    "query_env \<Rightarrow> (jsstring \<Rightarrow> jsstring result) \<Rightarrow> jsval \<Rightarrow> jsstring result" where
  "encodeStringifiedCustom env encode v = encode (stringifyPrimitive env v)"

text \<open>
  The object to print is its own enumerable keys in the order of \<^verbatim>\<open>Object.keys\<close>; a value is an array
  or not. The separators are strings, and the empty one takes the default as \<^verbatim>\<open>||=\<close> does. \<open>encode\<close>
  is \<open>None\<close> where it is \<^verbatim>\<open>qsEscape\<close>; the object is \<open>None\<close> where the argument is no object.
\<close>

datatype query_value = Single jsval | Arr "jsval list"

fun stringify_array ::
    "(jsval \<Rightarrow> jsstring result) \<Rightarrow> jsstring \<Rightarrow> jsstring \<Rightarrow> bool \<Rightarrow> jsstring \<Rightarrow> jsval list \<Rightarrow> jsstring result" where
  "stringify_array convert sep ks j acc [] = Inr acc"
| "stringify_array convert sep ks j acc (v # vs) =
     bind (convert v) (\<lambda>c.
       stringify_array convert sep ks True ((if j then acc @ sep else acc) @ ks @ c) vs)"

fun stringify_keys ::
    "(jsval \<Rightarrow> jsstring result) \<Rightarrow> jsstring \<Rightarrow> jsstring \<Rightarrow> jsstring \<Rightarrow> (jsstring \<times> query_value) list \<Rightarrow>
     jsstring result" where
  "stringify_keys convert sep eq acc [] = Inr acc"
| "stringify_keys convert sep eq acc ((k, v) # obj) =
     bind (convert (JStr k)) (\<lambda>c.
       let ks = c @ eq;
           acc' = (if acc \<noteq> [] then acc @ sep else acc)
       in case v of
            Arr vs \<Rightarrow>
              (if vs = [] then stringify_keys convert sep eq acc obj
               else bind (stringify_array convert sep ks False acc' vs)
                      (\<lambda>f. stringify_keys convert sep eq f obj))
          | Single v \<Rightarrow>
              bind (convert v) (\<lambda>c. stringify_keys convert sep eq (acc' @ ks @ c) obj))"

definition stringify ::
    "query_env \<Rightarrow> (jsstring \<times> query_value) list option \<Rightarrow> jsstring \<Rightarrow> jsstring \<Rightarrow>
     (jsstring \<Rightarrow> jsstring result) option \<Rightarrow> jsstring result" where
  "stringify env obj sep eq encode =
     (let sep = (if sep = [] then js ''&'' else sep);
          eq = (if eq = [] then js ''='' else eq);
          convert = (case encode of
                       None \<Rightarrow> encodeStringified env qsEscape
                     | Some f \<Rightarrow> encodeStringifiedCustom env f)
      in case obj of None \<Rightarrow> Inr [] | Some obj \<Rightarrow> stringify_keys convert sep eq [] obj)"

text \<open>The parameters for ASCII bytes and natural numbers, for concrete runs.\<close>

definition ascii_query :: query_env where
  "ascii_query =
     \<lparr>allocUnsafe = (\<lambda>n. replicate n 0), buffer_toString = (\<lambda>bs. bs), number_toString = (\<lambda>r. js (dec (nat \<lfloor>r\<rfloor>)))\<rparr>"

lemma ascii_query_simps [simp]:
  "allocUnsafe ascii_query n = replicate n 0" "buffer_toString ascii_query bs = bs"
  by (simp_all add: ascii_query_def)

end
