(* ===== verification/QueryParse.thy ===== *)
theory QueryParse
  imports QueryString
begin

text \<open>
  \<^verbatim>\<open>parse\<close> of lib/querystring.js with \<^verbatim>\<open>addKeyVal\<close> and \<^verbatim>\<open>decodeStr\<close>. The loop body is \<open>parse_step\<close>: it
  gives the object on an early return and the next state otherwise. \<open>decode\<close> is \<open>None\<close> where it is
  \<^verbatim>\<open>qsUnescape\<close>; a decoder the caller gives answers strings or throws. The object has no prototype; it
  is the list of its fields in the order they were created.
\<close>

datatype field = One jsstring | Many "jsstring list"

type_synonym query_obj = "(jsstring \<times> field) list"
type_synonym decoder = "(jsstring \<Rightarrow> jsstring result) option"

definition decodeStr :: "query_env \<Rightarrow> decoder \<Rightarrow> jsstring \<Rightarrow> jsstring" where
  "decodeStr env decoder s =
     (case decoder of
        None \<Rightarrow> qsUnescape env s False
      | Some f \<Rightarrow> (case f s of Inr r \<Rightarrow> r | Inl _ \<Rightarrow> qsUnescape env s True))"

fun set_field :: "jsstring \<Rightarrow> field \<Rightarrow> query_obj \<Rightarrow> query_obj" where
  "set_field k f [] = [(k, f)]"
| "set_field k f ((k', f') # obj) = (if k' = k then (k, f) # obj else (k', f') # set_field k f obj)"

definition addKeyVal ::
    "query_env \<Rightarrow> decoder \<Rightarrow> query_obj \<Rightarrow> jsstring \<Rightarrow> jsstring \<Rightarrow> bool \<Rightarrow> bool \<Rightarrow> query_obj" where
  "addKeyVal env decode obj key value keyEncoded valEncoded =
     (let key = (if length key > 0 \<and> keyEncoded then decodeStr env decode key else key);
          value = (if length value > 0 \<and> valEncoded then decodeStr env decode value else value)
      in case map_of obj key of
           None \<Rightarrow> set_field key (One value) obj
         | Some (Many vs) \<Rightarrow> set_field key (Many (vs @ [value])) obj
         | Some (One v) \<Rightarrow> set_field key (Many [v, value]) obj)"

definition charCodes :: "jsstring \<Rightarrow> nat list" where
  "charCodes str = map (\<lambda>i. str ! i) [0 ..< length str]"

record parse_state =
  p_obj :: query_obj
  pairs :: jsnum
  lastPos :: nat
  sepIdx :: nat
  eqIdx :: nat
  p_key :: jsstring
  p_value :: jsstring
  keyEncoded :: bool
  valEncoded :: bool
  encodeCheck :: nat

text \<open>\<^verbatim>\<open>--pairs\<close>.\<close>

fun num_pred :: "jsnum \<Rightarrow> jsnum" where
  "num_pred (Fin r) = Fin (r - 1)"
| "num_pred n = n"

record parse_args =
  pa_env :: query_env
  pa_decode :: decoder
  pa_qs :: jsstring
  sepCodes :: "nat list"
  eqCodes :: "nat list"

definition customDecode :: "parse_args \<Rightarrow> bool" where
  "customDecode a = (case pa_decode a of None \<Rightarrow> False | Some _ \<Rightarrow> True)"

definition plusChar :: "parse_args \<Rightarrow> jsstring" where
  "plusChar a = (if customDecode a then js ''%20'' else js '' '')"

text \<open>The slice from \<^verbatim>\<open>lastPos\<close> to a position, where it is not empty.\<close>

definition pending :: "parse_args \<Rightarrow> parse_state \<Rightarrow> int \<Rightarrow> jsstring" where
  "pending a st end = (if int (lastPos st) < end then slice (pa_qs a) (int (lastPos st)) end else [])"

definition store_pair :: "parse_args \<Rightarrow> parse_state \<Rightarrow> query_obj" where
  "store_pair a st =
     addKeyVal (pa_env a) (pa_decode a) (p_obj st) (p_key st) (p_value st) (keyEncoded st) (valEncoded st)"

definition pair_end :: "parse_args \<Rightarrow> nat \<Rightarrow> parse_state \<Rightarrow> query_obj + parse_state" where
  "pair_end a i st =
     (let end = int i - int (sepIdx st) + 1 in
      if eqIdx st < length (eqCodes a) \<and> \<not> int (lastPos st) < end \<and> length (p_key st) = 0 then
        (let n = num_pred (pairs st)
         in if n = Fin 0 then Inl (p_obj st)
            else Inr (st\<lparr>pairs := n, lastPos := i + 1, sepIdx := 0, eqIdx := 0\<rparr>))
      else
        (let st = (if eqIdx st < length (eqCodes a) then st\<lparr>p_key := p_key st @ pending a st end\<rparr>
                   else st\<lparr>p_value := p_value st @ pending a st end\<rparr>);
             obj = store_pair a st;
             n = num_pred (pairs st)
         in if n = Fin 0 then Inl obj
            else Inr (st\<lparr>p_obj := obj, pairs := n, keyEncoded := customDecode a, valEncoded := customDecode a,
                         p_key := [], p_value := [], encodeCheck := 0, lastPos := i + 1, sepIdx := 0,
                         eqIdx := 0\<rparr>)))"

definition value_char :: "parse_args \<Rightarrow> nat \<Rightarrow> nat \<Rightarrow> parse_state \<Rightarrow> parse_state" where
  "value_char a i code st =
     (if code = 43 then
        st\<lparr>p_value := p_value st @ pending a st (int i) @ plusChar a, lastPos := i + 1\<rparr>
      else if \<not> valEncoded st then
        (if code = 37 then st\<lparr>encodeCheck := 1\<rparr>
         else if encodeCheck st > 0 then
           (if isHexTable code then
              st\<lparr>encodeCheck := encodeCheck st + 1, valEncoded := (encodeCheck st + 1 = 3)\<rparr>
            else st\<lparr>encodeCheck := 0\<rparr>)
         else st)
      else st)"

definition key_char :: "parse_args \<Rightarrow> nat \<Rightarrow> nat \<Rightarrow> parse_state \<Rightarrow> parse_state" where
  "key_char a i code st =
     (if code = eqCodes a ! eqIdx st then
        (let st = st\<lparr>eqIdx := eqIdx st + 1\<rparr> in
         if eqIdx st = length (eqCodes a) then
           st\<lparr>p_key := p_key st @ pending a st (int i - int (eqIdx st) + 1), encodeCheck := 0, lastPos := i + 1\<rparr>
         else st)
      else
        (let st = st\<lparr>eqIdx := 0\<rparr> in
         if \<not> keyEncoded st \<and> code = 37 then st\<lparr>encodeCheck := 1\<rparr>
         else if \<not> keyEncoded st \<and> encodeCheck st > 0 \<and> isHexTable code then
           st\<lparr>encodeCheck := encodeCheck st + 1, keyEncoded := (encodeCheck st + 1 = 3)\<rparr>
         else
           (let st = (if \<not> keyEncoded st \<and> encodeCheck st > 0 then st\<lparr>encodeCheck := 0\<rparr> else st) in
            if code = 43 then st\<lparr>p_key := p_key st @ pending a st (int i) @ plusChar a, lastPos := i + 1\<rparr>
            else value_char a i code st)))"

definition parse_step :: "parse_args \<Rightarrow> nat \<Rightarrow> parse_state \<Rightarrow> query_obj + parse_state" where
  "parse_step a i st =
     (let code = pa_qs a ! i in
      if sepIdx st < length (sepCodes a) \<and> code = sepCodes a ! sepIdx st then
        (let st = st\<lparr>sepIdx := sepIdx st + 1\<rparr>
         in if sepIdx st = length (sepCodes a) then pair_end a i st else Inr st)
      else
        (let st = st\<lparr>sepIdx := 0\<rparr>
         in Inr (if eqIdx st < length (eqCodes a) then key_char a i code st else value_char a i code st)))"

definition parse_rest :: "parse_args \<Rightarrow> parse_state \<Rightarrow> query_obj" where
  "parse_rest a st =
     (if lastPos st < length (pa_qs a) then
        store_pair a
          (if eqIdx st < length (eqCodes a) then
             st\<lparr>p_key := p_key st @ slice_from (pa_qs a) (int (lastPos st))\<rparr>
           else if sepIdx st < length (sepCodes a) then
             st\<lparr>p_value := p_value st @ slice_from (pa_qs a) (int (lastPos st))\<rparr>
           else st)
      else if eqIdx st = 0 \<and> length (p_key st) = 0 then p_obj st
      else store_pair a st)"

function parse_loop :: "parse_args \<Rightarrow> nat \<Rightarrow> parse_state \<Rightarrow> query_obj" where
  "parse_loop a i st =
     (if i < length (pa_qs a) then
        (case parse_step a i st of Inl obj \<Rightarrow> obj | Inr st' \<Rightarrow> parse_loop a (i + 1) st')
      else parse_rest a st)"
  by pat_completeness auto
termination by (relation "measure (\<lambda>(a, i, _). length (pa_qs a) - i)") auto

declare parse_loop.simps [simp del]

text \<open>\<^verbatim>\<open>maxKeys\<close> is \<open>None\<close> where the options give no number.\<close>

fun num_positive :: "jsnum \<Rightarrow> bool" where
  "num_positive (Fin r) \<longleftrightarrow> 0 < r"
| "num_positive PosInf \<longleftrightarrow> True"
| "num_positive _ \<longleftrightarrow> False"

definition initial_pairs :: "jsnum option \<Rightarrow> jsnum" where
  "initial_pairs maxKeys =
     (case maxKeys of None \<Rightarrow> jsint 1000 | Some n \<Rightarrow> (if num_positive n then n else jsint (- 1)))"

definition parse :: "query_env \<Rightarrow> jsval \<Rightarrow> jsstring \<Rightarrow> jsstring \<Rightarrow> jsnum option \<Rightarrow> decoder \<Rightarrow> query_obj" where
  "parse env qs sep eq maxKeys decode =
     (case qs of
        JStr s \<Rightarrow>
          (if length s = 0 then []
           else
             (let a = \<lparr>pa_env = env, pa_decode = decode, pa_qs = s,
                       sepCodes = (if sep = [] then [38] else charCodes sep),
                       eqCodes = (if eq = [] then [61] else charCodes eq)\<rparr>
              in parse_loop a 0
                   \<lparr>p_obj = [], pairs = initial_pairs maxKeys, lastPos = 0, sepIdx = 0, eqIdx = 0,
                    p_key = [], p_value = [], keyEncoded = customDecode a, valEncoded = customDecode a,
                    encodeCheck = 0\<rparr>))
      | _ \<Rightarrow> [])"

end
