(* ===== verification/QueryEscape.thy ===== *)
theory QueryEscape
  imports QueryString
begin

text \<open>
  Escaping. \<open>esc\<close> is the specification of \<^verbatim>\<open>encodeStr\<close>: every unit or surrogate pair on its own, with
  no positions. On a well-formed string the escaped text is a sequence of tokens (unreserved units and
  percent triples) that \<^verbatim>\<open>decodeURIComponent\<close> reads back.
\<close>

fun well_formed :: "jsstring \<Rightarrow> bool" where
  "well_formed [] \<longleftrightarrow> True"
| "well_formed [c] \<longleftrightarrow> c < 0xD800 \<or> 0xE000 \<le> c \<and> c < 0x10000"
| "well_formed (c # d # s) \<longleftrightarrow>
     (if 0xD800 \<le> c \<and> c < 0xE000 then c < 0xDC00 \<and> 0xDC00 \<le> d \<and> d < 0xE000 \<and> well_formed s
      else c < 0x10000 \<and> well_formed (d # s))"

subsection \<open>The specification\<close>

definition pct :: "nat list \<Rightarrow> jsstring" where
  "pct bs = concat (map hexTable bs)"

definition utf8 :: "nat \<Rightarrow> nat list" where
  "utf8 p =
     (if p < 0x80 then [p]
      else if p < 0x800 then [0xC0 + p div 64, 0x80 + p mod 64]
      else if p < 0x10000 then [0xE0 + p div 4096, 0x80 + p div 64 mod 64, 0x80 + p mod 64]
      else [0xF0 + p div 262144, 0x80 + p div 4096 mod 64, 0x80 + p div 64 mod 64, 0x80 + p mod 64])"

fun esc :: "jsstring \<Rightarrow> jsstring option" where
  "esc [] = Some []"
| "esc (c # s) =
     (if noEscape c then map_option ((#) c) (esc s)
      else if c < 0xD800 \<or> 0xE000 \<le> c then map_option ((@) (pct (utf8 c))) (esc s)
      else case s of
        [] \<Rightarrow> None
      | d # t \<Rightarrow> map_option ((@) (pct (utf8 (0x10000 + (c mod 1024 * 1024 + d mod 1024))))) (esc t))"

text \<open>The same for any tables: \<open>ne\<close> are the units kept, \<open>ht\<close> what an ASCII unit becomes.\<close>

fun esc_with :: "(nat \<Rightarrow> bool) \<Rightarrow> (nat \<Rightarrow> jsstring) \<Rightarrow> jsstring \<Rightarrow> jsstring option" where
  "esc_with ne ht [] = Some []"
| "esc_with ne ht (c # s) =
     (if ne c then map_option ((#) c) (esc_with ne ht s)
      else if c < 0xD800 \<or> 0xE000 \<le> c then
        map_option ((@) (if c < 0x80 then ht c else pct (utf8 c))) (esc_with ne ht s)
      else case s of
        [] \<Rightarrow> None
      | d # t \<Rightarrow> map_option ((@) (pct (utf8 (0x10000 + (c mod 1024 * 1024 + d mod 1024))))) (esc_with ne ht t))"

text \<open>Tables that escape at least the percent sign and agree on the bytes that are not ASCII.\<close>

locale escape_tables =
  fixes ne :: "nat \<Rightarrow> bool" and ht :: "nat \<Rightarrow> jsstring"
  assumes ne_ascii: "ne c \<Longrightarrow> c < 0x80 \<and> c \<noteq> 37"
    and ht_bytes: "0x80 \<le> b \<Longrightarrow> ht b = hexTable b"

lemma noEscape_bounds: "noEscape c \<Longrightarrow> c < 127 \<and> c \<noteq> 37 \<and> c \<noteq> 38 \<and> c \<noteq> 43 \<and> c \<noteq> 61"
  by (auto simp: noEscape_def)

subsection \<open>Bits\<close>

lemma or_plus: "c < 2 ^ n \<Longrightarrow> push_bit n a OR c = a * 2 ^ n + (c::nat)"
proof -
  assume "c < 2 ^ n"
  then have c: "take_bit n c = c" by (simp add: take_bit_nat_eq_self)
  have "\<not> bit (push_bit n a) m \<or> \<not> bit c m" for m
    using bit_take_bit_iff [of n c m] c by (cases "m < n") (simp_all add: bit_push_bit_iff)
  then have "push_bit n a AND c = 0" by (intro bit_eqI) (simp add: bit_and_iff)
  then show ?thesis by (simp add: disjunctive_add_eq_or push_bit_eq_mult flip: disjunctive_add_eq_or)
qed

lemma lead_bits:
  "x < 32 \<Longrightarrow> 0xC0 OR x = 0xC0 + (x::nat)" "x < 16 \<Longrightarrow> 0xE0 OR x = 0xE0 + (x::nat)"
  "x < 8 \<Longrightarrow> 0xF0 OR x = 0xF0 + (x::nat)" "x < 64 \<Longrightarrow> 0x80 OR x = 0x80 + (x::nat)"
  using or_plus [of x 5 6] or_plus [of x 4 14] or_plus [of x 3 30] or_plus [of x 6 2]
  by (simp_all add: push_bit_eq_mult)

lemma pct_utf8:
  "c < 0x80 \<Longrightarrow> pct (utf8 c) = hexTable c"
  "0x80 \<le> c \<Longrightarrow> c < 0x800 \<Longrightarrow>
     pct (utf8 c) = hexTable (0xC0 OR drop_bit 6 c) @ hexTable (0x80 OR (c AND 0x3F))"
  "0x800 \<le> c \<Longrightarrow> c < 0x10000 \<Longrightarrow>
     pct (utf8 c) = hexTable (0xE0 OR drop_bit 12 c) @ hexTable (0x80 OR (drop_bit 6 c AND 0x3F)) @
                    hexTable (0x80 OR (c AND 0x3F))"
  "0x10000 \<le> c \<Longrightarrow> c < 0x110000 \<Longrightarrow>
     pct (utf8 c) = hexTable (0xF0 OR drop_bit 18 c) @ hexTable (0x80 OR (drop_bit 12 c AND 0x3F)) @
                    hexTable (0x80 OR (drop_bit 6 c AND 0x3F)) @ hexTable (0x80 OR (c AND 0x3F))"
  by (simp_all add: pct_def utf8_def low_bits lead_bits drop_bit_eq_div)

lemma pair_bits:
  "0x10000 + (push_bit 10 (c AND 0x3FF) OR (d AND 0x3FF)) = 0x10000 + (c mod 1024 * 1024 + d mod (1024::nat))"
  using or_plus [of "d mod 1024" 10 "c mod 1024"] by (simp add: low_bits)

subsection \<open>The loop meets it\<close>

declare esc.simps(2) [simp del] esc_with.simps(2) [simp del]

definition esc_result :: "jsstring \<Rightarrow> jsstring option \<Rightarrow> jsstring result" where
  "esc_result out r = (case r of None \<Rightarrow> Inl ERR_INVALID_URI | Some e \<Rightarrow> Inr (out @ e))"

lemma esc_result_map: "esc_result out (map_option ((@) e) r) = esc_result (out @ e) r"
  "esc_result out (map_option ((#) c) r) = esc_result (out @ [c]) r"
  by (simp_all add: esc_result_def split: option.split)

definition pending_text :: "jsstring \<Rightarrow> nat \<Rightarrow> nat \<Rightarrow> jsstring" where
  "pending_text str l i = take (i - l) (drop l str)"

lemma pending_text_simps:
  "l \<le> i \<Longrightarrow> i \<le> length str \<Longrightarrow> (if l < i then slice str (int l) (int i) else []) = pending_text str l i"
  "l \<le> i \<Longrightarrow> i < length str \<Longrightarrow> pending_text str l (Suc i) = pending_text str l i @ [str ! i]"
  "pending_text str i i = []"
  "pending_text str 0 (length str) = str"
  "l \<le> length str \<Longrightarrow> pending_text str l (length str) = drop l str"
  by (simp_all add: pending_text_def slice_nonneg Suc_diff_le take_Suc_conv_app_nth)

lemma out_slice: "(if b then out @ x else out) = out @ (if b then x else [])"
  by simp

lemma or_ge: "(a::nat) \<le> a OR b"
proof -
  have "int a \<le> int a OR int b" by (rule or_greater_eq) simp
  then have "int a \<le> int (a OR b)" by (simp only: of_nat_or_eq)
  then show ?thesis by simp
qed

lemma high_bytes: "(0x80::nat) \<le> 0x80 OR x" "(0x80::nat) \<le> 0xC0 OR x" "(0x80::nat) \<le> 0xE0 OR x" "(0x80::nat) \<le> 0xF0 OR x"
  by (rule or_ge) (rule order_trans [OF _ or_ge], simp)+

lemma pct_table:
  assumes "escape_tables ne ht"
  shows "0x80 \<le> c \<Longrightarrow> c < 0x800 \<Longrightarrow> pct (utf8 c) = ht (0xC0 OR drop_bit 6 c) @ ht (0x80 OR (c AND 0x3F))"
    "0x800 \<le> c \<Longrightarrow> c < 0x10000 \<Longrightarrow>
       pct (utf8 c) = ht (0xE0 OR drop_bit 12 c) @ ht (0x80 OR (drop_bit 6 c AND 0x3F)) @ ht (0x80 OR (c AND 0x3F))"
    "0x10000 \<le> c \<Longrightarrow> c < 0x110000 \<Longrightarrow>
       pct (utf8 c) = ht (0xF0 OR drop_bit 18 c) @ ht (0x80 OR (drop_bit 12 c AND 0x3F)) @
         ht (0x80 OR (drop_bit 6 c AND 0x3F)) @ ht (0x80 OR (c AND 0x3F))"
  using pct_utf8(2-4) escape_tables.ht_bytes [OF assms] high_bytes by simp_all

lemma encodeStr_loop_esc:
  "escape_tables ne ht \<Longrightarrow> l \<le> i \<Longrightarrow> i \<le> length str \<Longrightarrow> (l = 0 \<longrightarrow> out = []) \<Longrightarrow> is_jsstring str \<Longrightarrow>
   encodeStr_loop ne ht str i l out = esc_result (out @ pending_text str l i) (esc_with ne ht (drop i str))"
proof (induction ne ht str i l out rule: encodeStr_loop.induct)
  case (1 ne ht str i l out)
  note tables = 1(6) and prems = 1(7-)
  note keep = escape_tables.ne_ascii [OF tables] and run = pct_table [OF tables]
  show ?case
  proof (cases "i < length str")
    case False
    then have "i = length str" using prems by simp
    then show ?thesis using prems
      by (subst encodeStr_loop.simps) (auto simp: esc_result_def pending_text_simps slice_from_nonneg)
  next
    case True
    define c where "c = str ! i"
    have d: "drop i str = c # drop (Suc i) str" using True by (simp add: c_def Cons_nth_drop_Suc)
    have c16: "c < 0x10000" using prems(4) True by (auto simp: c_def is_jsstring_def list_all_length)
    have tl: "l \<le> i" "i \<le> length str" using prems by auto
    note p = pending_text_simps(1) [OF tl] out_slice
    consider (plain) "c < 0x80" "ne c" | (ascii) "c < 0x80" "\<not> ne c"
      | (two) "0x80 \<le> c" "c < 0x800" | (three) "0x800 \<le> c" "c < 0xD800 \<or> 0xE000 \<le> c"
      | (pair) "0xD800 \<le> c" "c < 0xE000"
      by fastforce
    then show ?thesis
    proof cases
      case plain
      have "encodeStr_loop ne ht str i l out = encodeStr_loop ne ht str (i + 1) l out"
        by (subst encodeStr_loop.simps) (use plain True in \<open>simp add: c_def Let_def\<close>)
      also have "\<dots> = esc_result (out @ pending_text str l (i + 1)) (esc_with ne ht (drop (i + 1) str))"
        using 1(2) [OF True c_def refl] plain True prems tables by simp
      finally show ?thesis
        using plain True prems by (simp add: d esc_with.simps(2) esc_result_map pending_text_simps flip: c_def)
    next
      case ascii
      have "encodeStr_loop ne ht str i l out = encodeStr_loop ne ht str (i + 1) (i + 1) (out @ pending_text str l i @ ht c)"
        by (subst encodeStr_loop.simps) (use ascii True in \<open>simp add: c_def Let_def p\<close>)
      also have "\<dots> = esc_result ((out @ pending_text str l i @ ht c) @ pending_text str (i + 1) (i + 1))
                        (esc_with ne ht (drop (i + 1) str))"
        using 1(1) [OF True c_def refl] ascii True prems tables by (simp add: p)
      finally show ?thesis
        using ascii by (simp add: d esc_with.simps(2) esc_result_map pending_text_simps run)
    next
      case two
      then have "\<not> ne c" using keep [of c] by auto
      have "encodeStr_loop ne ht str i l out =
              encodeStr_loop ne ht str (i + 1) (i + 1) (out @ pending_text str l i @ pct (utf8 c))"
        by (subst encodeStr_loop.simps) (use two True in \<open>simp add: c_def Let_def p run\<close>)
      also have "\<dots> = esc_result ((out @ pending_text str l i @ pct (utf8 c)) @ pending_text str (i + 1) (i + 1))
                        (esc_with ne ht (drop (i + 1) str))"
        using 1(3) [OF True c_def refl] two True prems tables by (simp add: p run)
      finally show ?thesis
        using two \<open>\<not> ne c\<close> by (simp add: d esc_with.simps(2) esc_result_map pending_text_simps)
    next
      case three
      then have "\<not> ne c" using keep [of c] by auto
      have "encodeStr_loop ne ht str i l out =
              encodeStr_loop ne ht str (i + 1) (i + 1) (out @ pending_text str l i @ pct (utf8 c))"
        by (subst encodeStr_loop.simps) (use three True c16 in \<open>simp add: c_def Let_def p run\<close>)
      also have "\<dots> = esc_result ((out @ pending_text str l i @ pct (utf8 c)) @ pending_text str (i + 1) (i + 1))
                        (esc_with ne ht (drop (i + 1) str))"
        using 1(4) [OF True c_def refl] three True prems tables c16 by (simp add: p run)
      finally show ?thesis
        using three \<open>\<not> ne c\<close> by (simp add: d esc_with.simps(2) esc_result_map pending_text_simps)
    next
      case pair
      then have ne: "\<not> ne c" using keep [of c] by auto
      show ?thesis
      proof (cases "i + 1 < length str")
        case False
        then have "drop (Suc i) str = []" by simp
        then show ?thesis using pair True False ne
          by (subst encodeStr_loop.simps) (simp add: d esc_with.simps esc_result_def flip: c_def)
      next
        case t2: True
        define e where "e = str ! (i + 1)"
        define q where "q = 0x10000 + (c mod 1024 * 1024 + e mod 1024)"
        have q: "0x10000 + (push_bit 10 (c AND 0x3FF) OR (e AND 0x3FF)) = q" "0x10000 \<le> q" "q < 0x110000"
          by (simp_all only: pair_bits q_def)
        have d2: "drop (Suc i) str = e # drop (Suc (Suc i)) str"
          using t2 by (simp add: e_def Cons_nth_drop_Suc)
        have "encodeStr_loop ne ht str i l out =
                encodeStr_loop ne ht str (i + 2) (i + 2) (out @ pending_text str l i @ pct (utf8 q))"
          by (subst encodeStr_loop.simps)
             (use pair True t2 q in \<open>simp add: c_def e_def Let_def p run(3)\<close>)
        also have "\<dots> = esc_result ((out @ pending_text str l i @ pct (utf8 q)) @ pending_text str (i + 2) (i + 2))
                          (esc_with ne ht (drop (i + 2) str))"
          using 1(5) [OF True c_def refl] pair t2 q prems tables by (simp add: e_def p run)
        finally show ?thesis
          using pair ne by (simp add: d d2 esc_with.simps(2) esc_result_map pending_text_simps q_def)
      qed
    qed
  qed
qed

lemma encodeStr_esc_with:
  "escape_tables ne ht \<Longrightarrow> is_jsstring s \<Longrightarrow> encodeStr s ne ht = esc_result [] (esc_with ne ht s)"
  using encodeStr_loop_esc [of ne ht 0 0 s "[]"] by (simp add: encodeStr_def pending_text_simps esc_result_def)

interpretation std: escape_tables noEscape hexTable
  by unfold_locales (use noEscape_bounds in fastforce)+

lemma esc_with_std: "esc_with noEscape hexTable s = esc s"
  by (induction s rule: esc.induct) (auto simp: esc.simps(2) esc_with.simps(2) pct_utf8 split: list.split)

lemma encodeStr_esc: "is_jsstring s \<Longrightarrow> encodeStr s noEscape hexTable = esc_result [] (esc s)"
  using encodeStr_esc_with [OF std.escape_tables_axioms] by (simp add: esc_with_std)

subsection \<open>Reading it back\<close>

lemma unhex_hex_digit [simp]: "n < 16 \<Longrightarrow> unhexTable (hex_digit n) = Some n"
  by (auto simp: unhexTable_def hex_digit_def)

lemma decode_plain: "c \<noteq> 37 \<Longrightarrow> decodeURIComponent (c # s) = map_option ((#) c) (decodeURIComponent s)"
  by (simp add: decodeURIComponent.simps)

lemma decode_no_percent: "37 \<notin> set e \<Longrightarrow> decodeURIComponent e = Some e"
  by (induction e) (simp_all add: decode_plain)

lemma cont_bytes_hexTable:
  "0x80 \<le> b \<Longrightarrow> b < 0xC0 \<Longrightarrow>
   cont_bytes (Suc n) (hexTable b @ s) = map_option (\<lambda>(bs, t). (b # bs, t)) (cont_bytes n s)"
proof -
  assume b: "0x80 \<le> b" "b < 0xC0"
  then have "16 * (b div 16) + b mod 16 = b" "b div 16 < 16" by auto
  then show ?thesis using b by (simp add: hexTable_def)
qed

lemma decode_hexTable:
  assumes "b < 256"
  shows "decodeURIComponent (hexTable b @ t) =
           (if b < 0x80 then map_option ((#) b) (decodeURIComponent t)
            else if b < 0xC0 \<or> 0xF8 \<le> b then None
            else case cont_bytes (if b < 0xE0 then 1 else if b < 0xF0 then 2 else 3) t of
              None \<Rightarrow> None
            | Some (bs, t') \<Rightarrow>
                (case utf8_point b bs of
                   None \<Rightarrow> None
                 | Some p \<Rightarrow> map_option ((@) (utf16 p)) (decodeURIComponent t')))"
proof -
  have "16 * (b div 16) + b mod 16 = b" "b div 16 < 16" using assms by auto
  then show ?thesis by (simp add: hexTable_def decodeURIComponent.simps Let_def)
qed

lemma sextet: "64 * (q div 64) + q mod 64 = (q :: nat)"
  by simp

lemma sextets:
  fixes p :: nat
  shows "64 * (64 * (p div 4096) + p div 64 mod 64) + p mod 64 = p"
    and "64 * (64 * (64 * (p div 262144) + p div 4096 mod 64) + p div 64 mod 64) + p mod 64 = p"
proof -
  have 1: "p div 4096 = p div 64 div 64" and 2: "p div 262144 = p div 64 div 64 div 64"
    by (simp_all flip: div_mult2_eq)
  show "64 * (64 * (p div 4096) + p div 64 mod 64) + p mod 64 = p"
    unfolding 1 sextet by (rule refl)
  show "64 * (64 * (64 * (p div 262144) + p div 4096 mod 64) + p div 64 mod 64) + p mod 64 = p"
    unfolding 1 2 sextet by (rule refl)
qed

lemma tail_mod [simp]: "x < 64 \<Longrightarrow> (128 + x) mod 64 = (x::nat)"
  using mod_mult_self2 [of x 64 2] by (simp add: add.commute)

lemma utf8_point_simps:
  "a < 32 \<Longrightarrow> b < 64 \<Longrightarrow> 0x80 \<le> 64 * a + b \<Longrightarrow> utf8_point (0xC0 + a) [0x80 + b] = Some (64 * a + b)"
  "a < 16 \<Longrightarrow> b < 64 \<Longrightarrow> c < 64 \<Longrightarrow> p = 64 * (64 * a + b) + c \<Longrightarrow> 0x800 \<le> p \<Longrightarrow>
     p < 0xD800 \<or> 0xE000 \<le> p \<Longrightarrow> utf8_point (0xE0 + a) [0x80 + b, 0x80 + c] = Some p"
  "a < 8 \<Longrightarrow> b < 64 \<Longrightarrow> c < 64 \<Longrightarrow> d < 64 \<Longrightarrow> p = 64 * (64 * (64 * a + b) + c) + d \<Longrightarrow>
     0x10000 \<le> p \<Longrightarrow> p < 0x110000 \<Longrightarrow> utf8_point (0xF0 + a) [0x80 + b, 0x80 + c, 0x80 + d] = Some p"
proof -
  have m: "a < 32 \<Longrightarrow> (0xC0 + a) mod 32 = a" "a < 16 \<Longrightarrow> (0xE0 + a) mod 16 = a" "a < 8 \<Longrightarrow> (0xF0 + a) mod 8 = a"
    for a :: nat
    using mod_mult_self2 [of a 32 6] mod_mult_self2 [of a 16 14] mod_mult_self2 [of a 8 30]
    by (simp_all add: add.commute)
  show "a < 32 \<Longrightarrow> b < 64 \<Longrightarrow> 0x80 \<le> 64 * a + b \<Longrightarrow> utf8_point (0xC0 + a) [0x80 + b] = Some (64 * a + b)"
    by (simp add: utf8_point_def Let_def m)
  show "a < 16 \<Longrightarrow> b < 64 \<Longrightarrow> c < 64 \<Longrightarrow> p = 64 * (64 * a + b) + c \<Longrightarrow> 0x800 \<le> p \<Longrightarrow>
     p < 0xD800 \<or> 0xE000 \<le> p \<Longrightarrow> utf8_point (0xE0 + a) [0x80 + b, 0x80 + c] = Some p"
    by (simp add: utf8_point_def Let_def m)
  show "a < 8 \<Longrightarrow> b < 64 \<Longrightarrow> c < 64 \<Longrightarrow> d < 64 \<Longrightarrow> p = 64 * (64 * (64 * a + b) + c) + d \<Longrightarrow>
     0x10000 \<le> p \<Longrightarrow> p < 0x110000 \<Longrightarrow> utf8_point (0xF0 + a) [0x80 + b, 0x80 + c, 0x80 + d] = Some p"
    by (simp add: utf8_point_def Let_def m)
qed

lemma decode_utf8:
  assumes "p < 0x110000" "p < 0xD800 \<or> 0xE000 \<le> p"
  shows "decodeURIComponent (pct (utf8 p) @ t) = map_option ((@) (utf16 p)) (decodeURIComponent t)"
proof -
  note run = pct_def decode_hexTable cont_bytes_hexTable
  have cont: "0x80 \<le> 0x80 + x mod 64" "0x80 + x mod 64 < (0xC0::nat)" for x :: nat by simp_all
  consider "p < 0x80" | "0x80 \<le> p" "p < 0x800" | "0x800 \<le> p" "p < 0x10000" | "0x10000 \<le> p" by linarith
  then show ?thesis
  proof cases
    case 1
    have "(@) [p] = (#) p" by (rule ext) simp
    with 1 show ?thesis by (simp add: utf8_def pct_def decode_hexTable utf16_def)
  next
    case 2
    define a where "a = p div 64"
    have a: "a < 32" "2 \<le> a" using 2 by (simp_all add: a_def div_less_iff_less_mult less_eq_div_iff_mult_less_eq)
    have "utf8_point (0xC0 + a) [0x80 + p mod 64] = Some p"
      using utf8_point_simps(1) [of a "p mod 64"] a 2 sextet [of p] by (simp add: a_def)
    moreover have "pct (utf8 p) = hexTable (0xC0 + a) @ hexTable (0x80 + p mod 64)"
      using 2 by (simp add: utf8_def pct_def a_def)
    ultimately show ?thesis
      using a cont_bytes_hexTable [OF cont, of 0 p t] by (simp add: decode_hexTable del: cont_bytes.simps(2,3))
  next
    case 3
    define a where "a = p div 4096"
    have a: "a < 16" using 3 by (simp add: a_def div_less_iff_less_mult)
    have "utf8_point (0xE0 + a) [0x80 + p div 64 mod 64, 0x80 + p mod 64] = Some p"
      by (rule utf8_point_simps(2)) (use a 3 assms sextets(1) [of p] in \<open>simp_all add: a_def\<close>)
    moreover have "pct (utf8 p) = hexTable (0xE0 + a) @ hexTable (0x80 + p div 64 mod 64) @ hexTable (0x80 + p mod 64)"
      using 3 by (simp add: utf8_def pct_def a_def)
    ultimately show ?thesis
      using a cont_bytes_hexTable [OF cont, of 1 "p div 64"] cont_bytes_hexTable [OF cont, of 0 p t]
      by (simp add: decode_hexTable numeral_2_eq_2 del: cont_bytes.simps(2,3))
  next
    case 4
    define a where "a = p div 262144"
    have a: "a < 8" using assms 4 by (simp add: a_def div_less_iff_less_mult)
    have "utf8_point (0xF0 + a) [0x80 + p div 4096 mod 64, 0x80 + p div 64 mod 64, 0x80 + p mod 64] = Some p"
      by (rule utf8_point_simps(3)) (use a 4 assms sextets(2) [of p] in \<open>simp_all add: a_def\<close>)
    moreover have "pct (utf8 p) = hexTable (0xF0 + a) @ hexTable (0x80 + p div 4096 mod 64) @
        hexTable (0x80 + p div 64 mod 64) @ hexTable (0x80 + p mod 64)"
      using 4 by (simp add: utf8_def pct_def a_def)
    ultimately show ?thesis
      using a cont_bytes_hexTable [OF cont, of 2 "p div 4096"] cont_bytes_hexTable [OF cont, of 1 "p div 64"]
        cont_bytes_hexTable [OF cont, of 0 p t]
      by (simp add: decode_hexTable numeral_2_eq_2 numeral_3_eq_3 del: cont_bytes.simps(2,3))
  qed
qed

text \<open>The tokens of escaped text.\<close>

inductive escaped :: "jsstring \<Rightarrow> bool" where
  Nil: "escaped []"
| Plain: "noEscape c \<Longrightarrow> escaped s \<Longrightarrow> escaped (c # s)"
| Triple: "isHexTable h \<Longrightarrow> isHexTable l \<Longrightarrow> escaped s \<Longrightarrow> escaped (37 # h # l # s)"

lemma isHexTable_hex_digit [simp]: "n < 16 \<Longrightarrow> isHexTable (hex_digit n)"
  by (auto simp: isHexTable_def hex_digit_def)

lemma escaped_pct: "list_all (\<lambda>b. b < 256) bs \<Longrightarrow> escaped s \<Longrightarrow> escaped (pct bs @ s)"
  by (induction bs) (auto simp: pct_def hexTable_def intro!: escaped.Triple)

lemma utf8_bytes: "p < 0x110000 \<Longrightarrow> list_all (\<lambda>b. b < 256) (utf8 p)"
  by (auto simp: utf8_def div_less_iff_less_mult intro: less_le_trans [OF mod_less_divisor])

lemma escaped_esc: "is_jsstring s \<Longrightarrow> esc s = Some e \<Longrightarrow> escaped e"
proof (induction s arbitrary: e rule: esc.induct)
  case (2 c s)
  then show ?case
    by (auto simp: esc.simps(2) is_jsstring_def utf8_bytes intro!: escaped.Plain escaped_pct split: if_splits list.splits)
qed (simp add: escaped.Nil)

lemma isHexTable_noEscape: "isHexTable c \<Longrightarrow> noEscape c"
  by (auto simp: isHexTable_def noEscape_def)

lemma escaped_units: "escaped e \<Longrightarrow> c \<in> set e \<Longrightarrow> noEscape c \<or> c = 37"
  by (induction rule: escaped.induct) (auto simp: isHexTable_noEscape)

lemma well_formed_jsstring: "well_formed s \<Longrightarrow> is_jsstring s"
  by (induction s rule: well_formed.induct) (auto simp: is_jsstring_def split: if_splits)

text \<open>Whatever units are kept, decoding restores the string.\<close>

context escape_tables
begin

lemma esc_unit:
  assumes "c < 0x10000" "c < 0xD800 \<or> 0xE000 \<le> c" "esc_with ne hexTable s = Some e" "decodeURIComponent e = Some s"
  shows "\<exists>e'. esc_with ne hexTable (c # s) = Some e' \<and> decodeURIComponent e' = Some (c # s)"
proof (cases "ne c")
  case True
  then show ?thesis using assms ne_ascii [of c] by (simp add: esc_with.simps(2) decode_plain)
next
  case False
  then have "esc_with ne hexTable (c # s) = Some (pct (utf8 c) @ e)"
    using assms by (auto simp: esc_with.simps(2) pct_utf8(1))
  then show ?thesis using assms by (simp add: decode_utf8 utf16_def)
qed

lemma well_formed_esc: "well_formed s \<Longrightarrow> \<exists>e. esc_with ne hexTable s = Some e \<and> decodeURIComponent e = Some s"
proof (induction s rule: well_formed.induct)
  case (2 c)
  then show ?case by (intro esc_unit) auto
next
  case (3 c d s)
  show ?case
  proof (cases "0xD800 \<le> c \<and> c < 0xE000")
    case True
    with 3 obtain e where e: "esc_with ne hexTable s = Some e" "decodeURIComponent e = Some s"
        and d: "c < 0xDC00" "0xDC00 \<le> d" "d < 0xE000" by auto
    have "\<not> ne c" using True ne_ascii [of c] by auto
    moreover have "c mod 1024 * 1024 + d mod 1024 < 0x100000"
      using mod_less_divisor [of 1024 c] mod_less_divisor [of 1024 d] by linarith
    ultimately show ?thesis
      using True e d by (simp add: esc_with.simps(2) decode_utf8 utf16_pair)
  next
    case False
    with 3 show ?thesis by (auto intro: esc_unit)
  qed
qed simp

end

lemma esc_reads_back: "well_formed s \<Longrightarrow> \<exists>e. esc s = Some e \<and> decodeURIComponent e = Some s"
  using std.well_formed_esc [of s] by (simp add: esc_with_std)

lemma qsEscape_reads_back:
  "well_formed s \<Longrightarrow> \<exists>e. qsEscape s = Inr e \<and> esc s = Some e \<and> decodeURIComponent e = Some s"
  using esc_reads_back [of s]
  by (auto simp: qsEscape_def encodeStr_esc well_formed_jsstring esc_result_def)

interpretation qs_codec: codec well_formed qsEscape "\<lambda>e. Inr (qsUnescape env e b)" for env b
proof
  fix s assume "well_formed s"
  from qsEscape_reads_back [OF this] show "\<exists>e. qsEscape s = Inr e \<and> Inr (qsUnescape env e b) = (Inr s :: jsstring result)"
    by (auto simp: qsUnescape_def)
qed

text \<open>Different well-formed strings have different escaped texts.\<close>

lemma qsEscape_inj: "well_formed s \<Longrightarrow> well_formed t \<Longrightarrow> qsEscape s = qsEscape t \<Longrightarrow> s = t"
  by (rule qs_codec.enc_inj)

text \<open>
  \<^verbatim>\<open>escape\<close> of a well-formed UTF-16 string succeeds, its answer holds only unreserved units and
  percent signs, and \<^verbatim>\<open>unescape\<close> of the answer is the string.
\<close>

lemma qsEscape_roundtrip:
  assumes "well_formed s"
  shows "\<exists>e. qsEscape s = Inr e \<and> list_all (\<lambda>c. noEscape c \<or> c = 37) e \<and> qsUnescape env e decodeSpaces = s"
proof -
  obtain e where e: "qsEscape s = Inr e" "esc s = Some e" using qsEscape_reads_back [OF assms] by blast
  have "list_all (\<lambda>c. noEscape c \<or> c = 37) e"
    using escaped_units [OF escaped_esc [OF well_formed_jsstring [OF assms] e(2)]] by (auto simp: list_all_iff)
  then show ?thesis using e(1) qs_codec.enc_dec [OF assms e(1), of env decodeSpaces] by auto
qed

lemma qsEscape_roundtrip_witness:
  "\<exists>e. qsEscape [97, 0x20AC, 0xD83D, 0xDE00] = Inr e \<and> list_all (\<lambda>c. noEscape c \<or> c = 37) e \<and>
       qsUnescape ascii_query e False = [97, 0x20AC, 0xD83D, 0xDE00]"
  by (rule qsEscape_roundtrip) simp

subsection \<open>Percent decoding into a buffer\<close>

lemma unescape_loop_bounds:
  "unescape_loop s d i out hasHex = (r, h) \<Longrightarrow> i \<le> length s \<Longrightarrow> length out \<le> i \<Longrightarrow> (\<not> hasHex \<longrightarrow> length out = i) \<Longrightarrow>
   list_all (\<lambda>b. b < 256) out \<Longrightarrow>
   length r \<le> length s \<and> (\<not> h \<longrightarrow> length r = length s) \<and> list_all (\<lambda>b. b < 256) r"
proof (induction s d i out hasHex rule: unescape_loop.induct)
  case (1 s d i out hasHex)
  note step = 1(6) [unfolded unescape_loop.simps [of s d i out hasHex]]
  show ?case
  proof (cases "i < length s")
    case False
    then show ?thesis using step 1(7-) by auto
  next
    case True
    note IH = 1(1-5) [OF True refl]
    consider (plus) "s ! i = 43" "d" | (pct) "\<not> (s ! i = 43 \<and> d)" "s ! i = 37" "int i < int (length s) - 2"
      | (other) "\<not> (s ! i = 43 \<and> d)" "\<not> (s ! i = 37 \<and> int i < int (length s) - 2)"
      by blast
    then show ?thesis
    proof cases
      case plus
      then show ?thesis using IH(1) step 1(7-) True by (simp add: Let_def)
    next
      case other
      then show ?thesis using IH(5) step 1(7-) True by (auto simp: Let_def)
    next
      case pct
      show ?thesis
      proof (cases "unhexTable (s ! (i + 1))")
        case None
        then show ?thesis using IH(2) pct step 1(7-) True by (simp add: Let_def)
      next
        case (Some a)
        then show ?thesis
          using IH(3,4) pct step 1(7-) True by (cases "unhexTable (s ! (i + 2))") (simp_all add: Let_def)
      qed
    qed
  qed
qed

lemma unescape_loop_pct:
  "list_all (\<lambda>b. b < 256) bs \<Longrightarrow>
   unescape_loop (pre @ pct bs) d (length pre) out hasHex = (out @ bs, hasHex \<or> bs \<noteq> [])"
proof (induction bs arbitrary: pre out hasHex)
  case Nil
  then show ?case by (simp add: pct_def unescape_loop.simps)
next
  case (Cons b bs)
  have "16 * (b div 16) + b mod 16 = b" "b div 16 < 16" using Cons.prems by auto
  moreover have "unescape_loop ((pre @ hexTable b) @ pct bs) d (length (pre @ hexTable b)) (out @ [b]) True =
      ((out @ [b]) @ bs, True)"
    using Cons.IH [of "pre @ hexTable b" "out @ [b]" True] Cons.prems by simp
  ultimately show ?case
    using Cons.prems
    by (subst unescape_loop.simps) (simp add: pct_def hexTable_def nth_append Let_def mult.commute numeral_3_eq_3)
qed

text \<open>
  Whatever the memory held that \<^verbatim>\<open>unescapeBuffer\<close> takes, its answer is the same bytes, no more than
  the string has units; percent triples of bytes are decoded to the bytes.
\<close>

lemma unescapeBuffer_bytes:
  assumes "length (allocUnsafe env (length s)) = length s"
  shows "unescapeBuffer env s d = unescapeBuffer ascii_query s d \<and> length (unescapeBuffer env s d) \<le> length s \<and>
         list_all (\<lambda>b. b < 256) (unescapeBuffer env s d) \<and>
         (\<forall>bs. list_all (\<lambda>b. b < 256) bs \<and> s = concat (map hexTable bs) \<longrightarrow> unescapeBuffer env s d = bs)"
proof -
  obtain r h where r: "unescape_loop s d 0 [] False = (r, h)" by (cases "unescape_loop s d 0 [] False")
  then have b: "length r \<le> length s" "\<not> h \<longrightarrow> length r = length s" "list_all (\<lambda>b. b < 256) r"
    using unescape_loop_bounds [OF r] by simp_all
  then have buf: "unescapeBuffer e s d = r" if "length (allocUnsafe e (length s)) = length s" for e
    using that by (auto simp: unescapeBuffer_def r Let_def)
  have "r = bs" if "list_all (\<lambda>b. b < 256) bs" "s = pct bs" for bs
    using unescape_loop_pct [OF that(1), of "[]" d "[]" False] r that(2) by simp
  then show ?thesis using b buf [OF assms] buf [of ascii_query] by (auto simp: pct_def)
qed

lemma unescapeBuffer_bytes_witness:
  "unescapeBuffer \<lparr>allocUnsafe = \<lambda>n. replicate n 7, buffer_toString = id, number_toString = \<lambda>_. []\<rparr>
     (js ''%41%FF'') True = [65, 255]"
  using unescapeBuffer_bytes [of "\<lparr>allocUnsafe = \<lambda>n. replicate n 7, buffer_toString = id, number_toString = \<lambda>_. []\<rparr>"
      "js ''%41%FF''" True]
  by (auto dest: spec [of _ "[65, 255]"] simp: hexTable_def hex_digit_def)

end
