(* ===== verification/QueryParseProps.thy ===== *)
theory QueryParseProps
  imports QueryParse QueryEscape
begin

text \<open>
  What \<^verbatim>\<open>parse\<close> does on escaped text and on what \<^verbatim>\<open>stringify\<close> prints. \<open>run_state\<close> is a state of the
  loop outside a separator; the lemmas on tokens, keys, values and pairs each move the loop over one
  piece of the text, and the round trip is an induction on the pairs.
\<close>

subsection \<open>One pair at a time\<close>

definition text_args :: "query_env \<Rightarrow> jsstring \<Rightarrow> parse_args" where
  "text_args env qs = \<lparr>pa_env = env, pa_decode = None, pa_qs = qs, sepCodes = [38], eqCodes = [61]\<rparr>"

definition run_state ::
    "query_obj \<Rightarrow> jsnum \<Rightarrow> nat \<Rightarrow> nat \<Rightarrow> jsstring \<Rightarrow> bool \<Rightarrow> bool \<Rightarrow> nat \<Rightarrow> parse_state" where
  "run_state obj n pos eq k ke ve ec =
     \<lparr>p_obj = obj, pairs = n, lastPos = pos, sepIdx = 0, eqIdx = eq, p_key = k, p_value = [],
      keyEncoded = ke, valEncoded = ve, encodeCheck = ec\<rparr>"

lemma text_args_simps [simp]:
  "pa_env (text_args env qs) = env" "pa_decode (text_args env qs) = None" "pa_qs (text_args env qs) = qs"
  "sepCodes (text_args env qs) = [38]" "eqCodes (text_args env qs) = [61]"
  "customDecode (text_args env qs) = False"
  by (simp_all add: text_args_def customDecode_def)

lemmas step_simps = parse_step_def key_char_def value_char_def run_state_def Let_def

lemma hex_not_special: "isHexTable c \<Longrightarrow> c \<noteq> 37 \<and> c \<noteq> 38 \<and> c \<noteq> 43 \<and> c \<noteq> 61"
  by (auto simp: isHexTable_def)

lemma value_char_flags:
  assumes "c \<noteq> 43"
  shows "value_char a i c (run_state obj n pos eq k ke ve ec) =
    (if ve then run_state obj n pos eq k ke ve ec
     else if c = 37 then run_state obj n pos eq k ke ve 1
     else if ec > 0 then
       (if isHexTable c then run_state obj n pos eq k ke (ec = 2) (ec + 1) else run_state obj n pos eq k ke ve 0)
     else run_state obj n pos eq k ke ve ec)"
  using assms by (simp add: value_char_def run_state_def)

lemma key_step_value:
  assumes "qs ! i = c" "c \<noteq> 38" "c \<noteq> 61" "c \<noteq> 43" "ke \<or> c \<noteq> 37 \<and> ec = 0"
  shows "parse_step (text_args env qs) i (run_state obj n pos 0 k ke ve ec) =
           Inr (value_char (text_args env qs) i c (run_state obj n pos 0 k ke ve ec))"
  using assms by (cases ke) (simp_all add: parse_step_def key_char_def run_state_def Let_def)

lemma key_unit:
  assumes "qs ! i = c" "c \<noteq> 38" "c \<noteq> 61" "c \<noteq> 43" "ke \<or> c \<noteq> 37 \<and> ec = 0"
  shows "\<exists>ve' ec'. parse_step (text_args env qs) i (run_state obj n pos 0 k ke ve ec) =
           Inr (run_state obj n pos 0 k ke ve' ec') \<and> (ke \<or> ec' = 0)"
  unfolding key_step_value [OF assms] value_char_flags [OF assms(4)]
  by (cases ke) (use assms(5) in auto)

lemma key_percent:
  assumes "qs ! i = 37"
  shows "parse_step (text_args env qs) i (run_state obj n pos 0 k False ve ec) = Inr (run_state obj n pos 0 k False ve 1)"
  using assms by (simp add: step_simps)

lemma key_hex:
  assumes "isHexTable (qs ! i)" "0 < ec"
  shows "parse_step (text_args env qs) i (run_state obj n pos 0 k False ve ec) =
           Inr (run_state obj n pos 0 k (ec = 2) ve (ec + 1))"
  using assms hex_not_special [OF assms(1)] by (simp add: step_simps)

lemma value_unit:
  assumes "qs ! i = c" "c \<noteq> 38" "c \<noteq> 43" "ve \<or> c \<noteq> 37 \<and> ec = 0"
  shows "parse_step (text_args env qs) i (run_state obj n pos 1 k ke ve ec) = Inr (run_state obj n pos 1 k ke ve ec)"
  using assms by (auto simp: step_simps)

lemma value_percent:
  assumes "qs ! i = 37"
  shows "parse_step (text_args env qs) i (run_state obj n pos 1 k ke False ec) = Inr (run_state obj n pos 1 k ke False 1)"
  using assms by (simp add: step_simps)

lemma value_hex:
  assumes "isHexTable (qs ! i)" "0 < ec"
  shows "parse_step (text_args env qs) i (run_state obj n pos 1 k ke False ec) =
           Inr (run_state obj n pos 1 k ke (ec = 2) (ec + 1))"
  using assms hex_not_special [OF assms(1)] by (simp add: step_simps)

lemma loop_step:
  "i < length qs \<Longrightarrow> parse_step (text_args env qs) i st = Inr st' \<Longrightarrow>
   parse_loop (text_args env qs) i st = parse_loop (text_args env qs) (Suc i) st'"
  by (subst parse_loop.simps) simp

lemma key_loop:
  assumes "i < length qs" "qs ! i \<noteq> 38 \<and> qs ! i \<noteq> 61 \<and> qs ! i \<noteq> 43"
  shows "\<exists>ve' ec'. parse_loop (text_args env qs) i (run_state obj n pos 0 k True ve ec) =
    parse_loop (text_args env qs) (Suc i) (run_state obj n pos 0 k True ve' ec')"
  using key_unit [of qs i "qs ! i" True ec env obj n pos k ve] loop_step [OF assms(1)] assms(2) by fastforce

lemma scan_key:
  assumes "escaped e"
  shows "qs = pre @ e @ post \<Longrightarrow> i = length pre \<Longrightarrow> ke \<or> ec = 0 \<Longrightarrow>
    \<exists>ke' ve' ec'. parse_loop (text_args env qs) i (run_state obj n pos 0 k ke ve ec) =
      parse_loop (text_args env qs) (i + length e) (run_state obj n pos 0 k ke' ve' ec') \<and>
      (37 \<in> set e \<longrightarrow> ke') \<and> (ke \<longrightarrow> ke')"
  using assms
proof (induction arbitrary: pre i ke ve ec rule: escaped.induct)
  case Nil
  then show ?case by auto
next
  case (Plain c s)
  have "\<exists>ve' ec'. parse_step (text_args env qs) i (run_state obj n pos 0 k ke ve ec) =
      Inr (run_state obj n pos 0 k ke ve' ec') \<and> (ke \<or> ec' = 0)"
    by (rule key_unit [of _ _ c]) (use Plain.prems noEscape_bounds [OF Plain.hyps(1)] in auto)
  then obtain ve1 ec1 where s: "parse_step (text_args env qs) i (run_state obj n pos 0 k ke ve ec) =
      Inr (run_state obj n pos 0 k ke ve1 ec1)" and e1: "ke \<or> ec1 = 0" by blast
  from Plain.IH [of "pre @ [c]" "Suc i" ke ec1 ve1] e1 Plain.prems obtain ke' ve' ec' where
    "parse_loop (text_args env qs) (Suc i) (run_state obj n pos 0 k ke ve1 ec1) =
       parse_loop (text_args env qs) (Suc i + length s) (run_state obj n pos 0 k ke' ve' ec')"
    "37 \<in> set s \<longrightarrow> ke'" "ke \<longrightarrow> ke'" by auto
  then show ?case using loop_step [OF _ s] Plain.prems noEscape_bounds [OF Plain.hyps(1)] by auto
next
  case (Triple h l s)
  have u: "i + 2 < length qs" "qs ! i = 37" "qs ! (i + 1) = h" "qs ! (i + 2) = l"
    using Triple.prems by (simp_all add: nth_append)
  have "\<exists>ve1 ec1. parse_loop (text_args env qs) i (run_state obj n pos 0 k ke ve ec) =
      parse_loop (text_args env qs) (i + 3) (run_state obj n pos 0 k True ve1 ec1)"
  proof (cases ke)
    case False
    then have "parse_step (text_args env qs) i (run_state obj n pos 0 k ke ve ec) = Inr (run_state obj n pos 0 k False ve 1)"
      using key_percent u by simp
    moreover have "parse_step (text_args env qs) (i + 1) (run_state obj n pos 0 k False ve 1) =
        Inr (run_state obj n pos 0 k False ve 2)"
      using key_hex [of qs "i + 1" 1] u Triple.hyps by (simp add: numeral_2_eq_2)
    moreover have "parse_step (text_args env qs) (i + 2) (run_state obj n pos 0 k False ve 2) =
        Inr (run_state obj n pos 0 k True ve 3)"
      using key_hex [of qs "i + 2" 2] u Triple.hyps by (simp add: numeral_3_eq_3)
    ultimately show ?thesis
      using loop_step [of i qs env] loop_step [of "i + 1" qs env] loop_step [of "i + 2" qs env] u
      by (auto simp: numeral_3_eq_3)
  next
    case True
    have sp: "c \<noteq> 38 \<and> c \<noteq> 61 \<and> c \<noteq> 43" if "c = 37 \<or> isHexTable c" for c
      using that hex_not_special [of c] by auto
    obtain ve1 ec1 where 1: "parse_loop (text_args env qs) i (run_state obj n pos 0 k True ve ec) =
        parse_loop (text_args env qs) (Suc i) (run_state obj n pos 0 k True ve1 ec1)"
      using key_loop [of i qs env obj n pos k ve ec] sp [of 37] u by auto
    obtain ve2 ec2 where 2: "parse_loop (text_args env qs) (Suc i) (run_state obj n pos 0 k True ve1 ec1) =
        parse_loop (text_args env qs) (Suc (Suc i)) (run_state obj n pos 0 k True ve2 ec2)"
      using key_loop [of "Suc i" qs env obj n pos k ve1 ec1] sp [of h] u Triple.hyps by auto
    obtain ve3 ec3 where "parse_loop (text_args env qs) (Suc (Suc i)) (run_state obj n pos 0 k True ve2 ec2) =
        parse_loop (text_args env qs) (Suc (Suc (Suc i))) (run_state obj n pos 0 k True ve3 ec3)"
      using key_loop [of "Suc (Suc i)" qs env obj n pos k ve2 ec2] sp [of l] u Triple.hyps by auto
    then show ?thesis using True 1 2 by (auto simp: numeral_3_eq_3)
  qed
  then obtain ve1 ec1 where 3: "parse_loop (text_args env qs) i (run_state obj n pos 0 k ke ve ec) =
      parse_loop (text_args env qs) (i + 3) (run_state obj n pos 0 k True ve1 ec1)" by blast
  from Triple.IH [of "pre @ [37, h, l]" "i + 3" True ec1 ve1] Triple.prems obtain ke' ve' ec' where
    "parse_loop (text_args env qs) (i + 3) (run_state obj n pos 0 k True ve1 ec1) =
       parse_loop (text_args env qs) (i + 3 + length s) (run_state obj n pos 0 k ke' ve' ec')" "ke'"
    by auto
  then have "parse_loop (text_args env qs) i (run_state obj n pos 0 k ke ve ec) =
      parse_loop (text_args env qs) (i + length (37 # h # l # s)) (run_state obj n pos 0 k ke' ve' ec') \<and> ke'"
    by (simp add: 3 numeral_3_eq_3)
  then show ?case by blast
qed

lemma scan_value:
  assumes "escaped e"
  shows "qs = pre @ e @ post \<Longrightarrow> i = length pre \<Longrightarrow> ve \<or> ec = 0 \<Longrightarrow>
    \<exists>ve' ec'. parse_loop (text_args env qs) i (run_state obj n pos 1 k ke ve ec) =
      parse_loop (text_args env qs) (i + length e) (run_state obj n pos 1 k ke ve' ec') \<and>
      (37 \<in> set e \<longrightarrow> ve') \<and> (ve \<longrightarrow> ve')"
  using assms
proof (induction arbitrary: pre i ve ec rule: escaped.induct)
  case Nil
  then show ?case by auto
next
  case (Plain c s)
  have s: "parse_step (text_args env qs) i (run_state obj n pos 1 k ke ve ec) = Inr (run_state obj n pos 1 k ke ve ec)"
    by (rule value_unit [of _ _ c]) (use Plain.prems noEscape_bounds [OF Plain.hyps(1)] in auto)
  from Plain.IH [of "pre @ [c]" "Suc i" ve ec] Plain.prems obtain ve' ec' where
    "parse_loop (text_args env qs) (Suc i) (run_state obj n pos 1 k ke ve ec) =
       parse_loop (text_args env qs) (Suc i + length s) (run_state obj n pos 1 k ke ve' ec')"
    "37 \<in> set s \<longrightarrow> ve'" "ve \<longrightarrow> ve'" by auto
  then show ?case using loop_step [OF _ s] Plain.prems noEscape_bounds [OF Plain.hyps(1)] by auto
next
  case (Triple h l s)
  have u: "i + 2 < length qs" "qs ! i = 37" "qs ! (i + 1) = h" "qs ! (i + 2) = l"
    using Triple.prems by (simp_all add: nth_append)
  have "\<exists>ec1. parse_loop (text_args env qs) i (run_state obj n pos 1 k ke ve ec) =
      parse_loop (text_args env qs) (i + 3) (run_state obj n pos 1 k ke True ec1)"
  proof (cases ve)
    case False
    then have "parse_step (text_args env qs) i (run_state obj n pos 1 k ke ve ec) = Inr (run_state obj n pos 1 k ke False 1)"
      using value_percent u by simp
    moreover have "parse_step (text_args env qs) (i + 1) (run_state obj n pos 1 k ke False 1) =
        Inr (run_state obj n pos 1 k ke False 2)"
      using value_hex [of qs "i + 1" 1] u Triple.hyps by (simp add: numeral_2_eq_2)
    moreover have "parse_step (text_args env qs) (i + 2) (run_state obj n pos 1 k ke False 2) =
        Inr (run_state obj n pos 1 k ke True 3)"
      using value_hex [of qs "i + 2" 2] u Triple.hyps by (simp add: numeral_3_eq_3)
    ultimately show ?thesis
      using loop_step [of i qs env] loop_step [of "i + 1" qs env] loop_step [of "i + 2" qs env] u
      by (auto simp: numeral_3_eq_3)
  next
    case True
    have "parse_loop (text_args env qs) j (run_state obj n pos 1 k ke True ec) =
        parse_loop (text_args env qs) (Suc j) (run_state obj n pos 1 k ke True ec)"
      if "j < length qs" "qs ! j = 37 \<or> isHexTable (qs ! j)" for j
      using value_unit [of qs j "qs ! j" True ec] that hex_not_special [of "qs ! j"] by (intro loop_step) auto
    from this [of i] this [of "Suc i"] this [of "Suc (Suc i)"] show ?thesis
      using u Triple.hyps True by (auto simp: numeral_3_eq_3)
  qed
  then obtain ec1 where 3: "parse_loop (text_args env qs) i (run_state obj n pos 1 k ke ve ec) =
      parse_loop (text_args env qs) (i + 3) (run_state obj n pos 1 k ke True ec1)" by blast
  from Triple.IH [of "pre @ [37, h, l]" "i + 3" True ec1] Triple.prems obtain ve' ec' where
    "parse_loop (text_args env qs) (i + 3) (run_state obj n pos 1 k ke True ec1) =
       parse_loop (text_args env qs) (i + 3 + length s) (run_state obj n pos 1 k ke ve' ec')" "ve'"
    by auto
  then have "parse_loop (text_args env qs) i (run_state obj n pos 1 k ke ve ec) =
      parse_loop (text_args env qs) (i + length (37 # h # l # s)) (run_state obj n pos 1 k ke ve' ec') \<and> ve'"
    using 3 by (simp add: numeral_3_eq_3)
  then show ?case by blast
qed

lemma eq_step:
  assumes "qs = pre @ e @ 61 # post"
  shows "parse_loop (text_args env qs) (length pre + length e) (run_state obj n (length pre) 0 [] ke ve ec) =
         parse_loop (text_args env qs) (Suc (length pre + length e)) (run_state obj n (Suc (length pre + length e)) 1 e ke ve 0)"
proof (rule loop_step)
  have "e = []" if "\<not> length pre < length pre + length e" using that by simp
  then show "parse_step (text_args env qs) (length pre + length e) (run_state obj n (length pre) 0 [] ke ve ec) =
      Inr (run_state obj n (Suc (length pre + length e)) 1 e ke ve 0)"
    using assms slice_middle [of pre e "61 # post"] by (simp add: step_simps pending_def nth_append)
qed (simp add: assms)

lemma sep_step:
  assumes "qs = pre @ e @ 38 # post" "num_pred n \<noteq> Fin 0"
  shows "parse_loop (text_args env qs) (length pre + length e) (run_state obj n (length pre) 1 k ke ve ec) =
         parse_loop (text_args env qs) (Suc (length pre + length e))
           (run_state (addKeyVal env None obj k e ke ve) (num_pred n) (Suc (length pre + length e)) 0 [] False False 0)"
proof (rule loop_step)
  have "e = []" if "\<not> length pre < length pre + length e" using that by simp
  then show "parse_step (text_args env qs) (length pre + length e) (run_state obj n (length pre) 1 k ke ve ec) =
      Inr (run_state (addKeyVal env None obj k e ke ve) (num_pred n) (Suc (length pre + length e)) 0 [] False False 0)"
    using assms slice_middle [of pre e "38 # post"]
    by (simp add: step_simps pair_end_def store_pair_def pending_def nth_append)
qed (simp add: assms)

lemma rest_step:
  assumes "qs = pre @ e"
  shows "parse_loop (text_args env qs) (length pre + length e) (run_state obj n (length pre) 1 k ke ve ec) =
         addKeyVal env None obj k e ke ve"
  using assms by (subst parse_loop.simps) (simp add: parse_rest_def run_state_def store_pair_def slice_from_nonneg)

subsection \<open>A text of pairs\<close>

definition put_pair :: "query_obj \<Rightarrow> jsstring \<times> jsstring \<Rightarrow> query_obj" where
  "put_pair obj p =
     (case map_of obj (fst p) of
        None \<Rightarrow> set_field (fst p) (One (snd p)) obj
      | Some (Many vs) \<Rightarrow> set_field (fst p) (Many (vs @ [snd p])) obj
      | Some (One v) \<Rightarrow> set_field (fst p) (Many [v, snd p]) obj)"

text \<open>Escaped text that denotes a string.\<close>

definition denotes :: "jsstring \<Rightarrow> jsstring \<Rightarrow> bool" where
  "denotes e s \<longleftrightarrow> escaped e \<and> decodeURIComponent e = Some s"

lemma denotes_decode:
  assumes "denotes e s" "37 \<in> set e \<longrightarrow> b"
  shows "(if length e > 0 \<and> b then decodeStr env None e else e) = s"
  using assms decode_no_percent [of e] by (cases e) (auto simp: denotes_def decodeStr_def qsUnescape_def)

lemma addKeyVal_denotes:
  "denotes ek k \<Longrightarrow> denotes ev v \<Longrightarrow> 37 \<in> set ek \<longrightarrow> ke \<Longrightarrow> 37 \<in> set ev \<longrightarrow> ve \<Longrightarrow>
   addKeyVal env None obj ek ev ke ve = put_pair obj (k, v)"
  unfolding addKeyVal_def put_pair_def Let_def by (simp only: denotes_decode fst_conv snd_conv)

definition pair_text :: "jsstring \<times> jsstring \<Rightarrow> jsstring" where
  "pair_text p = fst p @ 61 # snd p"

lemma pair_text_ne [simp]: "pair_text p \<noteq> []"
  by (simp add: pair_text_def)

lemma pair_run:
  assumes "qs = pre @ pair_text (ek, ev) @ post" "escaped ek" "escaped ev"
  shows "\<exists>ke ve ec. parse_loop (text_args env qs) (length pre) (run_state obj n (length pre) 0 [] False False 0) =
      parse_loop (text_args env qs) (Suc (length pre + length ek) + length ev)
        (run_state obj n (Suc (length pre + length ek)) 1 ek ke ve ec) \<and>
      (37 \<in> set ek \<longrightarrow> ke) \<and> (37 \<in> set ev \<longrightarrow> ve)"
proof -
  let ?a = "text_args env qs"
  obtain ke ve ec where key: "parse_loop ?a (length pre) (run_state obj n (length pre) 0 [] False False 0) =
      parse_loop ?a (length pre + length ek) (run_state obj n (length pre) 0 [] ke ve ec)" "37 \<in> set ek \<longrightarrow> ke"
    using scan_key [OF assms(2), of qs pre "61 # ev @ post" "length pre" False 0 env obj n "length pre" "[]" False] assms(1)
    by (auto simp: pair_text_def)
  have eq: "parse_loop ?a (length pre + length ek) (run_state obj n (length pre) 0 [] ke ve ec) =
      parse_loop ?a (Suc (length pre + length ek)) (run_state obj n (Suc (length pre + length ek)) 1 ek ke ve 0)"
    by (rule eq_step [of _ _ _ "ev @ post"]) (simp add: assms(1) pair_text_def)
  obtain ve' ec' where "parse_loop ?a (Suc (length pre + length ek)) (run_state obj n (Suc (length pre + length ek)) 1 ek ke ve 0) =
      parse_loop ?a (Suc (length pre + length ek) + length ev)
        (run_state obj n (Suc (length pre + length ek)) 1 ek ke ve' ec')" "37 \<in> set ev \<longrightarrow> ve'"
    using scan_value [OF assms(3), of qs "pre @ ek @ [61]" post "Suc (length pre + length ek)" ve 0 env obj n
        "Suc (length pre + length ek)" ek ke] assms(1)
    by (auto simp: pair_text_def)
  with key eq show ?thesis by metis
qed

lemma text_run:
  assumes "list_all2 (\<lambda>e p. denotes (fst e) (fst p) \<and> denotes (snd e) (snd p)) es ps"
  shows "es \<noteq> [] \<Longrightarrow> qs = pre @ join [38] (map pair_text es) \<Longrightarrow> int (length es) \<le> r \<Longrightarrow>
    parse_loop (text_args env qs) (length pre) (run_state obj (jsint r) (length pre) 0 [] False False 0) =
    foldl put_pair obj ps"
  using assms
proof (induction es ps arbitrary: pre obj r rule: list_all2_induct)
  case (Cons e es p ps)
  obtain ek ev k v where e: "e = (ek, ev)" "p = (k, v)" by (cases e, cases p)
  have d: "denotes ek k" "denotes ev v" using Cons.hyps by (simp_all add: e)
  then have esc: "escaped ek" "escaped ev" by (simp_all add: denotes_def)
  let ?a = "text_args env qs" and ?n = "jsint r :: jsnum"
  define post where "post = (if es = [] then [] else 38 # join [38] (map pair_text es))"
  have qs: "qs = pre @ pair_text (ek, ev) @ post"
    using Cons.prems(2) by (cases es) (simp_all add: post_def e)
  obtain ke ve ec where run: "parse_loop ?a (length pre) (run_state obj ?n (length pre) 0 [] False False 0) =
      parse_loop ?a (Suc (length pre + length ek) + length ev)
        (run_state obj ?n (Suc (length pre + length ek)) 1 ek ke ve ec)" "37 \<in> set ek \<longrightarrow> ke" "37 \<in> set ev \<longrightarrow> ve"
    using pair_run [OF qs esc] by blast
  have put: "addKeyVal env None obj ek ev ke ve = put_pair obj p"
    using addKeyVal_denotes [OF d run(2,3)] by (simp add: e)
  let ?pre = "pre @ ek @ [61]"
  show ?case
  proof (cases "es = []")
    case True
    have "qs = ?pre @ ev" using qs True by (simp add: post_def pair_text_def)
    from rest_step [OF this, of env obj ?n ek ke ve ec] show ?thesis
      using Cons.hyps True by (simp add: run(1) put)
  next
    case False
    let ?pre' = "?pre @ ev @ [38]"
    have qs': "qs = ?pre @ ev @ 38 # join [38] (map pair_text es)"
      using qs False by (simp add: post_def pair_text_def [of "(ek, ev)"])
    note sep = sep_step [OF qs', of ?n env obj ek ke ve ec]
    have r: "int (length es) + 1 \<le> r" "1 \<le> int (length es)" using Cons.prems(3) False by (simp_all add: Suc_leI)
    have n: "num_pred ?n = jsint (r - 1)" "num_pred ?n \<noteq> Fin 0"
      using r by (simp_all del: of_int_diff add: of_int_diff [symmetric])
    have "parse_loop ?a (length ?pre') (run_state (put_pair obj p) (jsint (r - 1)) (length ?pre') 0 [] False False 0) =
        foldl put_pair (put_pair obj p) ps"
      by (rule Cons.IH) (use False r qs' in simp_all)
    then show ?thesis using sep n by (simp add: run(1) put add.assoc)
  qed
qed simp

lemma parse_text:
  assumes "list_all2 (\<lambda>e p. denotes (fst e) (fst p) \<and> denotes (snd e) (snd p)) es ps" "length es \<le> 1000"
  shows "parse env (JStr (join [38] (map pair_text es))) [] [] None None = foldl put_pair [] ps"
proof (cases "es = []")
  case True
  then show ?thesis using assms(1) by (simp add: parse_def)
next
  case False
  then have "join [38] (map pair_text es) \<noteq> []" by (subst join_eq_Nil) auto
  then show ?thesis
    using text_run [OF assms(1) False, of "join [38] (map pair_text es)" "[]" 1000 env "[]"] assms(2)
    by (simp add: parse_def Let_def initial_pairs_def customDecode_def flip: text_args_def run_state_def)
qed

subsection \<open>What stringify prints\<close>

fun js_field :: "jsstring \<times> field \<Rightarrow> jsstring \<times> query_value" where
  "js_field (k, One v) = (k, Single (JStr v))"
| "js_field (k, Many vs) = (k, Arr (map JStr vs))"

fun field_pairs :: "jsstring \<times> field \<Rightarrow> (jsstring \<times> jsstring) list" where
  "field_pairs (k, One v) = [(k, v)]"
| "field_pairs (k, Many vs) = map (Pair k) vs"

text \<open>The escaped text of a string, and of a pair.\<close>

definition enc :: "jsstring \<Rightarrow> jsstring" where
  "enc s = (case esc s of Some e \<Rightarrow> e | None \<Rightarrow> [])"

definition enc_pair :: "jsstring \<times> jsstring \<Rightarrow> jsstring" where
  "enc_pair p = pair_text (enc (fst p), enc (snd p))"

lemma enc_pair_ne [simp]: "enc_pair p \<noteq> []"
  by (simp add: enc_pair_def)

lemma denotes_enc: "well_formed s \<Longrightarrow> denotes (enc s) s"
  using esc_reads_back [of s] escaped_esc [OF well_formed_jsstring, of s] by (auto simp: denotes_def enc_def)

lemma encode_JStr: "well_formed s \<Longrightarrow> encodeStringified env qsEscape (JStr s) = Inr (enc s)"
  using esc_reads_back [of s]
  by (auto simp: encodeStringified_def qsEscape_def encodeStr_esc well_formed_jsstring esc_result_def enc_def)

definition add_text :: "jsstring \<Rightarrow> jsstring \<Rightarrow> jsstring" where
  "add_text acc t = (if acc \<noteq> [] then acc @ [38] else acc) @ t"

lemma stringify_array_text:
  "list_all well_formed vs \<Longrightarrow> j \<and> acc \<noteq> [] \<Longrightarrow>
   stringify_array (encodeStringified env qsEscape) [38] (enc k @ [61]) j acc (map JStr vs) =
   Inr (foldl add_text acc (map (\<lambda>v. enc_pair (k, v)) vs))"
proof (induction vs arbitrary: acc)
  case (Cons v vs)
  then show ?case
    by (simp add: encode_JStr add_text_def enc_pair_def pair_text_def)
qed simp

lemma stringify_array_first:
  assumes "list_all well_formed vs" "vs \<noteq> []"
  shows "stringify_array (encodeStringified env qsEscape) [38] (enc k @ [61]) False
           (if acc \<noteq> [] then acc @ [38] else acc) (map JStr vs) =
         Inr (foldl add_text acc (map (\<lambda>v. enc_pair (k, v)) vs))"
proof -
  obtain v vs' where vs: "vs = v # vs'" using assms(2) by (cases vs) auto
  then show ?thesis
    using assms(1) stringify_array_text [of vs' True "add_text acc (enc_pair (k, v))" env k]
    by (auto simp: encode_JStr add_text_def enc_pair_def pair_text_def)
qed

definition field_ok :: "jsstring \<times> field \<Rightarrow> bool" where
  "field_ok p \<longleftrightarrow> well_formed (fst p) \<and>
     (case snd p of One v \<Rightarrow> well_formed v | Many vs \<Rightarrow> 2 \<le> length vs \<and> list_all well_formed vs)"

lemma stringify_keys_text:
  "list_all field_ok obj \<Longrightarrow>
   stringify_keys (encodeStringified env qsEscape) [38] [61] acc (map js_field obj) =
   Inr (foldl add_text acc (map enc_pair (concat (map field_pairs obj))))"
proof (induction obj arbitrary: acc)
  case (Cons p obj)
  obtain k f where p: "p = (k, f)" by (cases p)
  have k: "encodeStringified env qsEscape (JStr k) = Inr (enc k)"
    using Cons.prems by (simp add: p field_ok_def encode_JStr)
  show ?case
  proof (cases f)
    case (One v)
    then have "encodeStringified env qsEscape (JStr v) = Inr (enc v)"
      using Cons.prems by (simp add: p field_ok_def encode_JStr)
    then show ?thesis
      using Cons k by (simp add: p One Let_def add_text_def enc_pair_def pair_text_def)
  next
    case (Many vs)
    then have vs: "list_all well_formed vs" "vs \<noteq> []" using Cons.prems by (auto simp: p field_ok_def)
    have "stringify_keys (encodeStringified env qsEscape) [38] [61] acc (map js_field (p # obj)) =
        stringify_keys (encodeStringified env qsEscape) [38] [61]
          (foldl add_text acc (map (\<lambda>v. enc_pair (k, v)) vs)) (map js_field obj)"
      using stringify_array_first [OF vs, of env k acc] vs(2) by (simp add: p Many k Let_def)
    then show ?thesis using Cons by (simp add: p Many comp_def)
  qed
qed simp

lemma foldl_add_text:
  "list_all (\<lambda>t. t \<noteq> []) ts \<Longrightarrow> acc \<noteq> [] \<Longrightarrow> foldl add_text acc ts = join [38] (acc # ts)"
proof (induction ts arbitrary: acc)
  case (Cons t ts)
  have "join [38] ((acc @ 38 # t) # ts) = join [38] (acc # t # ts)" by (cases ts) simp_all
  with Cons.IH [of "acc @ 38 # t"] Cons.prems show ?case by (simp add: add_text_def [of acc])
qed simp

lemma foldl_add_text_Nil: "list_all (\<lambda>t. t \<noteq> []) ts \<Longrightarrow> foldl add_text [] ts = join [38] ts"
  by (cases ts) (simp_all add: add_text_def foldl_add_text)

lemma stringify_text:
  assumes "list_all field_ok obj"
  shows "stringify env (Some (map js_field obj)) [] [] None =
    Inr (join [38] (map pair_text (map (map_prod enc enc) (concat (map field_pairs obj)))))"
proof -
  have "list_all (\<lambda>t. t \<noteq> []) (map enc_pair ps)" for ps by (induction ps) auto
  moreover have "enc_pair = pair_text \<circ> map_prod enc enc" by (rule ext) (simp add: enc_pair_def map_prod_def split_beta)
  ultimately show ?thesis
    using stringify_keys_text [OF assms, of env "[]"] by (simp add: stringify_def foldl_add_text_Nil)
qed

subsection \<open>The round trip\<close>

lemma set_field_new: "k \<notin> fst ` set obj \<Longrightarrow> set_field k f obj = obj @ [(k, f)]"
  by (induction obj) auto

lemma set_field_last: "k \<notin> fst ` set obj \<Longrightarrow> set_field k f (obj @ [(k, g)]) = obj @ [(k, f)]"
  by (induction obj) auto

lemma map_of_last: "k \<notin> fst ` set obj \<Longrightarrow> map_of (obj @ [(k, g)]) k = Some g"
  by (induction obj) auto

lemma put_new: "k \<notin> fst ` set obj \<Longrightarrow> put_pair obj (k, v) = obj @ [(k, One v)]"
  by (simp add: put_pair_def set_field_new map_of_eq_None_iff [THEN iffD2])

lemma put_more:
  "k \<notin> fst ` set obj \<Longrightarrow> foldl put_pair (obj @ [(k, Many us)]) (map (Pair k) vs) = obj @ [(k, Many (us @ vs))]"
  by (induction vs arbitrary: us) (simp_all add: put_pair_def map_of_last set_field_last del: map_of_append)

lemma put_field:
  assumes "k \<notin> fst ` set obj" "field_ok (k, f)"
  shows "foldl put_pair obj (field_pairs (k, f)) = obj @ [(k, f)]"
proof (cases f)
  case (Many vs)
  then obtain u v us where vs: "vs = u # v # us"
    using assms(2) by (cases vs; cases "tl vs") (auto simp: field_ok_def)
  have "put_pair (obj @ [(k, One u)]) (k, v) = obj @ [(k, Many [u, v])]"
    by (simp add: put_pair_def map_of_last set_field_last assms(1) del: map_of_append)
  then show ?thesis using put_more [OF assms(1), of "[u, v]" us] by (simp add: Many vs put_new assms(1))
qed (simp add: put_new assms(1))

lemma put_fields:
  "distinct (map fst (obj @ fs)) \<Longrightarrow> list_all field_ok fs \<Longrightarrow>
   foldl put_pair obj (concat (map field_pairs fs)) = obj @ fs"
proof (induction fs arbitrary: obj)
  case (Cons p fs)
  then show ?case
    using put_field [of "fst p" obj "snd p"] Cons.IH [of "obj @ [p]"] by simp
qed simp

lemma field_pairs_well_formed:
  "list_all field_ok obj \<Longrightarrow> list_all (\<lambda>p. well_formed (fst p) \<and> well_formed (snd p)) (concat (map field_pairs obj))"
proof (induction obj)
  case (Cons p obj)
  obtain k f where "p = (k, f)" by (cases p)
  with Cons show ?case by (cases f) (auto simp: field_ok_def list_all_iff)
qed simp

text \<open>
  C28: an object with distinct well-formed keys, whose values are well-formed strings or arrays of at
  least two of them, with no more than 1000 pairs in all, is what \<^verbatim>\<open>parse\<close> reads from what \<^verbatim>\<open>stringify\<close>
  prints for it, in the same order.
\<close>

theorem parse_stringify:
  assumes "list_all field_ok obj" "distinct (map fst obj)" "length (concat (map field_pairs obj)) \<le> 1000"
  shows "\<exists>text. stringify env (Some (map js_field obj)) [] [] None = Inr text \<and>
           parse env (JStr text) [] [] None None = obj"
proof -
  let ?ps = "concat (map field_pairs obj)"
  have "list_all2 (\<lambda>e p. denotes (fst e) (fst p) \<and> denotes (snd e) (snd p)) (map (map_prod enc enc) ?ps) ?ps"
    using field_pairs_well_formed [OF assms(1)]
    by (auto simp: list.rel_map list_all2_same list_all_iff denotes_enc)
  then show ?thesis
    using parse_text [of "map (map_prod enc enc) ?ps" ?ps env] assms put_fields [of "[]" obj]
    by (simp add: stringify_text)
qed

theorem parse_stringify_witness:
  "\<exists>text. stringify ascii_query (Some (map js_field [(js ''a b'', Many [js ''1&2'', js ''x'']), ([0x20AC], One [])])) [] [] None =
            Inr text \<and>
     parse ascii_query (JStr text) [] [] None None = [(js ''a b'', Many [js ''1&2'', js ''x'']), ([0x20AC], One [])]"
  by (rule parse_stringify) (simp_all add: field_ok_def)

end
