(* ===== verification/QueryObjects.thy ===== *)
theory QueryObjects
  imports QueryParseProps
begin

text \<open>
  The objects that \<^verbatim>\<open>parse\<close> answers: \<open>obj_ok\<close> is their type, \<open>parse_inv\<close> what the loop keeps of it and of
  the limit on the number of pairs.
\<close>

subsection \<open>What parse answers, for any text and options\<close>

definition obj_ok :: "query_obj \<Rightarrow> bool" where
  "obj_ok obj \<longleftrightarrow> distinct (map fst obj) \<and>
     list_all (\<lambda>p. case snd p of One _ \<Rightarrow> True | Many vs \<Rightarrow> 2 \<le> length vs) obj"

fun field_size :: "field \<Rightarrow> nat" where
  "field_size (One _) = 1"
| "field_size (Many vs) = length vs"

definition pair_count :: "query_obj \<Rightarrow> nat" where
  "pair_count obj = sum_list (map (field_size \<circ> snd) obj)"

lemma set_field_keys:
  "map fst (set_field k f obj) = (if k \<in> fst ` set obj then map fst obj else map fst obj @ [k])"
  by (induction k f obj rule: set_field.induct) force+

lemma set_field_distinct: "distinct (map fst obj) \<Longrightarrow> distinct (map fst (set_field k f obj))"
  by (simp add: set_field_keys)

lemma set_field_all: "list_all P obj \<Longrightarrow> P (k, f) \<Longrightarrow> list_all P (set_field k f obj)"
  by (induction obj) auto

lemma set_field_count:
  "pair_count (set_field k f obj) + (case map_of obj k of None \<Rightarrow> 0 | Some g \<Rightarrow> field_size g) = pair_count obj + field_size f"
  by (induction obj) (auto simp: pair_count_def)

lemma obj_ok_set_field:
  "obj_ok obj \<Longrightarrow> (case f of One _ \<Rightarrow> True | Many vs \<Rightarrow> 2 \<le> length vs) \<Longrightarrow> obj_ok (set_field k f obj)"
  unfolding obj_ok_def by (simp add: set_field_distinct set_field_all)

lemma obj_ok_Many: "obj_ok obj \<Longrightarrow> map_of obj k = Some (Many vs) \<Longrightarrow> 2 \<le> length vs"
  by (auto simp: obj_ok_def list_all_iff dest: map_of_SomeD)

lemma addKeyVal_put: "\<exists>p. addKeyVal env d obj k v ke ve = put_pair obj p"
  by (rule exI [of _ "(if length k > 0 \<and> ke then decodeStr env d k else k,
      if length v > 0 \<and> ve then decodeStr env d v else v)"])
     (simp only: addKeyVal_def put_pair_def Let_def fst_conv snd_conv)

lemma put_pair_ok:
  assumes "obj_ok obj"
  shows "obj_ok (put_pair obj p) \<and> pair_count (put_pair obj p) = Suc (pair_count obj)"
proof (cases "map_of obj (fst p)")
  case None
  then show ?thesis
    using obj_ok_set_field [OF assms, of "One (snd p)"] set_field_count [of "fst p" "One (snd p)" obj]
    by (simp add: put_pair_def)
next
  case (Some f)
  show ?thesis
  proof (cases f)
    case (One v)
    then show ?thesis
      using obj_ok_set_field [OF assms, of "Many [v, snd p]"] set_field_count [of "fst p" "Many [v, snd p]" obj] Some
      by (simp add: put_pair_def)
  next
    case (Many vs)
    then show ?thesis
      using obj_ok_set_field [OF assms, of "Many (vs @ [snd p])"] set_field_count [of "fst p" "Many (vs @ [snd p])" obj]
        obj_ok_Many [OF assms, of "fst p" vs] Some
      by (simp add: put_pair_def)
  qed
qed

lemma store_pair_ok: "obj_ok (p_obj st) \<Longrightarrow> obj_ok (store_pair a st) \<and> pair_count (store_pair a st) = Suc (pair_count (p_obj st))"
proof -
  assume ok: "obj_ok (p_obj st)"
  obtain p where "store_pair a st = put_pair (p_obj st) p"
    unfolding store_pair_def using addKeyVal_put by blast
  then show ?thesis using put_pair_ok [OF ok, of p] by simp
qed

text \<open>\<open>limit\<close> is the number of pairs where it is a positive whole number.\<close>

definition parse_inv :: "int option \<Rightarrow> parse_state \<Rightarrow> bool" where
  "parse_inv limit st \<longleftrightarrow> obj_ok (p_obj st) \<and>
     (\<forall>m. limit = Some m \<longrightarrow> (\<exists>n. pairs st = jsint n \<and> 1 \<le> n \<and> int (pair_count (p_obj st)) + n \<le> m))"

definition answer_ok :: "int option \<Rightarrow> query_obj \<Rightarrow> bool" where
  "answer_ok limit obj \<longleftrightarrow> obj_ok obj \<and> (\<forall>m. limit = Some m \<longrightarrow> int (pair_count obj) \<le> m)"

lemma value_char_keeps [simp]: "p_obj (value_char a i c st) = p_obj st" "pairs (value_char a i c st) = pairs st"
  by (simp_all add: value_char_def)

lemma key_char_keeps [simp]: "p_obj (key_char a i c st) = p_obj st" "pairs (key_char a i c st) = pairs st"
  by (simp_all add: key_char_def Let_def)

lemma parse_inv_cong: "p_obj st' = p_obj st \<Longrightarrow> pairs st' = pairs st \<Longrightarrow> parse_inv l st' = parse_inv l st"
  by (simp add: parse_inv_def)

lemma pairs_left:
  assumes "parse_inv l st" "obj_ok obj" "pair_count obj \<le> Suc (pair_count (p_obj st))"
    "p_obj st' = obj" "pairs st' = num_pred (pairs st)" "num_pred (pairs st) \<noteq> Fin 0"
  shows "parse_inv l st'"
proof -
  have "\<exists>n'. pairs st' = jsint n' \<and> 1 \<le> n' \<and> int (pair_count obj) + n' \<le> m" if l: "l = Some m" for m
  proof -
    obtain n where n: "pairs st = jsint n" "1 \<le> n" "int (pair_count (p_obj st)) + n \<le> m"
      using assms(1) l by (auto simp: parse_inv_def)
    have d: "num_pred (pairs st) = jsint (n - 1)" by (simp add: n)
    then have "n \<noteq> 1" using assms(6) by auto
    then show ?thesis using n d assms by (intro exI [of _ "n - 1"]) simp
  qed
  then show ?thesis using assms by (simp add: parse_inv_def)
qed

lemma answer_ok_store:
  assumes "parse_inv l st" "p_obj st' = p_obj st"
  shows "answer_ok l (store_pair a st')"
proof -
  have "obj_ok (store_pair a st')" "pair_count (store_pair a st') = Suc (pair_count (p_obj st))"
    using assms store_pair_ok [of st' a] by (simp_all add: parse_inv_def)
  then show ?thesis using assms(1) by (fastforce simp: parse_inv_def answer_ok_def)
qed

lemma answer_ok_obj: "parse_inv l st \<Longrightarrow> answer_ok l (p_obj st)"
  by (fastforce simp: parse_inv_def answer_ok_def)

lemma pair_end_ok:
  assumes "parse_inv l st"
  shows "case pair_end a i st of Inl obj \<Rightarrow> answer_ok l obj | Inr st' \<Rightarrow> parse_inv l st'"
proof (cases "eqIdx st < length (eqCodes a) \<and> \<not> int (lastPos st) < int i - int (sepIdx st) + 1 \<and> length (p_key st) = 0")
  case True
  then show ?thesis
    using assms answer_ok_obj [OF assms] pairs_left [OF assms, of "p_obj st"]
    by (simp add: pair_end_def Let_def parse_inv_def [of l st])
next
  case False
  define st1 where "st1 = (if eqIdx st < length (eqCodes a)
      then st\<lparr>p_key := p_key st @ pending a st (int i - int (sepIdx st) + 1)\<rparr>
      else st\<lparr>p_value := p_value st @ pending a st (int i - int (sepIdx st) + 1)\<rparr>)"
  have k: "p_obj st1 = p_obj st" "pairs st1 = pairs st" by (simp_all add: st1_def)
  have e: "pair_end a i st =
     (if num_pred (pairs st1) = Fin 0 then Inl (store_pair a st1)
      else Inr (st1\<lparr>p_obj := store_pair a st1, pairs := num_pred (pairs st1), keyEncoded := customDecode a,
                   valEncoded := customDecode a, p_key := [], p_value := [], encodeCheck := 0, lastPos := i + 1,
                   sepIdx := 0, eqIdx := 0\<rparr>))"
    using False unfolding pair_end_def Let_def st1_def [symmetric] by (simp only: if_False)
  have "obj_ok (p_obj st1)" using assms k by (simp add: parse_inv_def)
  from store_pair_ok [OF this, of a] show ?thesis
    unfolding e using answer_ok_store [OF assms k(1), of a] pairs_left [OF assms, of "store_pair a st1"] k by simp
qed

lemma parse_step_ok:
  assumes "parse_inv l st"
  shows "case parse_step a i st of Inl obj \<Rightarrow> answer_ok l obj | Inr st' \<Rightarrow> parse_inv l st'"
proof -
  have j: "parse_inv l (st\<lparr>sepIdx := j\<rparr>)" for j using assms by (simp add: parse_inv_def)
  have "parse_inv l (key_char a i c (st\<lparr>sepIdx := j\<rparr>))" "parse_inv l (value_char a i c (st\<lparr>sepIdx := j\<rparr>))" for c j
    using assms by (simp_all add: parse_inv_def)
  then show ?thesis using j pair_end_ok [OF j] by (simp add: parse_step_def Let_def)
qed

lemma parse_rest_ok: "parse_inv l st \<Longrightarrow> answer_ok l (parse_rest a st)"
  by (simp add: parse_rest_def answer_ok_store answer_ok_obj)

lemma parse_loop_ok: "parse_inv l st \<Longrightarrow> answer_ok l (parse_loop a i st)"
proof (induction a i st rule: parse_loop.induct)
  case (1 a i st)
  show ?case
    using parse_step_ok [OF 1(2), of a i] 1(1) parse_rest_ok [OF 1(2)]
    by (subst parse_loop.simps) (auto split: sum.splits)
qed

text \<open>
  C29: whatever the text, separators, decoder and \<^verbatim>\<open>maxKeys\<close>, the keys of the object that \<^verbatim>\<open>parse\<close>
  answers are distinct, a value that is an array has at least two elements, and the pairs are at most
  1000 without \<^verbatim>\<open>maxKeys\<close> and at most \<^verbatim>\<open>maxKeys\<close> where that is a positive whole number.
\<close>

theorem parse_object:
  shows "distinct (map fst (parse env qs sep eq maxKeys decode)) \<and>
    list_all (\<lambda>p. case snd p of One _ \<Rightarrow> True | Many vs \<Rightarrow> 2 \<le> length vs) (parse env qs sep eq maxKeys decode) \<and>
    (\<forall>m. (case maxKeys of None \<Rightarrow> m = 1000 | Some n \<Rightarrow> n = jsint m \<and> 0 < m) \<longrightarrow>
         int (pair_count (parse env qs sep eq maxKeys decode)) \<le> m)"
proof -
  have "answer_ok l (parse env qs sep eq maxKeys decode)"
    if l: "\<forall>m. l = Some m \<longrightarrow> initial_pairs maxKeys = jsint m \<and> 0 < m" for l
  proof (cases qs)
    case (JStr s)
    have "parse_inv l \<lparr>p_obj = [], pairs = initial_pairs maxKeys, lastPos = 0, sepIdx = 0, eqIdx = 0, p_key = [],
        p_value = [], keyEncoded = b, valEncoded = b, encodeCheck = 0\<rparr>" for b
      using l by (auto simp: parse_inv_def obj_ok_def pair_count_def)
    moreover have "answer_ok l []" using l by (auto simp: answer_ok_def obj_ok_def pair_count_def)
    ultimately show ?thesis by (simp add: parse_def JStr Let_def parse_loop_ok)
  qed (use l in \<open>auto simp: parse_def answer_ok_def obj_ok_def pair_count_def\<close>)
  note ok = this
  have "int (pair_count (parse env qs sep eq maxKeys decode)) \<le> m"
    if "case maxKeys of None \<Rightarrow> m = 1000 | Some n \<Rightarrow> n = jsint m \<and> 0 < m" for m
    using ok [of "Some m"] that by (auto simp: answer_ok_def initial_pairs_def split: option.splits)
  then show ?thesis using ok [of None] by (simp add: answer_ok_def obj_ok_def)
qed

theorem parse_object_witness:
  "int (pair_count (parse ascii_query (JStr (js ''a=1&a=2&b'')) [] [] (Some (jsint 2)) None)) \<le> 2"
  using parse_object [of ascii_query "JStr (js ''a=1&a=2&b'')" "[]" "[]" "Some (jsint 2)" None] by simp

end
