(* ===== verification/QueryExamples.thy ===== *)
theory QueryExamples
  imports QueryObjects
begin

text \<open>
  Two behaviours of \<^verbatim>\<open>parse\<close> that its comments do not promise, on concrete texts. U+4E2D is the unit
  20013.
\<close>

lemmas parse_run =
  parse_def Let_def initial_pairs_def customDecode_def parse_step_def pair_end_def key_char_def value_char_def
  pending_def store_pair_def parse_rest_def addKeyVal_def decodeStr_def plusChar_def isHexTable_def
  slice_def slice_pos_def slice_from_def

text \<open>
  With one escape in the key, the value keeps the unit and the percent sign it is written with. With
  two, the second one marks the value as escaped, although it holds no escape, and decoding turns the
  unit into its low byte.
\<close>

lemma parse_flag_leaks_to_value:
  "parse ascii_query (JStr (js ''%41='' @ [20013, 37])) [] [] None None = [(js ''A'', One [20013, 37])] \<and>
   parse ascii_query (JStr (js ''%41%41='' @ [20013, 37])) [] [] None None = [(js ''AA'', One [45, 37])]"
  by (simp add: parse_run parse_loop.simps qsUnescape_def decodeURIComponent.simps unhexTable_def unescapeBuffer_def unescape_loop.simps)

lemma parse_fractional_limit:
  "parse ascii_query (JStr (js ''a&b&c'')) [] [] (Some (Fin (3 / 2))) None =
     [(js ''a'', One []), (js ''b'', One []), (js ''c'', One [])]"
  by (simp add: parse_run parse_loop.simps qsUnescape_def decodeURIComponent.simps unhexTable_def unescapeBuffer_def unescape_loop.simps)

end
