(* ===== verification/Punycode.thy ===== *)
theory Punycode
  imports Prelude
begin

text \<open>
  lib/punycode.js. The numbers of the code are integers far below 2 to the 53, so its divisions with
  \<^verbatim>\<open>floor\<close> are those of integers. They are natural numbers where they cannot be negative: \<open>i\<close> and \<open>n\<close>
  stay below \<open>maxInt\<close> by the decoder's own checks, and the next code point \<open>m\<close> is at least \<open>n\<close>. What
  \<^verbatim>\<open>toLowerCase\<close> does is a parameter.
\<close>

unbundle bit_operations_syntax

subsection \<open>Parameters and digits\<close>

definition maxInt :: nat where "maxInt = 2147483647"
definition base :: nat where "base = 36"
definition tMin :: nat where "tMin = 1"
definition tMax :: nat where "tMax = 26"
definition skew :: nat where "skew = 38"
definition damp :: nat where "damp = 700"
definition initialBias :: nat where "initialBias = 72"
definition initialN :: nat where "initialN = 128"
definition delimiter :: nat where "delimiter = 45"
definition baseMinusTMin :: nat where "baseMinusTMin = base - tMin"

definition overflow :: jserror where
  "overflow = RangeError ''Overflow: input needs wider integers to process''"

definition not_basic :: jserror where
  "not_basic = RangeError ''Illegal input >= 0x80 (not a basic code point)''"

definition invalid_input :: jserror where
  "invalid_input = RangeError ''Invalid input''"

definition basicToDigit :: "nat \<Rightarrow> nat" where
  "basicToDigit codePoint =
     (if codePoint \<ge> 0x30 \<and> codePoint < 0x3A then 26 + (codePoint - 0x30)
      else if codePoint \<ge> 0x41 \<and> codePoint < 0x5B then codePoint - 0x41
      else if codePoint \<ge> 0x61 \<and> codePoint < 0x7B then codePoint - 0x61
      else base)"

definition digitToBasic :: "nat \<Rightarrow> nat \<Rightarrow> nat" where
  "digitToBasic digit flag =
     digit + 22 + 75 * (if digit < 26 then 1 else 0) - push_bit 5 (if flag \<noteq> 0 then 1 else 0)"

function adapt_loop :: "nat \<Rightarrow> nat \<Rightarrow> nat \<times> nat" where
  "adapt_loop delta k =
     (if delta > drop_bit 1 (baseMinusTMin * tMax) then adapt_loop (delta div baseMinusTMin) (k + base)
      else (delta, k))"
  by pat_completeness auto
termination by (relation "measure fst") (auto simp: baseMinusTMin_def base_def tMin_def)

declare adapt_loop.simps [simp del]

definition adapt :: "nat \<Rightarrow> nat \<Rightarrow> bool \<Rightarrow> nat" where
  "adapt delta numPoints firstTime =
     (let delta = (if firstTime then delta div damp else drop_bit 1 delta);
          delta = delta + delta div numPoints;
          (delta, k) = adapt_loop delta 0
      in k + (baseMinusTMin + 1) * delta div (delta + skew))"

text \<open>The expression for \<^verbatim>\<open>t\<close> in both directions.\<close>

definition threshold :: "nat \<Rightarrow> nat \<Rightarrow> nat" where
  "threshold k bias = (if k \<le> bias then tMin else if k \<ge> bias + tMax then tMax else k - bias)"

lemma threshold_bounds: "1 \<le> threshold k bias \<and> threshold k bias \<le> 26"
  by (auto simp: threshold_def tMin_def tMax_def)

subsection \<open>UCS-2\<close>

fun ucs2decode :: "jsstring \<Rightarrow> nat list" where
  "ucs2decode [] = []"
| "ucs2decode [v] = [v]"
| "ucs2decode (v # extra # s) =
     (if v \<ge> 0xD800 \<and> v \<le> 0xDBFF then
        (if extra AND 0xFC00 = 0xDC00 then
           (push_bit 10 (v AND 0x3FF) + (extra AND 0x3FF) + 0x10000) # ucs2decode s
         else v # ucs2decode (extra # s))
      else v # ucs2decode (extra # s))"

text \<open>\<^verbatim>\<open>String.fromCodePoint\<close>.\<close>

definition ucs2encode :: "nat list \<Rightarrow> jsstring result" where
  "ucs2encode codePoints =
     (if \<exists>p \<in> set codePoints. p > 0x10FFFF then Inl (RangeError ''Invalid code point'')
      else Inr (concat (map utf16 codePoints)))"

subsection \<open>Decoding\<close>

text \<open>The inner loop: it answers the next index and the new \<^verbatim>\<open>i\<close>.\<close>

function decode_int :: "jsstring \<Rightarrow> nat \<Rightarrow> nat \<Rightarrow> nat \<Rightarrow> nat \<Rightarrow> nat \<Rightarrow> (nat \<times> nat) result" where
  "decode_int input bias index i w k =
     (if index \<ge> length input then Inl invalid_input
      else
        (let digit = basicToDigit (input ! index) in
         if digit \<ge> base then Inl invalid_input
         else if digit > (maxInt - i) div w then Inl overflow
         else
           (let i = i + digit * w;
                t = threshold k bias
            in if digit < t then Inr (index + 1, i)
               else
                 (let baseMinusT = base - t in
                  if w > maxInt div baseMinusT then Inl overflow
                  else decode_int input bias (index + 1) i (w * baseMinusT) (k + base)))))"
  by pat_completeness auto
termination by (relation "measure (\<lambda>(input, _, index, _). length input - index)") auto

declare decode_int.simps [simp del]

lemma decode_int_index: "decode_int input bias index i w k = Inr (index', i') \<Longrightarrow> index < index' \<and> index' \<le> length input"
proof (induction input bias index i w k rule: decode_int.induct)
  case (1 input bias index i w k)
  from 1(2) show ?case
    by (subst (asm) decode_int.simps) (use 1(1) in \<open>force simp: Let_def split: if_splits\<close>)
qed

definition splice :: "nat list \<Rightarrow> nat \<Rightarrow> nat \<Rightarrow> nat list" where
  "splice xs i x = take i xs @ x # drop i xs"

function decode_loop :: "jsstring \<Rightarrow> nat \<Rightarrow> nat \<Rightarrow> nat \<Rightarrow> nat \<Rightarrow> nat list \<Rightarrow> nat list result" where
  "decode_loop input index i n bias output =
     (if index < length input then
        (case decode_int input bias index i 1 base of
           Inl e \<Rightarrow> Inl e
         | Inr (index', i') \<Rightarrow>
             (let out = length output + 1;
                  bias = adapt (i' - i) out (i = 0)
              in if i' div out > maxInt - n then Inl overflow
                 else
                   (let n = n + i' div out;
                        i = i' mod out
                    in decode_loop input index' (i + 1) n bias (splice output i n))))
      else Inr output)"
  by pat_completeness auto
termination
  by (relation "measure (\<lambda>(input, index, _). length input - index)") (auto dest: decode_int_index)

declare decode_loop.simps [simp del]

definition decode :: "jsstring \<Rightarrow> jsstring result" where
  "decode input =
     (let basic = nat (max (lastIndexOf input delimiter) 0) in
      if \<exists>j < basic. input ! j \<ge> 0x80 then Inl not_basic
      else bind (decode_loop input (if basic > 0 then basic + 1 else 0) 0 initialN initialBias (take basic input))
             ucs2encode)"

subsection \<open>Encoding\<close>

function encode_int :: "nat \<Rightarrow> nat \<Rightarrow> nat \<Rightarrow> jsstring" where
  "encode_int bias q k =
     (let t = threshold k bias in
      if q < t then [digitToBasic q 0]
      else
        (let qMinusT = q - t;
             baseMinusT = base - t
         in digitToBasic (t + qMinusT mod baseMinusT) 0 # encode_int bias (qMinusT div baseMinusT) (k + base)))"
  by pat_completeness auto
termination
proof (relation "measure (\<lambda>(_, q, _). q)", goal_cases)
  case (2 bias q k t q' b)
  then have "1 \<le> t" "2 \<le> b" using threshold_bounds [of k bias] by (auto simp: base_def)
  then have "q' div b < q" using 2 by (auto intro: le_less_trans [OF div_le_dividend])
  then show ?case by simp
qed simp

declare encode_int.simps [simp del]

record enc_state =
  delta :: nat
  e_bias :: nat
  handledCPCount :: nat
  e_output :: jsstring

text \<open>The second loop over the input in a round for the code point \<open>n\<close>.\<close>

fun encode_pass :: "nat \<Rightarrow> nat \<Rightarrow> nat \<Rightarrow> nat list \<Rightarrow> enc_state \<Rightarrow> enc_state result" where
  "encode_pass n handledCPCountPlusOne basicLength [] st = Inr st"
| "encode_pass n handledCPCountPlusOne basicLength (c # cs) st =
     (let st = (if c < n then st\<lparr>delta := delta st + 1\<rparr> else st) in
      if c < n \<and> delta st > maxInt then Inl overflow
      else encode_pass n handledCPCountPlusOne basicLength cs
             (if c = n then
                st\<lparr>e_output := e_output st @ encode_int (e_bias st) (delta st) base,
                   e_bias := adapt (delta st) handledCPCountPlusOne (handledCPCount st = basicLength),
                   delta := 0,
                   handledCPCount := handledCPCount st + 1\<rparr>
              else st))"

definition next_point :: "nat list \<Rightarrow> nat \<Rightarrow> nat" where
  "next_point input n = foldl (\<lambda>m c. if c \<ge> n \<and> c < m then c else m) maxInt input"

text \<open>The main loop with fuel, \<open>None\<close> when it runs out.\<close>

fun encode_loop :: "nat \<Rightarrow> nat list \<Rightarrow> nat \<Rightarrow> nat \<Rightarrow> enc_state \<Rightarrow> jsstring result option" where
  "encode_loop fuel input basicLength n st =
     (if handledCPCount st < length input then
        (case fuel of
           0 \<Rightarrow> None
         | Suc fuel' \<Rightarrow>
             (let m = next_point input n;
                  h = handledCPCount st + 1
              in if int m - int n > (int maxInt - int (delta st)) div int h then Some (Inl overflow)
                 else
                   (case encode_pass m h basicLength input (st\<lparr>delta := delta st + (m - n) * h\<rparr>) of
                      Inl e \<Rightarrow> Some (Inl e)
                    | Inr st' \<Rightarrow> encode_loop fuel' input basicLength (m + 1) (st'\<lparr>delta := delta st' + 1\<rparr>))))
      else Some (Inr (e_output st)))"

declare encode_loop.simps [simp del]

definition encode :: "jsstring \<Rightarrow> jsstring result option" where
  "encode input =
     (let cps = ucs2decode input;
          basic = filter (\<lambda>c. c < 0x80) cps;
          b = length basic
      in encode_loop (length cps) cps b initialN
           \<lparr>delta = 0, e_bias = initialBias, handledCPCount = b,
            e_output = basic @ (if b \<noteq> 0 then [delimiter] else [])\<rparr>)"

subsection \<open>Domains\<close>

text \<open>The loop of \<^verbatim>\<open>map\<close> runs from the last element to the first; the first error it meets is the answer.\<close>

fun map_back :: "('a \<Rightarrow> 'b result) \<Rightarrow> 'a list \<Rightarrow> 'b list result" where
  "map_back f [] = Inr []"
| "map_back f (x # xs) = bind (map_back f xs) (\<lambda>ys. bind (f x) (\<lambda>y. Inr (y # ys)))"

definition is_separator :: "nat \<Rightarrow> bool" where
  "is_separator c \<longleftrightarrow> c = 0x2E \<or> c = 0x3002 \<or> c = 0xFF0E \<or> c = 0xFF61"

definition mapDomain :: "jsstring \<Rightarrow> (jsstring \<Rightarrow> jsstring result) \<Rightarrow> jsstring result" where
  "mapDomain domain callback =
     (let parts = split_on (\<lambda>c. c = 64) domain;
          (result, domain) = (if length parts > 1 then (parts ! 0 @ [64], parts ! 1) else ([], domain));
          domain = map (\<lambda>c. if is_separator c then 0x2E else c) domain;
          labels = split_on (\<lambda>c. c = 0x2E) domain
      in bind (map_back callback labels) (\<lambda>ls. Inr (result @ join [0x2E] ls)))"

definition starts_with_xn :: "jsstring \<Rightarrow> bool" where
  "starts_with_xn s \<longleftrightarrow> take 4 s = js ''xn--''"

definition toUnicode :: "(jsstring \<Rightarrow> jsstring) \<Rightarrow> jsstring \<Rightarrow> jsstring result" where
  "toUnicode toLowerCase input =
     mapDomain input (\<lambda>s. if starts_with_xn s then decode (toLowerCase (slice_from s 4)) else Inr s)"

text \<open>\<open>encode\<close> has fuel enough for every string, so the case for \<open>None\<close> is not reached.\<close>

definition toASCII :: "jsstring \<Rightarrow> jsstring result" where
  "toASCII input =
     mapDomain input (\<lambda>s.
       if \<exists>c \<in> set s. c > 0x7F then
         (case encode s of
            Some r \<Rightarrow> bind r (\<lambda>e. Inr (js ''xn--'' @ e))
          | None \<Rightarrow> Inl overflow)
       else Inr s)"

end
