(* ===== verification/PunycodeProps.thy ===== *)
theory PunycodeProps
  imports Punycode
begin

text \<open>
  The decoder undoes the encoder. \<open>encode_int\<close> and \<open>decode_int\<close> are inverse under a bound on the
  number; one delta makes the decoder insert one code point (\<open>decode_delta\<close>); \<open>pass_inv\<close> relates the
  encoder in the middle of a pass with the decoder that has read its output so far.
\<close>

subsection \<open>UCS-2\<close>

lemma low_surrogate: "d < 0x10000 \<Longrightarrow> d AND 0xFC00 = 0xDC00 \<longleftrightarrow> 0xDC00 \<le> d \<and> d < (0xE000::nat)"
proof -
  assume d: "d < 0x10000"
  have "d AND push_bit 10 m = push_bit 10 (drop_bit 10 d AND m)" for m
    by (rule bit_eqI) (auto simp: bit_simps)
  then have "d AND push_bit 10 63 = push_bit 10 (drop_bit 10 d AND 63)" .
  also have "drop_bit 10 d AND 63 = d div 1024"
    using d by (simp add: low_bits drop_bit_eq_div div_less_iff_less_mult)
  finally have "d AND 0xFC00 = d div 1024 * 1024" by (simp add: push_bit_eq_mult)
  moreover have "d div 1024 = 55 \<longleftrightarrow> 0xDC00 \<le> d \<and> d < 0xE000"
    by (simp add: eq_iff less_eq_div_iff_mult_less_eq div_less_iff_less_mult flip: less_Suc_eq_le) auto
  ultimately show ?thesis by auto
qed

lemma ucs2_points: "is_jsstring s \<Longrightarrow> p \<in> set (ucs2decode s) \<Longrightarrow> p < 0x110000"
proof (induction s rule: ucs2decode.induct)
  case (3 v e s)
  have "v mod 1024 * 1024 + e mod 1024 + 0x10000 < 0x110000"
    using mod_less_divisor [of 1024 v] mod_less_divisor [of 1024 e] by linarith
  with 3 show ?case
    by (auto simp: is_jsstring_def low_bits push_bit_eq_mult split: if_splits)
qed (auto simp: is_jsstring_def)

lemma ucs2_units: "is_jsstring s \<Longrightarrow> concat (map utf16 (ucs2decode s)) = s"
proof (induction s rule: ucs2decode.induct)
  case (2 v)
  then show ?case by (simp add: is_jsstring_def utf16_def)
next
  case (3 v e s)
  have "utf16 v = [v]" using 3 by (simp add: is_jsstring_def utf16_def)
  moreover have "utf16 (push_bit 10 (v AND 0x3FF) + (e AND 0x3FF) + 0x10000) = [v, e]"
    if "0xD800 \<le> v" "v \<le> 0xDBFF" "e AND 0xFC00 = 0xDC00"
    using that 3 utf16_pair [of v e] low_surrogate [of e]
    by (simp add: is_jsstring_def low_bits push_bit_eq_mult add.commute)
  ultimately show ?case using 3 by (auto simp: is_jsstring_def)
qed simp

lemma ucs2_round: "is_jsstring s \<Longrightarrow> ucs2encode (ucs2decode s) = Inr s"
  using ucs2_points [of s] by (fastforce simp: ucs2encode_def ucs2_units)

lemma ucs2_length: "length (ucs2decode s) \<le> length s"
  by (induction s rule: ucs2decode.induct) auto

subsection \<open>One number\<close>

lemma digit_round: "d < 36 \<Longrightarrow> basicToDigit (digitToBasic d 0) = d"
  by (auto simp: basicToDigit_def digitToBasic_def base_def)

text \<open>What the encoder prints for a digit: a lower case letter or a decimal digit.\<close>

definition digit_unit :: "nat \<Rightarrow> bool" where
  "digit_unit c \<longleftrightarrow> 97 \<le> c \<and> c < 123 \<or> 48 \<le> c \<and> c < 58"

lemma digit_ascii: "d < 36 \<Longrightarrow> digit_unit (digitToBasic d 0)"
  by (auto simp: digitToBasic_def digit_unit_def)

lemma encode_int_ne [simp]: "encode_int bias q k \<noteq> []"
  by (subst encode_int.simps) (simp add: Let_def)

lemma encode_int_ascii: "list_all digit_unit (encode_int bias q k)"
proof (induction bias q k rule: encode_int.induct)
  case (1 bias q k)
  have t: "1 \<le> threshold k bias" "threshold k bias \<le> 26" using threshold_bounds by auto
  have "threshold k bias + (q - threshold k bias) mod (base - threshold k bias) < 36"
    using t mod_less_divisor [of "36 - threshold k bias" "q - threshold k bias"] unfolding base_def by linarith
  with 1 t show ?case
    by (subst encode_int.simps) (auto simp: Let_def base_def intro!: digit_ascii)
qed

text \<open>The weights the decoder meets.\<close>

definition weight_ok :: "nat \<Rightarrow> nat \<Rightarrow> nat \<Rightarrow> bool" where
  "weight_ok bias w k \<longleftrightarrow> 0 < w \<and> ((\<exists>j. w = 35 ^ j) \<or> threshold k bias = 26)"

lemma weight_ok_step: "weight_ok bias w k \<Longrightarrow> weight_ok bias (w * (36 - threshold k bias)) (k + 36)"
proof -
  assume w: "weight_ok bias w k"
  have pos: "0 < w * (36 - threshold k bias)"
    using w threshold_bounds [of k bias] by (auto simp: weight_ok_def)
  show ?thesis
  proof (cases "threshold k bias = 1")
    case True
    then obtain j where "w = 35 ^ j" using w by (auto simp: weight_ok_def)
    then have "w * (36 - threshold k bias) = 35 ^ Suc j" by (simp add: True)
    with pos show ?thesis unfolding weight_ok_def by blast
  next
    case False
    then have "threshold (k + 36) bias = 26"
      by (auto simp: threshold_def tMin_def tMax_def split: if_splits)
    with pos show ?thesis by (simp add: weight_ok_def)
  qed
qed

lemma weight_bound:
  assumes "weight_ok bias w k" "threshold k bias \<le> q" "q * w < 35 ^ 6"
  shows "w * (36 - threshold k bias) \<le> maxInt"
proof -
  let ?t = "threshold k bias"
  have t: "1 \<le> ?t" "?t \<le> 26" using threshold_bounds by auto
  have tw: "?t * w < 35 ^ 6" using assms(2,3) by (meson le_less_trans mult_le_mono1)
  from assms(1) consider j where "w = 35 ^ j" | "?t = 26" by (auto simp: weight_ok_def)
  then show ?thesis
  proof cases
    case 1
    have "1 * w \<le> ?t * w" using t(1) by (rule mult_le_mono1)
    from le_less_trans [OF this tw] have "(35::nat) ^ j < 35 ^ 6" unfolding 1 by (simp only: mult_1)
    then have "j < 6" by (rule power_less_imp_less_exp [rotated]) simp
    then have "j \<le> 5" by simp
    then have "w \<le> 35 ^ 5" unfolding 1 by (intro power_increasing) simp_all
    then have "w * (36 - ?t) \<le> 35 ^ 5 * 35" using t by (intro mult_le_mono) simp_all
    then show ?thesis by (simp add: maxInt_def)
  next
    case 2
    then show ?thesis using tw by (simp add: maxInt_def)
  qed
qed

lemma decode_encode_int:
  "input = pre @ encode_int bias q k @ post \<Longrightarrow> weight_ok bias w k \<Longrightarrow> q * w < 35 ^ 6 \<Longrightarrow> i + q * w \<le> maxInt \<Longrightarrow>
   decode_int input bias (length pre) i w k = Inr (length pre + length (encode_int bias q k), i + q * w)"
proof (induction bias q k arbitrary: pre w i rule: encode_int.induct)
  case (1 bias q k)
  let ?t = "threshold k bias"
  have t: "1 \<le> ?t" "?t \<le> 26" using threshold_bounds by auto
  have w: "0 < w" using 1(3) by (simp add: weight_ok_def)
  have fits: "d \<le> (maxInt - i) div w" if "d \<le> q" for d
  proof -
    have "d * w \<le> q * w" using that by (rule mult_le_mono1)
    then have "d * w \<le> maxInt - i" using 1(5) by linarith
    then show ?thesis using w by (simp add: less_eq_div_iff_mult_less_eq)
  qed
  show ?case
  proof (cases "q < ?t")
    case True
    then have e: "encode_int bias q k = [digitToBasic q 0]" by (subst encode_int.simps) simp
    have "input ! length pre = digitToBasic q 0" "length pre < length input" using 1(2) e by simp_all
    then show ?thesis
      using True t fits [of q] by (subst decode_int.simps) (simp add: e digit_round base_def Let_def)
  next
    case False
    define d where "d = ?t + (q - ?t) mod (36 - ?t)"
    define q' where "q' = (q - ?t) div (36 - ?t)"
    have e: "encode_int bias q k = digitToBasic d 0 # encode_int bias q' (k + 36)"
      using False by (subst encode_int.simps) (simp add: Let_def d_def q'_def base_def)
    have d: "d < 36" "?t \<le> d"
      using t mod_less_divisor [of "36 - ?t" "q - ?t"] unfolding d_def by linarith+
    have q: "q = d + q' * (36 - ?t)"
      using False div_mult_mod_eq [of "q - ?t" "36 - ?t"] unfolding d_def q'_def by linarith
    have dq: "d \<le> q" using q by simp
    have qw: "q * w = d * w + q' * (w * (36 - ?t))" by (subst q) (simp add: algebra_simps)
    have wb: "w * (36 - ?t) \<le> maxInt" by (rule weight_bound [OF 1(3) _ 1(4)]) (use False in simp)
    then have wd: "\<not> maxInt div (36 - ?t) < w"
      using t by (simp add: not_less less_eq_div_iff_mult_less_eq)
    have u: "input ! length pre = digitToBasic d 0" "length pre < length input" using 1(2) e by simp_all
    have "decode_int input bias (length (pre @ [digitToBasic d 0])) (i + d * w) (w * (36 - ?t)) (k + base) =
        Inr (length (pre @ [digitToBasic d 0]) + length (encode_int bias q' (k + base)), (i + d * w) + q' * (w * (36 - ?t)))"
      using 1(1) [OF refl False refl refl, of "pre @ [digitToBasic d 0]" "w * (36 - ?t)" "i + d * w"]
        1(2,4,5) e qw weight_ok_step [OF 1(3)]
      by (simp add: base_def q'_def)
    then show ?thesis
      using d fits [OF dq] wd u
      by (subst decode_int.simps) (simp add: e digit_round base_def Let_def qw)
  qed
qed

subsection \<open>One code point\<close>

lemma decode_delta:
  assumes "input = pre @ encode_int bias d base @ post" "d < 35 ^ 6" "i + d \<le> maxInt"
    "i + d = (n' - n) * (length output + 1) + pos" "pos \<le> length output" "n \<le> n'" "n' \<le> maxInt"
  shows "decode_loop input (length pre) i n bias output =
    decode_loop input (length pre + length (encode_int bias d base)) (pos + 1) n'
      (adapt d (length output + 1) (i = 0)) (splice output pos n')"
proof -
  have w: "weight_ok bias 1 base" by (auto simp: weight_ok_def intro: exI [of _ 0])
  have r: "decode_int input bias (length pre) i 1 base = Inr (length pre + length (encode_int bias d base), i + d)"
    using decode_encode_int [OF assms(1) w] assms(2,3) by simp
  have l: "length pre < length input" using assms(1) by simp
  have dm0: "b < m \<Longrightarrow> (x * m + b) div m = x \<and> (x * m + b) mod m = b" for b m x :: nat by simp
  have dm: "(i + d) div (length output + 1) = n' - n" "(i + d) mod (length output + 1) = pos"
    using dm0 [of pos "length output + 1" "n' - n"] assms(4,5) by simp_all
  have "\<not> n' - n > maxInt - n" using assms(7) by (simp add: diff_le_mono)
  then show ?thesis
    using l r dm assms(6) by (subst decode_loop.simps) (simp add: Let_def)
qed

subsection \<open>One pass\<close>

text \<open>
  In the round for \<open>n\<close>, with \<open>p\<close> of the input behind and \<open>cs\<close> ahead: the decoder holds the code points
  handled so far, in the order of the input, and the two states are \<open>delta\<close> insertions apart.
\<close>

definition handled :: "nat \<Rightarrow> nat list \<Rightarrow> nat list \<Rightarrow> nat list" where
  "handled n p cs = filter (\<lambda>c. c \<le> n) p @ filter (\<lambda>c. c < n) cs"

definition apart :: "nat \<Rightarrow> nat list \<Rightarrow> nat list \<Rightarrow> enc_state \<Rightarrow> nat \<Rightarrow> nat \<Rightarrow> bool" where
  "apart n p cs st i nd \<longleftrightarrow>
     handledCPCount st = length (handled n p cs) \<and> nd \<le> n \<and>
     delta st + nd * (handledCPCount st + 1) + i =
       n * (handledCPCount st + 1) + length (filter (\<lambda>c. c \<le> n) p)"

definition pass_inv :: "nat \<Rightarrow> nat \<Rightarrow> nat \<Rightarrow> nat list \<Rightarrow> nat list \<Rightarrow> enc_state \<Rightarrow> nat \<Rightarrow> nat \<Rightarrow> bool" where
  "pass_inv n h1 bl p cs st i nd \<longleftrightarrow>
     apart n p cs st i nd \<and> (i = 0 \<longleftrightarrow> handledCPCount st = bl) \<and> bl < h1 \<and>
     (handledCPCount st + 1 = h1 \<or> delta st \<le> length (filter (\<lambda>c. c < n) p)) \<and>
     length (filter (\<lambda>c. c < n) (p @ cs)) + 1 = h1"

lemma apart_bound:
  assumes "apart n p cs st i nd" "n < 0x110000" "length (p @ cs) \<le> 1600"
  shows "i + delta st < 35 ^ 6 \<and>
    i + delta st = (n - nd) * (length (handled n p cs) + 1) + length (filter (\<lambda>c. c \<le> n) p)"
proof -
  let ?h = "length (handled n p cs)" and ?pos = "length (filter (\<lambda>c. c \<le> n) p)"
  have "?pos \<le> length p" "length (filter (\<lambda>c. c < n) cs) \<le> length cs" by simp_all
  then have h: "?h + 1 \<le> 1601" "?pos \<le> 1600" using assms(3) unfolding handled_def length_append by linarith+
  have hc: "handledCPCount st = ?h" and nd: "nd \<le> n"
    and e0: "delta st + nd * (handledCPCount st + 1) + i = n * (handledCPCount st + 1) + ?pos"
    using assms(1) unfolding apart_def by blast+
  have e: "delta st + nd * (?h + 1) + i = n * (?h + 1) + ?pos" using e0 unfolding hc .
  obtain x where x: "n = nd + x" using nd le_Suc_ex by blast
  have "i + delta st = x * (?h + 1) + ?pos" using e by (simp add: x algebra_simps)
  moreover have "x * (?h + 1) \<le> 0x10FFFF * 1601" using h assms(2) x by (intro mult_le_mono) simp_all
  ultimately show ?thesis using h x by simp
qed

lemma adapt_within:
  assumes "h + 1 = h1 \<or> d < h1" "h1 \<le> h + 1"
  shows "adapt d h1 False = adapt d (h + 1) False"
proof (cases "h + 1 = h1")
  case False
  then have "drop_bit 1 d < h1" "drop_bit 1 d < h + 1"
    using assms by (auto simp: drop_bit_eq_div intro: le_less_trans [OF div_le_dividend])
  then show ?thesis by (simp add: adapt_def)
qed simp

lemma handled_step:
  "handled n (p @ [c]) cs = (if c = n then splice (handled n p (c # cs)) (length (filter (\<lambda>c. c \<le> n) p)) n
                             else handled n p (c # cs))"
  by (auto simp: handled_def splice_def)

lemma handled_length:
  "length (handled n (p @ [c]) cs) = length (handled n p (c # cs)) + (if c = n then 1 else 0)"
  by (auto simp: handled_def)

lemma pass_inv_gt: "n < c \<Longrightarrow> pass_inv n h1 bl p (c # cs) st i nd \<Longrightarrow> pass_inv n h1 bl (p @ [c]) cs st i nd"
  unfolding pass_inv_def apart_def handled_length by auto

lemma pass_inv_h1: "pass_inv n h1 bl p cs st i nd \<Longrightarrow> h1 \<le> handledCPCount st + 1"
proof -
  have "length (filter (\<lambda>c. c < n) p) \<le> length (filter (\<lambda>c. c \<le> n) p)" by (induction p) auto
  then show "pass_inv n h1 bl p cs st i nd \<Longrightarrow> h1 \<le> handledCPCount st + 1"
    by (auto simp: pass_inv_def apart_def handled_def)
qed

lemma pass_inv_less:
  "c < n \<Longrightarrow> pass_inv n h1 bl p (c # cs) st i nd \<Longrightarrow> pass_inv n h1 bl (p @ [c]) cs (st\<lparr>delta := delta st + 1\<rparr>) i nd"
  unfolding pass_inv_def apart_def handled_length by auto

lemma pass_inv_eq:
  assumes "pass_inv n h1 bl p (n # cs) st i nd" "handledCPCount st' = handledCPCount st + 1" "delta st' = 0"
  shows "pass_inv n h1 bl (p @ [n]) cs st' (length (filter (\<lambda>c. c \<le> n) p) + 1) n"
  using assms pass_inv_h1 [OF assms(1)] unfolding pass_inv_def apart_def handled_length by auto

lemma pass_inv_bias:
  assumes "pass_inv n h1 bl p (c # cs) st i nd"
  shows "adapt (delta st) h1 (handledCPCount st = bl) = adapt (delta st) (length (handled n p (c # cs)) + 1) (i = 0)"
proof -
  have inv: "handledCPCount st = length (handled n p (c # cs))" "i = 0 \<longleftrightarrow> handledCPCount st = bl"
    "handledCPCount st + 1 = h1 \<or> delta st < h1"
    using assms by (auto simp: pass_inv_def apart_def)
  note h1 = pass_inv_h1 [OF assms]
  show ?thesis
  proof (cases "handledCPCount st + 1 = h1")
    case False
    then have "bl \<noteq> handledCPCount st" using h1 assms by (auto simp: pass_inv_def)
    then show ?thesis using adapt_within [OF inv(3) h1] inv(1,2) by simp
  qed (use inv in simp)
qed

lemma pass_run:
  assumes "pass_inv n h1 bl p cs st i nd" "n < 0x110000" "length (p @ cs) \<le> 1600"
  shows "\<exists>st' i' nd' ds. encode_pass n h1 bl cs st = Inr st' \<and> e_output st' = e_output st @ ds \<and> list_all digit_unit ds \<and>
    pass_inv n h1 bl (p @ cs) [] st' i' nd' \<and>
    (\<forall>input post. input = e_output st @ ds @ post \<longrightarrow>
       decode_loop input (length (e_output st)) i nd (e_bias st) (handled n p cs) =
       decode_loop input (length (e_output st')) i' nd' (e_bias st') (handled n (p @ cs) []))"
  using assms
proof (induction cs arbitrary: p st i nd)
  case Nil
  then show ?case by (intro exI [of _ st] exI [of _ i] exI [of _ nd] exI [of _ "[]"]) simp
next
  case (Cons c cs)
  have inv: "apart n p (c # cs) st i nd" using Cons.prems(1) by (simp add: pass_inv_def)
  have len: "length ((p @ [c]) @ cs) \<le> 1600" using Cons.prems(3) by simp
  have b: "i + delta st < 35 ^ 6"
    "i + delta st = (n - nd) * (length (handled n p (c # cs)) + 1) + length (filter (\<lambda>c. c \<le> n) p)"
    using apart_bound [OF inv Cons.prems(2,3)] by simp_all
  consider (less) "c < n" | (eq) "c = n" | (gt) "n < c" by linarith
  then show ?case
  proof cases
    case less
    let ?st = "st\<lparr>delta := delta st + 1\<rparr>"
    have h: "handled n (p @ [c]) cs = handled n p (c # cs)" using less by (simp add: handled_step)
    note inv' = pass_inv_less [OF less Cons.prems(1)]
    have "\<not> maxInt < delta st + 1" using b(1) by (simp add: maxInt_def)
    then show ?thesis using Cons.IH [OF inv' Cons.prems(2) len] less by (simp add: h)
  next
    case gt
    have h: "handled n (p @ [c]) cs = handled n p (c # cs)" using gt by (simp add: handled_step)
    note inv' = pass_inv_gt [OF gt Cons.prems(1)]
    show ?thesis using Cons.IH [OF inv' Cons.prems(2) len] gt by (simp add: h)
  next
    case eq
    let ?out = "handled n p (c # cs)" and ?pos = "length (filter (\<lambda>c. c \<le> n) p)"
    let ?e = "encode_int (e_bias st) (delta st) base"
    let ?st = "st\<lparr>e_output := e_output st @ ?e, e_bias := adapt (delta st) h1 (handledCPCount st = bl), delta := 0,
      handledCPCount := handledCPCount st + 1\<rparr>"
    have hc: "handledCPCount st = length ?out" using inv by (simp add: apart_def)
    have h: "handled n (p @ [c]) cs = splice ?out ?pos n" using eq by (simp add: handled_step)
    have inv': "pass_inv n h1 bl (p @ [c]) cs ?st (?pos + 1) n"
      unfolding eq by (rule pass_inv_eq [of _ _ _ _ _ st i nd]) (use Cons.prems(1) eq in simp_all)
    obtain st' i' nd' ds where IH: "encode_pass n h1 bl cs ?st = Inr st'" "e_output st' = e_output ?st @ ds" "list_all digit_unit ds"
      "pass_inv n h1 bl ((p @ [c]) @ cs) [] st' i' nd'"
      "\<And>input post. input = e_output ?st @ ds @ post \<Longrightarrow>
         decode_loop input (length (e_output ?st)) (?pos + 1) n (e_bias ?st) (handled n (p @ [c]) cs) =
         decode_loop input (length (e_output st')) i' nd' (e_bias st') (handled n ((p @ [c]) @ cs) [])"
      using Cons.IH [OF inv' Cons.prems(2) len] by blast
    note bias = pass_inv_bias [OF Cons.prems(1)]
    have step: "decode_loop input (length (e_output st)) i nd (e_bias st) ?out =
        decode_loop input (length (e_output ?st)) (?pos + 1) n (e_bias ?st) (handled n (p @ [c]) cs)"
      if "input = e_output st @ ?e @ ds @ post" for input post
    proof -
      have "decode_loop input (length (e_output st)) i nd (e_bias st) ?out =
          decode_loop input (length (e_output st) + length ?e) (?pos + 1) n
            (adapt (delta st) (length ?out + 1) (i = 0)) (splice ?out ?pos n)"
      proof (rule decode_delta [OF that _ _ b(2)])
        show "?pos \<le> length ?out" by (simp add: handled_def)
        show "nd \<le> n" using inv by (simp add: apart_def)
      qed (use b(1) Cons.prems(2) in \<open>simp_all add: maxInt_def\<close>)
      then show ?thesis by (simp add: bias h)
    qed
    show ?thesis
      by (intro exI [of _ st'] exI [of _ i'] exI [of _ nd'] exI [of _ "?e @ ds"])
         (use IH step eq encode_int_ascii in \<open>simp add: Let_def\<close>)
  qed
qed

subsection \<open>All rounds\<close>

lemma next_point_fold:
  fixes n :: nat
  defines "pick \<equiv> \<lambda>m c. if c \<ge> n \<and> c < m then c else m"
  shows "foldl pick m0 input \<le> m0 \<and> (foldl pick m0 input = m0 \<or> foldl pick m0 input \<in> set input \<and> n \<le> foldl pick m0 input) \<and>
    (\<forall>c \<in> set input. n \<le> c \<longrightarrow> foldl pick m0 input \<le> c)"
proof (induction input arbitrary: m0)
  case (Cons a input)
  have p: "pick m0 a \<le> m0" "pick m0 a = m0 \<or> pick m0 a = a \<and> n \<le> a" "n \<le> a \<longrightarrow> pick m0 a \<le> a"
    by (auto simp: pick_def)
  then show ?case using Cons.IH [of "pick m0 a"] by auto
qed simp

lemma next_point_least:
  assumes "c0 \<in> set input" "n \<le> c0" "\<forall>c \<in> set input. c < maxInt"
  shows "next_point input n \<in> set input \<and> n \<le> next_point input n \<and>
    (\<forall>c \<in> set input. c < next_point input n \<longrightarrow> c < n)"
proof -
  let ?m = "next_point input n"
  have m: "?m = maxInt \<or> ?m \<in> set input \<and> n \<le> ?m" "\<forall>c \<in> set input. n \<le> c \<longrightarrow> ?m \<le> c"
    using next_point_fold [of n maxInt input] unfolding next_point_def by blast+
  have "?m \<noteq> maxInt" using m(2) assms by force
  then show ?thesis using m by force
qed

definition round_inv :: "nat \<Rightarrow> nat \<Rightarrow> nat list \<Rightarrow> enc_state \<Rightarrow> nat \<Rightarrow> nat \<Rightarrow> bool" where
  "round_inv n bl cps st i nd \<longleftrightarrow>
     handledCPCount st = length (filter (\<lambda>c. c < n) cps) \<and> nd \<le> n \<and>
     delta st + nd * (handledCPCount st + 1) + i = n * (handledCPCount st + 1) \<and>
     (i = 0 \<longleftrightarrow> handledCPCount st = bl) \<and> bl \<le> handledCPCount st"

lemma round_inv_pass:
  assumes "round_inv n bl cps st i nd" "n \<le> m" "filter (\<lambda>c. c < m) cps = filter (\<lambda>c. c < n) cps"
  shows "pass_inv m (handledCPCount st + 1) bl [] cps
    (st\<lparr>delta := delta st + (m - n) * (handledCPCount st + 1)\<rparr>) i nd"
proof -
  obtain x where m: "m = n + x" using assms(2) le_Suc_ex by blast
  show ?thesis
    using assms(1,3) unfolding m
    by (auto simp: pass_inv_def apart_def handled_def round_inv_def algebra_simps)
qed

lemma pass_inv_round:
  assumes "pass_inv m h1 bl cps [] st i nd"
  shows "round_inv (m + 1) bl cps (st\<lparr>delta := delta st + 1\<rparr>) i nd"
  using assms pass_inv_h1 [OF assms] unfolding pass_inv_def round_inv_def apart_def handled_def
  by (auto simp: less_Suc_eq_le algebra_simps)

lemma filter_all: "length (filter P xs) = length xs \<Longrightarrow> filter P xs = xs"
  using length_filter_less [of _ xs P] by (auto simp: filter_id_conv)

lemma rounds_done:
  assumes "round_inv n bl cps st i nd" "\<not> handledCPCount st < length cps"
  shows "\<exists>ds. encode_loop fuel cps bl n st = Some (Inr (e_output st @ ds)) \<and> list_all digit_unit ds \<and>
    decode_loop (e_output st @ ds) (length (e_output st)) i nd (e_bias st) (filter (\<lambda>c. c < n) cps) = Inr cps"
proof -
  have "length (filter (\<lambda>c. c < n) cps) = length cps"
    using assms by (auto simp: round_inv_def intro: antisym)
  then show ?thesis using assms(2) filter_all
    by (intro exI [of _ "[]"]) (simp add: encode_loop.simps decode_loop.simps)
qed

lemma rounds_run:
  assumes "round_inv n bl cps st i nd" "n \<le> 0x110000" "length cps \<le> 1600" "\<forall>c \<in> set cps. c < 0x110000"
    "length cps - handledCPCount st \<le> fuel"
  shows "\<exists>ds. encode_loop fuel cps bl n st = Some (Inr (e_output st @ ds)) \<and> list_all digit_unit ds \<and>
    decode_loop (e_output st @ ds) (length (e_output st)) i nd (e_bias st) (filter (\<lambda>c. c < n) cps) = Inr cps"
  using assms
proof (induction fuel arbitrary: n st i nd)
  case (0 n st i nd)
  then show ?case by (intro rounds_done) simp_all
next
  case (Suc fuel n st i nd)
  show ?case
  proof (cases "handledCPCount st < length cps")
    case False
    then show ?thesis using rounds_done [OF Suc.prems(1)] by simp
  next
    case True
    then have "filter (\<lambda>c. c < n) cps \<noteq> cps" using Suc.prems(1) by (auto simp: round_inv_def)
    then obtain c0 where c0: "c0 \<in> set cps" "n \<le> c0" by (auto simp: filter_id_conv not_less)
    define m where "m = next_point cps n"
    have m: "m \<in> set cps" "n \<le> m" "\<forall>c \<in> set cps. c < m \<longrightarrow> c < n"
      using next_point_least [OF c0] Suc.prems(4) unfolding m_def by (fastforce simp: maxInt_def)+
    have same: "filter (\<lambda>c. c < m) cps = filter (\<lambda>c. c < n) cps" using m by (intro filter_cong) auto
    have m17: "m < 0x110000" using m(1) Suc.prems(4) by blast
    let ?h1 = "handledCPCount st + 1"
    let ?st = "st\<lparr>delta := delta st + (m - n) * ?h1\<rparr>"
    have inv: "pass_inv m ?h1 bl [] cps ?st i nd" by (rule round_inv_pass [OF Suc.prems(1) m(2) same])
    have len: "length ([] @ cps) \<le> 1600" using Suc.prems(3) by simp
    obtain st' i' nd' ds where run: "encode_pass m ?h1 bl cps ?st = Inr st'" "e_output st' = e_output ?st @ ds" "list_all digit_unit ds"
      "pass_inv m ?h1 bl ([] @ cps) [] st' i' nd'"
      "\<And>input post. input = e_output ?st @ ds @ post \<Longrightarrow>
         decode_loop input (length (e_output ?st)) i nd (e_bias ?st) (handled m [] cps) =
         decode_loop input (length (e_output st')) i' nd' (e_bias st') (handled m ([] @ cps) [])"
      using pass_run [OF inv m17 len] by blast
    have h': "handledCPCount st' = length (filter (\<lambda>c. c \<le> m) cps)"
      using run(4) by (simp add: pass_inv_def apart_def handled_def)
    have "length (filter (\<lambda>c. c < m) (filter (\<lambda>c. c \<le> m) cps)) < length (filter (\<lambda>c. c \<le> m) cps)"
      by (rule length_filter_less [of m]) (use m(1) in simp_all)
    then have more: "handledCPCount st < handledCPCount st'"
      using Suc.prems(1) same h' by (simp add: round_inv_def conj_commute less_le [of _ m, symmetric] cong: conj_cong)
    have fits: "\<not> (int maxInt - int (delta st)) div int ?h1 < int m - int n"
    proof -
      have "delta st + (m - n) * ?h1 \<le> maxInt"
        using apart_bound [of m "[]" cps ?st i nd] inv m17 len by (simp add: pass_inv_def maxInt_def)
      then have "int (delta st + (m - n) * ?h1) \<le> int maxInt" by (simp only: of_nat_le_iff)
      then have "int (delta st) + int (m - n) * int ?h1 \<le> int maxInt" by (simp only: of_nat_add of_nat_mult)
      then have "(int m - int n) * int ?h1 \<le> int maxInt - int (delta st)"
        unfolding of_nat_diff [OF m(2), symmetric] le_diff_eq by (simp only: add.commute)
      then have "(int m - int n) * int ?h1 div int ?h1 \<le> (int maxInt - int (delta st)) div int ?h1"
        by (rule zdiv_mono1) simp
      then show ?thesis by simp
    qed
    let ?st2 = "st'\<lparr>delta := delta st' + 1\<rparr>"
    have inv2: "round_inv (m + 1) bl cps ?st2 i' nd'" using pass_inv_round [of m ?h1 bl cps st'] run(4) by simp
    have fuel: "length cps - handledCPCount st' \<le> fuel" using more Suc.prems(5) by linarith
    obtain ds2 where IH: "encode_loop fuel cps bl (m + 1) ?st2 = Some (Inr (e_output ?st2 @ ds2))" "list_all digit_unit ds2"
      "decode_loop (e_output ?st2 @ ds2) (length (e_output ?st2)) i' nd' (e_bias ?st2) (filter (\<lambda>c. c < m + 1) cps) = Inr cps"
      using Suc.IH [OF inv2 _ Suc.prems(3,4)] m17 fuel by auto
    have "encode_loop (Suc fuel) cps bl n st = Some (Inr (e_output st @ ds @ ds2))"
      using True fits run(1,2) IH(1) by (subst encode_loop.simps) (simp add: Let_def flip: m_def)
    moreover have "decode_loop (e_output st @ ds @ ds2) (length (e_output st)) i nd (e_bias st) (filter (\<lambda>c. c < n) cps) =
        Inr cps"
      using run(5) [OF refl, of ds2] IH(3) run(2) same by (simp add: handled_def less_Suc_eq_le)
    moreover have "list_all digit_unit (ds @ ds2)" using run(3) IH(2) by simp
    ultimately show ?thesis by blast
  qed
qed

subsection \<open>The round trip\<close>

lemma basic_prefix:
  assumes "list_all (\<lambda>c. c < 0x80) b" "list_all digit_unit ds" "E = b @ (if length b \<noteq> 0 then [delimiter] else []) @ ds"
  shows "decode E = bind (decode_loop E (length (b @ (if length b \<noteq> 0 then [delimiter] else []))) 0 initialN initialBias b) ucs2encode"
proof -
  have nd: "delimiter \<notin> set ds" using assms(2) by (auto simp: list_all_iff digit_unit_def delimiter_def)
  show ?thesis
  proof (cases "b = []")
    case True
    then show ?thesis using nd assms(3) by (simp add: decode_def lastIndexOf_none)
  next
    case False
    then have "lastIndexOf E delimiter = int (length b)" using nd assms(3) by (simp add: lastIndexOf_append)
    moreover have "\<not> (\<exists>j < length b. E ! j \<ge> 0x80)"
      using assms(1,3) by (auto simp: nth_append list_all_length not_le)
    ultimately show ?thesis using False assms(3) by (auto simp: decode_def Let_def)
  qed
qed

lemma encode_decode:
  assumes "is_jsstring s" "length (ucs2decode s) \<le> 1600"
  shows "\<exists>ds. encode s = Some (Inr (filter (\<lambda>c. c < 0x80) (ucs2decode s) @
      (if length (filter (\<lambda>c. c < 0x80) (ucs2decode s)) \<noteq> 0 then [delimiter] else []) @ ds)) \<and>
    list_all digit_unit ds \<and>
    decode (filter (\<lambda>c. c < 0x80) (ucs2decode s) @
      (if length (filter (\<lambda>c. c < 0x80) (ucs2decode s)) \<noteq> 0 then [delimiter] else []) @ ds) = Inr s"
proof -
  let ?cps = "ucs2decode s"
  let ?b = "filter (\<lambda>c. c < 0x80) ?cps"
  let ?pre = "?b @ (if length ?b \<noteq> 0 then [delimiter] else [])"
  let ?st = "\<lparr>delta = 0, e_bias = initialBias, handledCPCount = length ?b, e_output = ?pre\<rparr>"
  have inv: "round_inv initialN (length ?b) ?cps ?st 0 initialN"
    by (simp add: round_inv_def initialN_def)
  have n: "initialN \<le> 0x110000" by (simp add: initialN_def)
  have pts: "\<forall>c \<in> set ?cps. c < 0x110000" using ucs2_points [OF assms(1)] by blast
  obtain ds where ds: "encode_loop (length ?cps) ?cps (length ?b) initialN ?st = Some (Inr (?pre @ ds))"
    "list_all digit_unit ds"
    "decode_loop (?pre @ ds) (length ?pre) 0 initialN initialBias (filter (\<lambda>c. c < initialN) ?cps) = Inr ?cps"
    using rounds_run [OF inv n assms(2) pts, of "length ?cps"] by auto
  have "list_all (\<lambda>c. c < 0x80) ?b" by (simp add: list_all_iff)
  from basic_prefix [OF this ds(2) refl] have "decode (?pre @ ds) = Inr s"
    using ds(3) by (simp add: initialN_def ucs2_round [OF assms(1)] del: length_append)
  then show ?thesis using ds(1,2) by (intro exI [of _ ds]) (simp add: encode_def Let_def)
qed

text \<open>\<open>encode\<close> with its fuel, as an operation that answers or throws.\<close>

definition encode_result :: "jsstring \<Rightarrow> jsstring result" where
  "encode_result s = (case encode s of Some r \<Rightarrow> r | None \<Rightarrow> Inl overflow)"

interpretation puny_codec: codec "\<lambda>s. is_jsstring s \<and> length (ucs2decode s) \<le> 1600" encode_result decode
  by unfold_locales (use encode_decode in \<open>fastforce simp: encode_result_def\<close>)

text \<open>Different strings have different Punycode.\<close>

lemma encode_result_inj:
  "is_jsstring s \<Longrightarrow> length (ucs2decode s) \<le> 1600 \<Longrightarrow> is_jsstring t \<Longrightarrow> length (ucs2decode t) \<le> 1600 \<Longrightarrow>
   encode_result s = encode_result t \<Longrightarrow> s = t"
  by (rule puny_codec.enc_inj) simp_all

text \<open>
  C30: \<^verbatim>\<open>encode\<close> of a string of at most 1600 code points ends without error, answers ASCII only, and
  \<^verbatim>\<open>decode\<close> of the answer is the string. Unpaired surrogates are kept too.
\<close>

theorem punycode_roundtrip:
  assumes "is_jsstring s" "length (ucs2decode s) \<le> 1600"
  shows "\<exists>e. encode s = Some (Inr e) \<and> list_all (\<lambda>c. c < 0x80) e \<and> decode e = Inr s"
proof -
  obtain ds where ds: "encode s = Some (Inr (filter (\<lambda>c. c < 0x80) (ucs2decode s) @
      (if length (filter (\<lambda>c. c < 0x80) (ucs2decode s)) \<noteq> 0 then [delimiter] else []) @ ds))" "list_all digit_unit ds"
    "decode (filter (\<lambda>c. c < 0x80) (ucs2decode s) @
      (if length (filter (\<lambda>c. c < 0x80) (ucs2decode s)) \<noteq> 0 then [delimiter] else []) @ ds) = Inr s"
    using encode_decode [OF assms] by blast
  have "list_all (\<lambda>c. c < 0x80) (filter (\<lambda>c. c < 0x80) (ucs2decode s) @
      (if length (filter (\<lambda>c. c < 0x80) (ucs2decode s)) \<noteq> 0 then [delimiter] else []) @ ds)"
    using ds(2) by (auto simp: list_all_iff delimiter_def digit_unit_def)
  with ds show ?thesis by blast
qed

theorem punycode_roundtrip_witness:
  "\<exists>e. encode (js ''b'' @ [0xFC, 0xD83D, 0xDE00, 0xFC]) = Some (Inr e) \<and> list_all (\<lambda>c. c < 0x80) e \<and>
       decode e = Inr (js ''b'' @ [0xFC, 0xD83D, 0xDE00, 0xFC])"
  by (rule punycode_roundtrip) (simp_all add: is_jsstring_def)

end
