(* ===== verification/PunycodeDomains.thy ===== *)
theory PunycodeDomains
  imports PunycodeProps
begin

text \<open>
  \<^verbatim>\<open>toUnicode\<close> undoes \<^verbatim>\<open>toASCII\<close>: one label at a time, then the domain as the labels between its
  separators.
\<close>

subsection \<open>One label\<close>

definition ascii_label :: "jsstring \<Rightarrow> jsstring result" where
  "ascii_label s =
     (if \<exists>c \<in> set s. c > 0x7F then
        (case encode s of Some r \<Rightarrow> bind r (\<lambda>e. Inr (js ''xn--'' @ e)) | None \<Rightarrow> Inl overflow)
      else Inr s)"

definition unicode_label :: "(jsstring \<Rightarrow> jsstring) \<Rightarrow> jsstring \<Rightarrow> jsstring result" where
  "unicode_label lower s = (if starts_with_xn s then decode (lower (slice_from s 4)) else Inr s)"

definition upper_unit :: "nat \<Rightarrow> bool" where
  "upper_unit c \<longleftrightarrow> 65 \<le> c \<and> c \<le> 90"

definition label_ok :: "jsstring \<Rightarrow> bool" where
  "label_ok s \<longleftrightarrow> is_jsstring s \<and> length (ucs2decode s) \<le> 1600 \<and> list_all (\<lambda>c. \<not> upper_unit c) s \<and>
     ((\<exists>c \<in> set s. c > 0x7F) \<or> \<not> starts_with_xn s)"

lemma ucs2_basic: "c \<in> set (ucs2decode s) \<Longrightarrow> c < 0x80 \<Longrightarrow> c \<in> set s"
  by (induction s rule: ucs2decode.induct) (auto split: if_splits)

lemma slice_from_xn: "slice_from (js ''xn--'' @ e) 4 = e"
  by (simp add: slice_from_nonneg numeral_eq_Suc)

lemma label_round:
  assumes "label_ok s" "list_all (\<lambda>c. c \<noteq> 46 \<and> c \<noteq> 64) s"
    "\<And>e. list_all (\<lambda>c. c < 0x80 \<and> \<not> upper_unit c) e \<Longrightarrow> lower e = e"
  shows "\<exists>a. ascii_label s = Inr a \<and> unicode_label lower a = Inr s \<and> list_all (\<lambda>c. c < 0x80 \<and> c \<noteq> 46 \<and> c \<noteq> 64) a"
proof (cases "\<exists>c \<in> set s. c > 0x7F")
  case False
  then show ?thesis using assms by (auto simp: ascii_label_def unicode_label_def label_ok_def list_all_iff)
next
  case True
  have s: "is_jsstring s" "length (ucs2decode s) \<le> 1600" "list_all (\<lambda>c. \<not> upper_unit c) s"
    using assms(1) by (simp_all add: label_ok_def)
  let ?b = "filter (\<lambda>c. c < 0x80) (ucs2decode s)"
  obtain ds where ds: "encode s = Some (Inr (?b @ (if length ?b \<noteq> 0 then [delimiter] else []) @ ds))"
    "list_all digit_unit ds" "decode (?b @ (if length ?b \<noteq> 0 then [delimiter] else []) @ ds) = Inr s"
    using encode_decode [OF s(1,2)] by blast
  define e where "e = ?b @ (if length ?b \<noteq> 0 then [delimiter] else []) @ ds"
  have b: "list_all (\<lambda>c. c < 0x80 \<and> \<not> upper_unit c \<and> c \<noteq> 46 \<and> c \<noteq> 64) ?b"
    using s(3) assms(2) ucs2_basic by (force simp: list_all_iff)
  have d: "list_all (\<lambda>c. c < 0x80 \<and> \<not> upper_unit c \<and> c \<noteq> 46 \<and> c \<noteq> 64) ds"
    using ds(2) by (auto simp: list_all_iff digit_unit_def upper_unit_def)
  have all: "list_all (\<lambda>c. c < 0x80 \<and> \<not> upper_unit c \<and> c \<noteq> 46 \<and> c \<noteq> 64) e"
    using b d by (simp add: e_def delimiter_def upper_unit_def)
  then have "list_all (\<lambda>c. c < 0x80 \<and> \<not> upper_unit c) e" by (simp add: list_all_iff)
  from assms(3) [OF this] have "unicode_label lower (js ''xn--'' @ e) = Inr s"
    using ds(3) slice_from_xn [of e] by (simp add: unicode_label_def starts_with_xn_def e_def)
  moreover have "ascii_label s = Inr (js ''xn--'' @ e)" using True ds(1) by (simp add: ascii_label_def e_def)
  moreover have "list_all (\<lambda>c. c < 0x80 \<and> c \<noteq> 46 \<and> c \<noteq> 64) (js ''xn--'' @ e)" using all by (simp add: list_all_iff)
  ultimately show ?thesis by blast
qed

subsection \<open>A domain\<close>

lemma map_back_Inr: "(\<And>x. x \<in> set xs \<Longrightarrow> f x = Inr (g x)) \<Longrightarrow> map_back f xs = Inr (map g xs)"
  by (induction xs) auto

lemma map_back_map: "(\<And>x. x \<in> set xs \<Longrightarrow> f (g x) = Inr x) \<Longrightarrow> map_back f (map g xs) = Inr xs"
  by (induction xs) auto

lemma toUnicode_labels: "toUnicode lower s = mapDomain s (unicode_label lower)"
  by (simp add: toUnicode_def unicode_label_def [abs_def])

lemma toASCII_labels: "toASCII s = mapDomain s ascii_label"
  by (simp add: toASCII_def ascii_label_def [abs_def])

lemma join_split_on: "join [c] (split_on (\<lambda>x. x = c) s) = s"
proof (induction s)
  case (Cons a s)
  obtain x xs where "split_on (\<lambda>x. x = c) s = x # xs" by (cases "split_on (\<lambda>x. x = c) s") simp_all
  with Cons show ?case by (cases "a = c"; cases xs) simp_all
qed simp

lemma split_on_subset: "x \<in> set (split_on p s) \<Longrightarrow> set x \<subseteq> set s"
proof (induction s arbitrary: x)
  case (Cons a s)
  obtain y ys where "split_on p s = y # ys" by (cases "split_on p s") simp_all
  with Cons show ?case by (cases "p a") fastforce+
qed simp

lemma split_on_map: "split_on p (map f s) = map (map f) (split_on (\<lambda>c. p (f c)) s)"
proof (induction s)
  case (Cons a s)
  obtain y ys where "split_on (\<lambda>c. p (f c)) s = y # ys" by (cases "split_on (\<lambda>c. p (f c)) s") simp_all
  with Cons show ?case by (cases "p (f a)") simp_all
qed simp

definition dotted :: "jsstring \<Rightarrow> jsstring" where
  "dotted s = map (\<lambda>c. if is_separator c then 0x2E else c) s"

lemma mapDomain_plain:
  "64 \<notin> set s \<Longrightarrow> mapDomain s f = bind (map_back f (split_on (\<lambda>c. c = 0x2E) (dotted s))) (\<lambda>ls. Inr (join [0x2E] ls))"
proof -
  assume "64 \<notin> set s"
  then have "split_on (\<lambda>c. c = 64) s = [s]" by (intro split_on_single) auto
  then show ?thesis by (simp add: mapDomain_def dotted_def)
qed

lemma dotted_ascii: "list_all (\<lambda>c. c < 0x80) s \<Longrightarrow> dotted s = s"
  unfolding dotted_def by (rule map_idI) (auto simp: list_all_iff is_separator_def)

lemma set_join_dots: "set (join [c] xs) \<subseteq> insert c (\<Union>(set ` set xs))"
  by (induction "[c]" xs rule: join.induct) auto

lemma labels_dotted: "split_on (\<lambda>c. c = 0x2E) (dotted domain) = split_on is_separator domain"
proof -
  let ?dot = "\<lambda>c. if is_separator c then 0x2E else c"
  have "(\<lambda>c. ?dot c = 0x2E) = is_separator" by (rule ext) (simp add: is_separator_def)
  then have "split_on (\<lambda>c. c = 0x2E) (dotted domain) = map (map ?dot) (split_on is_separator domain)"
    by (simp add: dotted_def split_on_map)
  also have "\<dots> = split_on is_separator domain"
  proof (rule map_idI, rule map_idI)
    fix l c assume "l \<in> set (split_on is_separator domain)" "c \<in> set l"
    from split_on_no_sep [OF this] show "?dot c = c" by simp
  qed
  finally show ?thesis .
qed

text \<open>
  For a domain without \<^verbatim>\<open>@\<close>, \<^verbatim>\<open>toUnicode\<close> of what \<^verbatim>\<open>toASCII\<close> answers is the domain with its
  separators as dots, and the answer of \<^verbatim>\<open>toASCII\<close> is ASCII, when the labels have at most 1600 code
  points and no upper case ASCII letters, and those that are ASCII do not start with \<^verbatim>\<open>xn--\<close>.
  \<^verbatim>\<open>toLowerCase\<close> is only taken to keep ASCII strings without upper case letters.
\<close>

lemma domain_roundtrip:
  assumes "64 \<notin> set domain" "list_all label_ok (split_on is_separator domain)"
    "\<And>e. list_all (\<lambda>c. c < 0x80 \<and> \<not> upper_unit c) e \<Longrightarrow> lower e = e"
  shows "\<exists>a. toASCII domain = Inr a \<and> list_all (\<lambda>c. c < 0x80) a \<and>
    toUnicode lower a = Inr (map (\<lambda>c. if is_separator c then 0x2E else c) domain)"
proof -
  let ?labels = "split_on (\<lambda>c. c = 0x2E) (dotted domain)"
  note labels = labels_dotted [of domain]
  have no64: "64 \<notin> set l" if "l \<in> set ?labels" for l
    using split_on_subset [of l is_separator domain] that assms(1) unfolding labels by blast
  have no46: "46 \<notin> set l" if "l \<in> set ?labels" for l
    using split_on_no_sep [OF that] by blast
  define g where "g l = (case ascii_label l of Inr a \<Rightarrow> a | Inl _ \<Rightarrow> [])" for l
  have ex: "\<exists>a. ascii_label l = Inr a \<and> unicode_label lower a = Inr l \<and> list_all (\<lambda>c. c < 0x80 \<and> c \<noteq> 46 \<and> c \<noteq> 64) a"
    if "l \<in> set ?labels" for l
  proof (rule label_round)
    show "label_ok l" using assms(2) that unfolding labels list_all_iff by blast
    show "list_all (\<lambda>c. c \<noteq> 46 \<and> c \<noteq> 64) l"
      unfolding list_all_iff using no64 [OF that] no46 [OF that] by blast
  qed (rule assms(3))
  have g: "\<And>l. l \<in> set ?labels \<Longrightarrow> ascii_label l = Inr (g l)"
    "\<And>l. l \<in> set ?labels \<Longrightarrow> unicode_label lower (g l) = Inr l"
    "\<And>l. l \<in> set ?labels \<Longrightarrow> list_all (\<lambda>c. c < 0x80 \<and> c \<noteq> 46 \<and> c \<noteq> 64) (g l)"
    using ex by (fastforce simp: g_def)+
  define a where "a = join [0x2E] (map g ?labels)"
  have ascii: "toASCII domain = Inr a"
    using map_back_Inr [of ?labels ascii_label g] g(1) mapDomain_plain [OF assms(1), of ascii_label]
    by (simp add: a_def toASCII_labels)
  have "c < 0x80 \<and> c \<noteq> 64" if "c \<in> set a" for c
    using that set_join_dots [where c = 46 and xs = "map g ?labels"] g(3) by (fastforce simp: a_def list_all_iff)
  then have a: "list_all (\<lambda>c. c < 0x80) a" "64 \<notin> set a" by (auto simp: list_all_iff)
  have "split_on (\<lambda>c. c = 0x2E) a = map g ?labels"
    unfolding a_def by (rule split_on_join) (use g(3) in \<open>force simp: list_all_iff\<close>)+
  then have "toUnicode lower a = Inr (join [0x2E] ?labels)"
    using map_back_map [of ?labels "unicode_label lower" g] g(2) mapDomain_plain [OF a(2), of "unicode_label lower"] dotted_ascii [OF a(1)]
    by (simp add: toUnicode_labels)
  then show ?thesis using ascii a(1) by (simp add: join_split_on dotted_def)
qed

lemma domain_roundtrip_witness:
  "\<exists>a. toASCII (js ''ma'' @ [0xF1] @ js ''ana'' @ [0x3002] @ js ''com'') = Inr a \<and> list_all (\<lambda>c. c < 0x80) a \<and>
       toUnicode (\<lambda>s. s) a = Inr (js ''ma'' @ [0xF1] @ js ''ana.com'')"
  using domain_roundtrip [of "js ''ma'' @ [0xF1] @ js ''ana'' @ [0x3002] @ js ''com''" "\<lambda>s. s"]
  by (simp add: label_ok_def is_separator_def is_jsstring_def upper_unit_def starts_with_xn_def)

text \<open>Of an address with a second \<^verbatim>\<open>@\<close>, everything from it on is dropped.\<close>

lemma toASCII_second_at: "toASCII (js ''a@b@c'') = Inr (js ''a@b'')"
  by (simp add: toASCII_def mapDomain_def Let_def is_separator_def)

end
