(* ===== verification/Events.thy ===== *)
theory Events
  imports Prelude "HOL-Library.AList"
begin

text \<open>
  The emitters of lib/events.js: registration, removal and the call of listeners. One emitter is
  modelled, with the objects it has been: an object that was the value of \<^verbatim>\<open>_events\<close>, an array of
  listeners and the state of a once wrapper are cells of stores, because the code keeps references to
  them while listeners run. What a listener does is a script of the host: it may call every operation
  of the emitter again, with or without catching what that throws, call any listener itself, the once
  wrappers the emitter hands out among them, register those, and throw. \<^verbatim>\<open>emit\<close> has fuel, the depth to
  which listeners may emit and call; each call of a listener is recorded with the depth left.
  Captured rejections of promises are not modelled, and the only functions with a property
  \<^verbatim>\<open>listener\<close> are the once wrappers. Keys of an object are in the order of their creation.
\<close>

subsection \<open>State\<close>

datatype event = Ev jsstring | ErrorMonitor | Sym nat

definition newListener :: event where "newListener = Ev (js ''newListener'')"
definition removeListenerEv :: event where "removeListenerEv = Ev (js ''removeListener'')"
definition errorEv :: event where "errorEv = Ev (js ''error'')"

datatype listener = Fn nat | Wrapper nat

datatype earg = ErrorArg nat | ValueArg nat | EventArg event | ListenerArg listener

datatype thrown = ThrownValue earg | UnhandledError "earg option" | ThrownError jserror

datatype handler = Single listener | Array nat

record listener_array =
  elems :: "listener list"
  warned :: bool

record once_state =
  fired :: bool
  w_type :: event
  w_listener :: listener

record emitter =
  tables :: "nat \<Rightarrow> (event \<times> handler option) list"
  arrays :: "nat \<Rightarrow> listener_array"
  wrappers :: "nat \<Rightarrow> once_state"
  next_ref :: nat
  events_ref :: "nat option"
  eventsCount :: int
  maxListeners :: "jsnum option"
  defaultMaxListeners :: jsnum
  shapeMode :: bool
  warnings :: "(event \<times> nat) list"
  calls :: "(nat \<times> listener \<times> earg list) list"

text \<open>A computation gives no answer when the fuel runs out.\<close>

type_synonym 'a comp = "emitter \<Rightarrow> ((thrown + 'a) \<times> emitter) option"
type_synonym emit_fun = "event \<Rightarrow> earg list \<Rightarrow> bool comp"

definition ret :: "'a \<Rightarrow> 'a comp" where
  "ret x s = Some (Inr x, s)"

definition throw :: "thrown \<Rightarrow> 'a comp" where
  "throw e s = Some (Inl e, s)"

definition ebind :: "'a comp \<Rightarrow> ('a \<Rightarrow> 'b comp) \<Rightarrow> 'b comp" where
  "ebind m f s =
     (case m s of
        None \<Rightarrow> None
      | Some (Inl e, s') \<Rightarrow> Some (Inl e, s')
      | Some (Inr x, s') \<Rightarrow> f x s')"

definition modify :: "(emitter \<Rightarrow> emitter) \<Rightarrow> unit comp" where
  "modify f s = Some (Inr (), f s)"

definition with_state :: "(emitter \<Rightarrow> 'a comp) \<Rightarrow> 'a comp" where
  "with_state f s = f s s"

subsection \<open>The object of events\<close>

definition table_at :: "emitter \<Rightarrow> nat option \<Rightarrow> (event \<times> handler option) list" where
  "table_at s r = (case r of None \<Rightarrow> [] | Some i \<Rightarrow> tables s i)"

definition lookup :: "(event \<times> handler option) list \<Rightarrow> event \<Rightarrow> handler option" where
  "lookup t n = (case map_of t n of Some (Some h) \<Rightarrow> Some h | _ \<Rightarrow> None)"

abbreviation current :: "emitter \<Rightarrow> (event \<times> handler option) list" where
  "current s \<equiv> table_at s (events_ref s)"

definition set_table :: "((event \<times> handler option) list \<Rightarrow> (event \<times> handler option) list) \<Rightarrow> emitter \<Rightarrow> emitter" where
  "set_table f s =
     (case events_ref s of None \<Rightarrow> s | Some r \<Rightarrow> s\<lparr>tables := (tables s)(r := f (tables s r))\<rparr>)"

definition fresh_events :: "emitter \<Rightarrow> emitter" where
  "fresh_events s =
     s\<lparr>tables := (tables s)(next_ref s := []), events_ref := Some (next_ref s), next_ref := next_ref s + 1\<rparr>"

definition new_array :: "event \<Rightarrow> listener list \<Rightarrow> emitter \<Rightarrow> emitter" where
  "new_array n ls s =
     (set_table (AList.update n (Some (Array (next_ref s)))) s)
       \<lparr>arrays := (arrays s)(next_ref s := \<lparr>elems = ls, warned = False\<rparr>), next_ref := next_ref s + 1\<rparr>"

definition init :: "emitter \<Rightarrow> emitter" where
  "init s =
     (case events_ref s of
        None \<Rightarrow> (fresh_events s)\<lparr>eventsCount := 0, shapeMode := False\<rparr>
      | Some _ \<Rightarrow> s\<lparr>shapeMode := True\<rparr>)"

text \<open>The property \<^verbatim>\<open>listener\<close> of a function.\<close>

definition listener_of :: "emitter \<Rightarrow> listener \<Rightarrow> listener option" where
  "listener_of s l = (case l of Fn _ \<Rightarrow> None | Wrapper w \<Rightarrow> Some (w_listener (wrappers s w)))"

text \<open>An argument that is no function is \<open>None\<close>.\<close>

definition checkListener :: "listener option \<Rightarrow> listener comp" where
  "checkListener l =
     (case l of Some x \<Rightarrow> ret x | None \<Rightarrow> throw (ThrownError (ERR_INVALID_ARG_TYPE ''listener'' ''Function'')))"

subsection \<open>Limits\<close>

definition validateLimit :: "jsval \<Rightarrow> string \<Rightarrow> jsnum comp" where
  "validateLimit v name =
     (case v of
        JNum n \<Rightarrow>
          (if (case n of Fin r \<Rightarrow> 0 \<le> r | PosInf \<Rightarrow> True | _ \<Rightarrow> False) then ret n
           else throw (ThrownError (ERR_OUT_OF_RANGE name (AtLeast 0))))
      | _ \<Rightarrow> throw (ThrownError (ERR_INVALID_ARG_TYPE name ''number'')))"

definition setMaxListeners :: "jsval \<Rightarrow> unit comp" where
  "setMaxListeners n = ebind (validateLimit n ''setMaxListeners'') (\<lambda>m. modify (\<lambda>s. s\<lparr>maxListeners := Some m\<rparr>))"

definition setDefaultMaxListeners :: "jsval \<Rightarrow> unit comp" where
  "setDefaultMaxListeners n =
     ebind (validateLimit n ''setMaxListeners'') (\<lambda>m. modify (\<lambda>s. s\<lparr>defaultMaxListeners := m\<rparr>))"

definition getMaxListeners :: "emitter \<Rightarrow> jsnum" where
  "getMaxListeners s = (case maxListeners s of None \<Rightarrow> defaultMaxListeners s | Some m \<Rightarrow> m)"

definition exceeds :: "nat \<Rightarrow> jsnum \<Rightarrow> bool" where
  "exceeds n m = (case m of Fin r \<Rightarrow> 0 < r \<and> r < of_nat n | _ \<Rightarrow> False)"

definition check_leak :: "event \<Rightarrow> nat \<Rightarrow> emitter \<Rightarrow> emitter" where
  "check_leak n a s =
     (let arr = arrays s a in
      if exceeds (length (elems arr)) (getMaxListeners s) \<and> \<not> warned arr then
        s\<lparr>arrays := (arrays s)(a := arr\<lparr>warned := True\<rparr>), warnings := warnings s @ [(n, length (elems arr))]\<rparr>
      else s)"

subsection \<open>Registration\<close>

text \<open>\<^verbatim>\<open>_addListener\<close> after the event \<^verbatim>\<open>newListener\<close>.\<close>

definition insert_listener :: "event \<Rightarrow> listener \<Rightarrow> bool \<Rightarrow> emitter \<Rightarrow> emitter" where
  "insert_listener n l prepend s =
     (case lookup (current s) n of
        None \<Rightarrow> (set_table (AList.update n (Some (Single l))) s)\<lparr>eventsCount := eventsCount s + 1\<rparr>
      | Some (Single e) \<Rightarrow> check_leak n (next_ref s) (new_array n (if prepend then [l, e] else [e, l]) s)
      | Some (Array a) \<Rightarrow>
          (let arr = arrays s a
           in check_leak n a
                (s\<lparr>arrays := (arrays s)(a := arr\<lparr>elems := (if prepend then l # elems arr else elems arr @ [l])\<rparr>)\<rparr>)))"

definition addListener :: "emit_fun \<Rightarrow> event \<Rightarrow> listener option \<Rightarrow> bool \<Rightarrow> unit comp" where
  "addListener emit n listener prepend =
     ebind (checkListener listener) (\<lambda>l.
     ebind (with_state (\<lambda>s.
       if events_ref s = None then modify (\<lambda>s. (fresh_events s)\<lparr>eventsCount := 0\<rparr>)
       else if lookup (current s) newListener \<noteq> None then
         ebind (emit newListener
                  [EventArg n, ListenerArg (case listener_of s l of Some o' \<Rightarrow> o' | None \<Rightarrow> l)])
           (\<lambda>_. ret ())
       else ret ()))
     (\<lambda>_. modify (insert_listener n l prepend)))"

definition onceWrap :: "event \<Rightarrow> listener \<Rightarrow> listener comp" where
  "onceWrap n l s =
     Some (Inr (Wrapper (next_ref s)),
           s\<lparr>wrappers := (wrappers s)(next_ref s := \<lparr>fired = False, w_type = n, w_listener = l\<rparr>),
             next_ref := next_ref s + 1\<rparr>)"

definition once :: "emit_fun \<Rightarrow> event \<Rightarrow> listener option \<Rightarrow> bool \<Rightarrow> unit comp" where
  "once emit n listener prepend =
     ebind (checkListener listener) (\<lambda>l.
     ebind (onceWrap n l) (\<lambda>wrapped. addListener emit n (Some wrapped) prepend))"

subsection \<open>Removal\<close>

definition emit_removed :: "emit_fun \<Rightarrow> nat \<Rightarrow> event \<Rightarrow> listener \<Rightarrow> unit comp" where
  "emit_removed emit events n l =
     with_state (\<lambda>s.
       if lookup (tables s events) removeListenerEv \<noteq> None then
         ebind (emit removeListenerEv [EventArg n, ListenerArg l]) (\<lambda>_. ret ())
       else ret ())"

text \<open>The removal of the only listener of an event.\<close>

definition drop_single :: "event \<Rightarrow> emitter \<Rightarrow> emitter" where
  "drop_single n s =
     (let s = s\<lparr>eventsCount := eventsCount s - 1\<rparr>
      in if shapeMode s then set_table (AList.update n None) s
         else if eventsCount s = 0 then fresh_events s
         else set_table (AList.delete n) s)"

definition matches :: "emitter \<Rightarrow> listener \<Rightarrow> listener \<Rightarrow> bool" where
  "matches s l x \<longleftrightarrow> x = l \<or> listener_of s x = Some l"

fun last_position :: "('a \<Rightarrow> bool) \<Rightarrow> 'a list \<Rightarrow> nat option" where
  "last_position p [] = None"
| "last_position p (x # xs) =
     (case last_position p xs of Some i \<Rightarrow> Some (Suc i) | None \<Rightarrow> (if p x then Some 0 else None))"

definition remove_nth :: "nat \<Rightarrow> 'a list \<Rightarrow> 'a list" where
  "remove_nth i xs = take i xs @ drop (Suc i) xs"

definition drop_position :: "event \<Rightarrow> nat \<Rightarrow> nat \<Rightarrow> emitter \<Rightarrow> emitter" where
  "drop_position n a i s =
     (let list = remove_nth i (elems (arrays s a));
          s = s\<lparr>arrays := (arrays s)(a := (arrays s a)\<lparr>elems := list\<rparr>)\<rparr>
      in if length list = 1 then set_table (AList.update n (Some (Single (list ! 0)))) s else s)"

definition removeListener :: "emit_fun \<Rightarrow> event \<Rightarrow> listener option \<Rightarrow> unit comp" where
  "removeListener emit n listener =
     ebind (checkListener listener) (\<lambda>l.
     with_state (\<lambda>s.
       case events_ref s of
         None \<Rightarrow> ret ()
       | Some events \<Rightarrow>
           (case lookup (tables s events) n of
              None \<Rightarrow> ret ()
            | Some (Single x) \<Rightarrow>
                (if matches s l x then
                   ebind (modify (drop_single n)) (\<lambda>_.
                     emit_removed emit events n (case listener_of s x of Some o' \<Rightarrow> o' | None \<Rightarrow> l))
                 else ret ())
            | Some (Array a) \<Rightarrow>
                (case last_position (matches s l) (elems (arrays s a)) of
                   None \<Rightarrow> ret ()
                 | Some i \<Rightarrow> ebind (modify (drop_position n a i)) (\<lambda>_. emit_removed emit events n l)))))"

text \<open>\<^verbatim>\<open>removeAllListeners\<close> with an event: \<open>a\<close> is the array as it was found, read again at each turn.\<close>

fun remove_backwards :: "emit_fun \<Rightarrow> event \<Rightarrow> nat \<Rightarrow> nat \<Rightarrow> unit comp" where
  "remove_backwards emit n a 0 = ret ()"
| "remove_backwards emit n a (Suc i) =
     ebind (with_state (\<lambda>s.
       removeListener emit n (if i < length (elems (arrays s a)) then Some (elems (arrays s a) ! i) else None)))
     (\<lambda>_. remove_backwards emit n a i)"

definition drop_event :: "event \<Rightarrow> emitter \<Rightarrow> emitter" where
  "drop_event n s =
     (if lookup (current s) n \<noteq> None then
        (let s = s\<lparr>eventsCount := eventsCount s - 1\<rparr>
         in if eventsCount s = 0 then fresh_events s else set_table (AList.delete n) s)
      else s)\<lparr>shapeMode := False\<rparr>"

definition removeAllOf :: "emit_fun \<Rightarrow> event \<Rightarrow> unit comp" where
  "removeAllOf emit n =
     with_state (\<lambda>s.
       if events_ref s = None then ret ()
       else if lookup (current s) removeListenerEv = None then modify (drop_event n)
       else
         (case lookup (current s) n of
            None \<Rightarrow> ret ()
          | Some (Single l) \<Rightarrow> removeListener emit n (Some l)
          | Some (Array a) \<Rightarrow> remove_backwards emit n a (length (elems (arrays s a)))))"

fun for_each :: "('a \<Rightarrow> unit comp) \<Rightarrow> 'a list \<Rightarrow> unit comp" where
  "for_each f [] = ret ()"
| "for_each f (x # xs) = ebind (f x) (\<lambda>_. for_each f xs)"

definition clear_events :: "emitter \<Rightarrow> emitter" where
  "clear_events s = (fresh_events s)\<lparr>eventsCount := 0, shapeMode := False\<rparr>"

definition removeAllListeners :: "emit_fun \<Rightarrow> event option \<Rightarrow> unit comp" where
  "removeAllListeners emit n =
     (case n of
        Some ev \<Rightarrow> removeAllOf emit ev
      | None \<Rightarrow>
          with_state (\<lambda>s.
            if events_ref s = None then ret ()
            else if lookup (current s) removeListenerEv = None then modify clear_events
            else
              ebind (for_each (removeAllOf emit) (filter (\<lambda>k. k \<noteq> removeListenerEv) (map fst (current s)))) (\<lambda>_.
              ebind (removeAllOf emit removeListenerEv) (\<lambda>_.
              modify clear_events))))"

subsection \<open>Questions\<close>

definition unwrap :: "emitter \<Rightarrow> listener \<Rightarrow> listener" where
  "unwrap s l = (case listener_of s l of Some o' \<Rightarrow> o' | None \<Rightarrow> l)"

definition listeners_of :: "emitter \<Rightarrow> event \<Rightarrow> bool \<Rightarrow> listener list" where
  "listeners_of s n unw =
     (case lookup (current s) n of
        None \<Rightarrow> []
      | Some (Single l) \<Rightarrow> (if unw then [unwrap s l] else [l])
      | Some (Array a) \<Rightarrow> (if unw then map (unwrap s) (elems (arrays s a)) else elems (arrays s a)))"

definition listenerCount :: "emitter \<Rightarrow> event \<Rightarrow> listener option \<Rightarrow> nat" where
  "listenerCount s n listener =
     (case lookup (current s) n of
        None \<Rightarrow> 0
      | Some (Single x) \<Rightarrow> (case listener of Some l \<Rightarrow> (if matches s l x then 1 else 0) | None \<Rightarrow> 1)
      | Some (Array a) \<Rightarrow>
          (case listener of
             Some l \<Rightarrow> length (filter (matches s l) (elems (arrays s a)))
           | None \<Rightarrow> length (elems (arrays s a))))"

definition eventNames :: "emitter \<Rightarrow> event list" where
  "eventNames s = (if eventsCount s > 0 then map fst (current s) else [])"

subsection \<open>What listeners do\<close>

datatype command =
    On event "listener option"
  | PrependListener event "listener option"
  | Once event "listener option"
  | PrependOnceListener event "listener option"
  | Off event "listener option"
  | RemoveAll "event option"
  | SetMaxListeners jsval
  | ListenerCount event "listener option"
  | Listeners event
  | RawListeners event
  | Emit event "earg list"
  | Call listener "earg list"
  | Catch command

datatype reply = Done | Flag bool | Count nat | Functions "listener list"

type_synonym call_fun = "listener \<Rightarrow> earg list \<Rightarrow> unit comp"

definition answer :: "('a \<Rightarrow> reply) \<Rightarrow> 'a comp \<Rightarrow> reply comp" where
  "answer f m = ebind m (\<lambda>x. ret (f x))"

fun exec :: "emit_fun \<Rightarrow> call_fun \<Rightarrow> command \<Rightarrow> reply comp" where
  "exec emit call (On n l) = answer (\<lambda>_. Done) (addListener emit n l False)"
| "exec emit call (PrependListener n l) = answer (\<lambda>_. Done) (addListener emit n l True)"
| "exec emit call (Once n l) = answer (\<lambda>_. Done) (once emit n l False)"
| "exec emit call (PrependOnceListener n l) = answer (\<lambda>_. Done) (once emit n l True)"
| "exec emit call (Off n l) = answer (\<lambda>_. Done) (removeListener emit n l)"
| "exec emit call (RemoveAll n) = answer (\<lambda>_. Done) (removeAllListeners emit n)"
| "exec emit call (SetMaxListeners v) = answer (\<lambda>_. Done) (setMaxListeners v)"
| "exec emit call (ListenerCount n l) = with_state (\<lambda>s. ret (Count (listenerCount s n l)))"
| "exec emit call (Listeners n) = with_state (\<lambda>s. ret (Functions (listeners_of s n True)))"
| "exec emit call (RawListeners n) = with_state (\<lambda>s. ret (Functions (listeners_of s n False)))"
| "exec emit call (Emit n args) = answer Flag (emit n args)"
| "exec emit call (Call l args) = answer (\<lambda>_. Done) (call l args)"
| "exec emit call (Catch c) =
     (\<lambda>s. case exec emit call c s of
            Some (Inl _, s') \<Rightarrow> Some (Inr Done, s')
          | r \<Rightarrow> r)"

text \<open>The script of a function: what it calls, from the state it is called in, and what it throws.\<close>

type_synonym event_host = "nat \<Rightarrow> earg list \<Rightarrow> emitter \<Rightarrow> command list \<times> earg option"

definition run_script :: "emit_fun \<Rightarrow> call_fun \<Rightarrow> command list \<times> earg option \<Rightarrow> unit comp" where
  "run_script emit call script =
     ebind (for_each (\<lambda>c. ebind (exec emit call c) (\<lambda>_. ret ())) (fst script)) (\<lambda>_.
       (case snd script of None \<Rightarrow> ret () | Some e \<Rightarrow> throw (ThrownValue e)))"

subsection \<open>Emitting\<close>

text \<open>
  The call of a function is recorded under the listener that led to it: the function itself or a once
  wrapper. What was given to \<^verbatim>\<open>once\<close> may be a wrapper again.
\<close>

definition call_function ::
  "event_host \<Rightarrow> emit_fun \<Rightarrow> call_fun \<Rightarrow> nat \<Rightarrow> listener \<Rightarrow> listener \<Rightarrow> earg list \<Rightarrow> unit comp" where
  "call_function h emit call depth l f args =
     ebind (modify (\<lambda>s. s\<lparr>calls := calls s @ [(depth, l, args)]\<rparr>)) (\<lambda>_.
     with_state (\<lambda>s.
       case f of
         Fn g \<Rightarrow> run_script emit call (h g args s)
       | Wrapper _ \<Rightarrow> call f args))"

definition call_listener ::
  "event_host \<Rightarrow> emit_fun \<Rightarrow> call_fun \<Rightarrow> nat \<Rightarrow> earg list \<Rightarrow> listener \<Rightarrow> unit comp" where
  "call_listener h emit call depth args l =
     (case l of
        Fn _ \<Rightarrow> call_function h emit call depth l l args
      | Wrapper w \<Rightarrow>
          with_state (\<lambda>s.
            if fired (wrappers s w) then ret ()
            else
              ebind (removeListener emit (w_type (wrappers s w)) (Some l)) (\<lambda>_.
              ebind (modify (\<lambda>s. s\<lparr>wrappers := (wrappers s)(w := (wrappers s w)\<lparr>fired := True\<rparr>)\<rparr>)) (\<lambda>_.
              with_state (\<lambda>s. call_function h emit call depth l (w_listener (wrappers s w)) args)))))"

definition unhandled :: "earg list \<Rightarrow> 'a comp" where
  "unhandled args =
     (case args of
        [] \<Rightarrow> throw (UnhandledError None)
      | ErrorArg e # _ \<Rightarrow> throw (ThrownValue (ErrorArg e))
      | x # _ \<Rightarrow> throw (UnhandledError (Some x)))"

definition emit_body :: "event_host \<Rightarrow> emit_fun \<Rightarrow> call_fun \<Rightarrow> nat \<Rightarrow> emit_fun" where
  "emit_body h emit call depth n args =
     with_state (\<lambda>s.
       case events_ref s of
         None \<Rightarrow> (if n = errorEv then unhandled args else ret False)
       | Some events \<Rightarrow>
           ebind (if n = errorEv \<and> lookup (tables s events) ErrorMonitor \<noteq> None
                  then emit ErrorMonitor args else ret False) (\<lambda>_.
           with_state (\<lambda>s.
             case lookup (tables s events) n of
               None \<Rightarrow> (if n = errorEv then unhandled args else ret False)
             | Some (Single l) \<Rightarrow> ebind (call_listener h emit call depth args l) (\<lambda>_. ret True)
             | Some (Array a) \<Rightarrow>
                 ebind (for_each (call_listener h emit call depth args) (elems (arrays s a))) (\<lambda>_. ret True))))"

fun emit :: "event_host \<Rightarrow> nat \<Rightarrow> emit_fun"
  and call :: "event_host \<Rightarrow> nat \<Rightarrow> call_fun" where
  "emit h 0 n args s = None"
| "emit h (Suc depth) n args s = emit_body h (emit h depth) (call h depth) depth n args s"
| "call h 0 l args s = None"
| "call h (Suc depth) l args s = call_listener h (emit h depth) (call h depth) depth args l s"

text \<open>
  The states of an emitter between the calls of the program that owns it. \<^verbatim>\<open>EventEmitter.init\<close> runs on an
  object without \<^verbatim>\<open>_events\<close> or, in the constructors of streams, with one that names events without
  listeners.
\<close>

definition bare_emitter :: emitter where
  "bare_emitter =
     \<lparr>tables = (\<lambda>_. []), arrays = (\<lambda>_. \<lparr>elems = [], warned = False\<rparr>),
      wrappers = (\<lambda>_. \<lparr>fired = False, w_type = ErrorMonitor, w_listener = Fn 0\<rparr>), next_ref = 0, events_ref = None,
      eventsCount = 0, maxListeners = None, defaultMaxListeners = jsint 10, shapeMode = False, warnings = [],
      calls = []\<rparr>"

definition shaped_emitter :: "event list \<Rightarrow> emitter" where
  "shaped_emitter names =
     bare_emitter\<lparr>tables := (\<lambda>_. [])(0 := map (\<lambda>n. (n, None)) names), next_ref := 1, events_ref := Some 0\<rparr>"

inductive emitter_reach :: "event_host \<Rightarrow> emitter \<Rightarrow> bool" for h where
  New: "emitter_reach h (init bare_emitter)"
| Shaped: "distinct names \<Longrightarrow> emitter_reach h (init (shaped_emitter names))"
| Step: "emitter_reach h s \<Longrightarrow> exec (emit h depth) (call h depth) c s = Some (r, s') \<Longrightarrow> emitter_reach h s'"

end
