(* ===== verification/EventsInv.thy ===== *)
theory EventsInv
  imports Events
begin

text \<open>
  The invariant of the stores of an emitter and what every change of the stores keeps of it. \<open>view s n\<close>
  is the list of the listeners of an event. \<open>shape\<close> is the invariant: the count of events, arrays of at
  least two listeners, none shared.
\<close>

subsection \<open>Computations\<close>

lemmas comp_defs = ret_def throw_def ebind_def modify_def with_state_def

lemma ebind_Some:
  "ebind m f s = Some (r, s') \<longleftrightarrow>
     (\<exists>e. m s = Some (Inl e, s') \<and> r = Inl e) \<or> (\<exists>x t. m s = Some (Inr x, t) \<and> f x t = Some (r, s'))"
  by (auto simp: ebind_def split: option.splits sum.splits prod.splits)

subsection \<open>Views\<close>

definition handler_elems :: "(nat \<Rightarrow> listener_array) \<Rightarrow> handler option \<Rightarrow> listener list" where
  "handler_elems arr h =
     (case h of None \<Rightarrow> [] | Some (Single l) \<Rightarrow> [l] | Some (Array a) \<Rightarrow> elems (arr a))"

lemma handler_elems_simps [simp]:
  "handler_elems arr None = []" "handler_elems arr (Some (Single l)) = [l]"
  "handler_elems arr (Some (Array a)) = elems (arr a)"
  by (simp_all add: handler_elems_def)

lemma handler_elems_upd:
  "handler_elems (arr(a := x)) h = (if h = Some (Array a) then elems x else handler_elems arr h)"
  by (auto simp: handler_elems_def split: option.split handler.split)

definition view_at :: "emitter \<Rightarrow> nat \<Rightarrow> event \<Rightarrow> listener list" where
  "view_at s r n = handler_elems (arrays s) (lookup (tables s r) n)"

definition view :: "emitter \<Rightarrow> event \<Rightarrow> listener list" where
  "view s n = handler_elems (arrays s) (lookup (current s) n)"

lemma lookup_update [simp]:
  "lookup (AList.update k (Some h) t) n = (if n = k then Some h else lookup t n)"
  "lookup (AList.update k None t) n = (if n = k then None else lookup t n)"
  by (simp_all add: lookup_def update_conv)

lemma lookup_delete [simp]: "lookup (AList.delete k t) n = (if n = k then None else lookup t n)"
  by (simp add: lookup_def delete_conv)

lemma table_at_Some [simp]: "table_at s (Some r) = tables s r"
  by (simp add: table_at_def)

lemma lookup_Nil [simp]: "lookup [] n = None"
  by (simp add: lookup_def)

definition defined :: "(event \<times> handler option) list \<Rightarrow> event set" where
  "defined t = {n. lookup t n \<noteq> None}"

lemma finite_defined [simp]: "finite (defined t)"
proof -
  have "defined t \<subseteq> dom (map_of t)" by (auto simp: defined_def lookup_def split: option.splits)
  then show ?thesis using finite_dom_map_of finite_subset by blast
qed

lemma defined_simps:
  "defined (AList.update k (Some h) t) = insert k (defined t)"
  "defined (AList.update k None t) = defined t - {k}"
  "defined (AList.delete k t) = defined t - {k}"
  "defined [] = {}"
  by (auto simp: defined_def)

definition shape_at :: "emitter \<Rightarrow> nat \<Rightarrow> bool" where
  "shape_at s r \<longleftrightarrow>
     events_ref s = Some r \<and> r < next_ref s \<and> distinct (map fst (tables s r)) \<and>
     eventsCount s = int (card (defined (tables s r))) \<and>
     (\<forall>r n a. lookup (tables s r) n = Some (Array a) \<longrightarrow> a < next_ref s) \<and>
     (\<forall>n a. lookup (tables s r) n = Some (Array a) \<longrightarrow> 2 \<le> length (elems (arrays s a))) \<and>
     (\<forall>n m a. lookup (tables s r) n = Some (Array a) \<longrightarrow> lookup (tables s r) m = Some (Array a) \<longrightarrow> n = m)"

lemma shape_atD:
  assumes "shape_at s r"
  shows "events_ref s = Some r" "r < next_ref s" "distinct (map fst (tables s r))"
    "eventsCount s = int (card (defined (tables s r)))"
    "lookup (tables s r') n = Some (Array a) \<Longrightarrow> a < next_ref s"
    "lookup (tables s r) n = Some (Array a) \<Longrightarrow> 2 \<le> length (elems (arrays s a))"
    "lookup (tables s r) n = Some (Array a) \<Longrightarrow> lookup (tables s r) m = Some (Array a) \<Longrightarrow> n = m"
  using assms unfolding shape_at_def by blast+

lemma shape_atI:
  assumes "events_ref s = Some r" "r < next_ref s" "distinct (map fst (tables s r))"
    "eventsCount s = int (card (defined (tables s r)))"
    "\<And>r n a. lookup (tables s r) n = Some (Array a) \<Longrightarrow> a < next_ref s"
    "\<And>n a. lookup (tables s r) n = Some (Array a) \<Longrightarrow> 2 \<le> length (elems (arrays s a))"
    "\<And>n m a. lookup (tables s r) n = Some (Array a) \<Longrightarrow> lookup (tables s r) m = Some (Array a) \<Longrightarrow> n = m"
  shows "shape_at s r"
  using assms unfolding shape_at_def by blast

definition shape :: "emitter \<Rightarrow> bool" where
  "shape s \<longleftrightarrow> (\<exists>r. shape_at s r)"

lemma shapeI: "shape_at s r \<Longrightarrow> shape s"
  by (auto simp: shape_def)

lemma current_shape: "shape_at s r \<Longrightarrow> current s = tables s r"
  by (simp add: table_at_def shape_at_def)

lemma current_table: "events_ref s = Some r \<Longrightarrow> current s = tables s r"
  by (simp add: table_at_def)

lemma view_current: "events_ref s = Some r \<Longrightarrow> view s n = view_at s r n"
  by (simp add: view_def view_at_def table_at_def)

lemma view_defined:
  assumes "shape s"
  shows "view s n = [] \<longleftrightarrow> lookup (current s) n = None"
proof -
  obtain r where r: "shape_at s r" using assms by (auto simp: shape_def)
  show ?thesis
  proof (cases "lookup (tables s r) n")
    case (Some h)
    then show ?thesis using shape_atD(6) [OF r, of n] by (cases h) (auto simp: view_def current_shape [OF r])
  qed (simp add: view_def current_shape [OF r])
qed

subsection \<open>The stores change\<close>

text \<open>What all changes of the listeners leave alone.\<close>

definition same_rest :: "emitter \<Rightarrow> emitter \<Rightarrow> bool" where
  "same_rest s s' \<longleftrightarrow> wrappers s' = wrappers s \<and> calls s' = calls s \<and> next_ref s \<le> next_ref s'"

text \<open>The effect of a change on the views, and that it keeps the invariant of the stores.\<close>

definition effect :: "emitter \<Rightarrow> emitter \<Rightarrow> (event \<Rightarrow> listener list) \<Rightarrow> listener set \<Rightarrow> bool" where
  "effect s s' V new \<longleftrightarrow> shape s' \<and> view s' = V \<and> same_rest s s' \<and>
     (\<forall>r n. set (view_at s' r n) \<subseteq> new \<union> set (view_at s r n))"

lemma fresh_effect:
  assumes "shape s"
  shows "effect s ((fresh_events s)\<lparr>eventsCount := 0, shapeMode := b\<rparr>) (\<lambda>_. []) {}"
proof -
  obtain r where r: "shape_at s r" using assms by (auto simp: shape_def)
  have "shape_at ((fresh_events s)\<lparr>eventsCount := 0, shapeMode := b\<rparr>) (next_ref s)"
    by (rule shape_atI)
      (use shape_atD(5) [OF r] in \<open>auto simp: fresh_events_def defined_simps less_Suc_eq split: if_splits\<close>)
  then have "shape ((fresh_events s)\<lparr>eventsCount := 0, shapeMode := b\<rparr>)" by (rule shapeI)
  then show ?thesis
    by (simp add: effect_def fresh_events_def view_def view_at_def table_at_def same_rest_def fun_eq_iff)
qed

text \<open>A change of the current table that gives an event one listener or none.\<close>

lemma table_effect:
  assumes "shape_at s r" "s' = s\<lparr>tables := (tables s)(r := t), eventsCount := c, shapeMode := b\<rparr>"
    "distinct (map fst t)" "c = int (card (defined t))"
    "\<And>m. m \<noteq> n \<Longrightarrow> lookup t m = lookup (tables s r) m" "\<And>a. lookup t n \<noteq> Some (Array a)"
    "set (handler_elems (arrays s) (lookup t n)) \<subseteq> new \<union> set (view s n)"
  shows "effect s s' ((view s)(n := handler_elems (arrays s) (lookup t n))) new"
proof -
  note r = shape_atD [OF assms(1)]
  have l: "m \<noteq> n \<and> lookup (tables s r) m = Some (Array a)" if "lookup t m = Some (Array a)" for m a
    using assms(5) [of m] assms(6) [of a] that by (cases "m = n") auto
  have "shape_at s' r"
  proof (rule shape_atI)
    show "a < next_ref s'" if "lookup (tables s' r') m = Some (Array a)" for r' m a
      using that l [of m a] r(5) assms(2) by (cases "r' = r") auto
    show "2 \<le> length (elems (arrays s' a))" if "lookup (tables s' r) m = Some (Array a)" for m a
      using that l [of m a] r(6) assms(2) by auto
    show "m = m'" if "lookup (tables s' r) m = Some (Array a)" "lookup (tables s' r) m' = Some (Array a)" for m m' a
      using that l [of m a] l [of m' a] r(7) assms(2) by auto
  qed (use r(1,2) assms in simp_all)
  then have "shape s'" by (rule shapeI)
  moreover have "view s' = (view s)(n := handler_elems (arrays s) (lookup t n))"
    using r(1) assms(2,5) by (auto simp: view_def table_at_def fun_eq_iff)
  moreover have "set (view_at s' r' m) \<subseteq> new \<union> set (view_at s r' m)" for r' m
    using assms(2,7) assms(5) [of m] view_current [OF r(1), of n]
    by (cases "r' = r"; cases "m = n") (auto simp: view_at_def)
  ultimately show ?thesis using assms(2) by (simp add: effect_def same_rest_def)
qed

lemma array_effect:
  assumes "shape_at s r" "lookup (tables s r) n = Some (Array a)" "2 \<le> length ls" "set ls \<subseteq> new \<union> set (elems (arrays s a))"
    "elems x = ls" "s' = s\<lparr>arrays := (arrays s)(a := x), warnings := w\<rparr>"
  shows "effect s s' ((view s)(n := ls)) new"
proof -
  note r = shape_atD [OF assms(1)]
  have "shape_at s' r"
  proof (rule shape_atI)
    show "a' < next_ref s'" if "lookup (tables s' r') m = Some (Array a')" for r' m a'
      using that r(5) assms(6) by auto
    show "2 \<le> length (elems (arrays s' a'))" if "lookup (tables s' r) m = Some (Array a')" for m a'
      using that r(6) [of m a'] assms(3,5,6) by auto
    show "m = m'" if "lookup (tables s' r) m = Some (Array a')" "lookup (tables s' r) m' = Some (Array a')" for m m' a'
      using that r(7) assms(6) by auto
  qed (use r(1-4) assms(6) in simp_all)
  then have "shape s'" by (rule shapeI)
  moreover have "view s' m = (if m = n then ls else view s m)" for m
  proof (cases "m = n")
    case False
    then have "lookup (tables s r) m \<noteq> Some (Array a)" using r(7) [OF assms(2), of m] by blast
    then show ?thesis using False assms(6) r(1) by (simp add: view_def table_at_def handler_elems_upd)
  qed (use assms(2,5,6) r(1) in \<open>simp add: view_def table_at_def\<close>)
  moreover have "set (view_at s' r' m) \<subseteq> new \<union> set (view_at s r' m)" for r' m
    using assms(4-6) by (auto simp: view_at_def handler_elems_upd)
  ultimately show ?thesis using assms(6) by (auto simp: effect_def same_rest_def fun_eq_iff)
qed

lemma new_array_effect:
  assumes "shape_at s r" "lookup (tables s r) n = Some (Single e)" "2 \<le> length ls" "set ls \<subseteq> insert l {e}"
    "elems x = ls"
    "s' = s\<lparr>tables := (tables s)(r := AList.update n (Some (Array (next_ref s))) (tables s r)),
            arrays := (arrays s)(next_ref s := x), next_ref := next_ref s + 1, warnings := w\<rparr>"
  shows "effect s s' ((view s)(n := ls)) {l}"
proof -
  note r = shape_atD [OF assms(1)]
  have "defined (AList.update n (Some (Array (next_ref s))) (tables s r)) = defined (tables s r)"
    using assms(2) by (auto simp: defined_simps defined_def)
  note same = this
  have old: "a' \<noteq> next_ref s" if "lookup (tables s r') m = Some (Array a')" for r' m a'
    using r(5) [OF that] by simp
  have "shape_at s' r"
  proof (rule shape_atI)
    show "a < next_ref s'" if "lookup (tables s' r') m = Some (Array a)" for r' m a
      using that r(5) [of r' m a] assms(6) by (cases "r' = r"; cases "m = n") auto
    show "2 \<le> length (elems (arrays s' a))" if "lookup (tables s' r) m = Some (Array a)" for m a
      using that r(6) [of m a] old [of r m a] assms(3,5,6) by (cases "m = n") auto
    show "m = m'" if "lookup (tables s' r) m = Some (Array a)" "lookup (tables s' r) m' = Some (Array a)" for m m' a
      using that r(7) [of m a m'] old [of r m a] old [of r m' a] assms(6) by (cases "m = n"; cases "m' = n") auto
  qed (use r(1-4) same assms(6) in \<open>simp_all add: distinct_update\<close>)
  then have "shape s'" by (rule shapeI)
  moreover have "view s' m = (if m = n then ls else view s m)" for m
    using assms(2,5,6) r(1) old [of r m] by (auto simp: view_def table_at_def handler_elems_upd)
  moreover have "set (view_at s' r' m) \<subseteq> {l} \<union> set (view_at s r' m)" for r' m
    using assms(2,4-6) old [of r' m] by (cases "r' = r"; cases "m = n") (auto simp: view_at_def handler_elems_upd)
  ultimately show ?thesis using assms(6) by (auto simp: effect_def same_rest_def fun_eq_iff)
qed

lemma detached_array_effect:
  assumes "shape_at s r" "\<And>m. lookup (tables s r) m \<noteq> Some (Array a)" "set (elems x) \<subseteq> set (elems (arrays s a))"
  shows "effect s (s\<lparr>arrays := (arrays s)(a := x)\<rparr>) (view s) {}"
proof -
  let ?s = "s\<lparr>arrays := (arrays s)(a := x)\<rparr>"
  note r = shape_atD [OF assms(1)]
  have "shape_at ?s r"
  proof (rule shape_atI)
    show "2 \<le> length (elems (arrays ?s a'))" if "lookup (tables ?s r) m = Some (Array a')" for m a'
      using that r(6) [of m a'] assms(2) [of m] by auto
    show "m = m'" if "lookup (tables ?s r) m = Some (Array a')" "lookup (tables ?s r) m' = Some (Array a')" for m m' a'
      using that r(7) by simp
    show "a' < next_ref ?s" if "lookup (tables ?s r') m = Some (Array a')" for r' m a'
      using that r(5) by simp
  qed (use r(1-4) in simp_all)
  then have "shape ?s" by (rule shapeI)
  moreover have "view ?s m = view s m" for m
    using r(1) assms(2) [of m] by (simp add: view_def table_at_def handler_elems_upd)
  moreover have "set (view_at ?s r' m) \<subseteq> set (view_at s r' m)" for r' m
    using assms(3) by (auto simp: view_at_def handler_elems_upd)
  ultimately show ?thesis by (simp add: effect_def same_rest_def fun_eq_iff)
qed

lemma effect_trans: "effect s s1 V1 N1 \<Longrightarrow> effect s1 s2 V2 N2 \<Longrightarrow> effect s s2 V2 (N1 \<union> N2)"
  unfolding effect_def same_rest_def by (auto, blast)

lemma effect_new_mono: "effect s s' V N \<Longrightarrow> N \<subseteq> M \<Longrightarrow> effect s s' V M"
  unfolding effect_def by blast

subsection \<open>Insertion and removal\<close>

lemma check_leak_form:
  "\<exists>w ws. check_leak n a s = s\<lparr>arrays := (arrays s)(a := (arrays s a)\<lparr>warned := w\<rparr>), warnings := ws\<rparr>"
proof (cases "exceeds (length (elems (arrays s a))) (getMaxListeners s) \<and> \<not> warned (arrays s a)")
  case False
  then have "check_leak n a s = s" by (auto simp: check_leak_def Let_def)
  then show ?thesis by (intro exI [of _ "warned (arrays s a)"] exI [of _ "warnings s"]) simp
qed (auto simp: check_leak_def Let_def)

lemma insert_effect:
  assumes "shape s"
  shows "effect s (insert_listener n l prepend s)
    ((view s)(n := (if prepend then l # view s n else view s n @ [l]))) {l}"
proof -
  obtain r where sr: "shape_at s r" using assms by (auto simp: shape_def)
  note r = shape_atD [OF sr]
  have cur: "current s = tables s r" by (rule current_shape [OF sr])
  show ?thesis
  proof (cases "lookup (tables s r) n")
    case None
    let ?t = "AList.update n (Some (Single l)) (tables s r)"
    have "n \<notin> defined (tables s r)" using None by (simp add: defined_def)
    then have "effect s (s\<lparr>tables := (tables s)(r := ?t), eventsCount := eventsCount s + 1, shapeMode := shapeMode s\<rparr>)
        ((view s)(n := handler_elems (arrays s) (lookup ?t n))) {l}"
      by (intro table_effect [OF sr refl]) (simp_all add: r(3,4) distinct_update defined_simps)
    moreover have "view s n = []" using None by (simp add: view_def cur)
    ultimately show ?thesis
      using None r(1) by (simp add: insert_listener_def cur set_table_def)
  next
    case (Some h)
    show ?thesis
    proof (cases h)
      case (Single e)
      have v: "view s n = [e]" using Some Single by (simp add: view_def cur)
      let ?ls = "if prepend then [l, e] else [e, l]"
      obtain w ws where k: "check_leak n (next_ref s) (new_array n ?ls s) =
          (new_array n ?ls s)\<lparr>arrays := (arrays (new_array n ?ls s))
             (next_ref s := (arrays (new_array n ?ls s) (next_ref s))\<lparr>warned := w\<rparr>), warnings := ws\<rparr>"
        using check_leak_form by blast
      have "effect s (check_leak n (next_ref s) (new_array n ?ls s)) ((view s)(n := ?ls)) {l}"
        by (rule new_array_effect [OF sr, where x = "\<lparr>elems = ?ls, warned = w\<rparr>" and w = ws])
          (unfold k, use Some Single r(1) in \<open>auto simp: new_array_def set_table_def\<close>)
      then show ?thesis using Some Single by (cases prepend) (simp_all add: insert_listener_def cur v)
    next
      case (Array a)
      let ?ls = "if prepend then l # elems (arrays s a) else elems (arrays s a) @ [l]"
      have v: "view s n = elems (arrays s a)" using Some Array by (simp add: view_def cur)
      let ?s = "s\<lparr>arrays := (arrays s)(a := (arrays s a)\<lparr>elems := ?ls\<rparr>)\<rparr>"
      obtain w ws where k: "check_leak n a ?s = ?s\<lparr>arrays := (arrays ?s)(a := (arrays ?s a)\<lparr>warned := w\<rparr>), warnings := ws\<rparr>"
        using check_leak_form by blast
      have "2 \<le> length (elems (arrays s a))" using r(6) Some Array by simp
      then have "effect s (check_leak n a ?s) ((view s)(n := ?ls)) {l}"
        by (intro array_effect [OF sr, where x = "(arrays s a)\<lparr>elems := ?ls, warned := w\<rparr>" and a = a and w = ws])
          (unfold k, use Some Array in auto)
      then show ?thesis using Some Array by (cases prepend) (simp_all add: insert_listener_def cur v Let_def)
    qed
  qed
qed

lemma delete_effect:
  assumes "shape s" "lookup (current s) n \<noteq> None" "s1 = s\<lparr>eventsCount := eventsCount s - 1\<rparr>"
    "s2 = (if eventsCount s1 = 0 then fresh_events s1 else set_table (AList.delete n) s1)"
  shows "effect s (s2\<lparr>shapeMode := b\<rparr>) ((view s)(n := [])) {}"
proof -
  obtain r where sr: "shape_at s r" using assms(1) by (auto simp: shape_def)
  note r = shape_atD [OF sr]
  have cur: "current s = tables s r" by (rule current_shape [OF sr])
  have n: "n \<in> defined (tables s r)" using assms(2) by (simp add: defined_def cur)
  have card: "card (defined (tables s r) - {n}) = card (defined (tables s r)) - 1" "1 \<le> card (defined (tables s r))"
    using n by (simp_all add: card_Diff_singleton Suc_le_eq card_gt_0_iff) (metis empty_iff)
  show ?thesis
  proof (cases "eventsCount s - 1 = 0")
    case True
    then have "card (defined (tables s r) - {n}) = 0" using card r(4) by simp
    then have "defined (tables s r) - {n} = {}" by simp
    then have "lookup (tables s r) m = None" if "m \<noteq> n" for m using that by (auto simp: defined_def)
    then have "(view s)(n := []) = (\<lambda>_. [])" by (auto simp: view_def cur)
    moreover have "s2\<lparr>shapeMode := b\<rparr> = (fresh_events s)\<lparr>eventsCount := 0, shapeMode := b\<rparr>"
      using True assms(3,4) by (simp add: fresh_events_def)
    ultimately show ?thesis using fresh_effect [OF assms(1), of b] by simp
  next
    case False
    have "effect s (s\<lparr>tables := (tables s)(r := AList.delete n (tables s r)), eventsCount := eventsCount s - 1, shapeMode := b\<rparr>)
        ((view s)(n := handler_elems (arrays s) (lookup (AList.delete n (tables s r)) n))) {}"
      by (rule table_effect [OF sr refl])
        (use card r(3,4) in \<open>simp_all add: distinct_delete defined_simps of_nat_diff\<close>)
    moreover have "s2\<lparr>shapeMode := b\<rparr> =
        s\<lparr>tables := (tables s)(r := AList.delete n (tables s r)), eventsCount := eventsCount s - 1, shapeMode := b\<rparr>"
      using False assms(3,4) r(1) by (intro emitter.equality) (simp_all add: set_table_def)
    ultimately show ?thesis by simp
  qed
qed

lemma drop_single_effect:
  assumes "shape s" "lookup (current s) n \<noteq> None"
  shows "effect s (drop_single n s) ((view s)(n := [])) {}"
proof (cases "shapeMode s")
  case False
  define s1 where "s1 = s\<lparr>eventsCount := eventsCount s - 1\<rparr>"
  define s2 where "s2 = (if eventsCount s1 = 0 then fresh_events s1 else set_table (AList.delete n) s1)"
  have "shapeMode s2 = shapeMode s"
    by (simp add: s2_def s1_def fresh_events_def set_table_def split: option.split)
  then have "s2\<lparr>shapeMode := shapeMode s\<rparr> = s2" by simp
  moreover have "drop_single n s = s2" using False by (simp add: drop_single_def s1_def s2_def)
  ultimately have "drop_single n s = s2\<lparr>shapeMode := shapeMode s\<rparr>" by simp
  then show ?thesis using delete_effect [OF assms s1_def s2_def, of "shapeMode s"] by simp
next
  case True
  obtain r where sr: "shape_at s r" using assms(1) by (auto simp: shape_def)
  note r = shape_atD [OF sr]
  have n: "n \<in> defined (tables s r)" using assms(2) r(1) by (simp add: defined_def)
  have card: "card (defined (tables s r) - {n}) = card (defined (tables s r)) - 1" "1 \<le> card (defined (tables s r))"
    using n by (simp_all add: card_Diff_singleton Suc_le_eq card_gt_0_iff) (metis empty_iff)
  have "effect s (s\<lparr>tables := (tables s)(r := AList.update n None (tables s r)), eventsCount := eventsCount s - 1,
        shapeMode := shapeMode s\<rparr>)
      ((view s)(n := handler_elems (arrays s) (lookup (AList.update n None (tables s r)) n))) {}"
    by (rule table_effect [OF sr refl])
      (use card r(3,4) in \<open>simp_all add: distinct_update defined_simps of_nat_diff\<close>)
  moreover have "drop_single n s =
      s\<lparr>tables := (tables s)(r := AList.update n None (tables s r)), eventsCount := eventsCount s - 1, shapeMode := shapeMode s\<rparr>"
    using True r(1) by (intro emitter.equality) (simp_all add: drop_single_def set_table_def Let_def)
  ultimately show ?thesis by simp
qed

lemma length_remove_nth: "i < length xs \<Longrightarrow> length (remove_nth i xs) = length xs - 1"
  by (simp add: remove_nth_def)

lemma set_remove_nth: "set (remove_nth i xs) \<subseteq> set xs"
  unfolding remove_nth_def using set_take_subset set_drop_subset by fastforce

lemma drop_position_effect:
  assumes "shape s" "lookup (current s) n = Some (Array a)" "i < length (elems (arrays s a))"
  shows "effect s (drop_position n a i s) ((view s)(n := remove_nth i (view s n))) {}"
proof -
  obtain r where sr: "shape_at s r" using assms(1) by (auto simp: shape_def)
  note r = shape_atD [OF sr]
  have la: "lookup (tables s r) n = Some (Array a)" using assms(2) r(1) by simp
  let ?ls = "remove_nth i (elems (arrays s a))"
  have v: "view s n = elems (arrays s a)" using la r(1) by (simp add: view_def)
  have len: "length ?ls = length (elems (arrays s a)) - 1" "2 \<le> length (elems (arrays s a))"
    using length_remove_nth [OF assms(3)] r(6) [OF la] by simp_all
  show ?thesis
  proof (cases "length ?ls = 1")
    case False
    then have "2 \<le> length ?ls" using len by linarith
    then have "effect s (s\<lparr>arrays := (arrays s)(a := (arrays s a)\<lparr>elems := ?ls\<rparr>), warnings := warnings s\<rparr>)
        ((view s)(n := ?ls)) {}"
      by (intro array_effect [OF sr la, where x = "(arrays s a)\<lparr>elems := ?ls\<rparr>" and w = "warnings s"])
        (use set_remove_nth [of i "elems (arrays s a)"] in auto)
    then show ?thesis using False by (simp add: drop_position_def v Let_def)
  next
    case True
    let ?t = "AList.update n (Some (Single (?ls ! 0))) (tables s r)"
    let ?s1 = "s\<lparr>tables := (tables s)(r := ?t), eventsCount := eventsCount s, shapeMode := shapeMode s\<rparr>"
    have n: "n \<in> defined (tables s r)" using la by (simp add: defined_def)
    have one: "?ls = [?ls ! 0]" using True by (cases ?ls) auto
    have in_view: "?ls ! 0 \<in> set (view s n)"
      using True set_remove_nth [of i "elems (arrays s a)"] nth_mem [of 0 ?ls] v by auto
    have e1: "effect s ?s1 ((view s)(n := handler_elems (arrays s) (lookup ?t n))) {}"
      by (rule table_effect [OF sr refl])
        (use n in_view r(3,4) in \<open>simp_all add: distinct_update defined_simps insert_absorb\<close>)
    obtain r' where sr1: "shape_at ?s1 r'" using e1 by (auto simp: effect_def shape_def)
    then have [simp]: "r' = r" using shape_atD(1) [OF sr1] r(1) by simp
    have "lookup (tables ?s1 r') m \<noteq> Some (Array a)" for m
      using r(7) [OF la, of m] by (cases "m = n") auto
    then have e2: "effect ?s1 (?s1\<lparr>arrays := (arrays ?s1)(a := (arrays s a)\<lparr>elems := ?ls\<rparr>)\<rparr>) (view ?s1) {}"
      by (rule detached_array_effect [OF sr1]) (use set_remove_nth [of i "elems (arrays s a)"] in simp)
    have v1: "view ?s1 = (view s)(n := ?ls)"
      using e1 one by (simp add: effect_def)
    have "drop_position n a i s = ?s1\<lparr>arrays := (arrays ?s1)(a := (arrays s a)\<lparr>elems := ?ls\<rparr>)\<rparr>"
      using True r(1) by (intro emitter.equality) (simp_all add: drop_position_def set_table_def Let_def)
    then show ?thesis using effect_trans [OF e1 e2] v1 v by simp
  qed
qed

end
