(* ===== verification/EventsSteps.thy ===== *)
theory EventsSteps
  imports EventsInv
begin

text \<open>
  What every operation of an emitter does, whatever the listeners do: the locale lifts a relation of
  states that the single changes of the stores respect to the operations, and, when the record of a
  call and the mark of a once wrapper respect it too, to \<^verbatim>\<open>emit\<close> and the call of a listener at every
  depth. The relations are the invariant of the stores, the growth of the record of calls, and that a
  wrapper is marked only when its call is recorded.
\<close>

subsection \<open>Relations of states\<close>

definition obeys_at :: "(emitter \<Rightarrow> emitter \<Rightarrow> bool) \<Rightarrow> 'a comp \<Rightarrow> emitter \<Rightarrow> bool" where
  "obeys_at R m s \<longleftrightarrow> (\<forall>r s'. m s = Some (r, s') \<longrightarrow> R s s')"

definition obeys :: "(emitter \<Rightarrow> emitter \<Rightarrow> bool) \<Rightarrow> 'a comp \<Rightarrow> bool" where
  "obeys R m \<longleftrightarrow> (\<forall>s. obeys_at R m s)"

definition obeys_emit :: "(emitter \<Rightarrow> emitter \<Rightarrow> bool) \<Rightarrow> emit_fun \<Rightarrow> bool" where
  "obeys_emit R em \<longleftrightarrow> (\<forall>n args. obeys R (em n args))"

definition obeys_call :: "(emitter \<Rightarrow> emitter \<Rightarrow> bool) \<Rightarrow> call_fun \<Rightarrow> bool" where
  "obeys_call R cl \<longleftrightarrow> (\<forall>l args. obeys R (cl l args))"

lemma obeysI: "(\<And>s. obeys_at R m s) \<Longrightarrow> obeys R m"
  by (simp add: obeys_def)

lemma obeys_at: "obeys R m \<Longrightarrow> obeys_at R m s"
  by (simp add: obeys_def)

lemma obeysD: "obeys R m \<Longrightarrow> m s = Some (r, s') \<Longrightarrow> R s s'"
  by (simp add: obeys_def obeys_at_def)

lemma obeys_emitD: "obeys_emit R em \<Longrightarrow> obeys_at R (em n args) s"
  by (simp add: obeys_emit_def obeys_def)

lemma obeys_callD: "obeys_call R cl \<Longrightarrow> obeys_at R (cl l args) s"
  by (simp add: obeys_call_def obeys_def)

lemma obeys_mono: "obeys R m \<Longrightarrow> (\<And>s s'. R s s' \<Longrightarrow> Q s s') \<Longrightarrow> obeys Q m"
  by (auto simp: obeys_def obeys_at_def)

subsection \<open>Positions in a list\<close>

lemma last_position_Some:
  "last_position p xs = Some i \<Longrightarrow> i < length xs \<and> p (xs ! i) \<and> (\<forall>j. i < j \<and> j < length xs \<longrightarrow> \<not> p (xs ! j))"
proof (induction xs arbitrary: i)
  case (Cons x xs)
  show ?case
  proof (cases "last_position p xs")
    case None
    then have "\<not> p y" if "y \<in> set xs" for y
      using that by (induction xs) (auto split: option.splits if_splits)
    then show ?thesis using Cons.prems None by (auto split: if_splits simp: nth_Cons')
  next
    case (Some k)
    then show ?thesis using Cons by (auto simp: nth_Cons' less_Suc_eq_0_disj)
  qed
qed simp

subsection \<open>Operations\<close>

locale emitter_relation =
  fixes R :: "emitter \<Rightarrow> emitter \<Rightarrow> bool"
  assumes R_refl: "R s s"
    and R_trans: "R s t \<Longrightarrow> R t u \<Longrightarrow> R s u"
    and R_insert: "R s (insert_listener n l prepend s)"
    and R_first: "events_ref s = None \<Longrightarrow> R s ((fresh_events s)\<lparr>eventsCount := 0\<rparr>)"
    and R_wrap: "R s (s\<lparr>wrappers := (wrappers s)(next_ref s := \<lparr>fired = False, w_type = n, w_listener = l\<rparr>),
      next_ref := next_ref s + 1\<rparr>)"
    and R_drop: "lookup (current s) n \<noteq> None \<Longrightarrow> R s (drop_single n s)"
    and R_position: "lookup (current s) n = Some (Array a) \<Longrightarrow> i < length (elems (arrays s a)) \<Longrightarrow> R s (drop_position n a i s)"
    and R_delete: "R s (drop_event n s)"
    and R_clear: "R s (clear_events s)"
    and R_limit: "R s (s\<lparr>maxListeners := m\<rparr>)"
begin

lemma ret: "obeys_at R (ret x) s"
  by (simp add: obeys_at_def ret_def R_refl)

lemma throw: "obeys_at R (throw e) s"
  by (simp add: obeys_at_def throw_def R_refl)

lemma bind: "obeys_at R m s \<Longrightarrow> (\<And>x t. obeys_at R (f x) t) \<Longrightarrow> obeys_at R (ebind m f) s"
  unfolding obeys_at_def ebind_Some using R_trans by blast

lemma with_state: "obeys_at R (f s) s \<Longrightarrow> obeys_at R (with_state f) s"
  by (simp add: obeys_at_def with_state_def)

lemma modify: "R s (f s) \<Longrightarrow> obeys_at R (modify f) s"
  by (simp add: obeys_at_def modify_def)

lemma for_each: "(\<And>x t. obeys_at R (f x) t) \<Longrightarrow> obeys_at R (for_each f xs) s"
  by (induction xs arbitrary: s) (simp_all add: ret bind)

lemmas intros = ret throw bind with_state modify for_each

lemma check: "obeys_at R (checkListener l) s"
  unfolding checkListener_def by (cases l) (simp_all add: ret throw)

lemma add: "obeys_emit R em \<Longrightarrow> obeys_at R (addListener em n l prepend) s"
  unfolding addListener_def by (auto intro!: intros check obeys_emitD R_first R_insert)

lemma wrap: "obeys_at R (onceWrap n f) s"
  by (simp add: obeys_at_def onceWrap_def R_wrap [simplified])

lemma once_listener: "obeys_emit R em \<Longrightarrow> obeys_at R (once em n f prepend) s"
  unfolding once_def by (auto intro!: bind check wrap add)

lemma remove: "obeys_emit R em \<Longrightarrow> obeys_at R (removeListener em n l) s"
  unfolding removeListener_def emit_removed_def
  by (auto intro!: intros check obeys_emitD R_drop R_position dest: last_position_Some
      simp: current_table split: option.split handler.split)

lemma backwards: "obeys_emit R em \<Longrightarrow> obeys_at R (remove_backwards em n a i) s"
  by (induction i arbitrary: s) (auto intro!: intros remove)

lemma remove_all_of: "obeys_emit R em \<Longrightarrow> obeys_at R (removeAllOf em n) s"
  unfolding removeAllOf_def
  by (auto intro!: intros remove backwards R_delete split: option.split handler.split)

lemma remove_all: "obeys_emit R em \<Longrightarrow> obeys_at R (removeAllListeners em n) s"
  unfolding removeAllListeners_def by (auto intro!: intros remove_all_of R_clear split: option.split)

lemma limit: "obeys_at R (setMaxListeners v) s"
  unfolding setMaxListeners_def validateLimit_def by (auto intro!: intros R_limit split: jsval.split jsnum.split)

lemma command:
  assumes em: "obeys_emit R em" and cl: "obeys_call R cl"
  shows "obeys_at R (exec em cl c) s"
proof (induction c arbitrary: s)
  case (Catch c)
  then show ?case by (auto simp: obeys_at_def split: option.splits sum.splits)
qed (simp_all add: answer_def bind with_state ret add [OF em] once_listener [OF em] remove [OF em] remove_all [OF em] limit
    obeys_emitD [OF em] obeys_callD [OF cl])

lemma script: "obeys_emit R em \<Longrightarrow> obeys_call R cl \<Longrightarrow> obeys_at R (run_script em cl sc) s"
  unfolding run_script_def by (auto intro!: bind for_each command ret throw split: option.split)

end

text \<open>Relations that the record of a call respects, and the mark of a once wrapper with it.\<close>

locale emitter_steps = emitter_relation +
  assumes R_log: "R s (s\<lparr>calls := calls s @ [(d, Fn f, args)]\<rparr>)"
    and R_fire: "R s (s\<lparr>wrappers := (wrappers s)(w := (wrappers s w)\<lparr>fired := True\<rparr>),
      calls := calls s @ [(d, Wrapper w, args)]\<rparr>)"
begin

lemma called_function:
  assumes "obeys_emit R em" "obeys_call R cl" "R s (t\<lparr>calls := calls t @ [(d, l, args)]\<rparr>)"
    "call_function h em cl d l f args t = Some (r, s')"
  shows "R s s'"
proof -
  let ?t = "t\<lparr>calls := calls t @ [(d, l, args)]\<rparr>"
  have "obeys_at R (with_state (\<lambda>s. case f of Fn g \<Rightarrow> run_script em cl (h g args s) | Wrapper _ \<Rightarrow> cl f args)) ?t"
    by (intro with_state) (auto intro: script [OF assms(1,2)] obeys_callD [OF assms(2)] split: listener.split)
  then have "R ?t s'" using assms(4) by (auto simp: call_function_def ebind_def modify_def obeys_at_def)
  then show ?thesis using assms(3) R_trans by blast
qed

lemma called_listener:
  assumes em: "obeys_emit R em" "obeys_call R cl"
  shows "obeys_at R (call_listener h em cl d args l) s"
  unfolding obeys_at_def
proof (intro allI impI)
  fix r s' assume run: "call_listener h em cl d args l s = Some (r, s')"
  show "R s s'"
  proof (cases l)
    case (Fn f)
    then show ?thesis using run called_function [OF em R_log] by (simp add: call_listener_def)
  next
    case (Wrapper w)
    show ?thesis
    proof (cases "fired (wrappers s w)")
      case True
      then show ?thesis using run Wrapper by (simp add: call_listener_def with_state_def ret_def R_refl)
    next
      case False
      let ?rm = "removeListener em (w_type (wrappers s w)) (Some l)"
      let ?mark = "\<lambda>t. t\<lparr>wrappers := (wrappers t)(w := (wrappers t w)\<lparr>fired := True\<rparr>)\<rparr>"
      have "ebind ?rm (\<lambda>_. ebind (modify ?mark) (\<lambda>_.
          with_state (\<lambda>s. call_function h em cl d l (w_listener (wrappers s w)) args))) s = Some (r, s')"
        using run False Wrapper by (simp add: call_listener_def with_state_def)
      then consider e where "?rm s = Some (Inl e, s')"
        | x t where "?rm s = Some (Inr x, t)"
            "call_function h em cl d l (w_listener (wrappers (?mark t) w)) args (?mark t) = Some (r, s')"
        unfolding ebind_Some by (auto simp: modify_def with_state_def)
      then show ?thesis
      proof cases
        case 1
        then show ?thesis using remove [OF em(1)] by (auto simp: obeys_at_def)
      next
        case (2 x t)
        have "R s t" using remove [OF em(1)] 2(1) unfolding obeys_at_def by blast
        moreover have "R t (?mark t\<lparr>calls := calls (?mark t) @ [(d, l, args)]\<rparr>)"
          using R_fire [of t d w args] Wrapper by simp
        then have "R t s'" using called_function [OF em _ 2(2)] by blast
        ultimately show ?thesis using R_trans by blast
      qed
    qed
  qed
qed

lemma body:
  assumes em: "obeys_emit R em" "obeys_call R cl"
  shows "obeys_at R (emit_body h em cl d n args) s"
proof -
  have unh: "obeys_at R (unhandled args) s" for s
    unfolding unhandled_def by (auto intro: throw split: list.split earg.split)
  show ?thesis
    unfolding emit_body_def
    by (auto intro!: bind with_state ret for_each unh obeys_emitD [OF em(1)] called_listener [OF em] split: option.split handler.split)
qed

lemma every_depth: "obeys_emit R (emit h d) \<and> obeys_call R (call h d)"
proof (induction d)
  case 0
  then show ?case by (simp add: obeys_emit_def obeys_call_def obeys_def obeys_at_def)
next
  case (Suc d)
  then show ?case
    using body [of "emit h d" "call h d"] called_listener [of "emit h d" "call h d"]
    by (simp add: obeys_emit_def obeys_call_def obeys_def obeys_at_def)
qed

lemma any_command: "exec (emit h d) (call h d) c s = Some (r, s') \<Longrightarrow> R s s'"
  using command [of "emit h d" "call h d" c s] every_depth [of h d] by (auto simp: obeys_at_def)

lemma any_emit: "emit h d n args s = Some (r, s') \<Longrightarrow> R s s'"
  using every_depth [of h d] obeys_emitD [of R "emit h d" n args s] by (simp add: obeys_at_def)

end

subsection \<open>The invariant of the stores\<close>

lemma delete_shape:
  assumes "shape s"
  shows "shape (drop_event n s)"
proof (cases "lookup (current s) n = None")
  case True
  then have "drop_event n s = s\<lparr>shapeMode := False\<rparr>" by (simp add: drop_event_def)
  then show ?thesis using assms by (simp add: shape_def shape_at_def)
next
  case False
  from delete_effect [OF assms False refl refl, of False] False show ?thesis
    by (simp add: effect_def drop_event_def Let_def)
qed

lemma shape_cong:
  assumes "shape s" "tables s' = tables s" "arrays s' = arrays s" "events_ref s' = events_ref s"
    "eventsCount s' = eventsCount s" "next_ref s \<le> next_ref s'"
  shows "shape s'"
proof -
  obtain r where r: "shape_at s r" using assms(1) by (auto simp: shape_def)
  have up: "w < next_ref s \<Longrightarrow> w < next_ref s'" for w using assms(6) by simp
  have "shape_at s' r"
    by (rule shape_atI) (use shape_atD [OF r] assms(2-5) up in auto)
  then show ?thesis by (rule shapeI)
qed

lemma effect_shape: "effect s s' V new \<Longrightarrow> shape s'"
  by (simp add: effect_def)

definition keeps_shape :: "emitter \<Rightarrow> emitter \<Rightarrow> bool" where
  "keeps_shape s s' \<longleftrightarrow> (shape s \<longrightarrow> shape s')"

interpretation stores: emitter_steps keeps_shape
proof (unfold_locales, unfold keeps_shape_def)
  show "shape s \<longrightarrow> shape ((fresh_events s)\<lparr>eventsCount := 0\<rparr>)" if "events_ref s = None" for s
    using that by (auto simp: shape_def dest: shape_atD(1))
  show "shape s \<longrightarrow> shape (clear_events s)" for s
    using fresh_effect effect_shape by (fastforce simp: clear_events_def)
  show "shape s \<longrightarrow> shape (insert_listener n l prepend s)" for s n l prepend
    using insert_effect effect_shape by blast
  show "shape s \<longrightarrow> shape (drop_single n s)" if "lookup (current s) n \<noteq> None" for s n
    using that drop_single_effect effect_shape by blast
  show "shape s \<longrightarrow> shape (drop_position n a i s)"
    if "lookup (current s) n = Some (Array a)" "i < length (elems (arrays s a))" for s n a i
    using that drop_position_effect effect_shape by blast
  show "shape s \<longrightarrow> shape (drop_event n s)" for s n by (simp add: delete_shape)
qed (auto elim!: shape_cong)

lemma shape_fresh:
  assumes "tables s = (\<lambda>_. [])(0 := map (\<lambda>n. (n, None)) names)" "distinct names" "events_ref s = Some 0" "eventsCount s = 0"
    "0 < next_ref s"
  shows "shape s"
proof -
  have none: "lookup (tables s r) n = None" for r n
    using assms(1) by (auto simp: lookup_def map_of_map_restrict restrict_map_def comp_def map_of_eq_None_iff)
  have keys: "distinct (map fst (tables s 0))" using assms(1,2) by (simp add: comp_def)
  have "shape_at s 0"
    by (rule shape_atI) (use assms(3-5) none keys in \<open>simp_all add: defined_def\<close>)
  then show ?thesis by (rule shapeI)
qed

lemma reach_shape: "emitter_reach h s \<Longrightarrow> shape s"
proof (induction rule: emitter_reach.induct)
  case New
  show ?case by (rule shape_fresh [of _ "[]"]) (simp_all add: init_def bare_emitter_def fresh_events_def fun_eq_iff)
next
  case (Shaped names)
  then show ?case by (intro shape_fresh [of _ names]) (simp_all add: init_def bare_emitter_def shaped_emitter_def)
next
  case (Step s depth c r s')
  then show ?case using stores.any_command by (fastforce simp: keeps_shape_def)
qed

subsection \<open>The record of calls\<close>

lemma kept [simp]:
  "calls (set_table f s) = calls s" "calls (fresh_events s) = calls s" "calls (new_array n ls s) = calls s"
  "calls (clear_events s) = calls s" "calls (check_leak n a s) = calls s" "calls (drop_single n s) = calls s"
  "calls (drop_position n a i s) = calls s" "calls (drop_event n s) = calls s"
  "wrappers (set_table f s) = wrappers s" "wrappers (fresh_events s) = wrappers s" "wrappers (new_array n ls s) = wrappers s"
  "wrappers (clear_events s) = wrappers s" "wrappers (check_leak n a s) = wrappers s" "wrappers (drop_single n s) = wrappers s"
  "wrappers (drop_position n a i s) = wrappers s" "wrappers (drop_event n s) = wrappers s"
  by (auto simp: set_table_def fresh_events_def new_array_def clear_events_def check_leak_def drop_single_def
      drop_position_def drop_event_def Let_def split: option.split)

lemma kept_insert [simp]:
  "calls (insert_listener n l prepend s) = calls s" "wrappers (insert_listener n l prepend s) = wrappers s"
  by (simp_all add: insert_listener_def Let_def split: option.split handler.split)

text \<open>The calls between two states.\<close>

definition logged :: "(nat \<times> listener \<times> earg list \<Rightarrow> bool) \<Rightarrow> emitter \<Rightarrow> emitter \<Rightarrow> bool" where
  "logged P s s' \<longleftrightarrow> (\<exists>new. calls s' = calls s @ new \<and> list_all P new)"

lemma logged_refl: "calls s' = calls s \<Longrightarrow> logged P s s'"
  by (simp add: logged_def)

lemma logged_trans: "logged P s t \<Longrightarrow> logged P t u \<Longrightarrow> logged P s u"
  by (auto simp: logged_def)

lemma logged_mono: "logged P s s' \<Longrightarrow> (\<And>c. P c \<Longrightarrow> Q c) \<Longrightarrow> logged Q s s'"
  by (auto simp: logged_def list_all_iff)

interpretation log: emitter_relation "logged P" for P
  by unfold_locales (auto intro: logged_refl elim: logged_trans)

definition new_calls :: "emitter \<Rightarrow> emitter \<Rightarrow> (nat \<times> listener \<times> earg list) list" where
  "new_calls s s' = drop (length (calls s)) (calls s')"

lemma new_calls_trans: "logged P s t \<Longrightarrow> logged Q t u \<Longrightarrow> new_calls s u = new_calls s t @ new_calls t u"
  by (auto simp: logged_def new_calls_def)

text \<open>A once wrapper was called between two states.\<close>

definition called_since :: "nat \<Rightarrow> emitter \<Rightarrow> emitter \<Rightarrow> bool" where
  "called_since w s s' \<longleftrightarrow> (\<exists>c \<in> set (new_calls s s'). fst (snd c) = Wrapper w)"

definition marks :: "emitter \<Rightarrow> emitter \<Rightarrow> bool" where
  "marks s s' \<longleftrightarrow> logged (\<lambda>_. True) s s' \<and>
     (\<forall>w. fired (wrappers s' w) \<longrightarrow> fired (wrappers s w) \<or> called_since w s s')"

lemma marks_same: "calls s' = calls s \<Longrightarrow> (\<And>w. fired (wrappers s' w) \<Longrightarrow> fired (wrappers s w)) \<Longrightarrow> marks s s'"
  by (simp add: marks_def logged_refl)

lemma called_since_trans:
  "logged P s t \<Longrightarrow> logged Q t u \<Longrightarrow> called_since w s u \<longleftrightarrow> called_since w s t \<or> called_since w t u"
  by (auto simp: called_since_def new_calls_trans)

lemma marks_trans: "marks s t \<Longrightarrow> marks t u \<Longrightarrow> marks s u"
  unfolding marks_def using logged_trans called_since_trans by blast

interpretation mark: emitter_steps marks
proof
  show "marks s (s\<lparr>wrappers := (wrappers s)(next_ref s := \<lparr>fired = False, w_type = n, w_listener = l\<rparr>),
      next_ref := next_ref s + 1\<rparr>)" for s n l
    by (rule marks_same) (simp_all split: if_splits)
qed (auto intro: marks_same elim: marks_trans simp: marks_def [of _ "_\<lparr>calls := _\<rparr>"] logged_def called_since_def new_calls_def)

end
