(* ===== verification/EventsOnce.thy ===== *)
theory EventsOnce
  imports EventsSteps
begin

text \<open>
  Once wrappers, where they are left to the emitter: programs and listeners are \<open>discreet\<close> that do not
  call a wrapper, register one or give one to \<^verbatim>\<open>once\<close>. They may remove wrappers. \<open>once_ok\<close> says that a once
  wrapper is registered at most once, for its own event, and that its function was called at most once,
  and not before the wrapper was marked; \<open>quiet w\<close> that a step leaves a wrapper alone that is not
  registered. Every operation of discreet ones, with everything the listeners it runs may do, keeps the
  invariants of an emitter and leaves the once wrappers alone that are not registered: \<open>good\<close>.
\<close>

subsection \<open>The invariant of once wrappers\<close>

definition wcalls :: "nat \<Rightarrow> emitter \<Rightarrow> nat" where
  "wcalls w s = length (filter (\<lambda>c. fst (snd c) = Wrapper w) (calls s))"

definition wraps_function :: "emitter \<Rightarrow> nat \<Rightarrow> bool" where
  "wraps_function s w \<longleftrightarrow> (\<exists>f. w_listener (wrappers s w) = Fn f)"

definition once_ok :: "emitter \<Rightarrow> bool" where
  "once_ok s \<longleftrightarrow>
     (\<forall>w. wcalls w s \<le> 1 \<and> (\<not> fired (wrappers s w) \<longrightarrow> wcalls w s = 0) \<and> (next_ref s \<le> w \<longrightarrow> wcalls w s = 0)) \<and>
     (\<forall>w n. Wrapper w \<in> set (view s n) \<longrightarrow>
        n = w_type (wrappers s w) \<and> count_list (view s n) (Wrapper w) = 1 \<and> \<not> fired (wrappers s w)) \<and>
     (\<forall>w r n. Wrapper w \<in> set (view_at s r n) \<longrightarrow> w < next_ref s) \<and> (\<forall>w. wraps_function s w)"

lemma once_okD:
  assumes "once_ok s"
  shows "wcalls w s \<le> 1" "\<not> fired (wrappers s w) \<Longrightarrow> wcalls w s = 0" "next_ref s \<le> w \<Longrightarrow> wcalls w s = 0"
    "Wrapper w \<in> set (view s n) \<Longrightarrow> n = w_type (wrappers s w)"
    "Wrapper w \<in> set (view s n) \<Longrightarrow> count_list (view s n) (Wrapper w) = 1"
    "Wrapper w \<in> set (view_at s r n) \<Longrightarrow> w < next_ref s"
    "Wrapper w \<in> set (view s n) \<Longrightarrow> \<not> fired (wrappers s w)" "wraps_function s w"
  using assms unfolding once_ok_def by blast+

definition absent :: "nat \<Rightarrow> emitter \<Rightarrow> bool" where
  "absent w s \<longleftrightarrow> (\<forall>n. Wrapper w \<notin> set (view s n))"

definition absent_at :: "nat \<Rightarrow> emitter \<Rightarrow> nat \<Rightarrow> bool" where
  "absent_at w s r \<longleftrightarrow> (\<forall>n. Wrapper w \<notin> set (view_at s r n))"

definition keeps_wrappers :: "nat set \<Rightarrow> emitter \<Rightarrow> emitter \<Rightarrow> bool" where
  "keeps_wrappers A s s' \<longleftrightarrow>
     next_ref s \<le> next_ref s' \<and>
     (\<forall>w < next_ref s. w_type (wrappers s' w) = w_type (wrappers s w) \<and>
        w_listener (wrappers s' w) = w_listener (wrappers s w)) \<and>
     (\<forall>w \<in> A. \<forall>r < next_ref s. w < next_ref s \<longrightarrow> absent_at w s r \<longrightarrow> absent_at w s' r)"

definition quiet :: "nat \<Rightarrow> emitter \<Rightarrow> emitter \<Rightarrow> bool" where
  "quiet w s s' \<longleftrightarrow>
     (absent w s \<longrightarrow> absent w s' \<and> fired (wrappers s' w) = fired (wrappers s w) \<and> wcalls w s' = wcalls w s)"

definition emitter_ok :: "emitter \<Rightarrow> bool" where
  "emitter_ok s \<longleftrightarrow> shape s \<and> once_ok s"

text \<open>
  \<open>A\<close> are the wrappers that are not put where they were not, \<open>K\<close> those that are left alone when they
  are not registered.
\<close>

definition step_ok :: "nat set \<Rightarrow> nat set \<Rightarrow> emitter \<Rightarrow> emitter \<Rightarrow> bool" where
  "step_ok A K s s' \<longleftrightarrow> emitter_ok s' \<and> keeps_wrappers A s s' \<and> (\<forall>w \<in> K. w < next_ref s \<longrightarrow> quiet w s s')"

definition good :: "nat set \<Rightarrow> nat set \<Rightarrow> 'a comp \<Rightarrow> emitter \<Rightarrow> bool" where
  "good A K m s \<longleftrightarrow> (emitter_ok s \<longrightarrow> (\<forall>r s'. m s = Some (r, s') \<longrightarrow> step_ok A K s s'))"

definition good_emit :: "emit_fun \<Rightarrow> bool" where
  "good_emit em \<longleftrightarrow> (\<forall>n args s. good UNIV UNIV (em n args) s)"

lemma goodI: "(\<And>r s'. emitter_ok s \<Longrightarrow> m s = Some (r, s') \<Longrightarrow> step_ok A K s s') \<Longrightarrow> good A K m s"
  by (simp add: good_def)

lemma goodD: "good A K m s \<Longrightarrow> emitter_ok s \<Longrightarrow> m s = Some (r, s') \<Longrightarrow> step_ok A K s s'"
  by (simp add: good_def)

lemma step_okD:
  "step_ok A K s s' \<Longrightarrow> emitter_ok s'" "step_ok A K s s' \<Longrightarrow> keeps_wrappers A s s'"
  "step_ok A K s s' \<Longrightarrow> next_ref s \<le> next_ref s'"
  "step_ok A K s s' \<Longrightarrow> w < next_ref s \<Longrightarrow> w_type (wrappers s' w) = w_type (wrappers s w)"
  "step_ok A K s s' \<Longrightarrow> w < next_ref s \<Longrightarrow> w_listener (wrappers s' w) = w_listener (wrappers s w)"
  "step_ok A K s s' \<Longrightarrow> w \<in> A \<Longrightarrow> w < next_ref s \<Longrightarrow> r < next_ref s \<Longrightarrow> absent_at w s r \<Longrightarrow> absent_at w s' r"
  "step_ok A K s s' \<Longrightarrow> w \<in> K \<Longrightarrow> w < next_ref s \<Longrightarrow> quiet w s s'"
  by (simp_all add: step_ok_def keeps_wrappers_def)

subsection \<open>Discreet listeners\<close>

definition no_wrapper :: "listener option \<Rightarrow> bool" where
  "no_wrapper l \<longleftrightarrow> (case l of Some (Wrapper _) \<Rightarrow> False | _ \<Rightarrow> True)"

fun discreet :: "command \<Rightarrow> bool" where
  "discreet (On n l) \<longleftrightarrow> no_wrapper l"
| "discreet (PrependListener n l) \<longleftrightarrow> no_wrapper l"
| "discreet (Once n l) \<longleftrightarrow> no_wrapper l"
| "discreet (PrependOnceListener n l) \<longleftrightarrow> no_wrapper l"
| "discreet (Call l args) \<longleftrightarrow> no_wrapper (Some l)"
| "discreet (Catch c) \<longleftrightarrow> discreet c"
| "discreet _ \<longleftrightarrow> True"

definition discreet_host :: "event_host \<Rightarrow> bool" where
  "discreet_host h \<longleftrightarrow> (\<forall>f args s. \<forall>c \<in> set (fst (h f args s)). discreet c)"

inductive discreet_reach :: "event_host \<Rightarrow> emitter \<Rightarrow> bool" for h where
  Discreet_New: "discreet_reach h (init bare_emitter)"
| Discreet_Shaped: "distinct names \<Longrightarrow> discreet_reach h (init (shaped_emitter names))"
| Discreet_Step:
    "discreet_reach h s \<Longrightarrow> discreet c \<Longrightarrow> exec (emit h depth) (call h depth) c s = Some (r, s') \<Longrightarrow> discreet_reach h s'"

subsection \<open>Composition\<close>

lemma step_ok_refl: "emitter_ok s \<Longrightarrow> step_ok A K s s"
  by (simp add: step_ok_def keeps_wrappers_def quiet_def)

lemma step_ok_trans:
  assumes "step_ok A K s s1" "step_ok A K s1 s2"
  shows "step_ok A K s s2"
proof -
  note 1 = step_okD [OF assms(1)] and 2 = step_okD [OF assms(2)]
  have up: "w < next_ref s \<Longrightarrow> w < next_ref s1" for w using 1(3) by simp
  have "keeps_wrappers A s s2"
    using 1(3-6) 2(3-6) up by (simp add: keeps_wrappers_def)
  moreover have "quiet w s s2" if "w \<in> K" "w < next_ref s" for w
    using 1(7) [OF that] 2(7) [OF that(1) up [OF that(2)]] by (simp add: quiet_def)
  ultimately show ?thesis using 2(1) by (simp add: step_ok_def)
qed

lemma step_ok_mono:
  "step_ok A K s s' \<Longrightarrow> A' \<inter> {..<next_ref s} \<subseteq> A \<Longrightarrow> K' \<inter> {..<next_ref s} \<subseteq> K \<Longrightarrow> step_ok A' K' s s'"
  unfolding step_ok_def keeps_wrappers_def by (auto simp: subset_iff)

lemma good_ret: "good A K (ret x) s"
  by (auto simp: good_def ret_def intro: step_ok_refl)

lemma good_throw: "good A K (throw e) s"
  by (auto simp: good_def throw_def intro: step_ok_refl)

lemma good_bind:
  assumes "good A K m s" "\<And>x t. emitter_ok s \<Longrightarrow> m s = Some (Inr x, t) \<Longrightarrow> step_ok A K s t \<Longrightarrow> good A K (f x) t"
  shows "good A K (ebind m f) s"
proof (rule goodI)
  fix r s' assume s: "emitter_ok s" and run: "ebind m f s = Some (r, s')"
  from run consider e where "m s = Some (Inl e, s')" | x t where "m s = Some (Inr x, t)" "f x t = Some (r, s')"
    by (auto simp: ebind_Some)
  then show "step_ok A K s s'"
  proof cases
    case 1
    then show ?thesis using goodD [OF assms(1) s] by blast
  next
    case (2 x t)
    have t: "step_ok A K s t" using goodD [OF assms(1) s 2(1)] .
    show ?thesis
      using goodD [OF assms(2) [OF s 2(1) t] step_okD(1) [OF t] 2(2)] by (rule step_ok_trans [OF t])
  qed
qed

lemma good_with_state: "good A K (f s) s \<Longrightarrow> good A K (with_state f) s"
  by (simp add: good_def with_state_def)

lemma good_modify: "(emitter_ok s \<Longrightarrow> step_ok A K s (f s)) \<Longrightarrow> good A K (modify f) s"
  by (simp add: good_def modify_def)

lemma good_mono: "good UNIV UNIV m s \<Longrightarrow> good A K m s"
  unfolding good_def using step_ok_mono [of UNIV UNIV] by blast

lemma good_bind_quiet:
  assumes "good UNIV UNIV m s"
    "\<And>x t. emitter_ok s \<Longrightarrow> m s = Some (Inr x, t) \<Longrightarrow> step_ok UNIV UNIV s t \<Longrightarrow> good A K (f x) t"
  shows "good A K (ebind m f) s"
proof (rule good_bind [OF good_mono [OF assms(1)]])
  fix x t assume s: "emitter_ok s" and m: "m s = Some (Inr x, t)"
  show "good A K (f x) t" using assms(2) [OF s m goodD [OF assms(1) s m]] .
qed

lemma good_for_each:
  assumes "\<And>x t. x \<in> set xs \<Longrightarrow> next_ref s \<le> next_ref t \<Longrightarrow> good A K (f x) t"
  shows "good A K (for_each f xs) s"
  using assms
proof (induction xs arbitrary: s)
  case Nil
  then show ?case by (simp add: good_ret)
next
  case (Cons x xs)
  show ?case unfolding for_each.simps
  proof (rule good_bind)
    show "good A K (f x) s" by (rule Cons.prems) simp_all
    fix y t assume t: "step_ok A K s t"
    show "good A K (for_each f xs) t"
      by (rule Cons.IH, rule Cons.prems) (use step_okD(3) [OF t] in auto)
  qed
qed

lemma good_emitD: "good_emit em \<Longrightarrow> good A K (em n args) s"
  unfolding good_emit_def using good_mono by blast

subsection \<open>Changes of the listeners\<close>

lemma count_list_mem: "x \<in> set xs \<longleftrightarrow> 0 < count_list xs x"
  by (metis count_list_0_iff gr0I less_numeral_extra(3))

lemma effect_basic:
  assumes "effect s s' V new"
  shows "shape s'" "view s' = V" "wrappers s' = wrappers s" "wcalls w s' = wcalls w s" "next_ref s \<le> next_ref s'"
    "set (view_at s' r n) \<subseteq> new \<union> set (view_at s r n)"
  using assms by (simp_all add: effect_def same_rest_def wcalls_def)

lemma shrink_ok:
  assumes "emitter_ok s" "effect s s' V {}" "\<And>n x. count_list (V n) x \<le> count_list (view s n) x"
  shows "step_ok A K s s'"
proof -
  note e = effect_basic [OF assms(2)]
  have o: "once_ok s" using assms(1) by (simp add: emitter_ok_def)
  have sub: "x \<in> set (view s n)" if "x \<in> set (V n)" for x n
    using that assms(3) [of n x] by (simp add: count_list_mem)
  have "once_ok s'"
    unfolding once_ok_def
  proof (intro conjI allI impI)
    fix w n assume w: "Wrapper w \<in> set (view s' n)"
    then have "Wrapper w \<in> set (view s n)" using sub e(2) by simp
    moreover have "0 < count_list (V n) (Wrapper w)" using w by (simp add: e(2) count_list_mem)
    ultimately show "n = w_type (wrappers s' w)" "count_list (view s' n) (Wrapper w) = 1" "\<not> fired (wrappers s' w)"
      using o assms(3) [of n "Wrapper w"] by (force simp: once_ok_def e(2,3))+
  next
    fix w r n assume "Wrapper w \<in> set (view_at s' r n)"
    then have "Wrapper w \<in> set (view_at s r n)" using e(6) [of r n] by blast
    then show "w < next_ref s'" using once_okD(6) [OF o] e(5) by fastforce
  qed (use o e(5) in \<open>auto simp: once_ok_def wraps_function_def e(3,4)\<close>)
  moreover have "keeps_wrappers A s s'" using e(5,6) by (fastforce simp: keeps_wrappers_def e(3) absent_at_def)
  moreover have "quiet w s s'" for w using sub by (auto simp: quiet_def absent_def e(2-4))
  ultimately show ?thesis using e(1) by (simp add: step_ok_def emitter_ok_def)
qed

lemma insert_ok:
  assumes "emitter_ok s" "\<And>w. l = Wrapper w \<Longrightarrow> absent w s \<and> w < next_ref s \<and> w_type (wrappers s w) = n \<and> \<not> fired (wrappers s w)"
    "\<And>w. l = Wrapper w \<Longrightarrow> w \<notin> K \<and> w \<notin> A"
  shows "step_ok A K s (insert_listener n l prepend s)"
proof -
  let ?s = "insert_listener n l prepend s"
  have s: "shape s" "once_ok s" using assms(1) by (simp_all add: emitter_ok_def)
  note e = effect_basic [OF insert_effect [OF s(1), of n l prepend]]
  have v: "set (view ?s m) = (if m = n then insert l (set (view s n)) else set (view s m))" for m
    by (auto simp: e(2))
  have c: "count_list (view ?s m) x = count_list (view s m) x + (if m = n \<and> x = l then 1 else 0)" for m x
    by (auto simp: e(2))
  have "once_ok ?s"
    unfolding once_ok_def
  proof (intro conjI allI impI)
    fix w m assume w: "Wrapper w \<in> set (view ?s m)"
    have "m = w_type (wrappers s w) \<and> count_list (view ?s m) (Wrapper w) = 1 \<and> \<not> fired (wrappers s w)"
    proof (cases "l = Wrapper w")
      case True
      then have "count_list (view s m) (Wrapper w) = 0" "w_type (wrappers s w) = n" "\<not> fired (wrappers s w)"
        using assms(2) by (auto simp: absent_def count_list_0_iff)
      moreover have "m = n" using w assms(2) [OF True] v [of m] by (auto simp: absent_def split: if_splits)
      ultimately show ?thesis using True c [of m "Wrapper w"] by simp
    next
      case False
      then have "Wrapper w \<in> set (view s m)" using w v [of m] by (auto split: if_splits)
      then show ?thesis using s(2) False by (auto simp: once_ok_def c)
    qed
    then show "m = w_type (wrappers ?s w)" "count_list (view ?s m) (Wrapper w) = 1" "\<not> fired (wrappers ?s w)"
      unfolding e(3) by blast+
  next
    fix w r m assume "Wrapper w \<in> set (view_at ?s r m)"
    then have "Wrapper w \<in> set (view_at s r m) \<or> l = Wrapper w" using e(6) [of r m] by blast
    then have "w < next_ref s" using once_okD(6) [OF s(2)] assms(2) by blast
    then show "w < next_ref ?s" using e(5) by simp
  qed (use s(2) e(5) in \<open>auto simp: once_ok_def wraps_function_def e(3,4)\<close>)
  moreover have "keeps_wrappers A s ?s"
    unfolding keeps_wrappers_def
  proof (intro conjI allI impI ballI)
    fix w r assume w: "w \<in> A" "r < next_ref s" "w < next_ref s" "absent_at w s r"
    then have "l \<noteq> Wrapper w" using assms(3) by blast
    then show "absent_at w ?s r" using w(4) e(6) [of r] by (fastforce simp: absent_at_def)
  qed (use e in simp_all)
  moreover have "quiet w s ?s" if "w \<in> K" for w
    using assms(3) that v by (auto simp: quiet_def absent_def e(3,4))
  ultimately show ?thesis using e(1) by (simp add: step_ok_def emitter_ok_def)
qed

lemma view_cong:
  assumes "tables s' = tables s" "arrays s' = arrays s" "events_ref s' = events_ref s"
  shows "view s' = view s" "view_at s' = view_at s"
proof -
  have "current s' = current s" using assms by (simp add: table_at_def split: option.split)
  then show "view s' = view s" using assms(2) by (intro ext) (simp add: view_def)
  show "view_at s' = view_at s" using assms by (intro ext) (simp add: view_at_def)
qed

lemma same_ok:
  assumes "emitter_ok s" "tables s' = tables s" "arrays s' = arrays s" "events_ref s' = events_ref s"
    "eventsCount s' = eventsCount s" "next_ref s \<le> next_ref s'"
    "\<And>w. w < next_ref s \<Longrightarrow> wrappers s' w = wrappers s w" "\<And>w. wraps_function s w \<Longrightarrow> wraps_function s' w"
    "\<And>w. wcalls w s' = wcalls w s"
  shows "step_ok A K s s'"
proof -
  have s: "shape s" "once_ok s" using assms(1) by (simp_all add: emitter_ok_def)
  note v = view_cong [OF assms(2-4)]
  obtain r where r: "shape_at s r" using s(1) by (auto simp: shape_def)
  have up: "w < next_ref s \<Longrightarrow> w < next_ref s'" for w using assms(6) by simp
  have "shape s'" by (rule shape_cong [OF s(1) assms(2-6)])
  moreover have reg: "w < next_ref s" if "Wrapper w \<in> set (view s n)" for w n
    using that once_okD(6) [OF s(2)] view_current [OF shape_atD(1) [OF r]] by simp
  have "once_ok s'"
    unfolding once_ok_def
  proof (intro conjI allI impI)
    fix w assume "\<not> fired (wrappers s' w)"
    then show "wcalls w s' = 0"
      using once_okD(2,3) [OF s(2), of w] assms(7,9) by (cases "w < next_ref s") auto
  next
    fix w n assume "Wrapper w \<in> set (view s' n)"
    then show "n = w_type (wrappers s' w)" "count_list (view s' n) (Wrapper w) = 1" "\<not> fired (wrappers s' w)"
      using once_okD(4,5,7) [OF s(2)] reg assms(7) v by auto
  next
    fix w r n assume "Wrapper w \<in> set (view_at s' r n)"
    then show "w < next_ref s'" using once_okD(6) [OF s(2)] v up by auto
  qed (use once_okD(1,3,8) [OF s(2)] assms(6,8,9) in auto)
  moreover have "keeps_wrappers A s s'" using assms(6,7) v by (simp add: keeps_wrappers_def absent_at_def)
  moreover have "quiet w s s'" if "w < next_ref s" for w
    using assms(7) [OF that] assms(9) v by (simp add: quiet_def absent_def)
  ultimately show ?thesis by (simp add: step_ok_def emitter_ok_def)
qed

lemma log_ok:
  assumes "emitter_ok s" "\<And>w. l = Wrapper w \<Longrightarrow> wcalls w s = 0 \<and> fired (wrappers s w) \<and> w < next_ref s \<and> w \<notin> K"
    "s' = s\<lparr>calls := calls s @ [(d, l, args)]\<rparr>"
  shows "step_ok A K s s'"
proof -
  have s: "shape s" "once_ok s" using assms(1) by (simp_all add: emitter_ok_def)
  have v: "view s' = view s" "view_at s' = view_at s"
    using view_cong [of s' s] assms(3) by simp_all
  have f: "wrappers s' = wrappers s" "next_ref s' = next_ref s" using assms(3) by simp_all
  have c: "wcalls w s' = wcalls w s + (if l = Wrapper w then 1 else 0)" for w
    using assms(3) by (simp add: wcalls_def)
  have "shape s'" using s(1) assms(3) by (simp add: shape_def shape_at_def)
  moreover have "once_ok s'"
    unfolding once_ok_def
  proof (intro conjI allI impI)
    show "wcalls w s' \<le> 1" for w
      using once_okD(1) [OF s(2), of w] assms(2) [of w] by (cases "l = Wrapper w") (simp_all add: c)
    show "wcalls w s' = 0" if "\<not> fired (wrappers s' w)" for w
      using once_okD(2) [OF s(2), of w] assms(2) [of w] that by (cases "l = Wrapper w") (simp_all add: c f)
    show "wcalls w s' = 0" if "next_ref s' \<le> w" for w
      using once_okD(3) [OF s(2), of w] assms(2) [of w] that by (cases "l = Wrapper w") (simp_all add: c f)
  qed (use once_okD(4-8) [OF s(2)] in \<open>auto simp: v f wraps_function_def\<close>)
  moreover have "keeps_wrappers A s s'" using v by (simp add: keeps_wrappers_def absent_at_def f)
  moreover have "quiet w s s'" if "w \<in> K" for w
    using that assms(2) v by (auto simp: quiet_def absent_def c f)
  ultimately show ?thesis by (simp add: step_ok_def emitter_ok_def)
qed

lemma mark_ok:
  assumes "emitter_ok s" "w \<notin> K \<and> absent w s" "s' = s\<lparr>wrappers := (wrappers s)(w := (wrappers s w)\<lparr>fired := True\<rparr>)\<rparr>"
  shows "step_ok A K s s'"
proof -
  have s: "shape s" "once_ok s" using assms(1) by (simp_all add: emitter_ok_def)
  have v: "view s' = view s" "view_at s' = view_at s" "wcalls w s' = wcalls w s" for w
    using view_cong [of s' s] assms(3) by (simp_all add: wcalls_def)
  have f: "wrappers s' = (wrappers s)(w := (wrappers s w)\<lparr>fired := True\<rparr>)" "next_ref s' = next_ref s"
    using assms(3) by simp_all
  have "shape s'" using s(1) assms(3) by (simp add: shape_def shape_at_def)
  moreover have "once_ok s'"
    using once_okD [OF s(2)] assms(2) by (auto simp: once_ok_def v f absent_def wraps_function_def)
  moreover have "keeps_wrappers A s s'" using v by (simp add: keeps_wrappers_def absent_at_def f)
  moreover have "quiet v s s'" if "v \<in> K" for v
    using that assms(2) v by (auto simp: quiet_def absent_def v f)
  ultimately show ?thesis by (simp add: step_ok_def emitter_ok_def)
qed

end
