(* ===== verification/EventsRun.thy ===== *)
theory EventsRun
  imports EventsOnce
begin

text \<open>
  Every operation of an emitter that a discreet program uses is \<open>good\<close> given an \<^verbatim>\<open>emit\<close> that is, so \<^verbatim>\<open>emit\<close>
  is good at every depth and the invariant holds in every state a discreet program can bring an emitter
  to with discreet listeners.
\<close>

lemmas good_intros = good_ret good_throw good_with_state

lemma ebind_ret [simp]: "ebind (ret x) f = f x"
  by (simp add: ebind_def ret_def fun_eq_iff)

lemma ebind_throw [simp]: "ebind (throw e) f = throw e"
  by (simp add: ebind_def throw_def fun_eq_iff)

lemma ok_events: "emitter_ok s \<Longrightarrow> events_ref s \<noteq> None"
  by (auto simp: emitter_ok_def shape_def dest: shape_atD(1))

lemma ok_shape: "emitter_ok s \<Longrightarrow> shape s"
  by (simp add: emitter_ok_def)

lemma ok_current: "emitter_ok s \<Longrightarrow> events_ref s = Some r \<Longrightarrow> r < next_ref s"
  using shape_atD(1,2) by (fastforce simp: emitter_ok_def shape_def)

lemma good_emitI: "good_emit em \<Longrightarrow> good A K (ebind (em n args) (\<lambda>_. ret ())) s"
  by (rule good_bind [OF good_emitD good_ret])

subsection \<open>Registration\<close>

lemma good_addListener:
  assumes "good_emit em"
    "\<And>w. l = Wrapper w \<Longrightarrow> absent w s \<and> w < next_ref s \<and> w_type (wrappers s w) = n \<and>
       \<not> fired (wrappers s w) \<and> w \<notin> K \<and> w \<notin> A"
  shows "good A K (addListener em n (Some l) prepend) s"
  unfolding addListener_def checkListener_def option.case ebind_ret
proof (rule good_bind_quiet)
  let ?announce = "\<lambda>s. if events_ref s = None then modify (\<lambda>s. (fresh_events s)\<lparr>eventsCount := 0\<rparr>)
      else if lookup (current s) newListener \<noteq> None then
        ebind (em newListener
          [EventArg n, ListenerArg (case listener_of s l of Some o' \<Rightarrow> o' | None \<Rightarrow> l)]) (\<lambda>_. ret ())
      else ret ()"
  have "good UNIV UNIV (?announce s) s" if "emitter_ok s"
    using ok_events [OF that] assms(1) by (auto intro: good_emitI good_ret)
  then show "good UNIV UNIV (with_state ?announce) s"
    unfolding good_def with_state_def by blast
next
  fix x t assume t: "step_ok UNIV UNIV s t"
  show "good A K (modify (insert_listener n l prepend)) t"
  proof (rule good_modify, rule insert_ok)
    show "absent w t \<and> w < next_ref t \<and> w_type (wrappers t w) = n \<and> \<not> fired (wrappers t w)" if "l = Wrapper w" for w
      using assms(2) [OF that] step_okD(3) [OF t] step_okD(4,7) [OF t, of w] by (simp add: quiet_def)
  qed (use assms(2) in auto)
qed

lemma good_add_function:
  assumes "good_emit em" "no_wrapper l"
  shows "good A K (addListener em n l prepend) s"
proof (cases l)
  case None
  then show ?thesis by (simp add: addListener_def checkListener_def good_throw)
next
  case (Some x)
  then show ?thesis using good_addListener [OF assms(1), of x] assms(2) by (simp add: no_wrapper_def split: listener.splits)
qed

lemma unknown_absent:
  assumes "emitter_ok s"
  shows "absent (next_ref s) s"
proof -
  obtain r where "events_ref s = Some r" using ok_events [OF assms] by blast
  moreover have "once_ok s" using assms by (simp add: emitter_ok_def)
  ultimately show ?thesis using once_okD(6) by (fastforce simp: absent_def view_current)
qed

lemma good_once:
  assumes "good_emit em" "no_wrapper f"
  shows "good A K (once em n f prepend) s"
proof (cases f)
  case None
  then show ?thesis by (simp add: once_def checkListener_def good_throw)
next
  case (Some x)
  then obtain g where x: "x = Fn g" using assms(2) by (auto simp: no_wrapper_def split: listener.splits)
  let ?A = "- {next_ref s}"
  have "good ?A ?A (ebind (onceWrap n x) (\<lambda>l. addListener em n (Some l) prepend)) s"
  proof (rule good_bind)
    show "good ?A ?A (onceWrap n x) s"
      unfolding good_def onceWrap_def x by (auto intro!: same_ok simp: wcalls_def wraps_function_def)
    fix l t assume ok: "emitter_ok s" and l: "onceWrap n x s = Some (Inr l, t)"
    have "view t = view s" using l view_cong(1) [of t s] by (auto simp: onceWrap_def)
    then have "absent (next_ref s) t" using unknown_absent [OF ok] by (simp add: absent_def)
    then show "good ?A ?A (addListener em n (Some l) prepend) t"
      using l by (intro good_addListener [OF assms(1)]) (auto simp: onceWrap_def)
  qed
  then have "good A K (ebind (onceWrap n x) (\<lambda>l. addListener em n (Some l) prepend)) s"
    unfolding good_def by (blast intro: step_ok_mono)
  then show ?thesis using Some by (simp add: once_def checkListener_def)
qed

subsection \<open>Removal\<close>

lemma count_list_remove_nth: "count_list (remove_nth i xs) x \<le> count_list xs x"
proof -
  have "count_list xs x = count_list (take i xs) x + count_list (drop i xs) x"
    by (metis append_take_drop_id count_list_append)
  moreover have "count_list (drop (Suc i) xs) x \<le> count_list (drop i xs) x"
    by (cases "i < length xs") (simp_all add: Cons_nth_drop_Suc [symmetric])
  ultimately show ?thesis by (simp add: remove_nth_def)
qed

lemma remove_nth_once: "i < length xs \<Longrightarrow> count_list xs (xs ! i) = 1 \<Longrightarrow> xs ! i \<notin> set (remove_nth i xs)"
proof -
  assume i: "i < length xs" and c: "count_list xs (xs ! i) = 1"
  have "count_list (take i xs @ xs ! i # drop (Suc i) xs) (xs ! i) = 1" using c id_take_nth_drop [OF i] by simp
  then have "count_list (remove_nth i xs) (xs ! i) = 0" by (simp add: remove_nth_def)
  then show ?thesis by (simp add: count_list_0_iff)
qed

lemma last_position_None: "last_position p xs = None \<longleftrightarrow> (\<forall>x\<in>set xs. \<not> p x)"
  by (induction xs) (auto split: option.splits)

lemma drop_single_ok:
  assumes "emitter_ok s" "lookup (current s) n \<noteq> None"
  shows "step_ok A K s (drop_single n s)"
  using drop_single_effect [OF ok_shape [OF assms(1)] assms(2)] by (rule shrink_ok [OF assms(1)]) simp

lemma drop_position_ok:
  assumes "emitter_ok s" "lookup (current s) n = Some (Array a)" "i < length (elems (arrays s a))"
  shows "step_ok A K s (drop_position n a i s)"
  using drop_position_effect [OF ok_shape [OF assms(1)] assms(2,3)]
  by (rule shrink_ok [OF assms(1)]) (simp add: count_list_remove_nth)

lemma good_emit_removed: "good_emit em \<Longrightarrow> good A K (emit_removed em events n l) s"
  unfolding emit_removed_def by (auto intro!: good_with_state good_emitI good_ret)

lemma good_removeListener:
  assumes "good_emit em"
  shows "good A K (removeListener em n l) s"
proof (rule goodI)
  fix r s' assume ok: "emitter_ok s" and run: "removeListener em n l s = Some (r, s')"
  obtain ev where ev: "events_ref s = Some ev" using ok_events [OF ok] by blast
  show "step_ok A K s s'"
  proof (cases l)
    case None
    then show ?thesis
      using run step_ok_refl [OF ok] by (simp add: removeListener_def checkListener_def throw_def)
  next
    case (Some x)
    have "good A K (removeListener em n (Some x)) s"
      unfolding removeListener_def checkListener_def option.case ebind_ret
      by (rule good_with_state)
        (use ok ev in \<open>auto split: option.split handler.split dest!: last_position_Some
          intro!: good_ret good_bind [OF good_modify good_emit_removed [OF assms]] drop_single_ok drop_position_ok\<close>)
    then show ?thesis using goodD ok run Some by blast
  qed
qed

lemma good_remove_backwards:
  assumes "good_emit em"
  shows "good A K (remove_backwards em n a i) s"
proof (induction i arbitrary: s)
  case 0
  then show ?case by (simp add: good_ret)
next
  case (Suc i)
  show ?case unfolding remove_backwards.simps
    by (rule good_bind [OF good_with_state [OF good_removeListener [OF assms]] Suc.IH])
qed

lemma delete_ok:
  assumes "emitter_ok s" "lookup (current s) n \<noteq> None" "s1 = s\<lparr>eventsCount := eventsCount s - 1\<rparr>"
    "s2 = (if eventsCount s1 = 0 then fresh_events s1 else set_table (AList.delete n) s1)"
  shows "step_ok A K s (s2\<lparr>shapeMode := b\<rparr>)"
  using delete_effect [OF ok_shape [OF assms(1)] assms(2-4)] by (rule shrink_ok [OF assms(1)]) simp

lemma clear_ok: "emitter_ok s \<Longrightarrow> step_ok A K s (clear_events s)"
  using shrink_ok [OF _ fresh_effect [OF ok_shape]] by (simp add: clear_events_def)

lemma shape_mode_ok: "emitter_ok s \<Longrightarrow> step_ok A K s (s\<lparr>shapeMode := b\<rparr>)"
  by (rule same_ok) (simp_all add: wcalls_def wraps_function_def)

lemma drop_event_ok:
  assumes "emitter_ok s"
  shows "step_ok A K s (drop_event n s)"
proof (cases "lookup (current s) n = None")
  case True
  then show ?thesis using shape_mode_ok [OF assms] by (simp add: drop_event_def)
next
  case False
  from delete_ok [OF assms False refl refl, of A K False] False show ?thesis by (simp add: drop_event_def Let_def)
qed

lemma good_removeAllOf:
  assumes "good_emit em"
  shows "good A K (removeAllOf em n) s"
  unfolding removeAllOf_def
  by (auto intro!: good_with_state good_ret good_modify drop_event_ok good_removeListener [OF assms]
      good_remove_backwards [OF assms] split: option.split handler.split)

lemma good_removeAllListeners:
  assumes "good_emit em"
  shows "good A K (removeAllListeners em n) s"
  unfolding removeAllListeners_def
  by (auto split: option.split intro!: good_with_state good_ret good_bind [OF good_for_each good_bind]
      good_removeAllOf [OF assms] good_modify clear_ok)

subsection \<open>Calls\<close>

lemma good_setMaxListeners: "good A K (setMaxListeners v) s"
  unfolding setMaxListeners_def validateLimit_def
  by (auto split: jsval.split jsnum.split intro!: good_throw good_modify same_ok simp: wcalls_def wraps_function_def)

definition good_call :: "call_fun \<Rightarrow> bool" where
  "good_call cl \<longleftrightarrow> (\<forall>f args s. good UNIV UNIV (cl (Fn f) args) s)"

lemma good_answer: "good A K m s \<Longrightarrow> good A K (answer f m) s"
  unfolding answer_def by (rule good_bind [OF _ good_ret])

lemma good_exec:
  assumes em: "good_emit em" and cl: "good_call cl"
  shows "discreet c \<Longrightarrow> good A K (exec em cl c) s"
proof (induction c arbitrary: s)
  case (Catch c s)
  show ?case
  proof (rule goodI)
    fix r s' assume ok: "emitter_ok s" and "exec em cl (Catch c) s = Some (r, s')"
    then obtain x where x: "exec em cl c s = Some (x, s')" by (auto split: option.splits sum.splits)
    have "good A K (exec em cl c) s" using Catch by simp
    from goodD [OF this ok x] show "step_ok A K s s'" .
  qed
next
  case (Call l args)
  then obtain f where "l = Fn f" by (auto simp: no_wrapper_def split: listener.splits)
  then show ?case using cl unfolding good_call_def by (simp add: good_answer good_mono)
qed (simp_all add: good_add_function good_once good_removeListener good_removeAllListeners
    good_setMaxListeners good_emitD good_with_state good_ret good_answer em)

lemma good_script:
  assumes "good_emit em" "good_call cl" "\<forall>c \<in> set (fst sc). discreet c"
  shows "good A K (run_script em cl sc) s"
  unfolding run_script_def
  by (rule good_bind [OF good_for_each [OF good_bind [OF good_exec [OF assms(1,2)] good_ret]]])
    (use assms(3) in \<open>auto intro: good_ret good_throw split: option.split\<close>)

lemma good_call_function:
  assumes "good_emit em" "good_call cl" "discreet_host h" "\<exists>g. f = Fn g"
    "\<And>w. emitter_ok s \<Longrightarrow> l = Wrapper w \<Longrightarrow> wcalls w s = 0 \<and> fired (wrappers s w) \<and> w < next_ref s \<and> w \<notin> K"
  shows "good A K (call_function h em cl depth l f args) s"
  unfolding call_function_def
  by (rule good_bind, rule good_modify, rule log_ok [OF _ assms(5) refl])
    (use assms(3,4) in \<open>auto intro!: good_with_state good_script [OF assms(1,2)] simp: discreet_host_def\<close>)

lemma matches_wrapper: "once_ok s \<Longrightarrow> matches s (Wrapper w) x \<longleftrightarrow> x = Wrapper w"
  using once_okD(8) [of s]
  by (cases x) (auto simp: matches_def listener_of_def wraps_function_def, metis listener.distinct(1))

text \<open>A once wrapper is not registered any more after it removed itself, and nothing called it meanwhile.\<close>

lemma remove_wrapper:
  assumes em: "good_emit em" and ok: "emitter_ok s" and w: "w < next_ref s"
    and run: "removeListener em (w_type (wrappers s w)) (Some (Wrapper w)) s = Some (Inr x, t)"
  shows "absent w t \<and> fired (wrappers t w) = fired (wrappers s w) \<and> wcalls w t = wcalls w s"
proof -
  let ?n = "w_type (wrappers s w)"
  have once: "once_ok s" using ok by (simp add: emitter_ok_def)
  obtain r where r: "events_ref s = Some r" using ok_events [OF ok] by blast
  have cur: "current s = tables s r" using current_table [OF r] .
  have match: "matches s (Wrapper w) x \<longleftrightarrow> x = Wrapper w" for x by (rule matches_wrapper [OF once])
  have elsewhere: "Wrapper w \<notin> set (view s m)" if "m \<noteq> ?n" for m
    using once_okD(4) [OF once, of w m] that by blast
  have stop: ?thesis if "Wrapper w \<notin> set (view s ?n)" "t = s"
    using that elsewhere unfolding absent_def by metis
  have go: ?thesis
    if "effect s s1 ((view s)(?n := vs)) {}" "Wrapper w \<notin> set vs" "emitter_ok s1"
      "emit_removed em r ?n l s1 = Some (Inr y, t)" for s1 vs l y
  proof -
    note e = effect_basic [OF that(1)]
    have "absent w s1" using elsewhere that(2) by (auto simp: absent_def e(2))
    moreover have "quiet w s1 t"
      using goodD [OF good_emit_removed [OF em, of UNIV UNIV] that(3,4)] e(5) w by (simp add: step_ok_def)
    ultimately show ?thesis by (simp add: quiet_def e(3,4))
  qed
  show ?thesis
  proof (cases "lookup (tables s r) ?n")
    case None
    then have "t = s" "view s ?n = []"
      using run r by (simp_all add: removeListener_def checkListener_def with_state_def ret_def view_def cur)
    then show ?thesis by (intro stop) simp_all
  next
    case (Some h)
    show ?thesis
    proof (cases h)
      case (Single y)
      have v: "view s ?n = [y]" using Some Single by (simp add: view_def cur)
      show ?thesis
      proof (cases "y = Wrapper w")
        case False
        then have "t = s"
          using run r Some Single by (simp add: removeListener_def checkListener_def with_state_def match ret_def)
        then show ?thesis using False v by (intro stop) simp_all
      next
        case True
        have "lookup (current s) ?n \<noteq> None" using Some cur by simp
        note d = drop_single_effect [OF ok_shape [OF ok] this] drop_single_ok [OF ok this, of UNIV UNIV]
        show ?thesis
          by (rule go [OF d(1) _ step_okD(1) [OF d(2)]])
            (use run r Some Single True in \<open>auto simp: removeListener_def checkListener_def with_state_def
              match ret_def ebind_Some modify_def\<close>)
      qed
    next
      case (Array a)
      have v: "view s ?n = elems (arrays s a)" using Some Array by (simp add: view_def cur)
      show ?thesis
      proof (cases "last_position (matches s (Wrapper w)) (elems (arrays s a))")
        case None
        then have "Wrapper w \<notin> set (view s ?n)" using match v by (auto simp: last_position_None)
        moreover have "t = s"
          using None run r Some Array by (simp add: removeListener_def checkListener_def with_state_def ret_def)
        ultimately show ?thesis by (rule stop)
      next
        case (Some i)
        note i = last_position_Some [OF Some]
        have la: "lookup (current s) ?n = Some (Array a)" using \<open>lookup (tables s r) ?n = Some h\<close> Array cur by simp
        have il: "i < length (elems (arrays s a))" using i by simp
        note d = drop_position_effect [OF ok_shape [OF ok] la il] drop_position_ok [OF ok la il, of UNIV UNIV]
        have "view s ?n ! i = Wrapper w" using i match v by simp
        moreover have "count_list (view s ?n) (Wrapper w) = 1"
          using once_okD(5) [OF once, of w ?n] calculation il v nth_mem [of i "view s ?n"] by simp
        ultimately have "Wrapper w \<notin> set (remove_nth i (view s ?n))"
          using remove_nth_once [of i "view s ?n"] il v by simp
        then show ?thesis
          by (rule go [OF d(1) _ step_okD(1) [OF d(2)]])
            (use run r Some \<open>lookup (tables s r) ?n = Some h\<close> Array in
              \<open>auto simp: removeListener_def checkListener_def with_state_def ebind_Some modify_def\<close>)
      qed
    qed
  qed
qed

lemma good_call_listener:
  assumes em: "good_emit em" "good_call cl" "discreet_host h" and l: "\<And>w. l = Wrapper w \<Longrightarrow> w < next_ref s \<and> w \<notin> K"
  shows "good UNIV K (call_listener h em cl depth args l) s"
proof (cases l)
  case (Fn f)
  then show ?thesis using good_call_function [OF em, of "Fn f" s "Fn f"] by (simp add: call_listener_def)
next
  case (Wrapper w)
  have w: "w < next_ref s" "w \<notin> K" using l Wrapper by auto
  let ?mark = "\<lambda>s. s\<lparr>wrappers := (wrappers s)(w := (wrappers s w)\<lparr>fired := True\<rparr>)\<rparr>"
  show ?thesis
  proof (cases "fired (wrappers s w)")
    case True
    then show ?thesis using Wrapper by (simp add: call_listener_def good_with_state good_ret)
  next
    case False
    have "good UNIV K (ebind (removeListener em (w_type (wrappers s w)) (Some (Wrapper w))) (\<lambda>_.
        ebind (modify ?mark) (\<lambda>_.
        with_state (\<lambda>s. call_function h em cl depth (Wrapper w) (w_listener (wrappers s w)) args)))) s"
    proof (rule good_bind_quiet [OF good_removeListener [OF em(1)]])
      fix x t assume ok: "emitter_ok s" and st: "step_ok UNIV UNIV s t"
        and run: "removeListener em (w_type (wrappers s w)) (Some (Wrapper w)) s = Some (Inr x, t)"
      note gone = remove_wrapper [OF em(1) ok w(1) run]
      have t: "wcalls w t = 0" using gone once_okD(2) [of s w] False ok by (simp add: emitter_ok_def)
      have away: "w \<notin> K \<and> absent w t" using w(2) gone by blast
      have "step_ok UNIV K t (?mark t)" if "emitter_ok t" by (rule mark_ok [OF that away refl])
      then have mark: "good UNIV K (modify ?mark) t" by (rule good_modify)
      show "good UNIV K (ebind (modify ?mark) (\<lambda>_.
          with_state (\<lambda>s. call_function h em cl depth (Wrapper w) (w_listener (wrappers s w)) args))) t"
      proof (rule good_bind [OF mark])
        fix y t' assume okt: "emitter_ok t" and "modify ?mark t = Some (Inr y, t')"
        then have "wcalls w t' = 0" "fired (wrappers t' w)" "next_ref t \<le> next_ref t'"
          using t by (auto simp: modify_def wcalls_def)
        moreover have "\<exists>g. w_listener (wrappers t' w) = Fn g"
          using once_okD(8) [of t w] okt \<open>modify ?mark t = Some (Inr y, t')\<close>
          by (auto simp: emitter_ok_def modify_def wraps_function_def)
        ultimately show "good UNIV K (with_state (\<lambda>s. call_function h em cl depth (Wrapper w) (w_listener (wrappers s w)) args)) t'"
          using w step_okD(3) [OF st] by (intro good_with_state good_call_function [OF em]) auto
      qed
    qed
    then show ?thesis using False Wrapper by (simp add: call_listener_def good_with_state)
  qed
qed

subsection \<open>Emitting\<close>

lemma good_unhandled: "good A K (unhandled args) s"
  unfolding unhandled_def by (auto split: list.split earg.split intro: good_throw)

lemma step_ok_registered:
  "step_ok A K s s' \<Longrightarrow> (\<And>w. w \<notin> K \<Longrightarrow> w < next_ref s \<Longrightarrow> \<not> absent w s) \<Longrightarrow> step_ok A UNIV s s'"
  by (auto simp: step_ok_def quiet_def)

lemma good_call_listeners:
  assumes em: "good_emit em" "good_call cl" "discreet_host h" and ls: "\<And>w. Wrapper w \<in> set ls \<Longrightarrow> w < next_ref s" "K = {w. Wrapper w \<notin> set ls}"
  shows "good UNIV K (for_each (call_listener h em cl depth args) ls) s"
proof (rule good_for_each)
  fix l and t :: emitter assume "l \<in> set ls" "next_ref s \<le> next_ref t"
  then show "good UNIV K (call_listener h em cl depth args l) t"
    using ls by (intro good_call_listener [OF em]) force
qed

lemma good_emit_body:
  assumes em: "good_emit em" "good_call cl" "discreet_host h"
  shows "good UNIV UNIV (emit_body h em cl depth n args) s"
proof (rule goodI)
  fix r s' assume ok: "emitter_ok s" and run: "emit_body h em cl depth n args s = Some (r, s')"
  obtain ev where ev: "events_ref s = Some ev" using ok_events [OF ok] by blast
  let ?mon = "if n = errorEv \<and> lookup (tables s ev) ErrorMonitor \<noteq> None then em ErrorMonitor args else ret False"
  let ?ls = "\<lambda>s1. handler_elems (arrays s1) (lookup (tables s1 ev) n)"
  let ?rest = "with_state (\<lambda>s. case lookup (tables s ev) n of
      None \<Rightarrow> (if n = errorEv then unhandled args else ret False)
    | Some (Single l) \<Rightarrow> ebind (call_listener h em cl depth args l) (\<lambda>_. ret True)
    | Some (Array a) \<Rightarrow> ebind (for_each (call_listener h em cl depth args) (elems (arrays s a))) (\<lambda>_. ret True))"
  have mon: "good UNIV UNIV ?mon s" using em(1) by (simp add: good_emitD good_ret)
  have "ebind ?mon (\<lambda>_. ?rest) s = Some (r, s')"
    using run ev by (simp add: emit_body_def with_state_def)
  then consider e where "?mon s = Some (Inl e, s')" | x s1 where "?mon s = Some (Inr x, s1)" "?rest s1 = Some (r, s')"
    by (auto simp: ebind_Some)
  then show "step_ok UNIV UNIV s s'"
  proof cases
    case 1
    then show ?thesis using goodD [OF mon ok] by blast
  next
    case (2 x s1)
    let ?K = "{w. Wrapper w \<notin> set (?ls s1)}"
    have st: "step_ok UNIV UNIV s s1" using goodD [OF mon ok 2(1)] .
    have ok1: "emitter_ok s1" by (rule step_okD(1) [OF st])
    have known: "w < next_ref s1" if "Wrapper w \<in> set (?ls s1)" for w
      using once_okD(6) [of s1 w ev n] ok1 that by (simp add: view_at_def emitter_ok_def)
    have "good UNIV ?K ?rest s1"
    proof (rule good_with_state, cases "lookup (tables s1 ev) n")
      case (Some hd)
      show "good UNIV ?K (case lookup (tables s1 ev) n of
            None \<Rightarrow> (if n = errorEv then unhandled args else ret False)
          | Some (Single l) \<Rightarrow> ebind (call_listener h em cl depth args l) (\<lambda>_. ret True)
          | Some (Array a) \<Rightarrow> ebind (for_each (call_listener h em cl depth args) (elems (arrays s1 a))) (\<lambda>_. ret True)) s1"
        using Some known by (cases hd)
          (auto intro: good_bind [OF good_call_listener [OF em] good_ret] good_bind [OF good_call_listeners [OF em] good_ret])
    qed (simp add: good_unhandled good_ret)
    then have st1: "step_ok UNIV ?K s1 s'" using goodD ok1 2(2) by blast
    have "step_ok UNIV ?K s s'" by (rule step_ok_trans [OF step_ok_mono [OF st] st1]) simp_all
    then show ?thesis
    proof (rule step_ok_registered)
      fix w assume w: "w \<notin> ?K" "w < next_ref s"
      then have "\<not> absent_at w s1 ev" by (auto simp: absent_at_def view_at_def)
      then have "\<not> absent_at w s ev" using step_okD(6) [OF st] w(2) ok_current [OF ok ev] by blast
      then show "\<not> absent w s" by (simp add: absent_at_def absent_def view_current [OF ev])
    qed
  qed
qed

lemma good_depth:
  assumes h: "discreet_host h"
  shows "good_emit (emit h depth) \<and> good_call (call h depth)"
proof (induction depth)
  case 0
  then show ?case by (simp add: good_emit_def good_call_def good_def)
next
  case (Suc depth)
  then have IH: "good_emit (emit h depth)" "good_call (call h depth)" by simp_all
  have "good UNIV UNIV (emit h (Suc depth) n args) s" for n args s
    using good_emit_body [OF IH h, of depth n args s] by (simp add: good_def)
  moreover have "good UNIV UNIV (call h (Suc depth) (Fn f) args) s" for f args s
    using good_call_listener [OF IH h, of "Fn f" s UNIV depth args] by (simp add: good_def)
  ultimately show ?case unfolding good_emit_def good_call_def by blast
qed

lemmas good_emit = conjunct1 [OF good_depth] and good_calls = conjunct2 [OF good_depth]

subsection \<open>Every state\<close>

lemma emitter_ok_fresh:
  assumes "shape s" "tables s = (\<lambda>_. [])(0 := map (\<lambda>n. (n, None)) names)" "events_ref s = Some 0" "calls s = []"
    "wrappers s = wrappers bare_emitter"
  shows "emitter_ok s"
proof -
  have none: "lookup (tables s r) n = None" for r n
    using assms(2) by (auto simp: lookup_def map_of_map_restrict restrict_map_def comp_def map_of_eq_None_iff)
  have "once_ok s"
    using assms(3-5) none by (simp add: once_ok_def wcalls_def view_def view_at_def wraps_function_def bare_emitter_def)
  then show ?thesis using assms(1) by (simp add: emitter_ok_def)
qed

lemma discreet_reach_reach: "discreet_reach h s \<Longrightarrow> emitter_reach h s"
  by (induction rule: discreet_reach.induct) (auto intro: emitter_reach.intros)

lemma reach_ok: "discreet_reach h s \<Longrightarrow> discreet_host h \<Longrightarrow> emitter_ok s"
proof (induction rule: discreet_reach.induct)
  case Discreet_New
  show ?case
    by (rule emitter_ok_fresh [OF reach_shape [OF emitter_reach.New], of "[]"])
      (simp_all add: init_def bare_emitter_def fresh_events_def fun_eq_iff)
next
  case (Discreet_Shaped names)
  show ?case
    by (rule emitter_ok_fresh [OF reach_shape [OF emitter_reach.Shaped [OF Discreet_Shaped(1)]], of names])
      (simp_all add: init_def bare_emitter_def shaped_emitter_def)
next
  case (Discreet_Step s c depth r s')
  then show ?case using goodD [OF good_exec [OF good_emit good_calls, of h h c UNIV UNIV depth depth s]] step_okD(1) by blast
qed

end
