(* ===== verification/EventsSpec.thy ===== *)
theory EventsSpec
  imports EventsRun
begin

text \<open>
  What an emitter promises: it is a map from events to lists of listeners, each with the function it
  leads to, which for a once wrapper is another. \<open>spec\<close> gives the operations and questions on that map,
  with their answers and the calls they make. The emitter refines it where no listeners watch
  registration, removal and errors, the once wrappers are left to the emitter, and the functions called
  may throw but do not use the emitter; the theorems of \<open>EventsCalls\<close> are about all functions.
\<close>

subsection \<open>The specification\<close>

type_synonym listener_entry = "listener \<times> listener"
type_synonym registry = "event \<Rightarrow> listener_entry list"

definition entry :: "emitter \<Rightarrow> listener \<Rightarrow> listener_entry" where
  "entry s l = (l, unwrap s l)"

definition registry :: "emitter \<Rightarrow> registry" where
  "registry s n = map (entry s) (listeners_of s n False)"

definition is_fn :: "listener \<Rightarrow> bool" where
  "is_fn l \<longleftrightarrow> (case l of Fn _ \<Rightarrow> True | Wrapper _ \<Rightarrow> False)"

text \<open>A listener is asked for by itself or by the function given to \<^verbatim>\<open>once\<close>.\<close>

definition stands_for :: "listener \<Rightarrow> listener_entry \<Rightarrow> bool" where
  "stands_for l e \<longleftrightarrow> fst e = l \<or> snd e = l"

fun remove_last :: "('a \<Rightarrow> bool) \<Rightarrow> 'a list \<Rightarrow> 'a list" where
  "remove_last p [] = []"
| "remove_last p (x # xs) =
     (if \<exists>y\<in>set xs. p y then x # remove_last p xs else if p x then xs else x # xs)"

definition not_a_listener :: thrown where
  "not_a_listener = ThrownError (ERR_INVALID_ARG_TYPE ''listener'' ''Function'')"

definition unhandled_error :: "earg list \<Rightarrow> thrown" where
  "unhandled_error args =
     (case args of [] \<Rightarrow> UnhandledError None
      | ErrorArg e # _ \<Rightarrow> ThrownValue (ErrorArg e)
      | x # _ \<Rightarrow> UnhandledError (Some x))"

text \<open>Functions that do not use the emitter: \<open>t f args\<close> is what the function \<open>f\<close> throws, if it does.\<close>

type_synonym throws = "nat \<Rightarrow> earg list \<Rightarrow> earg option"

definition passive_host :: "throws \<Rightarrow> event_host \<Rightarrow> bool" where
  "passive_host t h \<longleftrightarrow> (\<forall>f args s. h f args s = ([], t f args))"

definition outcome :: "throws \<Rightarrow> earg list \<Rightarrow> listener_entry \<Rightarrow> earg option" where
  "outcome t args e = (case snd e of Fn f \<Rightarrow> t f args | Wrapper _ \<Rightarrow> None)"

text \<open>The listeners that are called: all, or those up to the first that throws.\<close>

fun called_entries :: "throws \<Rightarrow> earg list \<Rightarrow> listener_entry list \<Rightarrow> listener_entry list \<times> earg option" where
  "called_entries t args [] = ([], None)"
| "called_entries t args (e # es) =
     (case outcome t args e of
        Some x \<Rightarrow> ([e], Some x)
      | None \<Rightarrow> (let (cs, x) = called_entries t args es in (e # cs, x)))"

definition answer_or_throw :: "'a \<Rightarrow> earg option \<Rightarrow> thrown + 'a" where
  "answer_or_throw r x = (case x of None \<Rightarrow> Inr r | Some v \<Rightarrow> Inl (ThrownValue v))"

text \<open>The once listeners among those called are gone afterwards.\<close>

definition spec_emit :: "throws \<Rightarrow> nat \<Rightarrow> event \<Rightarrow> earg list \<Rightarrow> registry \<Rightarrow>
    (thrown + bool) \<times> (nat \<times> listener \<times> earg list) list \<times> registry" where
  "spec_emit t depth n args V =
     (if n = errorEv \<and> V n = [] then (Inl (unhandled_error args), [], V)
      else (let (cs, x) = called_entries t args (V n)
            in (answer_or_throw (V n \<noteq> []) x, map (\<lambda>e. (depth, fst e, args)) cs,
                V(n := filter (\<lambda>e. is_fn (fst e) \<or> e \<notin> set cs) (V n)))))"

text \<open>\<open>w\<close> is the wrapper that \<^verbatim>\<open>once\<close> makes.\<close>

definition spec_add :: "event \<Rightarrow> (listener \<Rightarrow> listener_entry) \<Rightarrow> listener option \<Rightarrow> bool \<Rightarrow> registry \<Rightarrow>
    (thrown + reply) \<times> (nat \<times> listener \<times> earg list) list \<times> registry" where
  "spec_add n mk l prepend V =
     (case l of
        None \<Rightarrow> (Inl not_a_listener, [], V)
      | Some f \<Rightarrow> (Inr Done, [], V(n := (if prepend then mk f # V n else V n @ [mk f]))))"

definition spec_limit :: "jsval \<Rightarrow> thrown + reply" where
  "spec_limit v =
     (case v of
        JNum n \<Rightarrow>
          (if (case n of Fin r \<Rightarrow> 0 \<le> r | PosInf \<Rightarrow> True | _ \<Rightarrow> False) then Inr Done
           else Inl (ThrownError (ERR_OUT_OF_RANGE ''setMaxListeners'' (AtLeast 0))))
      | _ \<Rightarrow> Inl (ThrownError (ERR_INVALID_ARG_TYPE ''setMaxListeners'' ''number'')))"

fun spec :: "throws \<Rightarrow> nat \<Rightarrow> nat \<Rightarrow> command \<Rightarrow> registry \<Rightarrow>
    (thrown + reply) \<times> (nat \<times> listener \<times> earg list) list \<times> registry" where
  "spec t depth w (On n l) V = spec_add n (\<lambda>f. (f, f)) l False V"
| "spec t depth w (PrependListener n l) V = spec_add n (\<lambda>f. (f, f)) l True V"
| "spec t depth w (Once n l) V = spec_add n (\<lambda>f. (Wrapper w, f)) l False V"
| "spec t depth w (PrependOnceListener n l) V = spec_add n (\<lambda>f. (Wrapper w, f)) l True V"
| "spec t depth w (Off n None) V = (Inl not_a_listener, [], V)"
| "spec t depth w (Off n (Some l)) V = (Inr Done, [], V(n := remove_last (stands_for l) (V n)))"
| "spec t depth w (RemoveAll (Some n)) V = (Inr Done, [], V(n := []))"
| "spec t depth w (RemoveAll None) V = (Inr Done, [], \<lambda>_. [])"
| "spec t depth w (SetMaxListeners v) V = (spec_limit v, [], V)"
| "spec t depth w (ListenerCount n None) V = (Inr (Count (length (V n))), [], V)"
| "spec t depth w (ListenerCount n (Some l)) V = (Inr (Count (length (filter (stands_for l) (V n)))), [], V)"
| "spec t depth w (Listeners n) V = (Inr (Functions (map snd (V n))), [], V)"
| "spec t depth w (RawListeners n) V = (Inr (Functions (map fst (V n))), [], V)"
| "spec t depth w (Emit n args) V = (let (r, cs, V') = spec_emit t depth n args V in (map_sum id Flag r, cs, V'))"
| "spec t depth w (Call l args) V = (answer_or_throw Done (outcome t args (l, l)), [(depth, l, args)], V)"
| "spec t depth w (Catch c) V =
     (let (r, cs, V') = spec t depth w c V in (case r of Inl _ \<Rightarrow> Inr Done | Inr x \<Rightarrow> Inr x, cs, V'))"

subsection \<open>Lists\<close>

lemma remove_last_position:
  "remove_last p xs = (case last_position p xs of None \<Rightarrow> xs | Some i \<Rightarrow> remove_nth i xs)"
proof (induction xs)
  case (Cons x xs)
  show ?case
  proof (cases "last_position p xs")
    case None
    then show ?thesis using last_position_None [of p xs] by (auto simp: remove_nth_def)
  next
    case (Some i)
    then have "\<exists>y\<in>set xs. p y" using last_position_None [of p xs] by auto
    then show ?thesis using Some Cons by (simp add: remove_nth_def)
  qed
qed simp

lemma last_position_map: "last_position p (map f xs) = last_position (p \<circ> f) xs"
  by (induction xs) simp_all

lemma remove_last_map: "remove_last p (map f xs) = map f (remove_last (p \<circ> f) xs)"
  by (induction xs) auto

lemma remove_last_none: "\<forall>y\<in>set xs. \<not> p y \<Longrightarrow> remove_last p xs = xs"
  by (induction xs) auto

lemma remove_last_once: "count_list xs x = 1 \<Longrightarrow> remove_last (\<lambda>y. y = x) xs = filter (\<lambda>y. y \<noteq> x) xs"
proof (induction xs)
  case (Cons y ys)
  show ?case
  proof (cases "y = x")
    case True
    then have "x \<notin> set ys" using Cons.prems by (simp add: count_list_0_iff)
    then have "filter (\<lambda>z. z \<noteq> x) ys = ys" by (auto intro: filter_True)
    then show ?thesis using True \<open>x \<notin> set ys\<close> by simp
  next
    case False
    then have "count_list ys x = 1" using Cons.prems by simp
    moreover from this have "x \<in> set ys" by (simp add: count_list_mem)
    ultimately show ?thesis using False Cons.IH by auto
  qed
qed simp

subsection \<open>Operations nobody watches\<close>

lemma addListener_quiet:
  assumes "emitter_ok s" "view s newListener = []"
  shows "addListener em n (Some l) prepend s = Some (Inr (), insert_listener n l prepend s)"
  using assms ok_events [OF assms(1)] view_defined [OF ok_shape [OF assms(1)], of newListener]
  by (auto simp: addListener_def checkListener_def with_state_def ebind_def ret_def modify_def)

lemma emit_removed_quiet:
  "lookup (tables s ev) removeListenerEv = None \<Longrightarrow> emit_removed em ev n l s = Some (Inr (), s)"
  by (simp add: emit_removed_def with_state_def ret_def)

lemma other_lookup:
  "m \<noteq> n \<Longrightarrow> events_ref s = Some r \<Longrightarrow> lookup (tables (drop_single n s) r) m = None \<or>
     lookup (tables (drop_single n s) r) m = lookup (tables s r) m"
  by (auto simp: drop_single_def set_table_def fresh_events_def Let_def)

lemma other_lookup_position:
  "m \<noteq> n \<Longrightarrow> events_ref s = Some r \<Longrightarrow> lookup (tables (drop_position n a i s) r) m = lookup (tables s r) m"
  by (simp add: drop_position_def set_table_def Let_def)

lemma removeListener_quiet:
  assumes ok: "emitter_ok s" and q: "view s removeListenerEv = []"
  obtains s' where "removeListener em n (Some l) s = Some (Inr (), s')"
    "effect s s' ((view s)(n := remove_last (matches s l) (view s n))) {}" "emitter_ok s'"
proof -
  note result = that
  obtain r where r: "events_ref s = Some r" using ok_events [OF ok] by blast
  have cur: "current s = tables s r" using current_table [OF r] .
  have none: "lookup (tables s r) removeListenerEv = None"
    using q view_defined [OF ok_shape [OF ok]] cur by simp
  have same: "effect s s (view s) {}" using ok_shape [OF ok] by (simp add: effect_def same_rest_def)
  have stay: thesis if "removeListener em n (Some l) s = Some (Inr (), s)" "\<forall>y\<in>set (view s n). \<not> matches s l y"
    using same by (intro result [OF that(1) _ ok]) (simp add: remove_last_none [OF that(2)])
  note defs = removeListener_def checkListener_def with_state_def ebind_def ret_def modify_def r
  show thesis
  proof (cases "lookup (tables s r) n")
    case None
    then show ?thesis by (intro stay) (simp_all add: defs view_def cur)
  next
    case (Some h)
    have n: "n \<noteq> removeListenerEv" "lookup (current s) n \<noteq> None" using Some none cur by auto
    show ?thesis
    proof (cases h)
      case (Single x)
      have v: "view s n = [x]" using Some Single by (simp add: view_def cur)
      show ?thesis
      proof (cases "matches s l x")
        case True
        have "lookup (tables (drop_single n s) r) removeListenerEv = None"
          using other_lookup [OF n(1) [symmetric] r] none by auto
        then have "removeListener em n (Some l) s = Some (Inr (), drop_single n s)"
          using True Some Single by (simp add: defs emit_removed_quiet)
        then show ?thesis
          using drop_single_effect [OF ok_shape [OF ok] n(2)] drop_single_ok [OF ok n(2)] True v
          by (intro result) (auto dest: step_okD(1))
      qed (intro stay, use Some Single v in \<open>simp_all add: defs\<close>)
    next
      case (Array a)
      have la: "lookup (current s) n = Some (Array a)" using Some Array cur by simp
      have v: "view s n = elems (arrays s a)" using la by (simp add: view_def)
      show ?thesis
      proof (cases "last_position (matches s l) (elems (arrays s a))")
        case None
        then show ?thesis
          using Some Array v last_position_None [of "matches s l" "view s n"] by (intro stay) (simp_all add: defs)
      next
        case (Some i)
        have i: "i < length (elems (arrays s a))" using last_position_Some [OF Some] by simp
        have "lookup (tables (drop_position n a i s) r) removeListenerEv = None"
          using other_lookup_position [OF n(1) [symmetric] r] none by simp
        then have "removeListener em n (Some l) s = Some (Inr (), drop_position n a i s)"
          using Some la cur by (simp add: defs emit_removed_quiet)
        then show ?thesis
          using drop_position_effect [OF ok_shape [OF ok] la i] drop_position_ok [OF ok la i] Some v
          by (intro result) (auto dest: step_okD(1) simp: remove_last_position)
      qed
    qed
  qed
qed

subsection \<open>Calls of functions that do not use the emitter\<close>

lemma passive_discreet: "passive_host t h \<Longrightarrow> discreet_host h"
  by (simp add: passive_host_def discreet_host_def)

text \<open>What the calls of \<open>ls\<close> leave of the listeners of an event: a wrapper removes itself.\<close>

definition left_after :: "listener list \<Rightarrow> listener list \<Rightarrow> listener list" where
  "left_after ls xs = filter (\<lambda>x. is_fn x \<or> x \<notin> set ls) xs"

definition delivered :: "nat \<Rightarrow> event \<Rightarrow> earg list \<Rightarrow> listener list \<Rightarrow> emitter \<Rightarrow> emitter \<Rightarrow> bool" where
  "delivered depth n args ls s s' \<longleftrightarrow>
     emitter_ok s' \<and> view s' = (view s)(n := left_after ls (view s n)) \<and> entry s' = entry s \<and>
     calls s' = calls s @ map (\<lambda>l. (depth, l, args)) ls"

lemma entry_cong: "(\<And>w. w_listener (wrappers s' w) = w_listener (wrappers s w)) \<Longrightarrow> entry s' = entry s"
  by (auto simp: fun_eq_iff entry_def unwrap_def listener_of_def split: listener.split)

lemma call_function_quiet:
  assumes "passive_host t h"
  shows "call_function h em cl depth l (Fn f) args s =
    Some (answer_or_throw () (t f args), s\<lparr>calls := calls s @ [(depth, l, args)]\<rparr>)"
  using assms by (simp add: call_function_def run_script_def passive_host_def ebind_def modify_def with_state_def ret_def
      throw_def answer_or_throw_def split: option.split)

lemma call_listener_quiet:
  assumes h: "passive_host t h" and em: "good_emit em" "good_call cl" and ok: "emitter_ok s"
    and q: "view s removeListenerEv = []" and l: "\<And>w. l = Wrapper w \<Longrightarrow> l \<in> set (view s n)"
  obtains s' where "call_listener h em cl depth args l s = Some (answer_or_throw () (outcome t args (entry s l)), s')"
    "delivered depth n args [l] s s'"
proof (cases l)
  case (Fn f)
  let ?s = "s\<lparr>calls := calls s @ [(depth, l, args)]\<rparr>"
  have "step_ok UNIV UNIV s ?s" by (rule log_ok [OF ok _ refl]) (simp add: Fn)
  moreover have "view ?s = view s" using view_cong [of ?s s] by simp
  moreover have "left_after [l] (view s n) = view s n"
    using Fn by (auto simp: left_after_def is_fn_def intro!: filter_True)
  moreover have "entry ?s = entry s" by (rule entry_cong) simp
  ultimately have "delivered depth n args [l] s ?s" using step_okD(1) by (simp add: delivered_def)
  then show thesis
    using call_function_quiet [OF h, of em cl depth l f args s] Fn
    by (intro that [of ?s]) (simp_all add: call_listener_def outcome_def entry_def unwrap_def listener_of_def)
next
  case (Wrapper w)
  have once: "once_ok s" using ok by (simp add: emitter_ok_def)
  have mem: "Wrapper w \<in> set (view s n)" using l Wrapper by simp
  note w = once_okD(4,5,7) [OF once mem]
  obtain f where f: "w_listener (wrappers s w) = Fn f" using once_okD(8) [OF once] by (auto simp: wraps_function_def)
  let ?rm = "removeListener em n (Some l)"
  obtain u where u: "?rm s = Some (Inr (), u)" "effect s u ((view s)(n := remove_last (matches s l) (view s n))) {}" "emitter_ok u"
    by (rule removeListener_quiet [OF ok q])
  have "matches s l = (\<lambda>x. x = Wrapper w)" using Wrapper matches_wrapper [OF once] by (simp add: fun_eq_iff)
  then have "remove_last (matches s l) (view s n) = filter (\<lambda>x. x \<noteq> Wrapper w) (view s n)"
    using remove_last_once [OF w(2)] by simp
  moreover have "left_after [l] (view s n) = filter (\<lambda>x. x \<noteq> Wrapper w) (view s n)"
    unfolding left_after_def Wrapper is_fn_def by (rule filter_cong) auto
  ultimately have vu: "view u = (view s)(n := left_after [l] (view s n))" using u(2) by (simp add: effect_def)
  have wu: "wrappers u = wrappers s" "calls u = calls s" using u(2) by (simp_all add: effect_def same_rest_def)
  let ?m = "u\<lparr>wrappers := (wrappers u)(w := (wrappers u w)\<lparr>fired := True\<rparr>)\<rparr>"
  let ?s = "?m\<lparr>calls := calls ?m @ [(depth, l, args)]\<rparr>"
  have call: "call_listener h em cl depth args l s = Some (answer_or_throw () (outcome t args (entry s l)), ?s)"
    using Wrapper w(1,3) u(1) f wu call_function_quiet [OF h, of em cl depth l f args ?m]
    by (simp add: call_listener_def with_state_def ebind_def modify_def outcome_def entry_def unwrap_def listener_of_def)
  have "emitter_ok ?s"
    using goodD [OF good_call_listener [OF em passive_discreet [OF h], of l s "- {w}"] ok call] Wrapper once_okD(6) [OF once]
      mem ok_events [OF ok] view_current [of s] step_okD(1) by fastforce
  moreover have "view ?s = view u" using view_cong [of ?s u] by simp
  moreover have "entry ?s = entry s" by (rule entry_cong) (simp add: wu)
  ultimately have "delivered depth n args [l] s ?s" using vu wu by (simp add: delivered_def)
  then show thesis using call by (rule that [rotated])
qed

lemma left_after_Cons: "left_after ls (left_after [l] xs) = left_after (l # ls) xs"
  unfolding left_after_def filter_filter by (rule filter_cong) auto

lemma call_listeners_quiet:
  assumes h: "passive_host t h" and em: "good_emit em" "good_call cl"
  shows "emitter_ok s \<Longrightarrow> view s removeListenerEv = [] \<Longrightarrow>
      (\<And>w. Wrapper w \<in> set ls \<Longrightarrow> Wrapper w \<in> set (view s n) \<and> count_list ls (Wrapper w) = 1) \<Longrightarrow>
      called_entries t args (map (entry s) ls) = (cs, x) \<Longrightarrow>
      \<exists>s'. for_each (call_listener h em cl depth args) ls s = Some (answer_or_throw () x, s') \<and>
        delivered depth n args (map fst cs) s s'"
proof (induction ls arbitrary: s cs)
  case Nil
  then show ?case by (auto simp: ret_def delivered_def left_after_def answer_or_throw_def)
next
  case (Cons l ls)
  let ?call = "call_listener h em cl depth args"
  obtain u where u: "?call l s = Some (answer_or_throw () (outcome t args (entry s l)), u)" "delivered depth n args [l] s u"
    by (rule call_listener_quiet [OF h em Cons.prems(1,2), of l n]) (use Cons.prems(3) in auto)
  show ?case
  proof (cases "outcome t args (entry s l)")
    case (Some v)
    then have "cs = [entry s l]" "x = Some v" using Cons.prems(4) by auto
    moreover have "for_each ?call (l # ls) s = Some (Inl (ThrownValue v), u)"
      using u(1) Some by (simp add: ebind_def answer_or_throw_def)
    ultimately show ?thesis using u(2) by (simp add: answer_or_throw_def entry_def)
  next
    case None
    have "left_after [l] [] = []" by (simp add: left_after_def)
    then have "view u removeListenerEv = []" using u(2) Cons.prems(2) by (simp add: delivered_def)
    moreover have "Wrapper w \<in> set (view u n) \<and> count_list ls (Wrapper w) = 1" if w: "Wrapper w \<in> set ls" for w
    proof -
      have c: "Wrapper w \<in> set (view s n)" "count_list (l # ls) (Wrapper w) = 1" using Cons.prems(3) [of w] w by auto
      moreover have "0 < count_list ls (Wrapper w)" using w by (simp add: count_list_mem)
      ultimately have "l \<noteq> Wrapper w" "count_list ls (Wrapper w) = 1" by (auto split: if_splits)
      then show ?thesis using c(1) u(2) by (simp add: delivered_def left_after_def)
    qed
    moreover obtain cs' where cs': "called_entries t args (map (entry u) ls) = (cs', x)" "cs = entry s l # cs'"
      using Cons.prems(4) None u(2) by (auto simp: delivered_def split: prod.splits)
    ultimately obtain s' where s': "for_each ?call ls u = Some (answer_or_throw () x, s')"
        "delivered depth n args (map fst cs') u s'"
      using Cons.IH [of u cs'] u(2) by (auto simp: delivered_def)
    have "for_each ?call (l # ls) s = Some (answer_or_throw () x, s')"
      using u(1) s'(1) None by (simp add: ebind_def answer_or_throw_def [of _ None])
    moreover have "delivered depth n args (map fst cs) s s'"
      using u(2) s'(2) cs'(2) by (simp add: delivered_def left_after_Cons entry_def)
    ultimately show ?thesis by blast
  qed
qed

lemma emit_body_quiet:
  assumes h: "passive_host t h" and em: "good_emit em" "good_call cl" and ok: "emitter_ok s"
    and q: "view s removeListenerEv = []" and n: "n \<noteq> errorEv \<or> view s ErrorMonitor = [] \<and> view s n \<noteq> []"
    and cs: "called_entries t args (map (entry s) (view s n)) = (cs, x)"
  shows "\<exists>s'. emit_body h em cl depth n args s = Some (answer_or_throw (view s n \<noteq> []) x, s') \<and>
    delivered depth n args (map fst cs) s s'"
proof -
  obtain r where r: "events_ref s = Some r" using ok_events [OF ok] by blast
  have cur: "current s = tables s r" using current_table [OF r] .
  have look: "lookup (tables s r) m = None \<longleftrightarrow> view s m = []" for m
    using view_defined [OF ok_shape [OF ok]] cur by simp
  have "once_ok s" using ok by (simp add: emitter_ok_def)
  then obtain s' where s': "for_each (call_listener h em cl depth args) (view s n) s = Some (answer_or_throw () x, s')"
      "delivered depth n args (map fst cs) s s'"
    using call_listeners_quiet [OF h em ok q _ cs, of n depth] once_okD(5) by blast
  note defs = emit_body_def with_state_def ebind_def ret_def r
  show ?thesis
  proof (cases "lookup (tables s r) n")
    case None
    then have "view s n = []" using look by blast
    then have "cs = []" "x = None" using cs by auto
    moreover have "delivered depth n args [] s s" using ok by (simp add: delivered_def left_after_def)
    ultimately show ?thesis using None n \<open>view s n = []\<close> by (auto simp: defs answer_or_throw_def)
  next
    case (Some hd)
    have mon: "\<not> (n = errorEv \<and> lookup (tables s r) ErrorMonitor \<noteq> None)" using n look [of ErrorMonitor] by auto
    have some: "view s n \<noteq> []" using Some look [of n] by simp
    have "emit_body h em cl depth n args s = Some (answer_or_throw True x, s')"
    proof (cases hd)
      case (Single l)
      have "view s n = [l]" using Some Single by (simp add: view_def cur)
      then have "call_listener h em cl depth args l s = Some (answer_or_throw () x, s')"
        using s'(1) by (auto simp: ebind_Some ret_def)
      then show ?thesis using mon Some Single by (auto simp: defs answer_or_throw_def split: option.split)
    next
      case (Array a)
      have "view s n = elems (arrays s a)" using Some Array by (simp add: view_def cur)
      then show ?thesis using mon Some Array s'(1) by (auto simp: defs answer_or_throw_def split: option.split)
    qed
    then show ?thesis using s'(2) some by auto
  qed
qed

subsection \<open>Refinement\<close>

definition unwatched :: "emitter \<Rightarrow> bool" where
  "unwatched s \<longleftrightarrow> (\<forall>n \<in> {newListener, removeListenerEv, ErrorMonitor}. registry s n = [])"

lemma listeners_of_view: "listeners_of s n False = view s n"
  by (auto simp: listeners_of_def view_def handler_elems_def split: option.split handler.split)

lemma registry_view: "registry s n = map (entry s) (view s n)"
  by (simp add: registry_def listeners_of_view)

lemma unwatchedD:
  assumes "unwatched s"
  shows "view s newListener = []" "view s removeListenerEv = []" "view s ErrorMonitor = []"
  using assms by (simp_all add: unwatched_def registry_view)

lemma registered_known:
  assumes "emitter_ok s" "Wrapper w \<in> set (view s n)"
  shows "w < next_ref s"
proof -
  obtain r where "events_ref s = Some r" using ok_events [OF assms(1)] by blast
  then show ?thesis using assms once_okD(6) [of s w r n] view_current by (simp add: emitter_ok_def)
qed

text \<open>A step keeps the meaning of the listeners that were registered.\<close>

lemma entries_kept:
  assumes "emitter_ok s" "step_ok A K s s'" "set xs \<subseteq> set (view s n)"
  shows "map (entry s') xs = map (entry s) xs"
  using assms(3) step_okD(5) [OF assms(2)] registered_known [OF assms(1)]
  by (auto simp: entry_def unwrap_def listener_of_def subset_iff split: listener.split)

lemma registry_same: "entry s' = entry s \<Longrightarrow> view s' = view s \<Longrightarrow> registry s' = registry s"
  by (simp add: fun_eq_iff registry_view)

lemma registry_upd:
  "entry s' = entry s \<Longrightarrow> view s' = (view s)(n := xs) \<Longrightarrow> registry s' = (registry s)(n := map (entry s) xs)"
  by (auto simp: fun_eq_iff registry_view)

lemma effect_entry: "effect s s' V new \<Longrightarrow> entry s' = entry s" "effect s s' V new \<Longrightarrow> calls s' = calls s"
  by (rule entry_cong) (simp_all add: effect_def same_rest_def)

text \<open>A computation gives an answer, makes calls, and leaves a registry.\<close>

definition refined :: "(thrown + 'a) \<times> (nat \<times> listener \<times> earg list) list \<times> registry \<Rightarrow> 'a comp \<Rightarrow> emitter \<Rightarrow> bool" where
  "refined X m s \<longleftrightarrow> (\<exists>s'. m s = Some (fst X, s') \<and> calls s' = calls s @ fst (snd X) \<and> registry s' = snd (snd X))"

lemma refinedI: "m s = Some (r, s') \<Longrightarrow> calls s' = calls s @ cs \<Longrightarrow> registry s' = V \<Longrightarrow> refined (r, cs, V) m s"
  by (auto simp: refined_def)

lemma refined_answer: "refined (r, cs, V) m s \<Longrightarrow> refined (map_sum id f r, cs, V) (answer f m) s"
  by (cases r) (auto simp: refined_def answer_def ebind_def ret_def)

lemma refined_stay: "m s = Some (r, s) \<Longrightarrow> refined (r, [], registry s) m s"
  by (simp add: refined_def)

lemma refines_insert:
  assumes ok: "emitter_ok s" and q: "view s newListener = []"
  shows "refined (Inr (), [], (registry s)(n := (if prepend then entry s l # registry s n else registry s n @ [entry s l])))
    (addListener em n (Some l) prepend) s"
proof (rule refinedI, rule addListener_quiet [OF ok q])
  note e = insert_effect [OF ok_shape [OF ok], of n l prepend]
  show "registry (insert_listener n l prepend s) =
      (registry s)(n := (if prepend then entry s l # registry s n else registry s n @ [entry s l]))"
    using registry_upd [OF effect_entry(1) [OF e] effect_basic(2) [OF e]] by (simp add: registry_view)
qed simp

lemma refines_once:
  assumes ok: "emitter_ok s" and q: "view s newListener = []"
  shows "refined (Inr (), [], (registry s)(n :=
      (if prepend then (Wrapper (next_ref s), Fn f) # registry s n else registry s n @ [(Wrapper (next_ref s), Fn f)])))
    (once em n (Some (Fn f)) prepend) s"
proof -
  let ?w = "next_ref s"
  obtain u where u: "onceWrap n (Fn f) s = Some (Inr (Wrapper ?w), u)"
      "u = s\<lparr>wrappers := (wrappers s)(?w := \<lparr>fired = False, w_type = n, w_listener = Fn f\<rparr>), next_ref := ?w + 1\<rparr>"
    by (simp add: onceWrap_def)
  have vu: "view u = view s" using view_cong [of u s] u(2) by simp
  have st: "step_ok UNIV UNIV s u" by (rule same_ok [OF ok]) (simp_all add: u(2) wcalls_def wraps_function_def)
  have reg: "registry u = registry s" using entries_kept [OF ok st subset_refl] by (simp add: fun_eq_iff registry_view vu)
  have "view u newListener = []" using q vu by simp
  from refines_insert [OF step_okD(1) [OF st] this, of n prepend "Wrapper ?w" em]
  obtain s' where "addListener em n (Some (Wrapper ?w)) prepend u = Some (Inr (), s')" "calls s' = calls s"
      "registry s' = (registry s)(n := (if prepend then (Wrapper ?w, Fn f) # registry s n
         else registry s n @ [(Wrapper ?w, Fn f)]))"
    using reg u(2) by (auto simp: refined_def entry_def unwrap_def listener_of_def)
  moreover have "once em n (Some (Fn f)) prepend s = addListener em n (Some (Wrapper ?w)) prepend u"
    using u(1) by (simp add: once_def checkListener_def ret_def ebind_def)
  ultimately show ?thesis by (simp add: refined_def)
qed

lemma stands_for_entry: "matches s l x = stands_for l (entry s x)"
  by (auto simp: matches_def stands_for_def entry_def unwrap_def listener_of_def split: listener.split)

lemma refines_removeListener:
  assumes ok: "emitter_ok s" and q: "view s removeListenerEv = []"
  shows "refined (Inr (), [], (registry s)(n := remove_last (stands_for l) (registry s n)))
    (removeListener em n (Some l)) s"
proof -
  obtain s' where s': "removeListener em n (Some l) s = Some (Inr (), s')"
      "effect s s' ((view s)(n := remove_last (matches s l) (view s n))) {}"
    by (rule removeListener_quiet [OF ok q])
  have m: "matches s l = stands_for l \<circ> entry s" by (simp add: fun_eq_iff stands_for_entry)
  have "registry s' = (registry s)(n := remove_last (stands_for l) (registry s n))"
    using registry_upd [OF effect_entry(1) [OF s'(2)] effect_basic(2) [OF s'(2)]]
    by (simp add: registry_view m remove_last_map)
  then show ?thesis using s'(1) effect_entry(2) [OF s'(2)] by (intro refinedI) simp_all
qed

lemma refines_removeAll:
  assumes ok: "emitter_ok s" and q: "view s removeListenerEv = []"
  shows "refined (Inr (), [], (registry s)(n := [])) (removeAllListeners em (Some n)) s"
    "refined (Inr (), [], \<lambda>_. []) (removeAllListeners em None) s"
proof -
  have none: "lookup (current s) removeListenerEv = None"
    using q view_defined [OF ok_shape [OF ok]] by simp
  note defs = removeAllListeners_def removeAllOf_def with_state_def modify_def none ok_events [OF ok]
  have e: "effect s (clear_events s) (\<lambda>_. []) {}"
    using fresh_effect [OF ok_shape [OF ok]] by (simp add: clear_events_def)
  show "refined (Inr (), [], \<lambda>_. []) (removeAllListeners em None) s"
    by (rule refinedI [of _ _ _ "clear_events s"])
      (use effect_basic(2) [OF e] in \<open>simp_all add: defs registry_view fun_eq_iff\<close>)
  have "entry (drop_event n s) = entry s" by (rule entry_cong) simp
  moreover have "view (drop_event n s) = (view s)(n := [])"
  proof (cases "lookup (current s) n = None")
    case True
    then have "view (drop_event n s) = view s"
      by (intro view_cong(1)) (simp_all add: drop_event_def)
    moreover have "view s n = []" using True view_defined [OF ok_shape [OF ok]] by simp
    ultimately show ?thesis by (simp add: fun_eq_iff)
  next
    case False
    from effect_basic(2) [OF delete_effect [OF ok_shape [OF ok] False refl refl, of False]] False
    show ?thesis by (simp add: drop_event_def Let_def)
  qed
  ultimately have "registry (drop_event n s) = (registry s)(n := [])" using registry_upd by fastforce
  then show "refined (Inr (), [], (registry s)(n := [])) (removeAllListeners em (Some n)) s"
    by (intro refinedI [of _ _ _ "drop_event n s"]) (simp_all add: defs)
qed

lemma filter_left_after:
  "map (entry s) (left_after (map fst cs) xs) = filter (\<lambda>e. is_fn (fst e) \<or> e \<notin> set cs) (map (entry s) xs)"
  if "set cs \<subseteq> range (entry s)"
proof -
  have "fst e = x \<longleftrightarrow> e = entry s x" if "e \<in> set cs" for e x
    using that \<open>set cs \<subseteq> range (entry s)\<close> by (auto simp: entry_def)
  moreover have "fst (entry s x) = x" for x by (simp add: entry_def)
  ultimately have "x \<in> set (map fst cs) \<longleftrightarrow> entry s x \<in> set cs" for x unfolding set_map image_iff by metis
  then have "left_after (map fst cs) xs = filter ((\<lambda>e. is_fn (fst e) \<or> e \<notin> set cs) \<circ> entry s) xs"
    unfolding left_after_def by (intro filter_cong) (simp_all add: entry_def)
  then show ?thesis by (simp add: filter_map)
qed

lemma called_entries_subset: "called_entries t args es = (cs, x) \<Longrightarrow> set cs \<subseteq> set es"
  by (induction es arbitrary: cs) (fastforce split: option.splits prod.splits)+

lemma unhandled_throws: "unhandled args s = Some (Inl (unhandled_error args), s)"
  by (simp add: unhandled_def unhandled_error_def throw_def split: list.split earg.split)

lemma emit_no_error_listener:
  assumes "emitter_ok s" "view s errorEv = []" "view s ErrorMonitor = []"
  shows "emit h (Suc depth) errorEv args s = Some (Inl (unhandled_error args), s)"
proof -
  obtain r where r: "events_ref s = Some r" using ok_events [OF assms(1)] by blast
  then have "lookup (tables s r) errorEv = None" "lookup (tables s r) ErrorMonitor = None"
    using view_defined [OF ok_shape [OF assms(1)]] assms(2,3) current_table [OF r] by simp_all
  then show ?thesis using r by (simp add: emit_body_def with_state_def ebind_def ret_def unhandled_throws)
qed

lemma refines_emit:
  assumes h: "passive_host t h" and ok: "emitter_ok s" and q: "view s removeListenerEv = []"
    and n: "n = errorEv \<Longrightarrow> view s ErrorMonitor = []"
  shows "refined (spec_emit t depth n args (registry s)) (emit h (Suc depth) n args) s"
proof (cases "n = errorEv \<and> registry s n = []")
  case True
  then have "view s errorEv = []" by (auto simp: registry_view)
  from emit_no_error_listener [OF ok this n] show ?thesis
    using True by (intro ssubst [of _ _ "\<lambda>X. refined X _ _", OF _ refined_stay]) (auto simp: spec_emit_def)
next
  case False
  obtain cs x where cs: "called_entries t args (map (entry s) (view s n)) = (cs, x)" by (metis surj_pair)
  have "n \<noteq> errorEv \<or> view s ErrorMonitor = [] \<and> view s n \<noteq> []" using False n by (auto simp: registry_view)
  then obtain s' where s': "emit_body h (emit h depth) (call h depth) depth n args s = Some (answer_or_throw (view s n \<noteq> []) x, s')"
      "delivered depth n args (map fst cs) s s'"
    using emit_body_quiet [OF h good_emit good_calls ok q _ cs, of h h depth depth] passive_discreet [OF h] by blast
  have "set cs \<subseteq> range (entry s)" using called_entries_subset [OF cs] by auto
  note left = filter_left_after [OF this, of "view s n"]
  have "registry s' = (registry s)(n := filter (\<lambda>e. is_fn (fst e) \<or> e \<notin> set cs) (registry s n))"
    using s'(2) registry_upd [of s' s n "left_after (map fst cs) (view s n)"] left
    by (simp add: delivered_def registry_view)
  moreover have "called_entries t args (registry s n) = (cs, x)" using cs by (simp add: registry_view)
  then have "spec_emit t depth n args (registry s) = (answer_or_throw (registry s n \<noteq> []) x, map (\<lambda>e. (depth, fst e, args)) cs,
      (registry s)(n := filter (\<lambda>e. is_fn (fst e) \<or> e \<notin> set cs) (registry s n)))"
    by (simp only: spec_emit_def False if_False Let_def prod.case)
  ultimately show ?thesis using s' by (simp add: refined_def registry_view [of s n] delivered_def comp_def)
qed

lemma refines_call:
  assumes h: "passive_host t h" and ok: "emitter_ok s" and q: "view s removeListenerEv = []"
  shows "refined (answer_or_throw () (outcome t args (Fn f, Fn f)), [(depth, Fn f, args)], registry s)
    (call h (Suc depth) (Fn f) args) s"
proof -
  obtain s' where "call_listener h (emit h depth) (call h depth) depth args (Fn f) s =
      Some (answer_or_throw () (outcome t args (entry s (Fn f))), s')" "delivered depth ErrorMonitor args [Fn f] s s'"
    by (rule call_listener_quiet [OF h good_emit [OF passive_discreet [OF h]] good_calls [OF passive_discreet [OF h]] ok q,
          of "Fn f" ErrorMonitor]) simp_all
  moreover have "left_after [Fn f] xs = xs" for xs by (auto simp: left_after_def is_fn_def intro!: filter_True)
  ultimately show ?thesis
    using registry_same [of s' s] by (simp add: refined_def delivered_def entry_def unwrap_def listener_of_def)
qed

lemma refines_limit: "refined (spec_limit v, [], registry s) (answer (\<lambda>_. Done) (setMaxListeners v)) s"
proof -
  have "registry (s\<lparr>maxListeners := m\<rparr>) = registry s" for m
    by (rule registry_same [OF entry_cong view_cong(1)]) simp_all
  then show ?thesis
    by (auto simp: refined_def answer_def setMaxListeners_def validateLimit_def spec_limit_def ebind_def throw_def ret_def
        modify_def split: jsval.split jsnum.split)
qed

lemma no_function:
  "addListener em n None prepend s = Some (Inl not_a_listener, s)"
  "once em n None prepend s = Some (Inl not_a_listener, s)"
  "removeListener em n None s = Some (Inl not_a_listener, s)"
  by (simp_all add: addListener_def once_def removeListener_def checkListener_def not_a_listener_def throw_def)

end
