(* ===== verification/EventsCalls.thy ===== *)
theory EventsCalls
  imports EventsSpec "HOL-Library.Sublist"
begin

text \<open>
  The calls an \<^verbatim>\<open>emit\<close> makes, whatever the functions do: those of its own depth are the listeners it
  found, in their order, but for once wrappers that are called before their turn. The properties of
  emitters are at the end.
\<close>

subsection \<open>Depth\<close>

abbreviation below :: "nat \<Rightarrow> emitter \<Rightarrow> emitter \<Rightarrow> bool" where
  "below d \<equiv> logged (\<lambda>c. fst c < d)"

text \<open>What the call of one listener of depth \<open>d\<close> adds to the record.\<close>

definition one_call :: "nat \<Rightarrow> earg list \<Rightarrow> listener \<Rightarrow> bool \<Rightarrow> emitter \<Rightarrow> emitter \<Rightarrow> bool" where
  "one_call d args l called s s' \<longleftrightarrow>
     (\<exists>t u. below d s t \<and> calls u = (if called then calls t @ [(d, l, args)] else calls t) \<and> below d u s')"

lemma call_function_call:
  assumes em: "obeys_emit (below d) em" "obeys_call (below d) cl"
    and run: "call_function h em cl d l f args s = Some (r, s')"
  shows "one_call d args l True s s'"
proof -
  let ?u = "s\<lparr>calls := calls s @ [(d, l, args)]\<rparr>"
  have "obeys_at (below d) (with_state (\<lambda>s. case f of Fn g \<Rightarrow> run_script em cl (h g args s) | Wrapper _ \<Rightarrow> cl f args)) ?u"
    by (intro log.with_state) (auto intro: log.script [OF em] obeys_callD [OF em(2)] split: listener.split)
  then have "below d ?u s'" using run by (auto simp: call_function_def ebind_def modify_def obeys_at_def)
  moreover have "below d s s" by (simp add: logged_refl)
  ultimately show ?thesis unfolding one_call_def by (intro exI [of _ s] exI [of _ ?u]) simp
qed

lemma one_call_after: "below d s t \<Longrightarrow> one_call d args l c t s' \<Longrightarrow> one_call d args l c s s'"
  unfolding one_call_def using logged_trans by blast

text \<open>
  A function is called. So is a once wrapper that has not fired, unless its removal throws.
\<close>

lemma call_listener_call:
  assumes em: "obeys_emit (below d) em" "obeys_call (below d) cl"
    and run: "call_listener h em cl d args l s = Some (r, s')"
  shows "\<exists>c. one_call d args l c s s' \<and> (is_fn l \<longrightarrow> c) \<and>
    (\<forall>w. l = Wrapper w \<longrightarrow> r = Inr () \<longrightarrow> c \<or> fired (wrappers s w))"
proof (cases l)
  case (Fn f)
  then show ?thesis using call_function_call [OF em, of h l l args] run by (auto simp: call_listener_def)
next
  case (Wrapper w)
  have stop: "one_call d args l False s s'" if "below d s s'"
    unfolding one_call_def using that by (intro exI [of _ s] exI [of _ s]) (simp add: logged_refl)
  show ?thesis
  proof (cases "fired (wrappers s w)")
    case True
    then have "below d s s'" using run Wrapper by (simp add: call_listener_def with_state_def ret_def logged_refl)
    then show ?thesis using stop True Wrapper by (intro exI [of _ False]) (simp add: is_fn_def)
  next
    case False
    let ?rm = "removeListener em (w_type (wrappers s w)) (Some l)"
    let ?mark = "\<lambda>t. t\<lparr>wrappers := (wrappers t)(w := (wrappers t w)\<lparr>fired := True\<rparr>)\<rparr>"
    have "ebind ?rm (\<lambda>_. ebind (modify ?mark) (\<lambda>_.
        with_state (\<lambda>s. call_function h em cl d l (w_listener (wrappers s w)) args))) s = Some (r, s')"
      using run False Wrapper by (simp add: call_listener_def with_state_def)
    then consider e where "?rm s = Some (Inl e, s')" "r = Inl e"
      | x t where "?rm s = Some (Inr x, t)"
          "call_function h em cl d l (w_listener (wrappers (?mark t) w)) args (?mark t) = Some (r, s')"
      unfolding ebind_Some by (auto simp: modify_def with_state_def)
    then show ?thesis
    proof cases
      case 1
      then have "below d s s'" using log.remove [OF em(1)] by (auto simp: obeys_at_def)
      then show ?thesis using stop Wrapper 1(2) by (intro exI [of _ False]) (simp add: is_fn_def)
    next
      case (2 x t)
      have "below d s t" using log.remove [OF em(1)] 2(1) unfolding obeys_at_def by blast
      then have "below d s (?mark t)" by (simp add: logged_def)
      then have "one_call d args l True s s'" using call_function_call [OF em 2(2)] one_call_after by blast
      then show ?thesis by blast
    qed
  qed
qed

lemma call_listener_depth:
  assumes "obeys_emit (below d) em" "obeys_call (below d) cl"
  shows "obeys (below (Suc d)) (call_listener h em cl d args l)"
  unfolding obeys_def obeys_at_def
proof (intro allI impI)
  fix s r s' assume "call_listener h em cl d args l s = Some (r, s')"
  then obtain c t u where c: "below d s t" "calls u = (if c then calls t @ [(d, l, args)] else calls t)" "below d u s'"
    using call_listener_call [OF assms] unfolding one_call_def by blast
  have "below (Suc d) s t" by (rule logged_mono [OF c(1)]) simp
  moreover have "below (Suc d) t u" using c(2) by (cases c) (auto simp: logged_def)
  moreover have "below (Suc d) u s'" by (rule logged_mono [OF c(3)]) simp
  ultimately show "below (Suc d) s s'" using logged_trans by blast
qed

lemma every_call_below: "obeys_emit (below d) (emit h d) \<and> obeys_call (below d) (call h d)"
proof (induction d)
  case 0
  then show ?case by (simp add: obeys_emit_def obeys_call_def obeys_def obeys_at_def)
next
  case (Suc d)
  then have IH: "obeys_emit (below d) (emit h d)" "obeys_call (below d) (call h d)" by simp_all
  have em: "obeys_at (below (Suc d)) (emit h d n args) s" for n args s
    using obeys_emitD [OF IH(1), of n args s] logged_mono [of "\<lambda>c. fst c < d" _ _ "\<lambda>c. fst c < Suc d"]
    by (simp add: obeys_at_def)
  have unh: "obeys_at (below (Suc d)) (unhandled xs) s" for xs s
    by (simp add: obeys_at_def unhandled_throws logged_refl)
  note listener = obeys_at [OF call_listener_depth [OF IH]]
  have "obeys_at (below (Suc d)) (emit_body h (emit h d) (call h d) d n args) s" for n args s
    unfolding emit_body_def
    by (auto intro!: log.bind log.with_state log.ret log.for_each em unh listener split: option.split handler.split)
  then show ?case using listener by (simp add: obeys_def obeys_at_def obeys_emit_def obeys_call_def)
qed

subsection \<open>The listeners of a snapshot\<close>

definition own_calls :: "nat \<Rightarrow> emitter \<Rightarrow> emitter \<Rightarrow> (nat \<times> listener \<times> earg list) list" where
  "own_calls d s s' = filter (\<lambda>c. fst c = d) (new_calls s s')"

lemma own_calls_below: "below d s s' \<Longrightarrow> own_calls d s s' = []"
  by (auto simp: logged_def own_calls_def new_calls_def list_all_iff filter_empty_conv)

lemma own_calls_trans: "logged P s t \<Longrightarrow> logged Q t u \<Longrightarrow> own_calls d s u = own_calls d s t @ own_calls d t u"
  by (simp add: own_calls_def new_calls_trans)

lemma one_call_own:
  assumes "one_call d args l c s s'"
  shows "own_calls d s s' = (if c then [(d, l, args)] else [])"
proof -
  obtain t u where c: "below d s t" "calls u = (if c then calls t @ [(d, l, args)] else calls t)" "below d u s'"
    using assms unfolding one_call_def by blast
  have tu: "logged (\<lambda>_. True) t u" using c(2) by (cases c) (auto simp: logged_def)
  have "own_calls d s s' = own_calls d s u @ own_calls d u s'"
    by (rule own_calls_trans [OF logged_trans [OF logged_mono [OF c(1)] tu] c(3)]) simp
  also have "own_calls d s u = own_calls d s t @ own_calls d t u" by (rule own_calls_trans [OF c(1) tu])
  finally show ?thesis using own_calls_below [OF c(1)] own_calls_below [OF c(3)] c(2) by (simp add: own_calls_def new_calls_def)
qed

lemma own_called: "own_calls d s s' = map (\<lambda>l. (d, l, args)) ls \<Longrightarrow> Wrapper w \<in> set ls \<Longrightarrow> called_since w s s'"
proof -
  assume own: "own_calls d s s' = map (\<lambda>l. (d, l, args)) ls" "Wrapper w \<in> set ls"
  then have "(d, Wrapper w, args) \<in> set (own_calls d s s')" by simp
  then show ?thesis unfolding own_calls_def called_since_def by force
qed

text \<open>
  Of the listeners up to the end or the one that threw, all functions are called, and each once wrapper
  but the one that threw, which did not fire before, has been called.
\<close>

definition served :: "nat \<Rightarrow> earg list \<Rightarrow> listener list \<Rightarrow> bool \<Rightarrow> emitter \<Rightarrow> emitter \<Rightarrow> bool" where
  "served d args ls threw s s' \<longleftrightarrow>
     (\<exists>upto rest called. ls = upto @ rest \<and> own_calls d s s' = map (\<lambda>l. (d, l, args)) called \<and>
        subseq called upto \<and> filter is_fn called = filter is_fn upto \<and> (\<not> threw \<longrightarrow> rest = []) \<and>
        (\<forall>w. Wrapper w \<in> set (if threw then butlast upto else upto) \<longrightarrow> fired (wrappers s w) \<or> called_since w s s'))"

lemma servedI:
  assumes "ls = us @ rest" "own_calls d s s' = map (\<lambda>l. (d, l, args)) called" "subseq called us"
    "filter is_fn called = filter is_fn us" "\<not> threw \<Longrightarrow> rest = []"
    "\<And>w. Wrapper w \<in> set (if threw then butlast us else us) \<Longrightarrow> fired (wrappers s w) \<or> called_since w s s'"
  shows "served d args ls threw s s'"
  unfolding served_def using assms by blast

lemma served_threw:
  assumes "one_call d args l c s s'" "is_fn l \<longrightarrow> c"
  shows "served d args (l # rest) True s s'"
  by (rule servedI [of _ "[l]" rest _ _ _ _ "if c then [l] else []"])
    (use one_call_own [OF assms(1)] assms(2) in simp_all)

lemma served_Cons:
  assumes one: "one_call d args l c s t" "is_fn l \<longrightarrow> c" "\<And>w. l = Wrapper w \<Longrightarrow> c \<or> fired (wrappers s w)"
    and rest: "served d args ls threw t s'" and m: "marks s t" "logged Q t s'"
  shows "served d args (l # ls) threw s s'"
proof -
  obtain upto rest called where u: "ls = upto @ rest" "own_calls d t s' = map (\<lambda>l. (d, l, args)) called"
      "subseq called upto" "filter is_fn called = filter is_fn upto" "\<not> threw \<longrightarrow> rest = []"
      "\<forall>w. Wrapper w \<in> set (if threw then butlast upto else upto) \<longrightarrow> fired (wrappers t w) \<or> called_since w t s'"
    using rest unfolding served_def by blast
  have st: "logged (\<lambda>_. True) s t" "\<And>w. fired (wrappers t w) \<Longrightarrow> fired (wrappers s w) \<or> called_since w s t"
    using m(1) by (simp_all add: marks_def)
  let ?called = "(if c then [l] else []) @ called"
  show ?thesis
  proof (rule servedI)
    show own: "own_calls d s s' = map (\<lambda>l. (d, l, args)) ?called"
      using own_calls_trans [OF st(1) m(2), of d] one_call_own [OF one(1)] u(2) by simp
    show "l # ls = (l # upto) @ rest" "\<not> threw \<Longrightarrow> rest = []" using u(1,5) by simp_all
    show "subseq ?called (l # upto)" "filter is_fn ?called = filter is_fn (l # upto)" using u(3,4) one(2) by auto
    fix w assume "Wrapper w \<in> set (if threw then butlast (l # upto) else l # upto)"
    then consider "l = Wrapper w" | "Wrapper w \<in> set (if threw then butlast upto else upto)"
      by (auto split: if_splits)
    then show "fired (wrappers s w) \<or> called_since w s s'"
    proof cases
      case 1
      then show ?thesis using one(3) own_called [OF own, of w] by auto
    next
      case 2
      then show ?thesis using u(6) st(2) called_since_trans [OF st(1) m(2)] by blast
    qed
  qed
qed

lemma for_each_served:
  assumes em: "obeys_emit (below d) em" "obeys_call (below d) cl" and mark: "obeys_emit marks em" "obeys_call marks cl"
  shows "for_each (call_listener h em cl d args) ls s = Some (r, s') \<Longrightarrow> served d args ls (r \<noteq> Inr ()) s s'"
proof (induction ls arbitrary: s)
  case Nil
  then have "own_calls d s s' = []" "r = Inr ()" by (simp_all add: ret_def own_calls_def new_calls_def)
  then show ?case by (intro servedI [of _ "[]" "[]" _ _ _ _ "[]"]) simp_all
next
  case (Cons l ls)
  let ?call = "call_listener h em cl d args"
  from Cons.prems consider e where "?call l s = Some (Inl e, s')" "r = Inl e"
    | t where "?call l s = Some (Inr (), t)" "for_each ?call ls t = Some (r, s')"
    unfolding for_each.simps ebind_Some by auto
  then show ?case
  proof cases
    case 1
    obtain c where "one_call d args l c s s'" "is_fn l \<longrightarrow> c" using call_listener_call [OF em 1(1)] by blast
    then show ?thesis using served_threw 1(2) by simp
  next
    case (2 t)
    obtain c where c: "one_call d args l c s t" "is_fn l \<longrightarrow> c" "\<And>w. l = Wrapper w \<Longrightarrow> c \<or> fired (wrappers s w)"
      using call_listener_call [OF em 2(1)] by blast
    have "marks s t" using mark.called_listener [OF mark] 2(1) by (auto simp: obeys_at_def)
    moreover have "obeys_at (below (Suc d)) (for_each ?call ls) t"
      by (rule log.for_each [OF obeys_at [OF call_listener_depth [OF em]]])
    then have "below (Suc d) t s'" using 2(2) by (auto simp: obeys_at_def)
    ultimately show ?thesis using served_Cons [OF c Cons.IH [OF 2(2)]] by blast
  qed
qed

lemma emit_served:
  assumes ok: "shape s" and run: "emit h (Suc d) n args s = Some (r, s')" and n: "n \<noteq> errorEv"
  shows "served d args (listeners_of s n False) (\<exists>e. r = Inl e) s s' \<and>
    (\<forall>b. r = Inr b \<longrightarrow> b = (listeners_of s n False \<noteq> []))"
proof (cases "lookup (current s) n")
  case None
  then have "s' = s" "r = Inr False" "listeners_of s n False = []"
    using run n
    by (auto simp: emit_body_def with_state_def ret_def ebind_def table_at_def listeners_of_def split: option.splits)
  then show ?thesis by (auto intro: servedI [of _ "[]" "[]" _ _ _ _ "[]"] simp: own_calls_def new_calls_def)
next
  case (Some hd)
  then obtain ev where ev: "events_ref s = Some ev" by (cases "events_ref s") (simp_all add: table_at_def)
  let ?call = "call_listener h (emit h d) (call h d) d args"
  have "ebind (for_each ?call (listeners_of s n False)) (\<lambda>_. ret True) s = Some (r, s')"
    using run n Some ev
    by (cases hd) (auto simp: emit_body_def with_state_def listeners_of_def ebind_Some ret_def)
  then obtain q where q: "for_each ?call (listeners_of s n False) s = Some (q, s')"
      "q = Inr () \<longrightarrow> r = Inr True" "\<forall>e. q = Inl e \<longrightarrow> r = Inl e"
    by (auto simp: ebind_Some ret_def)
  have "served d args (listeners_of s n False) (q \<noteq> Inr ()) s s'"
    using for_each_served [OF _ _ _ _ q(1)] every_call_below [of d h] mark.every_depth [of h d] by blast
  moreover have "q \<noteq> Inr () \<longleftrightarrow> (\<exists>e. r = Inl e)" using q(2,3) by (cases q) auto
  moreover have "listeners_of s n False \<noteq> []" using Some view_defined [OF ok, of n] by (simp add: listeners_of_view)
  ultimately show ?thesis using q(2,3) by (cases q) auto
qed

subsection \<open>Refinement\<close>

lemmas refined_done = refined_answer [where f = "\<lambda>_. Done", simplified]

lemma refined_throw: "m s = Some (Inl e, s) \<Longrightarrow> refined (Inl e, [], registry s) (answer f m) s"
  by (simp add: refined_def answer_def ebind_def)

lemma refined_query: "f s = x \<Longrightarrow> refined (Inr x, [], registry s) (with_state (\<lambda>s. ret (f s))) s"
  by (simp add: refined_def with_state_def ret_def)

lemma functions_only:
  assumes "no_wrapper l"
  obtains "l = None" | f where "l = Some (Fn f)"
  using assms by (auto simp: no_wrapper_def split: option.splits listener.splits)

lemma refines_add:
  assumes "emitter_ok s" "view s newListener = []" "no_wrapper l"
  shows "refined (spec_add n (\<lambda>f. (f, f)) l prepend (registry s)) (answer (\<lambda>_. Done) (addListener em n l prepend)) s"
  using assms(3)
proof (cases rule: functions_only)
  case 1
  then show ?thesis by (simp add: spec_add_def refined_throw no_function)
next
  case (2 f)
  then show ?thesis
    using refined_done [OF refines_insert [OF assms(1,2), of n prepend "Fn f" em]]
    by (cases prepend) (simp_all add: spec_add_def entry_def unwrap_def listener_of_def)
qed

lemma refines_add_once:
  assumes "emitter_ok s" "view s newListener = []" "no_wrapper l"
  shows "refined (spec_add n (\<lambda>f. (Wrapper (next_ref s), f)) l prepend (registry s))
    (answer (\<lambda>_. Done) (once em n l prepend)) s"
  using assms(3)
proof (cases rule: functions_only)
  case 1
  then show ?thesis by (simp add: spec_add_def refined_throw no_function)
next
  case (2 f)
  then show ?thesis using refined_done [OF refines_once [OF assms(1,2), of n prepend f em]] by (simp add: spec_add_def)
qed

lemma refines_queries:
  "listenerCount s n None = length (registry s n)"
  "listenerCount s n (Some l) = length (filter (stands_for l) (registry s n))"
  "listeners_of s n True = map snd (registry s n)" "listeners_of s n False = map fst (registry s n)"
proof -
  show "listenerCount s n None = length (registry s n)"
    by (simp add: listenerCount_def registry_def listeners_of_def split: option.split handler.split)
  have "matches s l = stands_for l \<circ> entry s" by (simp add: fun_eq_iff stands_for_entry)
  then show "listenerCount s n (Some l) = length (filter (stands_for l) (registry s n))"
    by (simp add: listenerCount_def registry_def listeners_of_def filter_map split: option.split handler.split)
  show "listeners_of s n True = map snd (registry s n)" "listeners_of s n False = map fst (registry s n)"
    by (simp_all add: registry_def listeners_of_def entry_def comp_def split: option.split handler.split)
qed

lemma exec_refines_ok:
  assumes h: "passive_host t h" and ok: "emitter_ok s" and q: "unwatched s"
  shows "discreet c \<Longrightarrow> refined (spec t depth (next_ref s) c (registry s)) (exec (emit h (Suc depth)) (call h (Suc depth)) c) s"
proof (induction c)
  case (Off n l)
  show ?case
  proof (cases l)
    case None
    then show ?thesis by (simp add: refined_throw no_function del: emit.simps call.simps)
  next
    case (Some x)
    then show ?thesis
      using refined_done [OF refines_removeListener [OF ok unwatchedD(2) [OF q]]] by (simp del: emit.simps call.simps)
  qed
next
  case (RemoveAll n)
  show ?case
    using refined_done [OF refines_removeAll(1) [OF ok unwatchedD(2) [OF q]]]
      refined_done [OF refines_removeAll(2) [OF ok unwatchedD(2) [OF q]]]
    by (cases n) (simp_all del: emit.simps call.simps)
next
  case (SetMaxListeners v)
  show ?case using refines_limit by simp
next
  case (ListenerCount n l)
  show ?case by (cases l) (simp_all add: refined_query refines_queries)
next
  case (Emit n args)
  obtain r cs V where "spec_emit t depth n args (registry s) = (r, cs, V)" by (metis prod_cases3)
  then show ?case
    using refined_answer [where f = Flag] refines_emit [OF h ok unwatchedD(2,3) [OF q], of depth n args]
    by (simp del: emit.simps call.simps)
next
  case (Call l args)
  then obtain f where "l = Fn f" by (auto simp: no_wrapper_def split: listener.splits)
  then show ?case
    using refined_done [OF refines_call [OF h ok unwatchedD(2) [OF q], of args f depth]]
    by (cases "outcome t args (Fn f, Fn f)") (simp_all add: answer_or_throw_def del: emit.simps call.simps)
next
  case (Catch c)
  obtain r cs V where r: "spec t depth (next_ref s) c (registry s) = (r, cs, V)" by (metis prod_cases3)
  then have "refined (r, cs, V) (exec (emit h (Suc depth)) (call h (Suc depth)) c) s"
    using Catch by (simp del: emit.simps call.simps)
  then show ?case using r by (cases r) (auto simp: refined_def simp del: emit.simps call.simps)
qed (simp_all add: refined_query refines_queries refines_add [OF ok unwatchedD(1) [OF q]]
    refines_add_once [OF ok unwatchedD(1) [OF q]] del: emit.simps call.simps)

subsection \<open>Examples\<close>

text \<open>Function 2 removes function 3 when it is called, and both are on the list.\<close>

definition removing_host :: event_host where
  "removing_host f args s = (if f = 2 then ([Off (Sym 5) (Some (Fn 3))], None) else ([], None))"

text \<open>Function 3 throws and the others return.\<close>

definition throwing :: throws where
  "throwing f args = (if f = 3 then Some (ErrorArg 1) else None)"

definition silent_host :: event_host where
  "silent_host f args s = ([], throwing f args)"

definition after :: "event_host \<Rightarrow> command \<Rightarrow> emitter \<Rightarrow> emitter" where
  "after h c s = (case exec (emit h 2) (call h 2) c s of None \<Rightarrow> s | Some (_, s') \<Rightarrow> s')"

definition three_listeners :: "event_host \<Rightarrow> emitter" where
  "three_listeners h =
     after h (On (Sym 5) (Some (Fn 3)))
       (after h (Once (Sym 5) (Some (Fn 4))) (after h (On (Sym 5) (Some (Fn 2))) (init bare_emitter)))"

lemma discreet_after: "discreet_reach h s \<Longrightarrow> discreet c \<Longrightarrow> discreet_reach h (after h c s)"
  using discreet_reach.Discreet_Step by (auto simp: after_def split: option.split)

lemma three_listeners_reach: "discreet_reach h (three_listeners h)"
  unfolding three_listeners_def by (intro discreet_after discreet_reach.Discreet_New) (simp_all add: no_wrapper_def)

lemma removing_emit:
  "(case emit removing_host 2 (Sym 5) [] (three_listeners removing_host) of None \<Rightarrow> False
    | Some (r, s) \<Rightarrow> r = Inr True \<and> calls s = [(1, Fn 2, []), (1, Wrapper 1, []), (1, Fn 3, [])] \<and>
        listeners_of s (Sym 5) False = [Fn 2])"
  by code_simp

lemma silent_registry:
  "listeners_of (three_listeners silent_host) (Sym 5) False = [Fn 2, Wrapper 1, Fn 3]"
  "registry (three_listeners silent_host) (Sym 5) = [(Fn 2, Fn 2), (Wrapper 1, Fn 4), (Fn 3, Fn 3)]"
  "unwatched (three_listeners silent_host)"
  by code_simp+

text \<open>
  \<^verbatim>\<open>removeAllListeners\<close> with an event reads its array again at each turn, so it throws when a listener of
  \<^verbatim>\<open>removeListener\<close> removes another listener of that array.
\<close>

definition meddling_host :: event_host where
  "meddling_host f args s = (if f = 6 then ([Off (Sym 5) (Some (Fn 2))], None) else ([], None))"

lemma remove_all_throws:
  "(case exec (emit meddling_host 3) (call meddling_host 3) (RemoveAll (Some (Sym 5)))
      (after meddling_host (On removeListenerEv (Some (Fn 6))) (three_listeners meddling_host)) of
      None \<Rightarrow> False
    | Some (r, s) \<Rightarrow> r = Inl not_a_listener \<and> listeners_of s (Sym 5) False = [Wrapper 1])"
  by code_simp

text \<open>
  The listeners of \<^verbatim>\<open>removeListener\<close> are given the once wrapper itself when it is one of several listeners of
  its event, before it is marked. One that calls what it is given runs a listener of \<^verbatim>\<open>once\<close> twice in one
  \<^verbatim>\<open>emit\<close>: first from there, then in its turn.
\<close>

definition calling_host :: event_host where
  "calling_host f args s = (case args of [_, ListenerArg l] \<Rightarrow> if f = 6 then ([Call l []], None) else ([], None) | _ \<Rightarrow> ([], None))"

lemma once_runs_twice:
  "(case emit calling_host 6 (Sym 5) []
      (after calling_host (On removeListenerEv (Some (Fn 6))) (three_listeners calling_host)) of
      None \<Rightarrow> False
    | Some (r, s) \<Rightarrow> r = Inr True \<and> map snd (filter (\<lambda>c. fst (snd c) = Wrapper 1) (calls s)) = [(Wrapper 1, []), (Wrapper 1, [])] \<and>
        w_listener (wrappers s 1) = Fn 4)"
  by code_simp

lemma silent_passive: "passive_host throwing silent_host"
  by (simp add: passive_host_def silent_host_def)

subsection \<open>Properties\<close>

text \<open>
  C11: in every state of an emitter \<^verbatim>\<open>_eventsCount\<close> is the number of events that have listeners, each of
  them is among \<^verbatim>\<open>eventNames()\<close>, which lists no name twice, and \<^verbatim>\<open>listenerCount\<close> is the length of
  \<^verbatim>\<open>rawListeners\<close>. An array of listeners has at least two of them and belongs to one event.
\<close>

theorem emitter_invariant:
  assumes "emitter_reach h s"
  shows "eventsCount s = int (card {n. listenerCount s n None \<noteq> 0}) \<and>
    distinct (eventNames s) \<and> {n. listenerCount s n None \<noteq> 0} \<subseteq> set (eventNames s) \<and>
    (\<forall>n. listenerCount s n None = length (listeners_of s n False)) \<and>
    (\<forall>n m a. lookup (current s) n = Some (Array a) \<longrightarrow>
       2 \<le> length (elems (arrays s a)) \<and> (lookup (current s) m = Some (Array a) \<longrightarrow> m = n))"
proof -
  have ok: "shape s" by (rule reach_shape [OF assms])
  obtain r where sr: "shape_at s r" using ok by (auto simp: shape_def)
  note r = shape_atD [OF sr]
  note cur = current_shape [OF sr]
  have count: "listenerCount s n None = length (listeners_of s n False)" for n
    by (simp add: listenerCount_def listeners_of_def split: option.split handler.split)
  have def': "{n. listenerCount s n None \<noteq> 0} = defined (tables s r)"
    using view_defined [OF ok] cur by (auto simp: count listeners_of_view defined_def)
  have "defined (tables s r) \<subseteq> set (map fst (tables s r))"
    by (auto simp: defined_def lookup_def dest!: map_of_SomeD intro: rev_image_eqI split: option.splits)
  moreover have "defined (tables s r) = {}" if "\<not> 0 < eventsCount s" using that r(4) by (simp add: card_gt_0_iff)
  ultimately have "distinct (eventNames s) \<and> defined (tables s r) \<subseteq> set (eventNames s)"
    using r(3) cur by (simp add: eventNames_def)
  then show ?thesis using count r(4,6,7) unfolding def' cur by blast
qed

theorem emitter_invariant_witness:
  "eventsCount (three_listeners removing_host) =
     int (card {n. listenerCount (three_listeners removing_host) n None \<noteq> 0})"
  using emitter_invariant [OF discreet_reach_reach [OF three_listeners_reach [of removing_host]]] by blast

text \<open>
  C10: where programs and listeners leave once wrappers to the emitter, except that they may remove
  them, a listener of \<^verbatim>\<open>once\<close> is called at most once, whatever else the listeners do, and not while it is
  registered: it is then on the list of its own event only, and once.
\<close>

theorem once_at_most_once:
  assumes "discreet_reach h s" "discreet_host h"
  shows "length (filter (\<lambda>c. fst (snd c) = Wrapper w) (calls s)) \<le> 1 \<and>
    (Wrapper w \<in> set (listeners_of s n False) \<longrightarrow>
      n = w_type (wrappers s w) \<and> count_list (listeners_of s n False) (Wrapper w) = 1 \<and>
      (\<forall>c \<in> set (calls s). fst (snd c) \<noteq> Wrapper w))"
proof -
  have once: "once_ok s" using reach_ok [OF assms] by (simp add: emitter_ok_def)
  have "\<forall>c \<in> set (calls s). fst (snd c) \<noteq> Wrapper w" if "Wrapper w \<in> set (view s n)"
    using once_okD(7) [OF once that] once_okD(2) [OF once, of w] by (simp add: wcalls_def filter_empty_conv)
  then show ?thesis
    using once_okD(1) [OF once, of w] once_okD(4,5) [OF once, of w n] unfolding listeners_of_view wcalls_def by blast
qed

theorem once_at_most_once_witness:
  "count_list (listeners_of (three_listeners silent_host) (Sym 5) False) (Wrapper 1) = 1"
proof -
  have "Wrapper 1 \<in> set (listeners_of (three_listeners silent_host) (Sym 5) False)" by (simp add: silent_registry)
  then show ?thesis
    using once_at_most_once [OF three_listeners_reach passive_discreet [OF silent_passive], of 1 "Sym 5"] by blast
qed

text \<open>
  C8: when an \<^verbatim>\<open>emit\<close> of another event than \<^verbatim>\<open>error\<close> ends, it has called the listeners it found when it
  began, in their order, up to the one that throws, whatever they add, remove or call meanwhile: every
  function of the list, and the once wrappers but those that others called before their turn. Each
  wrapper of these that had not fired before, except the one that throws, was called during the \<^verbatim>\<open>emit\<close>. It
  returns whether there were any listeners.
\<close>

theorem emit_snapshot:
  assumes "emitter_reach h s" "emit h (Suc d) n args s = Some (r, s')" "n \<noteq> errorEv"
  shows "\<exists>upto rest called. listeners_of s n False = upto @ rest \<and>
      filter (\<lambda>c. fst c = d) (drop (length (calls s)) (calls s')) = map (\<lambda>l. (d, l, args)) called \<and>
      subseq called upto \<and> filter is_fn called = filter is_fn upto \<and>
      (\<forall>w. Wrapper w \<in> set (case r of Inl _ \<Rightarrow> butlast upto | Inr _ \<Rightarrow> upto) \<longrightarrow> \<not> fired (wrappers s w) \<longrightarrow>
         (\<exists>c \<in> set (drop (length (calls s)) (calls s')). fst (snd c) = Wrapper w)) \<and>
      (\<forall>b. r = Inr b \<longrightarrow> rest = [] \<and> b = (listeners_of s n False \<noteq> []))"
proof -
  have served: "served d args (listeners_of s n False) (\<exists>e. r = Inl e) s s'"
      "\<forall>b. r = Inr b \<longrightarrow> b = (listeners_of s n False \<noteq> [])"
    using emit_served [OF reach_shape [OF assms(1)] assms(2,3)] by blast+
  then obtain us rest called where u: "listeners_of s n False = us @ rest"
      "filter (\<lambda>c. fst c = d) (drop (length (calls s)) (calls s')) = map (\<lambda>l. (d, l, args)) called"
      "subseq called us" "filter is_fn called = filter is_fn us" "\<not> (\<exists>e. r = Inl e) \<longrightarrow> rest = []"
      "\<forall>w. Wrapper w \<in> set (if \<exists>e. r = Inl e then butlast us else us) \<longrightarrow> fired (wrappers s w) \<or> called_since w s s'"
    unfolding served_def own_calls_def new_calls_def by blast
  have "(case r of Inl _ \<Rightarrow> butlast us | Inr _ \<Rightarrow> us) = (if \<exists>e. r = Inl e then butlast us else us)"
    by (cases r) auto
  then have "\<forall>w. Wrapper w \<in> set (case r of Inl _ \<Rightarrow> butlast us | Inr _ \<Rightarrow> us) \<longrightarrow> \<not> fired (wrappers s w) \<longrightarrow>
      (\<exists>c \<in> set (drop (length (calls s)) (calls s')). fst (snd c) = Wrapper w)"
    using u(6) unfolding called_since_def new_calls_def by auto
  moreover have "\<forall>b. r = Inr b \<longrightarrow> rest = [] \<and> b = (listeners_of s n False \<noteq> [])" using u(5) served(2) by blast
  ultimately show ?thesis using u(1-4) by blast
qed

theorem emit_snapshot_witness:
  "\<exists>r s'. emit removing_host 2 (Sym 5) [] (three_listeners removing_host) = Some (r, s') \<and>
     (\<exists>upto rest called. listeners_of (three_listeners removing_host) (Sym 5) False = upto @ rest \<and>
        filter (\<lambda>c. fst c = 1) (drop (length (calls (three_listeners removing_host))) (calls s')) =
          map (\<lambda>l. (1, l, [])) called \<and> subseq called upto)"
proof -
  obtain r s' where run: "emit removing_host (Suc 1) (Sym 5) [] (three_listeners removing_host) = Some (r, s')"
    using removing_emit by (simp add: numeral_2_eq_2 del: emit.simps split: option.splits prod.splits)
  show ?thesis
    using emit_snapshot [OF discreet_reach_reach [OF three_listeners_reach] run] run
    by (auto simp: errorEv_def numeral_2_eq_2 simp del: emit.simps)
qed

text \<open>
  C9: an emitter refines the map from events to lists of listeners. Where nobody listens for
  registrations, removals and errors, the program leaves once wrappers to the emitter except that it may
  remove and ask for them, and the functions it calls may throw but do not use the emitter, every
  operation and every question returns what \<open>spec\<close> says, errors and the boolean of \<^verbatim>\<open>emit\<close> included, makes
  the calls \<open>spec\<close> says, and leaves the registry \<open>spec\<close> gives.
\<close>

theorem exec_refines:
  assumes "discreet_reach h s" "passive_host t h" "unwatched s" "discreet c"
  shows "\<exists>r cs V s'. spec t depth (next_ref s) c (registry s) = (r, cs, V) \<and>
    exec (emit h (Suc depth)) (call h (Suc depth)) c s = Some (r, s') \<and>
    calls s' = calls s @ cs \<and> registry s' = V \<and> discreet_reach h s'"
proof -
  obtain r cs V where spec: "spec t depth (next_ref s) c (registry s) = (r, cs, V)" by (metis prod_cases3)
  have "refined (r, cs, V) (exec (emit h (Suc depth)) (call h (Suc depth)) c) s"
    using exec_refines_ok [OF assms(2) reach_ok [OF assms(1) passive_discreet [OF assms(2)]] assms(3,4), of depth] spec by simp
  then obtain s' where "exec (emit h (Suc depth)) (call h (Suc depth)) c s = Some (r, s')" "calls s' = calls s @ cs"
      "registry s' = V" by (auto simp: refined_def)
  then show ?thesis using spec discreet_reach.Discreet_Step [OF assms(1,4)] by blast
qed

text \<open>Function 3 throws, and the once listener before it is gone.\<close>

theorem exec_refines_witness:
  "\<exists>s'. exec (emit silent_host 1) (call silent_host 1) (Emit (Sym 5) []) (three_listeners silent_host) =
       Some (Inl (ThrownValue (ErrorArg 1)), s') \<and>
     calls s' = calls (three_listeners silent_host) @ [(0, Fn 2, []), (0, Wrapper 1, []), (0, Fn 3, [])] \<and>
     registry s' (Sym 5) = [(Fn 2, Fn 2), (Fn 3, Fn 3)]"
proof -
  have "discreet (Emit (Sym 5) [])" by simp
  from exec_refines [OF three_listeners_reach silent_passive silent_registry(3) this, of 0]
  show ?thesis
    by (auto simp: silent_registry(2) spec_emit_def errorEv_def outcome_def throwing_def answer_or_throw_def is_fn_def
        simp del: emit.simps call.simps)
qed

end
