(* ===== verification/MyersDiff.thy ===== *)
theory MyersDiff
  imports Prelude
begin

text \<open>
  The differences of two lists of lines: lib/internal/assert/myers_diff.js and its client
  lib/internal/util/diff.js. The loops are recursive functions over the variables of the code; an
  \<^verbatim>\<open>Int32Array\<close> is a list of integers whose stores wrap to 32 bits. \<open>None\<close> is the \<^verbatim>\<open>undefined\<close> read out of
  range, with which every comparison fails. \<^verbatim>\<open>endsWith\<close> is called on lines only.
\<close>

subsection \<open>Arrays\<close>

definition item :: "'a list \<Rightarrow> int \<Rightarrow> 'a option" where
  "item xs i = (if 0 \<le> i \<and> i < int (length xs) then Some (xs ! nat i) else None)"

definition toInt32 :: "int option \<Rightarrow> int" where
  "toInt32 x = (case x of None \<Rightarrow> 0 | Some i \<Rightarrow> sint (word_of_int i :: 32 word))"

definition store32 :: "int list \<Rightarrow> int \<Rightarrow> int option \<Rightarrow> int list" where
  "store32 v i x = (if 0 \<le> i then v[nat i := toInt32 x] else v)"

definition less_than :: "int option \<Rightarrow> int option \<Rightarrow> bool" where
  "less_than x y = (case (x, y) of (Some a, Some b) \<Rightarrow> a < b | _ \<Rightarrow> False)"

subsection \<open>The search\<close>

datatype operation = DELETE | NOP | INSERT

type_synonym diff_entry = "operation \<times> jsstring option"

definition with_comma :: "jsstring option \<Rightarrow> jsstring" where
  "with_comma l = (case l of None \<Rightarrow> js ''undefined,'' | Some s \<Rightarrow> s @ js '','')"

definition areLinesEqual :: "bool \<Rightarrow> jsstring option \<Rightarrow> jsstring option \<Rightarrow> bool" where
  "areLinesEqual checkCommaDisparity actual expected \<longleftrightarrow>
     actual = expected \<or>
     (checkCommaDisparity \<and> (Some (with_comma actual) = expected \<or> actual = Some (with_comma expected)))"

text \<open>The inner loop: along a diagonal while lines are equal.\<close>

function slide :: "int \<Rightarrow> int \<Rightarrow> (int \<Rightarrow> int \<Rightarrow> bool) \<Rightarrow> int \<Rightarrow> int \<Rightarrow> int" where
  "slide actualLength expectedLength same x y =
     (if x < actualLength \<and> y < expectedLength \<and> same x y
      then slide actualLength expectedLength same (x + 1) (y + 1) else x)"
  by auto
termination by (relation "measure (\<lambda>(n, m, e, x, y). nat (n - x))") auto

definition same_line :: "bool \<Rightarrow> jsstring list \<Rightarrow> jsstring list \<Rightarrow> int \<Rightarrow> int \<Rightarrow> bool" where
  "same_line c actual expected x y = areLinesEqual c (item actual x) (item expected y)"

text \<open>One diagonal: the \<open>x\<close> it ends at.\<close>

definition diag_step :: "bool \<Rightarrow> jsstring list \<Rightarrow> jsstring list \<Rightarrow> int \<Rightarrow> int \<Rightarrow> int \<Rightarrow> int list \<Rightarrow> int option" where
  "diag_step c actual expected bound diffLevel diagonalIndex v =
     (let offset = diagonalIndex + bound;
          previousOffset = item v (offset - 1);
          nextOffset = item v (offset + 1);
          x = (if diagonalIndex = - diffLevel \<or>
                  (diagonalIndex \<noteq> diffLevel \<and> less_than previousOffset nextOffset)
               then nextOffset else map_option (\<lambda>p. p + 1) previousOffset)
      in map_option (\<lambda>x.
           slide (int (length actual)) (int (length expected)) (same_line c actual expected) x (x - diagonalIndex)) x)"

text \<open>The diagonals of a level: whether the end was reached, and the array.\<close>

function diag_loop ::
  "bool \<Rightarrow> jsstring list \<Rightarrow> jsstring list \<Rightarrow> int \<Rightarrow> int \<Rightarrow> int \<Rightarrow> int list \<Rightarrow> bool \<times> int list" where
  "diag_loop c actual expected bound diffLevel diagonalIndex v =
     (if diagonalIndex \<le> diffLevel then
        (let x = diag_step c actual expected bound diffLevel diagonalIndex v;
             v = store32 v (diagonalIndex + bound) x
         in if (case x of None \<Rightarrow> False
                | Some x \<Rightarrow> x \<ge> int (length actual) \<and> x - diagonalIndex \<ge> int (length expected))
            then (True, v)
            else diag_loop c actual expected bound diffLevel (diagonalIndex + 2) v)
      else (False, v))"
  by auto
termination by (relation "measure (\<lambda>(c, a, e, m, d, k, v). nat (d + 2 - k))") auto

subsection \<open>The way back\<close>

definition ends_with_comma :: "jsstring option \<Rightarrow> bool" where
  "ends_with_comma l = (case l of None \<Rightarrow> False | Some s \<Rightarrow> s \<noteq> [] \<and> [last s] = js '','')"

definition nop_value :: "bool \<Rightarrow> jsstring option \<Rightarrow> jsstring option \<Rightarrow> jsstring option" where
  "nop_value c actualItem expectedItem =
     (if c \<and> \<not> ends_with_comma actualItem then expectedItem else actualItem)"

function nop_loop ::
  "bool \<Rightarrow> jsstring list \<Rightarrow> jsstring list \<Rightarrow> int option \<Rightarrow> int option \<Rightarrow> int \<Rightarrow> int \<Rightarrow> diff_entry list \<Rightarrow>
     int \<times> int \<times> diff_entry list" where
  "nop_loop c actual expected prevX prevY x y result =
     (if less_than prevX (Some x) \<and> less_than prevY (Some y)
      then nop_loop c actual expected prevX prevY (x - 1) (y - 1)
             (result @ [(NOP, nop_value c (item actual (x - 1)) (item expected (y - 1)))])
      else (x, y, result))"
  by auto
termination
  by (relation "measure (\<lambda>(c, a, e, px, py, x, y, r). nat (x - the px))")
    (auto simp: less_than_def split: option.splits)

definition back_step ::
  "bool \<Rightarrow> jsstring list \<Rightarrow> jsstring list \<Rightarrow> int \<Rightarrow> int list \<Rightarrow> int \<Rightarrow> int \<times> int \<times> diff_entry list \<Rightarrow>
     int \<times> int \<times> diff_entry list" where
  "back_step c actual expected bound v diffLevel s =
     (case s of (x, y, result) \<Rightarrow>
       let diagonalIndex = x - y;
           offset = diagonalIndex + bound;
           prevDiagonalIndex =
             (if diagonalIndex = - diffLevel \<or>
                 (diagonalIndex \<noteq> diffLevel \<and> less_than (item v (offset - 1)) (item v (offset + 1)))
              then diagonalIndex + 1 else diagonalIndex - 1);
           prevX = item v (prevDiagonalIndex + bound);
           prevY = map_option (\<lambda>p. p - prevDiagonalIndex) prevX
       in case nop_loop c actual expected prevX prevY x y result of
            (x, y, result) \<Rightarrow>
              if diffLevel > 0 then
                (if less_than prevX (Some x) then (x - 1, y, result @ [(INSERT, item actual (x - 1))])
                 else (x, y - 1, result @ [(DELETE, item expected (y - 1))]))
              else (x, y, result))"

fun back_loop ::
  "bool \<Rightarrow> jsstring list \<Rightarrow> jsstring list \<Rightarrow> int \<Rightarrow> int list list \<Rightarrow> nat \<Rightarrow> int \<times> int \<times> diff_entry list \<Rightarrow>
     int \<times> int \<times> diff_entry list" where
  "back_loop c actual expected bound trace 0 s = s"
| "back_loop c actual expected bound trace (Suc diffLevel) s =
     back_loop c actual expected bound trace diffLevel
       (back_step c actual expected bound (trace ! diffLevel) (int diffLevel) s)"

definition backtrack :: "bool \<Rightarrow> int list list \<Rightarrow> jsstring list \<Rightarrow> jsstring list \<Rightarrow> diff_entry list" where
  "backtrack c trace actual expected =
     snd (snd (back_loop c actual expected (int (length actual) + int (length expected)) trace (length trace)
       (int (length actual), int (length expected), [])))"

text \<open>The levels; a function that ends without a return answers \<^verbatim>\<open>undefined\<close>, \<open>None\<close>.\<close>

function level_loop ::
  "bool \<Rightarrow> jsstring list \<Rightarrow> jsstring list \<Rightarrow> int \<Rightarrow> int \<Rightarrow> int list \<Rightarrow> int list list \<Rightarrow> diff_entry list option" where
  "level_loop c actual expected bound diffLevel v trace =
     (if diffLevel \<le> bound then
        (let trace = trace @ [v];
             (found, v) = diag_loop c actual expected bound diffLevel (- diffLevel) v
         in if found then Some (backtrack c trace actual expected)
            else level_loop c actual expected bound (diffLevel + 1) v trace)
      else None)"
  by auto
termination by (relation "measure (\<lambda>(c, a, e, m, d, v, t). nat (m + 1 - d))") auto

definition myersDiff :: "jsstring list \<Rightarrow> jsstring list \<Rightarrow> bool \<Rightarrow> diff_entry list option result" where
  "myersDiff actual expected checkCommaDisparity =
     (let bound = int (length actual) + int (length expected)
      in if bound > 2 ^ 31 - 1 then Inl (ERR_OUT_OF_RANGE ''myersDiff input size'' (BelowPower 31))
         else Inr (level_loop checkCommaDisparity actual expected bound 0 (replicate (nat (2 * bound + 1)) 0) []))"

declare slide.simps [simp del] diag_loop.simps [simp del] nop_loop.simps [simp del] level_loop.simps [simp del]

subsection \<open>util.diff\<close>

text \<open>The values \<^verbatim>\<open>diff\<close> is given; an array has an identity.\<close>

datatype diff_arg = DArray nat "jsval list" | DValue jsval

fun strings_from :: "jsval list \<Rightarrow> nat \<Rightarrow> string \<Rightarrow> jsstring list result" where
  "strings_from [] i name = Inr []"
| "strings_from (x # xs) i name =
     (case x of
        JStr s \<Rightarrow> bind (strings_from xs (i + 1) name) (\<lambda>ss. Inr (s # ss))
      | _ \<Rightarrow> Inl (ERR_INVALID_ARG_TYPE (name @ ''['' @ dec i @ '']'') ''string''))"

definition validateStringArray :: "jsval list \<Rightarrow> string \<Rightarrow> jsstring list result" where
  "validateStringArray xs name = strings_from xs 0 name"

text \<open>The lines of a valid argument; those of a string are its code units.\<close>

definition validateInput :: "diff_arg \<Rightarrow> string \<Rightarrow> jsstring list result" where
  "validateInput a name =
     (case a of
        DArray _ xs \<Rightarrow> validateStringArray xs name
      | DValue v \<Rightarrow> bind (validateString v name) (\<lambda>s. Inr (map (\<lambda>c. [c]) s)))"

definition strictly_equal :: "diff_arg \<Rightarrow> diff_arg \<Rightarrow> bool" where
  "strictly_equal a b \<longleftrightarrow>
     (case (a, b) of
        (DArray i _, DArray j _) \<Rightarrow> i = j
      | (DValue v, DValue w) \<Rightarrow> v = w \<and> v \<noteq> JNum NaN
      | _ \<Rightarrow> False)"

definition diff :: "diff_arg \<Rightarrow> diff_arg \<Rightarrow> diff_entry list result" where
  "diff actual expected =
     (if strictly_equal actual expected then Inr []
      else
        bind (validateInput actual ''actual'') (\<lambda>a.
        bind (validateInput expected ''expected'') (\<lambda>e.
        bind (myersDiff a e False) (\<lambda>d.
          case d of
            None \<Rightarrow> Inl (TypeError ''Array.prototype.reverse called on null or undefined'')
          | Some es \<Rightarrow> Inr (rev es)))))"

end
