(* ===== verification/MyersPaths.thy ===== *)
theory MyersPaths
  imports MyersDiff
begin

text \<open>
  The furthest points of the edit graph, without arrays: \<open>furthest d k\<close> is the \<open>x\<close> that level \<open>d\<close> of the
  search reaches on diagonal \<open>k\<close>. It may lie outside the graph; the lemmas show that the search ends at
  the far corner all the same, within its levels, and at the least level of any path.
\<close>

lemma slide_ge: "x \<le> slide N M E x y"
proof (induction N M E x y rule: slide.induct)
  case (1 N M E x y)
  then show ?case by (subst slide.simps) (auto intro: order_trans [of x "x + 1"])
qed

lemma slide_path: "x \<le> i \<Longrightarrow> i < slide N M E x y \<Longrightarrow> i < N \<and> i + (y - x) < M \<and> E i (i + (y - x))"
proof (induction N M E x y rule: slide.induct)
  case (1 N M E x y)
  show ?case
  proof (cases "x < N \<and> y < M \<and> E x y")
    case True
    then have s: "slide N M E x y = slide N M E (x + 1) (y + 1)" by (subst slide.simps) simp
    show ?thesis
    proof (cases "i = x")
      case False
      then have "i < N \<and> i + (y + 1 - (x + 1)) < M \<and> E i (i + (y + 1 - (x + 1)))"
        using 1 True s by (intro "1.IH") auto
      then show ?thesis by simp
    qed (use True in simp)
  next
    case False
    then have "slide N M E x y = x" by (subst slide.simps) auto
    then show ?thesis using 1 by simp
  qed
qed

lemma slide_le: "slide N M E x y \<le> max x N"
proof (cases "slide N M E x y = x")
  case False
  then have "x < slide N M E x y" using slide_ge [of x N M E y] by simp
  then show ?thesis using slide_path [of x "slide N M E x y - 1" N M E y] by simp
qed simp

lemma slide_below: "slide N M E x y + (y - x) \<le> max y M"
proof (cases "slide N M E x y = x")
  case False
  then have "x < slide N M E x y" using slide_ge [of x N M E y] by simp
  then show ?thesis using slide_path [of x "slide N M E x y - 1" N M E y] by simp
qed simp

lemma slide_stops: "slide N M E x y < N \<Longrightarrow> slide N M E x y + (y - x) < M \<Longrightarrow>
    \<not> E (slide N M E x y) (slide N M E x y + (y - x))"
proof (induction N M E x y rule: slide.induct)
  case (1 N M E x y)
  show ?case
  proof (cases "x < N \<and> y < M \<and> E x y")
    case True
    then have s: "slide N M E x y = slide N M E (x + 1) (y + 1)" by (subst slide.simps) simp
    show ?thesis using 1 True by (simp add: s)
  next
    case False
    then have "slide N M E x y = x" by (subst slide.simps) auto
    then show ?thesis using 1 False by simp
  qed
qed

primrec furthest :: "int \<Rightarrow> int \<Rightarrow> (int \<Rightarrow> int \<Rightarrow> bool) \<Rightarrow> nat \<Rightarrow> int \<Rightarrow> int" where
  "furthest N M E 0 k = slide N M E 0 0"
| "furthest N M E (Suc d) k =
     (let x = (if k = - int (Suc d) \<or> (k \<noteq> int (Suc d) \<and> furthest N M E d (k - 1) < furthest N M E d (k + 1))
               then furthest N M E d (k + 1) else furthest N M E d (k - 1) + 1)
      in slide N M E x (x - k))"

declare furthest.simps(2) [simp del]

definition diagonal :: "nat \<Rightarrow> int \<Rightarrow> bool" where
  "diagonal d k \<longleftrightarrow> - int d \<le> k \<and> k \<le> int d \<and> even (k - int d)"

lemma diagonal_0 [simp]: "diagonal 0 k \<longleftrightarrow> k = 0"
  by (auto simp: diagonal_def)

lemma diagonal_Suc:
  assumes "diagonal (Suc d) k"
  shows "k \<noteq> - int (Suc d) \<Longrightarrow> diagonal d (k - 1)" "k \<noteq> int (Suc d) \<Longrightarrow> diagonal d (k + 1)"
proof -
  obtain m where m: "k - int (Suc d) = 2 * m" using assms unfolding diagonal_def by (blast elim: evenE)
  have b: "- int (Suc d) \<le> k" "k \<le> int (Suc d)" using assms by (simp_all add: diagonal_def)
  have e: "even (k - 1 - int d)" "even (k + 1 - int d)"
    using m by (simp_all add: algebra_simps)
  show "diagonal d (k - 1)" if "k \<noteq> - int (Suc d)"
  proof -
    have "k \<noteq> - int d" using e(1) by auto
    then show ?thesis using that b e(1) by (simp add: diagonal_def)
  qed
  show "diagonal d (k + 1)" if "k \<noteq> int (Suc d)"
  proof -
    have "k \<noteq> int d" using e(2) by auto
    then show ?thesis using that b e(2) by (simp add: diagonal_def)
  qed
qed

lemma diagonal_neighbours: "diagonal d k \<Longrightarrow> diagonal (Suc d) (k - 1)" "diagonal d k \<Longrightarrow> diagonal (Suc d) (k + 1)"
  by (auto simp: diagonal_def)

locale edit_graph =
  fixes N M :: int and E :: "int \<Rightarrow> int \<Rightarrow> bool"
  assumes sizes: "0 \<le> N" "0 \<le> M"
begin

abbreviation "F \<equiv> furthest N M E"

text \<open>The end is reached.\<close>

abbreviation "success d k \<equiv> diagonal d k \<and> N \<le> F d k \<and> M \<le> F d k - k"

lemma F_Suc_cases:
  assumes "diagonal (Suc d) k"
  obtains (down) x where "x = F d (k + 1)" "diagonal d (k + 1)" "F (Suc d) k = slide N M E x (x - k)"
      "k \<noteq> - int (Suc d) \<Longrightarrow> F d (k - 1) + 1 \<le> x"
    | (right) x where "x = F d (k - 1) + 1" "diagonal d (k - 1)" "F (Suc d) k = slide N M E x (x - k)"
      "k \<noteq> int (Suc d) \<Longrightarrow> F d (k + 1) \<le> x"
proof (cases "k = - int (Suc d) \<or> (k \<noteq> int (Suc d) \<and> F d (k - 1) < F d (k + 1))")
  case True
  then have "k \<noteq> int (Suc d)" by auto
  then show thesis
    using True diagonal_Suc [OF assms] by (intro down) (auto simp: furthest.simps(2) Let_def)
next
  case False
  then show thesis
    using diagonal_Suc [OF assms] by (intro right) (auto simp: furthest.simps(2) Let_def)
qed

lemma F_right: "diagonal d k \<Longrightarrow> F d k + 1 \<le> F (Suc d) (k + 1)"
proof -
  assume d: "diagonal d k"
  show ?thesis
  proof (cases rule: F_Suc_cases [OF diagonal_neighbours(2) [OF d]])
    case (1 x)
    have "k + 1 \<noteq> - int (Suc d)" using d by (simp add: diagonal_def)
    then show ?thesis using 1(1,3,4) slide_ge [of x N M E "x - (k + 1)"] by simp
  next
    case (2 x)
    then show ?thesis using slide_ge [of x N M E "x - (k + 1)"] by simp
  qed
qed

lemma F_down: "diagonal d k \<Longrightarrow> F d k \<le> F (Suc d) (k - 1)"
proof -
  assume d: "diagonal d k"
  show ?thesis
  proof (cases rule: F_Suc_cases [OF diagonal_neighbours(1) [OF d]])
    case (1 x)
    then show ?thesis using slide_ge [of x N M E "x - (k - 1)"] by simp
  next
    case (2 x)
    have "k - 1 \<noteq> int (Suc d)" using d by (simp add: diagonal_def)
    then show ?thesis using 2(1,3,4) slide_ge [of x N M E "x - (k - 1)"] by simp
  qed
qed

lemma F_lower: "diagonal d k \<Longrightarrow> 0 \<le> F d k \<and> k \<le> F d k"
proof (induction d arbitrary: k)
  case 0
  then show ?case using slide_ge [of 0 N M E 0] by simp
next
  case (Suc d)
  then show ?case
  proof (cases rule: F_Suc_cases [OF Suc.prems])
    case (1 x)
    then show ?thesis using Suc.IH [of "k + 1"] slide_ge [of x N M E "x - k"] by simp
  next
    case (2 x)
    then show ?thesis using Suc.IH [of "k - 1"] slide_ge [of x N M E "x - k"] by simp
  qed
qed

lemma F_downs: "diagonal d k \<Longrightarrow> F d k \<le> F (d + i) (k - int i) \<and> diagonal (d + i) (k - int i)"
proof (induction i)
  case (Suc i)
  then have i: "F d k \<le> F (d + i) (k - int i)" "diagonal (d + i) (k - int i)" by simp_all
  have eq: "k - int (Suc i) = k - int i - 1" by simp
  show ?case unfolding eq add_Suc_right using F_down [OF i(2)] i(1) diagonal_neighbours(1) [OF i(2)] by simp
qed simp

lemma F_rights: "int d \<le> F d (int d) \<and> diagonal d (int d)"
proof (induction d)
  case 0
  then show ?case using slide_ge [of 0 N M E 0] by simp
next
  case (Suc d)
  then show ?case using F_right [of d "int d"] diagonal_neighbours(2) [of d "int d"] by (simp add: add.commute)
qed

text \<open>From the right edge the end is as far as it is down, and from the lower edge as it is right.\<close>

lemma success_down:
  assumes "diagonal d k" "N \<le> F d k"
  shows "\<exists>e k'. success e k' \<and> int e = int d + max 0 (M - (F d k - k))"
proof -
  define i where "i = nat (M - (F d k - k))"
  have "success (d + i) (k - int i)"
    using F_downs [OF assms(1), of i] assms(2) by (auto simp: i_def)
  moreover have "int (d + i) = int d + max 0 (M - (F d k - k))" by (simp add: i_def)
  ultimately show ?thesis by blast
qed

lemma success_within: "\<exists>e k. success e k \<and> int e \<le> N + M"
proof -
  have d: "int (nat N) \<le> F (nat N) (int (nat N))" "diagonal (nat N) (int (nat N))"
    using F_rights [of "nat N"] by blast+
  then obtain e k where e: "success e k" "int e = int (nat N) + max 0 (M - (F (nat N) (int (nat N)) - int (nat N)))"
    using success_down [OF d(2)] sizes by auto
  then have "int e \<le> N + M" using d(1) sizes by simp
  then show ?thesis using e(1) by blast
qed

text \<open>A point beyond the right edge by \<open>a\<close> shows that the end was reached \<open>a\<close> levels earlier, and so below.\<close>

lemma beyond_right:
  "diagonal d k \<Longrightarrow> N + int a \<le> F d k \<Longrightarrow> \<exists>e k'. success e k' \<and> int e + int a \<le> int d + max 0 (M - (F d k - k))"
proof (induction d arbitrary: k a)
  case 0
  then have "a = 0" using slide_le [of N M E 0 0] sizes by simp
  then show ?case using success_down [of 0 k] 0 by force
next
  case (Suc d)
  show ?case
  proof (cases a)
    case 0
    then show ?thesis using success_down [OF Suc.prems(1)] Suc.prems(2) by force
  next
    case (Suc b)
    have out: "F (Suc d) k > N" using Suc.prems(2) Suc by simp
    have still: "F (Suc d) k = x" if "F (Suc d) k = slide N M E x (x - k)" for x
    proof -
      have "\<not> x < F (Suc d) k"
        using that out slide_le [of N M E x "x - k"] slide_path [of x x N M E "x - k"] by auto
      then show ?thesis using that slide_ge [of x N M E "x - k"] by simp
    qed
    show ?thesis
    proof (cases rule: F_Suc_cases [OF Suc.prems(1)])
      case (1 x)
      have x: "F (Suc d) k = F d (k + 1)" using still [OF 1(3)] 1(1) by (rule trans)
      have "N + int a \<le> F d (k + 1)" using Suc.prems(2) x by simp
      from Suc.IH [OF 1(2) this] obtain e k'
        where e: "success e k'" "int e + int a \<le> int d + max 0 (M - (F d (k + 1) - (k + 1)))" by blast
      have "int e + int a \<le> int (Suc d) + max 0 (M - (F (Suc d) k - k))" using e(2) unfolding x by simp
      then show ?thesis using e(1) by blast
    next
      case (2 x)
      have x: "F (Suc d) k = F d (k - 1) + 1" using still [OF 2(3)] 2(1) by (rule trans)
      have "N + int b \<le> F d (k - 1)" using Suc.prems(2) x Suc by simp
      from Suc.IH [OF 2(2) this] obtain e k'
        where e: "success e k'" "int e + int b \<le> int d + max 0 (M - (F d (k - 1) - (k - 1)))" by blast
      have "int e + int a \<le> int (Suc d) + max 0 (M - (F (Suc d) k - k))" using e(2) unfolding x Suc by simp
      then show ?thesis using e(1) by blast
    qed
  qed
qed

lemma F_rights_from: "diagonal d k \<Longrightarrow> F d k + int i \<le> F (d + i) (k + int i) \<and> diagonal (d + i) (k + int i)"
proof (induction i)
  case (Suc i)
  then have i: "F d k + int i \<le> F (d + i) (k + int i)" "diagonal (d + i) (k + int i)" by simp_all
  have eq: "k + int (Suc i) = k + int i + 1" by simp
  show ?case unfolding eq add_Suc_right using F_right [OF i(2)] i(1) diagonal_neighbours(2) [OF i(2)] by simp
qed simp

lemma success_right:
  assumes "diagonal d k" "M \<le> F d k - k"
  shows "\<exists>e k'. success e k' \<and> int e = int d + max 0 (N - F d k)"
proof -
  define i where "i = nat (N - F d k)"
  have "success (d + i) (k + int i)"
    using F_rights_from [OF assms(1), of i] assms(2) by (auto simp: i_def)
  moreover have "int (d + i) = int d + max 0 (N - F d k)" by (simp add: i_def)
  ultimately show ?thesis by blast
qed

lemma beyond_below:
  "diagonal d k \<Longrightarrow> M + int a \<le> F d k - k \<Longrightarrow> \<exists>e k'. success e k' \<and> int e + int a \<le> int d + max 0 (N - F d k)"
proof (induction d arbitrary: k a)
  case 0
  then have "a = 0" using slide_below [of N M E 0 0] sizes by simp
  then show ?case using success_right [of 0 k] 0 by force
next
  case (Suc d)
  show ?case
  proof (cases a)
    case 0
    then show ?thesis using success_right [OF Suc.prems(1)] Suc.prems(2) by force
  next
    case (Suc b)
    have out: "F (Suc d) k - k > M" using Suc.prems(2) Suc by simp
    have still: "F (Suc d) k = x" if "F (Suc d) k = slide N M E x (x - k)" for x
    proof -
      have "\<not> x < F (Suc d) k"
        using that out slide_below [of N M E x "x - k"] slide_path [of x x N M E "x - k"] by auto
      then show ?thesis using that slide_ge [of x N M E "x - k"] by simp
    qed
    show ?thesis
    proof (cases rule: F_Suc_cases [OF Suc.prems(1)])
      case (1 x)
      have x: "F (Suc d) k = F d (k + 1)" using still [OF 1(3)] 1(1) by (rule trans)
      have "M + int b \<le> F d (k + 1) - (k + 1)" using Suc.prems(2) x Suc by simp
      from Suc.IH [OF 1(2) this] obtain e k'
        where e: "success e k'" "int e + int b \<le> int d + max 0 (N - F d (k + 1))" by blast
      have "int e + int a \<le> int (Suc d) + max 0 (N - F (Suc d) k)" using e(2) unfolding x Suc by simp
      then show ?thesis using e(1) by blast
    next
      case (2 x)
      have x: "F (Suc d) k = F d (k - 1) + 1" using still [OF 2(3)] 2(1) by (rule trans)
      have "M + int a \<le> F d (k - 1) - (k - 1)" using Suc.prems(2) x by simp
      from Suc.IH [OF 2(2) this] obtain e k'
        where e: "success e k'" "int e + int a \<le> int d + max 0 (N - F d (k - 1))" by blast
      have "int e + int a \<le> int (Suc d) + max 0 (N - F (Suc d) k)" using e(2) unfolding x by simp
      then show ?thesis using e(1) by blast
    qed
  qed
qed

text \<open>So the search ends in the corner and its values stay within the array's numbers.\<close>

lemma first_success:
  assumes "success d k" "\<And>e k'. e < d \<Longrightarrow> \<not> success e k'"
  shows "F d k = N" "k = N - M"
proof -
  have least: "int d \<le> int e" if "success e k'" for e k' using assms(2) [of e k'] that by fastforce
  have "\<not> N + int 1 \<le> F d k"
  proof
    assume "N + int 1 \<le> F d k"
    with beyond_right [of d k 1] assms(1) obtain e k' where "success e k'" "int e + 1 \<le> int d" by auto
    then show False using least by force
  qed
  moreover have "\<not> M + int 1 \<le> F d k - k"
  proof
    assume "M + int 1 \<le> F d k - k"
    with beyond_below [of d k 1] assms(1) obtain e k' where "success e k'" "int e + 1 \<le> int d" by auto
    then show False using least by force
  qed
  ultimately show "F d k = N" "k = N - M" using assms(1) by auto
qed

lemma F_upper:
  assumes "diagonal d k" "\<And>e k'. e < d \<Longrightarrow> \<not> success e k'"
  shows "F d k \<le> N + M"
proof (rule ccontr)
  assume out: "\<not> F d k \<le> N + M"
  define a where "a = nat (F d k - N)"
  have "N + int a \<le> F d k" "M < int a" using out sizes by (auto simp: a_def)
  with beyond_right [OF assms(1)] obtain e k'
    where e: "success e k'" "int e + int a \<le> int d + max 0 (M - (F d k - k))" by blast
  then have "int e < int d" using \<open>M < int a\<close> F_lower [OF assms(1)] sizes by auto
  then show False using assms(2) [of e k'] e(1) by simp
qed

text \<open>No path is shorter: \<open>reached e x y\<close> holds of every point on a path with \<open>e\<close> edits.\<close>

abbreviation "reached e x y \<equiv> diagonal e (x - y) \<and> x \<le> F e (x - y)"

lemma F_stops: "diagonal d k \<Longrightarrow> F d k < N \<Longrightarrow> F d k - k < M \<Longrightarrow> \<not> E (F d k) (F d k - k)"
proof (cases d)
  case 0
  then show "diagonal d k \<Longrightarrow> F d k < N \<Longrightarrow> F d k - k < M \<Longrightarrow> \<not> E (F d k) (F d k - k)"
    using slide_stops [of N M E 0 0] by simp
next
  case (Suc n)
  obtain x where "F d k = slide N M E x (x - k)" by (simp add: Suc furthest.simps(2) Let_def)
  then show "diagonal d k \<Longrightarrow> F d k < N \<Longrightarrow> F d k - k < M \<Longrightarrow> \<not> E (F d k) (F d k - k)"
    using slide_stops [of N M E x "x - k"] by simp
qed

lemma reached_start: "reached 0 0 0"
  using slide_ge [of 0 N M E 0] by simp

lemma reached_nop:
  assumes "reached e x y" "x < N" "y < M" "E x y"
  shows "reached e (x + 1) (y + 1)"
proof -
  have "x \<noteq> F e (x - y)" using F_stops [of e "x - y"] assms by auto
  then show ?thesis using assms(1) by simp
qed

lemma reached_right: "reached e x y \<Longrightarrow> reached (Suc e) (x + 1) y"
  using F_right [of e "x - y"] diagonal_neighbours(2) [of e "x - y"] by (simp add: algebra_simps)

lemma reached_down: "reached e x y \<Longrightarrow> reached (Suc e) x (y + 1)"
  using F_down [of e "x - y"] diagonal_neighbours(1) [of e "x - y"] by (simp add: algebra_simps)

lemma reached_end: "reached e N M \<Longrightarrow> success e (N - M)"
  by simp

end

end
