(* ===== verification/MyersProps.thy ===== *)
theory MyersProps
  imports MyersPaths
begin

text \<open>
  The arrays of \<^verbatim>\<open>myersDiff\<close> hold the furthest points of \<open>MyersPaths\<close>, so the search ends at the first
  level that reaches the corner, and the way back through the saved arrays is a path with that many
  edits. \<open>aligned\<close> says that a list of entries turns one list of lines into the other.
\<close>

fun aligned :: "bool \<Rightarrow> diff_entry list \<Rightarrow> jsstring list \<Rightarrow> jsstring list \<Rightarrow> bool" where
  "aligned c [] as bs \<longleftrightarrow> as = [] \<and> bs = []"
| "aligned c ((NOP, v) # es) (x # as) (y # bs) \<longleftrightarrow>
     areLinesEqual c (Some x) (Some y) \<and> v = nop_value c (Some x) (Some y) \<and> aligned c es as bs"
| "aligned c ((INSERT, v) # es) (x # as) bs \<longleftrightarrow> v = Some x \<and> aligned c es as bs"
| "aligned c ((DELETE, v) # es) as (y # bs) \<longleftrightarrow> v = Some y \<and> aligned c es as bs"
| "aligned c (_ # es) as bs \<longleftrightarrow> False"

definition edits :: "diff_entry list \<Rightarrow> nat" where
  "edits es = length (filter (\<lambda>e. fst e \<noteq> NOP) es)"

lemma edits_simps [simp]:
  "edits [] = 0" "edits (e # es) = (if fst e = NOP then edits es else Suc (edits es))"
  "edits (es @ fs) = edits es + edits fs" "edits (rev es) = edits es"
  by (simp_all add: edits_def rev_filter [symmetric])

lemma aligned_append: "aligned c es as bs \<Longrightarrow> aligned c fs xs ys \<Longrightarrow> aligned c (es @ fs) (as @ xs) (bs @ ys)"
  by (induction c es as bs rule: aligned.induct) auto

subsection \<open>Arrays\<close>

interpretation g: edit_graph "int (length a)" "int (length b)" "same_line c a b" for a b c
  by unfold_locales simp_all

abbreviation reach :: "bool \<Rightarrow> jsstring list \<Rightarrow> jsstring list \<Rightarrow> nat \<Rightarrow> int \<Rightarrow> int" where
  "reach c a b \<equiv> furthest (int (length a)) (int (length b)) (same_line c a b)"

definition corner :: "bool \<Rightarrow> jsstring list \<Rightarrow> jsstring list \<Rightarrow> nat \<Rightarrow> int \<Rightarrow> bool" where
  "corner c a b d k \<longleftrightarrow> diagonal d k \<and> int (length a) \<le> reach c a b d k \<and> int (length b) \<le> reach c a b d k - k"

definition size_of :: "jsstring list \<Rightarrow> jsstring list \<Rightarrow> int" where
  "size_of a b = int (length a) + int (length b)"

definition holds :: "bool \<Rightarrow> jsstring list \<Rightarrow> jsstring list \<Rightarrow> nat \<Rightarrow> int list \<Rightarrow> bool" where
  "holds c a b d v \<longleftrightarrow> (\<forall>k. diagonal d k \<longrightarrow> item v (k + size_of a b) = Some (reach c a b d k))"

lemma toInt32_id: "0 \<le> x \<Longrightarrow> x < 2 ^ 31 \<Longrightarrow> toInt32 (Some x) = x"
  by (simp add: toInt32_def sint_sbintrunc' signed_take_bit_int_eq_self)

lemma item_store: "0 \<le> i \<Longrightarrow> i < int (length v) \<Longrightarrow> item (store32 v i x) j = (if j = i then Some (toInt32 x) else item v j)"
  by (auto simp: item_def store32_def nat_eq_iff)

lemma length_store [simp]: "length (store32 v i x) = length v"
  by (simp add: store32_def)

lemma diag_step_level:
  assumes "diagonal (Suc d) k" "holds c a b d v"
  shows "diag_step c a b (size_of a b) (int (Suc d)) k v = Some (reach c a b (Suc d) k)"
proof -
  have prev: "item v (k + size_of a b - 1) = Some (reach c a b d (k - 1))" if "k \<noteq> - int (Suc d)"
    using assms(2) diagonal_Suc(1) [OF assms(1) that] unfolding holds_def by (auto simp: algebra_simps)
  have nxt: "item v (k + size_of a b + 1) = Some (reach c a b d (k + 1))" if "k \<noteq> int (Suc d)"
    using assms(2) diagonal_Suc(2) [OF assms(1) that] unfolding holds_def by (auto simp: algebra_simps)
  consider "k = - int (Suc d)" | "k = int (Suc d)" | "k \<noteq> - int (Suc d)" "k \<noteq> int (Suc d)" by blast
  then show ?thesis
  proof cases
    case 1
    then have "k \<noteq> int (Suc d)" by simp
    then show ?thesis using nxt 1 by (simp add: diag_step_def furthest.simps(2) Let_def)
  next
    case 2
    then have "k \<noteq> - int (Suc d)" by simp
    then show ?thesis using prev 2 by (simp add: diag_step_def furthest.simps(2) Let_def)
  next
    case 3
    then show ?thesis using nxt prev by (simp add: diag_step_def furthest.simps(2) Let_def less_than_def)
  qed
qed

text \<open>The array at the start of a level.\<close>

definition ready :: "bool \<Rightarrow> jsstring list \<Rightarrow> jsstring list \<Rightarrow> nat \<Rightarrow> int list \<Rightarrow> bool" where
  "ready c a b d v \<longleftrightarrow> length v = nat (2 * size_of a b + 1) \<and>
     (case d of 0 \<Rightarrow> item v (size_of a b + 1) = Some 0 | Suc e \<Rightarrow> holds c a b e v)"

lemma diag_step_ready:
  assumes "diagonal d k" "ready c a b d v"
  shows "diag_step c a b (size_of a b) (int d) k v = Some (reach c a b d k)"
proof (cases d)
  case 0
  then show ?thesis using assms by (simp add: ready_def diag_step_def)
next
  case (Suc e)
  then show ?thesis using assms diag_step_level [of e k c a b v] by (simp add: ready_def)
qed

lemma ready_store:
  assumes "ready c a b d v" "diagonal d k" "int d \<le> size_of a b"
  shows "ready c a b d (store32 v (k + size_of a b) x)"
proof -
  have k: "0 \<le> k + size_of a b" "k + size_of a b < int (length v)"
    using assms by (auto simp: ready_def diagonal_def)
  show ?thesis
  proof (cases d)
    case 0
    then show ?thesis using assms k by (simp add: ready_def item_store)
  next
    case (Suc e)
    have "j \<noteq> k" if "diagonal e j" for j using that assms(2) Suc by (auto simp: diagonal_def)
    then show ?thesis using assms k Suc by (auto simp: ready_def holds_def item_store)
  qed
qed

subsection \<open>Levels\<close>

definition no_corner :: "bool \<Rightarrow> jsstring list \<Rightarrow> jsstring list \<Rightarrow> nat \<Rightarrow> bool" where
  "no_corner c a b d \<longleftrightarrow> (\<forall>e < d. \<forall>k. \<not> corner c a b e k)"

lemma reach_bounds:
  assumes "diagonal d k" "no_corner c a b d"
  shows "0 \<le> reach c a b d k" "k \<le> reach c a b d k" "reach c a b d k \<le> size_of a b"
  using g.F_lower [of d k a b c] g.F_upper [of d k a b c] assms by (auto simp: no_corner_def corner_def size_of_def)

lemma diag_loop_level:
  assumes "ready c a b d v" "int d \<le> size_of a b" "size_of a b < 2 ^ 31" "no_corner c a b d"
    "even (k - int d)" "- int d \<le> k" "k \<le> int d + 2"
    "\<And>j. diagonal d j \<Longrightarrow> j < k \<Longrightarrow> \<not> corner c a b d j \<and> item v (j + size_of a b) = Some (reach c a b d j)"
  shows "\<exists>v'. diag_loop c a b (size_of a b) (int d) k v = (\<exists>j. corner c a b d j, v') \<and>
    ((\<forall>j. \<not> corner c a b d j) \<longrightarrow> ready c a b (Suc d) v')"
  using assms
proof (induction "nat (int d + 2 - k)" arbitrary: k v rule: less_induct)
  case less
  show ?case
  proof (cases "k \<le> int d")
    case False
    then have all: "j < k" if "diagonal d j" for j using that by (simp add: diagonal_def)
    have none: "\<not> corner c a b d j" for j using less.prems(8) [of j] all [of j] by (auto simp: corner_def)
    have "holds c a b d v" using less.prems(8) all by (simp add: holds_def)
    then have "ready c a b (Suc d) v" using less.prems(1) by (simp add: ready_def)
    moreover have "diag_loop c a b (size_of a b) (int d) k v = (False, v)"
      using False by (subst diag_loop.simps) simp
    ultimately show ?thesis using none by auto
  next
    case True
    have dk: "diagonal d k" using True less.prems(5,6) by (simp add: diagonal_def)
    let ?v = "store32 v (k + size_of a b) (Some (reach c a b d k))"
    have step: "diag_step c a b (size_of a b) (int d) k v = Some (reach c a b d k)"
      by (rule diag_step_ready [OF dk less.prems(1)])
    have pos: "0 \<le> k + size_of a b" "k + size_of a b < int (length v)"
      using dk less.prems(1,2) by (auto simp: ready_def diagonal_def)
    have value_ok: "toInt32 (Some (reach c a b d k)) = reach c a b d k"
      using reach_bounds [OF dk less.prems(4)] less.prems(3) by (intro toInt32_id) auto
    show ?thesis
    proof (cases "corner c a b d k")
      case found: True
      then have "diag_loop c a b (size_of a b) (int d) k v = (True, ?v)"
        using True step by (subst diag_loop.simps) (simp add: corner_def Let_def)
      then show ?thesis using found by auto
    next
      case False
      then have next_k: "diag_loop c a b (size_of a b) (int d) k v = diag_loop c a b (size_of a b) (int d) (k + 2) ?v"
        using True step dk by (subst diag_loop.simps) (auto simp: corner_def Let_def)
      have done_k: "\<not> corner c a b d j \<and> item ?v (j + size_of a b) = Some (reach c a b d j)"
        if "diagonal d j" "j < k + 2" for j
      proof (cases "j = k")
        case True
        then show ?thesis using False value_ok pos by (simp add: item_store)
      next
        case j: False
        have "even (j - k)" using that(1) less.prems(5) unfolding diagonal_def by presburger
        then have "j < k" using that(2) j by presburger
        then show ?thesis using less.prems(8) [OF that(1)] pos j by (simp add: item_store)
      qed
      show ?thesis unfolding next_k
        by (rule less.hyps [OF _ ready_store [OF less.prems(1) dk less.prems(2)] less.prems(2-4)])
          (use True less.prems(5,6) done_k in auto)
    qed
  qed
qed

text \<open>The saved arrays of a search that ends at level \<open>D\<close>.\<close>

definition saved :: "bool \<Rightarrow> jsstring list \<Rightarrow> jsstring list \<Rightarrow> int list list \<Rightarrow> bool" where
  "saved c a b trace \<longleftrightarrow> (\<forall>i < length trace. ready c a b i (trace ! i))"

lemma level_loop_ends:
  assumes "ready c a b d v" "saved c a b trace" "length trace = d" "d \<le> D" "int D \<le> size_of a b"
    "size_of a b < 2 ^ 31" "no_corner c a b D" "corner c a b D k"
  shows "\<exists>trace'. level_loop c a b (size_of a b) (int d) v trace = Some (backtrack c trace' a b) \<and>
    saved c a b trace' \<and> length trace' = Suc D"
  using assms
proof (induction "D - d" arbitrary: d v trace)
  case 0
  then have d: "d = D" by simp
  have found: "(\<exists>j. corner c a b d j) = True" using 0(9) d by auto
  have "\<exists>v'. diag_loop c a b (size_of a b) (int d) (- int d) v = (\<exists>j. corner c a b d j, v') \<and>
      ((\<forall>j. \<not> corner c a b d j) \<longrightarrow> ready c a b (Suc d) v')"
    by (rule diag_loop_level [OF 0(2)]) (use 0(6,7,8) d in \<open>auto simp: diagonal_def\<close>)
  then obtain v' where "diag_loop c a b (size_of a b) (int d) (- int d) v = (True, v')"
    unfolding found by blast
  then have "level_loop c a b (size_of a b) (int d) v trace = Some (backtrack c (trace @ [v]) a b)"
    using 0(6) d by (subst level_loop.simps) (simp add: Let_def)
  moreover have "saved c a b (trace @ [v])"
    using 0(2-4) by (auto simp: saved_def nth_append less_Suc_eq)
  ultimately show ?case using 0(4) d by auto
next
  case (Suc n)
  have lt: "d < D" using Suc(2) by simp
  then have none: "\<not> corner c a b d j" for j using Suc(9) by (simp add: no_corner_def)
  have "no_corner c a b d" using Suc(9) lt by (simp add: no_corner_def)
  then obtain v' where v': "diag_loop c a b (size_of a b) (int d) (- int d) v = (False, v')" "ready c a b (Suc d) v'"
    using diag_loop_level [OF Suc(3), of "- int d"] Suc(7,8) lt none by (auto simp: diagonal_def)
  then have "level_loop c a b (size_of a b) (int d) v trace =
      level_loop c a b (size_of a b) (int (Suc d)) v' (trace @ [v])"
    using Suc(7) lt by (subst level_loop.simps) (simp add: Let_def add.commute)
  moreover have "saved c a b (trace @ [v])"
    using Suc(3-5) by (auto simp: saved_def nth_append less_Suc_eq)
  ultimately show ?case
    using Suc(1) [of "Suc d" v' "trace @ [v]"] v'(2) Suc(2,5-10) lt by simp
qed

subsection \<open>The way back\<close>

lemma item_nth: "0 \<le> i \<Longrightarrow> i < int (length xs) \<Longrightarrow> item xs i = Some (xs ! nat i)"
  by (simp add: item_def)

lemma take_next: "0 \<le> i \<Longrightarrow> i < int (length xs) \<Longrightarrow> take (nat (i + 1)) xs = take (nat i) xs @ [xs ! nat i]"
  by (simp add: nat_add_distrib take_Suc_conv_app_nth)

text \<open>Back along a diagonal to the point \<open>x0\<close> where the level entered it.\<close>

lemma nop_loop_back:
  assumes "0 \<le> x0" "0 \<le> x0 - k" "x0 \<le> x" "x \<le> int (length a)" "x - k \<le> int (length b)"
    "px = x0 \<and> py = x0 - k - 1 \<or> px = x0 - 1 \<and> py = x0 - k"
    "\<And>i. x0 \<le> i \<Longrightarrow> i < x \<Longrightarrow> same_line c a b i (i - k)"
  shows "\<exists>es. nop_loop c a b (Some px) (Some py) x (x - k) res = (x0, x0 - k, res @ rev es) \<and> edits es = 0 \<and>
    (\<forall>fs. aligned c fs (take (nat x0) a) (take (nat (x0 - k)) b) \<longrightarrow>
       aligned c (fs @ es) (take (nat x) a) (take (nat (x - k)) b))"
  using assms(3-5,7)
proof (induction "nat (x - x0)" arbitrary: x res)
  case 0
  then have "x = x0" by simp
  then show ?case
    using assms(6) by (intro exI [of _ "[]"]) (subst nop_loop.simps, auto simp: less_than_def)
next
  case (Suc n)
  let ?v = "nop_value c (item a (x - 1)) (item b (x - 1 - k))"
  have x: "x0 \<le> x - 1" using Suc(2) by simp
  have step: "nop_loop c a b (Some px) (Some py) x (x - k) res =
      nop_loop c a b (Some px) (Some py) (x - 1) (x - 1 - k) (res @ [(NOP, ?v)])"
    using assms(6) x by (subst nop_loop.simps) (auto simp: less_than_def algebra_simps)
  have "n = nat (x - 1 - x0)" using Suc(2) by simp
  from Suc(1) [OF this x, of "res @ [(NOP, ?v)]"] Suc(4-6)
  obtain es where es: "nop_loop c a b (Some px) (Some py) (x - 1) (x - 1 - k) (res @ [(NOP, ?v)]) =
      (x0, x0 - k, (res @ [(NOP, ?v)]) @ rev es)" "edits es = 0"
      "\<And>fs. aligned c fs (take (nat x0) a) (take (nat (x0 - k)) b) \<Longrightarrow>
         aligned c (fs @ es) (take (nat (x - 1)) a) (take (nat (x - 1 - k)) b)" by auto
  have ia: "0 \<le> x - 1" "x - 1 < int (length a)" using x assms(1) Suc(4) by auto
  have ib: "0 \<le> x - 1 - k" "x - 1 - k < int (length b)" using x assms(2) Suc(5) by auto
  have "same_line c a b (x - 1) (x - 1 - k)" using Suc(6) [of "x - 1"] x by simp
  then have one: "aligned c [(NOP, ?v)] [a ! nat (x - 1)] [b ! nat (x - 1 - k)]"
    by (simp add: same_line_def item_nth [OF ia] item_nth [OF ib])
  have ta: "take (nat x) a = take (nat (x - 1)) a @ [a ! nat (x - 1)]" using take_next [OF ia] by simp
  have tb: "take (nat (x - k)) b = take (nat (x - 1 - k)) b @ [b ! nat (x - 1 - k)]"
    using take_next [OF ib] by (simp add: algebra_simps)
  have "aligned c (fs @ es @ [(NOP, ?v)]) (take (nat x) a) (take (nat (x - k)) b)"
    if "aligned c fs (take (nat x0) a) (take (nat (x0 - k)) b)" for fs
    using aligned_append [OF es(3) [OF that] one] unfolding ta tb by simp
  then show ?case using es(1,2) by (intro exI [of _ "es @ [(NOP, ?v)]"]) (simp add: step)
qed

lemma slide_back:
  assumes "x = slide (int (length a)) (int (length b)) (same_line c a b) x0 (x0 - k)" "0 \<le> x0" "0 \<le> x0 - k"
    "x \<le> int (length a)" "x - k \<le> int (length b)"
    "px = x0 \<and> py = x0 - k - 1 \<or> px = x0 - 1 \<and> py = x0 - k"
  obtains es where "nop_loop c a b (Some px) (Some py) x (x - k) res = (x0, x0 - k, res @ rev es)" "edits es = 0"
    "\<And>fs. aligned c fs (take (nat x0) a) (take (nat (x0 - k)) b) \<Longrightarrow>
       aligned c (fs @ es) (take (nat x) a) (take (nat (x - k)) b)"
proof -
  have "x0 \<le> x" unfolding assms(1) by (rule slide_ge)
  moreover have "same_line c a b i (i - k)" if "x0 \<le> i" "i < x" for i
    using slide_path [OF that(1) that(2) [unfolded assms(1)]] by simp
  ultimately show thesis using nop_loop_back [OF assms(2,3) _ assms(4-6), of c res] that by blast
qed

lemma back_step_to:
  assumes "x - y = k"
    "j = (if k = - L \<or> (k \<noteq> L \<and> less_than (item v (k + m - 1)) (item v (k + m + 1))) then k + 1 else k - 1)"
    "item v (j + m) = Some p" "nop_loop c a b (Some p) (Some (p - j)) x y res = (x1, y1, r1)" "0 < L"
  shows "back_step c a b m v L (x, y, res) =
    (if p < x1 then (x1 - 1, y1, r1 @ [(INSERT, item a (x1 - 1))]) else (x1, y1 - 1, r1 @ [(DELETE, item b (y1 - 1))]))"
  using assms(4,5)
  unfolding back_step_def Let_def prod.case assms(1) assms(2) [symmetric] assms(3) option.map
  by (simp add: less_than_def)

lemma back_step_level:
  assumes "ready c a b (Suc d) v" "diagonal (Suc d) k" "x = reach c a b (Suc d) k"
    "x \<le> int (length a)" "x - k \<le> int (length b)"
  shows "\<exists>k' es. back_step c a b (size_of a b) v (int (Suc d)) (x, x - k, res) =
      (reach c a b d k', reach c a b d k' - k', res @ rev es) \<and> diagonal d k' \<and> edits es = 1 \<and>
    reach c a b d k' \<le> int (length a) \<and> reach c a b d k' - k' \<le> int (length b) \<and>
    (\<forall>fs. aligned c fs (take (nat (reach c a b d k')) a) (take (nat (reach c a b d k' - k')) b) \<longrightarrow>
       aligned c (fs @ es) (take (nat x) a) (take (nat (x - k)) b))"
proof -
  let ?m = "size_of a b"
  have hold: "item v (j + ?m) = Some (reach c a b d j)" if "diagonal d j" for j
    using assms(1) that by (simp add: ready_def holds_def)
  have prev: "item v (k + ?m - 1) = Some (reach c a b d (k - 1))" if "k \<noteq> - int (Suc d)"
    using hold [OF diagonal_Suc(1) [OF assms(2) that]] by (simp add: algebra_simps)
  have nxt: "item v (k + ?m + 1) = Some (reach c a b d (k + 1))" if "k \<noteq> int (Suc d)"
    using hold [OF diagonal_Suc(2) [OF assms(2) that]] by (simp add: algebra_simps)
  let ?down = "k = - int (Suc d) \<or> (k \<noteq> int (Suc d) \<and> reach c a b d (k - 1) < reach c a b d (k + 1))"
  have cond: "(k = - int (Suc d) \<or> (k \<noteq> int (Suc d) \<and> less_than (item v (k + ?m - 1)) (item v (k + ?m + 1)))) = ?down"
    using prev nxt by (cases "k = - int (Suc d)"; cases "k = int (Suc d)") (auto simp: less_than_def)
  show ?thesis
  proof (cases ?down)
    case True
    define p where "p = reach c a b d (k + 1)"
    have d: "diagonal d (k + 1)" using True by (intro diagonal_Suc(2) [OF assms(2)]) auto
    have low: "0 \<le> p" "k + 1 \<le> p" using g.F_lower [OF d, of a b c] by (simp_all add: p_def)
    have x: "x = slide (int (length a)) (int (length b)) (same_line c a b) p (p - k)"
      using True by (simp add: assms(3) furthest.simps(2) Let_def p_def)
    have px: "p \<le> x" using slide_ge x by blast
    obtain es where es: "nop_loop c a b (Some p) (Some (p - (k + 1))) x (x - k) res = (p, p - k, res @ rev es)"
        "edits es = 0" "\<And>fs. aligned c fs (take (nat p) a) (take (nat (p - k)) b) \<Longrightarrow>
           aligned c (fs @ es) (take (nat x) a) (take (nat (x - k)) b)"
      by (rule slide_back [OF x low(1) _ assms(4,5), of p "p - (k + 1)" res]) (use low in simp_all)
    have ib: "0 \<le> p - (k + 1)" "p - (k + 1) < int (length b)" using low px assms(5) by auto
    have tb: "take (nat (p - k)) b = take (nat (p - (k + 1))) b @ [b ! nat (p - (k + 1))]"
      using take_next [OF ib] by (simp add: algebra_simps)
    have choice: "k + 1 = (if k = - int (Suc d) \<or>
        (k \<noteq> int (Suc d) \<and> less_than (item v (k + ?m - 1)) (item v (k + ?m + 1))) then k + 1 else k - 1)"
      unfolding cond using True by simp
    let ?e = "(DELETE, item b (p - (k + 1)))"
    have "back_step c a b ?m v (int (Suc d)) (x, x - k, res) = (p, p - (k + 1), res @ rev (?e # es))"
      by (subst back_step_to [OF _ choice hold [OF d, folded p_def] es(1)]) (simp_all add: diff_diff_eq)
    moreover have "aligned c (fs @ ?e # es) (take (nat x) a) (take (nat (x - k)) b)"
      if "aligned c fs (take (nat p) a) (take (nat (p - (k + 1))) b)" for fs
    proof -
      have "aligned c [?e] [] [b ! nat (p - (k + 1))]" by (simp add: item_nth [OF ib])
      from es(3) [of "fs @ [?e]"] aligned_append [OF that this] show ?thesis by (simp add: tb)
    qed
    ultimately show ?thesis
      using d px ib assms(4) es(2) unfolding p_def
      by (intro exI [of _ "k + 1"] exI [of _ "?e # es"]) (simp add: p_def)
  next
    case False
    define p where "p = reach c a b d (k - 1)"
    have d: "diagonal d (k - 1)" using False by (intro diagonal_Suc(1) [OF assms(2)]) auto
    have low: "0 \<le> p" "k - 1 \<le> p" using g.F_lower [OF d, of a b c] by (simp_all add: p_def)
    have x: "x = slide (int (length a)) (int (length b)) (same_line c a b) (p + 1) (p + 1 - k)"
      using False by (auto simp: assms(3) furthest.simps(2) Let_def p_def)
    have px: "p + 1 \<le> x" using slide_ge x by blast
    obtain es where es: "nop_loop c a b (Some p) (Some (p - (k - 1))) x (x - k) res = (p + 1, p + 1 - k, res @ rev es)"
        "edits es = 0" "\<And>fs. aligned c fs (take (nat (p + 1)) a) (take (nat (p + 1 - k)) b) \<Longrightarrow>
           aligned c (fs @ es) (take (nat x) a) (take (nat (x - k)) b)"
      by (rule slide_back [OF x _ _ assms(4,5), of p "p - (k - 1)" res]) (use low in simp_all)
    have ia: "0 \<le> p" "p < int (length a)" using low px assms(4) by auto
    have choice: "k - 1 = (if k = - int (Suc d) \<or>
        (k \<noteq> int (Suc d) \<and> less_than (item v (k + ?m - 1)) (item v (k + ?m + 1))) then k + 1 else k - 1)"
      unfolding cond using False by simp
    let ?e = "(INSERT, item a p)"
    have "back_step c a b ?m v (int (Suc d)) (x, x - k, res) = (p, p - (k - 1), res @ rev (?e # es))"
      by (subst back_step_to [OF _ choice hold [OF d, folded p_def] es(1)]) (simp_all add: diff_diff_eq)
    moreover have "aligned c (fs @ ?e # es) (take (nat x) a) (take (nat (x - k)) b)"
      if "aligned c fs (take (nat p) a) (take (nat (p - (k - 1))) b)" for fs
    proof -
      have "aligned c [?e] [a ! nat p] []" by (simp add: item_nth [OF ia])
      have "p - (k - 1) = p + 1 - k" by simp
      then show ?thesis
        using es(3) [of "fs @ [?e]"] aligned_append [OF that \<open>aligned c [?e] [a ! nat p] []\<close>]
        by (simp only: take_next [OF ia] append_Nil2 append_assoc append_Cons append_Nil)
    qed
    ultimately show ?thesis
      using d px ia assms(5) es(2) unfolding p_def
      by (intro exI [of _ "k - 1"] exI [of _ "?e # es"]) (simp add: p_def)
  qed
qed

lemma back_start:
  assumes "ready c a b 0 v" "x = reach c a b 0 0" "x \<le> int (length a)" "x \<le> int (length b)"
  shows "\<exists>es. back_step c a b (size_of a b) v 0 (x, x, res) = (0, 0, res @ rev es) \<and> edits es = 0 \<and>
    aligned c es (take (nat x) a) (take (nat x) b)"
proof -
  have x: "x = slide (int (length a)) (int (length b)) (same_line c a b) 0 (0 - 0)" using assms(2) by simp
  obtain es where es: "nop_loop c a b (Some 0) (Some (0 - 0 - 1)) x (x - 0) res = (0, 0 - 0, res @ rev es)" "edits es = 0"
      "\<And>fs. aligned c fs (take (nat 0) a) (take (nat (0 - 0)) b) \<Longrightarrow>
         aligned c (fs @ es) (take (nat x) a) (take (nat (x - 0)) b)"
    by (rule slide_back [OF x, of 0 "- 1" res]) (use assms(3,4) in simp_all)
  have "back_step c a b (size_of a b) v 0 (x, x, res) = (0, 0, res @ rev es)"
    using es(1) assms(1) by (simp add: back_step_def Let_def ready_def add.commute)
  moreover have "aligned c es (take (nat x) a) (take (nat x) b)" using es(3) [of "[]"] by simp
  ultimately show ?thesis using es(2) by blast
qed

lemma back_loop_levels:
  assumes "saved c a b trace" "d < length trace" "diagonal d k" "x = reach c a b d k"
    "x \<le> int (length a)" "x - k \<le> int (length b)"
  shows "\<exists>es. back_loop c a b (size_of a b) trace (Suc d) (x, x - k, res) = (0, 0, res @ rev es) \<and>
    aligned c es (take (nat x) a) (take (nat (x - k)) b) \<and> edits es = d"
  using assms(2-6)
proof (induction d arbitrary: k x res)
  case 0
  then have "ready c a b 0 (trace ! 0)" using assms(1) by (simp add: saved_def)
  then show ?case using back_start [of c a b "trace ! 0" x res] 0 by auto
next
  case (Suc d)
  have "ready c a b (Suc d) (trace ! Suc d)" using assms(1) Suc.prems(1) by (simp add: saved_def)
  from back_step_level [OF this Suc.prems(2-5), of res] obtain k' es where
      step: "back_step c a b (size_of a b) (trace ! Suc d) (int (Suc d)) (x, x - k, res) =
        (reach c a b d k', reach c a b d k' - k', res @ rev es)" and k': "diagonal d k'" "edits es = 1"
        "reach c a b d k' \<le> int (length a)" "reach c a b d k' - k' \<le> int (length b)" and
      al: "\<And>fs. aligned c fs (take (nat (reach c a b d k')) a) (take (nat (reach c a b d k' - k')) b) \<Longrightarrow>
        aligned c (fs @ es) (take (nat x) a) (take (nat (x - k)) b)" by blast
  from Suc.IH [OF _ k'(1) refl k'(3,4), of "res @ rev es"] Suc.prems(1) obtain fs where
      fs: "back_loop c a b (size_of a b) trace (Suc d) (reach c a b d k', reach c a b d k' - k', res @ rev es) =
        (0, 0, (res @ rev es) @ rev fs)"
        "aligned c fs (take (nat (reach c a b d k')) a) (take (nat (reach c a b d k' - k')) b)" "edits fs = d" by auto
  have "back_loop c a b (size_of a b) trace (Suc (Suc d)) (x, x - k, res) = (0, 0, (res @ rev es) @ rev fs)"
    unfolding back_loop.simps(2) [of _ _ _ _ _ "Suc d"] step by (rule fs(1))
  then show ?case using al [OF fs(2)] fs(3) k'(2) by (intro exI [of _ "fs @ es"]) simp
qed

subsection \<open>The whole search\<close>

lemma least_corner: "\<exists>D k. corner c a b D k \<and> no_corner c a b D \<and> int D \<le> size_of a b"
proof -
  obtain e k where e: "corner c a b e k" "int e \<le> size_of a b"
    using g.success_within [of a b c] unfolding corner_def size_of_def by blast
  define D where "D = (LEAST d. \<exists>k. corner c a b d k)"
  have "\<exists>k. corner c a b D k" unfolding D_def by (rule LeastI [of _ e]) (use e in blast)
  moreover have "no_corner c a b D" unfolding no_corner_def D_def using not_less_Least by blast
  moreover have "D \<le> e" unfolding D_def by (rule Least_le) (use e in blast)
  ultimately show ?thesis using e(2) by (meson of_nat_mono order_trans)
qed

lemma corner_end:
  assumes "corner c a b D k" "no_corner c a b D"
  shows "reach c a b D k = int (length a)" "k = int (length a) - int (length b)"
  using g.first_success [of D k a b c] assms by (auto simp: corner_def no_corner_def)

text \<open>Every alignment passes points the search has reached.\<close>

lemma aligned_reached:
  assumes "aligned c es (drop i a) (drop j b)" "i \<le> length a" "j \<le> length b"
    "diagonal e (int i - int j)" "int i \<le> reach c a b e (int i - int j)"
  shows "\<exists>k. corner c a b (e + edits es) k"
  using assms
proof (induction es arbitrary: i j e)
  case Nil
  then have "i = length a" "j = length b" by simp_all
  then show ?case using Nil(4,5) by (auto simp: corner_def)
next
  case (Cons en es)
  obtain op v where en: "en = (op, v)" by (cases en)
  have ia: "i < length a" if "op \<noteq> DELETE"
  proof (rule ccontr)
    assume "\<not> i < length a"
    then have "drop i a = []" by simp
    then show False using Cons.prems(1) that unfolding en by (cases op; cases "drop j b") simp_all
  qed
  have jb: "j < length b" if "op \<noteq> INSERT"
  proof (rule ccontr)
    assume "\<not> j < length b"
    then have "drop j b = []" by simp
    then show False using Cons.prems(1) that unfolding en by (cases op; cases "drop i a") simp_all
  qed
  show ?case
  proof (cases op)
    case DELETE
    then have j: "drop j b = b ! j # drop (Suc j) b" using jb by (simp add: Cons_nth_drop_Suc)
    have "aligned c es (drop i a) (drop (Suc j) b)" using Cons.prems(1) unfolding en DELETE j by simp
    moreover have "diagonal (Suc e) (int i - int (Suc j)) \<and> int i \<le> reach c a b (Suc e) (int i - int (Suc j))"
      using g.reached_down [of e "int i" "int j" a b c] Cons.prems(4,5) by (simp add: add.commute)
    ultimately show ?thesis using Cons.IH [of i "Suc j" "Suc e"] Cons.prems(2) jb DELETE en by simp
  next
    case NOP
    then have ij: "drop i a = a ! i # drop (Suc i) a" "drop j b = b ! j # drop (Suc j) b"
      using ia jb by (simp_all add: Cons_nth_drop_Suc)
    have al: "areLinesEqual c (Some (a ! i)) (Some (b ! j))" "aligned c es (drop (Suc i) a) (drop (Suc j) b)"
      using Cons.prems(1) unfolding en NOP ij by simp_all
    have "same_line c a b (int i) (int j)" using al(1) ia jb NOP by (simp add: same_line_def item_def)
    then have "diagonal e (int (Suc i) - int (Suc j)) \<and> int (Suc i) \<le> reach c a b e (int (Suc i) - int (Suc j))"
      using g.reached_nop [of e "int i" "int j" a b c] Cons.prems(4,5) ia jb NOP by (simp add: add.commute)
    then show ?thesis using Cons.IH [of "Suc i" "Suc j" e] al(2) ia jb NOP en by simp
  next
    case INSERT
    then have i: "drop i a = a ! i # drop (Suc i) a" using ia by (simp add: Cons_nth_drop_Suc)
    have "aligned c es (drop (Suc i) a) (drop j b)" using Cons.prems(1) unfolding en INSERT i by simp
    moreover have "diagonal (Suc e) (int (Suc i) - int j) \<and> int (Suc i) \<le> reach c a b (Suc e) (int (Suc i) - int j)"
      using g.reached_right [of e "int i" "int j" a b c] Cons.prems(4,5) by (simp add: add.commute)
    ultimately show ?thesis using Cons.IH [of "Suc i" j "Suc e"] Cons.prems(3) ia INSERT en by simp
  qed
qed

lemma edits_minimal:
  assumes "aligned c es a b" "no_corner c a b D"
  shows "D \<le> edits es"
proof -
  have "\<exists>k. corner c a b (0 + edits es) k"
    by (rule aligned_reached [of c es 0 a 0 b]) (use assms(1) g.reached_start [of a b c] in simp_all)
  then show ?thesis using assms(2) unfolding no_corner_def by (metis add_0 leI)
qed

lemma ready_start:
  assumes "0 < size_of a b"
  shows "ready c a b 0 (replicate (nat (2 * size_of a b + 1)) 0)"
  using assms by (simp add: ready_def item_def)

lemma myersDiff_ends:
  assumes "a \<noteq> [] \<or> b \<noteq> []" "size_of a b < 2 ^ 31"
  shows "\<exists>es D. myersDiff a b c = Inr (Some es) \<and> aligned c (rev es) a b \<and> edits es = D \<and> no_corner c a b D"
proof -
  have pos: "0 < size_of a b" using assms(1) by (cases a; cases b) (simp_all add: size_of_def)
  obtain D k where D: "corner c a b D k" "no_corner c a b D" "int D \<le> size_of a b" using least_corner by blast
  note e = corner_end [OF D(1,2)]
  obtain trace where trace: "level_loop c a b (size_of a b) (int 0) (replicate (nat (2 * size_of a b + 1)) 0) [] =
      Some (backtrack c trace a b)" "saved c a b trace" "length trace = Suc D"
    using level_loop_ends [OF ready_start [OF pos, of c], of "[]" D k] D assms(2) by (auto simp: saved_def)
  have "diagonal D k" using D(1) by (simp add: corner_def)
  moreover have "int (length a) - k = int (length b)" using e(2) by simp
  ultimately obtain es where
      es: "back_loop c a b (size_of a b) trace (Suc D) (int (length a), int (length b), []) = (0, 0, rev es)"
        "aligned c es a b" "edits es = D"
    using back_loop_levels [OF trace(2), of D k "int (length a)" "[]"] e(1) trace(3) by (auto simp del: back_loop.simps)
  have "backtrack c trace a b = rev es" using es(1) trace(3) by (simp add: backtrack_def size_of_def)
  then have "myersDiff a b c = Inr (Some (rev es))"
    using trace(1) assms(2) by (simp add: myersDiff_def size_of_def Let_def)
  then show ?thesis using es(2,3) D(2) by (intro exI [of _ "rev es"]) simp
qed

lemma aligned_rebuilds:
  assumes "aligned False es a b"
  shows "map snd (filter (\<lambda>e. fst e \<noteq> DELETE) es) = map Some a"
    "map snd (filter (\<lambda>e. fst e \<noteq> INSERT) es) = map Some b"
  using assms by (induction False es a b rule: aligned.induct) (auto simp: areLinesEqual_def nop_value_def)

lemma strings_from_strings: "strings_from (map JStr ss) i name = Inr ss"
  by (induction ss arbitrary: i) simp_all

lemma diff_lists:
  "i \<noteq> j \<Longrightarrow> diff (DArray i (map JStr a)) (DArray j (map JStr b)) =
     bind (myersDiff a b False) (\<lambda>d. case d of
         None \<Rightarrow> Inl (TypeError ''Array.prototype.reverse called on null or undefined'')
       | Some es \<Rightarrow> Inr (rev es))"
  by (simp add: diff_def strictly_equal_def validateInput_def validateStringArray_def strings_from_strings)

text \<open>Of two empty lists the search answers \<^verbatim>\<open>undefined\<close>: the array it reads from has one element.\<close>

lemma myersDiff_empty: "myersDiff [] [] c = Inr None"
  by (cases c) code_simp+

lemma diff_empty:
  "i \<noteq> j \<Longrightarrow> diff (DArray i []) (DArray j []) = Inl (TypeError ''Array.prototype.reverse called on null or undefined'')"
  using diff_lists [of i j "[]" "[]"] by (simp add: myersDiff_empty)

subsection \<open>Properties\<close>

text \<open>
  C4: \<^verbatim>\<open>myersDiff\<close> of two lists of lines that are not both empty answers entries that, read backwards,
  turn the one into the other, and no list of entries that does has fewer insertions and deletions.
\<close>

theorem myersDiff_minimal:
  assumes "a \<noteq> [] \<or> b \<noteq> []" "length a + length b < 2 ^ 31"
  shows "\<exists>es. myersDiff a b c = Inr (Some es) \<and> aligned c (rev es) a b \<and>
    (\<forall>fs. aligned c fs a b \<longrightarrow> edits es \<le> edits fs)"
proof -
  have "int (length a + length b) < int (2 ^ 31)" using assms(2) by (simp only: of_nat_less_iff)
  then have "size_of a b < 2 ^ 31" by (simp add: size_of_def)
  from myersDiff_ends [OF assms(1) this, of c] show ?thesis using edits_minimal by blast
qed

theorem myersDiff_minimal_witness:
  "\<exists>es. myersDiff [js ''a'', js ''b,''] [js ''b'', js ''c''] True = Inr (Some es) \<and> edits es = 2"
proof -
  let ?a = "[js ''a'', js ''b,'']" and ?b = "[js ''b'', js ''c'']"
  obtain es where es: "myersDiff ?a ?b True = Inr (Some es)" "\<forall>fs. aligned True fs ?a ?b \<longrightarrow> edits es \<le> edits fs"
    using myersDiff_minimal [of ?a ?b True] by auto
  have "(case myersDiff ?a ?b True of Inr (Some es) \<Rightarrow> edits es = 2 | _ \<Rightarrow> False)" by code_simp
  then show ?thesis using es(1) by auto
qed

text \<open>
  C12: \<^verbatim>\<open>util.diff\<close> of two distinct arrays of strings that are not both empty and have less than
  \<open>2 ^ 31\<close> elements together answers, and the values of the entries that are not deletions are the
  first array, those that are not insertions the second.
\<close>

theorem diff_rebuilds:
  assumes "i \<noteq> j" "a \<noteq> [] \<or> b \<noteq> []" "length a + length b < 2 ^ 31"
  shows "\<exists>es. diff (DArray i (map JStr a)) (DArray j (map JStr b)) = Inr es \<and>
    map snd (filter (\<lambda>e. fst e \<noteq> DELETE) es) = map Some a \<and>
    map snd (filter (\<lambda>e. fst e \<noteq> INSERT) es) = map Some b"
proof -
  have "int (length a + length b) < int (2 ^ 31)" using assms(3) by (simp only: of_nat_less_iff)
  then have "size_of a b < 2 ^ 31" by (simp add: size_of_def)
  from myersDiff_ends [OF assms(2) this, of False] obtain es where
      es: "myersDiff a b False = Inr (Some es)" "aligned False (rev es) a b" by blast
  then show ?thesis using aligned_rebuilds [OF es(2)] by (simp add: diff_lists [OF assms(1)])
qed

theorem diff_rebuilds_witness:
  "\<exists>es. diff (DArray 0 [JStr (js ''a'')]) (DArray 1 [JStr (js ''b'')]) = Inr es \<and>
     map snd (filter (\<lambda>e. fst e \<noteq> DELETE) es) = [Some (js ''a'')]"
  using diff_rebuilds [of 0 1 "[js ''a'']" "[js ''b'']"] by auto

end
