(* ===== verification/FixedQueue.thy ===== *)
theory FixedQueue
  imports Prelude
begin

text \<open>
  lib/internal/fixed_queue.js: the queue behind \<^verbatim>\<open>process.nextTick\<close>, a singly linked list of
  circular buffers of \<open>kSize\<close> slots. Buffers are objects, so they live in a store and the
  links are addresses: \<^verbatim>\<open>head\<close> and \<^verbatim>\<open>tail\<close> of a queue may be the same buffer.
  \<open>None\<close> in a slot is \<^verbatim>\<open>undefined\<close>; \<open>None\<close> as a result of \<open>shift\<close> is \<^verbatim>\<open>null\<close>.

  The interface is the locale \<open>fifo_queue\<close>; the end of the theory interprets it on the code's
  operations.
\<close>

subsection \<open>The interface a client relies on\<close>

locale fifo_queue =
  fixes empty :: "'q"
    and is_empty :: "'q \<Rightarrow> bool"
    and push :: "'a \<Rightarrow> 'q \<Rightarrow> 'q"
    and shift :: "'q \<Rightarrow> 'a option \<times> 'q"
    and elems :: "'q \<Rightarrow> 'a list"
    and invar :: "'q \<Rightarrow> bool"
  assumes invar_empty: "invar empty"
    and elems_empty: "elems empty = []"
    and is_empty_iff: "invar q \<Longrightarrow> is_empty q \<longleftrightarrow> elems q = []"
    and invar_push: "invar q \<Longrightarrow> invar (push x q)"
    and elems_push: "invar q \<Longrightarrow> elems (push x q) = elems q @ [x]"
    and invar_shift: "invar q \<Longrightarrow> invar (snd (shift q))"
    and shift_value: "invar q \<Longrightarrow> fst (shift q) = (case elems q of [] \<Rightarrow> None | x # _ \<Rightarrow> Some x)"
    and elems_shift: "invar q \<Longrightarrow> elems (snd (shift q)) = tl (elems q)"
begin

lemma shift_None: "invar q \<Longrightarrow> fst (shift q) = None \<longleftrightarrow> elems q = []"
  by (simp add: shift_value split: list.split)

lemma shift_SomeD: "invar q \<Longrightarrow> shift q = (Some x, q') \<Longrightarrow> invar q' \<and> elems q = x # elems q'"
  using invar_shift [of q] shift_value [of q] elems_shift [of q] by (cases "elems q") auto

lemma shift_NoneD: "invar q \<Longrightarrow> shift q = (None, q') \<Longrightarrow> invar q' \<and> elems q = [] \<and> elems q' = []"
  using invar_shift [of q] shift_value [of q] elems_shift [of q] by (cases "elems q") auto

end

subsection \<open>FixedCircularBuffer\<close>

definition kSize :: nat where "kSize = 2048"
definition kMask :: nat where "kMask = kSize - 1"

record 'a circ_buffer =
  bottom :: nat
  top :: nat
  slots :: "'a option list"
  next_buf :: "nat option"

definition new_circ_buffer :: "'a circ_buffer" where
  "new_circ_buffer = \<lparr>bottom = 0, top = 0, slots = replicate kSize None, next_buf = None\<rparr>"

definition cb_isEmpty :: "'a circ_buffer \<Rightarrow> bool" where
  "cb_isEmpty b \<longleftrightarrow> top b = bottom b"

definition cb_isFull :: "'a circ_buffer \<Rightarrow> bool" where
  "cb_isFull b \<longleftrightarrow> (top b + 1) AND kMask = bottom b"

definition cb_push :: "'a option \<Rightarrow> 'a circ_buffer \<Rightarrow> 'a circ_buffer" where
  "cb_push data b =
     b\<lparr>slots := (slots b)[top b := data], top := (top b + 1) AND kMask\<rparr>"

definition cb_shift :: "'a circ_buffer \<Rightarrow> 'a option \<times> 'a circ_buffer" where
  "cb_shift b =
     (case slots b ! bottom b of
        None \<Rightarrow> (None, b)
      | Some nextItem \<Rightarrow>
          (Some nextItem,
           b\<lparr>slots := (slots b)[bottom b := None], bottom := (bottom b + 1) AND kMask\<rparr>))"

subsection \<open>FixedQueue\<close>

record 'a fixed_queue =
  bufs :: "'a circ_buffer list"   \<comment> \<open>the store: the buffer at address \<open>a\<close> is \<open>bufs q ! a\<close>\<close>
  head :: nat
  tail :: nat

definition new_fixed_queue :: "'a fixed_queue" where
  "new_fixed_queue = \<lparr>bufs = [new_circ_buffer], head = 0, tail = 0\<rparr>"

definition fq_isEmpty :: "'a fixed_queue \<Rightarrow> bool" where
  "fq_isEmpty q = cb_isEmpty (bufs q ! head q)"

definition fq_push :: "'a option \<Rightarrow> 'a fixed_queue \<Rightarrow> 'a fixed_queue" where
  "fq_push data q =
     (let q' = (if cb_isFull (bufs q ! head q)
                then (let a = length (bufs q)
                      in q\<lparr>bufs := (bufs q)[head q := (bufs q ! head q)\<lparr>next_buf := Some a\<rparr>]
                                     @ [new_circ_buffer],
                           head := a\<rparr>)
                else q)
      in q'\<lparr>bufs := (bufs q')[head q' := cb_push data (bufs q' ! head q')]\<rparr>)"

definition fq_shift :: "'a fixed_queue \<Rightarrow> 'a option \<times> 'a fixed_queue" where
  "fq_shift q =
     (let t = tail q;
          (next, b) = cb_shift (bufs q ! t);
          q1 = q\<lparr>bufs := (bufs q)[t := b]\<rparr>
      in (next,
          if cb_isEmpty b
          then (case next_buf b of
                  None \<Rightarrow> q1
                | Some n \<Rightarrow> q1\<lparr>tail := n, bufs := (bufs q1)[t := b\<lparr>next_buf := None\<rparr>]\<rparr>)
          else q1))"

subsection \<open>Circular buffers hold a list\<close>

lemma and_kMask: "n AND kMask = n mod kSize"
proof -
  have "kMask = mask 11" by (simp add: kMask_def kSize_def mask_eq_exp_minus_1)
  then have "n AND kMask = take_bit 11 n" by (simp only: take_bit_eq_mask)
  then show ?thesis by (simp add: take_bit_eq_mod kSize_def)
qed

lemma kSize_pos [simp]: "0 < kSize"
  by (simp add: kSize_def)

definition cb_size :: "'a circ_buffer \<Rightarrow> nat" where
  "cb_size b = (top b + kSize - bottom b) mod kSize"

definition cb_elems :: "'a circ_buffer \<Rightarrow> 'a list" where
  "cb_elems b = map (\<lambda>k. the (slots b ! ((bottom b + k) mod kSize))) [0..<cb_size b]"

definition cb_invar :: "'a circ_buffer \<Rightarrow> bool" where
  "cb_invar b \<longleftrightarrow> length (slots b) = kSize \<and> bottom b < kSize \<and> top b < kSize \<and>
     (\<forall>k < kSize. slots b ! ((bottom b + k) mod kSize) \<noteq> None \<longleftrightarrow> k < cb_size b)"

lemma ring_offset:
  assumes "b < K" "t < (K::nat)"
  shows "(b + (t + K - b) mod K) mod K = t"
  using assms by (cases "b \<le> t") (auto simp: mod_add_right_eq)

lemma ring_inj_le:
  assumes "j \<le> k" "k < (K::nat)" "(b + j) mod K = (b + k) mod K"
  shows "j = k"
proof -
  have "K dvd (b + k) - (b + j)"
    using assms by (subst mod_eq_dvd_iff_nat [symmetric]) auto
  then have "K dvd k - j" by simp
  then show ?thesis using assms(1,2) by (auto dest!: dvd_imp_le)
qed

lemma ring_inj: "j < K \<Longrightarrow> k < (K::nat) \<Longrightarrow> (b + j) mod K = (b + k) mod K \<longleftrightarrow> j = k"
  using ring_inj_le [of j k K b] ring_inj_le [of k j K b] by (cases "j \<le> k") auto

lemma cb_size_less: "cb_size b < kSize"
  by (simp add: cb_size_def)

lemma cb_top: "cb_invar b \<Longrightarrow> (bottom b + cb_size b) mod kSize = circ_buffer.top b"
  by (simp add: cb_invar_def cb_size_def ring_offset)

lemma length_cb_elems [simp]: "length (cb_elems b) = cb_size b"
  by (simp add: cb_elems_def)

lemma cb_isEmpty_iff:
  assumes "cb_invar b"
  shows "cb_isEmpty b \<longleftrightarrow> cb_elems b = []"
proof -
  have "cb_isEmpty b \<longleftrightarrow> cb_size b = 0"
    using assms cb_top [OF assms] by (auto simp: cb_isEmpty_def cb_invar_def cb_size_def)
  also have "\<dots> \<longleftrightarrow> cb_elems b = []" by (simp flip: length_0_conv)
  finally show ?thesis .
qed

lemma cb_top_Suc: "cb_invar b \<Longrightarrow> Suc (circ_buffer.top b) mod kSize = (bottom b + Suc (cb_size b)) mod kSize"
  using mod_Suc_eq [of "bottom b + cb_size b" kSize] by (simp add: cb_top)

lemma cb_isFull_iff:
  assumes "cb_invar b"
  shows "cb_isFull b \<longleftrightarrow> cb_size b = kSize - 1"
proof -
  have "cb_isFull b \<longleftrightarrow> (bottom b + Suc (cb_size b)) mod kSize = bottom b"
    using cb_top_Suc [OF assms] by (simp add: cb_isFull_def and_kMask)
  also have "\<dots> \<longleftrightarrow> Suc (cb_size b) = kSize"
  proof (cases "Suc (cb_size b) = kSize")
    case True
    then show ?thesis using assms by (simp add: cb_invar_def)
  next
    case False
    then have "Suc (cb_size b) < kSize" using cb_size_less [of b] by linarith
    then show ?thesis
      using ring_inj [of "Suc (cb_size b)" kSize 0 "bottom b"] assms by (auto simp: cb_invar_def)
  qed
  finally show ?thesis by (auto simp: kSize_def)
qed

text \<open>The size of a buffer whose ends moved: \<open>n\<close> slots above the bottom.\<close>

lemma cb_sizeI:
  assumes "bottom b < kSize" "n < kSize" "circ_buffer.top b = (bottom b + n) mod kSize"
  shows "cb_size b = n"
proof (cases "bottom b + n < kSize")
  case True
  with assms show ?thesis by (simp add: cb_size_def)
next
  case False
  then have "circ_buffer.top b = bottom b + n - kSize"
    using assms by (simp add: mod_if)
  with False assms show ?thesis by (simp add: cb_size_def)
qed

lemma cb_push_props:
  assumes inv: "cb_invar b" and notfull: "\<not> cb_isFull b"
  shows "cb_invar (cb_push (Some x) b)" and "cb_elems (cb_push (Some x) b) = cb_elems b @ [x]"
proof -
  let ?b = "cb_push (Some x) b"
  have less: "Suc (cb_size b) < kSize"
    using notfull cb_size_less [of b] unfolding cb_isFull_iff [OF inv] by linarith
  have top': "circ_buffer.top ?b = (bottom b + Suc (cb_size b)) mod kSize"
    using cb_top_Suc [OF inv] by (simp add: cb_push_def and_kMask)
  have bot: "bottom ?b = bottom b" by (simp add: cb_push_def)
  have size': "cb_size ?b = Suc (cb_size b)"
    by (rule cb_sizeI) (use inv less top' in \<open>simp_all add: cb_push_def cb_invar_def\<close>)
  have slot: "slots ?b ! ((bottom b + k) mod kSize)
      = (if k = cb_size b then Some x else slots b ! ((bottom b + k) mod kSize))"
    if "k < kSize" for k
    using that inv ring_inj [OF that cb_size_less, of "bottom b" b]
    unfolding cb_top [OF inv] by (auto simp: cb_push_def cb_invar_def nth_list_update)
  show "cb_invar ?b"
    using inv less slot by (auto simp: cb_invar_def size' less_Suc_eq) (auto simp: cb_push_def and_kMask)
  show "cb_elems ?b = cb_elems b @ [x]"
    using slot less cb_size_less [of b] bot by (simp add: cb_elems_def [of ?b] cb_elems_def [of b] size')
qed

lemma cb_shift_empty: "cb_invar b \<Longrightarrow> cb_elems b = [] \<Longrightarrow> cb_shift b = (None, b)"
  by (force simp: cb_shift_def cb_invar_def simp flip: length_0_conv split: option.split
      dest: spec [where x = 0])

lemma cb_shift_props:
  assumes inv: "cb_invar b" and ne: "cb_elems b \<noteq> []"
  shows "fst (cb_shift b) = Some (hd (cb_elems b))" and "cb_invar (snd (cb_shift b))"
    and "cb_elems (snd (cb_shift b)) = tl (cb_elems b)"
    and "next_buf (snd (cb_shift b)) = next_buf b"
proof -
  have pos: "0 < cb_size b" using ne by (simp flip: length_greater_0_conv)
  have bot: "slots b ! bottom b \<noteq> None"
    using inv pos by (auto simp: cb_invar_def dest: spec [where x = 0])
  then obtain x where x: "slots b ! bottom b = Some x" by blast
  let ?b = "snd (cb_shift b)"
  have b': "?b = b\<lparr>slots := (slots b)[bottom b := None], bottom := Suc (bottom b) mod kSize\<rparr>"
    by (simp add: cb_shift_def x and_kMask)
  have idx: "(Suc (bottom b) mod kSize + k) mod kSize = (bottom b + Suc k) mod kSize" for k
    using mod_add_left_eq [of "Suc (bottom b)" kSize k] by simp
  have size': "cb_size ?b = cb_size b - 1"
    by (rule cb_sizeI) (use inv pos idx [of "cb_size b - 1"] cb_top [OF inv] in
        \<open>simp_all add: b' cb_invar_def cb_size_less less_imp_diff_less\<close>)
  have slot: "slots ?b ! ((bottom ?b + k) mod kSize)
      = (if Suc k = kSize then None else slots b ! ((bottom b + Suc k) mod kSize))" if "k < kSize" for k
  proof -
    have "(bottom b + Suc k) mod kSize = bottom b \<longleftrightarrow> Suc k = kSize"
      using that inv ring_inj [of "Suc k" kSize 0 "bottom b"]
      by (cases "Suc k = kSize") (auto simp: cb_invar_def)
    then show ?thesis using that inv by (auto simp: b' idx cb_invar_def nth_list_update)
  qed
  have elems: "cb_elems b = x # map (\<lambda>k. the (slots b ! ((bottom b + Suc k) mod kSize))) [0..<cb_size b - 1]"
  proof -
    have "[0..<cb_size b] = 0 # map Suc [0..<cb_size b - 1]"
      using pos by (simp add: map_Suc_upt upt_conv_Cons)
    then show ?thesis using inv x by (simp add: cb_elems_def cb_invar_def comp_def)
  qed
  show "fst (cb_shift b) = Some (hd (cb_elems b))"
    by (simp add: elems) (simp add: cb_shift_def x)
  show "cb_elems ?b = tl (cb_elems b)"
  proof -
    have "slots ?b ! ((bottom ?b + k) mod kSize) = slots b ! ((bottom b + Suc k) mod kSize)"
      if "k < cb_size b - 1" for k
    proof -
      have "k < kSize" "Suc k \<noteq> kSize" using that cb_size_less [of b] by linarith+
      then show ?thesis using slot by simp
    qed
    then show ?thesis by (simp add: elems cb_elems_def [of ?b] size')
  qed
  have old: "slots b ! ((bottom b + j) mod kSize) \<noteq> None \<longleftrightarrow> j < cb_size b" if "j < kSize" for j
    using inv that by (simp add: cb_invar_def)
  have "slots ?b ! ((bottom ?b + k) mod kSize) \<noteq> None \<longleftrightarrow> k < cb_size ?b" if "k < kSize" for k
    unfolding slot [OF that] size' using old [of "Suc k"] cb_size_less [of b] that
    by (cases "Suc k = kSize") auto
  then show "cb_invar ?b"
    using inv by (simp add: cb_invar_def) (simp add: b')
  show "next_buf ?b = next_buf b" by (simp add: b')
qed

lemma cb_new: "cb_invar new_circ_buffer" "cb_elems new_circ_buffer = []" "next_buf new_circ_buffer = None"
  by (simp_all add: cb_invar_def cb_elems_def cb_size_def new_circ_buffer_def)

lemma cb_next_upd [simp]: "cb_invar (b\<lparr>next_buf := n\<rparr>) = cb_invar b" "cb_elems (b\<lparr>next_buf := n\<rparr>) = cb_elems b"
  by (simp_all add: cb_invar_def cb_elems_def cb_size_def)

lemma cb_push_next [simp]: "next_buf (cb_push x b) = next_buf b"
  by (simp add: cb_push_def)

subsection \<open>The chain of buffers from tail to head\<close>

text \<open>\<open>chain bs as\<close>: following \<open>next_buf\<close> from the first address visits \<open>as\<close> and ends.\<close>

fun chain :: "'a circ_buffer list \<Rightarrow> nat list \<Rightarrow> bool" where
  "chain bs [] \<longleftrightarrow> False"
| "chain bs [a] \<longleftrightarrow> a < length bs \<and> next_buf (bs ! a) = None"
| "chain bs (a # b # as) \<longleftrightarrow> a < length bs \<and> next_buf (bs ! a) = Some b \<and> chain bs (b # as)"

fun follow :: "nat \<Rightarrow> 'a circ_buffer list \<Rightarrow> nat \<Rightarrow> nat list" where
  "follow 0 bs a = []"
| "follow (Suc f) bs a = a # (case next_buf (bs ! a) of None \<Rightarrow> [] | Some b \<Rightarrow> follow f bs b)"

definition fq_elems :: "'a fixed_queue \<Rightarrow> 'a list" where
  "fq_elems q = concat (map (\<lambda>a. cb_elems (bufs q ! a)) (follow (length (bufs q)) (bufs q) (tail q)))"

definition fq_rep :: "'a fixed_queue \<Rightarrow> nat list \<Rightarrow> bool" where
  "fq_rep q as \<longleftrightarrow> chain (bufs q) as \<and> distinct as \<and> hd as = tail q \<and> last as = head q \<and>
     (\<forall>a \<in> set as. cb_invar (bufs q ! a)) \<and>
     (tl as \<noteq> [] \<longrightarrow> (\<forall>a \<in> set as. cb_elems (bufs q ! a) \<noteq> []))"

definition fq_invar :: "'a fixed_queue \<Rightarrow> bool" where
  "fq_invar q \<longleftrightarrow> (\<exists>as. fq_rep q as)"

lemma chain_ne [simp]: "chain bs as \<Longrightarrow> as \<noteq> []"
  by auto

lemma chain_bound: "chain bs as \<Longrightarrow> a \<in> set as \<Longrightarrow> a < length bs"
  by (induction bs as rule: chain.induct) auto

lemma chain_last: "chain bs as \<Longrightarrow> next_buf (bs ! last as) = None"
  by (induction bs as rule: chain.induct) auto

lemma chain_follow: "chain bs as \<Longrightarrow> length as \<le> f \<Longrightarrow> follow f bs (hd as) = as"
proof (induction bs as arbitrary: f rule: chain.induct)
  case (2 bs a)
  then show ?case by (cases f) auto
next
  case (3 bs a b as)
  then show ?case by (cases f) auto
qed auto

lemma chain_cong:
  "chain bs as \<Longrightarrow> length bs \<le> length bs' \<Longrightarrow> (\<And>a. a \<in> set as \<Longrightarrow> next_buf (bs' ! a) = next_buf (bs ! a))
   \<Longrightarrow> chain bs' as"
  by (induction bs as rule: chain.induct) auto

lemma chain_extend:
  "chain bs as \<Longrightarrow> distinct as \<Longrightarrow> a < length bs \<Longrightarrow> a \<notin> set as \<Longrightarrow> next_buf (bs ! a) = None \<Longrightarrow>
   chain (bs[last as := (bs ! last as)\<lparr>next_buf := Some a\<rparr>]) (as @ [a])"
proof (induction bs as rule: chain.induct)
  case (3 bs x y as)
  then have "last (y # as) \<noteq> x" by (auto dest: last_in_set)
  with 3 show ?case by (cases as) auto
qed auto

lemma fq_rep_elems:
  assumes "fq_rep q as"
  shows "fq_elems q = concat (map (\<lambda>a. cb_elems (bufs q ! a)) as)"
proof -
  have "set as \<subseteq> {..<length (bufs q)}" using assms by (auto simp: fq_rep_def dest: chain_bound)
  then have "length as \<le> length (bufs q)"
    using assms card_mono [of "{..<length (bufs q)}" "set as"] by (simp add: fq_rep_def distinct_card)
  then show ?thesis using assms by (auto simp: fq_rep_def fq_elems_def dest: chain_follow)
qed

lemma fq_rep_head:
  assumes "fq_rep q as"
  shows "head q < length (bufs q)" "cb_invar (bufs q ! head q)" "head q \<in> set as"
    "as = butlast as @ [head q]" "\<And>a. a \<in> set as \<Longrightarrow> a < length (bufs q)"
proof -
  have ne: "as \<noteq> []" and h: "last as = head q" using assms by (auto simp: fq_rep_def)
  show in_as: "head q \<in> set as" using ne h by (metis last_in_set)
  show bound: "a < length (bufs q)" if "a \<in> set as" for a
    using assms that by (auto simp: fq_rep_def dest: chain_bound)
  show "head q < length (bufs q)" using bound in_as by blast
  show "cb_invar (bufs q ! head q)" using assms in_as by (auto simp: fq_rep_def)
  show "as = butlast as @ [head q]" using ne h by (metis append_butlast_last_id)
qed

text \<open>Growing a full head: the queue keeps its elements and its new head is empty.\<close>

definition fq_grow :: "'a fixed_queue \<Rightarrow> 'a fixed_queue" where
  "fq_grow q = q\<lparr>bufs := (bufs q)[head q := (bufs q ! head q)\<lparr>next_buf := Some (length (bufs q))\<rparr>]
                   @ [new_circ_buffer], head := length (bufs q)\<rparr>"

lemma fq_push_grow:
  "fq_push x q = (let q' = (if cb_isFull (bufs q ! head q) then fq_grow q else q)
                  in q'\<lparr>bufs := (bufs q')[head q' := cb_push x (bufs q' ! head q')]\<rparr>)"
  by (simp add: fq_push_def fq_grow_def Let_def)

lemma fq_grow_rep:
  assumes rep: "fq_rep q as"
  shows "chain (bufs (fq_grow q)) (as @ [length (bufs q)])"
    and "\<And>a. a \<in> set as \<Longrightarrow> cb_invar (bufs (fq_grow q) ! a)"
    and "\<And>a. a \<in> set as \<Longrightarrow> cb_elems (bufs (fq_grow q) ! a) = cb_elems (bufs q ! a)"
    and "bufs (fq_grow q) ! length (bufs q) = new_circ_buffer"
proof -
  let ?n = "length (bufs q)" let ?bs = "bufs q @ [new_circ_buffer]"
  note hd = fq_rep_head [OF rep]
  have grown: "bufs (fq_grow q) = ?bs[last as := (?bs ! last as)\<lparr>next_buf := Some ?n\<rparr>]"
    using rep hd by (simp add: fq_grow_def fq_rep_def list_update_append nth_append)
  have "chain ?bs as"
    by (rule chain_cong [of "bufs q"]) (use rep hd in \<open>auto simp: fq_rep_def nth_append\<close>)
  then show "chain (bufs (fq_grow q)) (as @ [?n])"
    unfolding grown by (rule chain_extend) (use rep hd(5) in \<open>auto simp: fq_rep_def cb_new\<close>)
  have nth: "bufs (fq_grow q) ! a
      = (if a = head q then (bufs q ! a)\<lparr>next_buf := Some ?n\<rparr> else bufs q ! a)" if "a \<in> set as" for a
    using hd(1) hd(5) [OF that] by (simp add: fq_grow_def nth_append)
  show "cb_invar (bufs (fq_grow q) ! a)" if "a \<in> set as" for a
    using rep that hd(2) by (simp add: nth fq_rep_def)
  show "cb_elems (bufs (fq_grow q) ! a) = cb_elems (bufs q ! a)" if "a \<in> set as" for a
    using that by (simp add: nth)
  show "bufs (fq_grow q) ! ?n = new_circ_buffer"
    using hd by (simp add: fq_grow_def nth_append)
qed

text \<open>Writing a buffer of the chain without touching its link.\<close>

lemma fq_rep_upd:
  assumes rep: "chain (bufs q) as" "distinct as" "last as = a"
    and b: "cb_invar b" "next_buf b = next_buf (bufs q ! a)" "cb_elems b = cb_elems (bufs q ! a) @ [x]"
    and others: "\<And>c. c \<in> set (butlast as) \<Longrightarrow> cb_invar (bufs q ! c)"
      "\<And>c. c \<in> set (butlast as) \<Longrightarrow> cb_elems (bufs q ! c) \<noteq> []"
    and ends: "hd as = tail q" "a = head q"
  shows "fq_rep (q\<lparr>bufs := (bufs q)[a := b]\<rparr>) as"
    and "concat (map (\<lambda>c. cb_elems ((bufs q)[a := b] ! c)) as)
         = concat (map (\<lambda>c. cb_elems (bufs q ! c)) as) @ [x]"
proof -
  have a: "a \<in> set as" "a < length (bufs q)"
    using rep chain_bound [OF rep(1), of a] by (auto simp: last_in_set)
  obtain bs where as: "as = bs @ [a]" using rep by (metis append_butlast_last_id chain_ne)
  have bs: "c \<noteq> a" if "c \<in> set bs" for c using rep(2) that by (auto simp: as)
  have "chain ((bufs q)[a := b]) as"
    by (rule chain_cong [OF rep(1)]) (use b a in \<open>auto simp: nth_list_update\<close>)
  then show "fq_rep (q\<lparr>bufs := (bufs q)[a := b]\<rparr>) as"
    using rep b others ends a by (auto simp: fq_rep_def as nth_list_update bs)
  show "concat (map (\<lambda>c. cb_elems ((bufs q)[a := b] ! c)) as)
      = concat (map (\<lambda>c. cb_elems (bufs q ! c)) as) @ [x]"
  proof -
    have "map (\<lambda>c. cb_elems ((bufs q)[a := b] ! c)) bs = map (\<lambda>c. cb_elems (bufs q ! c)) bs"
      using bs by (intro map_cong refl arg_cong [where f = cb_elems] nth_list_update_neq) blast
    then have "concat (map (\<lambda>c. cb_elems ((bufs q)[a := b] ! c)) bs) = concat (map (\<lambda>c. cb_elems (bufs q ! c)) bs)"
      by (rule arg_cong)
    then show ?thesis using a b by (simp add: as)
  qed
qed

lemma fq_push_nonfull:
  assumes q: "chain (bufs q) as" "distinct as" "last as = head q" "hd as = tail q"
    and h: "cb_invar (bufs q ! head q)" "\<not> cb_isFull (bufs q ! head q)"
    and o: "\<And>c. c \<in> set (butlast as) \<Longrightarrow> cb_invar (bufs q ! c) \<and> cb_elems (bufs q ! c) \<noteq> []"
    and r: "r = q\<lparr>bufs := (bufs q)[head q := cb_push (Some x) (bufs q ! head q)]\<rparr>"
  shows "fq_rep r as \<and> fq_elems r = concat (map (\<lambda>c. cb_elems (bufs q ! c)) as) @ [x]"
proof -
  let ?b = "cb_push (Some x) (bufs q ! head q)"
  have rep: "fq_rep r as" unfolding r
    by (rule fq_rep_upd(1) [where x = x]) (use q o cb_push_props [OF h] in auto)
  have "concat (map (\<lambda>c. cb_elems ((bufs q)[head q := ?b] ! c)) as)
      = concat (map (\<lambda>c. cb_elems (bufs q ! c)) as) @ [x]"
    by (rule fq_rep_upd(2)) (use q o cb_push_props [OF h] in auto)
  then have "fq_elems r = concat (map (\<lambda>c. cb_elems (bufs q ! c)) as) @ [x]"
    unfolding fq_rep_elems [OF rep] by (simp add: r)
  with rep show ?thesis by blast
qed

lemma fq_push_rep:
  assumes rep: "fq_rep q as"
  shows "\<exists>as'. fq_rep (fq_push (Some x) q) as' \<and> fq_elems (fq_push (Some x) q) = fq_elems q @ [x]"
proof (cases "cb_isFull (bufs q ! head q)")
  case False
  note hd = fq_rep_head [OF rep]
  have "fq_rep (fq_push (Some x) q) as \<and>
      fq_elems (fq_push (Some x) q) = concat (map (\<lambda>c. cb_elems (bufs q ! c)) as) @ [x]"
  proof (rule fq_push_nonfull)
    show "cb_invar (bufs q ! c) \<and> cb_elems (bufs q ! c) \<noteq> []" if "c \<in> set (butlast as)" for c
      using rep that by (cases as rule: rev_cases) (auto simp: fq_rep_def tl_append split: list.splits)
  qed (use rep hd False in \<open>auto simp: fq_push_grow fq_rep_def\<close>)
  then show ?thesis unfolding fq_rep_elems [OF rep] by blast
next
  case True
  let ?n = "length (bufs q)"
  note hd = fq_rep_head [OF rep] and grow = fq_grow_rep [OF rep]
  have full: "cb_elems (bufs q ! head q) \<noteq> []"
    using True hd(2) cb_isFull_iff [OF hd(2)] by (auto simp: kSize_def simp flip: length_0_conv)
  have ne: "cb_elems (bufs q ! a) \<noteq> []" if "a \<in> set as" for a
    using rep full that hd(4) by (cases as) (auto simp: fq_rep_def)
  have new: "\<not> cb_isFull (new_circ_buffer :: 'a circ_buffer)"
    by (simp add: cb_isFull_iff cb_new) (simp add: cb_size_def new_circ_buffer_def kSize_def)
  have heads: "head (fq_grow q) = ?n" "tail (fq_grow q) = tail q" by (simp_all add: fq_grow_def)
  have "fq_rep (fq_push (Some x) q) (as @ [?n]) \<and> fq_elems (fq_push (Some x) q)
      = concat (map (\<lambda>c. cb_elems (bufs (fq_grow q) ! c)) (as @ [?n])) @ [x]"
    by (rule fq_push_nonfull)
      (use True rep hd grow ne new in \<open>auto simp: fq_push_grow Let_def heads fq_rep_def cb_new\<close>)
  moreover have "map (\<lambda>c. cb_elems (bufs (fq_grow q) ! c)) as = map (\<lambda>c. cb_elems (bufs q ! c)) as"
    using grow(3) by (intro map_cong) auto
  ultimately show ?thesis unfolding fq_rep_elems [OF rep] by (auto simp: grow(4) cb_new)
qed

lemma fq_isEmpty_rep:
  assumes rep: "fq_rep q as"
  shows "fq_isEmpty q \<longleftrightarrow> fq_elems q = []"
proof (cases "tl as = []")
  case True
  then have "as = [head q]" using fq_rep_head(4) [OF rep] by (cases as) auto
  then show ?thesis
    using fq_rep_head(2) [OF rep] by (simp add: fq_isEmpty_def fq_rep_elems [OF rep] cb_isEmpty_iff)
next
  case False
  then show ?thesis
    using fq_rep_head(2,3) [OF rep] rep
    by (auto simp: fq_isEmpty_def fq_rep_elems [OF rep] cb_isEmpty_iff fq_rep_def)
qed

lemma fq_shift_rep:
  assumes rep: "fq_rep q as"
  shows "fq_invar (snd (fq_shift q))"
    and "fst (fq_shift q) = (case fq_elems q of [] \<Rightarrow> None | x # _ \<Rightarrow> Some x)"
    and "fq_elems (snd (fq_shift q)) = tl (fq_elems q)"
proof -
  obtain rest where as: "as = tail q # rest" using rep by (cases as) (auto simp: fq_rep_def)
  let ?t = "tail q" let ?c = "bufs q ! ?t" let ?c' = "snd (cb_shift ?c)"
  have inv: "cb_invar ?c" using rep by (simp add: fq_rep_def as)
  have t: "?t < length (bufs q)" "?t \<notin> set rest"
    using fq_rep_head(5) [OF rep] rep by (auto simp: as fq_rep_def)
  have elems: "fq_elems q = cb_elems ?c @ concat (map (\<lambda>a. cb_elems (bufs q ! a)) rest)"
    by (simp add: fq_rep_elems [OF rep] as)
  have c': "cb_invar ?c'" "next_buf ?c' = next_buf ?c" "cb_elems ?c' = tl (cb_elems ?c)"
    "fst (cb_shift ?c) = (case cb_elems ?c of [] \<Rightarrow> None | x # _ \<Rightarrow> Some x)"
    using cb_shift_empty [OF inv] cb_shift_props [OF inv] inv
    by (cases "cb_elems ?c"; auto)+
  let ?q1 = "q\<lparr>bufs := (bufs q)[?t := ?c']\<rparr>"
  have shift: "fq_shift q = (fst (cb_shift ?c),
      if cb_isEmpty ?c' \<and> rest \<noteq> [] then q\<lparr>bufs := (bufs q)[?t := ?c'\<lparr>next_buf := None\<rparr>], tail := hd rest\<rparr>
      else ?q1)"
    using rep c'(2) by (cases rest) (auto simp: fq_shift_def Let_def split_beta as fq_rep_def)
  have nth: "(bufs q)[?t := b] ! a = bufs q ! a" if "a \<in> set rest" for a b
    using t(2) that by (intro nth_list_update_neq) blast
  then have others: "concat (map (\<lambda>a. cb_elems ((bufs q)[?t := b] ! a)) rest)
      = concat (map (\<lambda>a. cb_elems (bufs q ! a)) rest)" for b
    by (intro arg_cong [where f = concat] map_cong) simp_all
  have "fq_invar (snd (fq_shift q)) \<and> fst (fq_shift q) = (case fq_elems q of [] \<Rightarrow> None | x # _ \<Rightarrow> Some x)
      \<and> fq_elems (snd (fq_shift q)) = tl (fq_elems q)"
  proof (cases "cb_isEmpty ?c' \<and> rest \<noteq> []")
    case True
    let ?r = "q\<lparr>bufs := (bufs q)[?t := ?c'\<lparr>next_buf := None\<rparr>], tail := hd rest\<rparr>"
    have "chain (bufs q) rest" using rep True by (cases rest) (auto simp: fq_rep_def as)
    then have "chain (bufs ?r) rest"
      by (rule chain_cong) (simp_all add: nth)
    then have rep': "fq_rep ?r rest"
      using rep True t(2) by (auto simp: fq_rep_def as nth)
    have "cb_elems ?c \<noteq> []" "tl (cb_elems ?c) = []"
      using rep True c' cb_isEmpty_iff [OF c'(1)] by (auto simp: fq_rep_def as)
    then have "\<exists>x. cb_elems ?c = [x]" by (cases "cb_elems ?c") auto
    then show ?thesis
      using rep' True others by (auto simp: shift fq_invar_def elems c'(4) fq_rep_elems [OF rep'])
  next
    case False
    have "chain (bufs ?q1) as"
      by (rule chain_cong [of "bufs q"]) (use rep c' t in \<open>auto simp: fq_rep_def nth_list_update\<close>)
    then have rep': "fq_rep ?q1 as"
      using rep False c' t cb_isEmpty_iff [OF c'(1)] by (auto simp: fq_rep_def as nth)
    have "cb_elems ?c \<noteq> [] \<or> rest = []" using rep by (auto simp: fq_rep_def as)
    then show ?thesis
      using rep' False others t by (auto simp: shift fq_invar_def elems c'(3,4) fq_rep_elems [OF rep'] as
          split: list.split)
  qed
  then show "fq_invar (snd (fq_shift q))"
    and "fst (fq_shift q) = (case fq_elems q of [] \<Rightarrow> None | x # _ \<Rightarrow> Some x)"
    and "fq_elems (snd (fq_shift q)) = tl (fq_elems q)" by blast+
qed

lemma fq_new: "fq_rep new_fixed_queue [0]" "fq_elems new_fixed_queue = []"
proof -
  show "fq_rep new_fixed_queue [0]" by (simp add: fq_rep_def new_fixed_queue_def cb_new)
  from fq_rep_elems [OF this] show "fq_elems new_fixed_queue = []"
    by (simp add: new_fixed_queue_def cb_new)
qed

interpretation fq: fifo_queue new_fixed_queue fq_isEmpty "\<lambda>x. fq_push (Some x)" fq_shift fq_elems fq_invar
proof unfold_locales
  show "fq_invar (new_fixed_queue :: 'a fixed_queue)" using fq_new(1) by (auto simp: fq_invar_def)
  show "fq_elems (new_fixed_queue :: 'a fixed_queue) = []" by (rule fq_new(2))
  show "fq_isEmpty q \<longleftrightarrow> fq_elems q = []" if "fq_invar q" for q :: "'a fixed_queue"
    using that fq_isEmpty_rep by (auto simp: fq_invar_def)
  show "fq_invar (fq_push (Some x) q)" "fq_elems (fq_push (Some x) q) = fq_elems q @ [x]"
    if "fq_invar q" for q :: "'a fixed_queue" and x
    using that fq_push_rep by (fastforce simp: fq_invar_def)+
  show "fq_invar (snd (fq_shift q))" "fst (fq_shift q) = (case fq_elems q of [] \<Rightarrow> None | x # _ \<Rightarrow> Some x)"
    "fq_elems (snd (fq_shift q)) = tl (fq_elems q)" if "fq_invar q" for q :: "'a fixed_queue"
    using that fq_shift_rep by (auto simp: fq_invar_def)
qed

subsection \<open>Every run of the queue\<close>

datatype 'a queue_op = QPush 'a | QShift | QIsEmpty

datatype 'a queue_answer = Pushed | Shifted "'a option" | Empty bool

fun fq_run :: "'a queue_op list \<Rightarrow> 'a fixed_queue \<Rightarrow> 'a queue_answer list" where
  "fq_run [] q = []"
| "fq_run (QPush x # ops) q = Pushed # fq_run ops (fq_push (Some x) q)"
| "fq_run (QShift # ops) q = (case fq_shift q of (r, q') \<Rightarrow> Shifted r # fq_run ops q')"
| "fq_run (QIsEmpty # ops) q = Empty (fq_isEmpty q) # fq_run ops q"

fun list_run :: "'a queue_op list \<Rightarrow> 'a list \<Rightarrow> 'a queue_answer list" where
  "list_run [] xs = []"
| "list_run (QPush x # ops) xs = Pushed # list_run ops (xs @ [x])"
| "list_run (QShift # ops) xs =
     Shifted (case xs of [] \<Rightarrow> None | x # _ \<Rightarrow> Some x) # list_run ops (tl xs)"
| "list_run (QIsEmpty # ops) xs = Empty (xs = []) # list_run ops xs"

lemma fq_run_list: "fq_invar q \<Longrightarrow> fq_run ops q = list_run ops (fq_elems q)"
proof (induction ops q rule: fq_run.induct)
  case (3 ops q)
  obtain r q' where "fq_shift q = (r, q')" by fastforce
  then show ?case
    using 3 fq.invar_shift [of q] fq.shift_value [of q] fq.elems_shift [of q] by simp
qed (simp_all add: fq.invar_push fq.elems_push fq.is_empty_iff)

text \<open>
  C2: a fixed queue is a FIFO queue. Any sequence of operations on a new one gives the answers of a
  plain list: whatever the number of elements, when buffers fill up, are linked, drained, dropped
  or used again.
\<close>

theorem fixed_queue_fifo: "fq_run ops new_fixed_queue = list_run ops []"
  using fq_run_list [OF fq.invar_empty] by (simp add: fq.elems_empty)

end
