(* ===== verification/AsyncIds.thy ===== *)
theory AsyncIds
  imports Prelude
begin

text \<open>
  The async ids of lib/internal/async_hooks.js: the counter, the ids of the running resource, the
  stack of outer ids and the default trigger id. The typed arrays shared with the native side are
  the fields of a record. The array of the stack has a fixed size; the push and the pop of
  src/internal_binding/binding_async_wrap.cc, which the JavaScript calls in some cases, have a vector
  of their own for what does not fit. An id is a number of a Float64Array, and \<open>None\<close> is its NaN.
  A hook is its counter being positive; the calls of the hooks are recorded in a trace. The array of
  the running resources is not modelled.
\<close>

type_synonym async_num = "nat option"

datatype hook_event =
    HookInit nat string async_num
  | HookBefore nat
  | HookAfter nat
  | HookDestroy nat

record async_fields =
  asyncIdCounter :: nat
  executionId :: async_num
  triggerId :: async_num
  defaultTriggerId :: int
  stackLength :: nat
  idStack :: "(async_num \<times> async_num) list"
  overflowStack :: "(async_num \<times> async_num) list"
  kInit :: nat
  kBefore :: nat
  kAfter :: nat
  kDestroy :: nat
  kCheck :: nat
  hookTrace :: "hook_event list"

definition newAsyncId :: "async_fields \<Rightarrow> nat \<times> async_fields" where
  "newAsyncId a = (let i = asyncIdCounter a + 1 in (i, a\<lparr>asyncIdCounter := i\<rparr>))"

definition getDefaultTriggerAsyncId :: "async_fields \<Rightarrow> async_num" where
  "getDefaultTriggerAsyncId a =
     (if defaultTriggerId a < 0 then executionId a else Some (nat (defaultTriggerId a)))"

definition clearDefaultTriggerAsyncId :: "async_fields \<Rightarrow> async_fields" where
  "clearDefaultTriggerAsyncId a = a\<lparr>defaultTriggerId := -1\<rparr>"

text \<open>The default trigger id is restored whether the block returns or throws.\<close>

definition defaultTriggerAsyncIdScope ::
  "int option \<Rightarrow> (async_fields \<Rightarrow> 'r result \<times> async_fields) \<Rightarrow> async_fields \<Rightarrow> 'r result \<times> async_fields" where
  "defaultTriggerAsyncIdScope trigger block a =
     (case trigger of
        None \<Rightarrow> block a
      | Some t \<Rightarrow> (let old = defaultTriggerId a; (r, a') = block (a\<lparr>defaultTriggerId := t\<rparr>)
                   in (r, a'\<lparr>defaultTriggerId := old\<rparr>)))"

definition enabledHooksExist :: "async_fields \<Rightarrow> bool" where
  "enabledHooksExist a \<longleftrightarrow> kCheck a > 0"

definition initHooksExist :: "async_fields \<Rightarrow> bool" where
  "initHooksExist a \<longleftrightarrow> kInit a > 0"

definition trace_hook :: "hook_event \<Rightarrow> async_fields \<Rightarrow> async_fields" where
  "trace_hook e a = a\<lparr>hookTrace := hookTrace a @ [e]\<rparr>"

subsection \<open>The stack\<close>

text \<open>\<open>PushAsyncContextImpl\<close> and \<open>PopAsyncContextImpl\<close> of the native side. A vector grows with zeros.\<close>

definition native_push :: "nat \<Rightarrow> async_num \<Rightarrow> async_fields \<Rightarrow> async_fields" where
  "native_push asyncId trigger a =
     (let offset = stackLength a; capacity = length (idStack a); ids = (executionId a, triggerId a);
          a = (if offset < capacity then a\<lparr>idStack := (idStack a)[offset := ids]\<rparr>
               else (let base = offset - capacity; vec = overflowStack a;
                         vec = (if length vec < base + 1 then vec @ replicate (base + 1 - length vec) (Some 0, Some 0)
                                else vec)
                     in a\<lparr>overflowStack := vec[base := ids]\<rparr>))
      in a\<lparr>stackLength := offset + 1, executionId := Some asyncId, triggerId := trigger\<rparr>)"

definition native_pop :: "nat \<Rightarrow> async_fields \<Rightarrow> bool \<times> async_fields" where
  "native_pop asyncId a =
     (if stackLength a \<noteq> 0 \<and> \<not> (kCheck a > 0 \<and> executionId a \<noteq> Some asyncId) then
        (let offset = stackLength a - 1; capacity = length (idStack a); base = offset - capacity;
             a = (if offset < capacity then
                    a\<lparr>executionId := fst (idStack a ! offset), triggerId := snd (idStack a ! offset)\<rparr>
                  else if base + 1 \<le> length (overflowStack a) then
                    a\<lparr>executionId := fst (overflowStack a ! base), triggerId := snd (overflowStack a ! base),
                      overflowStack := take base (overflowStack a)\<rparr>
                  else a\<lparr>executionId := Some 0, triggerId := Some 0\<rparr>)
         in (offset > 0, a\<lparr>stackLength := offset\<rparr>))
      else (False, a))"

definition pushAsyncContext :: "nat \<Rightarrow> async_num \<Rightarrow> async_fields \<Rightarrow> async_fields" where
  "pushAsyncContext asyncId trigger a =
     (let offset = stackLength a
      in if offset \<ge> length (idStack a) then native_push asyncId trigger a
         else a\<lparr>idStack := (idStack a)[offset := (executionId a, triggerId a)], stackLength := offset + 1,
                executionId := Some asyncId, triggerId := trigger\<rparr>)"

text \<open>Past its end a typed array reads undefined, which is NaN in another.\<close>

definition stack_read :: "async_fields \<Rightarrow> nat \<Rightarrow> async_num \<times> async_num" where
  "stack_read a offset = (if offset < length (idStack a) then idStack a ! offset else (None, None))"

definition popAsyncContext :: "nat \<Rightarrow> async_fields \<Rightarrow> bool \<times> async_fields" where
  "popAsyncContext asyncId a =
     (if stackLength a = 0 then (False, a)
      else if enabledHooksExist a \<and> executionId a \<noteq> Some asyncId then native_pop asyncId a
      else (let offset = stackLength a - 1
            in (offset > 0,
                a\<lparr>executionId := fst (stack_read a offset), triggerId := snd (stack_read a offset), stackLength := offset\<rparr>)))"

definition emitInit :: "nat \<Rightarrow> string \<Rightarrow> async_num option \<Rightarrow> async_fields \<Rightarrow> async_fields" where
  "emitInit asyncId type trigger a =
     (if kInit a = 0 then a
      else trace_hook (HookInit asyncId type
             (case trigger of None \<Rightarrow> getDefaultTriggerAsyncId a | Some t \<Rightarrow> t)) a)"

definition emitBefore :: "nat \<Rightarrow> async_num \<Rightarrow> async_fields \<Rightarrow> async_fields" where
  "emitBefore asyncId trigger a =
     (let a = pushAsyncContext asyncId trigger a
      in if kBefore a > 0 then trace_hook (HookBefore asyncId) a else a)"

definition emitAfter :: "nat \<Rightarrow> async_fields \<Rightarrow> async_fields" where
  "emitAfter asyncId a =
     snd (popAsyncContext asyncId (if kAfter a > 0 then trace_hook (HookAfter asyncId) a else a))"

definition emitDestroy :: "nat \<Rightarrow> async_fields \<Rightarrow> async_fields" where
  "emitDestroy asyncId a =
     (if kDestroy a = 0 \<or> asyncId = 0 then a else trace_hook (HookDestroy asyncId) a)"

subsection \<open>Nesting\<close>

text \<open>
  The ids of the running resource and those it will be left to: everything but the counter, the
  trace, and what lies beyond the length of the stack.
\<close>

definition async_context :: "async_fields \<Rightarrow> async_num \<times> async_num \<times> nat \<times> nat \<times> (async_num \<times> async_num) list" where
  "async_context a = (executionId a, triggerId a, stackLength a, length (idStack a), take (stackLength a) (idStack a))"

text \<open>There is room in the array for one context more.\<close>

definition stack_room :: "async_fields \<Rightarrow> bool" where
  "stack_room a \<longleftrightarrow> stackLength a < length (idStack a)"

lemma stack_room_cong: "async_context a = async_context b \<Longrightarrow> stack_room a = stack_room b"
  by (simp add: async_context_def stack_room_def)

named_theorems async_simps

lemma async_context_simps [async_simps]:
  "async_context (trace_hook e a) = async_context a"
  "async_context (snd (newAsyncId a)) = async_context a"
  "async_context (emitInit i t tr a) = async_context a"
  "async_context (emitDestroy i a) = async_context a"
  by (simp_all add: async_context_def trace_hook_def newAsyncId_def emitInit_def emitDestroy_def Let_def)

lemma asyncIdCounter_stack [async_simps]:
  "asyncIdCounter (trace_hook e a) = asyncIdCounter a"
  "asyncIdCounter (emitBefore i t a) = asyncIdCounter a"
  "asyncIdCounter (emitAfter i a) = asyncIdCounter a"
  by (simp_all add: trace_hook_def emitBefore_def emitAfter_def pushAsyncContext_def popAsyncContext_def native_push_def
      native_pop_def Let_def)

lemma emitBefore_context:
  "executionId (emitBefore i t a) = Some i" "triggerId (emitBefore i t a) = t"
  "stackLength (emitBefore i t a) = stackLength a + 1"
  "idStack (emitBefore i t a) = (idStack a)[stackLength a := (executionId a, triggerId a)]"
  by (simp_all add: emitBefore_def pushAsyncContext_def native_push_def trace_hook_def Let_def list_update_beyond)

lemma emitAfter_balanced:
  assumes "async_context b = async_context (emitBefore i t a)"
  shows "stack_room a \<Longrightarrow> async_context (emitAfter i b) = async_context a"
    and "\<not> stack_room a \<Longrightarrow> executionId (emitAfter i b) = None \<and> triggerId (emitAfter i b) = None \<and>
      stackLength (emitAfter i b) = stackLength a"
proof -
  let ?n = "stackLength a"
  have b: "executionId b = Some i" "stackLength b = ?n + 1" "length (idStack b) = length (idStack a)"
    "take (?n + 1) (idStack b) = take (?n + 1) ((idStack a)[?n := (executionId a, triggerId a)])"
    using assms by (auto simp: async_context_def emitBefore_context)
  have after: "emitAfter i b = (let b' = (if kAfter b > 0 then trace_hook (HookAfter i) b else b)
      in b'\<lparr>executionId := fst (stack_read b ?n), triggerId := snd (stack_read b ?n), stackLength := ?n\<rparr>)"
    using b(1,2) by (simp add: emitAfter_def popAsyncContext_def trace_hook_def stack_read_def Let_def)
  show "executionId (emitAfter i b) = None \<and> triggerId (emitAfter i b) = None \<and> stackLength (emitAfter i b) = ?n"
    if "\<not> stack_room a"
    using that b(3) by (simp add: after stack_read_def stack_room_def trace_hook_def)
  assume "stack_room a"
  then have n: "?n < length (idStack a)" by (simp add: stack_room_def)
  have "idStack b ! ?n = take (?n + 1) (idStack b) ! ?n" by simp
  also have "\<dots> = (executionId a, triggerId a)" unfolding b(4) using n by simp
  finally have top: "stack_read b ?n = (executionId a, triggerId a)" using n b(3) by (simp add: stack_read_def)
  have "take ?n (idStack b) = take ?n (take (?n + 1) (idStack b))" by simp
  also have "\<dots> = take ?n (idStack a)" unfolding b(4) by simp
  finally show "async_context (emitAfter i b) = async_context a"
    using b(3) by (simp add: after top async_context_def trace_hook_def)
qed

text \<open>
  C17: a callback runs between \<open>emitBefore\<close> and \<open>emitAfter\<close> of one id. If what happens in between
  leaves the ids of the running resource as it found them, then, hooks or not, the ids after
  \<open>emitAfter\<close> are those from before the callback where the array had room for them, with 32 numbers
  for 16 contexts. Where it had none they are NaN: the push goes to the native vector, the pop reads
  past the end of the array.
\<close>

theorem async_ids_nested:
  assumes "async_context (body (emitBefore i t a)) = async_context (emitBefore i t a)"
  shows "(if stack_room a then async_context (emitAfter i (body (emitBefore i t a))) = async_context a
     else executionId (emitAfter i (body (emitBefore i t a))) = None \<and>
          triggerId (emitAfter i (body (emitBefore i t a))) = None \<and>
          stackLength (emitAfter i (body (emitBefore i t a))) = stackLength a)"
  using emitAfter_balanced [OF assms] by simp

text \<open>The fields as the binding makes them.\<close>

definition idle_fields :: async_fields where
  "idle_fields = \<lparr>asyncIdCounter = 1, executionId = Some 0, triggerId = Some 0, defaultTriggerId = -1, stackLength = 0,
     idStack = replicate 16 (Some 0, Some 0), overflowStack = [],
     kInit = 0, kBefore = 0, kAfter = 0, kDestroy = 0, kCheck = 1, hookTrace = []\<rparr>"

theorem async_ids_nested_witness:
  "async_context (emitAfter 7 (snd (newAsyncId (emitBefore 7 (Some 1) (idle_fields\<lparr>kAfter := 1\<rparr>))))) =
     async_context (idle_fields\<lparr>kAfter := 1\<rparr>) \<and>
   executionId (emitAfter 7 (snd (newAsyncId (emitBefore 7 (Some 1) (idle_fields\<lparr>stackLength := 16\<rparr>))))) = None"
  using async_ids_nested [of "\<lambda>b. snd (newAsyncId b)" 7 "Some 1" "idle_fields\<lparr>kAfter := 1\<rparr>"]
    async_ids_nested [of "\<lambda>b. snd (newAsyncId b)" 7 "Some 1" "idle_fields\<lparr>stackLength := 16\<rparr>"]
  by (simp add: async_simps stack_room_def idle_fields_def)

end
