(* ===== verification/TickQueue.thy ===== *)
theory TickQueue
  imports FixedQueue AsyncIds "HOL-Library.Sublist"
begin

text \<open>
  The next-tick queue of lib/internal/process/task_queues.js, a client of the fixed queue.
  What runs inside a callback, a microtask or the handling of promise rejections is a script of the
  host: it may call \<open>nextTick\<close> any number of times, take async ids, change the context frame, begin
  the exit of the process, and end by returning or throwing.
\<close>

subsection \<open>State\<close>

record tick_object =
  async_id :: nat
  trigger_async_id :: async_num
  async_context_frame :: nat
  tick_callback :: nat
  tick_args :: "jsval list option"

record 'w tick_state =
  queue :: "tick_object fixed_queue"
  tickScheduled :: bool
  rejectionToWarn :: bool
  async :: async_fields
  contextFrame :: nat
  exiting :: bool
  called :: "(tick_object \<times> jsval list) list"
  world :: 'w

datatype 'w script =
    Return bool 'w
  | Throw jserror 'w
  | NextTick "jsval list" "unit result \<Rightarrow> 'w script"
  | NewAsyncId "nat \<Rightarrow> 'w script"
  | EnterFrame nat "'w script"
  | Exit "'w script"

text \<open>The code the queue calls and does not contain.\<close>

record 'w host =
  callback_body :: "nat \<Rightarrow> jsval list \<Rightarrow> 'w \<Rightarrow> 'w script"
  microtasks :: "'w \<Rightarrow> 'w script"
  rejections :: "'w \<Rightarrow> 'w script"

datatype outcome = Done | Threw jserror

subsection \<open>nextTick\<close>

text \<open>The arguments are those of the call, the callback first.\<close>

definition tick_args_of :: "jsval list \<Rightarrow> jsval list option" where
  "tick_args_of arguments = (if length arguments = 1 then None else Some (tl arguments))"

definition validateCallback :: "jsval list \<Rightarrow> nat result" where
  "validateCallback arguments =
     (case arguments of
        JFunction f # _ \<Rightarrow> Inr f
      | _ \<Rightarrow> Inl (ERR_INVALID_ARG_TYPE ''callback'' ''Function''))"

definition nextTick :: "jsval list \<Rightarrow> 'w tick_state \<Rightarrow> unit result \<times> 'w tick_state" where
  "nextTick arguments st =
     (case validateCallback arguments of
        Inl e \<Rightarrow> (Inl e, st)
      | Inr f \<Rightarrow>
          if exiting st then (Inr (), st)
          else
            (let args = tick_args_of arguments;
                 st = (if fq_isEmpty (queue st) then st\<lparr>tickScheduled := True\<rparr> else st);
                 (asyncId, a) = newAsyncId (async st);
                 triggerAsyncId = getDefaultTriggerAsyncId a;
                 tick = \<lparr>async_id = asyncId, trigger_async_id = triggerAsyncId,
                         async_context_frame = contextFrame st, tick_callback = f, tick_args = args\<rparr>;
                 a = (if initHooksExist a then emitInit asyncId ''TickObject'' (Some triggerAsyncId) a else a)
             in (Inr (), st\<lparr>async := a, queue := fq_push (Some tick) (queue st)\<rparr>)))"

text \<open>A script runs to its end: the result is its return value or what it throws.\<close>

primrec run_script :: "'w script \<Rightarrow> 'w tick_state \<Rightarrow> bool result \<times> 'w tick_state" where
  "run_script (Return b w) st = (Inr b, st\<lparr>world := w\<rparr>)"
| "run_script (Throw e w) st = (Inl e, st\<lparr>world := w\<rparr>)"
| "run_script (NextTick arguments k) st =
     (let r = nextTick arguments st in run_script (k (fst r)) (snd r))"
| "run_script (NewAsyncId k) st =
     (let r = newAsyncId (async st) in run_script (k (fst r)) (st\<lparr>async := snd r\<rparr>))"
| "run_script (EnterFrame f k) st = run_script k (st\<lparr>contextFrame := f\<rparr>)"
| "run_script (Exit k) st = run_script k (st\<lparr>exiting := True\<rparr>)"

subsection \<open>processTicksAndRejections\<close>

text \<open>
  One turn of the inner loop, for the object \<open>tock\<close> that was shifted: the frame is exchanged, the
  ids are pushed, the callback is called with its arguments, \<open>destroy\<close> is emitted even when it throws,
  and only a callback that returned gets its \<open>after\<close> and the old frame.
\<close>

definition call_tock :: "'w host \<Rightarrow> tick_object \<Rightarrow> 'w tick_state \<Rightarrow> bool result \<times> 'w tick_state" where
  "call_tock h tock st =
     (let args = (case tick_args tock of None \<Rightarrow> [] | Some args \<Rightarrow> args);
          st = st\<lparr>called := called st @ [(tock, args)]\<rparr>
      in run_script (callback_body h (tick_callback tock) args (world st)) st)"

definition run_tock :: "'w host \<Rightarrow> tick_object \<Rightarrow> 'w tick_state \<Rightarrow> outcome \<times> 'w tick_state" where
  "run_tock h tock st =
     (let priorContextFrame = contextFrame st;
          st = st\<lparr>contextFrame := async_context_frame tock\<rparr>;
          asyncId = async_id tock;
          st = st\<lparr>async := emitBefore asyncId (trigger_async_id tock) (async st)\<rparr>;
          (r, st) = call_tock h tock st;
          st = st\<lparr>async := emitDestroy asyncId (async st)\<rparr>
      in case r of
           Inl e \<Rightarrow> (Threw e, st)
         | Inr _ \<Rightarrow> (Done, st\<lparr>async := emitAfter asyncId (async st), contextFrame := priorContextFrame\<rparr>))"

text \<open>
  The loops. The queue may never run dry, so the number of turns is bounded by fuel, and \<open>None\<close> is a
  run that is not over. When the queue is empty the microtasks run, and the loop goes on as long as
  they, or the rejections, leave something to do.
\<close>

definition end_of_ticks :: "'w tick_state \<Rightarrow> 'w tick_state" where
  "end_of_ticks st = st\<lparr>tickScheduled := False, rejectionToWarn := False\<rparr>"

fun process_ticks :: "nat \<Rightarrow> 'w host \<Rightarrow> 'w tick_state \<Rightarrow> (outcome \<times> 'w tick_state) option" where
  "process_ticks 0 h st = None"
| "process_ticks (Suc n) h st =
     (case fq_shift (queue st) of
        (Some tock, q) \<Rightarrow>
          (case run_tock h tock (st\<lparr>queue := q\<rparr>) of
             (Done, st') \<Rightarrow> process_ticks n h st'
           | (out, st') \<Rightarrow> Some (out, st'))
      | (None, q) \<Rightarrow>
          (case run_script (microtasks h (world st)) (st\<lparr>queue := q\<rparr>) of
             (Inl e, st') \<Rightarrow> Some (Threw e, st')
           | (Inr _, st') \<Rightarrow>
               if \<not> fq_isEmpty (queue st') then process_ticks n h st'
               else (case run_script (rejections h (world st')) st' of
                       (Inl e, st'') \<Rightarrow> Some (Threw e, st'')
                     | (Inr again, st'') \<Rightarrow>
                         if again then process_ticks n h st'' else Some (Done, end_of_ticks st''))))"

definition runNextTicks :: "nat \<Rightarrow> 'w host \<Rightarrow> 'w tick_state \<Rightarrow> (outcome \<times> 'w tick_state) option" where
  "runNextTicks n h st =
     (let idle = (\<lambda>st. \<not> tickScheduled st \<and> \<not> rejectionToWarn st)
      in case (if idle st then run_script (microtasks h (world st)) st else (Inr False, st)) of
           (Inl e, st') \<Rightarrow> Some (Threw e, st')
         | (Inr _, st') \<Rightarrow> if idle st' then Some (Done, st') else process_ticks n h st')"

subsection \<open>The agenda\<close>

text \<open>
  The agenda is what has been called, in order, followed by what waits in the queue. Nothing is ever
  removed from it: \<open>nextTick\<close> adds one object at its end and the loop only moves the boundary.
\<close>

definition agenda :: "'w tick_state \<Rightarrow> tick_object list" where
  "agenda st = map fst (called st) @ fq_elems (queue st)"

definition tick_ok :: "'w tick_state \<Rightarrow> bool" where
  "tick_ok st \<longleftrightarrow> fq_invar (queue st) \<and> (fq_elems (queue st) \<noteq> [] \<longrightarrow> tickScheduled st) \<and>
     sorted_wrt (<) (map async_id (agenda st)) \<and> (\<forall>t \<in> set (agenda st). async_id t \<le> asyncIdCounter (async st))"

definition tick_ext :: "'w tick_state \<Rightarrow> 'w tick_state \<Rightarrow> bool" where
  "tick_ext st st' \<longleftrightarrow> tick_ok st' \<and> prefix (agenda st) (agenda st') \<and> prefix (called st) (called st')"

lemma tick_ext_refl: "tick_ok st \<Longrightarrow> tick_ext st st"
  by (simp add: tick_ext_def)

lemma tick_ext_trans: "tick_ext a b \<Longrightarrow> tick_ext b c \<Longrightarrow> tick_ext a c"
  unfolding tick_ext_def by (auto intro: prefix_order.trans)

lemma tick_ext_ok: "tick_ext a b \<Longrightarrow> tick_ok b"
  by (simp add: tick_ext_def)

definition new_tick :: "nat \<Rightarrow> jsval list \<Rightarrow> 'w tick_state \<Rightarrow> tick_object" where
  "new_tick f arguments st =
     \<lparr>async_id = asyncIdCounter (async st) + 1,
      trigger_async_id = getDefaultTriggerAsyncId (async st),
      async_context_frame = contextFrame st, tick_callback = f, tick_args = tick_args_of arguments\<rparr>"

lemma trigger_new [simp]: "getDefaultTriggerAsyncId (a\<lparr>asyncIdCounter := i\<rparr>) = getDefaultTriggerAsyncId a"
  by (simp add: getDefaultTriggerAsyncId_def)

lemma counter_simps [async_simps]:
  "asyncIdCounter (emitInit i t tr a) = asyncIdCounter a"
  "asyncIdCounter (emitDestroy i a) = asyncIdCounter a"
  by (simp_all add: trace_hook_def emitInit_def emitDestroy_def)

lemma nextTick_push:
  assumes "validateCallback arguments = Inr f" "\<not> exiting st" "fq_invar (queue st)"
  defines "st' \<equiv> snd (nextTick arguments st)"
  shows "fst (nextTick arguments st) = Inr ()"
    "fq_invar (queue st')" "fq_elems (queue st') = fq_elems (queue st) @ [new_tick f arguments st]"
    "called st' = called st" "asyncIdCounter (async st') = asyncIdCounter (async st) + 1"
    "async_context (async st') = async_context (async st)"
    "tickScheduled st' = (tickScheduled st \<or> fq_elems (queue st) = [])" "contextFrame st' = contextFrame st"
  unfolding st'_def using assms(1-3)
  by (auto simp: nextTick_def newAsyncId_def new_tick_def Let_def async_simps fq.elems_push fq.invar_push
      fq.is_empty_iff async_context_def emitInit_def trace_hook_def)

lemma nextTick_ext:
  assumes "tick_ok st"
  shows "tick_ext st (snd (nextTick arguments st)) \<and> called (snd (nextTick arguments st)) = called st \<and>
    async_context (async (snd (nextTick arguments st))) = async_context (async st)"
proof (cases "\<exists>f. validateCallback arguments = Inr f \<and> \<not> exiting st")
  case True
  then obtain f where f: "validateCallback arguments = Inr f" "\<not> exiting st" by blast
  note push = nextTick_push [OF f]
  have inv: "fq_invar (queue st)" using assms by (simp add: tick_ok_def)
  have ag: "agenda (snd (nextTick arguments st)) = agenda st @ [new_tick f arguments st]"
    using push [OF inv] by (simp add: agenda_def)
  then have "tick_ok (snd (nextTick arguments st))"
    using push [OF inv] assms by (fastforce simp: tick_ok_def sorted_wrt_append new_tick_def)
  then show ?thesis using ag push [OF inv] by (simp add: tick_ext_def)
next
  case False
  then have "snd (nextTick arguments st) = st"
    by (auto simp: nextTick_def split: sum.split)
  then show ?thesis using assms by (simp add: tick_ext_refl)
qed

lemma tick_ok_counter: "tick_ok st \<Longrightarrow> tick_ok (st\<lparr>async := snd (newAsyncId (async st))\<rparr>)"
  unfolding tick_ok_def by (auto simp: agenda_def newAsyncId_def Let_def intro: le_SucI)

lemma script_ext:
  assumes "tick_ok st"
  shows "tick_ext st (snd (run_script s st)) \<and> called (snd (run_script s st)) = called st \<and>
    async_context (async (snd (run_script s st))) = async_context (async st)"
  using assms
proof (induction s arbitrary: st)
  case (NextTick arguments k)
  let ?st = "snd (nextTick arguments st)"
  have "tick_ext st ?st \<and> called ?st = called st \<and> async_context (async ?st) = async_context (async st)"
    by (rule nextTick_ext [OF NextTick.prems])
  then show ?case
    using NextTick.IH [OF rangeI, of ?st] by (auto simp: Let_def intro: tick_ext_trans dest: tick_ext_ok)
next
  case (NewAsyncId k)
  let ?st = "st\<lparr>async := snd (newAsyncId (async st))\<rparr>"
  have ok: "tick_ok ?st" by (rule tick_ok_counter [OF NewAsyncId.prems])
  moreover have "tick_ext st ?st" using ok by (simp add: tick_ext_def agenda_def)
  ultimately show ?case
    using NewAsyncId.IH [OF rangeI, of ?st] by (auto simp: Let_def async_simps intro: tick_ext_trans)
next
  case (EnterFrame f k)
  then show ?case using EnterFrame.IH [of "st\<lparr>contextFrame := f\<rparr>"]
    by (simp add: tick_ext_def tick_ok_def agenda_def)
next
  case (Exit k)
  then show ?case using Exit.IH [of "st\<lparr>exiting := True\<rparr>"]
    by (simp add: tick_ext_def tick_ok_def agenda_def)
qed (simp_all add: tick_ext_def tick_ok_def agenda_def)

subsection \<open>The loop\<close>

lemma tick_ok_cong:
  "queue st' = queue st \<Longrightarrow> called st' = called st \<Longrightarrow> tickScheduled st' = tickScheduled st \<Longrightarrow>
   asyncIdCounter (async st') = asyncIdCounter (async st) \<Longrightarrow> tick_ok st' = tick_ok st \<and> agenda st' = agenda st"
  by (simp add: tick_ok_def agenda_def)

text \<open>The state in which the callback of the shifted object starts.\<close>

definition started :: "tick_object \<Rightarrow> 'w tick_state \<Rightarrow> 'w tick_state" where
  "started t st = st\<lparr>contextFrame := async_context_frame t,
     async := emitBefore (async_id t) (trigger_async_id t) (async st),
     called := called st @ [(t, case tick_args t of None \<Rightarrow> [] | Some args \<Rightarrow> args)]\<rparr>"

lemma call_tock_started:
  "call_tock h t (st\<lparr>contextFrame := async_context_frame t,
       async := emitBefore (async_id t) (trigger_async_id t) (async st)\<rparr>)
    = run_script (callback_body h (tick_callback t) (case tick_args t of None \<Rightarrow> [] | Some args \<Rightarrow> args) (world st))
        (started t st)"
  by (simp add: call_tock_def started_def Let_def)

lemma started_ext:
  assumes "tick_ok st" "fq_shift (queue st) = (Some t, q)"
  shows "tick_ext st (started t (st\<lparr>queue := q\<rparr>)) \<and> agenda (started t (st\<lparr>queue := q\<rparr>)) = agenda st"
proof -
  have q: "fq_invar q" "fq_elems (queue st) = t # fq_elems q"
    using fq.shift_SomeD [OF _ assms(2)] assms(1) by (auto simp: tick_ok_def)
  then have "agenda (started t (st\<lparr>queue := q\<rparr>)) = agenda st" by (simp add: agenda_def started_def)
  moreover from this have "tick_ok (started t (st\<lparr>queue := q\<rparr>))"
    using assms(1) q unfolding tick_ok_def by (simp add: started_def async_simps)
  ultimately show ?thesis by (simp add: tick_ext_def started_def)
qed

lemma run_tock_ext:
  assumes "tick_ok st" "fq_shift (queue st) = (Some t, q)" "run_tock h t (st\<lparr>queue := q\<rparr>) = (out, st')"
  shows "tick_ext st st' \<and> (out = Done \<longrightarrow> contextFrame st' = contextFrame st \<and>
      (stack_room (async st) \<longrightarrow> async_context (async st') = async_context (async st)))"
proof -
  let ?s0 = "started t (st\<lparr>queue := q\<rparr>)"
  obtain r s1 where r: "run_script (callback_body h (tick_callback t)
      (case tick_args t of None \<Rightarrow> [] | Some args \<Rightarrow> args) (world st)) ?s0 = (r, s1)"
    by fastforce
  have s0: "tick_ext st ?s0" using started_ext [OF assms(1,2)] by blast
  then have s1: "tick_ext st s1" "async_context (async s1) = async_context (async ?s0)"
    using script_ext [OF tick_ext_ok [OF s0], of "callback_body h (tick_callback t)
      (case tick_args t of None \<Rightarrow> [] | Some args \<Rightarrow> args) (world st)"] r by (auto intro: tick_ext_trans)
  define s2 where "s2 = s1\<lparr>async := emitDestroy (async_id t) (async s1)\<rparr>"
  have s2: "tick_ext st s2" using s1(1)
    unfolding tick_ext_def s2_def by (subst (asm) tick_ok_cong [of s1 s2]) (simp_all add: s2_def async_simps agenda_def tick_ok_def)
  have ctx: "async_context (async s2) = async_context (emitBefore (async_id t) (trigger_async_id t) (async st))"
    using s1(2) by (simp add: s2_def async_simps started_def)
  define s3 where "s3 = s2\<lparr>async := emitAfter (async_id t) (async s2), contextFrame := contextFrame st\<rparr>"
  have run: "(out, st') = (case r of Inl e \<Rightarrow> (Threw e, s2) | Inr _ \<Rightarrow> (Done, s3))"
    using assms(3) r call_tock_started [of h t "st\<lparr>queue := q\<rparr>"]
    by (auto simp: run_tock_def Let_def s2_def s3_def split: sum.splits)
  have "tick_ext st s3"
    using s2 tick_ok_cong [of s3 s2] by (simp add: tick_ext_def s3_def async_simps)
  moreover have "stack_room (async st) \<Longrightarrow> async_context (async s3) = async_context (async st)"
    using emitAfter_balanced(1) [OF ctx] by (simp add: s3_def)
  ultimately show ?thesis using run s2 by (cases r) (auto simp: s3_def)
qed

lemma drained_ok:
  assumes "tick_ok st" "fq_shift (queue st) = (None, q)"
  shows "tick_ext st (st\<lparr>queue := q\<rparr>)"
  using fq.shift_NoneD [OF _ assms(2)] assms(1) by (auto simp: tick_ext_def tick_ok_def agenda_def)

definition settled :: "'w tick_state \<Rightarrow> bool" where
  "settled st \<longleftrightarrow> fq_elems (queue st) = [] \<and> \<not> tickScheduled st \<and> \<not> rejectionToWarn st"

text \<open>Handling rejections answers true when it scheduled ticks.\<close>

definition rejections_report :: "'w host \<Rightarrow> bool" where
  "rejections_report h \<longleftrightarrow> (\<forall>w st st'. run_script (rejections h w) st = (Inr False, st') \<longrightarrow> queue st' = queue st)"

lemma end_of_ticks_ext:
  assumes "tick_ext st st'" "fq_elems (queue st') = []"
  shows "tick_ext st (end_of_ticks st')"
  using assms by (simp add: tick_ext_def tick_ok_def agenda_def end_of_ticks_def)

lemma process_ticks_ext:
  assumes "process_ticks n h st = Some (out, st')" "tick_ok st" "rejections_report h"
  shows "tick_ext st st' \<and> (out = Done \<longrightarrow> settled st' \<and>
      (stack_room (async st) \<longrightarrow> async_context (async st') = async_context (async st)))"
  using assms(1,2)
proof (induction n arbitrary: st)
  case (Suc n)
  obtain o' q where shift: "fq_shift (queue st) = (o', q)" by fastforce
  show ?case
  proof (cases o')
    case (Some t)
    obtain out1 s1 where run: "run_tock h t (st\<lparr>queue := q\<rparr>) = (out1, s1)" by fastforce
    have e: "tick_ext st s1"
        "out1 = Done \<Longrightarrow> stack_room (async st) \<Longrightarrow> async_context (async s1) = async_context (async st)"
      using run_tock_ext [OF Suc.prems(2) _ run] shift Some by auto
    then show ?thesis
      using Suc.IH [of s1] Suc.prems(1) shift Some run tick_ext_ok [OF e(1)] stack_room_cong [of "async s1" "async st"]
      by (cases out1) (auto intro: tick_ext_trans)
  next
    case None
    let ?s0 = "st\<lparr>queue := q\<rparr>"
    obtain r1 s1 where r1: "run_script (microtasks h (world st)) ?s0 = (r1, s1)" by fastforce
    have s0: "tick_ext st ?s0" using drained_ok [OF Suc.prems(2)] shift None by blast
    have s1: "tick_ext st s1" "async_context (async s1) = async_context (async st)"
      using script_ext [OF tick_ext_ok [OF s0], of "microtasks h (world st)"] r1 s0 by (auto intro: tick_ext_trans)
    obtain r2 s2 where r2: "run_script (rejections h (world s1)) s1 = (r2, s2)" by fastforce
    have s2: "tick_ext st s2" "async_context (async s2) = async_context (async st)"
      using script_ext [OF tick_ext_ok [OF s1(1)], of "rejections h (world s1)"] r2 s1 by (auto intro: tick_ext_trans)
    have empty: "fq_isEmpty (queue s1) \<longleftrightarrow> fq_elems (queue s1) = []"
      using tick_ext_ok [OF s1(1)] by (simp add: tick_ok_def fq.is_empty_iff)
    note room = stack_room_cong [OF s1(2)] stack_room_cong [OF s2(2)]
    have report: "r2 = Inr False \<Longrightarrow> queue s2 = queue s1"
      using assms(3) r2 unfolding rejections_report_def by blast
    consider e where "r1 = Inl e" | b where "r1 = Inr b" "\<not> fq_isEmpty (queue s1)"
      | b e where "r1 = Inr b" "fq_isEmpty (queue s1)" "r2 = Inl e"
      | b where "r1 = Inr b" "fq_isEmpty (queue s1)" "r2 = Inr True"
      | b where "r1 = Inr b" "fq_isEmpty (queue s1)" "r2 = Inr False"
      by (cases r1; cases r2) auto
    then show ?thesis
    proof cases
      case 2
      then have "process_ticks n h s1 = Some (out, st')" using Suc.prems(1) shift None r1 by simp
      then show ?thesis using Suc.IH [of s1] tick_ext_ok [OF s1(1)] s1 room by (auto intro: tick_ext_trans)
    next
      case 4
      then have "process_ticks n h s2 = Some (out, st')" using Suc.prems(1) shift None r1 r2 by simp
      then show ?thesis using Suc.IH [of s2] tick_ext_ok [OF s2(1)] s2 room by (auto intro: tick_ext_trans)
    next
      case 5
      then have "out = Done" "st' = end_of_ticks s2" using Suc.prems(1) shift None r1 r2 by simp_all
      moreover have "fq_elems (queue s2) = []" using 5 empty report by simp
      ultimately show ?thesis using end_of_ticks_ext [OF s2(1)] s2(2)
        by (auto simp: settled_def end_of_ticks_def)
    qed (use Suc.prems(1) shift None r1 r2 s1 s2 in auto)
  qed
qed simp

subsection \<open>Progress\<close>

text \<open>
  The work that is left: what waits in the queue and what the host may still schedule, as bounded
  by a measure of its state.
\<close>

definition work :: "('w \<Rightarrow> nat) \<Rightarrow> 'w tick_state \<Rightarrow> nat" where
  "work m st = length (fq_elems (queue st)) + m (world st)"

definition bounded_host :: "('w \<Rightarrow> nat) \<Rightarrow> 'w host \<Rightarrow> bool" where
  "bounded_host m h \<longleftrightarrow> (\<forall>st. tick_ok st \<longrightarrow>
     (\<forall>f args. work m (snd (run_script (callback_body h f args (world st)) st)) \<le> work m st) \<and>
     work m (snd (run_script (microtasks h (world st)) st)) \<le> work m st \<and>
     work m (snd (run_script (rejections h (world st)) st)) + (if fst (run_script (rejections h (world st)) st) = Inr True then 1 else 0)
       \<le> work m st)"

lemma bounded_hostD:
  assumes "bounded_host m h" "tick_ok st"
  shows "work m (snd (run_script (callback_body h f args (world st)) st)) \<le> work m st"
    "work m (snd (run_script (microtasks h (world st)) st)) \<le> work m st"
    "work m (snd (run_script (rejections h (world st)) st)) + (if fst (run_script (rejections h (world st)) st) = Inr True then 1 else 0)
       \<le> work m st"
  using assms unfolding bounded_host_def by blast+

lemma run_tock_world:
  assumes "run_tock h t st = (out, st')" "run_script (callback_body h (tick_callback t)
      (case tick_args t of None \<Rightarrow> [] | Some args \<Rightarrow> args) (world st)) (started t st) = (r, s1)"
  shows "queue st' = queue s1 \<and> world st' = world s1"
  using assms call_tock_started [of h t st]
  by (auto simp: run_tock_def Let_def split: sum.splits option.splits)

lemma run_tock_work:
  assumes "bounded_host m h" "tick_ok st" "fq_shift (queue st) = (Some t, q)" "run_tock h t (st\<lparr>queue := q\<rparr>) = (out, st')"
  shows "work m st' < work m st"
proof -
  let ?s0 = "started t (st\<lparr>queue := q\<rparr>)"
  have q: "fq_elems (queue st) = t # fq_elems q"
    using fq.shift_SomeD [OF _ assms(3)] assms(2) by (auto simp: tick_ok_def)
  have s0: "tick_ok ?s0" using started_ext [OF assms(2,3)] tick_ext_ok by blast
  obtain r s1 where r: "run_script (callback_body h (tick_callback t)
      (case tick_args t of None \<Rightarrow> [] | Some args \<Rightarrow> args) (world ?s0)) ?s0 = (r, s1)"
    by fastforce
  then have "work m s1 \<le> work m ?s0"
    using bounded_hostD(1) [OF assms(1) s0, of "tick_callback t" "case tick_args t of None \<Rightarrow> [] | Some args \<Rightarrow> args"] by simp
  moreover have "queue st' = queue s1 \<and> world st' = world s1"
    by (rule run_tock_world [OF assms(4)]) (use r in \<open>simp add: started_def\<close>)
  ultimately show ?thesis using q by (simp add: work_def started_def)
qed

lemma process_ticks_progress:
  assumes "bounded_host m h"
  shows "tick_ok st \<Longrightarrow> 2 * work m st + (if fq_elems (queue st) = [] then 1 else 0) < n \<Longrightarrow>
    process_ticks n h st \<noteq> None"
proof (induction n arbitrary: st)
  case (Suc n)
  obtain o' q where shift: "fq_shift (queue st) = (o', q)" by fastforce
  show ?case
  proof (cases o')
    case (Some t)
    obtain out1 s1 where run: "run_tock h t (st\<lparr>queue := q\<rparr>) = (out1, s1)" by fastforce
    have "work m s1 < work m st" using run_tock_work [OF assms Suc.prems(1) _ run] shift Some by blast
    moreover have "tick_ok s1" using run_tock_ext [OF Suc.prems(1) _ run] shift Some tick_ext_ok by blast
    ultimately have "process_ticks n h s1 \<noteq> None" using Suc.IH [of s1] Suc.prems(2) by (auto split: if_splits)
    then show ?thesis using shift Some run by (cases out1) auto
  next
    case None
    let ?s0 = "st\<lparr>queue := q\<rparr>"
    have inv: "fq_invar (queue st)" using Suc.prems(1) by (simp add: tick_ok_def)
    have s0: "tick_ok ?s0" "fq_elems q = []" "fq_elems (queue st) = []"
      using tick_ext_ok [OF drained_ok [OF Suc.prems(1)]] fq.shift_NoneD [OF inv] shift None by auto
    obtain r1 s1 where r1: "run_script (microtasks h (world st)) ?s0 = (r1, s1)" by fastforce
    have s1: "tick_ok s1" "work m s1 \<le> work m st"
    proof -
      show "tick_ok s1" using script_ext [OF s0(1), of "microtasks h (world st)"] r1 tick_ext_ok by auto
      have "work m s1 \<le> work m ?s0" using bounded_hostD(2) [OF assms s0(1)] r1 by simp
      then show "work m s1 \<le> work m st" using s0 by (simp add: work_def)
    qed
    obtain r2 s2 where r2: "run_script (rejections h (world s1)) s1 = (r2, s2)" by fastforce
    have s2: "tick_ok s2" "r2 = Inr True \<Longrightarrow> work m s2 < work m s1"
      using script_ext [OF s1(1), of "rejections h (world s1)"] r2 tick_ext_ok bounded_hostD(3) [OF assms s1(1)]
      by auto
    have empty: "fq_isEmpty (queue s1) \<longleftrightarrow> fq_elems (queue s1) = []"
      using s1(1) by (simp add: tick_ok_def fq.is_empty_iff)
    have "process_ticks n h s1 \<noteq> None" if "\<not> fq_isEmpty (queue s1)"
      using Suc.IH [OF s1(1)] that empty s1(2) Suc.prems(2) s0(3) by (simp split: if_splits)
    moreover have "process_ticks n h s2 \<noteq> None" if "r2 = Inr True"
      using Suc.IH [OF s2(1)] s2(2) [OF that] s1(2) Suc.prems(2) s0(3) by (auto split: if_splits)
    ultimately show ?thesis
      using shift None r1 r2 by (cases r1; cases r2) auto
  qed
qed simp

subsection \<open>Properties\<close>

text \<open>
  \<open>nextTick\<close>, on every branch. A first argument that is not a function is refused and changes
  nothing; while the process exits nothing is queued; otherwise exactly one object is added at the end
  of the queue, with a fresh async id, the id of the running resource as trigger, the current context
  frame and the remaining arguments, and the tick flag is set when the queue was empty.
\<close>

lemma nextTick_contract:
  assumes "fq_invar (queue st)"
  shows "case validateCallback arguments of
      Inl e \<Rightarrow> nextTick arguments st = (Inl e, st)
    | Inr f \<Rightarrow> fst (nextTick arguments st) = Inr () \<and>
        (if exiting st then snd (nextTick arguments st) = st
         else fq_elems (queue (snd (nextTick arguments st))) = fq_elems (queue st) @
                [\<lparr>async_id = asyncIdCounter (async st) + 1,
                  trigger_async_id = getDefaultTriggerAsyncId (async st),
                  async_context_frame = contextFrame st, tick_callback = f,
                  tick_args = (if length arguments = 1 then None else Some (tl arguments))\<rparr>] \<and>
              fq_invar (queue (snd (nextTick arguments st))) \<and>
              tickScheduled (snd (nextTick arguments st)) = (tickScheduled st \<or> fq_elems (queue st) = []))"
proof (cases "validateCallback arguments")
  case (Inl e)
  then show ?thesis by (simp add: nextTick_def)
next
  case (Inr f)
  show ?thesis
  proof (cases "exiting st")
    case True
    then show ?thesis using Inr by (simp add: nextTick_def)
  next
    case False
    then show ?thesis
      using nextTick_push [OF Inr False assms] Inr by (simp add: new_tick_def tick_args_of_def)
  qed
qed

definition idle_ticks :: "'w \<Rightarrow> 'w tick_state" where
  "idle_ticks w = \<lparr>queue = new_fixed_queue, tickScheduled = False, rejectionToWarn = False, async = idle_fields,
     contextFrame = 0, exiting = False, called = [], world = w\<rparr>"

lemma idle_ticks_ok: "tick_ok (idle_ticks w)"
  by (simp add: tick_ok_def agenda_def idle_ticks_def fq.elems_empty fq.invar_empty)

lemma idle_ticks_simps:
  "fq_elems (queue (idle_ticks w)) = []" "\<not> exiting (idle_ticks w)" "contextFrame (idle_ticks w) = 0"
  "asyncIdCounter (async (idle_ticks w)) = 1" "getDefaultTriggerAsyncId (async (idle_ticks w)) = Some 0"
  "fq_invar (queue (idle_ticks w))"
  by (simp_all add: idle_ticks_def fq.elems_empty fq.invar_empty idle_fields_def getDefaultTriggerAsyncId_def)

lemma one_tick_ok: "tick_ok (snd (nextTick arguments (idle_ticks w)))"
  by (rule tick_ext_ok [OF conjunct1 [OF nextTick_ext [OF idle_ticks_ok]]])

lemma nextTick_contract_witness:
  "fst (nextTick [JFunction 3, JStr (js ''x'')] (idle_ticks ())) = Inr () \<and>
   fq_elems (queue (snd (nextTick [JFunction 3, JStr (js ''x'')] (idle_ticks ())))) =
     [\<lparr>async_id = 2, trigger_async_id = Some 0, async_context_frame = 0, tick_callback = 3, tick_args = Some [JStr (js ''x'')]\<rparr>]"
  using nextTick_contract [of "idle_ticks ()" "[JFunction 3, JStr (js ''x'')]"]
  by (simp add: idle_ticks_simps validateCallback_def)

text \<open>
  What a run from \<open>st\<close> to \<open>st'\<close> keeps. The objects called before and the objects waiting keep their
  order, what is added goes to the end, async ids strictly increase along the agenda, and a run that
  throws leaves the rest queued with the tick flag set, by \<open>tick_ok\<close>.
\<close>

definition agenda_kept :: "'w tick_state \<Rightarrow> outcome \<Rightarrow> 'w tick_state \<Rightarrow> bool" where
  "agenda_kept st out st' \<longleftrightarrow>
     tick_ok st' \<and> prefix (agenda st) (agenda st') \<and> prefix (called st) (called st') \<and>
     (out = Done \<longrightarrow> agenda st' = map fst (called st') \<and> \<not> tickScheduled st' \<and> \<not> rejectionToWarn st' \<and>
        (stack_room (async st) \<longrightarrow> async_context (async st') = async_context (async st)))"

lemma process_ticks_kept:
  "process_ticks n h st = Some (out, st') \<Longrightarrow> tick_ok st \<Longrightarrow> rejections_report h \<Longrightarrow> agenda_kept st out st'"
  using process_ticks_ext [of n h st out st']
  by (auto simp: tick_ext_def settled_def agenda_def agenda_kept_def)

text \<open>
  C1: whatever scripts the callbacks, microtasks and rejection handlers run (ticks they queue, ids they
  take, frames, the exit, errors), where the handling of rejections answers true when it queued ticks,
  a run of the tick loop that ends keeps the agenda: the objects called before and the objects waiting keep their order, what is added
  goes to the end, async ids strictly increase along it, and a run that throws leaves the rest queued
  with the tick flag set, so that the next run continues it. A run that is done has called the whole
  agenda, cleared both flags and, where the array of the id stack had room for a context, restored the
  running ids. The run ends, with a fuel bound, when the host can schedule only so much.
\<close>

theorem process_ticks_agenda:
  assumes "tick_ok st" "rejections_report h"
  shows "(process_ticks n h st = Some (out, st') \<longrightarrow> agenda_kept st out st') \<and>
    (bounded_host m h \<longrightarrow> (\<exists>out st'.
       process_ticks (2 * (length (fq_elems (queue st)) + m (world st)) + 2) h st = Some (out, st') \<and> agenda_kept st out st'))"
proof -
  let ?fuel = "2 * (length (fq_elems (queue st)) + m (world st)) + 2"
  have "process_ticks ?fuel h st \<noteq> None" if "bounded_host m h"
    using process_ticks_progress [OF that assms(1), of ?fuel] by (auto simp: work_def)
  then show ?thesis using process_ticks_kept [OF _ assms] by fastforce
qed

lemma world_nextTick: "world (snd (nextTick arguments st)) = world st"
  by (simp add: nextTick_def Let_def newAsyncId_def split: sum.split)

text \<open>A host whose callback 0 queues callback 1, as often as its state says.\<close>

definition counting_host :: "nat host" where
  "counting_host = \<lparr>callback_body = (\<lambda>f args w. if f = 0 \<and> 0 < w then NextTick [JFunction 1] (\<lambda>r. Return False (w - 1)) else Return False w),
     microtasks = (\<lambda>w. Return False w), rejections = (\<lambda>w. Return False w)\<rparr>"

lemma counting_bounded: "bounded_host (\<lambda>w. w) counting_host"
proof -
  have "work (\<lambda>w. w) ((snd (nextTick [JFunction 1] st))\<lparr>world := world st - 1\<rparr>) \<le> work (\<lambda>w. w) st"
    if "tick_ok st" "0 < world st" for st :: "nat tick_state"
  proof (cases "exiting st")
    case True
    then show ?thesis by (simp add: nextTick_def validateCallback_def work_def)
  next
    case False
    then show ?thesis
      using nextTick_push(3) [of "[JFunction 1]" 1 st] that by (simp add: validateCallback_def work_def tick_ok_def)
  qed
  then show ?thesis by (auto simp: bounded_host_def counting_host_def work_def Let_def)
qed

theorem process_ticks_agenda_witness:
  "\<exists>out st'. process_ticks 6 counting_host (snd (nextTick [JFunction 0] (idle_ticks 1))) = Some (out, st') \<and>
     agenda_kept (snd (nextTick [JFunction 0] (idle_ticks 1))) out st'"
proof -
  let ?st = "snd (nextTick [JFunction 0] (idle_ticks (1 :: nat)))"
  have "rejections_report counting_host" by (auto simp: rejections_report_def counting_host_def)
  moreover have "length (fq_elems (queue ?st)) = 1"
    using nextTick_push(3) [of "[JFunction 0]" 0 "idle_ticks (1 :: nat)"] idle_ticks_simps [of "1 :: nat"]
    by (simp add: validateCallback_def)
  moreover have "world ?st = 1"
    by (simp add: world_nextTick) (simp add: idle_ticks_def)
  ultimately show ?thesis
    using process_ticks_agenda [OF one_tick_ok, of counting_host 0 "[JFunction 0]" 1 Done ?st "\<lambda>w. w"] counting_bounded
    by simp
qed

text \<open>
  C15: the loop returns when the host can schedule only so much: if some measure of its state pays for
  every tick that a callback, a microtask or a rejection handler queues, then twice the work left,
  and two turns, are enough fuel.
\<close>

theorem process_ticks_terminates:
  assumes "tick_ok st" "bounded_host m h"
  shows "\<exists>out st'. process_ticks (2 * (length (fq_elems (queue st)) + m (world st)) + 2) h st = Some (out, st')"
  using process_ticks_progress [OF assms(2,1), of "2 * work m st + 2"]
  by (auto simp: work_def)

definition silent_host :: "unit host" where
  "silent_host = \<lparr>callback_body = (\<lambda>f args w. Return False w), microtasks = (\<lambda>w. Return False w), rejections = (\<lambda>w. Return False w)\<rparr>"

lemma process_ticks_terminates_witness:
  "\<exists>out st'. process_ticks (2 * (length (fq_elems (queue (snd (nextTick [JFunction 0] (idle_ticks ()))))) + 0) + 2) silent_host
     (snd (nextTick [JFunction 0] (idle_ticks ()))) = Some (out, st')"
proof -
  note one_tick_ok [of "[JFunction 0]" "()"]
  moreover have "bounded_host (\<lambda>_. 0) silent_host"
    by (simp add: bounded_host_def silent_host_def work_def)
  ultimately show ?thesis
    using process_ticks_terminates [of _ "\<lambda>_. 0" silent_host] by simp
qed

text \<open>The host of a callback that queues itself.\<close>

definition starving_host :: "nat \<Rightarrow> unit host" where
  "starving_host f = \<lparr>callback_body = (\<lambda>g args w. NextTick [JFunction f] (\<lambda>r. Return False w)),
     microtasks = (\<lambda>w. Return False w), rejections = (\<lambda>w. Return False w)\<rparr>"

lemma starving:
  assumes "tick_ok st" "\<not> exiting st" "fq_elems (queue st) \<noteq> []"
  shows "process_ticks n (starving_host f) st = None"
  using assms
proof (induction n arbitrary: st)
  case (Suc n)
  obtain t q where shift: "fq_shift (queue st) = (Some t, q)"
    using fq.shift_value [of "queue st"] Suc.prems(1,3)
    by (cases "fq_shift (queue st)"; cases "fq_elems (queue st)") (auto simp: tick_ok_def)
  obtain out1 s1 where run: "run_tock (starving_host f) t (st\<lparr>queue := q\<rparr>) = (out1, s1)" by fastforce
  let ?s0 = "started t (st\<lparr>queue := q\<rparr>)"
  have s0: "tick_ok ?s0" using started_ext [OF Suc.prems(1) shift] tick_ext_ok by blast
  then have inv: "fq_invar (queue ?s0)" by (simp add: tick_ok_def)
  have ex: "\<not> exiting ?s0" using Suc.prems(2) by (simp add: started_def)
  have v: "validateCallback [JFunction f] = Inr f" by (simp add: validateCallback_def)
  note push = nextTick_push [OF v ex inv]
  have script: "run_script (callback_body (starving_host f) g args w) ?s0
      = (Inr False, (snd (nextTick [JFunction f] ?s0))\<lparr>world := w\<rparr>)" for g args w
    by (simp add: starving_host_def Let_def)
  have call: "call_tock (starving_host f) t (st\<lparr>queue := q, contextFrame := async_context_frame t,
       async := emitBefore (async_id t) (trigger_async_id t) (async st)\<rparr>)
     = (Inr False, (snd (nextTick [JFunction f] ?s0))\<lparr>world := world st\<rparr>)"
    using call_tock_started [of "starving_host f" t "st\<lparr>queue := q\<rparr>"] script by simp
  have ext: "tick_ext st s1" using run_tock_ext [OF Suc.prems(1) shift run] by auto
  have "out1 = Done \<and> queue s1 = queue (snd (nextTick [JFunction f] ?s0)) \<and> exiting s1 = exiting (snd (nextTick [JFunction f] ?s0))"
    using run call by (auto simp: run_tock_def Let_def)
  moreover have "\<not> exiting (snd (nextTick [JFunction f] ?s0))"
    using ex v by (simp add: nextTick_def Let_def newAsyncId_def)
  ultimately have "process_ticks n (starving_host f) s1 = None"
    using Suc.IH [OF tick_ext_ok [OF ext]] push(3) by simp
  then show ?case using shift run \<open>out1 = Done \<and> _\<close> by simp
qed simp

text \<open>
  C16: a callback that queues itself again starves everything after it: the loop never gets to the
  microtasks, and no amount of fuel makes it return.
\<close>

theorem process_ticks_starvation:
  "process_ticks n (starving_host f) (snd (nextTick [JFunction f] (idle_ticks ()))) = None"
proof (rule starving)
  let ?st = "idle_ticks ()"
  have v: "validateCallback [JFunction f] = Inr f" by (simp add: validateCallback_def)
  have ok: "tick_ok ?st" "\<not> exiting ?st" "fq_invar (queue ?st)"
    using idle_ticks_ok [of "()"] by (simp_all add: idle_ticks_def tick_ok_def)
  show "tick_ok (snd (nextTick [JFunction f] ?st))" by (rule one_tick_ok)
  show "fq_elems (queue (snd (nextTick [JFunction f] ?st))) \<noteq> []" using nextTick_push(3) [OF v ok(2,3)] by simp
  show "\<not> exiting (snd (nextTick [JFunction f] ?st))"
    using ok(2) v by (simp add: nextTick_def Let_def newAsyncId_def)
qed

end
