(* ===== verification/LinkedList.thy ===== *)
theory LinkedList
  imports Prelude
begin

text \<open>
  lib/internal/linkedlist.js: a circular doubly linked list through the fields \<^verbatim>\<open>_idleNext\<close> and
  \<^verbatim>\<open>_idlePrev\<close> of the list object and of its items. Objects are numbers, and the two fields are
  maps from objects to objects, \<open>None\<close> where the field is null. The record is extended by
  the clients that keep further fields.
\<close>

record links =
  idleNext :: "nat \<Rightarrow> nat option"
  idlePrev :: "nat \<Rightarrow> nat option"

definition set_next :: "nat \<Rightarrow> nat option \<Rightarrow> 'a links_scheme \<Rightarrow> 'a links_scheme" where
  "set_next x v s = s\<lparr>idleNext := (idleNext s)(x := v)\<rparr>"

definition set_prev :: "nat \<Rightarrow> nat option \<Rightarrow> 'a links_scheme \<Rightarrow> 'a links_scheme" where
  "set_prev x v s = s\<lparr>idlePrev := (idlePrev s)(x := v)\<rparr>"

definition L_init :: "nat \<Rightarrow> 'a links_scheme \<Rightarrow> 'a links_scheme" where
  "L_init l s = set_prev l (Some l) (set_next l (Some l) s)"

definition L_peek :: "nat \<Rightarrow> 'a links_scheme \<Rightarrow> nat option" where
  "L_peek l s = (if idlePrev s l = Some l then None else idlePrev s l)"

definition L_remove :: "nat \<Rightarrow> 'a links_scheme \<Rightarrow> 'a links_scheme" where
  "L_remove item s =
     (let s = (case idleNext s item of Some n \<Rightarrow> set_prev n (idlePrev s item) s | None \<Rightarrow> s);
          s = (case idlePrev s item of Some p \<Rightarrow> set_next p (idleNext s item) s | None \<Rightarrow> s)
      in set_prev item None (set_next item None s))"

text \<open>Storing to a field of null throws.\<close>

definition L_append :: "nat \<Rightarrow> nat \<Rightarrow> 'a links_scheme \<Rightarrow> 'a links_scheme result" where
  "L_append l item s =
     (let s = (if idleNext s item \<noteq> None \<or> idlePrev s item \<noteq> None then L_remove item s else s);
          s = set_next item (idleNext s l) s;
          s = set_prev item (Some l) s
      in case idleNext s l of
           None \<Rightarrow> Inl (TypeError ''Cannot set properties of null'')
         | Some n \<Rightarrow> Inr (set_next l (Some item) (set_prev n (Some item) s)))"

definition L_isEmpty :: "nat \<Rightarrow> 'a links_scheme \<Rightarrow> bool" where
  "L_isEmpty l s \<longleftrightarrow> idleNext s l = Some l"

subsection \<open>The list an object heads\<close>

text \<open>
  \<open>linked s a xs b\<close>: following \<^verbatim>\<open>_idlePrev\<close> from \<open>a\<close> meets \<open>xs\<close> and then \<open>b\<close>, and
  \<^verbatim>\<open>_idleNext\<close> leads back. \<open>ring s l xs\<close>: the object \<open>l\<close> heads the list of the items \<open>xs\<close>, oldest first.
\<close>

fun linked :: "'a links_scheme \<Rightarrow> nat \<Rightarrow> nat list \<Rightarrow> nat \<Rightarrow> bool" where
  "linked s a [] b \<longleftrightarrow> idlePrev s a = Some b \<and> idleNext s b = Some a"
| "linked s a (x # xs) b \<longleftrightarrow> idlePrev s a = Some x \<and> idleNext s x = Some a \<and> linked s x xs b"

definition ring :: "'a links_scheme \<Rightarrow> nat \<Rightarrow> nat list \<Rightarrow> bool" where
  "ring s l xs \<longleftrightarrow> distinct (l # xs) \<and> linked s l xs l"

text \<open>An item that is in no list: its fields are null, or it has never been in one and they point to itself.\<close>

definition detached :: "'a links_scheme \<Rightarrow> nat \<Rightarrow> bool" where
  "detached s x \<longleftrightarrow> (idleNext s x = None \<and> idlePrev s x = None) \<or> (idleNext s x = Some x \<and> idlePrev s x = Some x)"

lemma links_simps [simp]:
  "idleNext (set_next x v s) = (idleNext s)(x := v)" "idlePrev (set_next x v s) = idlePrev s"
  "idlePrev (set_prev x v s) = (idlePrev s)(x := v)" "idleNext (set_prev x v s) = idleNext s"
  "links.more (set_next x v s) = links.more s" "links.more (set_prev x v s) = links.more s"
  by (simp_all add: set_next_def set_prev_def)

lemma linked_append: "linked s a (xs @ x # ys) b \<longleftrightarrow> linked s a xs x \<and> linked s x ys b"
  by (induction xs arbitrary: a) auto

lemma linked_cong:
  "(\<And>y. y \<in> set (a # xs) \<Longrightarrow> idlePrev s y = idlePrev t y) \<Longrightarrow> (\<And>y. y \<in> set (b # xs) \<Longrightarrow> idleNext s y = idleNext t y) \<Longrightarrow>
    linked s a xs b \<longleftrightarrow> linked t a xs b"
  by (induction xs arbitrary: a) auto

lemma linked_set [simp]:
  "u \<notin> set (a # xs) \<Longrightarrow> linked (set_prev u v s) a xs b \<longleftrightarrow> linked s a xs b"
  "u \<notin> set (b # xs) \<Longrightarrow> linked (set_next u v s) a xs b \<longleftrightarrow> linked s a xs b"
  by (rule linked_cong; auto)+

lemma linked_last: "linked s a xs b \<Longrightarrow> idleNext s b = Some (last (a # xs))"
  by (induction xs arbitrary: a) auto

lemma linked_first: "linked s a xs b \<Longrightarrow> idlePrev s a = Some (hd (xs @ [b]))"
  by (cases xs) auto

lemma ring_cong:
  assumes "\<And>y. y \<in> set (l # xs) \<Longrightarrow> idleNext s y = idleNext t y \<and> idlePrev s y = idlePrev t y"
  shows "ring s l xs \<longleftrightarrow> ring t l xs"
  unfolding ring_def by (intro conj_cong refl linked_cong) (use assms in auto)

lemma ring_remove:
  assumes "ring s l (ys @ x # zs)"
  shows "ring (L_remove x s) l (ys @ zs)"
proof -
  have d: "distinct (l # ys @ x # zs)" and c: "linked s l ys x" "linked s x zs l"
    using assms by (auto simp: ring_def linked_append)
  have "linked (L_remove x s) l (ys @ zs) l"
  proof (cases ys rule: rev_cases)
    case Nil
    then show ?thesis using c d by (cases zs) (auto simp: L_remove_def Let_def)
  next
    case (snoc ys' a)
    then show ?thesis using c d by (cases zs) (auto simp: L_remove_def Let_def linked_append)
  qed
  then show ?thesis using d by (auto simp: ring_def)
qed

lemma remove_null [simp]: "idleNext (L_remove x s) x = None" "idlePrev (L_remove x s) x = None"
  by (simp_all add: L_remove_def Let_def)

lemma remove_outside:
  assumes "ring s l (ys @ x # zs)" "y \<notin> set (l # ys @ x # zs)"
  shows "idleNext (L_remove x s) y = idleNext s y" "idlePrev (L_remove x s) y = idlePrev s y"
proof -
  have c: "linked s l ys x" "linked s x zs l" using assms by (auto simp: ring_def linked_append)
  have "last (l # ys) \<noteq> y" "hd (zs @ [l]) \<noteq> y" "y \<noteq> x"
    using assms(2) last_in_set [of "l # ys"] hd_in_set [of "zs @ [l]"] by auto
  then show "idleNext (L_remove x s) y = idleNext s y" "idlePrev (L_remove x s) y = idlePrev s y"
    using linked_last [OF c(1)] linked_first [OF c(2)] by (auto simp: L_remove_def Let_def split: option.splits)
qed

lemma remove_detached:
  assumes "detached s x" "y \<noteq> x"
  shows "idleNext (L_remove x s) y = idleNext s y" "idlePrev (L_remove x s) y = idlePrev s y"
  using assms by (auto simp: detached_def L_remove_def Let_def)

lemma ring_append:
  assumes "ring s l xs" "x \<notin> set (l # xs)" "idleNext s x = None" "idlePrev s x = None"
  obtains t where "L_append l x s = Inr t" "ring t l (xs @ [x])"
    "\<And>y. y \<notin> set (x # l # xs) \<Longrightarrow> idleNext t y = idleNext s y \<and> idlePrev t y = idlePrev s y"
proof -
  have d: "distinct (l # xs)" and c: "linked s l xs l" using assms(1) by (auto simp: ring_def)
  let ?a = "last (l # xs)"
  let ?t = "set_next l (Some x) (set_prev ?a (Some x) (set_prev x (Some l) (set_next x (Some ?a) s)))"
  have "L_append l x s = Inr ?t"
    using assms(2-4) linked_last [OF c] by (auto simp: L_append_def Let_def)
  moreover have "linked ?t l (xs @ [x]) l"
    using c d assms(2) by (cases xs rule: rev_cases) (auto simp: linked_append)
  moreover have "?a \<in> set (l # xs)" by (rule last_in_set) simp
  ultimately show ?thesis using d assms(2) by (intro that [of ?t]) (auto simp: ring_def)
qed

subsection \<open>Many lists\<close>

text \<open>
  \<open>lists_ok s m\<close>: the lists of the store are those of \<open>m\<close>, from each list object to its items; they
  share no object, and every other object is in no list.
\<close>

definition in_lists :: "(nat \<rightharpoonup> nat list) \<Rightarrow> nat \<Rightarrow> bool" where
  "in_lists m x \<longleftrightarrow> (\<exists>l xs. m l = Some xs \<and> x \<in> set (l # xs))"

definition lists_ok :: "'a links_scheme \<Rightarrow> (nat \<rightharpoonup> nat list) \<Rightarrow> bool" where
  "lists_ok s m \<longleftrightarrow>
     (\<forall>l xs. m l = Some xs \<longrightarrow> ring s l xs) \<and>
     (\<forall>l xs k ys x. m l = Some xs \<and> m k = Some ys \<and> x \<in> set (l # xs) \<and> x \<in> set (k # ys) \<longrightarrow> l = k) \<and>
     (\<forall>x. \<not> in_lists m x \<longrightarrow> detached s x)"

definition drop_item :: "nat \<Rightarrow> (nat \<rightharpoonup> nat list) \<Rightarrow> (nat \<rightharpoonup> nat list)" where
  "drop_item x m = (\<lambda>l. map_option (removeAll x) (m l))"

lemma lists_ok_ring: "lists_ok s m \<Longrightarrow> m l = Some xs \<Longrightarrow> ring s l xs"
  by (simp add: lists_ok_def)

lemma lists_ok_same: "lists_ok s m \<Longrightarrow> m l = Some xs \<Longrightarrow> m k = Some ys \<Longrightarrow> x \<in> set (l # xs) \<Longrightarrow> x \<in> set (k # ys) \<Longrightarrow> l = k"
  unfolding lists_ok_def by metis

lemma lists_ok_detached: "lists_ok s m \<Longrightarrow> \<not> in_lists m x \<Longrightarrow> detached s x"
  by (simp add: lists_ok_def)

lemma drop_item_Some: "drop_item x m l = Some zs \<longleftrightarrow> (\<exists>xs. m l = Some xs \<and> zs = removeAll x xs)"
  by (auto simp: drop_item_def)

lemma in_lists_drop: "in_lists m y \<Longrightarrow> y \<noteq> x \<Longrightarrow> in_lists (drop_item x m) y"
  unfolding in_lists_def drop_item_Some by fastforce

lemma in_listsI: "m l = Some xs \<Longrightarrow> x \<in> set (l # xs) \<Longrightarrow> in_lists m x"
  unfolding in_lists_def by blast

lemma in_lists_upd: "in_lists m y \<Longrightarrow> m l = None \<Longrightarrow> in_lists (m(l \<mapsto> xs)) y"
  unfolding in_lists_def by (metis fun_upd_other option.distinct(1))

lemma in_lists_forget: "in_lists m y \<Longrightarrow> m l = Some [] \<Longrightarrow> y \<noteq> l \<Longrightarrow> in_lists (m(l := None)) y"
  unfolding in_lists_def by (metis fun_upd_other empty_iff list.set(1) option.inject set_ConsD)

lemma lists_ok_remove:
  assumes "lists_ok s m" "x \<notin> dom m"
  shows "lists_ok (L_remove x s) (drop_item x m)"
proof (cases "in_lists m x")
  case False
  note det = lists_ok_detached [OF assms(1) False]
  have same: "drop_item x m l = m l" for l
    using False by (cases "m l") (auto simp: drop_item_def in_lists_def)
  then have m: "drop_item x m = m" by blast
  have other: "y \<noteq> x" if "in_lists m y" for y using False that by auto
  show ?thesis
    unfolding lists_ok_def m
  proof (intro conjI allI impI)
    fix l xs assume l: "m l = Some xs"
    then have "y \<noteq> x" if "y \<in> set (l # xs)" for y using that other by (auto simp: in_lists_def)
    then show "ring (L_remove x s) l xs"
      using lists_ok_ring [OF assms(1) l] remove_detached [OF det] by (subst ring_cong [of _ _ _ s]) auto
  next
    fix y assume y: "\<not> in_lists m y"
    then show "detached (L_remove x s) y"
      using lists_ok_detached [OF assms(1) y] remove_detached [OF det, of y] by (cases "y = x") (auto simp: detached_def)
  qed (use assms(1) lists_ok_same in blast)
next
  case True
  then obtain l0 xs0 where "m l0 = Some xs0" "x \<in> set xs0" using assms(2) by (auto simp: in_lists_def)
  then obtain ys zs where l0: "m l0 = Some (ys @ x # zs)" by (metis split_list)
  note r0 = lists_ok_ring [OF assms(1) l0]
  have d: "distinct (l0 # ys @ x # zs)" using r0 by (simp add: ring_def)
  have free: "x \<notin> set (l # xs)" if "m l = Some xs" "l \<noteq> l0" for l xs
    using lists_ok_same [OF assms(1) that(1) l0, of x] that(2) by auto
  have dropped: "drop_item x m l = (if l = l0 then Some (ys @ zs) else m l)" for l
  proof (cases "l = l0")
    case True
    then show ?thesis using l0 d by (simp add: drop_item_def removeAll_id)
  next
    case False
    then show ?thesis using free by (cases "m l") (auto simp: drop_item_def removeAll_id)
  qed
  show ?thesis
    unfolding lists_ok_def
  proof (intro conjI allI impI)
    fix l xs assume l: "drop_item x m l = Some xs"
    show "ring (L_remove x s) l xs"
    proof (cases "l = l0")
      case True
      then show ?thesis using l dropped ring_remove [OF r0] by simp
    next
      case False
      then have ml: "m l = Some xs" using l dropped by simp
      have "y \<notin> set (l0 # ys @ x # zs)" if "y \<in> set (l # xs)" for y
        using lists_ok_same [OF assms(1) ml l0 that] False by blast
      then show ?thesis using lists_ok_ring [OF assms(1) ml] remove_outside [OF r0]
        by (subst ring_cong [of _ _ _ s]) auto
    qed
  next
    fix l xs k ys' y assume h: "drop_item x m l = Some xs \<and> drop_item x m k = Some ys' \<and> y \<in> set (l # xs) \<and> y \<in> set (k # ys')"
    then obtain us vs where "m l = Some us" "xs = removeAll x us" "m k = Some vs" "ys' = removeAll x vs"
      by (auto simp: drop_item_Some)
    then show "l = k" using h lists_ok_same [OF assms(1), of l us k vs y] by auto
  next
    fix y assume y: "\<not> in_lists (drop_item x m) y"
    show "detached (L_remove x s) y"
    proof (cases "y = x")
      case False
      then have "\<not> in_lists m y" using y in_lists_drop by blast
      moreover from this have "y \<notin> set (l0 # ys @ x # zs)" using in_listsI [of m l0 "ys @ x # zs" y] l0 by blast
      ultimately show ?thesis using lists_ok_detached [OF assms(1)] remove_outside [OF r0, of y]
        by (auto simp: detached_def)
    qed (simp add: detached_def)
  qed
qed

lemma lists_ok_append:
  assumes "lists_ok s m" "m l = Some xs" "x \<notin> dom m"
  obtains t where "L_append l x s = Inr t" "lists_ok t ((drop_item x m)(l \<mapsto> removeAll x xs @ [x]))"
proof -
  let ?m = "drop_item x m"
  define r where "r = (if idleNext s x \<noteq> None \<or> idlePrev s x \<noteq> None then L_remove x s else s)"
  have r: "lists_ok r ?m" "idleNext r x = None" "idlePrev r x = None"
  proof -
    show "idleNext r x = None" "idlePrev r x = None" by (auto simp: r_def)
    show "lists_ok r ?m"
    proof (cases "idleNext s x \<noteq> None \<or> idlePrev s x \<noteq> None")
      case False
      then have "L_remove x s = set_prev x None (set_next x None s)" by (simp add: L_remove_def)
      moreover have "(idleNext s)(x := None) = idleNext s" "(idlePrev s)(x := None) = idlePrev s" using False by auto
      ultimately have "lists_ok s ?m \<longleftrightarrow> lists_ok (L_remove x s) ?m"
        by (simp add: set_next_def set_prev_def)
      then show ?thesis using lists_ok_remove [OF assms(1,3)] False by (simp add: r_def)
    qed (use lists_ok_remove [OF assms(1,3)] in \<open>simp add: r_def\<close>)
  qed
  have l: "?m l = Some (removeAll x xs)" using assms(2) by (simp add: drop_item_def)
  have "x \<notin> set (l # removeAll x xs)" using assms(2,3) by auto
  from ring_append [OF lists_ok_ring [OF r(1) l] this r(2,3)]
  obtain t where t: "L_append l x r = Inr t" "ring t l (removeAll x xs @ [x])"
    "\<And>y. y \<notin> set (x # l # removeAll x xs) \<Longrightarrow> idleNext t y = idleNext r y \<and> idlePrev t y = idlePrev r y" by blast
  have "L_append l x s = L_append l x r"
    using r(2,3) by (auto simp: L_append_def r_def Let_def)
  moreover have "lists_ok t (?m(l \<mapsto> removeAll x xs @ [x]))"
    unfolding lists_ok_def
  proof (intro conjI allI impI)
    fix k ys assume k: "(?m(l \<mapsto> removeAll x xs @ [x])) k = Some ys"
    show "ring t k ys"
    proof (cases "k = l")
      case False
      then have mk: "?m k = Some ys" using k by simp
      have "x \<notin> set (k # ys)" using mk assms(3) by (auto simp: drop_item_Some)
      moreover have "y \<notin> set (l # removeAll x xs)" if "y \<in> set (k # ys)" for y
        using lists_ok_same [OF r(1) mk l that] False by blast
      ultimately have "y \<notin> set (x # l # removeAll x xs)" if "y \<in> set (k # ys)" for y using that by auto
      then show ?thesis using lists_ok_ring [OF r(1) mk] t(3) by (subst ring_cong [of _ _ _ r]) blast+
    qed (use k t(2) in simp)
  next
    fix k ys j zs y assume h: "(?m(l \<mapsto> removeAll x xs @ [x])) k = Some ys \<and>
      (?m(l \<mapsto> removeAll x xs @ [x])) j = Some zs \<and> y \<in> set (k # ys) \<and> y \<in> set (j # zs)"
    have clash: False if "?m i = Some us" "i \<noteq> l" "y \<in> set (i # us)" "y \<in> set (l # removeAll x xs @ [x])" for i us
    proof -
      have "y \<noteq> x" using that(1,3) assms(3) by (auto simp: drop_item_Some)
      then have "y \<in> set (l # removeAll x xs)" using that(4) by auto
      then show False using lists_ok_same [OF r(1) that(1) l that(3)] that(2) by blast
    qed
    show "k = j"
      using h clash [of k ys] clash [of j zs] lists_ok_same [OF r(1), of k ys j zs y]
      by (cases "k = l"; cases "j = l") auto
  next
    fix y assume y: "\<not> in_lists (?m(l \<mapsto> removeAll x xs @ [x])) y"
    then have out: "y \<notin> set (x # l # removeAll x xs)"
      using in_listsI [of "?m(l \<mapsto> removeAll x xs @ [x])" l "removeAll x xs @ [x]" y] by auto
    have "\<not> in_lists ?m y"
    proof
      assume "in_lists ?m y"
      then obtain k ys where k: "?m k = Some ys" "y \<in> set (k # ys)" by (auto simp: in_lists_def)
      then have "k \<noteq> l" using out l by auto
      then have "(?m(l \<mapsto> removeAll x xs @ [x])) k = Some ys" using k(1) by simp
      then show False using in_listsI [of _ k ys y] k(2) y by blast
    qed
    then show "detached t y" using lists_ok_detached [OF r(1)] t(3) [OF out] by (simp add: detached_def)
  qed
  ultimately show ?thesis using t(1) by (intro that) auto
qed

lemma lists_ok_init:
  assumes "lists_ok s m" "\<not> in_lists m l"
  shows "lists_ok (L_init l s) (m(l \<mapsto> []))"
proof -
  have out: "y \<noteq> l" if "m k = Some ys" "y \<in> set (k # ys)" for k ys y using that assms(2) by (auto simp: in_lists_def)
  have ml: "m l = None" using assms(2) by (cases "m l") (auto simp: in_lists_def)
  show ?thesis
    unfolding lists_ok_def
  proof (intro conjI allI impI)
    fix k ys assume k: "(m(l \<mapsto> [])) k = Some ys"
    show "ring (L_init l s) k ys"
    proof (cases "k = l")
      case True
      then show ?thesis using k by (simp add: ring_def L_init_def)
    next
      case False
      then have mk: "m k = Some ys" using k by simp
      then show ?thesis using lists_ok_ring [OF assms(1) mk] out [OF mk]
        by (subst ring_cong [of _ _ _ s]) (auto simp: L_init_def)
    qed
  next
    fix k ys j zs y assume "(m(l \<mapsto> [])) k = Some ys \<and> (m(l \<mapsto> [])) j = Some zs \<and> y \<in> set (k # ys) \<and> y \<in> set (j # zs)"
    then show "k = j" using lists_ok_same [OF assms(1), of k ys j zs y] out [of k ys l] out [of j zs l]
      by (auto split: if_splits)
  next
    fix y assume y: "\<not> in_lists (m(l \<mapsto> [])) y"
    then have "\<not> in_lists m y" using in_lists_upd [of m y l] ml by blast
    then show "detached (L_init l s) y" using lists_ok_detached [OF assms(1)]
      by (cases "y = l") (auto simp: detached_def L_init_def)
  qed
qed

text \<open>An empty list object that nobody holds any more is a detached object.\<close>

lemma lists_ok_forget:
  assumes "lists_ok s m" "m l = Some []"
  shows "lists_ok s (m(l := None))"
proof -
  have "ring s l []" by (rule lists_ok_ring [OF assms])
  then have l: "detached s l" by (simp add: detached_def ring_def)
  show ?thesis
    unfolding lists_ok_def
  proof (intro conjI allI impI)
    fix k ys assume "(m(l := None)) k = Some ys"
    then show "ring s k ys" using lists_ok_ring [OF assms(1), of k ys] by (simp split: if_splits)
  next
    fix k ys j zs y assume "(m(l := None)) k = Some ys \<and> (m(l := None)) j = Some zs \<and> y \<in> set (k # ys) \<and> y \<in> set (j # zs)"
    then show "k = j" using lists_ok_same [OF assms(1), of k ys j zs y] by (auto split: if_splits)
  next
    fix y assume y: "\<not> in_lists (m(l := None)) y"
    show "detached s y"
    proof (cases "y = l")
      case False
      then have "\<not> in_lists m y" using y in_lists_forget [of m y l] assms(2) by blast
      then show ?thesis by (rule lists_ok_detached [OF assms(1)])
    qed (use l in simp)
  qed
qed

lemma lists_ok_peek: "lists_ok s m \<Longrightarrow> m l = Some xs \<Longrightarrow> L_peek l s = (case xs of [] \<Rightarrow> None | x # _ \<Rightarrow> Some x)"
  using lists_ok_ring [of s m l xs] by (cases xs) (auto simp: L_peek_def ring_def)

lemma lists_ok_isEmpty: "lists_ok s m \<Longrightarrow> m l = Some xs \<Longrightarrow> L_isEmpty l s \<longleftrightarrow> xs = []"
  using lists_ok_ring [of s m l xs] linked_last [of s l xs l] last_in_set [of xs]
  by (cases xs rule: rev_cases) (auto simp: L_isEmpty_def ring_def)

subsection \<open>Properties\<close>

datatype list_op = Init nat | Append nat nat | Remove nat | Peek nat | IsEmpty nat

datatype list_answer = Nothing | Item "nat option" | Flag bool

fun link_run :: "list_op list \<Rightarrow> links \<Rightarrow> list_answer list result" where
  "link_run [] s = Inr []"
| "link_run (Init l # ops) s = bind (link_run ops (L_init l s)) (\<lambda>as. Inr (Nothing # as))"
| "link_run (Append l x # ops) s =
     bind (L_append l x s) (\<lambda>s. bind (link_run ops s) (\<lambda>as. Inr (Nothing # as)))"
| "link_run (Remove x # ops) s = bind (link_run ops (L_remove x s)) (\<lambda>as. Inr (Nothing # as))"
| "link_run (Peek l # ops) s = bind (link_run ops s) (\<lambda>as. Inr (Item (L_peek l s) # as))"
| "link_run (IsEmpty l # ops) s = bind (link_run ops s) (\<lambda>as. Inr (Flag (L_isEmpty l s) # as))"

text \<open>
  The same over a table of lists. The client keeps list objects and items apart: a list is made of
  an object that is in no list, and only items are appended and removed. Otherwise \<open>None\<close>.
\<close>

definition holds_item :: "(nat \<rightharpoonup> nat list) \<Rightarrow> nat list \<Rightarrow> nat \<Rightarrow> bool" where
  "holds_item m ls x \<longleftrightarrow> (\<exists>l \<in> set ls. x = l \<or> (case m l of None \<Rightarrow> False | Some xs \<Rightarrow> x \<in> set xs))"

fun table_run :: "list_op list \<Rightarrow> nat list \<Rightarrow> (nat \<rightharpoonup> nat list) \<Rightarrow> list_answer list option" where
  "table_run [] ls m = Some []"
| "table_run (Init l # ops) ls m =
     (if holds_item m ls l then None
      else map_option (\<lambda>as. Nothing # as) (table_run ops (l # ls) (m(l \<mapsto> []))))"
| "table_run (Append l x # ops) ls m =
     (case m l of
        None \<Rightarrow> None
      | Some xs \<Rightarrow> if m x \<noteq> None then None
          else map_option (\<lambda>as. Nothing # as)
                 (table_run ops ls ((\<lambda>k. map_option (removeAll x) (m k))(l \<mapsto> removeAll x xs @ [x]))))"
| "table_run (Remove x # ops) ls m =
     (if m x \<noteq> None then None
      else map_option (\<lambda>as. Nothing # as) (table_run ops ls (\<lambda>k. map_option (removeAll x) (m k))))"
| "table_run (Peek l # ops) ls m =
     (case m l of
        None \<Rightarrow> None
      | Some xs \<Rightarrow> map_option (\<lambda>as. Item (case xs of [] \<Rightarrow> None | x # _ \<Rightarrow> Some x) # as) (table_run ops ls m))"
| "table_run (IsEmpty l # ops) ls m =
     (case m l of
        None \<Rightarrow> None
      | Some xs \<Rightarrow> map_option (\<lambda>as. Flag (xs = []) # as) (table_run ops ls m))"

lemma holds_item_in_lists: "set ls = dom m \<Longrightarrow> holds_item m ls x \<longleftrightarrow> in_lists m x"
proof -
  assume ls: "set ls = dom m"
  have "(\<exists>l \<in> dom m. x = l \<or> (case m l of None \<Rightarrow> False | Some xs \<Rightarrow> x \<in> set xs)) \<longleftrightarrow> (\<exists>l xs. m l = Some xs \<and> x \<in> set (l # xs))"
    unfolding bex_simps dom_def by force
  then show ?thesis by (simp add: holds_item_def in_lists_def ls)
qed

lemma link_run_table:
  "lists_ok s m \<Longrightarrow> set ls = dom m \<Longrightarrow> table_run ops ls m = Some as \<Longrightarrow> link_run ops s = Inr as"
proof (induction ops arbitrary: s m ls as)
  case (Cons op ops)
  show ?case
  proof (cases op)
    case (Init l)
    then show ?thesis
      using Cons.prems lists_ok_init [OF Cons.prems(1), of l] Cons.IH [of "L_init l s" "m(l \<mapsto> [])" "l # ls"]
        holds_item_in_lists [OF Cons.prems(2), of l]
      by (auto split: if_splits simp del: fun_upd_apply)
  next
    case (Append l x)
    then obtain xs where l: "m l = Some xs" "m x = None"
      using Cons.prems(3) by (auto split: option.splits if_splits)
    obtain t where t: "L_append l x s = Inr t" "lists_ok t ((drop_item x m)(l \<mapsto> removeAll x xs @ [x]))"
      using lists_ok_append [OF Cons.prems(1) l(1), of x] l(2) by blast
    have "set ls = dom ((drop_item x m)(l \<mapsto> removeAll x xs @ [x]))"
      using Cons.prems(2) l by (auto simp: drop_item_def dom_def)
    then show ?thesis using Append l t Cons.prems(3) Cons.IH [OF t(2)]
      by (auto simp: drop_item_def simp del: fun_upd_apply)
  next
    case (Remove x)
    have "set ls = dom (drop_item x m)" using Cons.prems(2) by (auto simp: drop_item_def dom_def)
    then show ?thesis
      using Remove Cons.prems Cons.IH [of "L_remove x s" "drop_item x m" ls] lists_ok_remove [OF Cons.prems(1), of x]
      by (auto simp: drop_item_def domIff split: if_splits)
  next
    case (Peek l)
    then show ?thesis using Cons.prems Cons.IH [OF Cons.prems(1,2)] lists_ok_peek [OF Cons.prems(1), of l]
      by (auto split: option.splits)
  next
    case (IsEmpty l)
    then show ?thesis using Cons.prems Cons.IH [OF Cons.prems(1,2)] lists_ok_isEmpty [OF Cons.prems(1), of l]
      by (auto split: option.splits)
  qed
qed simp

definition no_links :: links where
  "no_links = \<lparr>idleNext = (\<lambda>_. None), idlePrev = (\<lambda>_. None)\<rparr>"

text \<open>
  C21: The pointer operations implement a table of lists: every sequence of them that keeps list
  objects and items apart never stores to null and answers as the same sequence on a table of lists,
  where appending an item first removes it from the list it is in.
\<close>

theorem linked_lists_refine:
  assumes "table_run ops [] Map.empty = Some as"
  shows "link_run ops no_links = Inr as"
  by (rule link_run_table [OF _ _ assms])
    (auto simp: lists_ok_def in_lists_def detached_def no_links_def)

theorem linked_lists_refine_witness:
  "link_run [Init 0, Init 1, Append 0 5, Append 0 6, Append 1 5, Peek 0, Remove 6, IsEmpty 0, Peek 1] no_links =
     Inr [Nothing, Nothing, Nothing, Nothing, Nothing, Item (Some 6), Nothing, Flag True, Item (Some 5)]"
  by (rule linked_lists_refine) code_simp

end
