(* ===== verification/PriorityQueue.thy ===== *)
theory PriorityQueue
  imports Prelude
begin

text \<open>
  lib/internal/priority_queue.js: a binary heap in an array from index 1 on. The comparator and the
  optional \<^verbatim>\<open>setPosition\<close> callback are those given to the constructor; the callback acts on a
  state \<open>'s\<close> of the client. Halving and doubling are the shifts by one of the code.
\<close>

record 'a pqueue =
  heap :: "'a option list"
  pq_size :: nat

definition new_pqueue :: "'a pqueue" where
  "new_pqueue = \<lparr>heap = [None, None], pq_size = 0\<rparr>"

definition default_compare :: "int \<Rightarrow> int \<Rightarrow> int" where
  "default_compare a b = a - b"

definition compare_items :: "('a \<Rightarrow> 'a \<Rightarrow> int) \<Rightarrow> 'a option \<Rightarrow> 'a option \<Rightarrow> int" where
  "compare_items cmp x y = (case (x, y) of (Some a, Some b) \<Rightarrow> cmp a b | _ \<Rightarrow> 0)"

definition call_setPosition :: "('a \<Rightarrow> nat \<Rightarrow> 's \<Rightarrow> 's) option \<Rightarrow> 'a option \<Rightarrow> nat \<Rightarrow> 's \<Rightarrow> 's" where
  "call_setPosition setPosition x pos s =
     (case (setPosition, x) of (Some f, Some a) \<Rightarrow> f a pos s | _ \<Rightarrow> s)"

text \<open>\<^verbatim>\<open>heap[i] = v\<close> on a JavaScript array.\<close>

definition array_put :: "'a option list \<Rightarrow> nat \<Rightarrow> 'a option \<Rightarrow> 'a option list" where
  "array_put xs i v = (if i < length xs then xs[i := v] else xs @ replicate (i - length xs) None @ [v])"

definition array_get :: "'a option list \<Rightarrow> nat \<Rightarrow> 'a option" where
  "array_get xs i = (if i < length xs then xs ! i else None)"

function up_heap :: "('a \<Rightarrow> 'a \<Rightarrow> int) \<Rightarrow> ('a \<Rightarrow> nat \<Rightarrow> 's \<Rightarrow> 's) option \<Rightarrow> 'a option \<Rightarrow> nat \<Rightarrow> 'a option list \<Rightarrow> 's
    \<Rightarrow> nat \<times> 'a option list \<times> 's" where
  "up_heap cmp setPosition item pos h s =
     (if pos > 1 then
        (let parent = pos div 2; parentItem = array_get h parent
         in if compare_items cmp parentItem item \<le> 0 then (pos, h, s)
            else up_heap cmp setPosition item parent (array_put h pos parentItem)
                   (call_setPosition setPosition parentItem pos s))
      else (pos, h, s))"
  by pat_completeness auto
termination
  by (relation "measure (\<lambda>(_, _, _, pos, _, _). pos)") auto

declare up_heap.simps [simp del]

definition percolateUp :: "('a \<Rightarrow> 'a \<Rightarrow> int) \<Rightarrow> ('a \<Rightarrow> nat \<Rightarrow> 's \<Rightarrow> 's) option \<Rightarrow> nat \<Rightarrow> 'a pqueue \<times> 's \<Rightarrow> 'a pqueue \<times> 's" where
  "percolateUp cmp setPosition pos = (\<lambda>(q, s).
     let item = array_get (heap q) pos;
         (pos', h, s') = up_heap cmp setPosition item pos (heap q) s
     in (q\<lparr>heap := array_put h pos' item\<rparr>, call_setPosition setPosition item pos' s'))"

text \<open>The loop is entered with a position of the heap, which starts at 1.\<close>

function down_heap :: "('a \<Rightarrow> 'a \<Rightarrow> int) \<Rightarrow> ('a \<Rightarrow> nat \<Rightarrow> 's \<Rightarrow> 's) option \<Rightarrow> 'a option \<Rightarrow> nat \<Rightarrow> nat \<Rightarrow> 'a option list \<Rightarrow> 's
    \<Rightarrow> nat \<times> 'a option list \<times> 's" where
  "down_heap cmp setPosition item n pos h s =
     (if 0 < pos \<and> pos \<le> n div 2 then
        (let child = 2 * pos; nextChild = child + 1;
             child = (if nextChild \<le> n \<and> compare_items cmp (array_get h nextChild) (array_get h child) < 0
                      then nextChild else child);
             childItem = array_get h child
         in if compare_items cmp item childItem \<le> 0 then (pos, h, s)
            else down_heap cmp setPosition item n child (array_put h pos childItem)
                   (call_setPosition setPosition childItem pos s))
      else (pos, h, s))"
  by pat_completeness auto
termination
  by (relation "measure (\<lambda>(_, _, _, n, pos, _, _). n - pos)") (auto simp: Let_def)

declare down_heap.simps [simp del]

definition percolateDown :: "('a \<Rightarrow> 'a \<Rightarrow> int) \<Rightarrow> ('a \<Rightarrow> nat \<Rightarrow> 's \<Rightarrow> 's) option \<Rightarrow> nat \<Rightarrow> 'a pqueue \<times> 's \<Rightarrow> 'a pqueue \<times> 's" where
  "percolateDown cmp setPosition pos = (\<lambda>(q, s).
     let item = array_get (heap q) pos;
         (pos', h, s') = down_heap cmp setPosition item (pq_size q) pos (heap q) s
     in (q\<lparr>heap := array_put h pos' item\<rparr>, call_setPosition setPosition item pos' s'))"

definition pq_insert :: "('a \<Rightarrow> 'a \<Rightarrow> int) \<Rightarrow> ('a \<Rightarrow> nat \<Rightarrow> 's \<Rightarrow> 's) option \<Rightarrow> 'a \<Rightarrow> 'a pqueue \<times> 's \<Rightarrow> 'a pqueue \<times> 's" where
  "pq_insert cmp setPosition value = (\<lambda>(q, s).
     let pos = pq_size q + 1
     in percolateUp cmp setPosition pos (q\<lparr>pq_size := pos, heap := array_put (heap q) pos (Some value)\<rparr>, s))"

definition pq_peek :: "'a pqueue \<Rightarrow> 'a option" where
  "pq_peek q = array_get (heap q) 1"

definition pq_peekBottom :: "'a pqueue \<Rightarrow> 'a option" where
  "pq_peekBottom q = array_get (heap q) (pq_size q)"

definition removeAt :: "('a \<Rightarrow> 'a \<Rightarrow> int) \<Rightarrow> ('a \<Rightarrow> nat \<Rightarrow> 's \<Rightarrow> 's) option \<Rightarrow> nat \<Rightarrow> 'a pqueue \<times> 's \<Rightarrow> 'a pqueue \<times> 's" where
  "removeAt cmp setPosition pos = (\<lambda>(q, s).
     let n = pq_size q;
         h = array_put (heap q) pos (array_get (heap q) n);
         h = array_put h n None;
         n = n - 1;
         q = q\<lparr>heap := h, pq_size := n\<rparr>
     in if n > 0 \<and> pos \<le> n then
          if pos > 1 \<and> compare_items cmp (array_get h (pos div 2)) (array_get h pos) > 0
          then percolateUp cmp setPosition pos (q, s)
          else percolateDown cmp setPosition pos (q, s)
        else (q, s))"

definition pq_shift :: "('a \<Rightarrow> 'a \<Rightarrow> int) \<Rightarrow> ('a \<Rightarrow> nat \<Rightarrow> 's \<Rightarrow> 's) option \<Rightarrow> 'a pqueue \<times> 's \<Rightarrow> 'a option \<times> 'a pqueue \<times> 's" where
  "pq_shift cmp setPosition = (\<lambda>(q, s).
     (case array_get (heap q) 1 of
        None \<Rightarrow> (None, (q, s))
      | Some value \<Rightarrow> (Some value, removeAt cmp setPosition 1 (q, s))))"

subsection \<open>What the callback keeps\<close>

text \<open>A property of the client's state that the callback keeps is kept by every operation.\<close>

lemma call_setPosition_keeps: "(\<And>a p s. P s \<Longrightarrow> P (f a p s)) \<Longrightarrow> P s \<Longrightarrow> P (call_setPosition (Some f) x pos s)"
  by (simp add: call_setPosition_def split: option.split)

lemma up_heap_keeps:
  "(\<And>a p s. P s \<Longrightarrow> P (f a p s)) \<Longrightarrow> P s \<Longrightarrow> P (snd (snd (up_heap cmp (Some f) item pos h s)))"
proof (induction cmp "Some f" item pos h s rule: up_heap.induct)
  case (1 cmp item pos h s)
  show ?case
    by (subst up_heap.simps) (use 1 call_setPosition_keeps [of P f] in \<open>auto simp: Let_def\<close>)
qed

lemma down_heap_keeps:
  "(\<And>a p s. P s \<Longrightarrow> P (f a p s)) \<Longrightarrow> P s \<Longrightarrow> P (snd (snd (down_heap cmp (Some f) item n pos h s)))"
proof (induction cmp "Some f" item n pos h s rule: down_heap.induct)
  case (1 cmp item n pos h s)
  show ?case
    by (subst down_heap.simps) (use 1 call_setPosition_keeps [of P f] in \<open>auto simp: Let_def\<close>)
qed

lemma percolate_keeps:
  assumes "\<And>a p s. P s \<Longrightarrow> P (f a p s)" "P s"
  shows "P (snd (percolateUp cmp (Some f) pos (q, s)))" "P (snd (percolateDown cmp (Some f) pos (q, s)))"
proof -
  obtain i h s1 where up: "up_heap cmp (Some f) (array_get (heap q) pos) pos (heap q) s = (i, h, s1)" by (metis prod_cases3)
  obtain j k s2 where down: "down_heap cmp (Some f) (array_get (heap q) pos) (pq_size q) pos (heap q) s = (j, k, s2)"
    by (metis prod_cases3)
  have "P s1" using up_heap_keeps [of P f s, OF assms] up by (metis snd_conv)
  moreover have "P s2" using down_heap_keeps [of P f s, OF assms] down by (metis snd_conv)
  ultimately show "P (snd (percolateUp cmp (Some f) pos (q, s)))" "P (snd (percolateDown cmp (Some f) pos (q, s)))"
    using call_setPosition_keeps [of P f, OF assms(1)] by (simp_all add: percolateUp_def percolateDown_def Let_def up down)
qed

lemma pq_keeps:
  assumes "\<And>a p s. P s \<Longrightarrow> P (f a p s)" "P s"
  shows "P (snd (pq_insert cmp (Some f) v (q, s)))" "P (snd (removeAt cmp (Some f) pos (q, s)))"
    "P (snd (snd (pq_shift cmp (Some f) (q, s))))"
proof -
  show "P (snd (pq_insert cmp (Some f) v (q, s)))"
    unfolding pq_insert_def by (simp add: Let_def percolate_keeps [of P f, OF assms])
  have rm: "P (snd (removeAt cmp (Some f) pos (q, s)))" for pos
    unfolding removeAt_def by (simp add: Let_def percolate_keeps [of P f, OF assms] assms(2))
  then show "P (snd (removeAt cmp (Some f) pos (q, s)))" by blast
  show "P (snd (snd (pq_shift cmp (Some f) (q, s))))"
    unfolding pq_shift_def by (simp add: rm assms(2) split: option.split)
qed

subsection \<open>The array\<close>

definition pq_wf :: "'a option list \<Rightarrow> nat \<Rightarrow> bool" where
  "pq_wf h n \<longleftrightarrow> n < length h \<and> 1 < length h \<and> (\<forall>i < length h. h ! i \<noteq> None \<longleftrightarrow> 1 \<le> i \<and> i \<le> n)"

definition content :: "'a option list \<Rightarrow> 'a multiset" where
  "content h = image_mset the (filter_mset (\<lambda>x. x \<noteq> None) (mset h))"

abbreviation item_at :: "'a option list \<Rightarrow> nat \<Rightarrow> 'a" where
  "item_at h i \<equiv> the (h ! i)"

lemma array_simps [simp]:
  "i < length h \<Longrightarrow> array_get h i = h ! i" "i < length h \<Longrightarrow> array_put h i v = h[i := v]"
  by (simp_all add: array_get_def array_put_def)

lemma pq_wf_update: "pq_wf h n \<Longrightarrow> 1 \<le> i \<Longrightarrow> i \<le> n \<Longrightarrow> x \<noteq> None \<Longrightarrow> pq_wf (h[i := x]) n"
  by (auto simp: pq_wf_def nth_list_update)

lemma content_swap:
  assumes "i < length h" "j < length h"
  shows "content ((h[i := h ! j])[j := x]) = content (h[i := x])"
proof (cases "i = j")
  case False
  then have "mset ((h[i := h ! j])[j := x]) = mset (h[i := x])"
    using mset_swap [of i "h[i := x]" j] assms False list_update_swap [OF False, of h "h ! j" x]
      list_update_swap [OF False, of "h[i := x]" "h ! j" x] by simp
  then show ?thesis by (simp add: content_def)
qed simp

lemma content_update: "i < length h \<Longrightarrow> h ! i = None \<Longrightarrow> content (h[i := Some x]) = add_mset x (content h)"
  by (simp add: content_def mset_update)

lemma content_remove: "i < length h \<Longrightarrow> h ! i = Some x \<Longrightarrow> content h = add_mset x (content (h[i := None]))"
  using content_update [of i "h[i := None]" x] list_update_id [of h i] by simp

lemma compare_items_wf: "x \<noteq> None \<Longrightarrow> y \<noteq> None \<Longrightarrow> compare_items cmp x y = cmp (the x) (the y)"
  by (auto simp: compare_items_def)

text \<open>The heap with a hole at \<open>pos\<close>, in which the item \<open>x\<close> travels.\<close>

definition hole_wf :: "'a option list \<Rightarrow> nat \<Rightarrow> nat \<Rightarrow> 'a option \<Rightarrow> bool" where
  "hole_wf h n pos x \<longleftrightarrow> pq_wf (h[pos := x]) n \<and> 1 \<le> pos \<and> pos \<le> n"

lemma hole_wfD:
  assumes "hole_wf h n pos x"
  shows "n < length h" "x \<noteq> None" "pos < length h" "\<And>i. 1 \<le> i \<Longrightarrow> i \<le> n \<Longrightarrow> i \<noteq> pos \<Longrightarrow> h ! i \<noteq> None"
proof -
  have *: "n < length h" "\<And>i. i < length h \<Longrightarrow> h[pos := x] ! i \<noteq> None \<longleftrightarrow> 1 \<le> i \<and> i \<le> n" "1 \<le> pos" "pos \<le> n"
    using assms by (auto simp: hole_wf_def pq_wf_def)
  show "n < length h" "pos < length h" using * by auto
  show "x \<noteq> None" using *(2) [of pos] * by auto
  show "h ! i \<noteq> None" if "1 \<le> i" "i \<le> n" "i \<noteq> pos" for i using *(2) [of i] that *(1) by auto
qed

lemma hole_wf_move:
  assumes "hole_wf h n pos x" "1 \<le> i" "i \<le> n" "i \<noteq> pos"
  shows "hole_wf (h[pos := h ! i]) n i x"
proof -
  note d = hole_wfD [OF assms(1)]
  have "pq_wf (h[pos := h ! i]) n"
    using pq_wf_update [of "h[pos := x]" n pos "h ! i"] assms d(4) [of i] by (simp add: hole_wf_def)
  then have "pq_wf (h[pos := h ! i, i := x]) n"
    using assms(2,3) d(2) by (rule pq_wf_update)
  then show ?thesis using assms by (simp add: hole_wf_def)
qed

lemma content_append: "content (h @ [Some x]) = add_mset x (content h)"
  by (simp add: content_def)

lemma pq_insert_array:
  assumes "pq_wf h n" "h' = array_put h (Suc n) (Some v)"
  shows "pq_wf h' (Suc n) \<and> content h' = add_mset v (content h) \<and> (\<forall>i \<le> n. h' ! i = h ! i) \<and> h' ! Suc n = Some v"
proof (cases "Suc n < length h")
  case True
  moreover from this have "h ! Suc n = None" using assms(1) by (auto simp: pq_wf_def)
  ultimately show ?thesis using assms content_update [of "Suc n" h v]
    by (auto simp: pq_wf_def nth_list_update le_Suc_eq)
next
  case False
  then have "length h = Suc n" "h' = h @ [Some v]" using assms by (auto simp: pq_wf_def array_put_def)
  then show ?thesis using assms by (auto simp: pq_wf_def content_append nth_append less_Suc_eq le_Suc_eq)
qed

lemma removeAt_array:
  assumes "pq_wf h0 n" "1 \<le> pos" "pos \<le> n" "h0 ! pos = Some v" "h = h0[pos := h0 ! n, n := None]"
  shows "pq_wf h (n - 1)" "content h0 = add_mset v (content h)"
proof -
  have wf: "n < length h0" "\<And>i. i < length h0 \<Longrightarrow> h0 ! i \<noteq> None \<longleftrightarrow> 1 \<le> i \<and> i \<le> n" "1 < length h0"
    using assms(1) by (auto simp: pq_wf_def)
  obtain x where x: "h0 ! n = Some x" using wf(2) [OF wf(1)] assms(2,3) by auto
  have pos: "pos < length h0" using assms(3) wf(1) by simp
  show "pq_wf h (n - 1)" using wf assms(2,3,5) x by (auto simp: pq_wf_def nth_list_update)
  have "content h0 = add_mset v (content (h0[pos := None]))" by (rule content_remove [OF pos assms(4)])
  moreover have "content (h0[pos := None]) = content h"
  proof (cases "pos = n")
    case True
    then show ?thesis using assms(5) by simp
  next
    case False
    then have "content (h0[pos := None]) = add_mset x (content (h0[pos := None, n := None]))"
      using content_remove [of n "h0[pos := None]" x] wf(1) x by simp
    moreover have "content h = add_mset x (content (h0[pos := None, n := None]))"
      using content_remove [of pos h x] False pos wf(1) x list_update_swap [of n pos h0 None None]
        list_update_swap [of pos n h0 "Some x" None] assms(5) by simp
    ultimately show ?thesis by simp
  qed
  ultimately show "content h0 = add_mset v (content h)" by simp
qed

subsection \<open>The heap\<close>

text \<open>
  What a client promises: a comparator that is a total preorder with a consistent sign, and a
  callback that records the position of one item without disturbing the others.
\<close>

locale comparator =
  fixes cmp :: "'a \<Rightarrow> 'a \<Rightarrow> int"
  assumes cmp_trans: "cmp a b \<le> 0 \<Longrightarrow> cmp b c \<le> 0 \<Longrightarrow> cmp a c \<le> 0"
    and cmp_sign: "cmp a b < 0 \<longleftrightarrow> 0 < cmp b a"
begin

lemma cmp_refl: "cmp a a = 0"
  using cmp_sign [of a a] by linarith

lemma cmp_total: "\<not> cmp a b \<le> 0 \<Longrightarrow> cmp b a \<le> 0"
  using cmp_sign [of b a] by linarith

definition le :: "'a option \<Rightarrow> 'a option \<Rightarrow> bool" where
  "le x y \<longleftrightarrow> cmp (the x) (the y) \<le> 0"

lemma le_trans: "le x y \<Longrightarrow> le y z \<Longrightarrow> le x z"
  unfolding le_def by (rule cmp_trans)

lemma le_total: "\<not> le x y \<Longrightarrow> le y x"
  unfolding le_def by (rule cmp_total)

definition heap_ordered :: "'a option list \<Rightarrow> nat \<Rightarrow> bool" where
  "heap_ordered h n \<longleftrightarrow> (\<forall>i. 2 \<le> i \<and> i \<le> n \<longrightarrow> le (h ! (i div 2)) (h ! i))"

text \<open>The heap but for the hole at \<open>pos\<close>, into which \<open>x\<close> will go.\<close>

definition hole_ordered :: "'a option list \<Rightarrow> nat \<Rightarrow> nat \<Rightarrow> bool" where
  "hole_ordered h n pos \<longleftrightarrow>
     (\<forall>i. 2 \<le> i \<and> i \<le> n \<and> i \<noteq> pos \<and> i div 2 \<noteq> pos \<longrightarrow> le (h ! (i div 2)) (h ! i)) \<and>
     (\<forall>i. 2 \<le> i \<and> i \<le> n \<and> i div 2 = pos \<and> pos > 1 \<longrightarrow> le (h ! (pos div 2)) (h ! i))"

definition above_children :: "'a option list \<Rightarrow> nat \<Rightarrow> nat \<Rightarrow> 'a option \<Rightarrow> bool" where
  "above_children h n pos x \<longleftrightarrow> (\<forall>i. 2 \<le> i \<and> i \<le> n \<and> i div 2 = pos \<longrightarrow> le x (h ! i))"

definition below_parent :: "'a option list \<Rightarrow> nat \<Rightarrow> 'a option \<Rightarrow> bool" where
  "below_parent h pos x \<longleftrightarrow> (pos > 1 \<longrightarrow> le (h ! (pos div 2)) x)"

lemma hole_filled:
  assumes "hole_ordered h n pos" "above_children h n pos x" "below_parent h pos x" "n < length h" "1 \<le> pos" "pos \<le> n"
  shows "heap_ordered (h[pos := x]) n"
  unfolding heap_ordered_def
proof (intro allI impI)
  fix i assume i: "2 \<le> i \<and> i \<le> n"
  then have "i div 2 \<noteq> i" by auto
  then show "le (h[pos := x] ! (i div 2)) (h[pos := x] ! i)"
    using assms i
    by (cases "i = pos"; cases "i div 2 = pos")
      (auto simp: hole_ordered_def above_children_def below_parent_def nth_list_update)
qed

lemma hole_up:
  assumes "hole_ordered h n pos" "above_children h n pos x" "pos > 1" "pos \<le> n" "n < length h"
    and gt: "\<not> le (h ! (pos div 2)) x"
  shows "hole_ordered (h[pos := h ! (pos div 2)]) n (pos div 2) \<and>
    above_children (h[pos := h ! (pos div 2)]) n (pos div 2) x"
proof -
  let ?p = "pos div 2"
  have p: "?p < pos" "1 \<le> ?p" using assms(3) by auto
  have ord: "le (h ! (i div 2)) (h ! i)" if "2 \<le> i" "i \<le> n" "i \<noteq> pos" "i div 2 \<noteq> pos" for i
    using assms(1) that by (simp add: hole_ordered_def)
  have kids: "le (h ! ?p) (h ! i)" if "2 \<le> i" "i \<le> n" "i div 2 = pos" for i
    using assms(1,3) that by (auto simp: hole_ordered_def)
  have x: "le x (h ! ?p)" using gt le_total by blast
  have pp: "le (h ! (?p div 2)) (h ! ?p)" if "?p > 1" using that p assms(4) by (intro ord) auto
  show ?thesis
    unfolding hole_ordered_def above_children_def
  proof (intro conjI allI impI)
    fix i assume i: "2 \<le> i \<and> i \<le> n \<and> i \<noteq> ?p \<and> i div 2 \<noteq> ?p"
    then have "i \<noteq> pos" by auto
    then show "le (h[pos := h ! ?p] ! (i div 2)) (h[pos := h ! ?p] ! i)"
      using i ord [of i] kids [of i] assms(4,5) by (cases "i div 2 = pos") (auto simp: nth_list_update)
  next
    fix i assume i: "2 \<le> i \<and> i \<le> n \<and> i div 2 = ?p \<and> ?p > 1"
    then have "?p div 2 \<noteq> pos" using p by auto
    moreover have "le (h ! (?p div 2)) (h ! i)" if "i \<noteq> pos"
      using that i p le_trans [OF pp, of "h ! i"] ord [of i] by auto
    ultimately show "le (h[pos := h ! ?p] ! (?p div 2)) (h[pos := h ! ?p] ! i)"
      using i pp assms(4,5) by (cases "i = pos") (auto simp: nth_list_update)
  next
    fix i assume i: "2 \<le> i \<and> i \<le> n \<and> i div 2 = ?p"
    then show "le x (h[pos := h ! ?p] ! i)"
      using x ord [of i] p assms(4,5) le_trans [OF x] by (cases "i = pos") (auto simp: nth_list_update)
  qed
qed

lemma hole_down:
  assumes "hole_ordered h n pos" "1 \<le> pos" "n < length h"
    and c: "2 \<le> c" "c \<le> n" "c div 2 = pos" "\<And>i. 2 \<le> i \<Longrightarrow> i \<le> n \<Longrightarrow> i div 2 = pos \<Longrightarrow> le (h ! c) (h ! i)"
    and gt: "\<not> le x (h ! c)"
  shows "hole_ordered (h[pos := h ! c]) n c \<and> below_parent (h[pos := h ! c]) c x"
proof -
  have p: "pos < c" "pos < length h" using c assms(2,3) by auto
  have ord: "le (h ! (i div 2)) (h ! i)" if "2 \<le> i" "i \<le> n" "i \<noteq> pos" "i div 2 \<noteq> pos" for i
    using assms(1) that by (simp add: hole_ordered_def)
  have kids: "le (h ! (pos div 2)) (h ! i)" if "2 \<le> i" "i \<le> n" "i div 2 = pos" "pos > 1" for i
    using assms(1) that by (auto simp: hole_ordered_def)
  have "le (h ! c) x" using gt le_total by blast
  then have "below_parent (h[pos := h ! c]) c x" using c p by (simp add: below_parent_def)
  moreover have "hole_ordered (h[pos := h ! c]) n c"
    unfolding hole_ordered_def
  proof (intro conjI allI impI)
    fix i assume i: "2 \<le> i \<and> i \<le> n \<and> i \<noteq> c \<and> i div 2 \<noteq> c"
    then show "le (h[pos := h ! c] ! (i div 2)) (h[pos := h ! c] ! i)"
      using ord [of i] c(4) [of i] kids [of c] c(1-3) p
      by (cases "i = pos"; cases "i div 2 = pos") (auto simp: nth_list_update)
  next
    fix i assume i: "2 \<le> i \<and> i \<le> n \<and> i div 2 = c \<and> c > 1"
    then have "i \<noteq> pos" "i div 2 \<noteq> pos" using p by auto
    then show "le (h[pos := h ! c] ! (c div 2)) (h[pos := h ! c] ! i)"
      using ord [of i] i c(3) p by (auto simp: nth_list_update)
  qed
  ultimately show ?thesis by blast
qed

lemma compare_le: "x \<noteq> None \<Longrightarrow> y \<noteq> None \<Longrightarrow> compare_items cmp x y \<le> 0 \<longleftrightarrow> le x y"
  by (simp add: le_def compare_items_wf)

lemma heap_min:
  assumes "heap_ordered h n" "1 \<le> i" "i \<le> n"
  shows "le (h ! 1) (h ! i)"
  using assms(2,3)
proof (induction i rule: less_induct)
  case (less i)
  show ?case
  proof (cases "i = 1")
    case True
    then show ?thesis by (simp add: le_def cmp_refl)
  next
    case False
    then have "le (h ! 1) (h ! (i div 2))" using less by (intro less.IH) auto
    moreover have "le (h ! (i div 2)) (h ! i)" using assms(1) less.prems False by (simp add: heap_ordered_def)
    ultimately show ?thesis by (rule le_trans)
  qed
qed

lemma up_heap_spec:
  assumes "up_heap cmp sp x pos h s = (pos', h', s')" "hole_wf h n pos x" "hole_ordered h n pos" "above_children h n pos x"
  shows "hole_wf h' n pos' x \<and> heap_ordered (h'[pos' := x]) n \<and> content (h'[pos' := x]) = content (h[pos := x])
    \<and> length h' = length h"
  using assms
proof (induction pos arbitrary: h s rule: less_induct)
  case (less pos)
  note d = hole_wfD [OF less.prems(2)]
  have pos: "1 \<le> pos" "pos \<le> n" using less.prems(2) by (auto simp: hole_wf_def)
  have filled: ?case if "below_parent h pos x" "(pos', h', s') = (pos, h, s)"
    using hole_filled [OF less.prems(3,4) that(1) d(1) pos] less.prems(2) that(2) by simp
  let ?p = "pos div 2"
  show ?case
  proof (cases "pos > 1 \<and> \<not> le (h ! ?p) x")
    case True
    then have p: "?p < pos" "1 \<le> ?p" "?p \<le> n" "?p \<noteq> pos" "?p < length h" using pos d(1) by auto
    have gt: "\<not> compare_items cmp (array_get h ?p) x \<le> 0"
      using True d(2) d(4) [of ?p] p compare_le [of "h ! ?p" x] by simp
    have "up_heap cmp sp x ?p (h[pos := h ! ?p]) (call_setPosition sp (h ! ?p) pos s) = (pos', h', s')"
      using less.prems(1) True gt p d(3) by (subst (asm) up_heap.simps) (simp add: Let_def)
    moreover have "hole_wf (h[pos := h ! ?p]) n ?p x" by (rule hole_wf_move [OF less.prems(2) p(2-4)])
    ultimately have "hole_wf h' n pos' x \<and> heap_ordered (h'[pos' := x]) n \<and>
        content (h'[pos' := x]) = content (h[pos := h ! ?p, ?p := x]) \<and> length h' = length (h[pos := h ! ?p])"
      using hole_up [OF less.prems(3,4) _ pos(2) d(1)] True p(1) by (intro less.IH) auto
    then show ?thesis using content_swap [OF d(3) p(5), of x] by simp
  next
    case False
    then have "up_heap cmp sp x pos h s = (pos, h, s)"
      using d(2) d(4) [of ?p] d(1) compare_le [of "h ! ?p" x] pos
      by (subst up_heap.simps) auto
    moreover have "below_parent h pos x" using False by (auto simp: below_parent_def)
    ultimately show ?thesis using filled less.prems(1) by simp
  qed
qed

lemma down_heap_spec:
  assumes "down_heap cmp sp x n pos h s = (pos', h', s')" "hole_wf h n pos x" "hole_ordered h n pos" "below_parent h pos x"
  shows "hole_wf h' n pos' x \<and> heap_ordered (h'[pos' := x]) n \<and> content (h'[pos' := x]) = content (h[pos := x])
    \<and> length h' = length h"
  using assms
proof (induction "n - pos" arbitrary: pos h s rule: less_induct)
  case (less pos)
  note d = hole_wfD [OF less.prems(2)]
  have pos: "1 \<le> pos" "pos \<le> n" using less.prems(2) by (auto simp: hole_wf_def)
  have filled: ?case if "above_children h n pos x" "(pos', h', s') = (pos, h, s)"
    using hole_filled [OF less.prems(3) that(1) less.prems(4) d(1) pos] less.prems(2) that(2) by simp
  define c where "c = (if 2 * pos + 1 \<le> n \<and> compare_items cmp (array_get h (2 * pos + 1)) (array_get h (2 * pos)) < 0
      then 2 * pos + 1 else 2 * pos)"
  show ?case
  proof (cases "pos \<le> n div 2")
    case False
    then have "down_heap cmp sp x n pos h s = (pos, h, s)" by (subst down_heap.simps) simp
    moreover have "above_children h n pos x" using False by (auto simp: above_children_def)
    ultimately show ?thesis using filled less.prems(1) by simp
  next
    case True
    have c: "2 \<le> c" "c \<le> n" "c div 2 = pos" "c \<noteq> pos" "c < length h" "pos < c" "1 \<le> c"
      using True pos d(1) by (auto simp: c_def)
    have kids: "i = 2 * pos \<or> i = 2 * pos + 1" if "i div 2 = pos" for i using that by auto
    have min: "le (h ! c) (h ! i)" if "2 \<le> i" "i \<le> n" "i div 2 = pos" for i
    proof -
      have s: "h ! (2 * pos) \<noteq> None" "2 * pos + 1 \<le> n \<Longrightarrow> h ! (2 * pos + 1) \<noteq> None"
        using d(4) pos True by auto
      then show ?thesis
        using kids [OF that(3)] that True d(1) cmp_refl cmp_sign [of "the (h ! (2 * pos + 1))" "the (h ! (2 * pos))"]
          compare_items_wf [of "h ! (2 * pos + 1)" "h ! (2 * pos)" cmp]
        by (auto simp: c_def le_def split: if_splits)
    qed
    have step: "down_heap cmp sp x n pos h s = (if compare_items cmp x (h ! c) \<le> 0 then (pos, h, s)
        else down_heap cmp sp x n c (h[pos := h ! c]) (call_setPosition sp (h ! c) pos s))"
      unfolding down_heap.simps [of cmp sp x n pos h s] Let_def c_def [symmetric]
      using True pos d(3) c(5) by simp
    have cmp: "compare_items cmp x (h ! c) \<le> 0 \<longleftrightarrow> le x (h ! c)"
      using d(2) d(4) [of c] c by (intro compare_le) auto
    show ?thesis
    proof (cases "le x (h ! c)")
      case True
      then have "above_children h n pos x" using min le_trans by (auto simp: above_children_def)
      then show ?thesis using filled less.prems(1) step cmp True by simp
    next
      case False
      have "hole_wf (h[pos := h ! c]) n c x" using c by (intro hole_wf_move [OF less.prems(2)]) auto
      moreover have "down_heap cmp sp x n c (h[pos := h ! c]) (call_setPosition sp (h ! c) pos s) = (pos', h', s')"
        using less.prems(1) step cmp False by simp
      moreover have "hole_ordered (h[pos := h ! c]) n c" "below_parent (h[pos := h ! c]) c x"
        using hole_down [OF less.prems(3) pos(1) d(1) c(1-3) min False] by blast+
      moreover have "n - c < n - pos" using c(2,6) by simp
      ultimately have "hole_wf h' n pos' x \<and> heap_ordered (h'[pos' := x]) n \<and>
          content (h'[pos' := x]) = content (h[pos := h ! c, c := x]) \<and> length h' = length (h[pos := h ! c])"
        by (intro less.hyps [of c "h[pos := h ! c]" "call_setPosition sp (h ! c) pos s"])
      then show ?thesis using content_swap [OF d(3) c(5), of x] by simp
    qed
  qed
qed

definition pq_ok :: "'a pqueue \<Rightarrow> bool" where
  "pq_ok q \<longleftrightarrow> pq_wf (heap q) (pq_size q) \<and> heap_ordered (heap q) (pq_size q)"

abbreviation pq_content :: "'a pqueue \<Rightarrow> 'a multiset" where
  "pq_content q \<equiv> content (heap q)"

lemma percolateUp_ok:
  assumes "hole_wf (heap q) (pq_size q) pos (heap q ! pos)" "hole_ordered (heap q) (pq_size q) pos"
    "above_children (heap q) (pq_size q) pos (heap q ! pos)"
  shows "pq_ok (fst (percolateUp cmp sp pos (q, s))) \<and> pq_content (fst (percolateUp cmp sp pos (q, s))) = pq_content q
    \<and> pq_size (fst (percolateUp cmp sp pos (q, s))) = pq_size q"
proof -
  have len: "pos < length (heap q)" using hole_wfD(3) [OF assms(1)] by blast
  obtain pos' h' s' where up: "up_heap cmp sp (heap q ! pos) pos (heap q) s = (pos', h', s')"
    by (metis prod_cases3)
  note spec = up_heap_spec [OF up assms]
  have "pos' < length h'" using spec hole_wfD(3) by blast
  then show ?thesis using spec up len by (simp add: percolateUp_def pq_ok_def hole_wf_def Let_def)
qed

lemma percolateDown_ok:
  assumes "hole_wf (heap q) (pq_size q) pos (heap q ! pos)" "hole_ordered (heap q) (pq_size q) pos"
    "below_parent (heap q) pos (heap q ! pos)"
  shows "pq_ok (fst (percolateDown cmp sp pos (q, s))) \<and> pq_content (fst (percolateDown cmp sp pos (q, s))) = pq_content q
    \<and> pq_size (fst (percolateDown cmp sp pos (q, s))) = pq_size q"
proof -
  have len: "pos < length (heap q)" using hole_wfD(3) [OF assms(1)] by blast
  obtain pos' h' s' where down: "down_heap cmp sp (heap q ! pos) (pq_size q) pos (heap q) s = (pos', h', s')"
    by (metis prod_cases3)
  note spec = down_heap_spec [OF down assms]
  have "pos' < length h'" using spec hole_wfD(3) by blast
  then show ?thesis using spec down len by (simp add: percolateDown_def pq_ok_def hole_wf_def Let_def)
qed

lemma pq_new: "pq_ok new_pqueue" "pq_content new_pqueue = {#}"
  by (auto simp: pq_ok_def new_pqueue_def pq_wf_def heap_ordered_def content_def less_Suc_eq nth_Cons')

lemma pq_insert_ok:
  assumes "pq_ok q"
  shows "pq_ok (fst (pq_insert cmp sp v (q, s))) \<and> pq_content (fst (pq_insert cmp sp v (q, s))) = add_mset v (pq_content q)
    \<and> pq_size (fst (pq_insert cmp sp v (q, s))) = Suc (pq_size q)"
proof -
  let ?n = "pq_size q"
  define h where "h = array_put (heap q) (Suc ?n) (Some v)"
  have h: "pq_wf h (Suc ?n)" "content h = add_mset v (pq_content q)" "\<And>i. i \<le> ?n \<Longrightarrow> h ! i = heap q ! i" "h ! Suc ?n = Some v"
    using pq_insert_array [OF _ h_def] assms by (auto simp: pq_ok_def)
  have ord: "\<And>i. 2 \<le> i \<Longrightarrow> i \<le> ?n \<Longrightarrow> le (heap q ! (i div 2)) (heap q ! i)"
    using assms by (auto simp: pq_ok_def heap_ordered_def)
  have "hole_ordered h (Suc ?n) (Suc ?n)"
    unfolding hole_ordered_def using h(3) ord by (auto simp: le_Suc_eq)
  moreover have "above_children h (Suc ?n) (Suc ?n) (h ! Suc ?n)" by (auto simp: above_children_def)
  moreover have "hole_wf h (Suc ?n) (Suc ?n) (h ! Suc ?n)" using h(1) by (simp add: hole_wf_def)
  ultimately show ?thesis
    using percolateUp_ok [of "q\<lparr>pq_size := Suc ?n, heap := h\<rparr>" "Suc ?n" sp s] h(2)
    by (simp add: pq_insert_def h_def)
qed

lemma removeAt_ok:
  assumes "pq_ok q" "1 \<le> pos" "pos \<le> pq_size q" "heap q ! pos = Some v"
  shows "pq_ok (fst (removeAt cmp sp pos (q, s))) \<and> pq_content q = add_mset v (pq_content (fst (removeAt cmp sp pos (q, s))))
    \<and> pq_size (fst (removeAt cmp sp pos (q, s))) = pq_size q - 1"
proof -
  let ?n = "pq_size q" and ?h = "heap q"
  have wf: "?n < length ?h" "\<And>i. i < length ?h \<Longrightarrow> ?h ! i \<noteq> None \<longleftrightarrow> 1 \<le> i \<and> i \<le> ?n" "1 < length ?h"
    using assms(1) by (auto simp: pq_ok_def pq_wf_def)
  have ord: "\<And>i. 2 \<le> i \<Longrightarrow> i \<le> ?n \<Longrightarrow> le (?h ! (i div 2)) (?h ! i)"
    using assms(1) by (auto simp: pq_ok_def heap_ordered_def)
  obtain x where x: "?h ! ?n = Some x" using wf(2) [OF wf(1)] assms(2,3) by auto
  define h where "h = ?h[pos := ?h ! ?n, ?n := None]"
  have pos: "pos < length ?h" using assms(3) wf(1) by simp
  have h: "pq_wf h (?n - 1)" "content ?h = add_mset v (content h)"
    using removeAt_array [OF _ assms(2-4) h_def] assms(1) by (auto simp: pq_ok_def)
  have cont: "content ?h = add_mset v (content h)" by (rule h(2))
  have lenh: "length h = length ?h" by (simp add: h_def)
  let ?q = "q\<lparr>heap := h, pq_size := ?n - 1\<rparr>"
  have run: "removeAt cmp sp pos (q, s) =
    (if ?n - 1 > 0 \<and> pos \<le> ?n - 1 then
       if pos > 1 \<and> compare_items cmp (array_get h (pos div 2)) (array_get h pos) > 0
       then percolateUp cmp sp pos (?q, s) else percolateDown cmp sp pos (?q, s)
     else (?q, s))"
    using x pos wf(1) by (simp add: removeAt_def Let_def h_def)
  show ?thesis
  proof (cases "pos \<le> ?n - 1")
    case False
    then have "heap_ordered h (?n - 1)"
      using ord assms(3) by (auto simp: heap_ordered_def h_def nth_list_update)
    then show ?thesis using False run h cont by (simp add: pq_ok_def)
  next
    case True
    have two: "Suc 0 < ?n" using True assms(2) by simp
    have same: "h ! i = ?h ! i" if "i \<noteq> pos" "i \<noteq> ?n" for i using that by (simp add: h_def)
    have hp: "h ! pos = Some x" using True assms(2) pos x by (simp add: h_def)
    have hw: "hole_wf h (?n - 1) pos (h ! pos)" using h(1) assms(2) True by (simp add: hole_wf_def)
    have kids: "le (?h ! (pos div 2)) (?h ! i)" if "2 \<le> i" "i \<le> ?n" "i div 2 = pos" "pos > 1" for i
      using le_trans [OF ord [of pos], of "?h ! i"] ord [of i] that assms(3) by auto
    have ho: "hole_ordered h (?n - 1) pos"
      unfolding hole_ordered_def using same ord kids True by (auto simp: )
    show ?thesis
    proof (cases "pos > 1 \<and> compare_items cmp (array_get h (pos div 2)) (array_get h pos) > 0")
      case up: True
      then have "\<not> le (h ! (pos div 2)) (h ! pos)"
        using h(1) lenh wf(1) True hp hole_wfD(4) [OF hw, of "pos div 2"] by (auto simp: le_def compare_items_wf)
      then have "le (h ! pos) (?h ! (pos div 2))" using same [of "pos div 2"] True up le_total by auto
      then have "above_children h (?n - 1) pos (h ! pos)"
        unfolding above_children_def using kids same up le_trans by fastforce
      then show ?thesis using percolateUp_ok [of ?q pos sp s] hw ho run True up cont two by simp
    next
      case down: False
      have "below_parent h pos (h ! pos)"
        unfolding below_parent_def using down h(1) lenh wf(1) True hp hole_wfD(4) [OF hw, of "pos div 2"]
        by (auto simp: le_def compare_items_wf)
      moreover have "removeAt cmp sp pos (q, s) = percolateDown cmp sp pos (?q, s)"
        unfolding run if_not_P [OF down] using two True by simp
      ultimately show ?thesis using percolateDown_ok [of ?q pos sp s] hw ho cont by simp
    qed
  qed
qed

lemma pq_shift_ok:
  assumes "pq_ok q"
  shows "case pq_shift cmp sp (q, s) of
      (None, r) \<Rightarrow> r = (q, s) \<and> pq_content q = {#}
    | (Some v, r) \<Rightarrow> pq_ok (fst r) \<and> pq_content q = add_mset v (pq_content (fst r)) \<and>
        (\<forall>y \<in># pq_content q. cmp v y \<le> 0)"
proof -
  let ?h = "heap q"
  have wf: "1 < length ?h" "pq_size q < length ?h" "\<And>i. i < length ?h \<Longrightarrow> ?h ! i \<noteq> None \<longleftrightarrow> 1 \<le> i \<and> i \<le> pq_size q"
    using assms by (auto simp: pq_ok_def pq_wf_def)
  show ?thesis
  proof (cases "?h ! 1")
    case None
    then have "pq_size q = 0" using wf(3) [of 1] wf(1) by auto
    then have "\<forall>x \<in> set ?h. x = None" using wf(3) by (fastforce simp: in_set_conv_nth)
    then have "pq_content q = {#}" by (simp add: content_def filter_mset_eq_conv)
    then show ?thesis using None wf(1) by (simp add: pq_shift_def)
  next
    case (Some v)
    then have "1 \<le> pq_size q" using wf(3) [of 1] wf(1) by auto
    then have rem: "pq_ok (fst (removeAt cmp sp 1 (q, s)))" "pq_content q = add_mset v (pq_content (fst (removeAt cmp sp 1 (q, s))))"
      using removeAt_ok [OF assms _ _ Some, of sp s] by auto
    have "cmp v y \<le> 0" if "y \<in># pq_content q" for y
    proof -
      obtain i where "i < length ?h" "?h ! i = Some y"
        using \<open>y \<in># pq_content q\<close> by (force simp: content_def in_set_conv_nth)
      then have "le (?h ! 1) (?h ! i)"
        using assms wf(3) [of i] by (intro heap_min) (auto simp: pq_ok_def)
      then show ?thesis using Some \<open>?h ! i = Some y\<close> by (simp add: le_def)
    qed
    then show ?thesis using Some wf(1) rem by (simp add: pq_shift_def)
  qed
qed

lemma pq_peek_ok:
  assumes "pq_ok q"
  shows "case pq_peek q of None \<Rightarrow> pq_content q = {#} | Some v \<Rightarrow> v \<in># pq_content q \<and> (\<forall>y \<in># pq_content q. cmp v y \<le> 0)"
proof -
  have "1 < length (heap q)" using assms by (auto simp: pq_ok_def pq_wf_def)
  then show ?thesis
    using pq_shift_ok [OF assms, where sp = "None :: ('a \<Rightarrow> nat \<Rightarrow> unit \<Rightarrow> unit) option" and s = "()"] by (auto simp: pq_peek_def pq_shift_def split: option.splits)
qed

end

subsection \<open>Positions\<close>

text \<open>
  A client that keeps the position of each item, as the timer lists do, finds there the index of the
  item in the heap, as long as no item is inserted twice.
\<close>

locale positions =
  fixes setp :: "'a \<Rightarrow> nat \<Rightarrow> 's \<Rightarrow> 's"
    and getp :: "'s \<Rightarrow> 'a \<Rightarrow> nat option"
  assumes getp_setp: "getp (setp a p s) b = (if b = a then Some p else getp s b)"
begin

definition distinct_items :: "'a option list \<Rightarrow> bool" where
  "distinct_items h \<longleftrightarrow> (\<forall>a. count (content h) a \<le> 1)"

definition placed :: "'s \<Rightarrow> 'a option list \<Rightarrow> nat \<Rightarrow> nat \<Rightarrow> bool" where
  "placed s h n pos \<longleftrightarrow> (\<forall>i. 1 \<le> i \<and> i \<le> n \<and> i \<noteq> pos \<longrightarrow> getp s (item_at h i) = Some i)"

lemma distinct_items_nth:
  assumes "distinct_items h" "i < length h" "j < length h" "i \<noteq> j" "h ! i = Some a"
  shows "h ! j \<noteq> Some a"
proof
  assume "h ! j = Some a"
  have "content h = add_mset a (content (h[i := None]))" by (rule content_remove [OF assms(2,5)])
  also have "content (h[i := None]) = add_mset a (content (h[i := None, j := None]))"
    using assms(3,4) \<open>h ! j = Some a\<close> by (intro content_remove) auto
  finally have "count (content h) a \<ge> 2" by simp
  then show False using assms(1) by (auto simp: distinct_items_def not_le [symmetric] dest: spec [of _ a])
qed

lemma placed_move:
  assumes "hole_wf h n pos x" "1 \<le> c" "c \<le> n" "c \<noteq> pos" "distinct_items (h[pos := x])" "placed s h n pos"
  shows "placed (call_setPosition (Some setp) (h ! c) pos s) (h[pos := h ! c]) n c \<and> distinct_items (h[pos := h ! c, c := x])"
proof -
  note d = hole_wfD [OF assms(1)]
  obtain a where a: "h ! c = Some a" using d(4) assms(2-4) by blast
  have "getp (setp a pos s) (item_at (h[pos := h ! c]) i) = Some i" if i: "1 \<le> i" "i \<le> n" "i \<noteq> c" for i
  proof (cases "i = pos")
    case True
    then show ?thesis using d(3) a by (simp add: getp_setp)
  next
    case False
    then obtain b where b: "h ! i = Some b" using d(4) i by blast
    have "b \<noteq> a" using distinct_items_nth [OF assms(5), of i c b] a b False i d(1) assms(3,4) by auto
    then show ?thesis using assms(6) False i b by (auto simp: placed_def getp_setp)
  qed
  moreover have "distinct_items (h[pos := h ! c, c := x])"
    using assms(3,5) d(1,3) content_swap [of pos h c x] by (simp add: distinct_items_def)
  ultimately show ?thesis using a by (simp add: placed_def call_setPosition_def)
qed

lemma placed_fill:
  assumes "hole_wf h n pos x" "distinct_items (h[pos := x])" "placed s h n pos"
  shows "placed (call_setPosition (Some setp) x pos s) (h[pos := x]) n 0"
proof -
  note d = hole_wfD [OF assms(1)]
  obtain a where a: "x = Some a" using d(2) by blast
  have "getp (setp a pos s) (item_at (h[pos := x]) i) = Some i" if i: "1 \<le> i" "i \<le> n" for i
  proof (cases "i = pos")
    case True
    then show ?thesis using d(3) a by (simp add: getp_setp)
  next
    case False
    then obtain b where b: "h ! i = Some b" using d(4) i by blast
    have "b \<noteq> a" using distinct_items_nth [OF assms(2), of i pos b] a b False i d(1,3) by auto
    then show ?thesis using assms(3) False i b by (auto simp: placed_def getp_setp)
  qed
  then show ?thesis using a by (simp add: placed_def call_setPosition_def)
qed

lemma up_heap_placed:
  assumes "up_heap cmp (Some setp) x pos h s = (pos', h', s')" "hole_wf h n pos x" "distinct_items (h[pos := x])" "placed s h n pos"
  shows "hole_wf h' n pos' x \<and> distinct_items (h'[pos' := x]) \<and> placed s' h' n pos'"
  using assms
proof (induction pos arbitrary: h s rule: less_induct)
  case (less pos)
  note d = hole_wfD [OF less.prems(2)]
  have pos: "1 \<le> pos" "pos \<le> n" using less.prems(2) by (auto simp: hole_wf_def)
  let ?p = "pos div 2"
  show ?case
  proof (cases "pos > 1 \<and> \<not> compare_items cmp (array_get h ?p) x \<le> 0")
    case True
    then have p: "?p < pos" "1 \<le> ?p" "?p \<le> n" "?p \<noteq> pos" "?p < length h" using pos d(1) by auto
    have run: "up_heap cmp (Some setp) x ?p (h[pos := h ! ?p]) (call_setPosition (Some setp) (h ! ?p) pos s) = (pos', h', s')"
      using less.prems(1) True p d(3) by (subst (asm) up_heap.simps) (simp add: Let_def)
    have "hole_wf (h[pos := h ! ?p]) n ?p x" by (rule hole_wf_move [OF less.prems(2) p(2-4)])
    then show ?thesis
      using less.IH [OF p(1) run] placed_move [OF less.prems(2) p(2-4) less.prems(3,4)] by blast
  next
    case False
    then have "(pos', h', s') = (pos, h, s)"
      using less.prems(1) by (subst (asm) up_heap.simps) (auto simp: Let_def split: if_splits)
    then show ?thesis using less.prems by simp
  qed
qed

lemma down_heap_placed:
  assumes "down_heap cmp (Some setp) x n pos h s = (pos', h', s')" "hole_wf h n pos x" "distinct_items (h[pos := x])" "placed s h n pos"
  shows "hole_wf h' n pos' x \<and> distinct_items (h'[pos' := x]) \<and> placed s' h' n pos'"
  using assms
proof (induction "n - pos" arbitrary: pos h s rule: less_induct)
  case (less pos)
  note d = hole_wfD [OF less.prems(2)]
  have pos: "1 \<le> pos" "pos \<le> n" using less.prems(2) by (auto simp: hole_wf_def)
  define c where "c = (if 2 * pos + 1 \<le> n \<and> compare_items cmp (array_get h (2 * pos + 1)) (array_get h (2 * pos)) < 0
      then 2 * pos + 1 else 2 * pos)"
  show ?case
  proof (cases "pos \<le> n div 2 \<and> \<not> compare_items cmp x (array_get h c) \<le> 0")
    case True
    then have c: "1 \<le> c" "c \<le> n" "c \<noteq> pos" "pos < c" "c < length h" using pos d(1) by (auto simp: c_def)
    have run: "down_heap cmp (Some setp) x n c (h[pos := h ! c]) (call_setPosition (Some setp) (h ! c) pos s) = (pos', h', s')"
      using less.prems(1) True pos d(3) c(5)
      unfolding down_heap.simps [of cmp "Some setp" x n pos h s] Let_def c_def [symmetric] by simp
    have "hole_wf (h[pos := h ! c]) n c x" by (rule hole_wf_move [OF less.prems(2) c(1-3)])
    then show ?thesis
      using less.hyps [OF _ run] placed_move [OF less.prems(2) c(1-3) less.prems(3,4)] c(2,4) by auto
  next
    case False
    then have "(pos', h', s') = (pos, h, s)"
      using less.prems(1) unfolding down_heap.simps [of cmp "Some setp" x n pos h s] Let_def c_def [symmetric]
      by (auto split: if_splits)
    then show ?thesis using less.prems by simp
  qed
qed

lemma percolate_placed:
  assumes "hole_wf (heap q) (pq_size q) pos (heap q ! pos)" "distinct_items (heap q)" "placed s (heap q) (pq_size q) pos"
  shows "case percolateUp cmp (Some setp) pos (q, s) of (q', s') \<Rightarrow> placed s' (heap q') (pq_size q') 0"
    and "case percolateDown cmp (Some setp) pos (q, s) of (q', s') \<Rightarrow> placed s' (heap q') (pq_size q') 0"
proof -
  have len: "pos < length (heap q)" using hole_wfD(3) [OF assms(1)] by blast
  then have dist: "distinct_items ((heap q)[pos := heap q ! pos])" using assms(2) by simp
  obtain pos' h' s' where up: "up_heap cmp (Some setp) (heap q ! pos) pos (heap q) s = (pos', h', s')"
    by (metis prod_cases3)
  note up_placed = up_heap_placed [OF up assms(1) dist assms(3)]
  then have "pos' < length h'" using hole_wfD(3) by blast
  with up_placed show "case percolateUp cmp (Some setp) pos (q, s) of (q', s') \<Rightarrow> placed s' (heap q') (pq_size q') 0"
    using placed_fill [of h' "pq_size q" pos' "heap q ! pos" s'] up len
    by (simp add: percolateUp_def Let_def)
  obtain pos' h' s' where down: "down_heap cmp (Some setp) (heap q ! pos) (pq_size q) pos (heap q) s = (pos', h', s')"
    by (metis prod_cases3)
  note down_placed = down_heap_placed [OF down assms(1) dist assms(3)]
  then have "pos' < length h'" using hole_wfD(3) by blast
  with down_placed show "case percolateDown cmp (Some setp) pos (q, s) of (q', s') \<Rightarrow> placed s' (heap q') (pq_size q') 0"
    using placed_fill [of h' "pq_size q" pos' "heap q ! pos" s'] down len
    by (simp add: percolateDown_def Let_def)
qed

definition pq_placed :: "'a pqueue \<Rightarrow> 's \<Rightarrow> bool" where
  "pq_placed q s \<longleftrightarrow> pq_wf (heap q) (pq_size q) \<and> distinct_items (heap q) \<and> placed s (heap q) (pq_size q) 0"

lemma pq_insert_placed:
  assumes "pq_placed q s" "v \<notin># content (heap q)"
  shows "case pq_insert cmp (Some setp) v (q, s) of (q', s') \<Rightarrow> placed s' (heap q') (pq_size q') 0"
proof -
  let ?n = "pq_size q"
  define h where "h = array_put (heap q) (Suc ?n) (Some v)"
  have h: "pq_wf h (Suc ?n)" "content h = add_mset v (content (heap q))" "\<And>i. i \<le> ?n \<Longrightarrow> h ! i = heap q ! i" "h ! Suc ?n = Some v"
    using pq_insert_array [OF _ h_def] assms by (auto simp: pq_placed_def)
  have "distinct_items h" using assms h(2) by (auto simp: distinct_items_def pq_placed_def not_in_iff)
  moreover have "placed s h (Suc ?n) (Suc ?n)" using assms(1) h(3) by (auto simp: placed_def pq_placed_def)
  moreover have "hole_wf h (Suc ?n) (Suc ?n) (h ! Suc ?n)" using h(1) by (simp add: hole_wf_def)
  ultimately show ?thesis
    using percolate_placed(1) [of "q\<lparr>pq_size := Suc ?n, heap := h\<rparr>" "Suc ?n" s]
    by (simp add: pq_insert_def h_def)
qed

end

context positions
begin

lemma removeAt_placed:
  assumes "pq_placed q s" "1 \<le> pos" "pos \<le> pq_size q" "heap q ! pos = Some v"
  shows "case removeAt cmp (Some setp) pos (q, s) of (q', s') \<Rightarrow> placed s' (heap q') (pq_size q') 0"
proof -
  let ?n = "pq_size q" and ?h = "heap q"
  define h where "h = ?h[pos := ?h ! ?n, ?n := None]"
  have wf: "pq_wf ?h ?n" using assms(1) by (simp add: pq_placed_def)
  note h = removeAt_array [OF wf assms(2-4) h_def]
  have len: "?n < length ?h" "pos < length ?h" using wf assms(3) by (auto simp: pq_wf_def)
  have "count (content h) a \<le> count (content ?h) a" for a using h(2) by simp
  then have dist: "distinct_items h"
    using assms(1) unfolding distinct_items_def pq_placed_def by (meson le_trans)
  have placed: "placed s h (?n - 1) pos" using assms(1) by (auto simp: placed_def pq_placed_def h_def)
  let ?q = "q\<lparr>heap := h, pq_size := ?n - 1\<rparr>"
  show ?thesis
  proof (cases "?n - 1 > 0 \<and> pos \<le> ?n - 1")
    case True
    then have "hole_wf h (?n - 1) pos (h ! pos)" using h(1) assms(2) by (simp add: hole_wf_def)
    then show ?thesis
      using percolate_placed [of ?q pos s] dist placed True len by (simp add: removeAt_def Let_def h_def)
  next
    case False
    then have "placed s h (?n - 1) 0" using placed assms(2) by (auto simp: placed_def)
    then show ?thesis using False len by (auto simp: removeAt_def Let_def h_def)
  qed
qed

end

subsection \<open>Properties\<close>

interpretation default: comparator default_compare
  by unfold_locales (auto simp: default_compare_def)

text \<open>A run of the queue of integers with the default comparator, and the same over a sorted list.\<close>

datatype 'a pq_op = PInsert 'a | PShift | PPeek

fun pq_run :: "int pq_op list \<Rightarrow> int pqueue \<Rightarrow> int option list" where
  "pq_run [] q = []"
| "pq_run (PInsert x # ops) q = pq_run ops (fst (pq_insert default_compare None x (q, ())))"
| "pq_run (PShift # ops) q = (case pq_shift default_compare None (q, ()) of (r, (q', _)) \<Rightarrow> r # pq_run ops q')"
| "pq_run (PPeek # ops) q = pq_peek q # pq_run ops q"

fun sorted_run :: "int pq_op list \<Rightarrow> int list \<Rightarrow> int option list" where
  "sorted_run [] xs = []"
| "sorted_run (PInsert x # ops) xs = sorted_run ops (insort x xs)"
| "sorted_run (PShift # ops) xs = (case xs of [] \<Rightarrow> None # sorted_run ops [] | x # xs' \<Rightarrow> Some x # sorted_run ops xs')"
| "sorted_run (PPeek # ops) xs = (case xs of [] \<Rightarrow> None | x # _ \<Rightarrow> Some x) # sorted_run ops xs"

lemma sorted_hd:
  assumes "x \<in># M" "\<forall>y \<in># M. x \<le> (y::int)"
  shows "sorted_list_of_multiset M = x # sorted_list_of_multiset (M - {#x#})"
proof -
  have "sorted (x # sorted_list_of_multiset (M - {#x#}))"
    using assms(2) by (auto dest: in_diffD)
  moreover have "mset (x # sorted_list_of_multiset (M - {#x#})) = M" using assms(1) by simp
  ultimately show ?thesis by (metis properties_for_sort sorted_list_of_multiset_mset)
qed

lemma pq_run_sorted:
  "default.pq_ok q \<Longrightarrow> pq_run ops q = sorted_run ops (sorted_list_of_multiset (content (heap q)))"
proof (induction ops arbitrary: q)
  case (Cons op ops)
  show ?case
  proof (cases op)
    case (PInsert x)
    then show ?thesis using Cons.IH default.pq_insert_ok [OF Cons.prems, of None x "()"] by simp
  next
    case PShift
    obtain r q' where shift: "pq_shift default_compare None (q, ()) = (r, (q', ()))" by (metis prod.exhaust old.unit.exhaust)
    note ok = default.pq_shift_ok [OF Cons.prems, where sp = "None :: (int \<Rightarrow> nat \<Rightarrow> unit \<Rightarrow> unit) option" and s = "()", unfolded shift]
    show ?thesis
    proof (cases r)
      case None
      then show ?thesis using PShift shift ok Cons.IH [OF Cons.prems] by simp
    next
      case (Some v)
      have c: "content (heap q) = add_mset v (content (heap q'))" using ok Some by simp
      then have "sorted_list_of_multiset (content (heap q)) = v # sorted_list_of_multiset (content (heap q) - {#v#})"
        using ok Some by (intro sorted_hd) (auto simp: default_compare_def)
      then show ?thesis using PShift shift ok Some c Cons.IH [of q'] by simp
    qed
  next
    case PPeek
    have "pq_peek q = (case sorted_list_of_multiset (content (heap q)) of [] \<Rightarrow> None | x # _ \<Rightarrow> Some x)"
    proof (cases "pq_peek q")
      case (Some v)
      then show ?thesis using default.pq_peek_ok [OF Cons.prems] sorted_hd [of v "content (heap q)"]
        by (simp add: default_compare_def)
    qed (use default.pq_peek_ok [OF Cons.prems] in simp)
    then show ?thesis using PPeek Cons by simp
  qed
qed simp

text \<open>
  C3: with its default comparator the heap is a priority queue: every sequence of insertions, shifts
  and peeks on a new queue answers as a sorted list does.
\<close>

theorem priority_queue_sorted: "pq_run ops new_pqueue = sorted_run ops []"
  using pq_run_sorted [OF default.pq_new(1)] default.pq_new(2) by simp

end
