(* ===== verification/BufferInts.thy ===== *)
theory BufferInts
  imports Prelude
begin

text \<open>
  The integer reads and writes of lib/internal/buffer.js. A buffer is a list of bytes, a Number an
  exact rational, NaN or an infinity, and the 32-bit operators of JavaScript are words. A BigInt is
  an \<open>int\<close>. The value of a write is the Number after \<^verbatim>\<open>+value\<close>.
\<close>

type_synonym bytes = "8 word list"

subsection \<open>Numbers\<close>

text \<open>\<^verbatim>\<open>buf[n]\<close>: undefined unless \<open>n\<close> is an index of the buffer.\<close>

definition byte_at :: "bytes \<Rightarrow> jsnum \<Rightarrow> 8 word option" where
  "byte_at buf n =
     (case n of
        Fin r \<Rightarrow> if r = of_int \<lfloor>r\<rfloor> \<and> 0 \<le> \<lfloor>r\<rfloor> \<and> \<lfloor>r\<rfloor> < int (length buf) then Some (buf ! nat \<lfloor>r\<rfloor>) else None
      | _ \<Rightarrow> None)"

definition num_add :: "jsnum \<Rightarrow> int \<Rightarrow> jsnum" where
  "num_add n k = (case n of Fin r \<Rightarrow> Fin (r + of_int k) | x \<Rightarrow> x)"

text \<open>\<^verbatim>\<open>MathFloor(n) === n\<close>.\<close>

definition is_whole :: "jsnum \<Rightarrow> bool" where
  "is_whole n = (case n of Fin r \<Rightarrow> r = of_int \<lfloor>r\<rfloor> | NaN \<Rightarrow> False | PosInf \<Rightarrow> True | NegInf \<Rightarrow> True)"

text \<open>The integer that a byte store or a bitwise operator takes from a Number.\<close>

definition to_integer :: "jsnum \<Rightarrow> int" where
  "to_integer n = (case n of Fin r \<Rightarrow> if r < 0 then \<lceil>r\<rceil> else \<lfloor>r\<rfloor> | _ \<Rightarrow> 0)"

text \<open>\<^verbatim>\<open>MathFloor(value * 2 ** -32)\<close> as a byte store or a bitwise operator takes it.\<close>

definition floor_high :: "jsnum \<Rightarrow> int" where
  "floor_high n = (case n of Fin r \<Rightarrow> \<lfloor>r / 2 ^ 32\<rfloor> | _ \<Rightarrow> 0)"

definition num_less :: "jsnum \<Rightarrow> int \<Rightarrow> bool" where
  "num_less n k = (case n of Fin r \<Rightarrow> r < of_int k | NaN \<Rightarrow> False | PosInf \<Rightarrow> False | NegInf \<Rightarrow> True)"

definition num_greater :: "jsnum \<Rightarrow> int \<Rightarrow> bool" where
  "num_greater n k = (case n of Fin r \<Rightarrow> r > of_int k | NaN \<Rightarrow> False | PosInf \<Rightarrow> True | NegInf \<Rightarrow> False)"

definition js_or :: "int \<Rightarrow> int \<Rightarrow> int" where
  "js_or a b = sint ((word_of_int a OR word_of_int b) :: 32 word)"

definition js_and :: "int \<Rightarrow> int \<Rightarrow> int" where
  "js_and a b = sint ((word_of_int a AND word_of_int b) :: 32 word)"

definition js_shl :: "int \<Rightarrow> nat \<Rightarrow> int" where
  "js_shl a n = sint (push_bit n (word_of_int a :: 32 word))"

definition js_shr :: "int \<Rightarrow> nat \<Rightarrow> int" where
  "js_shr a n = sint (signed_drop_bit n (word_of_int a :: 32 word))"

definition js_ushr :: "int \<Rightarrow> nat \<Rightarrow> int" where
  "js_ushr a n = uint (drop_bit n (word_of_int a :: 32 word))"

subsection \<open>Checks\<close>

text \<open>\<^verbatim>\<open>boundsError(value, length, type)\<close> always throws; \<open>None\<close> is a missing type.\<close>

definition boundsError :: "jsval \<Rightarrow> int \<Rightarrow> string option \<Rightarrow> jserror" where
  "boundsError value len type =
     (let name = (case type of Some t \<Rightarrow> t | None \<Rightarrow> ''offset'') in
      case value of
        JNum n \<Rightarrow>
          if \<not> is_whole n then ERR_OUT_OF_RANGE name AnInteger
          else if len < 0 then ERR_BUFFER_OUT_OF_BOUNDS
          else ERR_OUT_OF_RANGE name (Between (if type = None then 0 else 1) (of_int len) False)
      | JBigInt i \<Rightarrow> TypeError ''Cannot convert a BigInt value to a number''
      | _ \<Rightarrow> ERR_INVALID_ARG_TYPE (case type of Some t \<Rightarrow> t | None \<Rightarrow> ''undefined'') ''number'')"

definition checkBounds :: "bytes \<Rightarrow> jsval \<Rightarrow> nat \<Rightarrow> nat result" where
  "checkBounds buf offset byteLength =
     bind (validateNumber offset ''offset'') (\<lambda>n.
       case (byte_at buf n, byte_at buf (num_add n (int byteLength)), n) of
         (Some _, Some _, Fin r) \<Rightarrow> Inr (nat \<lfloor>r\<rfloor>)
       | _ \<Rightarrow> Inl (boundsError offset (int (length buf) - (int byteLength + 1)) None))"

definition int_range :: "int \<Rightarrow> int \<Rightarrow> nat \<Rightarrow> bool \<Rightarrow> range_desc" where
  "int_range mn mx byteLength big =
     (if byteLength > 3 then
        (if mn = 0 then UnsignedBits ((byteLength + 1) * 8) big
         else SignedBits ((byteLength + 1) * 8 - 1) big)
      else Between (of_int mn) (of_int mx) big)"

definition checkInt :: "jsnum \<Rightarrow> int \<Rightarrow> int \<Rightarrow> bytes \<Rightarrow> jsval \<Rightarrow> nat \<Rightarrow> nat result" where
  "checkInt value mn mx buf offset byteLength =
     (if num_greater value mx \<or> num_less value mn
      then Inl (ERR_OUT_OF_RANGE ''value'' (int_range mn mx byteLength False))
      else checkBounds buf offset byteLength)"

text \<open>The BigInt bounds are passed with a BigInt value.\<close>

definition checkBigInt :: "int \<Rightarrow> int \<Rightarrow> int \<Rightarrow> bytes \<Rightarrow> jsval \<Rightarrow> nat \<Rightarrow> nat result" where
  "checkBigInt value mn mx buf offset byteLength =
     (if value > mx \<or> value < mn
      then Inl (ERR_OUT_OF_RANGE ''value'' (int_range mn mx byteLength True))
      else checkBounds buf offset byteLength)"

subsection \<open>Reads\<close>

text \<open>
  Every read takes its first and last byte first and fails when one is undefined. \<open>k\<close> is the
  number of bytes, and the continuation gets the byte at each distance from the offset.
\<close>

definition default_offset :: "jsval \<Rightarrow> jsval" where
  "default_offset offset = (if offset = Undefined then JNum (jsint 0) else offset)"

definition read_bytes :: "bytes \<Rightarrow> jsval \<Rightarrow> nat \<Rightarrow> ((nat \<Rightarrow> int) \<Rightarrow> int) \<Rightarrow> int result" where
  "read_bytes buf offset k f =
     bind (validateNumber (default_offset offset) ''offset'') (\<lambda>n.
       case (byte_at buf n, byte_at buf (num_add n (int k - 1)), n) of
         (Some _, Some _, Fin r) \<Rightarrow> Inr (f (\<lambda>j. uint (buf ! (nat \<lfloor>r\<rfloor> + j))))
       | _ \<Rightarrow> Inl (boundsError (default_offset offset) (int (length buf) - int k) None))"

definition readBigUInt64LE :: "bytes \<Rightarrow> jsval \<Rightarrow> int result" where
  "readBigUInt64LE buf offset = read_bytes buf offset 8 (\<lambda>b. 
     let lo = b 0 + b 1 * 2 ^ 8 + b 2 * 2 ^ 16 + b 3 * 2 ^ 24;
         hi = b 4 + b 5 * 2 ^ 8 + b 6 * 2 ^ 16 + b 7 * 2 ^ 24
     in lo + push_bit 32 hi)"

definition readBigUInt64BE :: "bytes \<Rightarrow> jsval \<Rightarrow> int result" where
  "readBigUInt64BE buf offset = read_bytes buf offset 8 (\<lambda>b. 
     let hi = b 0 * 2 ^ 24 + b 1 * 2 ^ 16 + b 2 * 2 ^ 8 + b 3;
         lo = b 4 * 2 ^ 24 + b 5 * 2 ^ 16 + b 6 * 2 ^ 8 + b 7
     in push_bit 32 hi + lo)"

definition readBigInt64LE :: "bytes \<Rightarrow> jsval \<Rightarrow> int result" where
  "readBigInt64LE buf offset = read_bytes buf offset 8 (\<lambda>b. 
     let val = b 4 + b 5 * 2 ^ 8 + b 6 * 2 ^ 16 + js_shl (b 7) 24
     in push_bit 32 val + (b 0 + b 1 * 2 ^ 8 + b 2 * 2 ^ 16 + b 3 * 2 ^ 24))"

definition readBigInt64BE :: "bytes \<Rightarrow> jsval \<Rightarrow> int result" where
  "readBigInt64BE buf offset = read_bytes buf offset 8 (\<lambda>b. 
     let val = js_shl (b 0) 24 + b 1 * 2 ^ 16 + b 2 * 2 ^ 8 + b 3
     in push_bit 32 val + (b 4 * 2 ^ 24 + b 5 * 2 ^ 16 + b 6 * 2 ^ 8 + b 7))"

definition readUInt48LE :: "bytes \<Rightarrow> jsval \<Rightarrow> int result" where
  "readUInt48LE buf offset = read_bytes buf offset 6 (\<lambda>b. 
     b 0 + b 1 * 2 ^ 8 + b 2 * 2 ^ 16 + b 3 * 2 ^ 24 + (b 4 + b 5 * 2 ^ 8) * 2 ^ 32)"

definition readUInt40LE :: "bytes \<Rightarrow> jsval \<Rightarrow> int result" where
  "readUInt40LE buf offset = read_bytes buf offset 5 (\<lambda>b. 
     b 0 + b 1 * 2 ^ 8 + b 2 * 2 ^ 16 + b 3 * 2 ^ 24 + b 4 * 2 ^ 32)"

definition readUInt32LE :: "bytes \<Rightarrow> jsval \<Rightarrow> int result" where
  "readUInt32LE buf offset = read_bytes buf offset 4 (\<lambda>b. b 0 + b 1 * 2 ^ 8 + b 2 * 2 ^ 16 + b 3 * 2 ^ 24)"

definition readUInt24LE :: "bytes \<Rightarrow> jsval \<Rightarrow> int result" where
  "readUInt24LE buf offset = read_bytes buf offset 3 (\<lambda>b. b 0 + b 1 * 2 ^ 8 + b 2 * 2 ^ 16)"

definition readUInt16LE :: "bytes \<Rightarrow> jsval \<Rightarrow> int result" where
  "readUInt16LE buf offset = read_bytes buf offset 2 (\<lambda>b. b 0 + b 1 * 2 ^ 8)"

definition readUInt8 :: "bytes \<Rightarrow> jsval \<Rightarrow> int result" where
  "readUInt8 buf offset =
     bind (validateNumber (default_offset offset) ''offset'') (\<lambda>n.
       case byte_at buf n of
         Some val \<Rightarrow> Inr (uint val)
       | None \<Rightarrow> Inl (boundsError (default_offset offset) (int (length buf) - 1) None))"

definition readUInt48BE :: "bytes \<Rightarrow> jsval \<Rightarrow> int result" where
  "readUInt48BE buf offset = read_bytes buf offset 6 (\<lambda>b. 
     (b 0 * 2 ^ 8 + b 1) * 2 ^ 32 + b 2 * 2 ^ 24 + b 3 * 2 ^ 16 + b 4 * 2 ^ 8 + b 5)"

definition readUInt40BE :: "bytes \<Rightarrow> jsval \<Rightarrow> int result" where
  "readUInt40BE buf offset = read_bytes buf offset 5 (\<lambda>b. 
     b 0 * 2 ^ 32 + b 1 * 2 ^ 24 + b 2 * 2 ^ 16 + b 3 * 2 ^ 8 + b 4)"

definition readUInt32BE :: "bytes \<Rightarrow> jsval \<Rightarrow> int result" where
  "readUInt32BE buf offset = read_bytes buf offset 4 (\<lambda>b. b 0 * 2 ^ 24 + b 1 * 2 ^ 16 + b 2 * 2 ^ 8 + b 3)"

definition readUInt24BE :: "bytes \<Rightarrow> jsval \<Rightarrow> int result" where
  "readUInt24BE buf offset = read_bytes buf offset 3 (\<lambda>b. b 0 * 2 ^ 16 + b 1 * 2 ^ 8 + b 2)"

definition readUInt16BE :: "bytes \<Rightarrow> jsval \<Rightarrow> int result" where
  "readUInt16BE buf offset = read_bytes buf offset 2 (\<lambda>b. b 0 * 2 ^ 8 + b 1)"

definition readInt48LE :: "bytes \<Rightarrow> jsval \<Rightarrow> int result" where
  "readInt48LE buf offset = read_bytes buf offset 6 (\<lambda>b. 
     let val = b 4 + b 5 * 2 ^ 8
     in js_or val (js_and val (2 ^ 15) * 0x1fffe) * 2 ^ 32 +
        b 0 + b 1 * 2 ^ 8 + b 2 * 2 ^ 16 + b 3 * 2 ^ 24)"

definition readInt40LE :: "bytes \<Rightarrow> jsval \<Rightarrow> int result" where
  "readInt40LE buf offset = read_bytes buf offset 5 (\<lambda>b. 
     js_or (b 4) (js_and (b 4) (2 ^ 7) * 0x1fffffe) * 2 ^ 32 +
     b 0 + b 1 * 2 ^ 8 + b 2 * 2 ^ 16 + b 3 * 2 ^ 24)"

definition readInt32LE :: "bytes \<Rightarrow> jsval \<Rightarrow> int result" where
  "readInt32LE buf offset = read_bytes buf offset 4 (\<lambda>b. b 0 + b 1 * 2 ^ 8 + b 2 * 2 ^ 16 + js_shl (b 3) 24)"

definition readInt24LE :: "bytes \<Rightarrow> jsval \<Rightarrow> int result" where
  "readInt24LE buf offset = read_bytes buf offset 3 (\<lambda>b. 
     let val = b 0 + b 1 * 2 ^ 8 + b 2 * 2 ^ 16
     in js_or val (js_and val (2 ^ 23) * 0x1fe))"

definition readInt16LE :: "bytes \<Rightarrow> jsval \<Rightarrow> int result" where
  "readInt16LE buf offset = read_bytes buf offset 2 (\<lambda>b. 
     let val = b 0 + b 1 * 2 ^ 8
     in js_or val (js_and val (2 ^ 15) * 0x1fffe))"

definition readInt8 :: "bytes \<Rightarrow> jsval \<Rightarrow> int result" where
  "readInt8 buf offset =
     bind (readUInt8 buf offset) (\<lambda>val. Inr (js_or val (js_and val (2 ^ 7) * 0x1fffffe)))"

definition readInt48BE :: "bytes \<Rightarrow> jsval \<Rightarrow> int result" where
  "readInt48BE buf offset = read_bytes buf offset 6 (\<lambda>b. 
     let val = b 1 + b 0 * 2 ^ 8
     in js_or val (js_and val (2 ^ 15) * 0x1fffe) * 2 ^ 32 +
        b 2 * 2 ^ 24 + b 3 * 2 ^ 16 + b 4 * 2 ^ 8 + b 5)"

definition readInt40BE :: "bytes \<Rightarrow> jsval \<Rightarrow> int result" where
  "readInt40BE buf offset = read_bytes buf offset 5 (\<lambda>b. 
     js_or (b 0) (js_and (b 0) (2 ^ 7) * 0x1fffffe) * 2 ^ 32 +
     b 1 * 2 ^ 24 + b 2 * 2 ^ 16 + b 3 * 2 ^ 8 + b 4)"

definition readInt32BE :: "bytes \<Rightarrow> jsval \<Rightarrow> int result" where
  "readInt32BE buf offset = read_bytes buf offset 4 (\<lambda>b. js_shl (b 0) 24 + b 1 * 2 ^ 16 + b 2 * 2 ^ 8 + b 3)"

definition readInt24BE :: "bytes \<Rightarrow> jsval \<Rightarrow> int result" where
  "readInt24BE buf offset = read_bytes buf offset 3 (\<lambda>b. 
     let val = b 0 * 2 ^ 16 + b 1 * 2 ^ 8 + b 2
     in js_or val (js_and val (2 ^ 23) * 0x1fe))"

definition readInt16BE :: "bytes \<Rightarrow> jsval \<Rightarrow> int result" where
  "readInt16BE buf offset = read_bytes buf offset 2 (\<lambda>b. 
     let val = b 0 * 2 ^ 8 + b 1
     in js_or val (js_and val (2 ^ 15) * 0x1fffe))"

text \<open>The reads of a variable number of bytes.\<close>

definition readUIntLE :: "bytes \<Rightarrow> jsval \<Rightarrow> jsval \<Rightarrow> int result" where
  "readUIntLE buf offset byteLength =
     (if offset = Undefined then Inl (ERR_INVALID_ARG_TYPE ''offset'' ''number'')
      else if byteLength = JNum (jsint 6) then readUInt48LE buf offset
      else if byteLength = JNum (jsint 5) then readUInt40LE buf offset
      else if byteLength = JNum (jsint 3) then readUInt24LE buf offset
      else if byteLength = JNum (jsint 4) then readUInt32LE buf offset
      else if byteLength = JNum (jsint 2) then readUInt16LE buf offset
      else if byteLength = JNum (jsint 1) then readUInt8 buf offset
      else Inl (boundsError byteLength 6 (Some ''byteLength'')))"

definition readUIntBE :: "bytes \<Rightarrow> jsval \<Rightarrow> jsval \<Rightarrow> int result" where
  "readUIntBE buf offset byteLength =
     (if offset = Undefined then Inl (ERR_INVALID_ARG_TYPE ''offset'' ''number'')
      else if byteLength = JNum (jsint 6) then readUInt48BE buf offset
      else if byteLength = JNum (jsint 5) then readUInt40BE buf offset
      else if byteLength = JNum (jsint 3) then readUInt24BE buf offset
      else if byteLength = JNum (jsint 4) then readUInt32BE buf offset
      else if byteLength = JNum (jsint 2) then readUInt16BE buf offset
      else if byteLength = JNum (jsint 1) then readUInt8 buf offset
      else Inl (boundsError byteLength 6 (Some ''byteLength'')))"

definition readIntLE :: "bytes \<Rightarrow> jsval \<Rightarrow> jsval \<Rightarrow> int result" where
  "readIntLE buf offset byteLength =
     (if offset = Undefined then Inl (ERR_INVALID_ARG_TYPE ''offset'' ''number'')
      else if byteLength = JNum (jsint 6) then readInt48LE buf offset
      else if byteLength = JNum (jsint 5) then readInt40LE buf offset
      else if byteLength = JNum (jsint 3) then readInt24LE buf offset
      else if byteLength = JNum (jsint 4) then readInt32LE buf offset
      else if byteLength = JNum (jsint 2) then readInt16LE buf offset
      else if byteLength = JNum (jsint 1) then readInt8 buf offset
      else Inl (boundsError byteLength 6 (Some ''byteLength'')))"

definition readIntBE :: "bytes \<Rightarrow> jsval \<Rightarrow> jsval \<Rightarrow> int result" where
  "readIntBE buf offset byteLength =
     (if offset = Undefined then Inl (ERR_INVALID_ARG_TYPE ''offset'' ''number'')
      else if byteLength = JNum (jsint 6) then readInt48BE buf offset
      else if byteLength = JNum (jsint 5) then readInt40BE buf offset
      else if byteLength = JNum (jsint 3) then readInt24BE buf offset
      else if byteLength = JNum (jsint 4) then readInt32BE buf offset
      else if byteLength = JNum (jsint 2) then readInt16BE buf offset
      else if byteLength = JNum (jsint 1) then readInt8 buf offset
      else Inl (boundsError byteLength 6 (Some ''byteLength'')))"

subsection \<open>Writes\<close>

text \<open>
  \<^verbatim>\<open>buf[o + j] = v\<close> keeps the low eight bits of the integer; the stores are listed in the order in
  which the code makes them. A write returns the offset after it and the new buffer.
\<close>

definition put :: "bytes \<Rightarrow> nat \<Rightarrow> (nat \<times> int) list \<Rightarrow> bytes" where
  "put buf o' stores = foldl (\<lambda>buf (j, v). buf[o' + j := word_of_int v]) buf stores"

type_synonym write_result = "(nat \<times> bytes) result"

definition writeBigU_Int64LE :: "bytes \<Rightarrow> int \<Rightarrow> jsval \<Rightarrow> int \<Rightarrow> int \<Rightarrow> write_result" where
  "writeBigU_Int64LE buf value offset mn mx =
     bind (checkBigInt value mn mx buf offset 7) (\<lambda>o'.
     let lo = value AND 0xffffffff; lo1 = js_shr lo 8; lo2 = js_shr lo1 8; lo3 = js_shr lo2 8;
         hi = drop_bit 32 value AND 0xffffffff; hi1 = js_shr hi 8; hi2 = js_shr hi1 8; hi3 = js_shr hi2 8
     in Inr (o' + 8, put buf o' [(0, lo), (1, lo1), (2, lo2), (3, lo3), (4, hi), (5, hi1), (6, hi2), (7, hi3)]))"

definition writeBigU_Int64BE :: "bytes \<Rightarrow> int \<Rightarrow> jsval \<Rightarrow> int \<Rightarrow> int \<Rightarrow> write_result" where
  "writeBigU_Int64BE buf value offset mn mx =
     bind (checkBigInt value mn mx buf offset 7) (\<lambda>o'.
     let lo = value AND 0xffffffff; lo1 = js_shr lo 8; lo2 = js_shr lo1 8; lo3 = js_shr lo2 8;
         hi = drop_bit 32 value AND 0xffffffff; hi1 = js_shr hi 8; hi2 = js_shr hi1 8; hi3 = js_shr hi2 8
     in Inr (o' + 8, put buf o' [(7, lo), (6, lo1), (5, lo2), (4, lo3), (3, hi), (2, hi1), (1, hi2), (0, hi3)]))"

definition writeBigUInt64LE :: "bytes \<Rightarrow> int \<Rightarrow> jsval \<Rightarrow> write_result" where
  "writeBigUInt64LE buf value offset = writeBigU_Int64LE buf value (default_offset offset) 0 0xffffffffffffffff"

definition writeBigUInt64BE :: "bytes \<Rightarrow> int \<Rightarrow> jsval \<Rightarrow> write_result" where
  "writeBigUInt64BE buf value offset = writeBigU_Int64BE buf value (default_offset offset) 0 0xffffffffffffffff"

definition writeBigInt64LE :: "bytes \<Rightarrow> int \<Rightarrow> jsval \<Rightarrow> write_result" where
  "writeBigInt64LE buf value offset = writeBigU_Int64LE buf value (default_offset offset) (- 0x8000000000000000) 0x7fffffffffffffff"

definition writeBigInt64BE :: "bytes \<Rightarrow> int \<Rightarrow> jsval \<Rightarrow> write_result" where
  "writeBigInt64BE buf value offset = writeBigU_Int64BE buf value (default_offset offset) (- 0x8000000000000000) 0x7fffffffffffffff"

definition writeU_Int48LE :: "bytes \<Rightarrow> jsnum \<Rightarrow> jsval \<Rightarrow> int \<Rightarrow> int \<Rightarrow> write_result" where
  "writeU_Int48LE buf value offset mn mx =
     bind (checkInt value mn mx buf offset 5) (\<lambda>o'.
     let newVal = floor_high value;
         v0 = to_integer value;
         v1 = js_ushr v0 8;
         v2 = js_ushr v1 8;
         v3 = js_ushr v2 8
     in Inr (o' + 6, put buf o' [(0, v0), (1, v1), (2, v2), (3, v3), (4, newVal), (5, js_ushr newVal 8)]))"

definition writeU_Int40LE :: "bytes \<Rightarrow> jsnum \<Rightarrow> jsval \<Rightarrow> int \<Rightarrow> int \<Rightarrow> write_result" where
  "writeU_Int40LE buf value offset mn mx =
     bind (checkInt value mn mx buf offset 4) (\<lambda>o'.
     let newVal = floor_high value;
         v0 = to_integer value;
         v1 = js_ushr v0 8;
         v2 = js_ushr v1 8;
         v3 = js_ushr v2 8
     in Inr (o' + 5, put buf o' [(0, v0), (1, v1), (2, v2), (3, v3), (4, newVal)]))"

definition writeU_Int32LE :: "bytes \<Rightarrow> jsnum \<Rightarrow> jsval \<Rightarrow> int \<Rightarrow> int \<Rightarrow> write_result" where
  "writeU_Int32LE buf value offset mn mx =
     bind (checkInt value mn mx buf offset 3) (\<lambda>o'.
     let v0 = to_integer value;
         v1 = js_ushr v0 8;
         v2 = js_ushr v1 8;
         v3 = js_ushr v2 8
     in Inr (o' + 4, put buf o' [(0, v0), (1, v1), (2, v2), (3, v3)]))"

definition writeU_Int24LE :: "bytes \<Rightarrow> jsnum \<Rightarrow> jsval \<Rightarrow> int \<Rightarrow> int \<Rightarrow> write_result" where
  "writeU_Int24LE buf value offset mn mx =
     bind (checkInt value mn mx buf offset 2) (\<lambda>o'.
     let v0 = to_integer value;
         v1 = js_ushr v0 8;
         v2 = js_ushr v1 8
     in Inr (o' + 3, put buf o' [(0, v0), (1, v1), (2, v2)]))"

definition writeU_Int16LE :: "bytes \<Rightarrow> jsnum \<Rightarrow> jsval \<Rightarrow> int \<Rightarrow> int \<Rightarrow> write_result" where
  "writeU_Int16LE buf value offset mn mx =
     bind (checkInt value mn mx buf offset 1) (\<lambda>o'.
     let v0 = to_integer value
     in Inr (o' + 2, put buf o' [(0, v0), (1, js_ushr v0 8)]))"

definition writeU_Int8 :: "bytes \<Rightarrow> jsnum \<Rightarrow> jsval \<Rightarrow> int \<Rightarrow> int \<Rightarrow> write_result" where
  "writeU_Int8 buf value offset mn mx =
     bind (validateNumber offset ''offset'') (\<lambda>n.
       if num_greater value mx \<or> num_less value mn
       then Inl (ERR_OUT_OF_RANGE ''value'' (Between (of_int mn) (of_int mx) False))
       else case (byte_at buf n, n) of
              (Some _, Fin r) \<Rightarrow> Inr (nat \<lfloor>r\<rfloor> + 1, put buf (nat \<lfloor>r\<rfloor>) [(0, to_integer value)])
            | _ \<Rightarrow> Inl (boundsError offset (int (length buf) - 1) None))"

definition writeU_Int48BE :: "bytes \<Rightarrow> jsnum \<Rightarrow> jsval \<Rightarrow> int \<Rightarrow> int \<Rightarrow> write_result" where
  "writeU_Int48BE buf value offset mn mx =
     bind (checkInt value mn mx buf offset 5) (\<lambda>o'.
     let newVal = floor_high value;
         v0 = to_integer value;
         v1 = js_ushr v0 8;
         v2 = js_ushr v1 8;
         v3 = js_ushr v2 8
     in Inr (o' + 6, put buf o' [(0, js_ushr newVal 8), (1, newVal), (5, v0), (4, v1), (3, v2), (2, v3)]))"

definition writeU_Int40BE :: "bytes \<Rightarrow> jsnum \<Rightarrow> jsval \<Rightarrow> int \<Rightarrow> int \<Rightarrow> write_result" where
  "writeU_Int40BE buf value offset mn mx =
     bind (checkInt value mn mx buf offset 4) (\<lambda>o'.
     let newVal = floor_high value;
         v0 = to_integer value;
         v1 = js_ushr v0 8;
         v2 = js_ushr v1 8;
         v3 = js_ushr v2 8
     in Inr (o' + 5, put buf o' [(0, newVal), (4, v0), (3, v1), (2, v2), (1, v3)]))"

definition writeU_Int32BE :: "bytes \<Rightarrow> jsnum \<Rightarrow> jsval \<Rightarrow> int \<Rightarrow> int \<Rightarrow> write_result" where
  "writeU_Int32BE buf value offset mn mx =
     bind (checkInt value mn mx buf offset 3) (\<lambda>o'.
     let v0 = to_integer value;
         v1 = js_ushr v0 8;
         v2 = js_ushr v1 8;
         v3 = js_ushr v2 8
     in Inr (o' + 4, put buf o' [(3, v0), (2, v1), (1, v2), (0, v3)]))"

definition writeU_Int24BE :: "bytes \<Rightarrow> jsnum \<Rightarrow> jsval \<Rightarrow> int \<Rightarrow> int \<Rightarrow> write_result" where
  "writeU_Int24BE buf value offset mn mx =
     bind (checkInt value mn mx buf offset 2) (\<lambda>o'.
     let v0 = to_integer value;
         v1 = js_ushr v0 8;
         v2 = js_ushr v1 8
     in Inr (o' + 3, put buf o' [(2, v0), (1, v1), (0, v2)]))"

definition writeU_Int16BE :: "bytes \<Rightarrow> jsnum \<Rightarrow> jsval \<Rightarrow> int \<Rightarrow> int \<Rightarrow> write_result" where
  "writeU_Int16BE buf value offset mn mx =
     bind (checkInt value mn mx buf offset 1) (\<lambda>o'.
     let v0 = to_integer value
     in Inr (o' + 2, put buf o' [(0, js_ushr v0 8), (1, v0)]))"

definition writeUIntLE :: "bytes \<Rightarrow> jsnum \<Rightarrow> jsval \<Rightarrow> jsval \<Rightarrow> write_result" where
  "writeUIntLE buf value offset byteLength =
     (if byteLength = JNum (jsint 6) then writeU_Int48LE buf value offset 0 0xffffffffffff
      else if byteLength = JNum (jsint 5) then writeU_Int40LE buf value offset 0 0xffffffffff
      else if byteLength = JNum (jsint 3) then writeU_Int24LE buf value offset 0 0xffffff
      else if byteLength = JNum (jsint 4) then writeU_Int32LE buf value offset 0 0xffffffff
      else if byteLength = JNum (jsint 2) then writeU_Int16LE buf value offset 0 0xffff
      else if byteLength = JNum (jsint 1) then writeU_Int8 buf value offset 0 0xff
      else Inl (boundsError byteLength 6 (Some ''byteLength'')))"

definition writeUIntBE :: "bytes \<Rightarrow> jsnum \<Rightarrow> jsval \<Rightarrow> jsval \<Rightarrow> write_result" where
  "writeUIntBE buf value offset byteLength =
     (if byteLength = JNum (jsint 6) then writeU_Int48BE buf value offset 0 0xffffffffffff
      else if byteLength = JNum (jsint 5) then writeU_Int40BE buf value offset 0 0xffffffffff
      else if byteLength = JNum (jsint 3) then writeU_Int24BE buf value offset 0 0xffffff
      else if byteLength = JNum (jsint 4) then writeU_Int32BE buf value offset 0 0xffffffff
      else if byteLength = JNum (jsint 2) then writeU_Int16BE buf value offset 0 0xffff
      else if byteLength = JNum (jsint 1) then writeU_Int8 buf value offset 0 0xff
      else Inl (boundsError byteLength 6 (Some ''byteLength'')))"

definition writeIntLE :: "bytes \<Rightarrow> jsnum \<Rightarrow> jsval \<Rightarrow> jsval \<Rightarrow> write_result" where
  "writeIntLE buf value offset byteLength =
     (if byteLength = JNum (jsint 6) then writeU_Int48LE buf value offset (- 0x800000000000) 0x7fffffffffff
      else if byteLength = JNum (jsint 5) then writeU_Int40LE buf value offset (- 0x8000000000) 0x7fffffffff
      else if byteLength = JNum (jsint 3) then writeU_Int24LE buf value offset (- 0x800000) 0x7fffff
      else if byteLength = JNum (jsint 4) then writeU_Int32LE buf value offset (- 0x80000000) 0x7fffffff
      else if byteLength = JNum (jsint 2) then writeU_Int16LE buf value offset (- 0x8000) 0x7fff
      else if byteLength = JNum (jsint 1) then writeU_Int8 buf value offset (- 0x80) 0x7f
      else Inl (boundsError byteLength 6 (Some ''byteLength'')))"

definition writeIntBE :: "bytes \<Rightarrow> jsnum \<Rightarrow> jsval \<Rightarrow> jsval \<Rightarrow> write_result" where
  "writeIntBE buf value offset byteLength =
     (if byteLength = JNum (jsint 6) then writeU_Int48BE buf value offset (- 0x800000000000) 0x7fffffffffff
      else if byteLength = JNum (jsint 5) then writeU_Int40BE buf value offset (- 0x8000000000) 0x7fffffffff
      else if byteLength = JNum (jsint 3) then writeU_Int24BE buf value offset (- 0x800000) 0x7fffff
      else if byteLength = JNum (jsint 4) then writeU_Int32BE buf value offset (- 0x80000000) 0x7fffffff
      else if byteLength = JNum (jsint 2) then writeU_Int16BE buf value offset (- 0x8000) 0x7fff
      else if byteLength = JNum (jsint 1) then writeU_Int8 buf value offset (- 0x80) 0x7f
      else Inl (boundsError byteLength 6 (Some ''byteLength'')))"

definition writeUInt32LE :: "bytes \<Rightarrow> jsnum \<Rightarrow> jsval \<Rightarrow> write_result" where
  "writeUInt32LE buf value offset = writeU_Int32LE buf value (default_offset offset) 0 0xffffffff"

definition writeUInt32BE :: "bytes \<Rightarrow> jsnum \<Rightarrow> jsval \<Rightarrow> write_result" where
  "writeUInt32BE buf value offset = writeU_Int32BE buf value (default_offset offset) 0 0xffffffff"

definition writeUInt16LE :: "bytes \<Rightarrow> jsnum \<Rightarrow> jsval \<Rightarrow> write_result" where
  "writeUInt16LE buf value offset = writeU_Int16LE buf value (default_offset offset) 0 0xffff"

definition writeUInt16BE :: "bytes \<Rightarrow> jsnum \<Rightarrow> jsval \<Rightarrow> write_result" where
  "writeUInt16BE buf value offset = writeU_Int16BE buf value (default_offset offset) 0 0xffff"

definition writeInt32LE :: "bytes \<Rightarrow> jsnum \<Rightarrow> jsval \<Rightarrow> write_result" where
  "writeInt32LE buf value offset = writeU_Int32LE buf value (default_offset offset) (- 0x80000000) 0x7fffffff"

definition writeInt32BE :: "bytes \<Rightarrow> jsnum \<Rightarrow> jsval \<Rightarrow> write_result" where
  "writeInt32BE buf value offset = writeU_Int32BE buf value (default_offset offset) (- 0x80000000) 0x7fffffff"

definition writeInt16LE :: "bytes \<Rightarrow> jsnum \<Rightarrow> jsval \<Rightarrow> write_result" where
  "writeInt16LE buf value offset = writeU_Int16LE buf value (default_offset offset) (- 0x8000) 0x7fff"

definition writeInt16BE :: "bytes \<Rightarrow> jsnum \<Rightarrow> jsval \<Rightarrow> write_result" where
  "writeInt16BE buf value offset = writeU_Int16BE buf value (default_offset offset) (- 0x8000) 0x7fff"

definition writeUInt8 :: "bytes \<Rightarrow> jsnum \<Rightarrow> jsval \<Rightarrow> write_result" where
  "writeUInt8 buf value offset = writeU_Int8 buf value (default_offset offset) 0 0xff"

definition writeInt8 :: "bytes \<Rightarrow> jsnum \<Rightarrow> jsval \<Rightarrow> write_result" where
  "writeInt8 buf value offset = writeU_Int8 buf value (default_offset offset) (- 0x80) 0x7f"

end
