(* ===== verification/Timers.thy ===== *)
theory Timers
  imports LinkedList PriorityQueue AsyncIds BufferInts
begin

text \<open>
  The timers of lib/internal/timers.js and lib/timers.js: timeouts in linked lists by duration, the
  lists in a priority queue by expiry. Objects are numbers; the record of the module's state
  extends the links of the linked lists. The calls of the native binding and the warnings are
  recorded in a log, the time of the event loop is a field that only moves forward.
\<close>

subsection \<open>State\<close>

record timeout =
  idleTimeout :: rat
  idleStart :: "int option"
  onTimeout :: "nat option"
  timerArgs :: "jsval list option"
  repeat :: "rat option"
  destroyed :: bool
  refed :: bool
  hasPrimitive :: bool
  timer_async_id :: nat
  timer_trigger_id :: async_num
  timer_frame :: nat

record timers_list =
  expiry :: int
  list_id :: int
  msecs :: int
  priorityQueuePosition :: "nat option"

datatype binding_call = ScheduleTimer int | ToggleTimerRef bool | EmitWarning string

record timers = links +
  timeouts :: "nat \<rightharpoonup> timeout"
  timersLists :: "nat \<Rightarrow> timers_list"
  timerListMap :: "int \<rightharpoonup> nat"
  timerListQueue :: "nat pqueue"
  timerListId :: int
  nextExpiry :: "int option"          \<comment> \<open>\<open>None\<close> is Infinity\<close>
  timeoutInfo :: int
  knownTimersById :: "nat \<rightharpoonup> nat"
  warnedNegativeNumber :: bool
  warnedNotNumber :: bool
  libuvNow :: int
  bindingLog :: "binding_call list"
  asyncFields :: async_fields
  currentFrame :: nat
  nextObject :: nat
  calledTimers :: "(nat \<times> int) list"   \<comment> \<open>the timers called, with the time of the pass\<close>

definition TIMEOUT_MAX :: int where
  "TIMEOUT_MAX = 2 ^ 31 - 1"

definition MathTrunc :: "rat \<Rightarrow> int" where
  "MathTrunc r = (if r < 0 then \<lceil>r\<rceil> else \<lfloor>r\<rfloor>)"

definition log_call :: "binding_call \<Rightarrow> timers \<Rightarrow> timers" where
  "log_call c s = s\<lparr>bindingLog := bindingLog s @ [c]\<rparr>"

definition upd_timeout :: "nat \<Rightarrow> (timeout \<Rightarrow> timeout) \<Rightarrow> timers \<Rightarrow> timers" where
  "upd_timeout t f s = s\<lparr>timeouts := (timeouts s)(t := map_option f (timeouts s t))\<rparr>"

definition incRefCount :: "timers \<Rightarrow> timers" where
  "incRefCount s =
     (let s' = s\<lparr>timeoutInfo := timeoutInfo s + 1\<rparr>
      in if timeoutInfo s = 0 then log_call (ToggleTimerRef True) s' else s')"

definition decRefCount :: "timers \<Rightarrow> timers" where
  "decRefCount s =
     (let s' = s\<lparr>timeoutInfo := timeoutInfo s - 1\<rparr>
      in if timeoutInfo s' = 0 then log_call (ToggleTimerRef False) s' else s')"

definition initAsyncResource :: "nat \<Rightarrow> string \<Rightarrow> timers \<Rightarrow> timers" where
  "initAsyncResource t type s =
     (let (asyncId, a) = newAsyncId (asyncFields s);
          triggerAsyncId = getDefaultTriggerAsyncId a;
          s = upd_timeout t (\<lambda>T. T\<lparr>timer_async_id := asyncId, timer_trigger_id := triggerAsyncId,
                                  timer_frame := currentFrame s\<rparr>) s
      in s\<lparr>asyncFields := (if initHooksExist a then emitInit asyncId type (Some triggerAsyncId) a else a)\<rparr>)"

subsection \<open>Timeout objects\<close>

text \<open>
  The duration: \<open>None\<close> is an undefined argument, \<open>Some n\<close> the Number it is coerced to. What does not
  lie between 1 and \<^verbatim>\<open>TIMEOUT_MAX\<close> becomes 1, with a warning, the last two of which are given once.
\<close>

definition timeout_duration :: "jsnum option \<Rightarrow> timers \<Rightarrow> rat \<times> timers" where
  "timeout_duration after s =
     (case after of
        None \<Rightarrow> (1, s)
      | Some n \<Rightarrow>
          (case n of
             Fin r \<Rightarrow>
               if 1 \<le> r \<and> r \<le> of_int TIMEOUT_MAX then (r, s)
               else if r > of_int TIMEOUT_MAX then (1, log_call (EmitWarning ''TimeoutOverflowWarning'') s)
               else if r < 0 \<and> \<not> warnedNegativeNumber s
                    then (1, log_call (EmitWarning ''TimeoutNegativeWarning'') (s\<lparr>warnedNegativeNumber := True\<rparr>))
               else (1, s)
           | PosInf \<Rightarrow> (1, log_call (EmitWarning ''TimeoutOverflowWarning'') s)
           | NegInf \<Rightarrow>
               if \<not> warnedNegativeNumber s
               then (1, log_call (EmitWarning ''TimeoutNegativeWarning'') (s\<lparr>warnedNegativeNumber := True\<rparr>))
               else (1, s)
           | NaN \<Rightarrow>
               if \<not> warnedNotNumber s
               then (1, log_call (EmitWarning ''TimeoutNaNWarning'') (s\<lparr>warnedNotNumber := True\<rparr>))
               else (1, s)))"

definition new_Timeout :: "nat \<Rightarrow> jsnum option \<Rightarrow> jsval list option \<Rightarrow> bool \<Rightarrow> bool \<Rightarrow> timers \<Rightarrow> nat \<times> timers" where
  "new_Timeout callback after args isRepeat isRefed s =
     (let (after, s) = timeout_duration after s;
          t = nextObject s;
          s = s\<lparr>nextObject := t + 1\<rparr>;
          s = L_init t s;
          s = s\<lparr>timeouts := (timeouts s)(t \<mapsto>
                \<lparr>idleTimeout = after, idleStart = None, onTimeout = Some callback, timerArgs = args,
                 repeat = (if isRepeat then Some after else None), destroyed = False, refed = isRefed,
                 hasPrimitive = False, timer_async_id = 0, timer_trigger_id = Some 0, timer_frame = 0\<rparr>)\<rparr>;
          s = (if isRefed then incRefCount s else s)
      in (t, initAsyncResource t ''Timeout'' s))"

subsection \<open>The lists\<close>

definition compareTimersLists :: "(nat \<Rightarrow> timers_list) \<Rightarrow> nat \<Rightarrow> nat \<Rightarrow> int" where
  "compareTimersLists ls a b =
     (let expiryDiff = expiry (ls a) - expiry (ls b)
      in if expiryDiff = 0 then list_id (ls a) - list_id (ls b) else expiryDiff)"

definition setPosition :: "nat \<Rightarrow> nat \<Rightarrow> (nat \<Rightarrow> timers_list) \<Rightarrow> (nat \<Rightarrow> timers_list)" where
  "setPosition node pos ls = ls(node := (ls node)\<lparr>priorityQueuePosition := Some pos\<rparr>)"

text \<open>An operation of the queue, with the comparator and the callback it was constructed with.\<close>

definition with_queue ::
  "((nat \<Rightarrow> nat \<Rightarrow> int) \<Rightarrow> (nat \<Rightarrow> nat \<Rightarrow> (nat \<Rightarrow> timers_list) \<Rightarrow> (nat \<Rightarrow> timers_list)) option \<Rightarrow>
     nat pqueue \<times> (nat \<Rightarrow> timers_list) \<Rightarrow> nat pqueue \<times> (nat \<Rightarrow> timers_list)) \<Rightarrow> timers \<Rightarrow> timers" where
  "with_queue f s =
     (let (q, ls) = f (compareTimersLists (timersLists s)) (Some setPosition) (timerListQueue s, timersLists s)
      in s\<lparr>timerListQueue := q, timersLists := ls\<rparr>)"

definition new_TimersList :: "int \<Rightarrow> int \<Rightarrow> timers \<Rightarrow> nat \<times> timers" where
  "new_TimersList expires ms s =
     (let l = nextObject s;
          s = L_init l (s\<lparr>nextObject := l + 1\<rparr>)
      in (l, s\<lparr>timersLists := (timersLists s)(l :=
                 \<lparr>expiry = expires, list_id = timerListId s, msecs = ms, priorityQueuePosition = None\<rparr>),
               timerListId := timerListId s + 1\<rparr>))"

definition list_for :: "int \<Rightarrow> int \<Rightarrow> timers \<Rightarrow> nat \<times> timers" where
  "list_for ms start s =
     (case timerListMap s ms of
        Some l \<Rightarrow> (l, s)
      | None \<Rightarrow>
          (let expires = start + ms;
               (l, s) = new_TimersList expires ms s;
               s = s\<lparr>timerListMap := (timerListMap s)(ms \<mapsto> l)\<rparr>;
               s = with_queue (\<lambda>cmp setp. pq_insert cmp setp l) s
           in if (case nextExpiry s of None \<Rightarrow> True | Some n \<Rightarrow> n > expires)
              then (l, (log_call (ScheduleTimer ms) s)\<lparr>nextExpiry := Some expires\<rparr>)
              else (l, s)))"

text \<open>\<^verbatim>\<open>insert(item, msecs, start)\<close>; the default of \<^verbatim>\<open>start\<close> is the time of the loop.\<close>

definition insert_timer :: "nat \<Rightarrow> rat \<Rightarrow> int option \<Rightarrow> timers \<Rightarrow> timers result" where
  "insert_timer t ms start s =
     (let start = (case start of None \<Rightarrow> libuvNow s | Some x \<Rightarrow> x);
          ms = MathTrunc ms;
          s = upd_timeout t (\<lambda>T. T\<lparr>idleStart := Some start\<rparr>) s;
          (l, s) = list_for ms start s
      in L_append l t s)"

definition insertGuarded :: "nat \<Rightarrow> bool \<Rightarrow> timers \<Rightarrow> timers result" where
  "insertGuarded t rf s =
     (case timeouts s t of
        None \<Rightarrow> Inr s
      | Some T \<Rightarrow>
          if idleTimeout T < 0 then Inr s
          else
            bind (insert_timer t (idleTimeout T) None s) (\<lambda>s.
            let isDestroyed = destroyed T;
                s = (if isDestroyed \<or> timer_async_id T = 0
                     then initAsyncResource t ''Timeout'' (upd_timeout t (\<lambda>T. T\<lparr>destroyed := False\<rparr>) s) else s);
                s = (if isDestroyed then (if rf then incRefCount s else s)
                     else if rf \<noteq> refed T then (if rf then incRefCount s else decRefCount s)
                     else s)
            in Inr (upd_timeout t (\<lambda>T. T\<lparr>refed := rf\<rparr>) s)))"

definition active :: "nat \<Rightarrow> timers \<Rightarrow> timers result" where
  "active t s = insertGuarded t True s"

definition unrefActive :: "nat \<Rightarrow> timers \<Rightarrow> timers result" where
  "unrefActive t s = insertGuarded t False s"

definition timeout_refresh :: "nat \<Rightarrow> timers \<Rightarrow> timers result" where
  "timeout_refresh t s =
     (case timeouts s t of
        None \<Rightarrow> Inr s
      | Some T \<Rightarrow> if refed T then active t s else unrefActive t s)"

definition timeout_unref :: "nat \<Rightarrow> timers \<Rightarrow> timers" where
  "timeout_unref t s =
     (case timeouts s t of
        None \<Rightarrow> s
      | Some T \<Rightarrow>
          if refed T
          then (let s = upd_timeout t (\<lambda>T. T\<lparr>refed := False\<rparr>) s
                in if \<not> destroyed T then decRefCount s else s)
          else s)"

definition timeout_ref :: "nat \<Rightarrow> timers \<Rightarrow> timers" where
  "timeout_ref t s =
     (case timeouts s t of
        None \<Rightarrow> s
      | Some T \<Rightarrow>
          if \<not> refed T
          then (let s = upd_timeout t (\<lambda>T. T\<lparr>refed := True\<rparr>) s
                in if \<not> destroyed T then incRefCount s else s)
          else s)"

definition timeout_hasRef :: "nat \<Rightarrow> timers \<Rightarrow> bool" where
  "timeout_hasRef t s = (case timeouts s t of None \<Rightarrow> False | Some T \<Rightarrow> refed T)"

text \<open>\<^verbatim>\<open>Timeout.prototype[Symbol.toPrimitive]\<close>.\<close>

definition timeout_toPrimitive :: "nat \<Rightarrow> timers \<Rightarrow> nat \<times> timers" where
  "timeout_toPrimitive t s =
     (case timeouts s t of
        None \<Rightarrow> (0, s)
      | Some T \<Rightarrow>
          (timer_async_id T,
           if \<not> hasPrimitive T
           then (upd_timeout t (\<lambda>T. T\<lparr>hasPrimitive := True\<rparr>) s)
                  \<lparr>knownTimersById := (knownTimersById s)(timer_async_id T \<mapsto> t)\<rparr>
           else s))"

definition setUnrefTimeout :: "jsval \<Rightarrow> jsnum option \<Rightarrow> timers \<Rightarrow> (nat \<times> timers) result" where
  "setUnrefTimeout callback after s =
     bind (validateFunction callback ''callback'') (\<lambda>f.
     let (t, s) = new_Timeout f after None False False s
     in bind (insert_timer t (case timeouts s t of Some T \<Rightarrow> idleTimeout T | None \<Rightarrow> 0) None s) (\<lambda>s. Inr (t, s)))"

text \<open>The type checking of \<^verbatim>\<open>Socket#setTimeout\<close>.\<close>

definition getTimerDuration :: "jsval \<Rightarrow> string \<Rightarrow> timers \<Rightarrow> (rat \<times> timers) result" where
  "getTimerDuration ms name s =
     bind (validateNumber ms name) (\<lambda>n.
     case n of
       Fin r \<Rightarrow>
         if r < 0 then Inl (ERR_OUT_OF_RANGE name NonNegativeFinite)
         else if r > of_int TIMEOUT_MAX
              then Inr (of_int TIMEOUT_MAX, log_call (EmitWarning ''TimeoutOverflowWarning'') s)
         else Inr (r, s)
     | _ \<Rightarrow> Inl (ERR_OUT_OF_RANGE name NonNegativeFinite))"

subsection \<open>Cancelling\<close>

text \<open>\<^verbatim>\<open>unenroll\<close>: an empty list is removed from the queue and the map only for a timer with a reference.\<close>

definition drop_empty_list :: "int \<Rightarrow> timers \<Rightarrow> timers" where
  "drop_empty_list ms s =
     (case timerListMap s ms of
        None \<Rightarrow> s
      | Some l \<Rightarrow>
          if L_isEmpty l s
          then (let s' = with_queue (\<lambda>cmp setp. removeAt cmp setp
                           (case priorityQueuePosition (timersLists s l) of Some p \<Rightarrow> p | None \<Rightarrow> 0)) s
                in s'\<lparr>timerListMap := (timerListMap s')(msecs (timersLists s' l) := None)\<rparr>)
          else s)"

definition unenroll :: "nat \<Rightarrow> timers \<Rightarrow> timers" where
  "unenroll t s =
     (case timeouts s t of
        None \<Rightarrow> s
      | Some T \<Rightarrow>
          if destroyed T then s
          else
            (let s = upd_timeout t (\<lambda>T. T\<lparr>destroyed := True\<rparr>) s;
                 s = (if hasPrimitive T then s\<lparr>knownTimersById := (knownTimersById s)(timer_async_id T := None)\<rparr> else s);
                 s = s\<lparr>asyncFields := emitDestroy (timer_async_id T) (asyncFields s)\<rparr>;
                 s = L_remove t s;
                 s = (if refed T then decRefCount (drop_empty_list (MathTrunc (idleTimeout T)) s) else s)
             in upd_timeout t (\<lambda>T. T\<lparr>idleTimeout := -1\<rparr>) s))"

text \<open>What \<^verbatim>\<open>clearTimeout\<close> may be given: a timer, a number or string that is the decimal form of an id, or anything else.\<close>

datatype timer_arg = TimerObject nat | TimerId nat | OtherArg

definition clear_instance :: "nat \<Rightarrow> timers \<Rightarrow> timers" where
  "clear_instance t s = unenroll t (upd_timeout t (\<lambda>T. T\<lparr>onTimeout := None\<rparr>) s)"

definition clearTimeout :: "timer_arg \<Rightarrow> timers \<Rightarrow> timers" where
  "clearTimeout a s =
     (case a of
        TimerObject t \<Rightarrow>
          (case timeouts s t of
             None \<Rightarrow> s
           | Some T \<Rightarrow> if onTimeout T \<noteq> None then clear_instance t s else s)
      | TimerId i \<Rightarrow> (case knownTimersById s i of None \<Rightarrow> s | Some t \<Rightarrow> clear_instance t s)
      | OtherArg \<Rightarrow> s)"

definition clearInterval :: "timer_arg \<Rightarrow> timers \<Rightarrow> timers" where
  "clearInterval a s = clearTimeout a s"

definition timeout_close :: "nat \<Rightarrow> timers \<Rightarrow> timers" where
  "timeout_close t s = clearTimeout (TimerObject t) s"

subsection \<open>Scheduling\<close>

definition schedule :: "bool \<Rightarrow> jsval \<Rightarrow> jsnum option \<Rightarrow> jsval list \<Rightarrow> timers \<Rightarrow> (nat \<times> timers) result" where
  "schedule isRepeat callback after args s =
     bind (validateFunction callback ''callback'') (\<lambda>f.
     let (t, s) = new_Timeout f after (if args = [] then None else Some args) isRepeat True s
     in bind (insert_timer t (case timeouts s t of Some T \<Rightarrow> idleTimeout T | None \<Rightarrow> 0) None s) (\<lambda>s. Inr (t, s)))"

definition setTimeout :: "jsval \<Rightarrow> jsnum option \<Rightarrow> jsval list \<Rightarrow> timers \<Rightarrow> (nat \<times> timers) result" where
  "setTimeout callback after args s = schedule False callback after args s"

definition setInterval :: "jsval \<Rightarrow> jsnum option \<Rightarrow> jsval list \<Rightarrow> timers \<Rightarrow> (nat \<times> timers) result" where
  "setInterval callback after args s = schedule True callback after args s"

text \<open>
  What a program may do with timers in one go. A call that throws leaves the state as it was: the
  only errors are those of the argument checks.
\<close>

datatype timer_call =
    SetTimeout jsval "jsnum option" "jsval list"
  | SetInterval jsval "jsnum option" "jsval list"
  | SetUnrefTimeout jsval "jsnum option"
  | ClearTimeout timer_arg
  | ClearInterval timer_arg
  | Refresh nat
  | Ref nat
  | Unref nat
  | ToPrimitive nat
  | TimePasses nat

fun do_call :: "timer_call \<Rightarrow> timers \<Rightarrow> timers result" where
  "do_call (SetTimeout f after args) s = bind (setTimeout f after args s) (\<lambda>(_, s). Inr s)"
| "do_call (SetInterval f after args) s = bind (setInterval f after args s) (\<lambda>(_, s). Inr s)"
| "do_call (SetUnrefTimeout f after) s = bind (setUnrefTimeout f after s) (\<lambda>(_, s). Inr s)"
| "do_call (ClearTimeout a) s = Inr (clearTimeout a s)"
| "do_call (ClearInterval a) s = Inr (clearInterval a s)"
| "do_call (Refresh t) s = timeout_refresh t s"
| "do_call (Ref t) s = Inr (timeout_ref t s)"
| "do_call (Unref t) s = Inr (timeout_unref t s)"
| "do_call (ToPrimitive t) s = Inr (snd (timeout_toPrimitive t s))"
| "do_call (TimePasses d) s = Inr (s\<lparr>libuvNow := libuvNow s + int d\<rparr>)"

fun timer_calls :: "timer_call list \<Rightarrow> timers \<Rightarrow> timers" where
  "timer_calls [] s = s"
| "timer_calls (c # cs) s = timer_calls cs (case do_call c s of Inr s' \<Rightarrow> s' | Inl e \<Rightarrow> s)"

subsection \<open>Running the lists\<close>

text \<open>
  The code the loops call and do not contain: what a callback does with the timers, given its
  arguments and the state it is called in, and whether it throws; and the same for the tick queue
  that runs between two timers.
\<close>

record timer_host =
  host_callback :: "nat \<Rightarrow> jsval list \<Rightarrow> timers \<Rightarrow> timer_call list \<times> jserror option"
  host_ticks :: "timers \<Rightarrow> timer_call list \<times> jserror option"

datatype timer_outcome = TimersDone | TimersThrew jserror

definition run_host :: "timer_call list \<times> jserror option \<Rightarrow> timers \<Rightarrow> jserror option \<times> timers" where
  "run_host c s = (snd c, timer_calls (fst c) s)"

definition destroy_fired :: "nat \<Rightarrow> nat \<Rightarrow> timers \<Rightarrow> timers" where
  "destroy_fired t asyncId s =
     (case timeouts s t of
        None \<Rightarrow> s
      | Some T \<Rightarrow>
          (let s = upd_timeout t (\<lambda>T. T\<lparr>destroyed := True\<rparr>) s;
               s = (if hasPrimitive T then s\<lparr>knownTimersById := (knownTimersById s)(asyncId := None)\<rparr> else s);
               s = (if refed T then s\<lparr>timeoutInfo := timeoutInfo s - 1\<rparr> else s)
           in s\<lparr>asyncFields := emitDestroy asyncId (asyncFields s)\<rparr>))"

text \<open>
  The call of a timer that has been taken out of its list, and what follows it whether it returns or
  throws: an interval is inserted again from the time taken before the call, any other timer that
  the call did not schedule again is destroyed.
\<close>

definition after_call :: "nat \<Rightarrow> nat \<Rightarrow> int option \<Rightarrow> timers \<Rightarrow> timers result" where
  "after_call t asyncId start s =
     (case timeouts s t of
        None \<Rightarrow> Inr s
      | Some T \<Rightarrow>
          (case repeat T of
             Some r \<Rightarrow>
               if idleTimeout T \<noteq> -1
               then insert_timer t r start (upd_timeout t (\<lambda>T. T\<lparr>idleTimeout := r\<rparr>) s)
               else if idleNext s t = None \<and> idlePrev s t = None \<and> \<not> destroyed T
               then Inr (destroy_fired t asyncId s)
               else Inr s
           | None \<Rightarrow>
               if idleNext s t = None \<and> idlePrev s t = None \<and> \<not> destroyed T
               then Inr (destroy_fired t asyncId s)
               else Inr s))"

definition enter_timer :: "nat \<Rightarrow> timeout \<Rightarrow> int \<Rightarrow> timers \<Rightarrow> timers" where
  "enter_timer t T now s =
     s\<lparr>currentFrame := timer_frame T,
       asyncFields := emitBefore (timer_async_id T) (timer_trigger_id T) (asyncFields s),
       calledTimers := calledTimers s @ [(t, now)]\<rparr>"

definition call_timer :: "timer_host \<Rightarrow> nat \<Rightarrow> timeout \<Rightarrow> nat \<Rightarrow> int \<Rightarrow> timers \<Rightarrow> timer_outcome \<times> timers" where
  "call_timer h t T f now s =
     (let asyncId = timer_async_id T;
          priorContextFrame = currentFrame s;
          s = enter_timer t T now s;
          start = (if repeat T \<noteq> None then Some (libuvNow s) else None);
          args = (case timerArgs T of None \<Rightarrow> [] | Some args \<Rightarrow> args);
          (err, s) = run_host (host_callback h f args s) s
      in case after_call t asyncId start s of
           Inl e \<Rightarrow> (TimersThrew e, s)
         | Inr s \<Rightarrow>
             (case err of
                Some e \<Rightarrow> (TimersThrew e, s)
              | None \<Rightarrow>
                  (TimersDone, s\<lparr>asyncFields := emitAfter asyncId (asyncFields s), currentFrame := priorContextFrame\<rparr>)))"

definition fire_timer :: "timer_host \<Rightarrow> nat \<Rightarrow> int \<Rightarrow> timers \<Rightarrow> timer_outcome \<times> timers" where
  "fire_timer h t now s =
     (let s = L_remove t s
      in case timeouts s t of
           None \<Rightarrow> (TimersDone, s)
         | Some T \<Rightarrow>
             (case onTimeout T of
                None \<Rightarrow> (TimersDone, if \<not> destroyed T then destroy_fired t (timer_async_id T) s else s)
              | Some f \<Rightarrow> call_timer h t T f now s))"

definition run_ticks :: "timer_host \<Rightarrow> bool \<Rightarrow> timers \<Rightarrow> jserror option \<times> timers" where
  "run_ticks h again s = (if again then run_host (host_ticks h s) s else (None, s))"

text \<open>The list waits for its first timer, or is removed when it is still the one in the map.\<close>

definition postpone_list :: "nat \<Rightarrow> int \<Rightarrow> int \<Rightarrow> timers \<Rightarrow> timers" where
  "postpone_list l start now s =
     with_queue (\<lambda>cmp setp. percolateDown cmp setp 1)
       (s\<lparr>timersLists := (timersLists s)(l := (timersLists s l)
            \<lparr>expiry := max (start + msecs (timersLists s l)) (now + 1), list_id := timerListId s\<rparr>),
          timerListId := timerListId s + 1\<rparr>)"

definition finish_list :: "nat \<Rightarrow> int \<Rightarrow> timers \<Rightarrow> timers" where
  "finish_list l ms s =
     (if timerListMap s ms = Some l
      then with_queue (\<lambda>cmp setp qs. snd (pq_shift cmp setp qs)) (s\<lparr>timerListMap := (timerListMap s)(ms := None)\<rparr>)
      else s)"

text \<open>\<^verbatim>\<open>listOnTimeout\<close>, with fuel for the timers it meets.\<close>

fun listOnTimeout :: "nat \<Rightarrow> timer_host \<Rightarrow> nat \<Rightarrow> int \<Rightarrow> int \<Rightarrow> bool \<Rightarrow> timers \<Rightarrow> (timer_outcome \<times> timers) option" where
  "listOnTimeout 0 h l ms now again s = None"
| "listOnTimeout (Suc n) h l ms now again s =
     (case L_peek l s of
        None \<Rightarrow> Some (TimersDone, finish_list l ms s)
      | Some t \<Rightarrow>
          (let start = (case timeouts s t of Some T \<Rightarrow> (case idleStart T of Some x \<Rightarrow> x | None \<Rightarrow> 0) | None \<Rightarrow> 0);
               diff = now - start
           in if diff < ms then Some (TimersDone, postpone_list l start now s)
              else
                (case run_ticks h again s of
                   (Some e, s) \<Rightarrow> Some (TimersThrew e, s)
                 | (None, s) \<Rightarrow>
                     (case fire_timer h t now s of
                        (TimersDone, s) \<Rightarrow> listOnTimeout n h l ms now True s
                      | r \<Rightarrow> Some r))))"

text \<open>\<^verbatim>\<open>processTimers\<close>: the number it returns tells the native side when to come back, and by its sign whether to stay alive.\<close>

fun process_lists :: "nat \<Rightarrow> timer_host \<Rightarrow> int \<Rightarrow> bool \<Rightarrow> timers \<Rightarrow> (timer_outcome \<times> int \<times> timers) option" where
  "process_lists 0 h now again s = None"
| "process_lists (Suc n) h now again s =
     (case pq_peek (timerListQueue s) of
        None \<Rightarrow> Some (TimersDone, 0, s)
      | Some l \<Rightarrow>
          if expiry (timersLists s l) > now
          then (let next = expiry (timersLists s l)
                in Some (TimersDone, if timeoutInfo s > 0 then next else - next, s\<lparr>nextExpiry := Some next\<rparr>))
          else
            (case run_ticks h again s of
               (Some e, s) \<Rightarrow> Some (TimersThrew e, 0, s)
             | (None, s) \<Rightarrow>
                 (case listOnTimeout n h l (msecs (timersLists s l)) now False s of
                    None \<Rightarrow> None
                  | Some (TimersDone, s) \<Rightarrow> process_lists n h now True s
                  | Some (out, s) \<Rightarrow> Some (out, 0, s))))"

definition processTimers :: "nat \<Rightarrow> timer_host \<Rightarrow> int \<Rightarrow> timers \<Rightarrow> (timer_outcome \<times> int \<times> timers) option" where
  "processTimers n h now s = process_lists n h now False (s\<lparr>nextExpiry := None\<rparr>)"

subsection \<open>The module after it is loaded, and the states it can get into\<close>

definition start_timers :: "async_fields \<Rightarrow> timers" where
  "start_timers a =
     \<lparr>idleNext = (\<lambda>_. None), idlePrev = (\<lambda>_. None), timeouts = Map.empty,
      timersLists = (\<lambda>_. \<lparr>expiry = 0, list_id = 0, msecs = 0, priorityQueuePosition = None\<rparr>),
      timerListMap = Map.empty, timerListQueue = new_pqueue, timerListId = - (2 ^ 53 - 1), nextExpiry = None, timeoutInfo = 0,
      knownTimersById = Map.empty, warnedNegativeNumber = False, warnedNotNumber = False, libuvNow = 0,
      bindingLog = [], asyncFields = a, currentFrame = 0, nextObject = 0, calledTimers = []\<rparr>"

text \<open>
  A pass needs less fuel than this: each turn takes a timer out of those that are due or a list out
  of those that are late, both of which are objects that have been made.
\<close>

definition pass_fuel :: "timers \<Rightarrow> nat" where
  "pass_fuel s = 2 * nextObject s + 1"

definition timers_pass :: "timer_host \<Rightarrow> int \<Rightarrow> timers \<Rightarrow> (timer_outcome \<times> int \<times> timers) option" where
  "timers_pass h now s = processTimers (pass_fuel s) h now s"

inductive timers_reach :: "timer_host \<Rightarrow> timers \<Rightarrow> bool" for h where
  reach_start: "timers_reach h (start_timers a)"
| reach_calls: "timers_reach h s \<Longrightarrow> timers_reach h (timer_calls cs s)"
| reach_pass: "timers_reach h s \<Longrightarrow> now \<le> libuvNow s \<Longrightarrow> timers_pass h now s = Some (out, r, s') \<Longrightarrow> timers_reach h s'"

end
