(* ===== verification/TimersQueue.thy ===== *)
theory TimersQueue
  imports Timers
begin

text \<open>
  The timer lists as a client of the priority queue: the comparator and the callback of
  lib/internal/timers.js keep the contracts of the queue, so every operation of the timers leaves a
  heap of the live lists in which each knows its position.
\<close>

interpretation timer_order: comparator "compareTimersLists ls" for ls
  by unfold_locales (auto simp: compareTimersLists_def Let_def split: if_splits)

interpretation timer_positions: positions setPosition "\<lambda>ls l. priorityQueuePosition (ls l)"
  by unfold_locales (simp add: setPosition_def)

text \<open>What the queue orders lists by, which the callback does not touch.\<close>

definition same_keys :: "(nat \<Rightarrow> timers_list) \<Rightarrow> (nat \<Rightarrow> timers_list) \<Rightarrow> bool" where
  "same_keys ls ls' \<longleftrightarrow> (\<forall>l. expiry (ls' l) = expiry (ls l) \<and> list_id (ls' l) = list_id (ls l) \<and> msecs (ls' l) = msecs (ls l))"

lemma same_keys_refl [simp]: "same_keys ls ls"
  by (simp add: same_keys_def)

lemma same_keysD:
  assumes "same_keys ls ls'"
  shows "expiry (ls' l) = expiry (ls l)" "list_id (ls' l) = list_id (ls l)" "msecs (ls' l) = msecs (ls l)"
  using assms by (simp_all add: same_keys_def)

lemma same_keys_compare: "same_keys ls ls' \<Longrightarrow> compareTimersLists ls' = compareTimersLists ls"
  by (intro ext) (simp add: compareTimersLists_def same_keys_def)

lemma same_keys_setPosition: "same_keys ls0 ls \<Longrightarrow> same_keys ls0 (setPosition l p ls)"
  by (simp add: same_keys_def setPosition_def)

definition queue_holds :: "nat pqueue \<Rightarrow> (nat \<Rightarrow> timers_list) \<Rightarrow> nat set \<Rightarrow> bool" where
  "queue_holds q ls L \<longleftrightarrow>
     timer_order.pq_ok ls q \<and> timer_positions.distinct_items (heap q) \<and>
     timer_positions.placed ls (heap q) (pq_size q) 0 \<and> set_mset (content (heap q)) = L"

lemma queue_holds_placed: "queue_holds q ls L \<Longrightarrow> timer_positions.pq_placed q ls"
  by (simp add: queue_holds_def timer_positions.pq_placed_def timer_order.pq_ok_def)

lemma queue_keeps:
  assumes "same_keys ls0 ls"
  shows "same_keys ls0 (snd (pq_insert cmp (Some setPosition) v (q, ls)))"
    "same_keys ls0 (snd (removeAt cmp (Some setPosition) pos (q, ls)))"
    "same_keys ls0 (snd (snd (pq_shift cmp (Some setPosition) (q, ls))))"
    "same_keys ls0 (snd (percolateDown cmp (Some setPosition) pos (q, ls)))"
  using pq_keeps [of "same_keys ls0" setPosition ls] percolate_keeps [of "same_keys ls0" setPosition ls]
    same_keys_setPosition assms by blast+

lemma pq_ok_same: "same_keys ls ls' \<Longrightarrow> timer_order.pq_ok ls' q \<longleftrightarrow> timer_order.pq_ok ls q"
  by (simp add: same_keys_compare)

lemma distinct_add: "timer_positions.distinct_items h \<longleftrightarrow> (\<forall>a. count (content h) a \<le> 1)"
  by (rule timer_positions.distinct_items_def)

lemma item_at_content: "pq_wf h n \<Longrightarrow> 1 \<le> i \<Longrightarrow> i \<le> n \<Longrightarrow> item_at h i \<in># content h"
  unfolding pq_wf_def content_def by (metis (mono_tags, lifting) filter_mset_eq_conv image_eqI le_less_trans
      mem_Collect_eq nth_mem set_image_mset set_mset_filter set_mset_mset)

text \<open>Only what the lists in the queue hold matters.\<close>

lemma queue_holds_cong:
  assumes "queue_holds q ls L" "\<And>l. l \<in> L \<Longrightarrow> ls' l = ls l"
  shows "queue_holds q ls' L"
proof -
  let ?h = "heap q" and ?n = "pq_size q"
  have wf: "pq_wf ?h ?n" and ord: "timer_order.heap_ordered ls ?h ?n" and set: "set_mset (content ?h) = L"
    using assms(1) by (simp_all add: queue_holds_def timer_order.pq_ok_def)
  have same: "ls' (item_at ?h i) = ls (item_at ?h i)" if "1 \<le> i" "i \<le> ?n" for i
    using item_at_content [OF wf that] set assms(2) by blast
  have "timer_order.heap_ordered ls' ?h ?n"
    unfolding timer_order.heap_ordered_def
  proof (intro allI impI)
    fix i assume i: "2 \<le> i \<and> i \<le> ?n"
    then have "1 \<le> i div 2" "i div 2 \<le> ?n" by auto
    then show "timer_order.le ls' (?h ! (i div 2)) (?h ! i)"
      using ord [unfolded timer_order.heap_ordered_def, rule_format, OF i] i same [of i] same [of "i div 2"]
      by (simp add: timer_order.le_def compareTimersLists_def split: if_splits)
  qed
  then show ?thesis using assms(1) same wf
    by (auto simp: queue_holds_def timer_order.pq_ok_def timer_positions.placed_def)
qed

lemma queue_insert:
  assumes "queue_holds q ls L" "v \<notin> L" "pq_insert (compareTimersLists ls) (Some setPosition) v (q, ls) = (q', ls')"
  shows "queue_holds q' ls' (insert v L) \<and> same_keys ls ls'"
proof -
  have ok: "timer_order.pq_ok ls q" and set: "set_mset (content (heap q)) = L"
    and dist: "\<And>a. count (content (heap q)) a \<le> 1"
    using assms(1) by (auto simp: queue_holds_def distinct_add)
  have keys: "same_keys ls ls'"
    using queue_keeps(1) [of ls ls "compareTimersLists ls" v q] assms(3) by simp
  have new: "timer_order.pq_ok ls q'" "content (heap q') = add_mset v (content (heap q))"
    using timer_order.pq_insert_ok [OF ok, of "Some setPosition" v ls] assms(3) by simp_all
  moreover have "timer_positions.placed ls' (heap q') (pq_size q') 0"
    using timer_positions.pq_insert_placed [OF queue_holds_placed [OF assms(1)], of v "compareTimersLists ls"]
      assms(2,3) set by simp
  moreover have "count (content (heap q')) a \<le> 1" for a
    using new(2) dist [of a] assms(2) set by (auto simp: count_eq_zero_iff)
  ultimately show ?thesis using keys set pq_ok_same [OF keys] by (simp add: queue_holds_def distinct_add)
qed

lemma queue_position:
  assumes "queue_holds q ls L" "l \<in> L"
  shows "\<exists>p. priorityQueuePosition (ls l) = Some p \<and> 1 \<le> p \<and> p \<le> pq_size q \<and> heap q ! p = Some l"
proof -
  have "l \<in># content (heap q)" using assms by (simp add: queue_holds_def)
  then obtain p where p: "p < length (heap q)" "heap q ! p = Some l"
    by (force simp: content_def in_set_conv_nth)
  then have "1 \<le> p" "p \<le> pq_size q" using assms(1) by (auto simp: queue_holds_def timer_order.pq_ok_def pq_wf_def)
  moreover from this have "priorityQueuePosition (ls l) = Some p"
    using assms(1) p by (auto simp: queue_holds_def timer_positions.placed_def dest!: spec [of _ p])
  ultimately show ?thesis using p by blast
qed

lemma removed_queue:
  assumes "queue_holds q ls L" "1 \<le> p" "p \<le> pq_size q" "heap q ! p = Some l"
    "removeAt (compareTimersLists ls) (Some setPosition) p (q, ls) = (q', ls')"
  shows "queue_holds q' ls' (L - {l}) \<and> same_keys ls ls'"
proof -
  have ok: "timer_order.pq_ok ls q" and set: "set_mset (content (heap q)) = L"
    and dist: "\<And>a. count (content (heap q)) a \<le> 1"
    using assms(1) by (auto simp: queue_holds_def distinct_add)
  have keys: "same_keys ls ls'"
    using queue_keeps(2) [of ls ls "compareTimersLists ls" p q] assms(5) by simp
  have new: "timer_order.pq_ok ls q'" "content (heap q) = add_mset l (content (heap q'))"
    using timer_order.removeAt_ok [OF ok assms(2-4), of "Some setPosition" ls] assms(5) by simp_all
  moreover have "timer_positions.placed ls' (heap q') (pq_size q') 0"
    using timer_positions.removeAt_placed [OF queue_holds_placed [OF assms(1)] assms(2-4), of "compareTimersLists ls"]
      assms(5) by simp
  moreover have "count (content (heap q')) a \<le> 1" for a using new(2) dist [of a] by (auto split: if_splits)
  moreover have "l \<notin># content (heap q')" using new(2) dist [of l] by (simp add: count_eq_zero_iff)
  then have "set_mset (content (heap q')) = L - {l}" using new(2) set by auto
  ultimately show ?thesis using keys pq_ok_same [OF keys] by (simp add: queue_holds_def distinct_add)
qed

lemma queue_peek:
  assumes "queue_holds q ls L"
  shows "case pq_peek q of None \<Rightarrow> L = {} | Some l \<Rightarrow> l \<in> L \<and> (\<forall>k \<in> L. compareTimersLists ls l k \<le> 0) \<and> 1 \<le> pq_size q \<and> heap q ! 1 = Some l"
proof -
  have ok: "timer_order.pq_ok ls q" using assms by (simp add: queue_holds_def)
  have wf: "1 < length (heap q)" "heap q ! 1 \<noteq> None \<longleftrightarrow> 1 \<le> pq_size q"
    using ok by (auto simp: timer_order.pq_ok_def pq_wf_def)
  show ?thesis
    using timer_order.pq_peek_ok [OF ok] assms wf
    by (auto simp: queue_holds_def pq_peek_def split: option.splits)
qed

lemma queue_shift:
  assumes "queue_holds q ls L" "pq_peek q = Some l" "pq_shift (compareTimersLists ls) (Some setPosition) (q, ls) = (r, q', ls')"
  shows "queue_holds q' ls' (L - {l}) \<and> same_keys ls ls'"
proof -
  have p: "1 \<le> pq_size q" "heap q ! 1 = Some l" using queue_peek [OF assms(1)] assms(2) by auto
  then have "removeAt (compareTimersLists ls) (Some setPosition) 1 (q, ls) = (q', ls')"
    using assms(2,3) by (simp add: pq_shift_def pq_peek_def split: option.splits)
  then show ?thesis using removed_queue [OF assms(1) _ p] by blast
qed

text \<open>The list at the root gets a later expiry.\<close>

lemma queue_postpone:
  assumes "queue_holds q ls L" "pq_peek q = Some l"
    "ls1 = ls(l := (ls l)\<lparr>expiry := e, list_id := i\<rparr>)"
    "percolateDown (compareTimersLists ls1) (Some setPosition) 1 (q, ls1) = (q', ls')"
  shows "queue_holds q' ls' L \<and> same_keys ls1 ls'"
proof -
  let ?h = "heap q" and ?n = "pq_size q"
  have ok: "timer_order.pq_ok ls q" and set: "set_mset (content ?h) = L"
    and dist: "timer_positions.distinct_items ?h" and placed: "timer_positions.placed ls ?h ?n 0"
    using assms(1) by (auto simp: queue_holds_def)
  have root: "1 \<le> ?n" "?h ! 1 = Some l" using queue_peek [OF assms(1)] assms(2) by auto
  have wf: "pq_wf ?h ?n" and ord: "timer_order.heap_ordered ls ?h ?n" using ok by (simp_all add: timer_order.pq_ok_def)
  have len: "?n < length ?h" "1 < length ?h" using wf by (auto simp: pq_wf_def)
  have other: "item_at ?h i \<noteq> l" if "2 \<le> i" "i \<le> ?n" for i
  proof -
    have "?h ! i \<noteq> None" "?h ! i \<noteq> Some l"
      using that wf timer_positions.distinct_items_nth [OF dist len(2) _ _ root(2), of i] len(1) by (auto simp: pq_wf_def)
    then show ?thesis by auto
  qed
  have hw: "hole_wf ?h ?n 1 (?h ! 1)" using wf root(1) by (simp add: hole_wf_def)
  have ho: "timer_order.hole_ordered ls1 ?h ?n 1"
    unfolding timer_order.hole_ordered_def
  proof (intro conjI allI impI)
    fix j assume j: "2 \<le> j \<and> j \<le> ?n \<and> j \<noteq> 1 \<and> j div 2 \<noteq> 1"
    then have "2 \<le> j div 2" "j div 2 \<le> ?n" by auto
    then show "timer_order.le ls1 (?h ! (j div 2)) (?h ! j)"
      using ord j other [of j] other [of "j div 2"]
      by (auto simp: timer_order.heap_ordered_def timer_order.le_def compareTimersLists_def assms(3))
  qed simp
  have bp: "timer_order.below_parent ls1 ?h 1 (?h ! 1)" by (simp add: timer_order.below_parent_def)
  have new: "timer_order.pq_ok ls1 q'" "content (heap q') = content ?h"
    using timer_order.percolateDown_ok [OF hw ho bp, of "Some setPosition" ls1] assms(4) by simp_all
  have "timer_positions.placed ls1 ?h ?n 1" using placed other by (auto simp: timer_positions.placed_def assms(3))
  from timer_positions.percolate_placed(2) [OF hw dist this, of "compareTimersLists ls1"]
  have "timer_positions.placed ls' (heap q') (pq_size q') 0" using assms(4) by simp
  moreover have keys: "same_keys ls1 ls'"
    using queue_keeps(4) [of ls1 ls1 "compareTimersLists ls1" 1 q] assms(4) by simp
  ultimately show ?thesis using new set dist pq_ok_same [OF keys] by (simp add: queue_holds_def distinct_add)
qed

end
