(* ===== verification/TimersInv.thy ===== *)
theory TimersInv
  imports TimersQueue
begin

text \<open>
  The invariant of the timers. \<open>m\<close> is the table of lists that the links represent, from each list
  object to the timers in it. One list per duration, each list once in the queue and with its
  position, each listed timer alive, scheduled and in the list of its duration, and the reference
  count the number of live timers with a reference.
\<close>

subsection \<open>The invariant\<close>

definition timer_active :: "timeout \<Rightarrow> bool" where
  "timer_active T \<longleftrightarrow> refed T \<and> \<not> destroyed T"

definition timeout_ok :: "timeout \<Rightarrow> bool" where
  "timeout_ok T \<longleftrightarrow>
     (1 \<le> idleTimeout T \<or> (idleTimeout T = -1 \<and> destroyed T)) \<and>
     (\<forall>r. repeat T = Some r \<longrightarrow> 1 \<le> r \<and>
        (idleTimeout T = r \<and> \<not> destroyed T \<and> onTimeout T \<noteq> None \<or> idleTimeout T = -1 \<and> destroyed T))"

definition links_inv :: "timers \<Rightarrow> (nat \<rightharpoonup> nat list) \<Rightarrow> bool" where
  "links_inv s m \<longleftrightarrow>
     lists_ok s m \<and> dom m = ran (timerListMap s) \<and>
     (\<forall>k l. timerListMap s k = Some l \<longrightarrow> msecs (timersLists s l) = k \<and> 1 \<le> k) \<and>
     (\<forall>l xs x. m l = Some xs \<and> x \<in> set xs \<longrightarrow> x \<in> dom (timeouts s)) \<and>
     (\<forall>l \<in> dom m. timeouts s l = None \<and> l < nextObject s) \<and>
     (\<forall>t \<in> dom (timeouts s). t < nextObject s) \<and>
     queue_holds (timerListQueue s) (timersLists s) (dom m) \<and>
     inj_on (\<lambda>l. list_id (timersLists s l)) (dom m) \<and>
     (\<forall>l \<in> dom m. list_id (timersLists s l) < timerListId s)"

definition item_ok :: "timers \<Rightarrow> nat \<Rightarrow> nat \<Rightarrow> bool" where
  "item_ok s l x \<longleftrightarrow>
     (\<exists>T. timeouts s x = Some T \<and> \<not> destroyed T \<and> MathTrunc (idleTimeout T) = msecs (timersLists s l) \<and> idleStart T \<noteq> None)"

definition items_ok :: "timers \<Rightarrow> (nat \<rightharpoonup> nat list) \<Rightarrow> bool" where
  "items_ok s m \<longleftrightarrow> (\<forall>l xs. m l = Some xs \<longrightarrow> (\<forall>x \<in> set xs. item_ok s l x))"

definition actives :: "(nat \<rightharpoonup> timeout) \<Rightarrow> nat set" where
  "actives ts = {t. \<exists>T. ts t = Some T \<and> timer_active T}"

definition refs_ok :: "timers \<Rightarrow> bool" where
  "refs_ok s \<longleftrightarrow> finite (dom (timeouts s)) \<and> timeoutInfo s = int (card (actives (timeouts s)))"

definition timers_inv :: "timers \<Rightarrow> (nat \<rightharpoonup> nat list) \<Rightarrow> bool" where
  "timers_inv s m \<longleftrightarrow>
     links_inv s m \<and> items_ok s m \<and> (\<forall>t T. timeouts s t = Some T \<longrightarrow> timeout_ok T) \<and> refs_ok s"

text \<open>The fields that the operations on the lists leave alone.\<close>

definition other_fields :: "timers \<Rightarrow> _" where
  "other_fields s = (libuvNow s, asyncFields s, currentFrame s, knownTimersById s, calledTimers s,
     warnedNegativeNumber s, warnedNotNumber s)"

subsection \<open>Frame lemmas\<close>

lemma other_fields_upd [simp]:
  "other_fields (s\<lparr>timerListMap := a\<rparr>) = other_fields s" "other_fields (s\<lparr>timeouts := b\<rparr>) = other_fields s"
  "other_fields (s\<lparr>timersLists := c\<rparr>) = other_fields s" "other_fields (s\<lparr>timerListId := d\<rparr>) = other_fields s"
  "other_fields (s\<lparr>nextExpiry := e\<rparr>) = other_fields s" "other_fields (s\<lparr>timeoutInfo := d\<rparr>) = other_fields s"
  "other_fields (s\<lparr>nextObject := n\<rparr>) = other_fields s" "other_fields (s\<lparr>timerListQueue := q\<rparr>) = other_fields s"
  by (simp_all add: other_fields_def)

lemma lists_ok_links: "idleNext s = idleNext t \<Longrightarrow> idlePrev s = idlePrev t \<Longrightarrow> lists_ok s m \<longleftrightarrow> lists_ok t m"
proof -
  assume e: "idleNext s = idleNext t" "idlePrev s = idlePrev t"
  have "ring s l xs \<longleftrightarrow> ring t l xs" for l xs by (rule ring_cong) (simp add: e)
  then show ?thesis by (simp add: lists_ok_def detached_def e)
qed

lemma links_inv_cong:
  assumes "idleNext s' = idleNext s" "idlePrev s' = idlePrev s" "timerListMap s' = timerListMap s"
    "timersLists s' = timersLists s" "timerListQueue s' = timerListQueue s" "timerListId s' = timerListId s"
    "nextObject s' = nextObject s" "dom (timeouts s') = dom (timeouts s)"
  shows "links_inv s' m \<longleftrightarrow> links_inv s m"
proof -
  have "timeouts s' l = None \<longleftrightarrow> timeouts s l = None" for l using assms(8) by (metis domIff)
  then show ?thesis using lists_ok_links [OF assms(1,2)] assms(3-8) by (simp add: links_inv_def)
qed

lemma MathTrunc_ge_1: "1 \<le> r \<Longrightarrow> 1 \<le> MathTrunc r"
  by (simp add: MathTrunc_def)

text \<open>Store updates of the linked lists keep every other field.\<close>

lemma set_links_fields [simp]:
  "timers.more (set_next x v s) = timers.more s"
  "timeouts (set_next x v s) = timeouts s" "timeouts (set_prev x v s) = timeouts s"
  "timersLists (set_next x v s) = timersLists s" "timersLists (set_prev x v s) = timersLists s"
  "timerListMap (set_next x v s) = timerListMap s" "timerListMap (set_prev x v s) = timerListMap s"
  "timerListQueue (set_next x v s) = timerListQueue s" "timerListQueue (set_prev x v s) = timerListQueue s"
  "timerListId (set_next x v s) = timerListId s" "timerListId (set_prev x v s) = timerListId s"
  "nextExpiry (set_next x v s) = nextExpiry s" "nextExpiry (set_prev x v s) = nextExpiry s"
  "timeoutInfo (set_next x v s) = timeoutInfo s" "timeoutInfo (set_prev x v s) = timeoutInfo s"
  "nextObject (set_next x v s) = nextObject s" "nextObject (set_prev x v s) = nextObject s"
  "other_fields (set_next x v s) = other_fields s" "other_fields (set_prev x v s) = other_fields s"
  by (simp_all add: set_next_def set_prev_def other_fields_def)

text \<open>The fields of the module beside the links.\<close>

definition timer_fields :: "timers \<Rightarrow> _" where
  "timer_fields s = (timeouts s, timersLists s, timerListMap s, timerListQueue s, timerListId s, nextExpiry s,
     timeoutInfo s, nextObject s, other_fields s)"

lemma timer_fields_set [simp]:
  "timer_fields (set_next x v s) = timer_fields s" "timer_fields (set_prev x v s) = timer_fields s"
  by (simp_all add: timer_fields_def)

lemma timer_fields_L [simp]:
  "timer_fields (L_init l s) = timer_fields s" "timer_fields (L_remove x s) = timer_fields s"
  by (simp_all add: L_init_def L_remove_def Let_def split: option.split)

lemma timer_fields_append: "L_append l x s = Inr t \<Longrightarrow> timer_fields t = timer_fields s"
  by (auto simp: L_append_def Let_def split: option.splits if_splits)

lemma timer_fieldsD:
  assumes "timer_fields t = timer_fields s"
  shows "timeouts t = timeouts s" "timersLists t = timersLists s" "timerListMap t = timerListMap s"
    "timerListQueue t = timerListQueue s" "timerListId t = timerListId s" "nextExpiry t = nextExpiry s"
    "timeoutInfo t = timeoutInfo s" "nextObject t = nextObject s" "other_fields t = other_fields s"
  using assms by (simp_all add: timer_fields_def)

lemmas L_fields [simp] = timer_fieldsD [OF timer_fields_L(1)] timer_fieldsD [OF timer_fields_L(2)]

lemma log_call_fields [simp]:
  "idleNext (log_call c s) = idleNext s" "idlePrev (log_call c s) = idlePrev s" "timer_fields (log_call c s) = timer_fields s"
  by (simp_all add: log_call_def timer_fields_def other_fields_def)

lemmas log_fields [simp] = timer_fieldsD [OF log_call_fields(3)]

lemma upd_timeout_fields [simp]:
  "idleNext (upd_timeout t f s) = idleNext s" "idlePrev (upd_timeout t f s) = idlePrev s"
  "timersLists (upd_timeout t f s) = timersLists s" "timerListMap (upd_timeout t f s) = timerListMap s"
  "timerListQueue (upd_timeout t f s) = timerListQueue s" "timerListId (upd_timeout t f s) = timerListId s"
  "nextExpiry (upd_timeout t f s) = nextExpiry s" "timeoutInfo (upd_timeout t f s) = timeoutInfo s"
  "nextObject (upd_timeout t f s) = nextObject s" "other_fields (upd_timeout t f s) = other_fields s"
  "dom (timeouts (upd_timeout t f s)) = dom (timeouts s)"
  by (auto simp: upd_timeout_def other_fields_def)

lemma timeouts_upd: "timeouts s t = Some T \<Longrightarrow> timeouts (upd_timeout t f s) = (timeouts s)(t \<mapsto> f T)"
  by (simp add: upd_timeout_def)

lemma links_inv_upd [simp]: "links_inv (upd_timeout t f s) m \<longleftrightarrow> links_inv s m"
  by (rule links_inv_cong) simp_all

subsection \<open>The lists\<close>

lemma links_invD:
  assumes "links_inv s m"
  shows "lists_ok s m" "dom m = ran (timerListMap s)"
    "timerListMap s k = Some l \<Longrightarrow> msecs (timersLists s l) = k \<and> 1 \<le> k"
    "m l = Some xs \<Longrightarrow> x \<in> set xs \<Longrightarrow> x \<in> dom (timeouts s)"
    "l \<in> dom m \<Longrightarrow> timeouts s l = None \<and> l < nextObject s"
    "t \<in> dom (timeouts s) \<Longrightarrow> t < nextObject s"
    "queue_holds (timerListQueue s) (timersLists s) (dom m)"
    "inj_on (\<lambda>l. list_id (timersLists s l)) (dom m)"
    "l \<in> dom m \<Longrightarrow> list_id (timersLists s l) < timerListId s"
  using assms unfolding links_inv_def by metis+

lemma links_inv_map: "links_inv s m \<Longrightarrow> l \<in> dom m \<longleftrightarrow> timerListMap s (msecs (timersLists s l)) = Some l"
  using links_invD(2,3) [of s m] by (auto simp: ran_def)

lemma links_inv_timer: "links_inv s m \<Longrightarrow> timeouts s t \<noteq> None \<Longrightarrow> t \<notin> dom m"
  using links_invD(5) by metis

lemma dom_drop_item [simp]: "dom (drop_item x m) = dom m"
  by (auto simp: drop_item_def dom_def)

lemma links_inv_remove:
  assumes "links_inv s m" "timeouts s t \<noteq> None"
  shows "links_inv (L_remove t s) (drop_item t m)"
  using links_invD [OF assms(1)] lists_ok_remove [OF _ links_inv_timer [OF assms]]
  by (auto simp: links_inv_def drop_item_Some domIff)

lemma links_inv_append:
  assumes "links_inv s m" "timeouts s t \<noteq> None" "m l = Some xs"
  obtains s' where "L_append l t s = Inr s'" "links_inv s' ((drop_item t m)(l \<mapsto> removeAll t xs @ [t]))"
    "timer_fields s' = timer_fields s"
proof -
  obtain s' where s': "L_append l t s = Inr s'" "lists_ok s' ((drop_item t m)(l \<mapsto> removeAll t xs @ [t]))"
    using lists_ok_append [OF links_invD(1) [OF assms(1)] assms(3) links_inv_timer [OF assms(1,2)]] by blast
  note f = timer_fieldsD [OF timer_fields_append [OF s'(1)]]
  note d = links_invD [OF assms(1)]
  have dm: "dom ((drop_item t m)(l \<mapsto> removeAll t xs @ [t])) = dom m" using assms(3) by auto
  have "x \<in> dom (timeouts s)" if "((drop_item t m)(l \<mapsto> removeAll t xs @ [t])) k = Some ys" "x \<in> set ys" for k ys x
    using that links_invD(4) [OF assms(1), of l xs] links_invD(4) [OF assms(1), of k] assms(2,3)
    by (auto simp: drop_item_Some domIff split: if_splits)
  then have "links_inv s' ((drop_item t m)(l \<mapsto> removeAll t xs @ [t]))"
    unfolding links_inv_def dm f using s'(2) d by (intro conjI ballI allI impI) blast+
  then show ?thesis using s'(1) timer_fields_append [OF s'(1)] by (intro that)
qed

lemma with_queue_lists_ok [simp]: "lists_ok (with_queue f s) m \<longleftrightarrow> lists_ok s m"
  by (rule lists_ok_links) (simp_all add: with_queue_def split: prod.split)

lemma with_queue_fields [simp]:
  "idleNext (with_queue f s) = idleNext s" "idlePrev (with_queue f s) = idlePrev s"
  "timeouts (with_queue f s) = timeouts s" "timerListMap (with_queue f s) = timerListMap s"
  "timerListId (with_queue f s) = timerListId s" "nextExpiry (with_queue f s) = nextExpiry s"
  "timeoutInfo (with_queue f s) = timeoutInfo s" "nextObject (with_queue f s) = nextObject s"
  "other_fields (with_queue f s) = other_fields s"
  by (simp_all add: with_queue_def other_fields_def split: prod.split)

lemma inj_on_same: "same_keys ls ls' \<Longrightarrow> inj_on (\<lambda>l. list_id (ls' l)) A \<longleftrightarrow> inj_on (\<lambda>l. list_id (ls l)) A"
  by (simp add: same_keys_def)

text \<open>What an operation of the queue leaves when it leaves a queue of the lists \<open>L\<close>.\<close>

lemma links_inv_queue:
  assumes "lists_ok s m" "dom m = ran (timerListMap s)"
    "\<And>k l. timerListMap s k = Some l \<Longrightarrow> msecs (timersLists s l) = k \<and> 1 \<le> k"
    "\<And>l xs x. m l = Some xs \<Longrightarrow> x \<in> set xs \<Longrightarrow> x \<in> dom (timeouts s)"
    "\<And>l. l \<in> dom m \<Longrightarrow> timeouts s l = None \<and> l < nextObject s"
    "\<And>t. t \<in> dom (timeouts s) \<Longrightarrow> t < nextObject s"
    "queue_holds (timerListQueue (with_queue f s)) (timersLists (with_queue f s)) (dom m)"
    "same_keys (timersLists s) (timersLists (with_queue f s))"
    "inj_on (\<lambda>l. list_id (timersLists s l)) (dom m)"
    "\<And>l. l \<in> dom m \<Longrightarrow> list_id (timersLists s l) < timerListId s"
  shows "links_inv (with_queue f s) m"
  unfolding links_inv_def with_queue_fields with_queue_lists_ok
  using assms inj_on_same [OF assms(8)] same_keysD [OF assms(8)]
  by (intro conjI ballI allI impI) (simp_all, blast+)

text \<open>A new list.\<close>

lemma new_list_inv:
  assumes "links_inv s m" "timerListMap s k = None" "1 \<le> k" "new_TimersList e k s = (l, s1)"
    "s2 = with_queue (\<lambda>cmp setp. pq_insert cmp setp l) (s1\<lparr>timerListMap := (timerListMap s1)(k \<mapsto> l)\<rparr>)"
  shows "links_inv s2 (m(l \<mapsto> []))" "m l = None" "timerListMap s2 = (timerListMap s)(k \<mapsto> l)" "timeouts s2 = timeouts s"
    "same_keys ((timersLists s)(l := \<lparr>expiry = e, list_id = timerListId s, msecs = k, priorityQueuePosition = None\<rparr>)) (timersLists s2)"
    "timeoutInfo s2 = timeoutInfo s" "other_fields s2 = other_fields s" "l = nextObject s" "nextObject s2 = nextObject s + 1"
proof -
  let ?ls = "(timersLists s)(l := \<lparr>expiry = e, list_id = timerListId s, msecs = k, priorityQueuePosition = None\<rparr>)"
  let ?s1 = "s1\<lparr>timerListMap := (timerListMap s1)(k \<mapsto> l)\<rparr>"
  show l: "l = nextObject s" using assms(4) by (auto simp: new_TimersList_def Let_def)
  have s1: "timersLists s1 = ?ls"
    "timerListMap s1 = timerListMap s" "timerListQueue s1 = timerListQueue s" "timerListId s1 = timerListId s + 1"
    "nextObject s1 = l + 1" "timeouts s1 = timeouts s" "timeoutInfo s1 = timeoutInfo s" "other_fields s1 = other_fields s"
    "idleNext s1 = idleNext (L_init l s)" "idlePrev s1 = idlePrev (L_init l s)"
    using assms(4) l by (auto simp: new_TimersList_def Let_def L_init_def set_next_def set_prev_def other_fields_def)
  note d = links_invD [OF assms(1)]
  have nl: "\<not> in_lists m l"
  proof
    assume "in_lists m l"
    then obtain i xs where "m i = Some xs" "l = i \<or> l \<in> set xs" by (auto simp: in_lists_def)
    then show False using d(4) [of i xs l] d(5) [of i] d(6) [of l] l by (auto simp: domIff)
  qed
  then show ml: "m l = None" using in_listsI [of m l] by (cases "m l") auto
  have "queue_holds (timerListQueue s) ?ls (dom m)"
    using ml by (intro queue_holds_cong [OF d(7)]) auto
  moreover obtain q ls where q: "pq_insert (compareTimersLists ?ls) (Some setPosition) l (timerListQueue s, ?ls) = (q, ls)"
    by (metis surj_pair)
  ultimately have hold: "queue_holds q ls (insert l (dom m))" "same_keys ?ls ls"
    using queue_insert [of "timerListQueue s" ?ls "dom m" l q ls] ml by auto
  have s2: "timerListQueue s2 = q" "timersLists s2 = ls" unfolding assms(5) with_queue_def by (simp_all add: s1 q)
  have other: "i \<noteq> l" if "i \<in> dom m" for i using that ml by auto
  show "same_keys ?ls (timersLists s2)" using hold(2) s2 by simp
  show "timerListMap s2 = (timerListMap s)(k \<mapsto> l)" "timeouts s2 = timeouts s" "timeoutInfo s2 = timeoutInfo s"
    "other_fields s2 = other_fields s" "nextObject s2 = nextObject s + 1"
    unfolding assms(5) using s1 l by simp_all
  show "links_inv s2 (m(l \<mapsto> []))"
    unfolding assms(5)
  proof (rule links_inv_queue)
    have "lists_ok (L_init l s) (m(l \<mapsto> []))" by (rule lists_ok_init [OF d(1) nl])
    then show "lists_ok ?s1 (m(l \<mapsto> []))" by (subst lists_ok_links) (simp_all add: s1)
    show "dom (m(l \<mapsto> [])) = ran (timerListMap ?s1)" using d(2) assms(2) s1(2) by simp
    show "msecs (timersLists ?s1 j) = i \<and> 1 \<le> i" if "timerListMap ?s1 i = Some j" for i j
      using that d(3) [of i j] other [of j] d(2) assms(3) s1 by (auto simp: ran_def split: if_splits)
    show "x \<in> dom (timeouts ?s1)" if "(m(l \<mapsto> [])) j = Some xs" "x \<in> set xs" for j xs x
      using that d(4) s1(6) by (auto split: if_splits)
    show "timeouts ?s1 j = None \<and> j < nextObject ?s1" if j: "j \<in> dom (m(l \<mapsto> []))" for j
    proof (cases "j = l")
      case True
      then show ?thesis using d(6) [of l] l s1 by (cases "timeouts s l") auto
    next
      case False
      then have "j \<in> dom m" using j by auto
      then show ?thesis using d(5) [of j] l s1 by simp
    qed
    show "t < nextObject ?s1" if "t \<in> dom (timeouts ?s1)" for t using that d(6) [of t] l s1 by auto
    show "queue_holds (timerListQueue (with_queue (\<lambda>cmp setp. pq_insert cmp setp l) ?s1))
        (timersLists (with_queue (\<lambda>cmp setp. pq_insert cmp setp l) ?s1)) (dom (m(l \<mapsto> [])))"
      "same_keys (timersLists ?s1) (timersLists (with_queue (\<lambda>cmp setp. pq_insert cmp setp l) ?s1))"
      using hold s2 s1(1) unfolding assms(5) by simp_all
    show "inj_on (\<lambda>i. list_id (timersLists ?s1 i)) (dom (m(l \<mapsto> [])))"
      using d(8) d(9) other unfolding s1(1) inj_on_def by (auto simp: s1(1)) (metis less_irrefl domI)+
    show "list_id (timersLists ?s1 j) < timerListId ?s1" if "j \<in> dom (m(l \<mapsto> []))" for j
      using that d(9) [of j] s1 by (cases "j = l") (auto simp: domIff)
  qed
qed

text \<open>
  What an insertion of the timer \<open>t\<close> makes of the lists: it is the last item of the list of its
  duration, and in no other.
\<close>

definition moved :: "(nat \<rightharpoonup> nat list) \<Rightarrow> (nat \<rightharpoonup> nat list) \<Rightarrow> nat \<Rightarrow> nat \<Rightarrow> bool" where
  "moved m m' l t \<longleftrightarrow>
     m' l = Some ((case m l of Some xs \<Rightarrow> removeAll t xs | None \<Rightarrow> []) @ [t]) \<and>
     (\<forall>k. k \<noteq> l \<longrightarrow> m' k = map_option (removeAll t) (m k))"

definition kept_lists :: "(nat \<rightharpoonup> nat list) \<Rightarrow> timers \<Rightarrow> timers \<Rightarrow> bool" where
  "kept_lists m s s' \<longleftrightarrow>
     (\<forall>l \<in> dom m. msecs (timersLists s' l) = msecs (timersLists s l) \<and> expiry (timersLists s' l) = expiry (timersLists s l) \<and>
        list_id (timersLists s' l) = list_id (timersLists s l))"

lemma list_for_inv:
  assumes "links_inv s m" "1 \<le> k" "list_for k start s = (l, s')"
  obtains m' where "links_inv s' m'" "timerListMap s' k = Some l" "m' l \<noteq> None"
    "m' = m \<or> m l = None \<and> m' = m(l \<mapsto> []) \<and> expiry (timersLists s' l) = start + k \<and> l = nextObject s"
    "nextObject s \<le> nextObject s'"
    "timeouts s' = timeouts s" "timeoutInfo s' = timeoutInfo s" "other_fields s' = other_fields s" "kept_lists m s s'"
proof (cases "timerListMap s k")
  case (Some j)
  then have "l = j" "s' = s" using assms(3) by (simp_all add: list_for_def)
  moreover have "m j \<noteq> None" using links_invD(2) [OF assms(1)] Some by (auto simp: ran_def domIff)
  ultimately show ?thesis using assms(1) Some by (intro that [of m]) (auto simp: kept_lists_def)
next
  case None
  obtain j s1 where new: "new_TimersList (start + k) k s = (j, s1)" by (metis surj_pair)
  define s2 where "s2 = with_queue (\<lambda>cmp setp. pq_insert cmp setp j) (s1\<lparr>timerListMap := (timerListMap s1)(k \<mapsto> j)\<rparr>)"
  note n = new_list_inv [OF assms(1) None assms(2) new s2_def]
  have l: "l = j" and s': "idleNext s' = idleNext s2" "idlePrev s' = idlePrev s2" "timerListMap s' = timerListMap s2"
    "timersLists s' = timersLists s2" "timerListQueue s' = timerListQueue s2" "timerListId s' = timerListId s2"
    "nextObject s' = nextObject s2" "timeouts s' = timeouts s2" "timeoutInfo s' = timeoutInfo s2" "other_fields s' = other_fields s2"
    using assms(3) None new unfolding list_for_def by (auto simp: Let_def s2_def [symmetric] split: if_splits)
  have "links_inv s' (m(j \<mapsto> []))" using n(1) s' by (subst links_inv_cong [of _ s2]) simp_all
  moreover have "expiry (timersLists s' j) = start + k" using same_keysD(1) [OF n(5), of j] s' by simp
  moreover have "kept_lists m s s'"
    using same_keysD [OF n(5)] s' n(2) by (auto simp: kept_lists_def)
  ultimately show ?thesis using n l s' by (intro that [of "m(j \<mapsto> [])"]) auto
qed

lemma insert_timer_inv:
  assumes "links_inv s m" "timeouts s t = Some T" "1 \<le> MathTrunc ms"
  obtains s' m' l where "insert_timer t ms start s = Inr s'" "links_inv s' m'" "timerListMap s' (MathTrunc ms) = Some l"
    "moved m m' l t" "timeouts s' = (timeouts s)(t \<mapsto> T\<lparr>idleStart := Some (case start of None \<Rightarrow> libuvNow s | Some x \<Rightarrow> x)\<rparr>)"
    "timeoutInfo s' = timeoutInfo s" "other_fields s' = other_fields s" "kept_lists m s s'"
    "m l = None \<Longrightarrow> expiry (timersLists s' l) = (case start of None \<Rightarrow> libuvNow s | Some x \<Rightarrow> x) + MathTrunc ms \<and> l = nextObject s"
    "nextObject s \<le> nextObject s'"
proof -
  let ?start = "case start of None \<Rightarrow> libuvNow s | Some x \<Rightarrow> x" and ?k = "MathTrunc ms"
  let ?s1 = "upd_timeout t (\<lambda>T. T\<lparr>idleStart := Some ?start\<rparr>) s"
  obtain l s2 where l: "list_for ?k ?start ?s1 = (l, s2)" by (metis surj_pair)
  obtain m1 where m1: "links_inv s2 m1" "timerListMap s2 ?k = Some l" "m1 l \<noteq> None"
    "m1 = m \<or> m l = None \<and> m1 = m(l \<mapsto> []) \<and> expiry (timersLists s2 l) = ?start + ?k \<and> l = nextObject ?s1"
    "nextObject ?s1 \<le> nextObject s2"
    "timeouts s2 = timeouts ?s1" "timeoutInfo s2 = timeoutInfo ?s1" "other_fields s2 = other_fields ?s1" "kept_lists m ?s1 s2"
    using list_for_inv [OF _ assms(3) l] assms(1) by simp blast
  obtain xs where xs: "m1 l = Some xs" using m1(3) by blast
  have t: "timeouts s2 t \<noteq> None" using m1(6) timeouts_upd [OF assms(2)] by simp
  obtain s' where s': "L_append l t s2 = Inr s'" "links_inv s' ((drop_item t m1)(l \<mapsto> removeAll t xs @ [t]))"
    "timer_fields s' = timer_fields s2"
    using links_inv_append [OF m1(1) t xs] by blast
  note f = timer_fieldsD [OF s'(3)]
  have "insert_timer t ms start s = Inr s'" using l s'(1) by (simp add: insert_timer_def Let_def)
  moreover have "moved m ((drop_item t m1)(l \<mapsto> removeAll t xs @ [t])) l t"
    using m1(4) xs by (auto simp: moved_def drop_item_def split: option.split)
  moreover have "kept_lists m s s'" using m1(9) f by (simp add: kept_lists_def)
  moreover have "m l = None \<Longrightarrow> expiry (timersLists s' l) = ?start + ?k \<and> l = nextObject s" using m1(4) xs f(2) by auto
  moreover have "timerListMap s' ?k = Some l" "timeouts s' = (timeouts s)(t \<mapsto> T\<lparr>idleStart := Some ?start\<rparr>)"
    "timeoutInfo s' = timeoutInfo s" "other_fields s' = other_fields s" "nextObject s \<le> nextObject s'"
    using m1 f timeouts_upd [OF assms(2)] by simp_all
  ultimately show ?thesis using s'(2) by (intro that [of s' _ l])
qed

text \<open>An empty list leaves the map and the queue.\<close>

lemma links_inv_forget:
  assumes "links_inv s m" "timerListMap s k = Some l" "m l = Some []"
    "idleNext s' = idleNext s" "idlePrev s' = idlePrev s" "timerListMap s' = (timerListMap s)(k := None)"
    "queue_holds (timerListQueue s') (timersLists s') (dom m - {l})" "same_keys (timersLists s) (timersLists s')"
    "timerListId s' = timerListId s" "nextObject s' = nextObject s" "timeouts s' = timeouts s"
  shows "links_inv s' (m(l := None))"
  unfolding links_inv_def
proof (intro conjI ballI allI impI)
  note d = links_invD [OF assms(1)] and keys = same_keysD [OF assms(8)]
  have only: "i = k" if "timerListMap s i = Some l" for i using that assms(2) d(3) by metis
  show "lists_ok s' (m(l := None))"
    using lists_ok_forget [OF d(1) assms(3)] lists_ok_links [OF assms(4,5)] by blast
  have "ran ((timerListMap s)(k := None)) = ran (timerListMap s) - {l}"
  proof (intro set_eqI iffI)
    fix j assume "j \<in> ran ((timerListMap s)(k := None))"
    then obtain i where "i \<noteq> k" "timerListMap s i = Some j" by (auto simp: ran_def split: if_splits)
    then show "j \<in> ran (timerListMap s) - {l}" using only [of i] by (auto simp: ran_def)
  next
    fix j assume "j \<in> ran (timerListMap s) - {l}"
    then obtain i where "timerListMap s i = Some j" "j \<noteq> l" by (auto simp: ran_def)
    moreover from this have "i \<noteq> k" using assms(2) by auto
    ultimately show "j \<in> ran ((timerListMap s)(k := None))" by (auto simp: ran_def)
  qed
  then show "dom (m(l := None)) = ran (timerListMap s')" using d(2) assms(6) by simp
  show "queue_holds (timerListQueue s') (timersLists s') (dom (m(l := None)))" using assms(7) by simp
  show "inj_on (\<lambda>i. list_id (timersLists s' i)) (dom (m(l := None)))"
    using d(8) by (auto simp: inj_on_same [OF assms(8)] inj_on_def)
  show "msecs (timersLists s' j) = i" "1 \<le> i" if "timerListMap s' i = Some j" for i j
    using that d(3) [of i j] keys assms(6) by (simp_all split: if_splits)
  show "timeouts s' i = None" "i < nextObject s'" "list_id (timersLists s' i) < timerListId s'" if "i \<in> dom (m(l := None))" for i
    using that d(5) [of i] d(9) [of i] keys assms(9-11) by auto
  show "i < nextObject s'" if "i \<in> dom (timeouts s')" for i using that d(6) [of i] assms(10,11) by simp
  show "x \<in> dom (timeouts s')" if "(m(l := None)) i = Some xs \<and> x \<in> set xs" for i xs x
    using that d(4) [of i xs x] assms(11) by (simp split: if_splits)
qed

lemma finish_list_inv:
  assumes "links_inv s m" "timerListMap s k = Some l" "m l = Some []" "pq_peek (timerListQueue s) = Some l"
  shows "links_inv (finish_list l k s) (m(l := None))" "timeouts (finish_list l k s) = timeouts s"
    "timeoutInfo (finish_list l k s) = timeoutInfo s" "other_fields (finish_list l k s) = other_fields s"
    "kept_lists m s (finish_list l k s)"
proof -
  obtain r q ls where shift: "pq_shift (compareTimersLists (timersLists s)) (Some setPosition) (timerListQueue s, timersLists s) = (r, q, ls)"
    by (metis surj_pair)
  note sh = queue_shift [OF links_invD(7) [OF assms(1)] assms(4) shift]
  have "timerListQueue (finish_list l k s) = q" "timersLists (finish_list l k s) = ls"
    "idleNext (finish_list l k s) = idleNext s" "idlePrev (finish_list l k s) = idlePrev s"
    "timerListMap (finish_list l k s) = (timerListMap s)(k := None)" "timerListId (finish_list l k s) = timerListId s"
    "nextObject (finish_list l k s) = nextObject s"
    using shift assms(2) by (simp_all add: finish_list_def with_queue_def)
  moreover show "timeouts (finish_list l k s) = timeouts s" "timeoutInfo (finish_list l k s) = timeoutInfo s"
    "other_fields (finish_list l k s) = other_fields s" by (simp_all add: finish_list_def)
  ultimately show "links_inv (finish_list l k s) (m(l := None))" "kept_lists m s (finish_list l k s)"
    using sh same_keysD [OF conjunct2 [OF sh]]
    by (auto intro!: links_inv_forget [OF assms(1-3)] simp: kept_lists_def)
qed

lemma unenroll_list_inv:
  assumes "links_inv s m" "timerListMap s k = Some l" "m l = Some []"
    "s' = with_queue (\<lambda>cmp setp. removeAt cmp setp
       (case priorityQueuePosition (timersLists s l) of Some p \<Rightarrow> p | None \<Rightarrow> 0)) s"
    "s'' = s'\<lparr>timerListMap := (timerListMap s')(msecs (timersLists s' l) := None)\<rparr>"
  shows "links_inv s'' (m(l := None))" "timeouts s'' = timeouts s" "timeoutInfo s'' = timeoutInfo s"
    "other_fields s'' = other_fields s" "kept_lists m s s''"
proof -
  have "l \<in> dom m" using assms(3) by blast
  then obtain p where p: "priorityQueuePosition (timersLists s l) = Some p" "1 \<le> p" "p \<le> pq_size (timerListQueue s)"
    "heap (timerListQueue s) ! p = Some l"
    using queue_position [OF links_invD(7) [OF assms(1)]] by blast
  obtain q ls where rm: "removeAt (compareTimersLists (timersLists s)) (Some setPosition) p (timerListQueue s, timersLists s) = (q, ls)"
    by (metis surj_pair)
  note r = removed_queue [OF links_invD(7) [OF assms(1)] p(2-4) rm]
  have s': "timerListQueue s' = q" "timersLists s' = ls" using rm p(1) by (simp_all add: assms(4) with_queue_def)
  have "msecs (ls l) = k" using links_invD(3) [OF assms(1,2)] same_keysD [OF conjunct2 [OF r]] by simp
  then have "timerListMap s'' = (timerListMap s)(k := None)" using s' by (simp add: assms(5)) (simp add: assms(4))
  moreover have "idleNext s'' = idleNext s" "idlePrev s'' = idlePrev s" "timerListId s'' = timerListId s"
    "nextObject s'' = nextObject s" "timerListQueue s'' = q" "timersLists s'' = ls"
    using s' by (simp_all add: assms(5)) (simp_all add: assms(4))
  moreover show "timeouts s'' = timeouts s" "timeoutInfo s'' = timeoutInfo s" "other_fields s'' = other_fields s"
    by (simp_all add: assms(5)) (simp_all add: assms(4))
  ultimately show "links_inv s'' (m(l := None))" "kept_lists m s s''"
    using r same_keysD [OF conjunct2 [OF r]]
    by (auto intro!: links_inv_forget [OF assms(1-3)] simp: kept_lists_def)
qed

lemma postpone_list_inv:
  assumes "links_inv s m" "m l = Some xs" "pq_peek (timerListQueue s) = Some l" "s' = postpone_list l start now s"
  shows "links_inv s' m" "timeouts s' = timeouts s" "timeoutInfo s' = timeoutInfo s" "other_fields s' = other_fields s"
    "msecs (timersLists s' i) = msecs (timersLists s i)"
    "expiry (timersLists s' l) = max (start + msecs (timersLists s l)) (now + 1)"
    "i \<noteq> l \<Longrightarrow> expiry (timersLists s' i) = expiry (timersLists s i)"
    "timerListMap s' = timerListMap s"
proof -
  let ?e = "max (start + msecs (timersLists s l)) (now + 1)"
  define ls1 where "ls1 = (timersLists s)(l := (timersLists s l)\<lparr>expiry := ?e, list_id := timerListId s\<rparr>)"
  obtain q ls where down: "percolateDown (compareTimersLists ls1) (Some setPosition) 1 (timerListQueue s, ls1) = (q, ls)"
    by (metis surj_pair)
  note d = links_invD [OF assms(1)]
  note po = queue_postpone [OF d(7) assms(3) ls1_def down]
  note keys = same_keysD [OF conjunct2 [OF po]]
  have s': "timerListQueue s' = q" "timersLists s' = ls" "timerListId s' = timerListId s + 1"
    "idleNext s' = idleNext s" "idlePrev s' = idlePrev s" "nextObject s' = nextObject s"
    unfolding assms(4) postpone_list_def using down by (simp_all add: with_queue_def ls1_def)
  show f: "timeouts s' = timeouts s" "timeoutInfo s' = timeoutInfo s" "other_fields s' = other_fields s"
    "timerListMap s' = timerListMap s" by (simp_all add: assms(4) postpone_list_def)
  show ms: "msecs (timersLists s' i) = msecs (timersLists s i)" for i using s'(2) keys by (simp add: ls1_def)
  show "expiry (timersLists s' l) = ?e" "i \<noteq> l \<Longrightarrow> expiry (timersLists s' i) = expiry (timersLists s i)"
    using s'(2) keys by (simp_all add: ls1_def)
  have ids: "list_id (timersLists s' i) = (if i = l then timerListId s else list_id (timersLists s i))" for i
    using s'(2) keys by (simp add: ls1_def)
  show "links_inv s' m"
    unfolding links_inv_def
  proof (intro conjI ballI allI impI)
    show "lists_ok s' m" using d(1) lists_ok_links [OF s'(4,5)] by blast
    show "dom m = ran (timerListMap s')" using d(2) f(4) by simp
    show "queue_holds (timerListQueue s') (timersLists s') (dom m)" using po s' by simp
    show "inj_on (\<lambda>i. list_id (timersLists s' i)) (dom m)"
      using d(8) d(9) unfolding ids inj_on_def by (metis less_irrefl)
    show "msecs (timersLists s' j) = i" "1 \<le> i" if "timerListMap s' i = Some j" for i j
      using that d(3) [of i j] ms f(4) by simp_all
    show "timeouts s' i = None" "i < nextObject s'" "list_id (timersLists s' i) < timerListId s'" if "i \<in> dom m" for i
      using that d(5) [of i] d(9) [of i] s' f(1) ids [of i] by auto
    show "i < nextObject s'" if "i \<in> dom (timeouts s')" for i using that d(6) [of i] s'(6) f(1) by simp
    show "x \<in> dom (timeouts s')" if "m i = Some xs \<and> x \<in> set xs" for i xs x
      using that d(4) [of i xs x] f(1) by simp
  qed
qed

end
