(* ===== verification/TimersOps.thy ===== *)
theory TimersOps
  imports TimersInv
begin

text \<open>
  The operations of the timers keep the invariant, and what they may do to the lists while the
  timers due at a time \<open>now\<close> are run: no listed timer becomes due, a list keeps its expiry and its
  id, and a new list expires later than \<open>now\<close>.
\<close>

subsection \<open>Steps\<close>

definition due :: "timers \<Rightarrow> (nat \<rightharpoonup> nat list) \<Rightarrow> int \<Rightarrow> nat set" where
  "due s m now = {t. \<exists>l xs T x. m l = Some xs \<and> t \<in> set xs \<and> timeouts s t = Some T \<and> idleStart T = Some x \<and>
     x + msecs (timersLists s l) \<le> now}"

definition evolves :: "int \<Rightarrow> timers \<Rightarrow> (nat \<rightharpoonup> nat list) \<Rightarrow> timers \<Rightarrow> (nat \<rightharpoonup> nat list) \<Rightarrow> bool" where
  "evolves now s m s' m' \<longleftrightarrow>
     libuvNow s \<le> libuvNow s' \<and> nextObject s \<le> nextObject s' \<and>
     (\<forall>t T. timeouts s t = Some T \<longrightarrow> (\<exists>T'. timeouts s' t = Some T' \<and> repeat T' = repeat T)) \<and>
     (\<forall>t < nextObject s. timeouts s t = None \<longrightarrow> timeouts s' t = None) \<and>
     (\<forall>l \<in> dom m \<inter> dom m'. msecs (timersLists s' l) = msecs (timersLists s l) \<and>
        expiry (timersLists s' l) = expiry (timersLists s l) \<and> list_id (timersLists s' l) = list_id (timersLists s l)) \<and>
     (\<forall>l \<in> dom m' - dom m. nextObject s \<le> l \<and> (now \<le> libuvNow s \<longrightarrow> now < expiry (timersLists s' l))) \<and>
     (now \<le> libuvNow s \<longrightarrow> due s' m' now \<subseteq> due s m now)"

definition quiet :: "timers \<Rightarrow> timers \<Rightarrow> bool" where
  "quiet s s' \<longleftrightarrow> async_context (asyncFields s') = async_context (asyncFields s) \<and> calledTimers s' = calledTimers s"

definition inv_step :: "int \<Rightarrow> timers \<Rightarrow> timers \<Rightarrow> bool" where
  "inv_step now s s' \<longleftrightarrow> quiet s s' \<and> (\<forall>m. timers_inv s m \<longrightarrow> (\<exists>m'. timers_inv s' m' \<and> evolves now s m s' m'))"

lemma timers_invD:
  assumes "timers_inv s m"
  shows "links_inv s m" "items_ok s m" "timeouts s t = Some T \<Longrightarrow> timeout_ok T" "refs_ok s"
  using assms by (simp_all add: timers_inv_def)

lemma quiet_refl [simp]: "quiet s s"
  by (simp add: quiet_def)

lemma quiet_trans: "quiet s s1 \<Longrightarrow> quiet s1 s2 \<Longrightarrow> quiet s s2"
  by (simp add: quiet_def)

lemma evolves_refl: "evolves now s m s m"
  by (simp add: evolves_def)

lemma evolvesD:
  assumes "evolves now s m s' m'"
  shows "libuvNow s \<le> libuvNow s'" "timeouts s t = Some T \<Longrightarrow> \<exists>T'. timeouts s' t = Some T' \<and> repeat T' = repeat T"
    "l \<in> dom m \<Longrightarrow> l \<in> dom m' \<Longrightarrow> msecs (timersLists s' l) = msecs (timersLists s l) \<and>
        expiry (timersLists s' l) = expiry (timersLists s l) \<and> list_id (timersLists s' l) = list_id (timersLists s l)"
    "l \<in> dom m' \<Longrightarrow> l \<notin> dom m \<Longrightarrow> nextObject s \<le> l \<and> (now \<le> libuvNow s \<longrightarrow> now < expiry (timersLists s' l))"
    "now \<le> libuvNow s \<Longrightarrow> due s' m' now \<subseteq> due s m now"
    "t < nextObject s \<Longrightarrow> timeouts s t = None \<Longrightarrow> timeouts s' t = None" "nextObject s \<le> nextObject s'"
  using assms by (simp_all add: evolves_def)

lemma evolves_trans:
  assumes "evolves now s m s1 m1" "evolves now s1 m1 s2 m2" "links_inv s m"
  shows "evolves now s m s2 m2"
proof -
  have mono: "libuvNow s \<le> libuvNow s1" "nextObject s \<le> nextObject s1" using assms(1) by (simp_all add: evolves_def)
  have mid: "l \<in> dom m1" if "l \<in> dom m" "l \<in> dom m2" for l
  proof (rule ccontr)
    assume "l \<notin> dom m1"
    then have "nextObject s1 \<le> l" using assms(2) that(2) by (auto simp: evolves_def)
    then show False using links_invD(5) [OF assms(3) that(1)] mono(2) by simp
  qed
  show ?thesis
    unfolding evolves_def
  proof (intro conjI allI ballI impI)
    fix l assume l: "l \<in> dom m2 - dom m"
    show "nextObject s \<le> l"
      using assms(1,2) l mono(2) by (cases "l \<in> dom m1") (auto simp: evolves_def intro: order_trans)
    assume now: "now \<le> libuvNow s"
    show "now < expiry (timersLists s2 l)"
      using assms(1,2) l mono(1) now by (cases "l \<in> dom m1") (auto simp: evolves_def)
  next
    fix t T assume "timeouts s t = Some T"
    then obtain T1 where T1: "timeouts s1 t = Some T1" "repeat T1 = repeat T" using assms(1) unfolding evolves_def by blast
    then show "\<exists>T'. timeouts s2 t = Some T' \<and> repeat T' = repeat T" using assms(2) unfolding evolves_def by metis
  next
    assume now: "now \<le> libuvNow s"
    then have "now \<le> libuvNow s1" using mono(1) by simp
    then show "due s2 m2 now \<subseteq> due s m now" using assms(1,2) now unfolding evolves_def by (meson subset_trans)
  qed (use assms(1,2) mid in \<open>auto simp: evolves_def\<close>)
qed

lemma inv_step_refl [simp]: "inv_step now s s"
  using evolves_refl by (auto simp: inv_step_def quiet_def)

lemma inv_step_trans: "inv_step now s s1 \<Longrightarrow> inv_step now s1 s2 \<Longrightarrow> inv_step now s s2"
  unfolding inv_step_def using quiet_trans evolves_trans timers_invD(1) by (metis (no_types, lifting))

lemma other_fieldsD:
  assumes "other_fields s' = other_fields s"
  shows "libuvNow s' = libuvNow s" "asyncFields s' = asyncFields s" "calledTimers s' = calledTimers s" "quiet s s'"
  using assms by (simp_all add: other_fields_def quiet_def)

subsection \<open>One timer changes\<close>

lemma actives_upd: "actives (ts(t \<mapsto> T)) = (if timer_active T then insert t (actives ts) else actives ts - {t})"
  by (auto simp: actives_def)

lemma finite_actives: "finite (dom ts) \<Longrightarrow> finite (actives ts)"
  by (rule finite_subset [of _ "dom ts"]) (auto simp: actives_def)

lemma refs_upd:
  assumes "refs_ok s" "timeouts s' = (timeouts s)(t \<mapsto> T')"
    "timeoutInfo s' = timeoutInfo s + of_bool (timer_active T') - of_bool (t \<in> actives (timeouts s))"
  shows "refs_ok s'"
proof -
  have fin: "finite (actives (timeouts s))" using assms(1) finite_actives by (simp add: refs_ok_def)
  then have "t \<in> actives (timeouts s) \<Longrightarrow> 0 < card (actives (timeouts s))" by (auto simp: card_gt_0_iff)
  then show ?thesis
    using assms fin by (auto simp: refs_ok_def actives_upd card_insert_if of_nat_diff Suc_le_eq)
qed

text \<open>
  The general step: the timer \<open>t\<close> becomes \<open>T'\<close>, the other listed timers stay in their lists, and \<open>t\<close> is
  listed where it was with the same start, or where it is not due.
\<close>

lemma timer_step:
  assumes inv: "timers_inv s m"
    and T: "timeouts s' = (timeouts s)(t \<mapsto> T')" and links: "links_inv s' m'"
    and refs: "timeoutInfo s' = timeoutInfo s + of_bool (timer_active T') - of_bool (t \<in> actives (timeouts s))"
    and ok: "timeout_ok T'" and same_repeat: "\<And>T. timeouts s t = Some T \<Longrightarrow> repeat T' = repeat T"
    and fresh: "timeouts s t = None \<Longrightarrow> nextObject s \<le> t"
    and others: "\<And>l xs x. m' l = Some xs \<Longrightarrow> x \<in> set xs \<Longrightarrow> x \<noteq> t \<Longrightarrow> \<exists>ys. m l = Some ys \<and> x \<in> set ys"
    and listed: "\<And>l xs. m' l = Some xs \<Longrightarrow> t \<in> set xs \<Longrightarrow> item_ok s' l t \<and>
        ((\<exists>ys T. m l = Some ys \<and> t \<in> set ys \<and> timeouts s t = Some T \<and> idleStart T' = idleStart T) \<or>
         (\<exists>x. idleStart T' = Some x \<and> (now \<le> libuvNow s \<longrightarrow> now < x + msecs (timersLists s' l))))"
    and kept: "\<And>l. l \<in> dom m \<Longrightarrow> l \<in> dom m' \<Longrightarrow> msecs (timersLists s' l) = msecs (timersLists s l) \<and>
        expiry (timersLists s' l) = expiry (timersLists s l) \<and> list_id (timersLists s' l) = list_id (timersLists s l)"
    and new: "\<And>l. l \<in> dom m' \<Longrightarrow> l \<notin> dom m \<Longrightarrow> nextObject s \<le> l \<and> (now \<le> libuvNow s \<longrightarrow> now < expiry (timersLists s' l))"
    and rest: "libuvNow s \<le> libuvNow s'" "nextObject s \<le> nextObject s'"
  shows "timers_inv s' m' \<and> evolves now s m s' m'"
proof -
  note d = timers_invD [OF inv]
  have same: "msecs (timersLists s' l) = msecs (timersLists s l)" if "m' l = Some xs" "m l = Some ys" for l xs ys
    using kept [of l] that by auto
  have "item_ok s' l x" if l: "m' l = Some xs" "x \<in> set xs" for l xs x
  proof (cases "x = t")
    case False
    then obtain ys where "m l = Some ys" "x \<in> set ys" using others [OF l] by blast
    then show ?thesis using d(2) same [OF l(1)] False by (auto simp: items_ok_def item_ok_def T)
  qed (use listed l in auto)
  moreover have "timeout_ok U" if "timeouts s' x = Some U" for x U
    using that d(3) [of x U] ok T by (simp split: if_splits)
  ultimately have result: "timers_inv s' m'"
    using links refs_upd [OF d(4) T refs] by (auto simp: timers_inv_def items_ok_def)
  have "due s' m' now \<subseteq> due s m now" if now: "now \<le> libuvNow s"
  proof
    fix x assume "x \<in> due s' m' now"
    then obtain l xs U u where x: "m' l = Some xs" "x \<in> set xs" "timeouts s' x = Some U" "idleStart U = Some u"
      "u + msecs (timersLists s' l) \<le> now" by (auto simp: due_def)
    show "x \<in> due s m now"
    proof (cases "x = t")
      case False
      then obtain ys where "m l = Some ys" "x \<in> set ys" using others [OF x(1,2)] by blast
      then show ?thesis using x same [OF x(1)] False T by (auto simp: due_def)
    next
      case True
      then have U: "U = T'" using x(3) T by simp
      then obtain ys V where "m l = Some ys" "t \<in> set ys" "timeouts s t = Some V" "idleStart T' = idleStart V"
        using listed [OF x(1)] x True now by force
      then show ?thesis using x same [OF x(1)] True U by (auto simp: due_def)
    qed
  qed
  moreover have "t < nextObject s \<Longrightarrow> timeouts s t \<noteq> None" using fresh by auto
  ultimately have "evolves now s m s' m'" using rest kept new same_repeat by (auto simp: evolves_def T)
  then show ?thesis using result by blast
qed

lemma active_iff: "timeouts s t = Some T \<Longrightarrow> t \<in> actives (timeouts s) \<longleftrightarrow> timer_active T"
  by (simp add: actives_def)

text \<open>A change of a timer that its place in the lists does not depend on.\<close>

lemma upd_step:
  assumes "timeouts s t = Some T" "timeouts s' = (timeouts s)(t \<mapsto> T')"
    "\<And>m. links_inv s' m \<longleftrightarrow> links_inv s m"
    "timeoutInfo s' = timeoutInfo s + of_bool (timer_active T') - of_bool (timer_active T)"
    "timeout_ok T \<Longrightarrow> timeout_ok T'" "destroyed T' = destroyed T" "idleTimeout T' = idleTimeout T" "idleStart T' = idleStart T"
    "repeat T' = repeat T" "timersLists s' = timersLists s" "libuvNow s' = libuvNow s" "nextObject s' = nextObject s" "quiet s s'"
  shows "inv_step now s s'"
  unfolding inv_step_def
proof (intro conjI allI impI)
  show "quiet s s'" by fact
next
  fix m assume m: "timers_inv s m"
  note d = timers_invD [OF m]
  have listed: "item_ok s' l t \<and> (\<exists>ys T. m l = Some ys \<and> t \<in> set ys \<and> timeouts s t = Some T \<and> idleStart T' = idleStart T)"
    if "m l = Some xs" "t \<in> set xs" for l xs
  proof -
    have "item_ok s l t" using d(2) that by (simp add: items_ok_def)
    then show ?thesis using that assms by (auto simp: item_ok_def)
  qed
  have "timers_inv s' m \<and> evolves now s m s' m"
    using timer_step [OF m assms(2), of m now] listed assms d(1) d(3) [OF assms(1)] active_iff [OF assms(1)] by auto
  then show "\<exists>m'. timers_inv s' m' \<and> evolves now s m s' m'" by blast
qed

subsection \<open>Scheduling\<close>

lemma moved_items:
  assumes "moved m m' l t" "m' k = Some xs" "x \<in> set xs"
  shows "x = t \<and> k = l \<or> x \<noteq> t \<and> (\<exists>ys. m k = Some ys \<and> x \<in> set ys)"
  using assms by (cases "k = l") (auto simp: moved_def split: option.splits)

lemma moved_dom: "moved m m' l t \<Longrightarrow> dom m' = insert l (dom m)"
  by (auto simp: moved_def dom_def)

lemma insert_step:
  assumes inv: "timers_inv s m" and t: "timeouts s t = Some T" and ms: "1 \<le> MathTrunc ms"
    and start: "now \<le> libuvNow s \<Longrightarrow> now \<le> (case start of None \<Rightarrow> libuvNow s | Some x \<Rightarrow> x)"
  obtains s1 where "insert_timer t ms start s = Inr s1" "other_fields s1 = other_fields s" "timeoutInfo s1 = timeoutInfo s"
    "timeouts s1 = (timeouts s)(t \<mapsto> T\<lparr>idleStart := Some (case start of None \<Rightarrow> libuvNow s | Some x \<Rightarrow> x)\<rparr>)"
    "\<And>s' T'. (\<And>m'. links_inv s' m' \<longleftrightarrow> links_inv s1 m') \<Longrightarrow> timersLists s' = timersLists s1 \<Longrightarrow> nextObject s' = nextObject s1 \<Longrightarrow>
      timeouts s' = (timeouts s1)(t \<mapsto> T') \<Longrightarrow> timeout_ok T' \<Longrightarrow> \<not> destroyed T' \<Longrightarrow>
      MathTrunc (idleTimeout T') = MathTrunc ms \<Longrightarrow> idleStart T' = Some (case start of None \<Rightarrow> libuvNow s | Some x \<Rightarrow> x) \<Longrightarrow>
      timeoutInfo s' = timeoutInfo s + of_bool (timer_active T') - of_bool (timer_active T) \<Longrightarrow> repeat T' = repeat T \<Longrightarrow>
      libuvNow s' = libuvNow s \<Longrightarrow>
      \<exists>m'. timers_inv s' m' \<and> evolves now s m s' m'"
proof -
  note d = timers_invD [OF inv]
  let ?start = "case start of None \<Rightarrow> libuvNow s | Some x \<Rightarrow> x" and ?k = "MathTrunc ms"
  obtain s1 m1 l where i: "insert_timer t ms start s = Inr s1" "links_inv s1 m1" "timerListMap s1 ?k = Some l"
    "moved m m1 l t" "timeouts s1 = (timeouts s)(t \<mapsto> T\<lparr>idleStart := Some ?start\<rparr>)"
    "timeoutInfo s1 = timeoutInfo s" "other_fields s1 = other_fields s" "kept_lists m s s1"
    "m l = None \<Longrightarrow> expiry (timersLists s1 l) = ?start + ?k \<and> l = nextObject s" "nextObject s \<le> nextObject s1"
    using insert_timer_inv [OF d(1) t ms] by metis
  have k: "msecs (timersLists s1 l) = ?k" using links_invD(3) [OF i(2,3)] by blast
  have "\<exists>m'. timers_inv s' m' \<and> evolves now s m s' m'"
    if s': "\<And>m'. links_inv s' m' \<longleftrightarrow> links_inv s1 m'" "timersLists s' = timersLists s1" "nextObject s' = nextObject s1"
      "timeouts s' = (timeouts s1)(t \<mapsto> T')" "timeout_ok T'" "\<not> destroyed T'" "MathTrunc (idleTimeout T') = ?k"
      "idleStart T' = Some ?start" "timeoutInfo s' = timeoutInfo s + of_bool (timer_active T') - of_bool (timer_active T)"
      "repeat T' = repeat T" "libuvNow s' = libuvNow s" for s' T'
  proof -
    have T': "timeouts s' = (timeouts s)(t \<mapsto> T')" using s'(4) i(5) by simp
    have item: "item_ok s' l t" using s' k T' by (simp add: item_ok_def)
    have later: "now \<le> libuvNow s \<Longrightarrow> now < ?start + ?k" using start ms by simp
    have "timers_inv s' m1 \<and> evolves now s m s' m1"
    proof (rule timer_step [OF inv T'])
      show "links_inv s' m1" using s'(1) i(2) by simp
      show "timeout_ok T'" by fact
      show "repeat T' = repeat U" if "timeouts s t = Some U" for U using that t s'(10) by simp
      show "nextObject s \<le> t" if "timeouts s t = None" using that t by simp
      show "timeoutInfo s' = timeoutInfo s + of_bool (timer_active T') - of_bool (t \<in> actives (timeouts s))"
        using s'(9) active_iff [OF t] by simp
      show "\<exists>ys. m j = Some ys \<and> x \<in> set ys" if "m1 j = Some xs" "x \<in> set xs" "x \<noteq> t" for j xs x
        using moved_items [OF i(4) that(1,2)] that(3) by simp
      show "item_ok s' j t \<and>
        ((\<exists>ys T. m j = Some ys \<and> t \<in> set ys \<and> timeouts s t = Some T \<and> idleStart T' = idleStart T) \<or>
         (\<exists>x. idleStart T' = Some x \<and> (now \<le> libuvNow s \<longrightarrow> now < x + msecs (timersLists s' j))))"
        if "m1 j = Some xs" "t \<in> set xs" for j xs
        using moved_items [OF i(4) that] item s'(2,8) k later by auto
      show "msecs (timersLists s' j) = msecs (timersLists s j) \<and> expiry (timersLists s' j) = expiry (timersLists s j) \<and>
        list_id (timersLists s' j) = list_id (timersLists s j)" if "j \<in> dom m" "j \<in> dom m1" for j
        using i(8) that(1) s'(2) by (simp add: kept_lists_def)
      show "nextObject s \<le> j \<and> (now \<le> libuvNow s \<longrightarrow> now < expiry (timersLists s' j))" if "j \<in> dom m1" "j \<notin> dom m" for j
        using moved_dom [OF i(4)] that i(9) later s'(2) by (auto simp: domIff)
      show "libuvNow s \<le> libuvNow s'" "nextObject s \<le> nextObject s'" using s' i(10) by simp_all
    qed
    then show ?thesis by blast
  qed
  then show ?thesis using i by (intro that [of s1]) simp_all
qed

lemma links_inv_fields:
  assumes "idleNext s' = idleNext s" "idlePrev s' = idlePrev s" "timerListMap s' = timerListMap s"
    "timersLists s' = timersLists s" "timerListQueue s' = timerListQueue s" "timerListId s' = timerListId s"
    "nextObject s' = nextObject s" "dom (timeouts s') = dom (timeouts s)"
  shows "links_inv s' = links_inv s"
  by (intro ext links_inv_cong assms)

text \<open>What the operations that do not touch the lists keep.\<close>

definition same_lists :: "timers \<Rightarrow> timers \<Rightarrow> bool" where
  "same_lists s s' \<longleftrightarrow> links_inv s' = links_inv s \<and> timersLists s' = timersLists s \<and> nextObject s' = nextObject s \<and>
     libuvNow s' = libuvNow s \<and> quiet s s'"

lemma same_lists_refl [simp]: "same_lists s s"
  by (simp add: same_lists_def)

lemma same_lists_trans [trans]: "same_lists s s1 \<Longrightarrow> same_lists s1 s2 \<Longrightarrow> same_lists s s2"
  using quiet_trans by (auto simp: same_lists_def)

lemma same_lists_upd [simp]: "same_lists s (upd_timeout t f s)"
  using other_fieldsD [OF upd_timeout_fields(10) [of t f s]] by (simp add: same_lists_def fun_eq_iff)

lemma same_lists_refcount [simp]: "same_lists s (incRefCount s)" "same_lists s (decRefCount s)"
  unfolding same_lists_def quiet_def
  by (auto simp: incRefCount_def decRefCount_def log_call_def Let_def intro!: links_inv_fields)

lemma refcount_fields [simp]:
  "timeouts (incRefCount s) = timeouts s" "timeoutInfo (incRefCount s) = timeoutInfo s + 1"
  "timeouts (decRefCount s) = timeouts s" "timeoutInfo (decRefCount s) = timeoutInfo s - 1"
  by (simp_all add: incRefCount_def decRefCount_def log_call_def Let_def)

lemma timeouts_initAsyncResource:
  assumes "timeouts s t = Some T"
  obtains i tr where "timeouts (initAsyncResource t type s) =
    (timeouts s)(t \<mapsto> T\<lparr>timer_async_id := i, timer_trigger_id := tr, timer_frame := currentFrame s\<rparr>)"
proof -
  obtain i a where "newAsyncId (asyncFields s) = (i, a)" by (metis surj_pair)
  then show ?thesis using assms
    by (intro that [of "getDefaultTriggerAsyncId a" i]) (simp add: initAsyncResource_def Let_def upd_timeout_def)
qed

lemma async_context_new [simp]: "newAsyncId a = (i, a') \<Longrightarrow> async_context a' = async_context a"
  by (auto simp: newAsyncId_def async_context_def Let_def)

lemma initAsyncResource_fields [simp]:
  "timeoutInfo (initAsyncResource t type s) = timeoutInfo s" "same_lists s (initAsyncResource t type s)"
proof -
  obtain i a where a: "newAsyncId (asyncFields s) = (i, a)" by (metis surj_pair)
  show "timeoutInfo (initAsyncResource t type s) = timeoutInfo s"
    using a by (simp add: initAsyncResource_def Let_def)
  have "links_inv (initAsyncResource t type s) = links_inv (upd_timeout t f s)" for f
    using a by (intro links_inv_fields) (simp_all add: initAsyncResource_def Let_def)
  also have "links_inv (upd_timeout t id s) = links_inv s" by (simp add: fun_eq_iff)
  finally show "same_lists s (initAsyncResource t type s)"
    using a other_fieldsD [OF upd_timeout_fields(10)]
    by (simp add: same_lists_def) (simp add: initAsyncResource_def Let_def async_simps quiet_def)
qed

lemma insertGuarded_step:
  assumes "timers_inv s m"
  obtains s' m' where "insertGuarded t rf s = Inr s'" "timers_inv s' m'" "evolves now s m s' m'" "quiet s s'"
proof (cases "\<exists>T. timeouts s t = Some T \<and> 0 \<le> idleTimeout T")
  case False
  then have "insertGuarded t rf s = Inr s" by (auto simp: insertGuarded_def split: option.split)
  then show ?thesis using assms evolves_refl by (intro that) auto
next
  case True
  then obtain T where T: "timeouts s t = Some T" "0 \<le> idleTimeout T" by blast
  have ok: "timeout_ok T" using timers_invD(3) [OF assms T(1)] .
  then have one: "1 \<le> idleTimeout T" using T(2) by (auto simp: timeout_ok_def)
  obtain s1 where s1: "insert_timer t (idleTimeout T) None s = Inr s1" "other_fields s1 = other_fields s"
    "timeoutInfo s1 = timeoutInfo s" "timeouts s1 = (timeouts s)(t \<mapsto> T\<lparr>idleStart := Some (libuvNow s)\<rparr>)"
    and fin: "\<And>s' T'. (\<And>m'. links_inv s' m' \<longleftrightarrow> links_inv s1 m') \<Longrightarrow> timersLists s' = timersLists s1 \<Longrightarrow> nextObject s' = nextObject s1 \<Longrightarrow>
      timeouts s' = (timeouts s1)(t \<mapsto> T') \<Longrightarrow> timeout_ok T' \<Longrightarrow> \<not> destroyed T' \<Longrightarrow>
      MathTrunc (idleTimeout T') = MathTrunc (idleTimeout T) \<Longrightarrow> idleStart T' = Some (libuvNow s) \<Longrightarrow>
      timeoutInfo s' = timeoutInfo s + of_bool (timer_active T') - of_bool (timer_active T) \<Longrightarrow> repeat T' = repeat T \<Longrightarrow>
      libuvNow s' = libuvNow s \<Longrightarrow>
      \<exists>m'. timers_inv s' m' \<and> evolves now s m s' m'"
    by (rule insert_step [OF assms T(1) MathTrunc_ge_1 [OF one], of now None]) auto
  define s2 where "s2 = (if destroyed T \<or> timer_async_id T = 0
      then initAsyncResource t ''Timeout'' (upd_timeout t (\<lambda>T. T\<lparr>destroyed := False\<rparr>) s1) else s1)"
  define s3 where "s3 = (if destroyed T then (if rf then incRefCount s2 else s2)
      else if rf \<noteq> refed T then (if rf then incRefCount s2 else decRefCount s2) else s2)"
  define s' where "s' = upd_timeout t (\<lambda>T. T\<lparr>refed := rf\<rparr>) s3"
  have run: "insertGuarded t rf s = Inr s'"
    using T s1(1) by (simp add: insertGuarded_def Let_def s2_def s3_def s'_def)
  have "same_lists s1 s2"
    unfolding s2_def by (auto intro: same_lists_trans [OF same_lists_upd initAsyncResource_fields(2)])
  moreover have "same_lists s2 s3" by (simp add: s3_def)
  ultimately have same: "same_lists s1 s'" unfolding s'_def by (blast intro: same_lists_trans same_lists_upd)
  obtain T2 where T2: "timeouts s2 = (timeouts s1)(t \<mapsto> T2)" "idleTimeout T2 = idleTimeout T" "idleStart T2 = Some (libuvNow s)"
    "\<not> destroyed T2" "onTimeout T2 = onTimeout T" "repeat T2 = repeat T"
  proof (cases "destroyed T \<or> timer_async_id T = 0")
    case True
    have u: "timeouts (upd_timeout t (\<lambda>T. T\<lparr>destroyed := False\<rparr>) s1) t = Some (T\<lparr>idleStart := Some (libuvNow s), destroyed := False\<rparr>)"
      by (simp add: upd_timeout_def s1(4))
    obtain i tr where "timeouts s2 = (timeouts (upd_timeout t (\<lambda>T. T\<lparr>destroyed := False\<rparr>) s1))
        (t \<mapsto> T\<lparr>idleStart := Some (libuvNow s), destroyed := False, timer_async_id := i, timer_trigger_id := tr,
           timer_frame := currentFrame (upd_timeout t (\<lambda>T. T\<lparr>destroyed := False\<rparr>) s1)\<rparr>)"
      using timeouts_initAsyncResource [OF u, of "''Timeout''"] True unfolding s2_def by (simp add: s1(4)) blast
    then show ?thesis
      by (intro that [of "T\<lparr>idleStart := Some (libuvNow s), destroyed := False, timer_async_id := i, timer_trigger_id := tr,
           timer_frame := currentFrame (upd_timeout t (\<lambda>T. T\<lparr>destroyed := False\<rparr>) s1)\<rparr>"])
        (simp_all add: upd_timeout_def)
  next
    case False
    then show ?thesis using s1(4) by (intro that [of "T\<lparr>idleStart := Some (libuvNow s)\<rparr>"]) (auto simp: s2_def)
  qed
  have ts: "timeouts s' = (timeouts s1)(t \<mapsto> T2\<lparr>refed := rf\<rparr>)"
    using T2(1) by (auto simp: s'_def s3_def upd_timeout_def)
  have "timeoutInfo s2 = timeoutInfo s" by (simp add: s2_def s1(3))
  then have "timeoutInfo s' = timeoutInfo s + of_bool (timer_active (T2\<lparr>refed := rf\<rparr>)) - of_bool (timer_active T)"
    using T2(4) by (auto simp: s'_def s3_def timer_active_def)
  moreover have "timeout_ok (T2\<lparr>refed := rf\<rparr>)" using ok T2 one by (auto simp: timeout_ok_def)
  ultimately have "\<exists>m'. timers_inv s' m' \<and> evolves now s m s' m'"
    using same ts T2 other_fieldsD [OF s1(2)] by (intro fin [of s' "T2\<lparr>refed := rf\<rparr>"]) (auto simp: same_lists_def)
  moreover have "quiet s s'" using same quiet_trans [OF other_fieldsD(4) [OF s1(2)], of s'] by (simp add: same_lists_def)
  ultimately show ?thesis using run that by blast
qed

lemma timeout_refresh_step:
  assumes "timers_inv s m"
  obtains s' m' where "timeout_refresh t s = Inr s'" "timers_inv s' m'" "evolves now s m s' m'" "quiet s s'"
proof (cases "timeouts s t")
  case None
  then show ?thesis using assms evolves_refl by (intro that [of s m]) (simp_all add: timeout_refresh_def)
next
  case (Some T)
  then have "timeout_refresh t s = insertGuarded t (refed T) s"
    by (simp add: timeout_refresh_def active_def unrefActive_def)
  then show ?thesis using insertGuarded_step [OF assms, of t "refed T" now] that by metis
qed

lemma ref_step: "inv_step now s (timeout_ref t s)" "inv_step now s (timeout_unref t s)"
proof -
  have "inv_step now s (timeout_ref t s) \<and> inv_step now s (timeout_unref t s)"
  proof (cases "timeouts s t")
    case (Some T)
    have e: "links_inv (incRefCount s0) m = links_inv s0 m" "links_inv (decRefCount s0) m = links_inv s0 m" for s0 m
      using same_lists_refcount [of s0] by (simp_all add: same_lists_def)
    have r: "timersLists (incRefCount s0) = timersLists s0" "libuvNow (incRefCount s0) = libuvNow s0"
      "nextObject (incRefCount s0) = nextObject s0" "asyncFields (incRefCount s0) = asyncFields s0"
      "timersLists (decRefCount s0) = timersLists s0" "libuvNow (decRefCount s0) = libuvNow s0"
      "nextObject (decRefCount s0) = nextObject s0" "asyncFields (decRefCount s0) = asyncFields s0" for s0
      by (auto simp: incRefCount_def decRefCount_def log_call_def Let_def)
    note o = other_fieldsD [OF upd_timeout_fields(10)]
    have q: "quiet s (incRefCount s0)" "quiet s (decRefCount s0)" if "quiet s s0" for s0
      using that same_lists_refcount [of s0] quiet_trans by (auto simp: same_lists_def)
    have "inv_step now s (timeout_ref t s)" if "\<not> refed T"
      by (rule upd_step [OF Some, of _ "T\<lparr>refed := True\<rparr>"])
        (use Some that in \<open>auto simp: timeout_ref_def Let_def e r o q timeouts_upd [OF Some] timer_active_def timeout_ok_def\<close>)
    moreover have "inv_step now s (timeout_unref t s)" if "refed T"
      by (rule upd_step [OF Some, of _ "T\<lparr>refed := False\<rparr>"])
        (use Some that in \<open>auto simp: timeout_unref_def Let_def e r o q timeouts_upd [OF Some] timer_active_def timeout_ok_def\<close>)
    moreover have "\<not> refed T \<Longrightarrow> timeout_unref t s = s" "refed T \<Longrightarrow> timeout_ref t s = s"
      using Some by (simp_all add: timeout_ref_def timeout_unref_def)
    ultimately show ?thesis by (cases "refed T") simp_all
  qed (simp add: timeout_ref_def timeout_unref_def)
  then show "inv_step now s (timeout_ref t s)" "inv_step now s (timeout_unref t s)" by blast+
qed

lemma links_inv_known [simp]: "links_inv (s\<lparr>knownTimersById := k\<rparr>) = links_inv s"
  by (rule links_inv_fields) simp_all

lemma toPrimitive_step: "inv_step now s (snd (timeout_toPrimitive t s))"
proof (cases "timeouts s t")
  case (Some T)
  note o = other_fieldsD [OF upd_timeout_fields(10)]
  have "inv_step now s (snd (timeout_toPrimitive t s))" if "\<not> hasPrimitive T"
    by (rule upd_step [OF Some, of _ "T\<lparr>hasPrimitive := True\<rparr>"])
      (use Some that in \<open>auto simp: quiet_def timeout_toPrimitive_def o timeouts_upd [OF Some] timer_active_def timeout_ok_def\<close>)
  then show ?thesis using Some by (cases "hasPrimitive T") (auto simp: timeout_toPrimitive_def)
qed (simp add: timeout_toPrimitive_def)

lemma time_step: "inv_step now s (s\<lparr>libuvNow := libuvNow s + int d\<rparr>)"
  unfolding inv_step_def
proof (intro conjI allI impI)
  show "quiet s (s\<lparr>libuvNow := libuvNow s + int d\<rparr>)" by (simp add: quiet_def)
next
  fix m assume m: "timers_inv s m"
  have "links_inv (s\<lparr>libuvNow := libuvNow s + int d\<rparr>) = links_inv s" by (rule links_inv_fields) simp_all
  then have "timers_inv (s\<lparr>libuvNow := libuvNow s + int d\<rparr>) m"
    using m by (simp add: timers_inv_def items_ok_def item_ok_def refs_ok_def)
  then show "\<exists>m'. timers_inv (s\<lparr>libuvNow := libuvNow s + int d\<rparr>) m' \<and> evolves now s m (s\<lparr>libuvNow := libuvNow s + int d\<rparr>) m'"
    by (intro exI [of _ m]) (auto simp: evolves_def due_def)
qed

subsection \<open>New timers\<close>

lemma timeout_duration_fields:
  assumes "timeout_duration after s = (r, s')"
  shows "1 \<le> r" "timer_fields (s'\<lparr>warnedNegativeNumber := warnedNegativeNumber s, warnedNotNumber := warnedNotNumber s\<rparr>) = timer_fields s"
    "idleNext s' = idleNext s" "idlePrev s' = idlePrev s"
  using assms unfolding timeout_duration_def log_call_def timer_fields_def other_fields_def
  by (auto split: option.splits jsnum.splits if_splits)

lemma new_Timeout_step:
  assumes "timers_inv s m" "new_Timeout f after args isRepeat isRefed s = (t, s')"
  obtains T m' where "timers_inv s' m'" "evolves now s m s' m'" "quiet s s'" "timeouts s' t = Some T"
    "1 \<le> idleTimeout T" "\<not> destroyed T" "onTimeout T = Some f" "libuvNow s' = libuvNow s" "m' = m"
proof -
  obtain r s1 where dur: "timeout_duration after s = (r, s1)" by (metis surj_pair)
  note tf = timeout_duration_fields [OF dur]
  have f1: "timeouts s1 = timeouts s" "timersLists s1 = timersLists s" "timerListMap s1 = timerListMap s"
    "timerListQueue s1 = timerListQueue s" "timerListId s1 = timerListId s" "timeoutInfo s1 = timeoutInfo s"
    "nextObject s1 = nextObject s" "libuvNow s1 = libuvNow s" "asyncFields s1 = asyncFields s" "calledTimers s1 = calledTimers s"
    using tf(2) by (simp_all add: timer_fields_def other_fields_def)
  define T0 where "T0 = \<lparr>idleTimeout = r, idleStart = None, onTimeout = Some f, timerArgs = args,
                 repeat = (if isRepeat then Some r else None), destroyed = False, refed = isRefed,
                 hasPrimitive = False, timer_async_id = 0, timer_trigger_id = Some 0, timer_frame = 0\<rparr>"
  define s2 where "s2 = L_init (nextObject s) (s1\<lparr>nextObject := nextObject s + 1\<rparr>)"
  define s3 where "s3 = s2\<lparr>timeouts := (timeouts s2)(nextObject s \<mapsto> T0)\<rparr>"
  define s4 where "s4 = (if isRefed then incRefCount s3 else s3)"
  have t: "t = nextObject s" and s': "s' = initAsyncResource t ''Timeout'' s4"
    using assms(2) dur f1(7) by (auto simp: new_Timeout_def Let_def s2_def s3_def s4_def T0_def)
  note d = timers_invD [OF assms(1)] and l = links_invD [OF timers_invD(1) [OF assms(1)]]
  have fresh: "timeouts s t = None" "t \<notin> dom m" "\<not> in_lists m t"
  proof -
    show n: "timeouts s t = None" using l(6) [of t] t by (cases "timeouts s t") auto
    show o: "t \<notin> dom m" using l(5) [of t] t by auto
    show "\<not> in_lists m t" using l(4) [of _ _ t] n o by (auto simp: in_lists_def domIff)
  qed
  have f2: "timeouts s2 = timeouts s" "timersLists s2 = timersLists s" "timerListMap s2 = timerListMap s"
    "timerListQueue s2 = timerListQueue s" "timerListId s2 = timerListId s" "timeoutInfo s2 = timeoutInfo s"
    "nextObject s2 = t + 1" "libuvNow s2 = libuvNow s" "asyncFields s2 = asyncFields s" "calledTimers s2 = calledTimers s"
    using f1 t by (simp_all add: s2_def L_init_def set_next_def set_prev_def)
  have nx: "idleNext s2 = (idleNext s)(t := Some t)" "idlePrev s2 = (idlePrev s)(t := Some t)"
    using tf(3,4) t by (simp_all add: s2_def L_init_def)
  have "lists_ok s2 m"
  proof -
    have same: "idleNext s2 y = idleNext s y \<and> idlePrev s2 y = idlePrev s y" if "y \<noteq> t" for y using that nx by simp
    have "ring s2 i xs" if i: "m i = Some xs" for i xs
    proof -
      have "y \<noteq> t" if "y \<in> set (i # xs)" for y using in_listsI [of m i xs y] i that fresh(3) by blast
      then show ?thesis using lists_ok_ring [OF l(1) i] same by (subst ring_cong [of _ _ _ s]) blast+
    qed
    moreover have "detached s2 y" if "\<not> in_lists m y" for y
      using lists_ok_detached [OF l(1) that] same [of y] nx by (cases "y = t") (auto simp: detached_def)
    ultimately show ?thesis using lists_ok_same [OF l(1)] unfolding lists_ok_def by metis
  qed
  then have "lists_ok s3 m" by (subst lists_ok_links [of _ s2]) (simp_all add: s3_def)
  moreover have f3: "timeouts s3 = (timeouts s)(t \<mapsto> T0)" "timersLists s3 = timersLists s" "timerListMap s3 = timerListMap s"
    "timerListQueue s3 = timerListQueue s" "timerListId s3 = timerListId s" "timeoutInfo s3 = timeoutInfo s"
    "nextObject s3 = t + 1" "libuvNow s3 = libuvNow s" "asyncFields s3 = asyncFields s" "calledTimers s3 = calledTimers s"
    using f2 t by (simp_all add: s3_def)
  moreover have "x < nextObject s" if "timeouts s x = Some U" for x U using l(6) [of x] that by blast
  ultimately have "links_inv s3 m"
    unfolding links_inv_def f3 using l fresh t by (intro conjI ballI allI impI) (auto simp: less_Suc_eq dest: l(4-6))
  moreover have same: "same_lists s3 s'"
    unfolding s' s4_def by (auto intro: same_lists_trans [OF same_lists_refcount(1) initAsyncResource_fields(2)])
  ultimately have links: "links_inv s' m" by (simp add: same_lists_def)
  have "timeouts s4 t = Some T0" by (simp add: s4_def f3)
  then obtain i tr where ts: "timeouts s' = (timeouts s4)(t \<mapsto>
      T0\<lparr>timer_async_id := i, timer_trigger_id := tr, timer_frame := currentFrame s4\<rparr>)"
    unfolding s' by (rule timeouts_initAsyncResource)
  define T where "T = T0\<lparr>timer_async_id := i, timer_trigger_id := tr, timer_frame := currentFrame s4\<rparr>"
  have ts': "timeouts s' = (timeouts s)(t \<mapsto> T)" using ts by (simp add: s4_def f3 T_def)
  have T: "1 \<le> idleTimeout T" "\<not> destroyed T" "onTimeout T = Some f" "refed T = isRefed" "timeout_ok T"
    using tf(1) by (auto simp: T_def T0_def timeout_ok_def)
  have "t \<notin> actives (timeouts s)" using fresh(1) by (simp add: actives_def)
  moreover have "timeoutInfo s' = timeoutInfo s + of_bool isRefed" by (simp add: s' s4_def f3)
  ultimately have refs: "timeoutInfo s' = timeoutInfo s + of_bool (timer_active T) - of_bool (t \<in> actives (timeouts s))"
    using T by (simp add: timer_active_def)
  have sf: "timersLists s' = timersLists s" "nextObject s' = t + 1" "libuvNow s' = libuvNow s"
    "quiet s s'"
    using same f3 by (simp_all add: same_lists_def quiet_def)
  have "timers_inv s' m \<and> evolves now s m s' m"
  proof (rule timer_step [OF assms(1) ts' links refs T(5)])
    show "repeat T = repeat U" if "timeouts s t = Some U" for U using that fresh(1) by simp
    show "nextObject s \<le> t" by (simp add: t)
    show "item_ok s' j t \<and> ((\<exists>ys T'. m j = Some ys \<and> t \<in> set ys \<and> timeouts s t = Some T' \<and> idleStart T = idleStart T') \<or>
      (\<exists>x. idleStart T = Some x \<and> (now \<le> libuvNow s \<longrightarrow> now < x + msecs (timersLists s' j))))"
      if "m j = Some xs" "t \<in> set xs" for j xs using in_listsI [of m j xs t] that fresh(3) by simp
  qed (use sf t in auto)
  then show ?thesis using T sf ts' by (intro that [of m T]) auto
qed

lemma insert_new_step:
  assumes "timers_inv s m" "timeouts s t = Some T" "1 \<le> idleTimeout T" "\<not> destroyed T"
  obtains s' m' where "insert_timer t (idleTimeout T) None s = Inr s'" "timers_inv s' m'" "evolves now s m s' m'"
    "quiet s s'"
proof -
  obtain s1 where s1: "insert_timer t (idleTimeout T) None s = Inr s1" "other_fields s1 = other_fields s"
    "timeoutInfo s1 = timeoutInfo s" "timeouts s1 = (timeouts s)(t \<mapsto> T\<lparr>idleStart := Some (libuvNow s)\<rparr>)"
    and fin: "\<And>s' T'. (\<And>m'. links_inv s' m' \<longleftrightarrow> links_inv s1 m') \<Longrightarrow> timersLists s' = timersLists s1 \<Longrightarrow> nextObject s' = nextObject s1 \<Longrightarrow>
      timeouts s' = (timeouts s1)(t \<mapsto> T') \<Longrightarrow> timeout_ok T' \<Longrightarrow> \<not> destroyed T' \<Longrightarrow>
      MathTrunc (idleTimeout T') = MathTrunc (idleTimeout T) \<Longrightarrow> idleStart T' = Some (libuvNow s) \<Longrightarrow>
      timeoutInfo s' = timeoutInfo s + of_bool (timer_active T') - of_bool (timer_active T) \<Longrightarrow> repeat T' = repeat T \<Longrightarrow>
      libuvNow s' = libuvNow s \<Longrightarrow>
      \<exists>m'. timers_inv s' m' \<and> evolves now s m s' m'"
    by (rule insert_step [OF assms(1,2) MathTrunc_ge_1 [OF assms(3)], of now None]) auto
  have "timeout_ok (T\<lparr>idleStart := Some (libuvNow s)\<rparr>)"
    using timers_invD(3) [OF assms(1,2)] by (simp add: timeout_ok_def)
  then have "\<exists>m'. timers_inv s1 m' \<and> evolves now s m s1 m'"
    using s1 assms(4) other_fieldsD [OF s1(2)]
    by (intro fin [of s1 "T\<lparr>idleStart := Some (libuvNow s)\<rparr>"]) (auto simp: timer_active_def)
  then show ?thesis using s1(1) other_fieldsD(4) [OF s1(2)] that by blast
qed

lemma new_and_insert_step:
  assumes "timers_inv s m" "new_Timeout f after args isRepeat isRefed s = (t, s1)"
  obtains s' m' where "insert_timer t (case timeouts s1 t of Some T \<Rightarrow> idleTimeout T | None \<Rightarrow> 0) None s1 = Inr s'"
    "timers_inv s' m'" "evolves now s m s' m'" "quiet s s'"
proof -
  obtain T where new: "timers_inv s1 m" "evolves now s m s1 m" "quiet s s1" "timeouts s1 t = Some T"
    "1 \<le> idleTimeout T" "\<not> destroyed T"
    using new_Timeout_step [OF assms, of now] by metis
  obtain s' m' where "insert_timer t (idleTimeout T) None s1 = Inr s'" "timers_inv s' m'" "evolves now s1 m s' m'"
    "quiet s1 s'"
    using insert_new_step [OF new(1,4-6)] by blast
  moreover from this have "evolves now s m s' m'"
    using evolves_trans [OF new(2) _ timers_invD(1) [OF assms(1)]] by blast
  ultimately show ?thesis using new quiet_trans by (intro that [of s' m']) simp_all
qed

text \<open>A call that schedules fails only on its callback, and then before anything changed.\<close>

lemma schedule_step:
  assumes "timers_inv s m"
  shows "case schedule isRepeat f after args s of
      Inl e \<Rightarrow> (\<forall>i. f \<noteq> JFunction i) \<and> e = ERR_INVALID_ARG_TYPE ''callback'' ''Function''
    | Inr (t, s') \<Rightarrow> \<exists>m'. timers_inv s' m' \<and> evolves now s m s' m' \<and> quiet s s'"
proof (cases f)
  case (JFunction i)
  obtain t s1 where new: "new_Timeout i after (if args = [] then None else Some args) isRepeat True s = (t, s1)" by (metis surj_pair)
  show ?thesis
    using JFunction new
    by (rule_tac new_and_insert_step [OF assms new, of now]) (auto simp: schedule_def validateFunction_def)
qed (simp_all add: schedule_def validateFunction_def)

lemma setUnrefTimeout_step:
  assumes "timers_inv s m"
  shows "case setUnrefTimeout f after s of
      Inl e \<Rightarrow> (\<forall>i. f \<noteq> JFunction i) \<and> e = ERR_INVALID_ARG_TYPE ''callback'' ''Function''
    | Inr (t, s') \<Rightarrow> \<exists>m'. timers_inv s' m' \<and> evolves now s m s' m' \<and> quiet s s'"
proof (cases f)
  case (JFunction i)
  obtain t s1 where new: "new_Timeout i after None False False s = (t, s1)" by (metis surj_pair)
  show ?thesis
    using JFunction new
    by (rule_tac new_and_insert_step [OF assms new, of now]) (auto simp: setUnrefTimeout_def validateFunction_def)
qed (simp_all add: setUnrefTimeout_def validateFunction_def)

subsection \<open>Cancelling\<close>

lemma remove_more [simp]:
  fixes s :: timers
  shows "calledTimers (L_remove t s) = calledTimers s" "libuvNow (L_remove t s) = libuvNow s" "asyncFields (L_remove t s) = asyncFields s"
  using other_fieldsD [OF timer_fieldsD(9) [OF timer_fields_L(2)]] by blast+

lemma with_queue_more [simp]:
  "libuvNow (with_queue f s) = libuvNow s" "asyncFields (with_queue f s) = asyncFields s" "calledTimers (with_queue f s) = calledTimers s"
  by (simp_all add: with_queue_def split: prod.split)

lemma drop_empty_list_inv:
  assumes "links_inv s m"
  obtains m' where "links_inv (drop_empty_list k s) m'" "\<And>l. m' l = None \<or> m' l = m l"
    "kept_lists m s (drop_empty_list k s)" "timeouts (drop_empty_list k s) = timeouts s"
    "timeoutInfo (drop_empty_list k s) = timeoutInfo s" "other_fields (drop_empty_list k s) = other_fields s"
    "nextObject (drop_empty_list k s) = nextObject s"
proof (cases "\<exists>l. timerListMap s k = Some l \<and> L_isEmpty l s")
  case True
  then obtain l where l: "timerListMap s k = Some l" "L_isEmpty l s" by blast
  obtain xs where "m l = Some xs" using links_invD(2) [OF assms] l(1) by (metis domD ranI)
  then have ml: "m l = Some []" using lists_ok_isEmpty [OF links_invD(1) [OF assms]] l(2) by simp
  define s1 where "s1 = with_queue (\<lambda>cmp setp. removeAt cmp setp
       (case priorityQueuePosition (timersLists s l) of Some p \<Rightarrow> p | None \<Rightarrow> 0)) s"
  define s2 where "s2 = s1\<lparr>timerListMap := (timerListMap s1)(msecs (timersLists s1 l) := None)\<rparr>"
  have "drop_empty_list k s = s2" using l by (simp add: drop_empty_list_def s1_def s2_def Let_def)
  moreover have "nextObject s2 = nextObject s" by (simp add: s2_def s1_def)
  ultimately show ?thesis using unenroll_list_inv [OF assms l(1) ml s1_def s2_def] that [of "m(l := None)"] by auto
next
  case False
  then have "drop_empty_list k s = s" by (auto simp: drop_empty_list_def split: option.split)
  then show ?thesis using assms that [of m] by (simp add: kept_lists_def)
qed

lemma clear_instance_step:
  assumes inv: "timers_inv s m"
  obtains m' where "timers_inv (clear_instance t s) m'" "evolves now s m (clear_instance t s) m'"
    "quiet s (clear_instance t s)"
proof (cases "timeouts s t")
  case None
  then have "clear_instance t s = s" by (simp add: clear_instance_def unenroll_def upd_timeout_def fun_upd_idem)
  then show ?thesis using inv evolves_refl that by (metis quiet_refl)
next
  case (Some T)
  note d = timers_invD [OF inv] and o = other_fieldsD [OF upd_timeout_fields(10)]
  show ?thesis
  proof (cases "destroyed T")
    case True
    then have c: "clear_instance t s = upd_timeout t (\<lambda>T. T\<lparr>onTimeout := None\<rparr>) s"
      using Some by (simp add: clear_instance_def unenroll_def timeouts_upd [OF Some])
    have "inv_step now s (upd_timeout t (\<lambda>T. T\<lparr>onTimeout := None\<rparr>) s)"
      by (rule upd_step [OF Some timeouts_upd [OF Some]])
        (use Some True in \<open>auto simp: o timer_active_def timeout_ok_def\<close>)
    then show ?thesis using inv that c o by (auto simp: inv_step_def)
  next
    case False
    define s1 where "s1 = upd_timeout t (\<lambda>T. T\<lparr>destroyed := True\<rparr>) (upd_timeout t (\<lambda>T. T\<lparr>onTimeout := None\<rparr>) s)"
    define s2 where "s2 = (if hasPrimitive T then s1\<lparr>knownTimersById := (knownTimersById s1)(timer_async_id T := None)\<rparr> else s1)"
    define s3 where "s3 = L_remove t (s2\<lparr>asyncFields := emitDestroy (timer_async_id T) (asyncFields s2)\<rparr>)"
    define s4 where "s4 = (if refed T then decRefCount (drop_empty_list (MathTrunc (idleTimeout T)) s3) else s3)"
    define T' where "T' = T\<lparr>onTimeout := None, destroyed := True, idleTimeout := -1\<rparr>"
    have c: "clear_instance t s = upd_timeout t (\<lambda>T. T\<lparr>idleTimeout := -1\<rparr>) s4"
      using Some False
      unfolding s4_def s3_def s2_def s1_def clear_instance_def unenroll_def
      by (simp add: timeouts_upd [OF Some] Let_def)
    have ts1: "timeouts s1 = (timeouts s)(t \<mapsto> T\<lparr>onTimeout := None, destroyed := True\<rparr>)"
      using Some by (simp add: s1_def upd_timeout_def)
    then have ts3: "timeouts s3 = timeouts s1" by (simp add: s3_def s2_def)
    have f3: "timersLists s3 = timersLists s" "timeoutInfo s3 = timeoutInfo s" "nextObject s3 = nextObject s"
      "libuvNow s3 = libuvNow s" "async_context (asyncFields s3) = async_context (asyncFields s)" "calledTimers s3 = calledTimers s"
      by (simp_all add: s3_def s2_def s1_def o async_simps)
    have "links_inv (s2\<lparr>asyncFields := emitDestroy (timer_async_id T) (asyncFields s2)\<rparr>) m = links_inv s m"
      using d(1) Some by (intro links_inv_cong) (auto simp: s2_def s1_def upd_timeout_def)
    then have l3: "links_inv s3 (drop_item t m)"
      unfolding s3_def using d(1) ts1 by (intro links_inv_remove) (simp_all add: s2_def)
    obtain m' where m': "links_inv s4 m'" "\<And>l. m' l = None \<or> m' l = drop_item t m l" "kept_lists (drop_item t m) s3 s4"
      "timeouts s4 = timeouts s3" "timeoutInfo s4 = timeoutInfo s3 - of_bool (refed T)" "libuvNow s4 = libuvNow s3"
      "asyncFields s4 = asyncFields s3" "calledTimers s4 = calledTimers s3" "nextObject s4 = nextObject s3"
    proof (cases "refed T")
      case True
      obtain m' where m': "links_inv (drop_empty_list (MathTrunc (idleTimeout T)) s3) m'" "\<And>l. m' l = None \<or> m' l = drop_item t m l"
        "kept_lists (drop_item t m) s3 (drop_empty_list (MathTrunc (idleTimeout T)) s3)"
        "timeouts (drop_empty_list (MathTrunc (idleTimeout T)) s3) = timeouts s3"
        "timeoutInfo (drop_empty_list (MathTrunc (idleTimeout T)) s3) = timeoutInfo s3"
        "other_fields (drop_empty_list (MathTrunc (idleTimeout T)) s3) = other_fields s3"
        "nextObject (drop_empty_list (MathTrunc (idleTimeout T)) s3) = nextObject s3"
        using drop_empty_list_inv [OF l3, of "MathTrunc (idleTimeout T)"] by metis
      let ?s = "drop_empty_list (MathTrunc (idleTimeout T)) s3"
      have "same_lists ?s (decRefCount ?s)" "asyncFields (decRefCount ?s) = asyncFields ?s" "calledTimers (decRefCount ?s) = calledTimers ?s"
        by (simp_all, simp_all add: decRefCount_def log_call_def Let_def)
      then show ?thesis using m' True other_fieldsD [OF m'(6)]
        by (intro that [of m']) (simp_all add: s4_def same_lists_def kept_lists_def)
    next
      case False
      then show ?thesis using l3 by (intro that [of "drop_item t m"]) (simp_all add: s4_def kept_lists_def)
    qed
    have ts: "timeouts (clear_instance t s) = (timeouts s)(t \<mapsto> T')"
      using m'(4) ts3 ts1 by (simp add: c upd_timeout_def T'_def)
    have "timers_inv (clear_instance t s) m' \<and> evolves now s m (clear_instance t s) m'"
    proof (rule timer_step [OF inv ts])
      show "links_inv (clear_instance t s) m'" using m'(1) by (simp add: c)
      show "timeout_ok T'" using d(3) [OF Some] by (simp add: T'_def timeout_ok_def)
      show "repeat T' = repeat U" if "timeouts s t = Some U" for U using that Some by (simp add: T'_def)
      show "nextObject s \<le> t" if "timeouts s t = None" using that Some by simp
      show "timeoutInfo (clear_instance t s) = timeoutInfo s + of_bool (timer_active T') - of_bool (t \<in> actives (timeouts s))"
        using m'(5) f3(2) False active_iff [OF Some] by (simp add: c T'_def timer_active_def)
      have sub: "\<exists>ys. m j = Some ys \<and> xs = removeAll t ys" if "m' j = Some xs" for j xs
        using that m'(2) [of j] by (auto simp: drop_item_Some [symmetric])
      show "\<exists>ys. m j = Some ys \<and> x \<in> set ys" if "m' j = Some xs" "x \<in> set xs" "x \<noteq> t" for j xs x
        using sub [OF that(1)] that(2) by auto
      show "item_ok (clear_instance t s) j t \<and>
        ((\<exists>ys T. m j = Some ys \<and> t \<in> set ys \<and> timeouts s t = Some T \<and> idleStart T' = idleStart T) \<or>
         (\<exists>x. idleStart T' = Some x \<and> (now \<le> libuvNow s \<longrightarrow> now < x + msecs (timersLists (clear_instance t s) j))))"
        if "m' j = Some xs" "t \<in> set xs" for j xs
        using sub [OF that(1)] that(2) by auto
      show "msecs (timersLists (clear_instance t s) j) = msecs (timersLists s j) \<and>
        expiry (timersLists (clear_instance t s) j) = expiry (timersLists s j) \<and>
        list_id (timersLists (clear_instance t s) j) = list_id (timersLists s j)" if "j \<in> dom m" "j \<in> dom m'" for j
        using m'(3) that(1) f3(1) by (simp add: c kept_lists_def)
      show "nextObject s \<le> j \<and> (now \<le> libuvNow s \<longrightarrow> now < expiry (timersLists (clear_instance t s) j))"
        if "j \<in> dom m'" "j \<notin> dom m" for j using that sub [of j] by (cases "m' j") (auto simp: domIff)
      show "libuvNow s \<le> libuvNow (clear_instance t s)" "nextObject s \<le> nextObject (clear_instance t s)"
        using m' f3 by (simp_all add: c o)
    qed
    moreover have "quiet s (clear_instance t s)" using m' f3 by (simp add: c o quiet_def)
    ultimately show ?thesis using that by blast
  qed
qed

lemma clearTimeout_step: "timers_inv s m \<Longrightarrow> \<exists>m'. timers_inv (clearTimeout a s) m' \<and> evolves now s m (clearTimeout a s) m' \<and> quiet s (clearTimeout a s)"
  using evolves_refl [of now s m] clear_instance_step [of s m _ now]
  by (auto simp: clearTimeout_def split: timer_arg.split option.split)

subsection \<open>Any sequence of calls\<close>

lemma do_call_step:
  assumes "timers_inv s m"
  shows "case do_call c s of
      Inl e \<Rightarrow> e = ERR_INVALID_ARG_TYPE ''callback'' ''Function''
    | Inr s' \<Rightarrow> \<exists>m'. timers_inv s' m' \<and> evolves now s m s' m' \<and> quiet s s'"
proof -
  have step: "inv_step now s s' \<Longrightarrow> \<exists>m'. timers_inv s' m' \<and> evolves now s m s' m' \<and> quiet s s'" for s'
    using assms by (auto simp: inv_step_def)
  show ?thesis
  proof (cases c)
    case (SetTimeout f after args)
    then show ?thesis using schedule_step [OF assms, where isRepeat = False and f = f and after = after and args = args and now = now]
      by (auto simp: setTimeout_def split: sum.splits prod.splits)
  next
    case (SetInterval f after args)
    then show ?thesis using schedule_step [OF assms, where isRepeat = True and f = f and after = after and args = args and now = now]
      by (auto simp: setInterval_def split: sum.splits prod.splits)
  next
    case (SetUnrefTimeout f after)
    then show ?thesis using setUnrefTimeout_step [OF assms, where f = f and after = after and now = now] by (auto split: sum.splits prod.splits)
  next
    case (ClearTimeout a)
    then show ?thesis using clearTimeout_step [OF assms] by simp
  next
    case (ClearInterval a)
    then show ?thesis using clearTimeout_step [OF assms] by (simp add: clearInterval_def)
  next
    case (Refresh t)
    obtain s' m' where "timeout_refresh t s = Inr s'" "timers_inv s' m'" "evolves now s m s' m'" "quiet s s'"
      using timeout_refresh_step [OF assms, where t = t and now = now] by blast
    then show ?thesis using Refresh by auto
  qed (simp_all add: step ref_step toPrimitive_step time_step)
qed

lemma timer_calls_step:
  "timers_inv s m \<Longrightarrow> \<exists>m'. timers_inv (timer_calls cs s) m' \<and> evolves now s m (timer_calls cs s) m' \<and> quiet s (timer_calls cs s)"
proof (induction cs arbitrary: s m)
  case Nil
  then show ?case using evolves_refl by auto
next
  case (Cons c cs)
  define s1 where "s1 = (case do_call c s of Inr s' \<Rightarrow> s' | Inl e \<Rightarrow> s)"
  obtain m1 where m1: "timers_inv s1 m1" "evolves now s m s1 m1" "quiet s s1"
    using do_call_step [OF Cons.prems, where c = c and now = now] Cons.prems evolves_refl unfolding s1_def by (cases "do_call c s") auto
  then obtain m2 where "timers_inv (timer_calls cs s1) m2" "evolves now s1 m1 (timer_calls cs s1) m2" "quiet s1 (timer_calls cs s1)"
    using Cons.IH by blast
  then show ?case using m1 evolves_trans [OF m1(2)] timers_invD(1) [OF Cons.prems] quiet_trans
    by (auto simp: s1_def [symmetric])
qed

end
