(* ===== verification/TimersRun.thy ===== *)
theory TimersRun
  imports TimersOps
begin

text \<open>
  The loops of lib/internal/timers.js. Whatever the callbacks and the tick queue do with the timers,
  a run of the due lists keeps the invariant, removes and postpones the list it means to, calls
  nothing twice, and comes to an end.
\<close>

subsection \<open>One timer\<close>

lemma not_listed: "links_inv s m \<Longrightarrow> idleNext s t = None \<Longrightarrow> m l = Some xs \<Longrightarrow> t \<notin> set xs"
proof
  assume a: "links_inv s m" "idleNext s t = None" "m l = Some xs" "t \<in> set xs"
  then obtain ys zs where "xs = ys @ t # zs" by (auto dest: split_list)
  then have "linked s l ys t" using lists_ok_ring [OF links_invD(1) [OF a(1)] a(3)] by (simp add: ring_def linked_append)
  then show False using linked_last [of s l ys t] a(2) by simp
qed

lemma take_out_step:
  assumes "timers_inv s m" "timeouts s t = Some T"
  shows "timers_inv (L_remove t s) (drop_item t m)" "evolves now s m (L_remove t s) (drop_item t m)"
    "t \<notin> due (L_remove t s) (drop_item t m) now"
proof -
  note d = timers_invD [OF assms(1)]
  have ts: "timeouts (L_remove t s) = (timeouts s)(t \<mapsto> T)" using assms(2) by (simp add: fun_upd_idem)
  have "timers_inv (L_remove t s) (drop_item t m) \<and> evolves now s m (L_remove t s) (drop_item t m)"
  proof (rule timer_step [OF assms(1) ts])
    show "links_inv (L_remove t s) (drop_item t m)" using links_inv_remove [OF d(1)] assms(2) by simp
    show "timeout_ok T" by (rule d(3) [OF assms(2)])
    show "repeat T = repeat U" if "timeouts s t = Some U" for U using that assms(2) by simp
    show "nextObject s \<le> t" if "timeouts s t = None" using that assms(2) by simp
    show "timeoutInfo (L_remove t s) = timeoutInfo s + of_bool (timer_active T) - of_bool (t \<in> actives (timeouts s))"
      using active_iff [OF assms(2)] by simp
  qed (auto simp: drop_item_Some)
  then show "timers_inv (L_remove t s) (drop_item t m)" "evolves now s m (L_remove t s) (drop_item t m)" by blast+
  show "t \<notin> due (L_remove t s) (drop_item t m) now" by (auto simp: due_def drop_item_Some)
qed

lemma destroy_fired_step:
  assumes "timers_inv s m" "timeouts s t = Some T" "\<not> destroyed T" "idleNext s t = None" "repeat T = None"
  obtains m' where "timers_inv (destroy_fired t i s) m'" "evolves now s m (destroy_fired t i s) m'" "quiet s (destroy_fired t i s)"
proof -
  note d = timers_invD [OF assms(1)]
  define T' where "T' = T\<lparr>destroyed := True\<rparr>"
  have ts: "timeouts (destroy_fired t i s) = (timeouts s)(t \<mapsto> T')"
    using assms(2) by (simp add: destroy_fired_def Let_def timeouts_upd T'_def)
  have links: "links_inv (destroy_fired t i s) = links_inv s"
    using assms(2) by (intro links_inv_fields) (auto simp: destroy_fired_def Let_def upd_timeout_def)
  have f: "timersLists (destroy_fired t i s) = timersLists s" "nextObject (destroy_fired t i s) = nextObject s"
    "libuvNow (destroy_fired t i s) = libuvNow s" "quiet s (destroy_fired t i s)"
    "timeoutInfo (destroy_fired t i s) = timeoutInfo s - of_bool (refed T)"
    using assms(2) other_fieldsD [OF upd_timeout_fields(10)]
    by (simp_all add: destroy_fired_def Let_def async_simps quiet_def)
  have "timers_inv (destroy_fired t i s) m \<and> evolves now s m (destroy_fired t i s) m"
  proof (rule timer_step [OF assms(1) ts])
    show "links_inv (destroy_fired t i s) m" using d(1) links by simp
    show "timeout_ok T'" using d(3) [OF assms(2)] assms(3,5) by (auto simp: T'_def timeout_ok_def)
    show "repeat T' = repeat U" if "timeouts s t = Some U" for U using that assms(2) by (simp add: T'_def)
    show "nextObject s \<le> t" if "timeouts s t = None" using that assms(2) by simp
    show "timeoutInfo (destroy_fired t i s) = timeoutInfo s + of_bool (timer_active T') - of_bool (t \<in> actives (timeouts s))"
      using f(5) active_iff [OF assms(2)] assms(3) by (simp add: T'_def timer_active_def)
    show "item_ok (destroy_fired t i s) l t \<and>
        ((\<exists>ys T. m l = Some ys \<and> t \<in> set ys \<and> timeouts s t = Some T \<and> idleStart T' = idleStart T) \<or>
         (\<exists>x. idleStart T' = Some x \<and> (now \<le> libuvNow s \<longrightarrow> now < x + msecs (timersLists (destroy_fired t i s) l))))"
      if "m l = Some xs" "t \<in> set xs" for l xs using not_listed [OF d(1) assms(4) that(1)] that(2) by simp
  qed (use f in auto)
  then show ?thesis using f(4) that by blast
qed

text \<open>What follows the call of a timer never fails.\<close>

lemma after_call_step:
  assumes inv: "timers_inv s m" and T: "timeouts s t = Some T"
    and start: "repeat T \<noteq> None \<Longrightarrow> \<exists>x. start = Some x \<and> (now \<le> libuvNow s \<longrightarrow> now \<le> x)"
  obtains s' m' where "after_call t i start s = Inr s'" "timers_inv s' m'" "evolves now s m s' m'" "quiet s s'"
proof -
  have ok: "timeout_ok T" by (rule timers_invD(3) [OF inv T])
  show ?thesis
  proof (cases "\<exists>r. repeat T = Some r \<and> idleTimeout T \<noteq> -1")
    case True
    then obtain r where r: "repeat T = Some r" "idleTimeout T \<noteq> -1" by blast
    then have T2: "1 \<le> r" "idleTimeout T = r" "\<not> destroyed T" using ok by (auto simp: timeout_ok_def)
    obtain x where x: "start = Some x" "now \<le> libuvNow s \<longrightarrow> now \<le> x" using start r by blast
    have same: "upd_timeout t (\<lambda>T. T\<lparr>idleTimeout := r\<rparr>) s = s"
      using T T2(2) by (simp add: upd_timeout_def fun_upd_idem)
    obtain s1 where s1: "insert_timer t r start s = Inr s1" "other_fields s1 = other_fields s" "timeoutInfo s1 = timeoutInfo s"
      "timeouts s1 = (timeouts s)(t \<mapsto> T\<lparr>idleStart := Some x\<rparr>)"
      and fin: "\<And>s' T'. (\<And>m'. links_inv s' m' \<longleftrightarrow> links_inv s1 m') \<Longrightarrow> timersLists s' = timersLists s1 \<Longrightarrow> nextObject s' = nextObject s1 \<Longrightarrow>
        timeouts s' = (timeouts s1)(t \<mapsto> T') \<Longrightarrow> timeout_ok T' \<Longrightarrow> \<not> destroyed T' \<Longrightarrow>
        MathTrunc (idleTimeout T') = MathTrunc r \<Longrightarrow> idleStart T' = Some x \<Longrightarrow>
        timeoutInfo s' = timeoutInfo s + of_bool (timer_active T') - of_bool (timer_active T) \<Longrightarrow> repeat T' = repeat T \<Longrightarrow>
        libuvNow s' = libuvNow s \<Longrightarrow> \<exists>m'. timers_inv s' m' \<and> evolves now s m s' m'"
      by (rule insert_step [OF inv T MathTrunc_ge_1 [OF T2(1)], of now start]) (use x in auto)
    have "timeout_ok (T\<lparr>idleStart := Some x\<rparr>)" using ok by (simp add: timeout_ok_def)
    then have "\<exists>m'. timers_inv s1 m' \<and> evolves now s m s1 m'"
      using s1 T2 other_fieldsD [OF s1(2)] by (intro fin [of s1 "T\<lparr>idleStart := Some x\<rparr>"]) (auto simp: timer_active_def)
    moreover have "after_call t i start s = Inr s1" using T r same s1(1) by (simp add: after_call_def)
    ultimately show ?thesis using other_fieldsD(4) [OF s1(2)] that by blast
  next
    case False
    show ?thesis
    proof (cases "idleNext s t = None \<and> idlePrev s t = None \<and> \<not> destroyed T")
      case True
      then have rep: "repeat T = None" using False ok by (cases "repeat T") (auto simp: timeout_ok_def)
      then have "after_call t i start s = Inr (destroy_fired t i s)" using T True by (simp add: after_call_def)
      then show ?thesis using destroy_fired_step [OF inv T _ _ rep] True that by metis
    next
      case F: False
      then have "after_call t i start s = Inr s" using T False by (auto simp: after_call_def split: option.split)
      then show ?thesis using inv evolves_refl that by (metis quiet_refl)
    qed
  qed
qed

lemma same_lists_inv:
  assumes "links_inv s' = links_inv s" "timeouts s' = timeouts s" "timersLists s' = timersLists s" "timeoutInfo s' = timeoutInfo s"
    "nextObject s' = nextObject s" "libuvNow s' = libuvNow s"
  shows "timers_inv s' m \<longleftrightarrow> timers_inv s m" "evolves now s m s' m" "due s' m now = due s m now"
  using assms by (auto simp: timers_inv_def items_ok_def item_ok_def refs_ok_def evolves_def due_def)

text \<open>What a host can throw.\<close>

definition host_throws :: "timer_host \<Rightarrow> jserror \<Rightarrow> bool" where
  "host_throws h e \<longleftrightarrow> (\<exists>f args s. snd (host_callback h f args s) = Some e) \<or> (\<exists>s. snd (host_ticks h s) = Some e)"

lemma run_host_step:
  assumes "timers_inv s m"
  obtains m' where "timers_inv (snd (run_host c s)) m'" "evolves now s m (snd (run_host c s)) m'" "quiet s (snd (run_host c s))"
  using timer_calls_step [OF assms, of "fst c" now] by (auto simp: run_host_def)

lemma call_timer_step:
  assumes inv: "timers_inv s m" and T: "timeouts s t = Some T" and now: "now \<le> libuvNow s"
    and call: "call_timer h t T f now s = (out, s')"
  obtains m' where "timers_inv s' m'" "evolves now s m s' m'" "calledTimers s' = calledTimers s @ [(t, now)]"
    "\<And>e. out = TimersThrew e \<Longrightarrow> host_throws h e"
proof -
  let ?a = "emitBefore (timer_async_id T) (timer_trigger_id T) (asyncFields s)"
  let ?args = "case timerArgs T of None \<Rightarrow> [] | Some args \<Rightarrow> args"
  define s1 where "s1 = enter_timer t T now s"
  have s1_def': "s1 = s\<lparr>currentFrame := timer_frame T, asyncFields := ?a, calledTimers := calledTimers s @ [(t, now)]\<rparr>"
    by (simp add: s1_def enter_timer_def)
  have s1: "timers_inv s1 m" "evolves now s m s1 m"
  proof -
    have "links_inv s1 = links_inv s" by (rule links_inv_fields) (simp_all add: s1_def')
    note same_lists_inv [OF this]
    then show "timers_inv s1 m" "evolves now s m s1 m" using inv by (simp_all add: s1_def')
  qed
  have libuv: "libuvNow s1 = libuvNow s" by (simp add: s1_def')
  define c where "c = host_callback h f ?args s1"
  define s2 where "s2 = snd (run_host c s1)"
  define start where "start = (if repeat T \<noteq> None then Some (libuvNow s) else None)"
  obtain m2 where m2: "timers_inv s2 m2" "evolves now s1 m s2 m2" "quiet s1 s2"
    using run_host_step [OF s1(1), where c = c and now = now] unfolding s2_def by blast
  obtain T2 where T2: "timeouts s2 t = Some T2" "repeat T2 = repeat T"
    using evolvesD(2) [OF m2(2), of t T] T by (auto simp: s1_def')
  obtain s3 m3 where s3: "after_call t (timer_async_id T) start s2 = Inr s3" "timers_inv s3 m3" "evolves now s2 m2 s3 m3" "quiet s2 s3"
    using after_call_step [OF m2(1) T2(1), where start = start and now = now and i = "timer_async_id T"] T2(2) now by (auto simp: start_def)
  have ctx: "calledTimers s3 = calledTimers s @ [(t, now)]"
    using m2(3) s3(4) by (simp_all add: quiet_def s1_def')
  define a where "a = emitAfter (timer_async_id T) (asyncFields s3)"
  have ev: "evolves now s m s3 m3"
    using evolves_trans [OF evolves_trans [OF s1(2) m2(2)] s3(3)] timers_invD(1) [OF inv] by blast
  have "call_timer h t T f now s =
      (case after_call t (timer_async_id T) start s2 of
         Inl e \<Rightarrow> (TimersThrew e, s2)
       | Inr s \<Rightarrow> (case snd c of Some e \<Rightarrow> (TimersThrew e, s)
           | None \<Rightarrow> (TimersDone, s\<lparr>asyncFields := emitAfter (timer_async_id T) (asyncFields s),
               currentFrame := currentFrame0\<rparr>)))"
    if "currentFrame0 = currentFrame s" for currentFrame0
    unfolding call_timer_def Let_def s1_def [symmetric] c_def [symmetric] libuv start_def [symmetric] that
    by (simp add: run_host_def s2_def option.case_eq_if sum.case_eq_if)
  from this [OF refl] have "call_timer h t T f now s = (case snd c of Some e \<Rightarrow> (TimersThrew e, s3)
      | None \<Rightarrow> (TimersDone, s3\<lparr>asyncFields := a, currentFrame := currentFrame s\<rparr>))"
    using s3(1) by (cases "snd c") (simp_all add: a_def)
  then have cases: "(\<exists>e. snd c = Some e \<and> out = TimersThrew e \<and> s' = s3) \<or>
      (out = TimersDone \<and> s' = s3\<lparr>asyncFields := a, currentFrame := currentFrame s\<rparr>)"
    using call by (auto split: option.splits)
  have "links_inv (s3\<lparr>asyncFields := a, currentFrame := currentFrame s\<rparr>) = links_inv s3" by (rule links_inv_fields) simp_all
  note fin = same_lists_inv [OF this]
  have "timers_inv s' m3" "evolves now s m s' m3" "calledTimers s' = calledTimers s @ [(t, now)]"
    using cases fin s3(2) ev evolves_trans [OF ev _ timers_invD(1) [OF inv]] ctx by auto
  then show ?thesis using cases by (intro that) (auto simp: host_throws_def c_def)
qed

lemma fire_timer_step:
  assumes inv: "timers_inv s m" and T: "timeouts s t \<noteq> None" and now: "now \<le> libuvNow s"
    and fire: "fire_timer h t now s = (out, s')"
  obtains m' where "timers_inv s' m'" "evolves now s m s' m'" "t \<notin> due s' m' now"
    "calledTimers s' = calledTimers s \<or> calledTimers s' = calledTimers s @ [(t, now)]"
    "\<And>e. out = TimersThrew e \<Longrightarrow> host_throws h e"
proof -
  obtain T where T: "timeouts s t = Some T" using assms(2) by blast
  note out = take_out_step [OF inv T]
  let ?s = "L_remove t s"
  have f: "timeouts ?s t = Some T" "libuvNow ?s = libuvNow s" "calledTimers ?s = calledTimers s" "asyncFields ?s = asyncFields s"
    using T by simp_all
  have shrink: "evolves now s m s1 m1 \<and> t \<notin> due s1 m1 now" if "evolves now ?s (drop_item t m) s1 m1" for s1 m1
    using evolves_trans [OF out(2) that timers_invD(1) [OF inv]] that out(3) now by (auto simp: evolves_def)
  show ?thesis
  proof (cases "onTimeout T")
    case None
    show ?thesis
    proof (cases "destroyed T")
      case True
      then have "out = TimersDone" "s' = ?s" using fire None f by (simp_all add: fire_timer_def Let_def)
      then show ?thesis using out f by (intro that) simp_all
    next
      case False
      have "repeat T = None" using timers_invD(3) [OF inv T] None False by (cases "repeat T") (auto simp: timeout_ok_def)
      then obtain m' where "timers_inv (destroy_fired t (timer_async_id T) ?s) m'"
        "evolves now ?s (drop_item t m) (destroy_fired t (timer_async_id T) ?s) m'" "quiet ?s (destroy_fired t (timer_async_id T) ?s)"
        using destroy_fired_step [OF out(1) f(1) False, where now = now and i = "timer_async_id T"] by auto
      moreover have "out = TimersDone" "s' = destroy_fired t (timer_async_id T) ?s"
        using fire None False f by (simp_all add: fire_timer_def Let_def)
      ultimately show ?thesis using shrink f by (intro that) (auto simp: quiet_def)
    qed
  next
    case (Some g)
    then have run: "call_timer h t T g now ?s = (out, s')" using fire f by (simp add: fire_timer_def Let_def)
    show ?thesis
      by (rule call_timer_step [OF out(1) f(1) _ run]) (use now f shrink that in auto)
  qed
qed

end
