(* ===== verification/TimersLoop.thy ===== *)
theory TimersLoop
  imports TimersRun
begin

text \<open>
  The loops over the due timers of a list and over the due lists. \<open>late\<close> are the lists that a pass at
  the time \<open>now\<close> runs. The root of the queue stays the list that is being run; each call takes a timer
  out of those due at \<open>now\<close>, each list that is done leaves \<open>late\<close>, and nothing enters either.
\<close>

subsection \<open>What a pass may do\<close>

definition late :: "timers \<Rightarrow> (nat \<rightharpoonup> nat list) \<Rightarrow> int \<Rightarrow> nat set" where
  "late s m now = {l \<in> dom m. expiry (timersLists s l) \<le> now}"

definition calls_made :: "timers \<Rightarrow> timers \<Rightarrow> nat list \<Rightarrow> int \<Rightarrow> bool" where
  "calls_made s s' ts now \<longleftrightarrow> calledTimers s' = calledTimers s @ map (\<lambda>t. (t, now)) ts \<and> distinct ts"

definition passes :: "int \<Rightarrow> timers \<Rightarrow> (nat \<rightharpoonup> nat list) \<Rightarrow> timers \<Rightarrow> (nat \<rightharpoonup> nat list) \<Rightarrow> bool" where
  "passes now s m s' m' \<longleftrightarrow>
     timers_inv s' m' \<and> libuvNow s \<le> libuvNow s' \<and> due s' m' now \<subseteq> due s m now \<and> late s' m' now \<subseteq> late s m now \<and>
     (\<exists>ts. calls_made s s' ts now \<and> set ts \<subseteq> due s m now - due s' m' now)"

lemma finite_due: "timers_inv s m \<Longrightarrow> finite (due s m now)"
  by (rule finite_subset [of _ "dom (timeouts s)"]) (auto simp: due_def timers_inv_def refs_ok_def)

lemma finite_late: "timers_inv s m \<Longrightarrow> finite (late s m now)"
  by (rule finite_subset [of _ "{..<nextObject s}"]) (auto simp: late_def dest!: timers_invD(1) dest: links_invD(5))

lemma passes_refl: "timers_inv s m \<Longrightarrow> passes now s m s m"
  by (auto simp: passes_def calls_made_def intro!: exI [of _ "[]"])

lemma passes_trans:
  assumes "passes now s m s1 m1" "passes now s1 m1 s2 m2"
  shows "passes now s m s2 m2"
proof -
  obtain ts us where c: "calls_made s s1 ts now" "set ts \<subseteq> due s m now - due s1 m1 now"
    "calls_made s1 s2 us now" "set us \<subseteq> due s1 m1 now - due s2 m2 now"
    using assms by (auto simp: passes_def)
  have "calls_made s s2 (ts @ us) now" using c by (auto simp: calls_made_def)
  moreover have "set (ts @ us) \<subseteq> due s m now - due s2 m2 now" using assms c by (auto simp: passes_def)
  ultimately show ?thesis using assms unfolding passes_def by (meson order_trans)
qed

lemma late_evolves:
  assumes "evolves now s m s' m'" "now \<le> libuvNow s"
  shows "late s' m' now \<subseteq> late s m now"
proof
  fix l assume "l \<in> late s' m' now"
  then have l: "l \<in> dom m'" "expiry (timersLists s' l) \<le> now" by (auto simp: late_def)
  then have "l \<in> dom m" using evolvesD(4) [OF assms(1) l(1)] assms(2) by fastforce
  then show "l \<in> late s m now" using evolvesD(3) [OF assms(1) _ l(1)] l(2) by (simp add: late_def)
qed

lemma evolves_passes:
  assumes "evolves now s m s' m'" "timers_inv s' m'" "now \<le> libuvNow s" "calls_made s s' ts now"
    "set ts \<subseteq> due s m now - due s' m' now"
  shows "passes now s m s' m'"
  using assms evolvesD(1,5) [OF assms(1)] late_evolves [OF assms(1,3)] unfolding passes_def by blast

text \<open>The list that was at the root when its timers began to run is there as long as it is live.\<close>

lemma root_stays:
  assumes inv: "timers_inv s0 m0" and peek: "pq_peek (timerListQueue s0) = Some l" "expiry (timersLists s0 l) \<le> now"
    and now: "now \<le> libuvNow s0" and ev: "evolves now s0 m0 s m" and s: "links_inv s m" and l: "l \<in> dom m"
  shows "pq_peek (timerListQueue s) = Some l"
proof -
  have q0: "l \<in> dom m0" "\<And>k. k \<in> dom m0 \<Longrightarrow> compareTimersLists (timersLists s0) l k \<le> 0"
    using queue_peek [OF links_invD(7) [OF timers_invD(1) [OF inv]]] peek(1) by auto
  note kept = evolvesD(3) [OF ev]
  obtain r where r: "pq_peek (timerListQueue s) = Some r" "r \<in> dom m" "compareTimersLists (timersLists s) r l \<le> 0"
    using queue_peek [OF links_invD(7) [OF s]] l by (cases "pq_peek (timerListQueue s)") auto
  have el: "expiry (timersLists s l) \<le> now" using kept [OF q0(1) l] peek(2) by simp
  have r0: "r \<in> dom m0"
  proof (rule ccontr)
    assume "r \<notin> dom m0"
    then have "now < expiry (timersLists s r)" using evolvesD(4) [OF ev r(2)] now by blast
    then show False using r(3) el by (simp add: compareTimersLists_def Let_def split: if_splits)
  qed
  have "compareTimersLists (timersLists s) l r \<le> 0"
    using q0(2) [OF r0] kept [OF q0(1) l] kept [OF r0 r(2)] by (simp add: compareTimersLists_def Let_def split: if_splits)
  then have "list_id (timersLists s l) = list_id (timersLists s r)"
    using r(3) by (auto simp: compareTimersLists_def Let_def split: if_splits)
  then have "r = l" using links_invD(8) [OF s] r(2) l by (auto simp: inj_on_def)
  then show ?thesis using r(1) by simp
qed

text \<open>A list object that has left the table stays empty.\<close>

lemma peek_dead:
  assumes "timers_inv s0 m0" "l \<in> dom m0" "evolves now s0 m0 s m" "links_inv s m" "l \<notin> dom m"
  shows "L_peek l s = None" "finish_list l k s = s"
proof -
  have "timeouts s l = None"
    using links_invD(5) [OF timers_invD(1) [OF assms(1)] assms(2)] evolvesD(6) [OF assms(3)] by blast
  then have "\<not> in_lists m l" using links_invD(4) [OF assms(4)] assms(5) by (fastforce simp: in_lists_def domIff)
  then have "detached s l" using lists_ok_detached [OF links_invD(1) [OF assms(4)]] by blast
  then show "L_peek l s = None" by (auto simp: detached_def L_peek_def)
  have "timerListMap s k \<noteq> Some l" using links_invD(2) [OF assms(4)] assms(5) by (metis ranI)
  then show "finish_list l k s = s" by (simp add: finish_list_def)
qed

lemma run_ticks_step:
  assumes "timers_inv s m" "run_ticks h again s = (e, s')"
  obtains m' where "timers_inv s' m'" "evolves now s m s' m'" "quiet s s'" "\<And>x. e = Some x \<Longrightarrow> host_throws h x"
proof (cases again)
  case True
  then have s': "s' = snd (run_host (host_ticks h s) s)" "e = snd (host_ticks h s)"
    using assms(2) by (simp_all add: run_ticks_def run_host_def)
  obtain m' where "timers_inv s' m'" "evolves now s m s' m'" "quiet s s'"
    unfolding s' by (rule run_host_step [OF assms(1), of "host_ticks h s" now])
  then show ?thesis using s'(2) by (intro that [of m']) (auto simp: host_throws_def)
next
  case False
  then show ?thesis using assms evolves_refl by (intro that [of m]) (auto simp: run_ticks_def)
qed

subsection \<open>The end of a list\<close>

lemma postpone_passes:
  assumes inv: "timers_inv s m" and l: "m l = Some xs" "pq_peek (timerListQueue s) = Some l"
  shows "passes now s m (postpone_list l start now s) m" "l \<notin> late (postpone_list l start now s) m now"
proof -
  let ?s = "postpone_list l start now s"
  note p = postpone_list_inv [where start = start and now = now, OF timers_invD(1) [OF inv] l refl]
  have "timers_inv ?s m"
    using inv p(1,2,3,5) by (simp add: timers_inv_def items_ok_def item_ok_def refs_ok_def)
  moreover show n: "l \<notin> late ?s m now" using p(6) by (simp add: late_def)
  moreover have "late ?s m now \<subseteq> late s m now"
  proof
    fix i assume i: "i \<in> late ?s m now"
    then have "i \<noteq> l" using n by blast
    then show "i \<in> late s m now" using i p(7) by (simp add: late_def)
  qed
  moreover have "due ?s m now = due s m now" using p(2,5) by (simp add: due_def)
  ultimately show "passes now s m ?s m"
    using other_fieldsD [OF p(4)] by (auto simp: passes_def calls_made_def intro!: exI [of _ "[]"])
qed

lemma finish_passes:
  assumes inv: "timers_inv s m" and l: "m l = Some []" "pq_peek (timerListQueue s) = Some l" "msecs (timersLists s l) = k"
  shows "passes now s m (finish_list l k s) (m(l := None))"
proof -
  let ?s = "finish_list l k s"
  have "timerListMap s k = Some l" using links_inv_map [OF timers_invD(1) [OF inv], of l] l by auto
  note f = finish_list_inv [OF timers_invD(1) [OF inv] this l(1,2)]
  have kept: "msecs (timersLists ?s i) = msecs (timersLists s i) \<and> expiry (timersLists ?s i) = expiry (timersLists s i)"
    if "i \<in> dom m" for i using f(5) that by (simp add: kept_lists_def)
  have "item_ok ?s i x" if "(m(l := None)) i = Some xs" "x \<in> set xs" for i xs x
  proof -
    have i: "m i = Some xs" using that(1) by (simp split: if_splits)
    then have "i \<in> dom m" "item_ok s i x" using timers_invD(2) [OF inv] that(2) by (auto simp: items_ok_def)
    then show ?thesis using f(2) kept [of i] by (simp add: item_ok_def)
  qed
  then have "timers_inv ?s (m(l := None))"
    using inv f(1-3) by (simp add: timers_inv_def items_ok_def refs_ok_def)
  moreover have "late ?s (m(l := None)) now \<subseteq> late s m now"
  proof
    fix i assume "i \<in> late ?s (m(l := None)) now"
    then have "i \<in> dom m" "expiry (timersLists ?s i) \<le> now" by (simp_all add: late_def)
    then show "i \<in> late s m now" using kept [of i] by (simp add: late_def)
  qed
  moreover have "due ?s (m(l := None)) now \<subseteq> due s m now"
  proof
    fix t assume "t \<in> due ?s (m(l := None)) now"
    then obtain i xs T x where t: "m i = Some xs" "t \<in> set xs" "timeouts s t = Some T" "idleStart T = Some x"
      "x + msecs (timersLists ?s i) \<le> now" by (auto simp: due_def f(2) split: if_splits)
    moreover from this have "i \<in> dom m" by blast
    ultimately show "t \<in> due s m now" using kept [of i] by (auto simp: due_def)
  qed
  ultimately show ?thesis
    using other_fieldsD [OF f(4)] by (auto simp: passes_def calls_made_def intro!: exI [of _ "[]"])
qed

subsection \<open>The timers of a list\<close>

text \<open>The outcomes of a pass.\<close>

definition good_outcome :: "timer_host \<Rightarrow> timer_outcome \<Rightarrow> bool" where
  "good_outcome h out \<longleftrightarrow> out = TimersDone \<or> (\<exists>e. out = TimersThrew e \<and> host_throws h e)"

lemma due_first:
  assumes inv: "timers_inv s m" and m: "m l = Some (t # ts)" "msecs (timersLists s l) = k"
  obtains T x where "timeouts s t = Some T" "idleStart T = Some x" "k \<le> now - x \<Longrightarrow> t \<in> due s m now"
proof -
  have "item_ok s l t" using timers_invD(2) [OF inv] m(1) by (auto simp: items_ok_def)
  then obtain T x where "timeouts s t = Some T" "idleStart T = Some x" by (auto simp: item_ok_def)
  moreover have "t \<in> due s m now" if "k \<le> now - x"
    unfolding due_def using calculation m that by (intro CollectI exI [of _ l] exI [of _ "t # ts"] exI [of _ T] exI [of _ x]) simp
  ultimately show ?thesis by (rule that)
qed

text \<open>One turn of the loop: the tick queue, then the first timer of the list.\<close>

lemma turn_step:
  assumes inv: "timers_inv s m" and t: "t \<in> due s m now" and now: "now \<le> libuvNow s"
    and ticks: "run_ticks h again s = (None, s1)" and fire: "fire_timer h t now s1 = (out, s2)"
  obtains m2 where "timers_inv s2 m2" "evolves now s m s2 m2" "passes now s m s2 m2" "t \<notin> due s2 m2 now"
    "out = TimersDone \<or> good_outcome h out"
proof -
  obtain m1 where m1: "timers_inv s1 m1" "evolves now s m s1 m1" "quiet s s1"
    using run_ticks_step [OF inv ticks] by metis
  obtain T where "timeouts s t = Some T" using t by (auto simp: due_def)
  then have t1: "timeouts s1 t \<noteq> None" using evolvesD(2) [OF m1(2)] by force
  have now1: "now \<le> libuvNow s1" using now evolvesD(1) [OF m1(2)] by simp
  obtain m2 where m2: "timers_inv s2 m2" "evolves now s1 m1 s2 m2" "t \<notin> due s2 m2 now"
    "calledTimers s2 = calledTimers s1 \<or> calledTimers s2 = calledTimers s1 @ [(t, now)]"
    "\<And>e. out = TimersThrew e \<Longrightarrow> host_throws h e"
    using fire_timer_step [OF m1(1) t1 now1 fire] by metis
  have ev: "evolves now s m s2 m2" by (rule evolves_trans [OF m1(2) m2(2) timers_invD(1) [OF inv]])
  have "calls_made s s2 [] now \<or> calls_made s s2 [t] now"
    using m2(4) m1(3) by (auto simp: calls_made_def quiet_def)
  then have "passes now s m s2 m2"
    using evolves_passes [OF ev m2(1) now, of "[]"] evolves_passes [OF ev m2(1) now, of "[t]"] t m2(3) by auto
  moreover have "out = TimersDone \<or> good_outcome h out" using m2(5) by (cases out) (auto simp: good_outcome_def)
  ultimately show ?thesis using that m2(1,3) ev by blast
qed

lemma quiet_passes:
  assumes "evolves now s m s' m'" "timers_inv s' m'" "now \<le> libuvNow s" "quiet s s'"
  shows "passes now s m s' m'"
  using assms by (intro evolves_passes [where ts = "[]"]) (simp_all add: calls_made_def quiet_def)

lemma listOnTimeout_step:
  assumes "timers_inv s0 m0" "pq_peek (timerListQueue s0) = Some l" "expiry (timersLists s0 l) \<le> now"
    "msecs (timersLists s0 l) = k" "now \<le> libuvNow s0" "l \<in> dom m0"
    "timers_inv s m" "evolves now s0 m0 s m" "now \<le> libuvNow s" "card (due s m now) < n"
  shows "\<exists>out s' m'. listOnTimeout n h l k now again s = Some (out, s') \<and> passes now s m s' m' \<and>
    good_outcome h out \<and> (out = TimersDone \<longrightarrow> l \<notin> late s' m' now)"
  using assms(7-10)
proof (induction n arbitrary: s m again)
  case (Suc n)
  note inv = Suc.prems(1) and ev = Suc.prems(2) and now = Suc.prems(3)
  note links = timers_invD(1) [OF inv]
  show ?case
  proof (cases "m l")
    case None
    then have dead: "L_peek l s = None" "finish_list l k s = s"
      using peek_dead [OF assms(1,6) ev links] by auto
    then have "listOnTimeout (Suc n) h l k now again s = Some (TimersDone, s)" by simp
    moreover have "l \<notin> late s m now" using None by (auto simp: late_def)
    ultimately show ?thesis using passes_refl [OF inv] by (auto simp: good_outcome_def)
  next
    case (Some xs)
    then have dom: "l \<in> dom m" by blast
    have peek: "pq_peek (timerListQueue s) = Some l" by (rule root_stays [OF assms(1-3,5) ev links dom])
    have k: "msecs (timersLists s l) = k" using evolvesD(3) [OF ev assms(6) dom] assms(4) by simp
    show ?thesis
    proof (cases xs)
      case Nil
      then have "listOnTimeout (Suc n) h l k now again s = Some (TimersDone, finish_list l k s)"
        using lists_ok_peek [OF links_invD(1) [OF links] Some] by simp
      moreover have "l \<notin> late (finish_list l k s) (m(l := None)) now" by (simp add: late_def)
      ultimately show ?thesis using finish_passes [OF inv Some [unfolded Nil] peek k] by (auto simp: good_outcome_def)
    next
      case (Cons t ts)
      have pt: "L_peek l s = Some t" using lists_ok_peek [OF links_invD(1) [OF links] Some] Cons by simp
      obtain T x where T: "timeouts s t = Some T" "idleStart T = Some x" "k \<le> now - x \<Longrightarrow> t \<in> due s m now"
        using due_first [OF inv Some [unfolded Cons] k] by metis
      show ?thesis
      proof (cases "now - x < k")
        case True
        then have "listOnTimeout (Suc n) h l k now again s = Some (TimersDone, postpone_list l x now s)"
          using pt T by simp
        then show ?thesis using postpone_passes [OF inv Some peek, where start = x and now = now] by (auto simp: good_outcome_def simp del: listOnTimeout.simps)
      next
        case False
        then have t: "t \<in> due s m now" using T(3) by simp
        obtain e s1 where ticks: "run_ticks h again s = (e, s1)" by (metis surj_pair)
        show ?thesis
        proof (cases e)
          case (Some e')
          obtain m1 where "timers_inv s1 m1" "evolves now s m s1 m1" "quiet s s1" "host_throws h e'"
            using run_ticks_step [OF inv ticks] Some by metis
          moreover have "listOnTimeout (Suc n) h l k now again s = Some (TimersThrew e', s1)"
            using pt T False ticks Some by simp
          ultimately show ?thesis using quiet_passes [of now s m s1 m1] now by (auto simp: good_outcome_def)
        next
          case None
          obtain out s2 where fire: "fire_timer h t now s1 = (out, s2)" by (metis surj_pair)
          obtain m2 where m2: "timers_inv s2 m2" "evolves now s m s2 m2" "passes now s m s2 m2" "t \<notin> due s2 m2 now"
            "out = TimersDone \<or> good_outcome h out"
            using turn_step [OF inv t now ticks [unfolded None] fire] by metis
          have run: "listOnTimeout (Suc n) h l k now again s =
              (case (out, s2) of (TimersDone, s) \<Rightarrow> listOnTimeout n h l k now True s | r \<Rightarrow> Some r)"
            using pt T False ticks None fire by simp
          show ?thesis
          proof (cases "out = TimersDone")
            case True
            have "due s2 m2 now \<subset> due s m now" using m2(3,4) t by (auto simp: passes_def)
            then have "card (due s2 m2 now) < card (due s m now)" by (rule psubset_card_mono [OF finite_due [OF inv]])
            then have "card (due s2 m2 now) < n" using Suc.prems(4) by simp
            moreover have "evolves now s0 m0 s2 m2"
              by (rule evolves_trans [OF ev m2(2) timers_invD(1) [OF assms(1)]])
            moreover have "now \<le> libuvNow s2" using now evolvesD(1) [OF m2(2)] by simp
            ultimately obtain out' s' m' where r: "listOnTimeout n h l k now True s2 = Some (out', s')" "passes now s2 m2 s' m'"
              "good_outcome h out'" "out' = TimersDone \<longrightarrow> l \<notin> late s' m' now"
              using Suc.IH [OF m2(1), of True] by blast
            then show ?thesis using run True passes_trans [OF m2(3) r(2)]
              by (intro exI [of _ out'] exI [of _ s'] exI [of _ m']) simp
          next
            case False
            then have "listOnTimeout (Suc n) h l k now again s = Some (out, s2)"
              using run by (cases out) simp_all
            then show ?thesis using False m2 by blast
          qed
        qed
      qed
    qed
  qed
qed simp

subsection \<open>The lists of a pass\<close>

definition pass_answer :: "timers \<Rightarrow> int \<Rightarrow> bool" where
  "pass_answer s r \<longleftrightarrow>
     (case pq_peek (timerListQueue s) of
        None \<Rightarrow> r = 0
      | Some l \<Rightarrow> r = (if timeoutInfo s > 0 then expiry (timersLists s l) else - expiry (timersLists s l)) \<and>
          nextExpiry s = Some (expiry (timersLists s l)))"

lemma process_lists_step:
  assumes "timers_inv s m" "now \<le> libuvNow s" "card (late s m now) + card (due s m now) < n"
  shows "\<exists>out r s' m'. process_lists n h now again s = Some (out, r, s') \<and> passes now s m s' m' \<and> good_outcome h out \<and>
    (out = TimersDone \<longrightarrow> late s' m' now = {} \<and>
       pass_answer s' r)"
  using assms
proof (induction n arbitrary: s m again)
  case (Suc n)
  note inv = Suc.prems(1) and now = Suc.prems(2)
  note peek = queue_peek [OF links_invD(7) [OF timers_invD(1) [OF inv]]]
  show ?case
  proof (cases "pq_peek (timerListQueue s)")
    case None
    then have "late s m now = {}" using peek by (auto simp: late_def)
    then show ?thesis using None passes_refl [OF inv] by (auto simp: good_outcome_def pass_answer_def)
  next
    case (Some l)
    then have l: "l \<in> dom m" "\<And>i. i \<in> dom m \<Longrightarrow> compareTimersLists (timersLists s) l i \<le> 0" using peek by auto
    show ?thesis
    proof (cases "expiry (timersLists s l) > now")
      case True
      let ?s = "s\<lparr>nextExpiry := Some (expiry (timersLists s l))\<rparr>"
      have "expiry (timersLists s l) \<le> expiry (timersLists s i)" if "i \<in> dom m" for i
        using l(2) [OF that] by (simp add: compareTimersLists_def Let_def split: if_splits)
      then have "late s m now = {}" using True by (fastforce simp: late_def)
      moreover have "links_inv ?s = links_inv s" by (rule links_inv_fields) simp_all
      note same = same_lists_inv [OF this]
      have "passes now s m ?s m"
        using same inv now by (intro quiet_passes) (simp_all add: quiet_def)
      ultimately show ?thesis using Some True by (intro exI [of _ TimersDone] exI [of _ "if timeoutInfo s > 0 then expiry (timersLists s l) else - expiry (timersLists s l)"]
            exI [of _ ?s] exI [of _ m]) (simp add: good_outcome_def late_def Let_def pass_answer_def)
    next
      case False
      obtain e s1 where ticks: "run_ticks h again s = (e, s1)" by (metis surj_pair)
      obtain m1 where m1: "timers_inv s1 m1" "evolves now s m s1 m1" "quiet s s1" "\<And>x. e = Some x \<Longrightarrow> host_throws h x"
        using run_ticks_step [OF inv ticks] by metis
      have p1: "passes now s m s1 m1" by (rule quiet_passes [OF m1(2,1) now m1(3)])
      show ?thesis
      proof (cases e)
        case (Some e')
        then have "process_lists (Suc n) h now again s = Some (TimersThrew e', 0, s1)"
          using \<open>pq_peek (timerListQueue s) = Some l\<close> False ticks by simp
        then show ?thesis using p1 m1(4) Some by (auto simp: good_outcome_def)
      next
        case None
        have now1: "now \<le> libuvNow s1" using now evolvesD(1) [OF m1(2)] by simp
        have le: "expiry (timersLists s l) \<le> now" using False by simp
        then have late: "l \<in> late s m now" using l(1) by (simp add: late_def)
        have sizes: "card (late s1 m1 now) \<le> card (late s m now)" "card (due s1 m1 now) \<le> card (due s m now)"
          "0 < card (late s m now)"
          using p1 card_mono [OF finite_late [OF inv, of now]] card_mono [OF finite_due [OF inv, of now]] late finite_late [OF inv]
          by (auto simp: passes_def card_gt_0_iff)
        obtain out s2 m2 where r: "listOnTimeout n h l (msecs (timersLists s1 l)) now False s1 = Some (out, s2)" "passes now s1 m1 s2 m2"
          "good_outcome h out" "out = TimersDone \<longrightarrow> l \<notin> late s2 m2 now"
        proof (cases "l \<in> dom m1")
          case True
          then have "msecs (timersLists s l) = msecs (timersLists s1 l)" using evolvesD(3) [OF m1(2) l(1) True] by simp
          moreover have "card (due s1 m1 now) < n" using sizes Suc.prems(3) by simp
          ultimately show ?thesis
            using listOnTimeout_step [OF inv Some le _ now l(1) m1(1,2) now1] that by metis
        next
          case False
          obtain n' where "n = Suc n'" using sizes Suc.prems(3) by (cases n) auto
          then have "listOnTimeout n h l (msecs (timersLists s1 l)) now False s1 = Some (TimersDone, s1)"
            using peek_dead [OF inv l(1) m1(2) timers_invD(1) [OF m1(1)] False] by simp
          moreover have "l \<notin> late s1 m1 now" using False by (simp add: late_def)
          ultimately show ?thesis using passes_refl [OF m1(1)] by (intro that [of TimersDone s1 m1]) (auto simp: good_outcome_def)
        qed
        have p2: "passes now s m s2 m2" by (rule passes_trans [OF p1 r(2)])
        have run: "process_lists (Suc n) h now again s =
            (case out of TimersDone \<Rightarrow> process_lists n h now True s2 | _ \<Rightarrow> Some (out, 0, s2))"
          using Some False ticks None r(1) by (cases out) simp_all
        show ?thesis
        proof (cases "out = TimersDone")
          case True
          have "late s2 m2 now \<subset> late s m now" using r(4) True p2 late by (auto simp: passes_def)
          then have "card (late s2 m2 now) < card (late s m now)" by (rule psubset_card_mono [OF finite_late [OF inv]])
          moreover have "card (due s2 m2 now) \<le> card (due s m now)"
            using p2 by (intro card_mono [OF finite_due [OF inv]]) (simp add: passes_def)
          ultimately have "card (late s2 m2 now) + card (due s2 m2 now) < n" using Suc.prems(3) by simp
          moreover have "timers_inv s2 m2" "now \<le> libuvNow s2" using p2 now by (auto simp: passes_def)
          ultimately obtain out' v s' m' where q: "process_lists n h now True s2 = Some (out', v, s')" "passes now s2 m2 s' m'"
              "good_outcome h out'" "out' = TimersDone \<longrightarrow> late s' m' now = {} \<and>
               pass_answer s' v"
            using Suc.IH [of s2 m2 True] by blast
          then show ?thesis using run True passes_trans [OF p2 q(2)]
            by (intro exI [of _ out'] exI [of _ v] exI [of _ s'] exI [of _ m']) simp
        next
          case False
          then have "process_lists (Suc n) h now again s = Some (out, 0, s2)" using run by (cases out) simp_all
          then show ?thesis using False p2 r(3) by blast
        qed
      qed
    qed
  qed
qed simp

end
