(* ===== verification/TimersProps.thy ===== *)
theory TimersProps
  imports TimersLoop
begin

text \<open>
  The properties of the timers, over every state that calls and passes can reach from the loaded
  module, whatever the callbacks and the tick queue do.
\<close>

subsection \<open>Reachable states\<close>

lemma start_inv: "timers_inv (start_timers a) Map.empty"
proof -
  have "links_inv (start_timers a) Map.empty"
    by (simp add: links_inv_def start_timers_def lists_ok_def detached_def queue_holds_def new_pqueue_def content_def
        timer_order.pq_ok_def pq_wf_def less_Suc_eq timer_order.heap_ordered_def timer_positions.placed_def timer_positions.distinct_items_def)
  then show ?thesis by (simp add: timers_inv_def items_ok_def refs_ok_def actives_def start_timers_def)
qed

lemma pass_fuel_enough:
  assumes "timers_inv s m"
  shows "card (late s m now) + card (due s m now) < pass_fuel s"
proof -
  note l = links_invD [OF timers_invD(1) [OF assms]]
  have "late s m now \<subseteq> {..<nextObject s}" "due s m now \<subseteq> {..<nextObject s}"
    using l(5,6) by (auto simp: late_def due_def)
  then have "card (late s m now) \<le> nextObject s" "card (due s m now) \<le> nextObject s"
    by (metis card_lessThan card_mono finite_lessThan)+
  then show ?thesis by (simp add: pass_fuel_def)
qed

lemma pass_step:
  assumes "timers_inv s m" "now \<le> libuvNow s"
  obtains out r s' m' where "timers_pass h now s = Some (out, r, s')" "passes now s m s' m'" "good_outcome h out"
    "out = TimersDone \<longrightarrow> late s' m' now = {} \<and> pass_answer s' r"
proof -
  let ?s = "s\<lparr>nextExpiry := None\<rparr>"
  have "links_inv ?s = links_inv s" by (rule links_inv_fields) simp_all
  note same = same_lists_inv [OF this]
  have inv: "timers_inv ?s m" using same assms(1) by simp
  have fuel: "card (late ?s m now) + card (due ?s m now) < pass_fuel s"
    using pass_fuel_enough [OF inv, of now] by (simp add: pass_fuel_def)
  have same_pass: "passes now s m s' m'" if "passes now ?s m s' m'" for s' m'
    using that same(3) by (simp add: passes_def late_def calls_made_def)
  have "now \<le> libuvNow ?s" using assms(2) by simp
  from process_lists_step [OF inv this fuel, where h = h and again = False] obtain out r s' m' where
    "process_lists (pass_fuel s) h now False ?s = Some (out, r, s')" "passes now ?s m s' m'" "good_outcome h out"
    "out = TimersDone \<longrightarrow> late s' m' now = {} \<and> pass_answer s' r" by blast
  then show ?thesis using same_pass by (intro that) (simp_all add: timers_pass_def processTimers_def)
qed

lemma reach_inv: "timers_reach h s \<Longrightarrow> \<exists>m. timers_inv s m"
proof (induction rule: timers_reach.induct)
  case (reach_start a)
  then show ?case using start_inv by blast
next
  case (reach_calls s cs)
  then show ?case using timer_calls_step by blast
next
  case (reach_pass s now out r s')
  then show ?case using pass_step by (metis option.inject prod.inject passes_def)
qed

subsection \<open>Observations\<close>

definition timer_due :: "timers \<Rightarrow> int \<Rightarrow> nat \<Rightarrow> bool" where
  "timer_due s now t \<longleftrightarrow>
     (case timeouts s t of
        None \<Rightarrow> False
      | Some T \<Rightarrow> \<not> destroyed T \<and>
          (case idleStart T of None \<Rightarrow> False | Some x \<Rightarrow> x + MathTrunc (idleTimeout T) \<le> now))"

lemma due_timer_due:
  assumes "timers_inv s m" "t \<in> due s m now"
  shows "timer_due s now t"
proof -
  obtain l xs T x where t: "m l = Some xs" "t \<in> set xs" "timeouts s t = Some T" "idleStart T = Some x"
    "x + msecs (timersLists s l) \<le> now" using assms(2) by (auto simp: due_def)
  have "item_ok s l t" using timers_invD(2) [OF assms(1)] t(1,2) by (auto simp: items_ok_def)
  then show ?thesis using t by (simp add: item_ok_def timer_due_def)
qed

lemma clear_destroyed:
  assumes "timeouts s t = Some T"
  shows "\<exists>T'. timeouts (clear_instance t s) t = Some T' \<and> destroyed T'"
proof -
  have "timeouts (drop_empty_list k s) = timeouts s" for k s
    by (simp add: drop_empty_list_def Let_def split: option.split)
  then show ?thesis
    using assms by (auto simp: clear_instance_def unenroll_def upd_timeout_def Let_def)
qed

text \<open>The bundles that evaluate calls and queue operations on a concrete state.\<close>

lemmas call_simps = start_timers_def idle_fields_def setTimeout_def schedule_def validateFunction_def new_Timeout_def
  timeout_duration_def TIMEOUT_MAX_def MathTrunc_def L_init_def L_append_def L_remove_def L_peek_def set_next_def set_prev_def
  incRefCount_def decRefCount_def log_call_def upd_timeout_def initAsyncResource_def newAsyncId_def getDefaultTriggerAsyncId_def
  initHooksExist_def insert_timer_def insertGuarded_def active_def timeout_refresh_def timeout_toPrimitive_def list_for_def
  new_TimersList_def with_queue_def compareTimersLists_def setPosition_def Let_def

lemmas queue_simps = new_pqueue_def pq_insert_def pq_peek_def pq_shift_def removeAt_def percolateUp_def percolateDown_def
  up_heap.simps down_heap.simps array_get_def array_put_def call_setPosition_def

definition idle_host :: timer_host where
  "idle_host = \<lparr>host_callback = (\<lambda>f args s. ([], None)), host_ticks = (\<lambda>s. ([], None))\<rparr>"

abbreviation one_timer :: timers where
  "one_timer \<equiv> timer_calls [SetTimeout (JFunction 7) (Some (Fin 10)) [], TimePasses 10] (start_timers idle_fields)"

lemma one_timer_reach: "timers_reach idle_host one_timer"
  by (intro reach_calls reach_start)

lemma one_timer_now: "10 \<le> libuvNow one_timer"
proof -
  have "0 \<le> libuvNow (timer_calls [SetTimeout (JFunction 7) (Some (Fin 10)) []] (start_timers idle_fields))"
    using timer_calls_step [OF start_inv, of "[SetTimeout (JFunction 7) (Some (Fin 10)) []]" idle_fields 0] evolvesD(1)
    by (fastforce simp: start_timers_def)
  then show ?thesis by (simp del: do_call.simps(1))
qed

subsection \<open>Properties\<close>

text \<open>
  C22: The invariant of the timers in every reachable state: the links are disjoint rings, one per
  duration in the map; the queue is a heap of exactly these lists, each at the position it has stored
  and each with its own id; a listed timer is scheduled, alive and in the list of its duration; and
  the reference count is the number of live timers with a reference.
\<close>

theorem timers_invariant:
  assumes "timers_reach h s"
  shows "\<exists>m. timers_inv s m"
  using reach_inv [OF assms] .

theorem timers_invariant_witness: "\<exists>m. timers_inv one_timer m"
  by (rule timers_invariant [OF one_timer_reach])

text \<open>
  The reference count that keeps the process alive is the number of timers that have a reference
  and are not destroyed.
\<close>

lemma timeoutInfo_counts:
  assumes "timers_reach h s"
  shows "timeoutInfo s = int (card {t. \<exists>T. timeouts s t = Some T \<and> refed T \<and> \<not> destroyed T}) \<and>
    finite (dom (timeouts s))"
  using reach_inv [OF assms] by (auto simp: timers_inv_def refs_ok_def actives_def timer_active_def)

lemma timeoutInfo_counts_witness:
  "timeoutInfo one_timer = int (card {t. \<exists>T. timeouts one_timer t = Some T \<and> refed T \<and> \<not> destroyed T}) \<and>
    finite (dom (timeouts one_timer))"
  by (rule timeoutInfo_counts [OF one_timer_reach])

text \<open>
  C23: A pass comes to an end whatever the callbacks and the tick queue do with the timers, and it
  fails only with an error that one of them throws; the async id stack is never found corrupted.
\<close>

theorem timers_pass_ends:
  assumes "timers_reach h s" "now \<le> libuvNow s"
  shows "\<exists>out r s'. timers_pass h now s = Some (out, r, s') \<and>
    (out = TimersDone \<or> (\<exists>e. out = TimersThrew e \<and>
       ((\<exists>f args s. snd (host_callback h f args s) = Some e) \<or> (\<exists>s. snd (host_ticks h s) = Some e))))"
proof -
  obtain m where "timers_inv s m" using reach_inv [OF assms(1)] by blast
  from pass_step [OF this assms(2), of h] show ?thesis by (metis good_outcome_def host_throws_def)
qed

theorem timers_pass_ends_witness:
  "\<exists>out r s'. timers_pass idle_host 10 one_timer = Some (out, r, s') \<and>
    (out = TimersDone \<or> (\<exists>e. out = TimersThrew e \<and>
       ((\<exists>f args s. snd (host_callback idle_host f args s) = Some e) \<or> (\<exists>s. snd (host_ticks idle_host s) = Some e))))"
  by (rule timers_pass_ends [OF one_timer_reach one_timer_now])

text \<open>
  C24: A pass calls no timer twice, and only timers that were alive and due when it began: neither a
  timer that a callback adds or refreshes for later nor one that was cancelled before.
\<close>

theorem timers_pass_calls_due:
  assumes "timers_reach h s" "now \<le> libuvNow s"
  shows "\<exists>out r s' ts. timers_pass h now s = Some (out, r, s') \<and>
    calledTimers s' = calledTimers s @ map (\<lambda>t. (t, now)) ts \<and> distinct ts \<and> (\<forall>t \<in> set ts. timer_due s now t)"
proof -
  obtain m where m: "timers_inv s m" using reach_inv [OF assms(1)] by blast
  obtain out r s' m' where p: "timers_pass h now s = Some (out, r, s')" "passes now s m s' m'"
    using pass_step [OF m assms(2), of h] by metis
  then obtain ts where "calls_made s s' ts now" "set ts \<subseteq> due s m now" by (auto simp: passes_def)
  then show ?thesis using p(1) due_timer_due [OF m] unfolding calls_made_def by blast
qed

theorem timers_pass_calls_due_witness:
  "\<exists>out r s' ts. timers_pass idle_host 10 one_timer = Some (out, r, s') \<and>
    calledTimers s' = calledTimers one_timer @ map (\<lambda>t. (t, 10)) ts \<and> distinct ts \<and> (\<forall>t \<in> set ts. timer_due one_timer 10 t)"
  by (rule timers_pass_calls_due [OF one_timer_reach one_timer_now])

text \<open>
  When a pass is done no list is due at its time any more, and its answer is 0 when there is no
  list left, else the earliest expiry, negative when no live timer has a reference.
\<close>

lemma timers_pass_answer:
  assumes "timers_reach h s" "now \<le> libuvNow s"
  shows "\<exists>out r s'. timers_pass h now s = Some (out, r, s') \<and> (out = TimersDone \<longrightarrow>
    (\<forall>l \<in> ran (timerListMap s'). now < expiry (timersLists s' l)) \<and>
    (if ran (timerListMap s') = {} then r = 0
     else \<exists>l \<in> ran (timerListMap s'). (\<forall>k \<in> ran (timerListMap s'). expiry (timersLists s' l) \<le> expiry (timersLists s' k)) \<and>
       r = (if timeoutInfo s' > 0 then expiry (timersLists s' l) else - expiry (timersLists s' l)) \<and>
       nextExpiry s' = Some (expiry (timersLists s' l))))"
proof -
  obtain m where m: "timers_inv s m" using reach_inv [OF assms(1)] by blast
  obtain out r s' m' where p: "timers_pass h now s = Some (out, r, s')" "passes now s m s' m'"
    "out = TimersDone \<longrightarrow> late s' m' now = {} \<and> pass_answer s' r"
    using pass_step [OF m assms(2), of h] by metis
  then have links: "links_inv s' m'" by (simp add: passes_def timers_inv_def)
  have dom: "dom m' = ran (timerListMap s')" by (rule links_invD(2) [OF links])
  note peek = queue_peek [OF links_invD(7) [OF links]]
  show ?thesis
  proof (intro exI conjI impI)
    show "timers_pass h now s = Some (out, r, s')" by fact
  next
    assume "out = TimersDone"
    then have late: "late s' m' now = {}" and ans: "pass_answer s' r" using p(3) by simp_all
    show "\<forall>l \<in> ran (timerListMap s'). now < expiry (timersLists s' l)"
      unfolding dom [symmetric]
    proof
      fix l assume "l \<in> dom m'"
      then show "now < expiry (timersLists s' l)" using late by (simp add: late_def not_le [symmetric] del: not_le)
    qed
    show "if ran (timerListMap s') = {} then r = 0
     else \<exists>l \<in> ran (timerListMap s'). (\<forall>k \<in> ran (timerListMap s'). expiry (timersLists s' l) \<le> expiry (timersLists s' k)) \<and>
       r = (if timeoutInfo s' > 0 then expiry (timersLists s' l) else - expiry (timersLists s' l)) \<and>
       nextExpiry s' = Some (expiry (timersLists s' l))"
    proof (cases "pq_peek (timerListQueue s')")
      case None
      then show ?thesis using peek ans by (simp add: pass_answer_def dom)
    next
      case (Some l)
      have "expiry (timersLists s' l) \<le> expiry (timersLists s' k)" if "k \<in> dom m'" for k
      proof -
        have "compareTimersLists (timersLists s') l k \<le> 0" using peek that Some by simp
        then show ?thesis by (simp add: compareTimersLists_def Let_def split: if_splits)
      qed
      then show ?thesis using peek ans Some unfolding dom [symmetric] by (auto simp: pass_answer_def)
    qed
  qed
qed

lemma timers_pass_answer_witness:
  "\<exists>out r s'. timers_pass idle_host 10 one_timer = Some (out, r, s') \<and> (out = TimersDone \<longrightarrow>
    (\<forall>l \<in> ran (timerListMap s'). 10 < expiry (timersLists s' l)) \<and>
    (if ran (timerListMap s') = {} then r = 0
     else \<exists>l \<in> ran (timerListMap s'). (\<forall>k \<in> ran (timerListMap s'). expiry (timersLists s' l) \<le> expiry (timersLists s' k)) \<and>
       r = (if timeoutInfo s' > 0 then expiry (timersLists s' l) else - expiry (timersLists s' l)) \<and>
       nextExpiry s' = Some (expiry (timersLists s' l))))"
  by (rule timers_pass_answer [OF one_timer_reach one_timer_now])

text \<open>
  C25: A timer that \<^verbatim>\<open>clearTimeout\<close> has cancelled is not called by the next pass, even when a callback
  of that pass refreshes it.
\<close>

theorem cleared_timer_not_called:
  assumes "timers_reach h s" "timeouts s t = Some T" "onTimeout T \<noteq> None" "now \<le> libuvNow s"
  shows "\<exists>out r s' ts. timers_pass h now (clearTimeout (TimerObject t) s) = Some (out, r, s') \<and>
    calledTimers s' = calledTimers s @ map (\<lambda>t. (t, now)) ts \<and> t \<notin> set ts"
proof -
  let ?s = "clearTimeout (TimerObject t) s"
  obtain m0 where m0: "timers_inv s m0" using reach_inv [OF assms(1)] by blast
  obtain m where m: "timers_inv ?s m" "evolves now s m0 ?s m" "quiet s ?s" using clearTimeout_step [OF m0] by blast
  have "now \<le> libuvNow ?s" using assms(4) evolvesD(1) [OF m(2)] by simp
  from pass_step [OF m(1) this, of h] obtain out r s' m' where p: "timers_pass h now ?s = Some (out, r, s')" "passes now ?s m s' m'"
    by metis
  then obtain ts where ts: "calls_made ?s s' ts now" "set ts \<subseteq> due ?s m now" by (auto simp: passes_def)
  have "?s = clear_instance t s" using assms(2,3) by (simp add: clearTimeout_def)
  then have "\<not> timer_due ?s now t" using clear_destroyed [OF assms(2)] by (auto simp: timer_due_def)
  then have "t \<notin> set ts" using due_timer_due [OF m(1)] ts(2) by blast
  then show ?thesis using p(1) ts(1) m(3) by (auto simp: calls_made_def quiet_def)
qed

theorem cleared_timer_not_called_witness:
  "\<exists>out r s' ts. timers_pass idle_host 10 (clearTimeout (TimerObject 0) one_timer) = Some (out, r, s') \<and>
    calledTimers s' = calledTimers one_timer @ map (\<lambda>t. (t, 10)) ts \<and> 0 \<notin> set ts"
proof -
  have "\<exists>T. timeouts one_timer 0 = Some T \<and> onTimeout T \<noteq> None"
    by (simp add: call_simps queue_simps)
  then show ?thesis using cleared_timer_not_called [OF one_timer_reach _ _ one_timer_now] by blast
qed

text \<open>
  C26: Every duration a timer is given lies between 1 and \<^verbatim>\<open>TIMEOUT_MAX\<close>, whatever the argument, and
  \<^verbatim>\<open>getTimerDuration\<close> answers a number between 0 and \<^verbatim>\<open>TIMEOUT_MAX\<close> or refuses its argument.
\<close>

theorem timer_duration_bounds:
  "1 \<le> fst (timeout_duration after s) \<and> fst (timeout_duration after s) \<le> of_int TIMEOUT_MAX \<and>
   (case getTimerDuration ms name s of
      Inr (r, s') \<Rightarrow> 0 \<le> r \<and> r \<le> of_int TIMEOUT_MAX \<and> (\<exists>x. ms = JNum (Fin x) \<and> r = min x (of_int TIMEOUT_MAX))
    | Inl e \<Rightarrow> (case ms of JNum (Fin x) \<Rightarrow> x < 0 | _ \<Rightarrow> True))"
proof -
  have max: "(1 :: rat) \<le> of_int TIMEOUT_MAX" by (simp add: TIMEOUT_MAX_def)
  have "1 \<le> fst (timeout_duration after s)" "fst (timeout_duration after s) \<le> of_int TIMEOUT_MAX"
    using max by (auto simp: timeout_duration_def split: option.split jsnum.split)
  moreover have "case getTimerDuration ms name s of
      Inr (r, s') \<Rightarrow> 0 \<le> r \<and> r \<le> of_int TIMEOUT_MAX \<and> (\<exists>x. ms = JNum (Fin x) \<and> r = min x (of_int TIMEOUT_MAX))
    | Inl e \<Rightarrow> (case ms of JNum (Fin x) \<Rightarrow> x < 0 | _ \<Rightarrow> True)"
    using max by (auto simp: getTimerDuration_def validateNumber_def split: jsval.split jsnum.split)
  ultimately show ?thesis by blast
qed

end
