(* ===== verification/TimersExamples.thy ===== *)
theory TimersExamples
  imports TimersProps
begin

text \<open>
  Two runs of the timers, evaluated, in which the code does not do what is asked of it: the id of a
  timer that is used again is not known, and a timer that the tick queue refreshes while its list is
  being run is called all the same.
\<close>

lemmas pass_simps = timers_pass_def processTimers_def pass_fuel_def eval_nat_numeral process_lists.simps run_ticks_def run_host_def
  fire_timer_def call_timer_def enter_timer_def after_call_def destroy_fired_def postpone_list_def finish_list_def
  emitBefore_def emitAfter_def emitDestroy_def pushAsyncContext_def popAsyncContext_def
  native_push_def native_pop_def stack_read_def idle_fields_def

definition after_pass :: "timer_host \<Rightarrow> int \<Rightarrow> timers \<Rightarrow> timers" where
  "after_pass h now s = (case timers_pass h now s of Some (_, _, s') \<Rightarrow> s' | None \<Rightarrow> s)"

text \<open>A timer whose id has been taken fires, is started again, and its new id is taken.\<close>

definition reused_timer :: timers where
  "reused_timer = timer_calls [Refresh 0, ToPrimitive 0]
     (after_pass idle_host 10 (timer_calls [SetTimeout (JFunction 7) (Some (Fin 10)) [], ToPrimitive 0, TimePasses 10]
        (start_timers idle_fields)))"

text \<open>
  After that the timer is alive and will fire, but its id is not among the known ids: the flag
  \<^verbatim>\<open>kHasPrimitive\<close> is still set from before, so \<^verbatim>\<open>clearTimeout\<close> with the id does nothing.
\<close>

lemma reused_timer_id_unknown:
  "\<exists>T. timeouts reused_timer 0 = Some T \<and> \<not> destroyed T \<and> refed T \<and> onTimeout T = Some 7 \<and>
     knownTimersById reused_timer (timer_async_id T) = None \<and>
     clearTimeout (TimerId (timer_async_id T)) reused_timer = reused_timer"
  by (simp add: reused_timer_def after_pass_def idle_host_def clearTimeout_def call_simps queue_simps pass_simps)

text \<open>Two timers of one list are due; the tick queue, which runs between them, refreshes the second.\<close>

definition refreshing_host :: timer_host where
  "refreshing_host = \<lparr>host_callback = (\<lambda>f args s. ([], None)), host_ticks = (\<lambda>s. ([Refresh 2], None))\<rparr>"

definition refreshed_timer :: timers where
  "refreshed_timer = after_pass refreshing_host 10
     (timer_calls [SetTimeout (JFunction 7) (Some (Fin 10)) [], SetTimeout (JFunction 8) (Some (Fin 10)) [], TimePasses 10]
        (start_timers idle_fields))"

text \<open>
  The refreshed timer is called in this pass although it was started anew at the time of the
  pass, and then destroyed: the delay was computed before the tick queue ran.
\<close>

lemma refreshed_by_tick_is_called:
  "calledTimers refreshed_timer = [(0, 10), (2, 10)] \<and>
   (\<exists>T. timeouts refreshed_timer 2 = Some T \<and> idleStart T = Some 10 \<and> idleTimeout T = 10 \<and> destroyed T)"
  by (simp add: refreshed_timer_def after_pass_def refreshing_host_def call_simps queue_simps pass_simps)

end
