(* ===== verification/Immediates.thy ===== *)
theory Immediates
  imports LinkedList AsyncIds
begin

text \<open>
  The immediates of lib/internal/timers.js and lib/timers.js: a doubly linked queue that ends in null,
  the counts shared with the native side, and \<^verbatim>\<open>processImmediate\<close>, which takes the whole queue, calls
  its items one after the other, and keeps the rest in a second queue when one of them throws.
\<close>

subsection \<open>State\<close>

record immediate =
  onImmediate :: "nat option"
  immArgv :: "jsval list option"
  immDestroyed :: bool
  immRefed :: "bool option"          \<comment> \<open>\<open>None\<close> is null\<close>
  imm_async_id :: nat
  imm_trigger_id :: async_num
  imm_frame :: nat

record immediates = links +
  objects :: "nat \<rightharpoonup> immediate"
  queueHead :: "nat option"
  queueTail :: "nat option"
  outstandingHead :: "nat option"
  infoCount :: int
  infoRefCount :: int
  hasOutstanding :: bool
  toggleLog :: "bool list"
  immAsync :: async_fields
  immContext :: nat
  nextImmediate :: nat
  calledImmediates :: "nat list"     \<comment> \<open>whose callbacks have been called, in order\<close>
  clearedImmediates :: "nat list"    \<comment> \<open>which \<^verbatim>\<open>clearImmediate\<close> has cleared, in order\<close>

definition upd_immediate :: "nat \<Rightarrow> (immediate \<Rightarrow> immediate) \<Rightarrow> immediates \<Rightarrow> immediates" where
  "upd_immediate i f s = s\<lparr>objects := (objects s)(i := map_option f (objects s i))\<rparr>"

definition toggleImmediateRef :: "bool \<Rightarrow> immediates \<Rightarrow> immediates" where
  "toggleImmediateRef b s = s\<lparr>toggleLog := toggleLog s @ [b]\<rparr>"

definition init_immediate_resource :: "nat \<Rightarrow> immediates \<Rightarrow> immediates" where
  "init_immediate_resource i s =
     (let (asyncId, a) = newAsyncId (immAsync s);
          triggerAsyncId = getDefaultTriggerAsyncId a;
          s = upd_immediate i (\<lambda>I. I\<lparr>imm_async_id := asyncId, imm_trigger_id := triggerAsyncId,
                                    imm_frame := immContext s\<rparr>) s
      in s\<lparr>immAsync := (if initHooksExist a then emitInit asyncId ''Immediate'' (Some triggerAsyncId) a else a)\<rparr>)"

subsection \<open>ImmediateList\<close>

definition queue_append :: "nat \<Rightarrow> immediates \<Rightarrow> immediates" where
  "queue_append item s =
     (let s = (case queueTail s of
                 Some t \<Rightarrow> set_prev item (Some t) (set_next t (Some item) s)
               | None \<Rightarrow> s\<lparr>queueHead := Some item\<rparr>)
      in s\<lparr>queueTail := Some item\<rparr>)"

definition queue_remove :: "nat \<Rightarrow> immediates \<Rightarrow> immediates" where
  "queue_remove item s =
     (let s = (case idleNext s item of Some n \<Rightarrow> set_prev n (idlePrev s item) s | None \<Rightarrow> s);
          s = (case idlePrev s item of Some p \<Rightarrow> set_next p (idleNext s item) s | None \<Rightarrow> s);
          s = (if queueHead s = Some item then s\<lparr>queueHead := idleNext s item\<rparr> else s);
          s = (if queueTail s = Some item then s\<lparr>queueTail := idlePrev s item\<rparr> else s)
      in set_prev item None (set_next item None s))"

subsection \<open>Immediate objects\<close>

definition immediate_ref :: "nat \<Rightarrow> immediates \<Rightarrow> immediates" where
  "immediate_ref i s =
     (case objects s i of
        None \<Rightarrow> s
      | Some I \<Rightarrow>
          if immRefed I = Some False
          then (let s = upd_immediate i (\<lambda>I. I\<lparr>immRefed := Some True\<rparr>) s;
                    s' = s\<lparr>infoRefCount := infoRefCount s + 1\<rparr>
                in if infoRefCount s = 0 then toggleImmediateRef True s' else s')
          else s)"

definition immediate_unref :: "nat \<Rightarrow> immediates \<Rightarrow> immediates" where
  "immediate_unref i s =
     (case objects s i of
        None \<Rightarrow> s
      | Some I \<Rightarrow>
          if immRefed I = Some True
          then (let s = upd_immediate i (\<lambda>I. I\<lparr>immRefed := Some False\<rparr>) s;
                    s' = s\<lparr>infoRefCount := infoRefCount s - 1\<rparr>
                in if infoRefCount s' = 0 then toggleImmediateRef False s' else s')
          else s)"

definition immediate_hasRef :: "nat \<Rightarrow> immediates \<Rightarrow> bool" where
  "immediate_hasRef i s = (case objects s i of None \<Rightarrow> False | Some I \<Rightarrow> immRefed I = Some True)"

definition new_Immediate :: "nat \<Rightarrow> jsval list option \<Rightarrow> immediates \<Rightarrow> nat \<times> immediates" where
  "new_Immediate callback args s =
     (let i = nextImmediate s;
          s = s\<lparr>nextImmediate := i + 1\<rparr>;
          s = set_prev i None (set_next i None s);
          s = s\<lparr>objects := (objects s)(i \<mapsto>
                \<lparr>onImmediate = Some callback, immArgv = args, immDestroyed = False, immRefed = Some False,
                 imm_async_id = 0, imm_trigger_id = Some 0, imm_frame = 0\<rparr>)\<rparr>;
          s = init_immediate_resource i s;
          s = immediate_ref i s;
          s = s\<lparr>infoCount := infoCount s + 1\<rparr>
      in (i, queue_append i s))"

definition setImmediate :: "jsval \<Rightarrow> jsval list \<Rightarrow> immediates \<Rightarrow> (nat \<times> immediates) result" where
  "setImmediate callback args s =
     bind (validateFunction callback ''callback'') (\<lambda>f.
     Inr (new_Immediate f (if args = [] then None else Some args) s))"

text \<open>\<open>None\<close> is an argument that is no immediate.\<close>

definition clearImmediate :: "nat option \<Rightarrow> immediates \<Rightarrow> immediates" where
  "clearImmediate arg s =
     (case arg of
        None \<Rightarrow> s
      | Some i \<Rightarrow>
          (case objects s i of
             None \<Rightarrow> s
           | Some I \<Rightarrow>
               if onImmediate I = None \<or> immDestroyed I then s
               else
                 (let s = s\<lparr>infoCount := infoCount s - 1, clearedImmediates := clearedImmediates s @ [i]\<rparr>;
                      s = upd_immediate i (\<lambda>I. I\<lparr>immDestroyed := True\<rparr>) s;
                      s = (if immRefed I = Some True
                           then (let s = s\<lparr>infoRefCount := infoRefCount s - 1\<rparr>
                                 in if infoRefCount s = 0 then toggleImmediateRef False s else s)
                           else s);
                      s = upd_immediate i (\<lambda>I. I\<lparr>immRefed := None\<rparr>) s;
                      s = s\<lparr>immAsync := emitDestroy (imm_async_id I) (immAsync s)\<rparr>;
                      s = upd_immediate i (\<lambda>I. I\<lparr>onImmediate := None\<rparr>) s
                  in queue_remove i s)))"

subsection \<open>What a program does with immediates\<close>

datatype immediate_call =
    SetImmediate jsval "jsval list"
  | ClearImmediate "nat option"
  | RefImmediate nat
  | UnrefImmediate nat

fun do_immediate_call :: "immediate_call \<Rightarrow> immediates \<Rightarrow> immediates" where
  "do_immediate_call (SetImmediate f args) s = (case setImmediate f args s of Inr (_, s') \<Rightarrow> s' | Inl e \<Rightarrow> s)"
| "do_immediate_call (ClearImmediate a) s = clearImmediate a s"
| "do_immediate_call (RefImmediate i) s = immediate_ref i s"
| "do_immediate_call (UnrefImmediate i) s = immediate_unref i s"

fun immediate_calls :: "immediate_call list \<Rightarrow> immediates \<Rightarrow> immediates" where
  "immediate_calls [] s = s"
| "immediate_calls (c # cs) s = immediate_calls cs (do_immediate_call c s)"

record immediate_host =
  imm_callback :: "nat \<Rightarrow> jsval list \<Rightarrow> immediates \<Rightarrow> immediate_call list \<times> jserror option"
  imm_ticks :: "immediates \<Rightarrow> immediate_call list \<times> jserror option"

datatype immediate_outcome = ImmediatesDone | ImmediatesThrew jserror

definition run_immediate_host :: "immediate_call list \<times> jserror option \<Rightarrow> immediates \<Rightarrow> jserror option \<times> immediates" where
  "run_immediate_host c s = (snd c, immediate_calls (fst c) s)"

subsection \<open>processImmediate\<close>

text \<open>The immediate is taken out of the counts and its context entered.\<close>

definition enter_immediate :: "nat \<Rightarrow> immediate \<Rightarrow> immediates \<Rightarrow> immediates" where
  "enter_immediate i I s =
     (let s = upd_immediate i (\<lambda>I. I\<lparr>immDestroyed := True\<rparr>) s;
          s = s\<lparr>infoCount := infoCount s - 1\<rparr>;
          s = (if immRefed I = Some True then s\<lparr>infoRefCount := infoRefCount s - 1\<rparr> else s);
          s = upd_immediate i (\<lambda>I. I\<lparr>immRefed := None\<rparr>) s;
          s = s\<lparr>immContext := imm_frame I\<rparr>
      in s\<lparr>immAsync := emitBefore (imm_async_id I) (imm_trigger_id I) (immAsync s)\<rparr>)"

text \<open>The call of the callback, which is recorded.\<close>

definition invoke_immediate ::
  "immediate_host \<Rightarrow> nat \<Rightarrow> nat \<Rightarrow> jsval list \<Rightarrow> immediates \<Rightarrow> jserror option \<times> immediates" where
  "invoke_immediate h i f argv s =
     (let s = s\<lparr>calledImmediates := calledImmediates s @ [i]\<rparr>
      in run_immediate_host (imm_callback h f argv s) s)"

text \<open>The \<^verbatim>\<open>finally\<close> block, which runs whether the callback returns or throws.\<close>

definition leave_immediate :: "nat \<Rightarrow> nat \<Rightarrow> immediates \<Rightarrow> immediates" where
  "leave_immediate i asyncId s =
     (let s = upd_immediate i (\<lambda>I. I\<lparr>onImmediate := None\<rparr>) s;
          s = s\<lparr>immAsync := emitDestroy asyncId (immAsync s)\<rparr>
      in s\<lparr>outstandingHead := idleNext s i\<rparr>)"

definition call_immediate :: "immediate_host \<Rightarrow> nat \<Rightarrow> immediate \<Rightarrow> immediates \<Rightarrow> immediate_outcome \<times> immediates" where
  "call_immediate h i I s =
     (let priorContextFrame = immContext s;
          asyncId = imm_async_id I;
          s = enter_immediate i I s;
          argv = (case immArgv I of None \<Rightarrow> [] | Some args \<Rightarrow> args);
          (err, s) = (case onImmediate I of
                        None \<Rightarrow> (Some (TypeError ''immediate._onImmediate is not a function''), s)
                      | Some f \<Rightarrow> invoke_immediate h i f argv s);
          s = leave_immediate i asyncId s
      in case err of
           Some e \<Rightarrow> (ImmediatesThrew e, s)
         | None \<Rightarrow>
             (ImmediatesDone, s\<lparr>immAsync := emitAfter asyncId (immAsync s), immContext := priorContextFrame\<rparr>))"

definition immediate_ticks :: "immediate_host \<Rightarrow> bool \<Rightarrow> immediates \<Rightarrow> jserror option \<times> immediates" where
  "immediate_ticks h again s = (if again then run_immediate_host (imm_ticks h s) s else (None, s))"

text \<open>
  The loop over the queue, with fuel for the items it meets. \<open>prev\<close> is \<^verbatim>\<open>prevImmediate\<close>, undefined before
  the first call.
\<close>

fun immediate_loop ::
  "nat \<Rightarrow> immediate_host \<Rightarrow> nat option \<Rightarrow> nat option \<Rightarrow> bool \<Rightarrow> immediates \<Rightarrow> (immediate_outcome \<times> immediates) option" where
  "immediate_loop 0 h imm prev again s = None"
| "immediate_loop (Suc n) h imm prev again s =
     (case imm of
        None \<Rightarrow> Some (ImmediatesDone, s)
      | Some i \<Rightarrow>
          (case immediate_ticks h again s of
             (Some e, s) \<Rightarrow> Some (ImmediatesThrew e, s)
           | (None, s) \<Rightarrow>
               (case objects s i of
                  None \<Rightarrow> None
                | Some I \<Rightarrow>
                    if immDestroyed I
                    then (case prev of
                            None \<Rightarrow> Some (ImmediatesThrew (TypeError ''Cannot read properties of undefined''), s)
                          | Some p \<Rightarrow> immediate_loop n h (idleNext s p) prev True (s\<lparr>outstandingHead := idleNext s p\<rparr>))
                    else
                      (case call_immediate h i I s of
                         (ImmediatesDone, s) \<Rightarrow> immediate_loop n h (outstandingHead s) (Some i) True s
                       | r \<Rightarrow> Some r))))"

definition processImmediate :: "nat \<Rightarrow> immediate_host \<Rightarrow> immediates \<Rightarrow> (immediate_outcome \<times> immediates) option" where
  "processImmediate n h s =
     (let outstanding = (outstandingHead s \<noteq> None);
          immediate = (if outstanding then outstandingHead s else queueHead s);
          s = (if outstanding then s else s\<lparr>queueHead := None, queueTail := None, hasOutstanding := True\<rparr>)
      in case immediate_loop n h immediate None False s of
           Some (ImmediatesDone, s) \<Rightarrow>
             (let s = (if outstanding then s\<lparr>outstandingHead := None\<rparr> else s)
              in Some (ImmediatesDone, s\<lparr>hasOutstanding := False\<rparr>))
         | r \<Rightarrow> r)"

definition start_immediates :: "async_fields \<Rightarrow> immediates" where
  "start_immediates a =
     \<lparr>idleNext = (\<lambda>_. None), idlePrev = (\<lambda>_. None), objects = Map.empty, queueHead = None, queueTail = None,
      outstandingHead = None, infoCount = 0, infoRefCount = 0, hasOutstanding = False, toggleLog = [], immAsync = a,
      immContext = 0, nextImmediate = 0, calledImmediates = [], clearedImmediates = []\<rparr>"

end
