(* ===== verification/ImmediatesInv.thy ===== *)
theory ImmediatesInv
  imports Immediates
begin

text \<open>
  The two queues of immediates as lists. \<open>q\<close> are the immediates that wait, \<open>r\<close> the rest of a queue
  that is being run, and \<open>p\<close> the one that was called last, whose \<^verbatim>\<open>_idleNext\<close> still leads to that
  rest. Everything a callback may do with immediates keeps this shape.
\<close>

subsection \<open>Queues that end in null\<close>

definition first_or :: "'a list \<Rightarrow> 'a option \<Rightarrow> 'a option" where
  "first_or xs e = (case xs of [] \<Rightarrow> e | x # _ \<Rightarrow> Some x)"

definition last_or :: "'a option \<Rightarrow> 'a list \<Rightarrow> 'a option" where
  "last_or p xs = (if xs = [] then p else Some (last xs))"

lemma first_or_simps [simp]: "first_or [] e = e" "first_or (x # xs) e = Some x"
  by (simp_all add: first_or_def)

lemma last_or_simps [simp]: "last_or p [] = p" "last_or p (x # xs) = last_or (Some x) xs" "last_or p (xs @ [x]) = Some x"
  by (simp_all add: last_or_def)

lemma first_or_append [simp]: "first_or (xs @ ys) e = first_or xs (first_or ys e)"
  by (cases xs) simp_all

lemma last_or_append [simp]: "last_or p (xs @ ys) = last_or (last_or p xs) ys"
  by (simp add: last_or_def)

lemma first_or_None: "first_or xs None = None \<longleftrightarrow> xs = []"
  by (cases xs) simp_all

fun seg :: "'a links_scheme \<Rightarrow> nat option \<Rightarrow> nat list \<Rightarrow> nat option \<Rightarrow> bool" where
  "seg s p [] e \<longleftrightarrow> True"
| "seg s p (x # xs) e \<longleftrightarrow> idlePrev s x = p \<and> idleNext s x = first_or xs e \<and> seg s (Some x) xs e"

lemma seg_append: "seg s p (ys @ zs) e \<longleftrightarrow> seg s p ys (first_or zs e) \<and> seg s (last_or p ys) zs e"
  by (induction ys arbitrary: p) auto

lemma seg_cong:
  "(\<And>x. x \<in> set xs \<Longrightarrow> idleNext s x = idleNext t x \<and> idlePrev s x = idlePrev t x) \<Longrightarrow> seg s p xs e \<longleftrightarrow> seg t p xs e"
  by (induction xs arbitrary: p) auto

lemma seg_set [simp]:
  "x \<notin> set xs \<Longrightarrow> seg (set_next x v s) p xs e \<longleftrightarrow> seg s p xs e"
  "x \<notin> set xs \<Longrightarrow> seg (set_prev x v s) p xs e \<longleftrightarrow> seg s p xs e"
  by (rule seg_cong; auto)+

lemma seg_new_end: "seg s p (xs @ [x]) e \<Longrightarrow> x \<notin> set xs \<Longrightarrow> seg (set_next x v s) p (xs @ [x]) v"
  by (simp add: seg_append)

lemma seg_new_start: "seg s p (x # xs) e \<Longrightarrow> x \<notin> set xs \<Longrightarrow> seg (set_prev x v s) v (x # xs) e"
  by simp

lemma remove_pointers:
  assumes "seg s p (ys @ x # zs) e" "distinct (ys @ x # zs)" "p \<noteq> Some x" "e \<noteq> Some x"
  shows "idleNext (L_remove x s) = (\<lambda>y. if y = x then None else if last_or p ys = Some y then first_or zs e else idleNext s y)"
    "idlePrev (L_remove x s) = (\<lambda>y. if y = x then None else if first_or zs e = Some y then last_or p ys else idlePrev s y)"
proof -
  have px: "idlePrev s x = last_or p ys" "idleNext s x = first_or zs e" using assms(1) by (simp_all add: seg_append)
  have ne: "last_or p ys \<noteq> Some x" "first_or zs e \<noteq> Some x"
    using assms(2-4) by (auto simp: last_or_def first_or_def split: list.splits)
  show "idleNext (L_remove x s) = (\<lambda>y. if y = x then None else if last_or p ys = Some y then first_or zs e else idleNext s y)"
    "idlePrev (L_remove x s) = (\<lambda>y. if y = x then None else if first_or zs e = Some y then last_or p ys else idlePrev s y)"
    using ne px by (auto simp: L_remove_def Let_def fun_eq_iff split: option.split)
qed

lemma seg_remove:
  assumes "seg s p (ys @ x # zs) e" "distinct (ys @ x # zs)" "p \<noteq> Some x" "e \<noteq> Some x"
    "\<And>a. p = Some a \<Longrightarrow> a \<notin> set (ys @ zs)" "\<And>a. e = Some a \<Longrightarrow> a \<notin> set (ys @ zs)"
  shows "seg (L_remove x s) p (ys @ zs) e"
proof -
  note rm = remove_pointers [OF assms(1-4)]
  have s: "seg s p ys (Some x)" "seg s (Some x) zs e" using assms(1) by (simp_all add: seg_append)
  have "seg (L_remove x s) p ys (first_or zs e)"
  proof (cases ys rule: rev_cases)
    case (snoc as a)
    have "seg (set_next a (first_or zs e) s) p (as @ [a]) (first_or zs e)"
      using seg_new_end [of s p as a] s(1) assms(2) unfolding snoc by simp
    moreover have "first_or zs e \<noteq> Some y" if "y \<in> set ys" for y
      using that assms(2,6) by (auto simp: first_or_def split: list.splits)
    ultimately show ?thesis unfolding snoc [symmetric]
      using assms(2) by (subst seg_cong [of _ _ "set_next a (first_or zs e) s"]) (auto simp: rm snoc)
  qed simp
  moreover have "seg (L_remove x s) (last_or p ys) zs e"
  proof (cases zs)
    case (Cons z bs)
    have "seg (set_prev z (last_or p ys) s) (last_or p ys) (z # bs) e"
      using seg_new_start [of s "Some x" z bs e] s(2) assms(2) Cons by simp
    moreover have "last_or p ys \<noteq> Some y" if "y \<in> set zs" for y
      using that assms(2,5) last_in_set [of ys] by (cases "ys = []") (auto simp: last_or_def disjoint_iff)
    ultimately show ?thesis unfolding Cons [symmetric]
      using assms(2) by (subst seg_cong [of _ _ "set_prev z (last_or p ys) s"]) (auto simp: rm Cons)
  qed simp
  ultimately show ?thesis by (simp add: seg_append)
qed

lemma unlink:
  assumes "seg s p xs None" "distinct xs" "i \<in> set xs" "\<And>a. p = Some a \<Longrightarrow> a \<notin> set xs"
  shows "seg (L_remove i s) p (removeAll i xs) None"
    "p = Some a \<Longrightarrow> idleNext s a = first_or xs None \<Longrightarrow> idleNext (L_remove i s) a = first_or (removeAll i xs) None"
    "y \<notin> set xs \<Longrightarrow> p \<noteq> Some y \<Longrightarrow> idleNext (L_remove i s) y = idleNext s y \<and> idlePrev (L_remove i s) y = idlePrev s y"
    "first_or (removeAll i xs) None = (if first_or xs None = Some i then idleNext s i else first_or xs None)"
    "last_or p (removeAll i xs) = (if last_or p xs = Some i then idlePrev s i else last_or p xs)"
proof -
  obtain ys zs where xs: "xs = ys @ i # zs" using assms(3) by (auto dest: split_list)
  have d: "i \<notin> set ys" "i \<notin> set zs" "distinct (ys @ i # zs)" using assms(2) by (auto simp: xs)
  have p: "p \<noteq> Some i" "\<And>a. p = Some a \<Longrightarrow> a \<notin> set (ys @ zs)" using assms(4) by (auto simp: xs)
  have rm: "removeAll i xs = ys @ zs" using d by (simp add: xs)
  note seg = assms(1) [unfolded xs]
  note ptr = remove_pointers [OF seg d(3) p(1)]
  have px: "idlePrev s i = last_or p ys" "idleNext s i = first_or zs None" using seg by (simp_all add: seg_append)
  show "seg (L_remove i s) p (removeAll i xs) None"
    unfolding rm using seg_remove [OF seg d(3) p(1) _ p(2)] by simp
  show "idleNext (L_remove i s) a = first_or (removeAll i xs) None" if "p = Some a" "idleNext s a = first_or xs None"
  proof -
    have "last_or p ys = Some a \<longleftrightarrow> ys = []" using that(1) p(2) last_in_set [of ys] by (auto simp: last_or_def)
    moreover have "a \<noteq> i" using that(1) p(1) by blast
    ultimately show ?thesis unfolding rm using that(2) by (cases ys) (simp_all add: ptr xs)
  qed
  show "idleNext (L_remove i s) y = idleNext s y \<and> idlePrev (L_remove i s) y = idlePrev s y" if "y \<notin> set xs" "p \<noteq> Some y"
    using that last_in_set [of ys] by (auto simp: ptr xs last_or_def first_or_def split: list.splits)
  show "first_or (removeAll i xs) None = (if first_or xs None = Some i then idleNext s i else first_or xs None)"
    unfolding rm using d px by (cases ys) (auto simp: xs)
  have "last_or p (ys @ i # zs) = Some i \<longleftrightarrow> zs = []" using d(2) last_in_set [of zs] by (auto simp: last_or_def)
  then show "last_or p (removeAll i xs) = (if last_or p xs = Some i then idlePrev s i else last_or p xs)"
    unfolding rm using px by (cases zs) (simp_all add: xs)
qed

subsection \<open>The invariant\<close>

definition live :: "immediates \<Rightarrow> nat set" where
  "live s = {i. \<exists>I. objects s i = Some I \<and> \<not> immDestroyed I}"

definition refs :: "immediates \<Rightarrow> nat set" where
  "refs s = {i. \<exists>I. objects s i = Some I \<and> immRefed I = Some True}"

definition immediate_ok :: "immediate \<Rightarrow> bool" where
  "immediate_ok I \<longleftrightarrow> (if immDestroyed I then immRefed I = None else onImmediate I \<noteq> None \<and> immRefed I \<noteq> None)"

definition imm_inv :: "immediates \<Rightarrow> nat list \<Rightarrow> nat option \<Rightarrow> nat list \<Rightarrow> bool" where
  "imm_inv s q p r \<longleftrightarrow>
     distinct (q @ r) \<and> set (q @ r) = live s \<and>
     seg s None q None \<and> queueHead s = first_or q None \<and> queueTail s = last_or None q \<and>
     seg s p r None \<and> (\<forall>a. p = Some a \<longrightarrow> idleNext s a = first_or r None \<and> a \<in> dom (objects s) - live s) \<and>
     (\<forall>i I. objects s i = Some I \<longrightarrow> i < nextImmediate s \<and> immediate_ok I) \<and>
     infoCount s = int (length (q @ r)) \<and> infoRefCount s = int (card (refs s))"

text \<open>
  What calls may do: they add to \<open>q\<close>, and take cleared immediates out of \<open>q\<close> and \<open>r\<close>. An immediate
  that no longer waits has been cleared in between, or is one of \<open>cs\<close>.
\<close>

definition cleared_since :: "immediates \<Rightarrow> immediates \<Rightarrow> nat list \<Rightarrow> bool" where
  "cleared_since s s' cs \<longleftrightarrow> (\<exists>ds. clearedImmediates s' = clearedImmediates s @ ds \<and> live s \<subseteq> live s' \<union> set ds \<union> set cs)"

definition imm_grows :: "immediates \<Rightarrow> immediates \<Rightarrow> bool" where
  "imm_grows s s' \<longleftrightarrow>
     (\<forall>i. objects s i \<noteq> None \<longrightarrow> objects s' i \<noteq> None \<and> (i \<in> live s' \<longrightarrow> i \<in> live s)) \<and>
     outstandingHead s' = outstandingHead s \<and> calledImmediates s' = calledImmediates s \<and>
     cleared_since s s' [] \<and> async_context (immAsync s') = async_context (immAsync s)"

definition remaining :: "immediates \<Rightarrow> nat list \<Rightarrow> nat list" where
  "remaining s r = filter (\<lambda>i. i \<in> live s) r"

definition imm_step :: "immediates \<Rightarrow> immediates \<Rightarrow> bool" where
  "imm_step s s' \<longleftrightarrow> (\<forall>q p r. imm_inv s q p r \<longrightarrow> imm_grows s s' \<and> (\<exists>q'. imm_inv s' q' p (remaining s' r)))"

lemma imm_invD:
  assumes "imm_inv s q p r"
  shows "distinct (q @ r)" "set (q @ r) = live s" "seg s None q None" "queueHead s = first_or q None"
    "queueTail s = last_or None q" "seg s p r None"
    "p = Some a \<Longrightarrow> idleNext s a = first_or r None \<and> a \<in> dom (objects s) \<and> a \<notin> live s"
    "objects s i = Some I \<Longrightarrow> i < nextImmediate s \<and> immediate_ok I"
    "infoCount s = int (length (q @ r))" "infoRefCount s = int (card (refs s))"
  using assms by (auto simp: imm_inv_def)

lemma live_objects: "i \<in> live s \<Longrightarrow> objects s i \<noteq> None"
  by (auto simp: live_def)

lemma remaining_self: "imm_inv s q p r \<Longrightarrow> remaining s r = r"
  using imm_invD(2) [of s q p r] by (auto simp: remaining_def intro: filter_True)

lemma remaining_trans:
  assumes "imm_inv s q p r" "imm_grows s s1" "imm_grows s1 s2"
  shows "remaining s2 (remaining s1 r) = remaining s2 r"
proof -
  have "i \<in> live s1" if "i \<in> set r" "i \<in> live s2" for i
  proof -
    have "objects s i \<noteq> None" using imm_invD(2) [OF assms(1)] live_objects [of i s] that(1) by auto
    then show ?thesis using assms(2,3) that(2) unfolding imm_grows_def by blast
  qed
  then show ?thesis by (auto simp: remaining_def intro: filter_cong)
qed

lemma cleared_since_refl [simp]: "cleared_since s s []"
  by (simp add: cleared_since_def)

lemma cleared_since_trans: "cleared_since s s1 cs \<Longrightarrow> cleared_since s1 s2 ds \<Longrightarrow> cleared_since s s2 (cs @ ds)"
  unfolding cleared_since_def by fastforce

lemma cleared_since_same: "clearedImmediates s' = clearedImmediates s \<Longrightarrow> live s \<subseteq> live s' \<union> set cs \<Longrightarrow> cleared_since s s' cs"
  by (simp add: cleared_since_def)

lemma imm_grows_refl [simp]: "imm_grows s s"
  by (simp add: imm_grows_def)

lemma imm_grows_trans: "imm_grows s s1 \<Longrightarrow> imm_grows s1 s2 \<Longrightarrow> imm_grows s s2"
  using cleared_since_trans [of s s1 "[]" s2 "[]"] unfolding imm_grows_def by simp

lemma imm_step_refl [simp]: "imm_step s s"
  using remaining_self by (auto simp: imm_step_def)

lemma imm_step_trans:
  assumes "imm_step s s1" "imm_step s1 s2"
  shows "imm_step s s2"
  unfolding imm_step_def
proof (intro allI impI)
  fix q p r assume i: "imm_inv s q p r"
  then obtain q1 where q1: "imm_grows s s1" "imm_inv s1 q1 p (remaining s1 r)" using assms(1) unfolding imm_step_def by blast
  then obtain q2 where q2: "imm_grows s1 s2" "imm_inv s2 q2 p (remaining s2 (remaining s1 r))"
    using assms(2) unfolding imm_step_def by blast
  then show "imm_grows s s2 \<and> (\<exists>q'. imm_inv s2 q' p (remaining s2 r))"
    using remaining_trans [OF i q1(1) q2(1)] imm_grows_trans [OF q1(1) q2(1)] by auto
qed

subsection \<open>One immediate changes\<close>

lemma live_upd: "objects s' = (objects s)(i \<mapsto> I) \<Longrightarrow> live s' = (if immDestroyed I then live s - {i} else insert i (live s))"
  by (auto simp: live_def)

lemma imm_refs_upd:
  "objects s' = (objects s)(i \<mapsto> I) \<Longrightarrow> refs s' = (if immRefed I = Some True then insert i (refs s) else refs s - {i})"
  by (auto simp: refs_def)

lemma finite_refs: "imm_inv s q p r \<Longrightarrow> finite (refs s)"
  by (rule finite_subset [of _ "{..<nextImmediate s}"]) (auto simp: refs_def dest: imm_invD(8))

lemma imm_refs_card:
  assumes "imm_inv s q p r" "objects s' = (objects s)(i \<mapsto> I)"
  shows "int (card (refs s')) = infoRefCount s + of_bool (immRefed I = Some True) - of_bool (i \<in> refs s)"
proof -
  have fin: "finite (refs s)" by (rule finite_refs [OF assms(1)])
  then have "i \<in> refs s \<Longrightarrow> 0 < card (refs s)" by (auto simp: card_gt_0_iff)
  then show ?thesis
    using fin imm_invD(10) [OF assms(1)] by (auto simp: imm_refs_upd [OF assms(2)] card_insert_if of_nat_diff Suc_le_eq)
qed

lemma objects_upd: "objects s i = Some I \<Longrightarrow> objects (upd_immediate i f s) = (objects s)(i \<mapsto> f I)"
  by (simp add: upd_immediate_def)

lemma upd_immediate_fields [simp]:
  "idleNext (upd_immediate i f s) = idleNext s" "idlePrev (upd_immediate i f s) = idlePrev s"
  "queueHead (upd_immediate i f s) = queueHead s" "queueTail (upd_immediate i f s) = queueTail s"
  "outstandingHead (upd_immediate i f s) = outstandingHead s" "nextImmediate (upd_immediate i f s) = nextImmediate s"
  "infoCount (upd_immediate i f s) = infoCount s" "infoRefCount (upd_immediate i f s) = infoRefCount s"
  "immAsync (upd_immediate i f s) = immAsync s" "calledImmediates (upd_immediate i f s) = calledImmediates s"
  "immContext (upd_immediate i f s) = immContext s" "clearedImmediates (upd_immediate i f s) = clearedImmediates s"
  by (simp_all add: upd_immediate_def)

lemma toggle_fields [simp]:
  "idleNext (toggleImmediateRef b s) = idleNext s" "idlePrev (toggleImmediateRef b s) = idlePrev s"
  "queueHead (toggleImmediateRef b s) = queueHead s" "queueTail (toggleImmediateRef b s) = queueTail s"
  "outstandingHead (toggleImmediateRef b s) = outstandingHead s" "nextImmediate (toggleImmediateRef b s) = nextImmediate s"
  "infoCount (toggleImmediateRef b s) = infoCount s" "infoRefCount (toggleImmediateRef b s) = infoRefCount s"
  "immAsync (toggleImmediateRef b s) = immAsync s" "calledImmediates (toggleImmediateRef b s) = calledImmediates s"
  "objects (toggleImmediateRef b s) = objects s" "clearedImmediates (toggleImmediateRef b s) = clearedImmediates s"
  by (simp_all add: toggleImmediateRef_def)

lemma seg_links: "idleNext s' = idleNext s \<Longrightarrow> idlePrev s' = idlePrev s \<Longrightarrow> seg s' p xs e \<longleftrightarrow> seg s p xs e"
  by (rule seg_cong) simp

text \<open>A change that does not touch the queues.\<close>

lemma change_inv:
  assumes I: "objects s i = Some I" and upd: "objects s' = (objects s)(i \<mapsto> I')" "immDestroyed I' = immDestroyed I"
    and ok: "immediate_ok I \<Longrightarrow> immediate_ok I'"
    and same: "idleNext s' = idleNext s" "idlePrev s' = idlePrev s" "queueHead s' = queueHead s" "queueTail s' = queueTail s"
      "nextImmediate s' = nextImmediate s" "infoCount s' = infoCount s"
    and ref: "infoRefCount s' = infoRefCount s + of_bool (immRefed I' = Some True) - of_bool (immRefed I = Some True)"
  shows "live s' = live s" "imm_inv s q p r \<Longrightarrow> imm_inv s' q p r"
proof -
  have "i \<in> live s \<longleftrightarrow> \<not> immDestroyed I" using I by (simp add: live_def)
  then show live: "live s' = live s" using upd(2) by (auto simp: live_upd [OF upd(1)])
  have "i \<in> refs s \<longleftrightarrow> immRefed I = Some True" using I by (simp add: refs_def)
  then show "imm_inv s' q p r" if inv: "imm_inv s q p r"
    using inv ok [OF conjunct2 [OF imm_invD(8) [OF inv I]]] imm_refs_card [OF inv upd(1)] imm_invD(8) [OF inv I] ref
    unfolding imm_inv_def live same seg_links [OF same(1,2)] by (auto simp: upd(1))
qed

lemma change_step:
  assumes I: "objects s i = Some I" and upd: "objects s' = (objects s)(i \<mapsto> I')" "immDestroyed I' = immDestroyed I"
    and ok: "immediate_ok I \<Longrightarrow> immediate_ok I'"
    and same: "idleNext s' = idleNext s" "idlePrev s' = idlePrev s" "queueHead s' = queueHead s" "queueTail s' = queueTail s"
      "nextImmediate s' = nextImmediate s" "infoCount s' = infoCount s"
    and ref: "infoRefCount s' = infoRefCount s + of_bool (immRefed I' = Some True) - of_bool (immRefed I = Some True)"
    and quiet: "outstandingHead s' = outstandingHead s" "calledImmediates s' = calledImmediates s"
      "clearedImmediates s' = clearedImmediates s" "async_context (immAsync s') = async_context (immAsync s)"
  shows "imm_step s s'"
proof -
  note change = change_inv [OF I upd ok same ref]
  have "remaining s' r = r" if "imm_inv s q p r" for q p r
    using remaining_self [OF that] by (simp add: remaining_def change(1))
  moreover have "imm_grows s s'" using quiet change(1) I by (auto simp: imm_grows_def upd(1) cleared_since_same)
  ultimately show ?thesis using change(2) unfolding imm_step_def by metis
qed

lemma refed_step: "imm_step s (immediate_ref i s)" "imm_step s (immediate_unref i s)"
proof -
  have "imm_step s (immediate_ref i s) \<and> imm_step s (immediate_unref i s)"
  proof (cases "objects s i")
    case (Some I)
    have "imm_step s (immediate_ref i s)" if "immRefed I = Some False"
      by (rule change_step [OF Some, of _ "I\<lparr>immRefed := Some True\<rparr>"])
        (use Some that in \<open>auto simp: immediate_ref_def Let_def objects_upd immediate_ok_def\<close>)
    moreover have "imm_step s (immediate_unref i s)" if "immRefed I = Some True"
      by (rule change_step [OF Some, of _ "I\<lparr>immRefed := Some False\<rparr>"])
        (use Some that in \<open>auto simp: immediate_unref_def Let_def objects_upd immediate_ok_def\<close>)
    ultimately show ?thesis using Some by (auto simp: immediate_ref_def immediate_unref_def)
  qed (simp add: immediate_ref_def immediate_unref_def)
  then show "imm_step s (immediate_ref i s)" "imm_step s (immediate_unref i s)" by blast+
qed

subsection \<open>Clearing\<close>

lemma L_remove_immediates [simp]:
  fixes s :: immediates
  shows "links.more (L_remove i s) = links.more s"
  by (simp add: L_remove_def Let_def split: option.split)

lemma more_fields:
  fixes s s' :: immediates
  assumes "links.more s' = links.more s"
  shows "objects s' = objects s" "queueHead s' = queueHead s" "queueTail s' = queueTail s" "outstandingHead s' = outstandingHead s"
    "nextImmediate s' = nextImmediate s" "infoCount s' = infoCount s" "infoRefCount s' = infoRefCount s" "immAsync s' = immAsync s"
    "calledImmediates s' = calledImmediates s" "immContext s' = immContext s"
  using assms by (cases s; cases s'; simp)+

lemma queue_remove_links:
  assumes "idlePrev s i \<noteq> Some i" "idleNext s i \<noteq> Some i"
  shows "idleNext (queue_remove i s) = idleNext (L_remove i s)" "idlePrev (queue_remove i s) = idlePrev (L_remove i s)"
    "queueHead (queue_remove i s) = (if queueHead s = Some i then idleNext s i else queueHead s)"
    "queueTail (queue_remove i s) = (if queueTail s = Some i then idlePrev s i else queueTail s)"
    "objects (queue_remove i s) = objects s" "nextImmediate (queue_remove i s) = nextImmediate s"
    "infoCount (queue_remove i s) = infoCount s" "infoRefCount (queue_remove i s) = infoRefCount s"
    "outstandingHead (queue_remove i s) = outstandingHead s" "calledImmediates (queue_remove i s) = calledImmediates s"
    "immAsync (queue_remove i s) = immAsync s"
  using assms by (auto simp: queue_remove_def L_remove_def Let_def set_next_def set_prev_def split: option.split)

text \<open>What a cleared immediate leaves.\<close>

lemma clear_inv:
  assumes inv: "imm_inv s q p r" and I: "objects s i = Some I" "\<not> immDestroyed I"
    and upd: "objects s' = (objects s)(i \<mapsto> I')" "immDestroyed I'" "immRefed I' = None"
    and links: "idleNext s' = idleNext (L_remove i s)" "idlePrev s' = idlePrev (L_remove i s)"
      "queueHead s' = (if queueHead s = Some i then idleNext s i else queueHead s)"
      "queueTail s' = (if queueTail s = Some i then idlePrev s i else queueTail s)"
    and counts: "nextImmediate s' = nextImmediate s" "infoCount s' = infoCount s - 1"
      "infoRefCount s' = infoRefCount s - of_bool (immRefed I = Some True)"
  shows "imm_inv s' (removeAll i q) p (removeAll i r)"
proof -
  note d = imm_invD [OF inv]
  have i: "i \<in> live s" using I by (simp add: live_def)
  have live: "live s' = live s - {i}" using upd(2) by (simp add: live_upd [OF upd(1)])
  have p: "a \<notin> set q" "a \<notin> set r" if "p = Some a" for a using d(2) d(7) [OF that] by auto
  have si: "p \<noteq> Some i" using p d(2) i by auto
  note seg = seg_links [OF links(1,2)]
  have dist: "distinct q" "distinct r" using d(1) by simp_all
  have len: "length (q @ r) = Suc (length (removeAll i q @ removeAll i r))"
  proof -
    have "removeAll i (q @ r) = remove1 i (q @ r)" using d(1) by (simp add: distinct_remove1_removeAll)
    moreover have "i \<in> set (q @ r)" using i d(2) by simp
    moreover from this have "0 < length (q @ r)" by (rule length_pos_if_in_set)
    ultimately have "length (removeAll i (q @ r)) = length (q @ r) - 1" by (simp add: length_remove1)
    then show ?thesis using \<open>0 < length (q @ r)\<close> by simp
  qed
  have queues: "seg (L_remove i s) None (removeAll i q) None \<and> seg (L_remove i s) p (removeAll i r) None \<and>
      queueHead s' = first_or (removeAll i q) None \<and> queueTail s' = last_or None (removeAll i q) \<and>
      (\<forall>a. p = Some a \<longrightarrow> idleNext (L_remove i s) a = first_or (removeAll i r) None)"
  proof (cases "i \<in> set q")
    case True
    then have r: "i \<notin> set r" using d(1) by auto
    note u = unlink [OF d(3) dist(1) True]
    have out: "idleNext (L_remove i s) y = idleNext s y \<and> idlePrev (L_remove i s) y = idlePrev s y" if "y \<in> set r \<or> p = Some y" for y
      using u(3) [of y] that d(1) p by auto
    have "seg (L_remove i s) p r None" using d(6) out by (subst seg_cong [of _ _ s]) auto
    then show ?thesis using u r d(4,5,7) out links(3,4) by auto
  next
    case False
    then have r: "i \<in> set r" using i d(2) by auto
    note u = unlink [OF d(6) dist(2) r p(2)]
    have out: "idleNext (L_remove i s) y = idleNext s y \<and> idlePrev (L_remove i s) y = idlePrev s y" if "y \<in> set q" for y
      using u(3) [of y] that d(1) p by auto
    have "seg (L_remove i s) None q None" using d(3) out by (subst seg_cong [of _ _ s]) auto
    moreover have "first_or q None \<noteq> Some i" "last_or None q \<noteq> Some i"
      using False last_in_set [of q] by (auto simp: first_or_def last_or_def split: list.splits)
    ultimately show ?thesis using u(1,2) False d(4,5,7) links(3,4) by auto
  qed
  have "int (card (refs s')) = infoRefCount s - of_bool (immRefed I = Some True)"
    using imm_refs_card [OF inv upd(1)] upd(3) I(1) by (simp add: refs_def)
  moreover have "immediate_ok I'" "i < nextImmediate s" using upd d(8) [OF I(1)] by (simp_all add: immediate_ok_def)
  moreover have "distinct (removeAll i q)" "distinct (removeAll i r)" using dist by (simp_all add: distinct_removeAll)
  ultimately show ?thesis
    unfolding imm_inv_def live seg
    using queues d(1,2) d(7) d(8) d(9) len counts links(1) si
    by (auto simp: upd(1))
qed

lemma remaining_removed:
  assumes "imm_inv s q p r" "live s' = live s - {i}"
  shows "remaining s' r = removeAll i r"
  using imm_invD(2) [OF assms(1)] assms(2) by (auto simp: remaining_def removeAll_filter_not_eq intro!: filter_cong)

lemma self_links:
  assumes "imm_inv s q p r" "i \<in> live s"
  shows "idlePrev s i \<noteq> Some i" "idleNext s i \<noteq> Some i"
proof -
  have "idlePrev s i \<noteq> Some i \<and> idleNext s i \<noteq> Some i"
    if seg: "seg s p xs None" "distinct xs" "i \<in> set xs" "p \<noteq> Some i" for p xs
  proof -
    obtain ys zs where xs: "xs = ys @ i # zs" using split_list [OF seg(3)] by blast
    then have "idlePrev s i = last_or p ys" "idleNext s i = first_or zs None" using seg(1) by (simp_all add: seg_append)
    moreover have "i \<notin> set ys" "i \<notin> set zs" using seg(2) by (simp_all add: xs)
    ultimately show ?thesis using seg(4) last_in_set [of ys] by (cases zs) (auto simp: last_or_def)
  qed
  note self = this
  note d = imm_invD [OF assms(1)]
  have "idlePrev s i \<noteq> Some i \<and> idleNext s i \<noteq> Some i"
  proof (cases "i \<in> set q")
    case True
    then show ?thesis using self [OF d(3)] d(1) by simp
  next
    case False
    then have "i \<in> set r" "p \<noteq> Some i" using d(2) d(7) [of i] assms(2) by auto
    then show ?thesis using self [OF d(6)] d(1) by simp
  qed
  then show "idlePrev s i \<noteq> Some i" "idleNext s i \<noteq> Some i" by blast+
qed

lemma clear_step: "imm_step s (clearImmediate a s)"
proof (cases "\<exists>i I. a = Some i \<and> objects s i = Some I \<and> onImmediate I \<noteq> None \<and> \<not> immDestroyed I")
  case False
  then have "clearImmediate a s = s" by (auto simp: clearImmediate_def split: option.split)
  then show ?thesis by simp
next
  case True
  then obtain i I where i: "a = Some i" "objects s i = Some I" "onImmediate I \<noteq> None" "\<not> immDestroyed I" by blast
  define s1 where "s1 = upd_immediate i (\<lambda>I. I\<lparr>immDestroyed := True\<rparr>) 
      (s\<lparr>infoCount := infoCount s - 1, clearedImmediates := clearedImmediates s @ [i]\<rparr>)"
  define s2 where "s2 = (if immRefed I = Some True
      then (let s = s1\<lparr>infoRefCount := infoRefCount s1 - 1\<rparr> in if infoRefCount s = 0 then toggleImmediateRef False s else s) else s1)"
  define s3 where "s3 = upd_immediate i (\<lambda>I. I\<lparr>immRefed := None\<rparr>) s2"
  define s4 where "s4 = upd_immediate i (\<lambda>I. I\<lparr>onImmediate := None\<rparr>) (s3\<lparr>immAsync := emitDestroy (imm_async_id I) (immAsync s3)\<rparr>)"
  define I' where "I' = I\<lparr>immDestroyed := True, immRefed := None, onImmediate := None\<rparr>"
  obtain f where "onImmediate I = Some f" using i(3) by blast
  then have c: "clearImmediate a s = queue_remove i s4"
    using i(1,2,4) by (simp add: clearImmediate_def Let_def s1_def s2_def s3_def s4_def)
  have o1: "objects s1 = (objects s)(i \<mapsto> I\<lparr>immDestroyed := True\<rparr>)" using i(2) by (simp add: s1_def upd_immediate_def)
  have o2: "objects s2 = objects s1" by (simp add: s2_def Let_def)
  have o4: "objects s4 = (objects s)(i \<mapsto> I')" using o1 o2 by (simp add: s4_def s3_def upd_immediate_def I'_def)
  have f: "idleNext s4 = idleNext s" "idlePrev s4 = idlePrev s" "queueHead s4 = queueHead s" "queueTail s4 = queueTail s"
    "nextImmediate s4 = nextImmediate s" "infoCount s4 = infoCount s - 1"
    "infoRefCount s4 = infoRefCount s - of_bool (immRefed I = Some True)" "outstandingHead s4 = outstandingHead s"
    "calledImmediates s4 = calledImmediates s" "clearedImmediates s4 = clearedImmediates s @ [i]" "async_context (immAsync s4) = async_context (immAsync s)"
    by (simp_all add: s4_def s3_def s2_def s1_def Let_def async_simps)
  have live: "live s' = live s - {i}" if "objects s' = objects s4" for s'
    using that live_upd [of s' s i I'] o4 by (simp add: I'_def)
  have ptr: "idleNext (L_remove i s4) = idleNext (L_remove i s)" "idlePrev (L_remove i s4) = idlePrev (L_remove i s)"
    using f(1,2) by (simp_all add: L_remove_def Let_def split: option.split)
  have inv: "imm_inv (queue_remove i s4) (removeAll i q) p (remaining (queue_remove i s4) r)" if m: "imm_inv s q p r" for q p r
  proof -
    have "i \<in> live s" using i by (simp add: live_def)
    from self_links [OF m this] have "idlePrev s4 i \<noteq> Some i" "idleNext s4 i \<noteq> Some i" using f by simp_all
    note rm = queue_remove_links [OF this]
    have "imm_inv (queue_remove i s4) (removeAll i q) p (removeAll i r)"
      by (rule clear_inv [OF m i(2,4), of _ I']) (use rm o4 f ptr in \<open>simp_all add: I'_def\<close>)
    then show ?thesis using remaining_removed [OF m live] rm(5) by simp
  qed
  show ?thesis
    unfolding imm_step_def c
  proof (intro allI impI conjI)
    show "\<exists>q'. imm_inv (queue_remove i s4) q' p (remaining (queue_remove i s4) r)" if "imm_inv s q p r" for q p r
      using inv [OF that] by blast
    have rest: "objects (queue_remove i s4) = objects s4" "outstandingHead (queue_remove i s4) = outstandingHead s4"
      "calledImmediates (queue_remove i s4) = calledImmediates s4" "immAsync (queue_remove i s4) = immAsync s4"
      "clearedImmediates (queue_remove i s4) = clearedImmediates s4"
      by (simp_all add: queue_remove_def Let_def set_next_def set_prev_def split: option.split)
    then show "imm_grows s (queue_remove i s4)" using live [OF rest(1)] f o4
      by (auto simp: imm_grows_def cleared_since_def)
  qed
qed

subsection \<open>New immediates\<close>

lemma init_immediate_fields:
  assumes "objects s i = Some I"
  obtains I' where "objects (init_immediate_resource i s) = (objects s)(i \<mapsto> I')" "onImmediate I' = onImmediate I"
    "immDestroyed I' = immDestroyed I" "immRefed I' = immRefed I"
    "idleNext (init_immediate_resource i s) = idleNext s" "idlePrev (init_immediate_resource i s) = idlePrev s"
    "queueHead (init_immediate_resource i s) = queueHead s" "queueTail (init_immediate_resource i s) = queueTail s"
    "outstandingHead (init_immediate_resource i s) = outstandingHead s" "nextImmediate (init_immediate_resource i s) = nextImmediate s"
    "infoCount (init_immediate_resource i s) = infoCount s" "infoRefCount (init_immediate_resource i s) = infoRefCount s"
    "calledImmediates (init_immediate_resource i s) = calledImmediates s"
    "clearedImmediates (init_immediate_resource i s) = clearedImmediates s"
    "async_context (immAsync (init_immediate_resource i s)) = async_context (immAsync s)"
proof -
  obtain n a where n: "newAsyncId (immAsync s) = (n, a)" by (metis surj_pair)
  then have "async_context a = async_context (immAsync s)" by (auto simp: newAsyncId_def async_context_def Let_def)
  then show ?thesis
    using assms n
    by (intro that [of "I\<lparr>imm_async_id := n, imm_trigger_id := getDefaultTriggerAsyncId a, imm_frame := immContext s\<rparr>"])
      (simp_all add: init_immediate_resource_def Let_def objects_upd async_simps)
qed

lemma queue_append_fields [simp]:
  "objects (queue_append i s) = objects s" "outstandingHead (queue_append i s) = outstandingHead s"
  "nextImmediate (queue_append i s) = nextImmediate s" "infoCount (queue_append i s) = infoCount s"
  "infoRefCount (queue_append i s) = infoRefCount s" "calledImmediates (queue_append i s) = calledImmediates s"
  "immAsync (queue_append i s) = immAsync s" "clearedImmediates (queue_append i s) = clearedImmediates s" "queueTail (queue_append i s) = Some i"
  "queueHead (queue_append i s) = (if queueTail s = None then Some i else queueHead s)"
  "idleNext (queue_append i s) = (case queueTail s of Some t \<Rightarrow> (idleNext s)(t := Some i) | None \<Rightarrow> idleNext s)"
  "idlePrev (queue_append i s) = (case queueTail s of Some t \<Rightarrow> (idlePrev s)(i := Some t) | None \<Rightarrow> idlePrev s)"
  by (simp_all add: queue_append_def Let_def set_next_def set_prev_def split: option.split)

lemma append_seg:
  assumes "seg s None q None" "queueTail s = last_or None q" "queueHead s = first_or q None" "i \<notin> set q" "distinct q"
    "idleNext s i = None" "idlePrev s i = None"
  shows "seg (queue_append i s) None (q @ [i]) None" "queueHead (queue_append i s) = first_or (q @ [i]) None"
proof -
  have "seg (queue_append i s) None (q @ [i]) None \<and> queueHead (queue_append i s) = first_or (q @ [i]) None"
  proof (cases q rule: rev_cases)
    case Nil
    then show ?thesis using assms by simp
  next
    case (snoc as a)
    have "seg (set_next a (Some i) s) None (as @ [a]) (Some i)"
      using seg_new_end [of s None as a None] assms(1,5) snoc by simp
    then have "seg (queue_append i s) None q (Some i)"
      using assms(2,4) snoc by (subst seg_cong [of _ _ "set_next a (Some i) s"]) auto
    moreover have "idleNext (queue_append i s) i = None" "idlePrev (queue_append i s) i = last_or None q"
      using assms(2,4,6) snoc by auto
    ultimately show ?thesis using assms(2,3) snoc by (simp add: seg_append) 
  qed
  then show "seg (queue_append i s) None (q @ [i]) None" "queueHead (queue_append i s) = first_or (q @ [i]) None" by blast+
qed

lemma new_immediate_step:
  assumes "new_Immediate f args s = (i, s')"
  shows "imm_step s s'"
proof -
  define I0 where "I0 = \<lparr>onImmediate = Some f, immArgv = args, immDestroyed = False, immRefed = Some False,
                 imm_async_id = 0, imm_trigger_id = Some 0, imm_frame = 0\<rparr>"
  define s1 where "s1 = (set_prev i None (set_next i None (s\<lparr>nextImmediate := i + 1\<rparr>)))\<lparr>objects := (objects s)(i \<mapsto> I0)\<rparr>"
  have i: "i = nextImmediate s" using assms by (auto simp: new_Immediate_def Let_def)
  obtain I1 where I1: "objects (init_immediate_resource i s1) = (objects s1)(i \<mapsto> I1)" "onImmediate I1 = Some f"
    "\<not> immDestroyed I1" "immRefed I1 = Some False"
    and f1: "idleNext (init_immediate_resource i s1) = idleNext s1" "idlePrev (init_immediate_resource i s1) = idlePrev s1"
    "queueHead (init_immediate_resource i s1) = queueHead s1" "queueTail (init_immediate_resource i s1) = queueTail s1"
    "outstandingHead (init_immediate_resource i s1) = outstandingHead s1" "nextImmediate (init_immediate_resource i s1) = nextImmediate s1"
    "infoCount (init_immediate_resource i s1) = infoCount s1" "infoRefCount (init_immediate_resource i s1) = infoRefCount s1"
    "calledImmediates (init_immediate_resource i s1) = calledImmediates s1"
    "clearedImmediates (init_immediate_resource i s1) = clearedImmediates s1"
    "async_context (immAsync (init_immediate_resource i s1)) = async_context (immAsync s1)"
    by (rule init_immediate_fields [of s1 i I0]) (auto simp: s1_def I0_def)
  define s2 where "s2 = immediate_ref i (init_immediate_resource i s1)"
  define s3 where "s3 = s2\<lparr>infoCount := infoCount s2 + 1\<rparr>"
  define I2 where "I2 = I1\<lparr>immRefed := Some True\<rparr>"
  have s': "s' = queue_append i s3"
    using assms i by (simp add: new_Immediate_def Let_def s3_def s2_def s1_def I0_def set_prev_def set_next_def)
  have s1f: "objects s1 = (objects s)(i \<mapsto> I0)" "idleNext s1 = (idleNext s)(i := None)" "idlePrev s1 = (idlePrev s)(i := None)"
    "queueHead s1 = queueHead s" "queueTail s1 = queueTail s" "outstandingHead s1 = outstandingHead s" "nextImmediate s1 = i + 1"
    "infoCount s1 = infoCount s" "infoRefCount s1 = infoRefCount s" "calledImmediates s1 = calledImmediates s" "clearedImmediates s1 = clearedImmediates s" "immAsync s1 = immAsync s"
    by (simp_all add: s1_def set_prev_def set_next_def)
  have o3: "objects s3 = (objects s)(i \<mapsto> I2)"
    using I1 s1f(1) by (simp add: s3_def s2_def immediate_ref_def Let_def upd_immediate_def I2_def)
  have f3: "idleNext s3 = (idleNext s)(i := None)" "idlePrev s3 = (idlePrev s)(i := None)"
    "queueHead s3 = queueHead s" "queueTail s3 = queueTail s" "outstandingHead s3 = outstandingHead s" "nextImmediate s3 = i + 1"
    "infoCount s3 = infoCount s + 1" "infoRefCount s3 = infoRefCount s + 1" "calledImmediates s3 = calledImmediates s"
    "clearedImmediates s3 = clearedImmediates s" "async_context (immAsync s3) = async_context (immAsync s)"
    using I1 f1 s1f by (simp_all add: s3_def s2_def immediate_ref_def Let_def)
  have live: "live s' = insert i (live s)" using I1(3) o3 by (simp add: s' live_upd [of _ s i I2] I2_def)
  have inv: "imm_inv s' (q @ [i]) p (remaining s' r)" if m: "imm_inv s q p r" for q p r
  proof -
    note d = imm_invD [OF m]
    have new: "objects s i = None" using d(8) [of i] i by (cases "objects s i") auto
    then have ni: "i \<notin> live s" "i \<notin> refs s" by (auto simp: live_def refs_def)
    then have nq: "i \<notin> set q" "i \<notin> set r" using d(2) by auto
    have rem: "remaining s' r = r" using d(2) by (auto simp: remaining_def live intro!: filter_True)
    have "seg s3 None q None" using d(3) nq f3 by (subst seg_cong [of _ _ s]) auto
    then have q: "seg s' None (q @ [i]) None" "queueHead s' = first_or (q @ [i]) None"
      using append_seg [of s3 q i] d(1,4,5) f3 nq by (simp_all add: s')
    have tail: "queueTail s3 \<noteq> Some x" if "x \<in> set r \<or> p = Some x" for x
    proof
      assume "queueTail s3 = Some x"
      then have "x \<in> set q" using d(5) f3(4) last_in_set [of q] by (auto simp: last_or_def split: if_splits)
      then show False using d(1,2) d(7) [of x] that by auto
    qed
    have same: "idleNext s' x = idleNext s x \<and> (x \<in> set r \<longrightarrow> idlePrev s' x = idlePrev s x)" if "x \<in> set r \<or> p = Some x" for x
    proof -
      have "x \<noteq> i" using that nq new d(7) [of x] by auto
      then show ?thesis using tail [OF that] f3 by (auto simp: s' split: option.split)
    qed
    have "seg s' p r None" using d(6) same by (subst seg_cong [of _ _ s]) auto
    moreover have "int (card (refs s')) = infoRefCount s + 1"
      using imm_refs_card [OF m, of s' i I2] o3 ni by (simp add: s' I2_def)
    moreover have "immediate_ok I2" using I1 by (simp add: I2_def immediate_ok_def)
    moreover have "x < nextImmediate s' \<and> immediate_ok J" if "objects s' x = Some J" for x J
      using that d(8) [of x J] o3 i \<open>immediate_ok I2\<close> by (auto simp: s' f3 split: if_splits)
    moreover have "idleNext s' a = first_or r None \<and> a \<in> dom (objects s') - live s'" if "p = Some a" for a
      using d(7) [OF that] same [of a] that live o3 new by (auto simp: s')
    ultimately show ?thesis
      unfolding imm_inv_def rem using q d(1,2,9) nq f3 live by (auto simp: s')
  qed
  have cl: "cleared_since s s' []" by (rule cleared_since_same) (use live f3 in \<open>auto simp: s'\<close>)
  show ?thesis
    unfolding imm_step_def
  proof (intro conjI allI impI)
    show "\<exists>q'. imm_inv s' q' p (remaining s' r)" if "imm_inv s q p r" for q p r using inv [OF that] by blast
    show "imm_grows s s'" if "imm_inv s q p r" for q p r
      using imm_invD(8) [OF that, of i] i live o3 f3 cl by (cases "objects s i") (auto simp: imm_grows_def s')
  qed
qed

end
