(* ===== verification/ImmediatesProps.thy ===== *)
theory ImmediatesProps
  imports ImmediatesInv "HOL-Library.Sublist"
begin

text \<open>
  \<^verbatim>\<open>processImmediate\<close> over all that callbacks may do: it calls the immediates of one queue in order,
  leaves the counts exact, keeps the rest when one throws, and ends. One run shows where it does not:
  an immediate that is cleared while it heads the kept rest blocks all later ones.
\<close>

subsection \<open>Any calls\<close>

lemma do_immediate_call_step: "imm_step s (do_immediate_call c s)"
proof (cases c)
  case (SetImmediate f args)
  then show ?thesis
    using new_immediate_step surj_pair
    by (cases f) (auto simp: setImmediate_def validateFunction_def split: prod.split)
qed (simp_all add: clear_step refed_step)

lemma immediate_calls_step: "imm_step s (immediate_calls cs s)"
  by (induction cs arbitrary: s) (simp_all, meson do_immediate_call_step imm_step_trans)

lemma imm_stepD:
  assumes "imm_step s s'" "imm_inv s q p r"
  obtains q' where "imm_grows s s'" "imm_inv s' q' p (remaining s' r)"
  using assms unfolding imm_step_def by blast

definition imm_throws :: "immediate_host \<Rightarrow> jserror \<Rightarrow> bool" where
  "imm_throws h e \<longleftrightarrow> (\<exists>f args s. snd (imm_callback h f args s) = Some e) \<or> (\<exists>s. snd (imm_ticks h s) = Some e)"

subsection \<open>One immediate\<close>

lemma enter_inv:
  assumes inv: "imm_inv s q p (i # r)" and I: "objects s i = Some I"
  shows "imm_inv (enter_immediate i I s) q (Some i) r" "outstandingHead (enter_immediate i I s) = outstandingHead s"
    "calledImmediates (enter_immediate i I s) = calledImmediates s"
    "clearedImmediates (enter_immediate i I s) = clearedImmediates s"
    "immAsync (enter_immediate i I s) = emitBefore (imm_async_id I) (imm_trigger_id I) (immAsync s)"
proof -
  let ?s = "enter_immediate i I s"
  note d = imm_invD [OF inv]
  have o: "objects ?s = (objects s)(i \<mapsto> I\<lparr>immDestroyed := True, immRefed := None\<rparr>)"
    using I by (simp add: enter_immediate_def Let_def upd_immediate_def)
  have f: "idleNext ?s = idleNext s" "idlePrev ?s = idlePrev s" "queueHead ?s = queueHead s" "queueTail ?s = queueTail s"
    "nextImmediate ?s = nextImmediate s" "infoCount ?s = infoCount s - 1"
    "infoRefCount ?s = infoRefCount s - of_bool (immRefed I = Some True)"
    by (simp_all add: enter_immediate_def Let_def)
  show "outstandingHead ?s = outstandingHead s" "calledImmediates ?s = calledImmediates s"
    "clearedImmediates ?s = clearedImmediates s"
    "immAsync ?s = emitBefore (imm_async_id I) (imm_trigger_id I) (immAsync s)"
    by (simp_all add: enter_immediate_def Let_def)
  have live: "live ?s = live s - {i}" by (simp add: live_upd [OF o])
  have "int (card (refs ?s)) = infoRefCount s - of_bool (immRefed I = Some True)"
    using imm_refs_card [OF inv o] I by (simp add: refs_def)
  moreover have "immediate_ok (I\<lparr>immDestroyed := True, immRefed := None\<rparr>)" by (simp add: immediate_ok_def)
  moreover have "i < nextImmediate s" using d(8) [OF I] by blast
  moreover have "seg ?s p' xs None \<longleftrightarrow> seg s p' xs None" for p' xs by (rule seg_links [OF f(1,2)])
  ultimately show "imm_inv ?s q (Some i) r"
    using d(1-6) d(8,9) f live unfolding imm_inv_def by (auto simp: o)
qed

lemma leave_inv:
  assumes inv: "imm_inv s q (Some i) r"
  shows "imm_inv (leave_immediate i a s) q (Some i) r" "outstandingHead (leave_immediate i a s) = first_or r None"
    "calledImmediates (leave_immediate i a s) = calledImmediates s"
    "clearedImmediates (leave_immediate i a s) = clearedImmediates s"
proof -
  let ?s = "leave_immediate i a s"
  note d = imm_invD [OF inv]
  obtain I where I: "objects s i = Some I" "immDestroyed I" using d(7) [of i] by (auto simp: live_def)
  have o: "objects ?s = (objects s)(i \<mapsto> I\<lparr>onImmediate := None\<rparr>)"
    using I by (simp add: leave_immediate_def Let_def upd_immediate_def)
  have "immediate_ok (I\<lparr>onImmediate := None\<rparr>)" using d(8) [OF I(1)] I(2) by (simp add: immediate_ok_def)
  from change_inv(2) [OF I(1) o _ this] show "imm_inv ?s q (Some i) r"
    using inv by (simp add: leave_immediate_def Let_def)
  show "outstandingHead ?s = first_or r None" using d(7) [of i] by (simp add: leave_immediate_def Let_def)
  show "calledImmediates ?s = calledImmediates s" "clearedImmediates ?s = clearedImmediates s"
    by (simp_all add: leave_immediate_def Let_def)
qed

lemma call_immediate_step:
  assumes inv: "imm_inv s q p (i # r)" and I: "objects s i = Some I" and call: "call_immediate h i I s = (out, s')"
  obtains q' where "imm_inv s' q' (Some i) (remaining s' r)" "outstandingHead s' = first_or (remaining s' r) None"
    "calledImmediates s' = calledImmediates s @ [i]" "cleared_since s s' [i]"
    "\<And>e. out = ImmediatesThrew e \<Longrightarrow> imm_throws h e"
    "\<And>j. objects s j \<noteq> None \<Longrightarrow> objects s' j \<noteq> None \<and> (j \<in> live s' \<longrightarrow> j \<in> live s)" "i \<notin> live s'"
proof -
  define s1 where "s1 = enter_immediate i I s"
  note e = enter_inv [OF inv I, folded s1_def]
  have live: "i \<in> live s" using imm_invD(2) [OF inv] by auto
  then have "\<not> immDestroyed I" using I by (simp add: live_def)
  then obtain f where f: "onImmediate I = Some f" using imm_invD(8) [OF inv I] by (auto simp: immediate_ok_def)
  define sc where "sc = s1\<lparr>calledImmediates := calledImmediates s1 @ [i]\<rparr>"
  have lc: "live sc = live s1" by (simp add: sc_def live_def)
  have "imm_inv sc q (Some i) r \<longleftrightarrow> imm_inv s1 q (Some i) r"
    by (simp add: imm_inv_def lc [unfolded sc_def] refs_def sc_def
        seg_links [of "s1\<lparr>calledImmediates := calledImmediates s1 @ [i]\<rparr>" s1])
  then have ic: "imm_inv sc q (Some i) r" using e(1) by simp
  define c where "c = imm_callback h f (case immArgv I of None \<Rightarrow> [] | Some args \<Rightarrow> args) sc"
  define s2 where "s2 = immediate_calls (fst c) sc"
  obtain q' where g: "imm_grows sc s2" and i2: "imm_inv s2 q' (Some i) (remaining s2 r)"
    using imm_stepD [OF immediate_calls_step ic] unfolding s2_def by metis
  define s3 where "s3 = leave_immediate i (imm_async_id I) s2"
  note l = leave_inv [OF i2, of "imm_async_id I", folded s3_def]
  have same: "live s3 = live s2" "dom (objects s3) = dom (objects s2)"
  proof -
    obtain J where J: "objects s2 i = Some J" using imm_invD(7) [OF i2] by blast
    have "objects s3 = (objects s2)(i \<mapsto> J\<lparr>onImmediate := None\<rparr>)" using J by (simp add: s3_def leave_immediate_def Let_def upd_immediate_def)
    then show "live s3 = live s2" "dom (objects s3) = dom (objects s2)" using J by (auto simp: live_def)
  qed
  have rem: "remaining s3 r = remaining s2 r" by (simp add: remaining_def same)
  define a where "a = emitAfter (imm_async_id I) (immAsync s3)"
  have "call_immediate h i I s = (case snd c of Some e \<Rightarrow> (ImmediatesThrew e, s3)
      | None \<Rightarrow> (ImmediatesDone, s3\<lparr>immAsync := a, immContext := immContext s\<rparr>))"
    unfolding call_immediate_def invoke_immediate_def Let_def s1_def [symmetric] f option.case sc_def [symmetric] c_def [symmetric]
    by (simp add: run_immediate_host_def s2_def [symmetric] s3_def [symmetric] a_def split: option.split)
  then have cases: "(\<exists>e. snd c = Some e \<and> out = ImmediatesThrew e \<and> s' = s3) \<or>
      (out = ImmediatesDone \<and> s' = s3\<lparr>immAsync := a, immContext := immContext s\<rparr>)"
    using call by (auto split: option.splits)
  have frame: "imm_inv (s3\<lparr>immAsync := a, immContext := c'\<rparr>) q' (Some i) t \<longleftrightarrow> imm_inv s3 q' (Some i) t"
    "live (s3\<lparr>immAsync := a, immContext := c'\<rparr>) = live s3" for c' t
    by (simp_all add: imm_inv_def live_def refs_def seg_links [of "s3\<lparr>immAsync := a, immContext := c'\<rparr>" s3])
  have s': "live s' = live s3" "objects s' = objects s3" "outstandingHead s' = outstandingHead s3"
    "calledImmediates s' = calledImmediates s3" "clearedImmediates s' = clearedImmediates s3" "imm_inv s' q' (Some i) (remaining s2 r)"
    using cases l(1) frame by auto
  show ?thesis
  proof (rule that)
    show "imm_inv s' q' (Some i) (remaining s' r)" "outstandingHead s' = first_or (remaining s' r) None"
      using s' l(2) rem by (simp_all add: remaining_def)
    show "calledImmediates s' = calledImmediates s @ [i]" using s'(4) l(3) g e(3) by (simp add: imm_grows_def sc_def)
    show "\<And>e. out = ImmediatesThrew e \<Longrightarrow> imm_throws h e"
      using cases by (auto simp: imm_throws_def c_def)
    have e1: "objects s1 j \<noteq> None \<longleftrightarrow> objects s j \<noteq> None" "j \<in> live s1 \<longleftrightarrow> j \<in> live s \<and> j \<noteq> i" for j
      using I by (auto simp: s1_def enter_immediate_def Let_def upd_immediate_def live_def)
    show "objects s' j \<noteq> None \<and> (j \<in> live s' \<longrightarrow> j \<in> live s)" if "objects s j \<noteq> None" for j
    proof -
      have "objects s2 j \<noteq> None \<and> (j \<in> live s2 \<longrightarrow> j \<in> live s1)" 
        using g that e1(1) lc by (simp add: imm_grows_def sc_def)
      then show ?thesis using s'(1,2) same e1(2) by (metis domIff)
    qed
    show "i \<notin> live s'" using imm_invD(7) [OF i2] s'(1) same by simp
    have "cleared_since s sc [i]" using e(4) lc e1(2) by (intro cleared_since_same) (auto simp: sc_def)
    moreover have "cleared_since s2 s' []" using s'(1,5) l(4) same(1) by (intro cleared_since_same) simp_all
    moreover have "cleared_since sc s2 []" using g by (simp add: imm_grows_def)
    ultimately show "cleared_since s s' [i]"
      using cleared_since_trans [of s sc "[i]" s2 "[]"] cleared_since_trans [of s s2 "[i]" s' "[]"] by simp
  qed
qed

subsection \<open>What a run of the queue did\<close>

text \<open>
  \<open>imm_ran s r cs s' r'\<close>: from the queue \<open>r\<close> the immediates \<open>cs\<close> were called, in order; \<open>r'\<close> is what
  is left of \<open>r\<close>, and everything before that is called or cleared.
\<close>

definition imm_ran :: "immediates \<Rightarrow> nat list \<Rightarrow> nat list \<Rightarrow> immediates \<Rightarrow> nat list \<Rightarrow> bool" where
  "imm_ran s r cs s' r' \<longleftrightarrow>
     calledImmediates s' = calledImmediates s @ cs \<and> cleared_since s s' cs \<and>
     (\<forall>j. objects s j \<noteq> None \<longrightarrow> objects s' j \<noteq> None \<and> (j \<in> live s' \<longrightarrow> j \<in> live s)) \<and>
     (\<exists>r1 r2. r = r1 @ r2 \<and> subseq cs r1 \<and> r' = remaining s' r2 \<and> (\<forall>i \<in> set r1. i \<notin> live s'))"

lemma imm_ranI:
  assumes "r = r1 @ r2" "subseq cs r1" "r' = remaining s' r2" "\<And>i. i \<in> set r1 \<Longrightarrow> i \<notin> live s'"
    "calledImmediates s' = calledImmediates s @ cs" "cleared_since s s' cs"
    "\<And>j. objects s j \<noteq> None \<Longrightarrow> objects s' j \<noteq> None \<and> (j \<in> live s' \<longrightarrow> j \<in> live s)"
  shows "imm_ran s r cs s' r'"
  using assms unfolding imm_ran_def by blast

lemma filter_split: "filter P b = c @ d \<Longrightarrow> \<exists>b1 b2. b = b1 @ b2 \<and> filter P b1 = c \<and> filter P b2 = d"
proof (induction b arbitrary: c)
  case (Cons x b)
  show ?case
  proof (cases "P x \<and> c \<noteq> []")
    case True
    then obtain c' where c: "c = x # c'" "filter P b = c' @ d" using Cons.prems by (cases c) auto
    from Cons.IH [OF this(2)] obtain b1 b2 where "b = b1 @ b2" "filter P b1 = c'" "filter P b2 = d" by blast
    then show ?thesis using True c(1) by (intro exI [of _ "x # b1"] exI [of _ b2]) simp
  next
    case False
    show ?thesis
    proof (cases "P x")
      case True
      then show ?thesis using False Cons.prems by (intro exI [of _ "[]"] exI [of _ "x # b"]) simp
    next
      case nP: False
      then obtain b1 b2 where "b = b1 @ b2" "filter P b1 = c" "filter P b2 = d" using Cons by auto
      then show ?thesis using nP by (intro exI [of _ "x # b1"] exI [of _ b2]) simp
    qed
  qed
qed simp

lemma imm_ran_trans:
  assumes "imm_ran s r cs s1 r1" "imm_ran s1 r1 cs' s2 r2" "\<forall>i \<in> set r. objects s i \<noteq> None"
  shows "imm_ran s r (cs @ cs') s2 r2"
proof -
  obtain a b where ab: "r = a @ b" "subseq cs a" "r1 = remaining s1 b" "\<forall>i \<in> set a. i \<notin> live s1"
    using assms(1) by (auto simp: imm_ran_def)
  obtain c d where cd: "r1 = c @ d" "subseq cs' c" "r2 = remaining s2 d" "\<forall>i \<in> set c. i \<notin> live s2"
    using assms(2) by (auto simp: imm_ran_def)
  obtain b1 b2 where b: "b = b1 @ b2" "remaining s1 b1 = c" "remaining s1 b2 = d"
    using filter_split [of _ b c d] ab(3) cd(1) unfolding remaining_def by metis
  have dead: "i \<notin> live s2" if "i \<in> set r" "i \<notin> live s1" for i
    using assms that unfolding imm_ran_def by metis
  have "remaining s2 d = remaining s2 b2"
    using dead ab(1) b unfolding b(3) [symmetric] remaining_def by (auto intro: filter_cong)
  moreover have "i \<notin> live s2" if "i \<in> set (a @ b1)" for i
  proof (cases "i \<in> live s1")
    case True
    then have "i \<in> set c" using that ab(4) unfolding b(2) [symmetric] by (auto simp: remaining_def)
    then show ?thesis using cd(4) by blast
  qed (use that dead ab(1) b(1) in auto)
  moreover have "subseq (cs @ cs') (a @ b1)"
    using ab(2) cd(2) subseq_filter_left [of _ b1] unfolding b(2) [symmetric] remaining_def
    by (meson list_emb_append_mono subseq_order.order_trans)
  moreover have "calledImmediates s2 = calledImmediates s @ cs @ cs'" "cleared_since s s2 (cs @ cs')"
    using assms(1,2) cleared_since_trans by (auto simp: imm_ran_def)
  moreover have "objects s2 j \<noteq> None \<and> (j \<in> live s2 \<longrightarrow> j \<in> live s)" if "objects s j \<noteq> None" for j
    using assms(1,2) that unfolding imm_ran_def by metis
  ultimately show ?thesis using ab(1) b(1) cd(3) by (intro imm_ranI [of _ "a @ b1" b2]) simp_all
qed

lemma imm_ran_refl: "imm_inv s q p r \<Longrightarrow> imm_ran s r [] s r"
  using remaining_self [of s q p r] by (intro imm_ranI [of _ "[]" r]) simp_all

lemma imm_ran_grows: "imm_grows s s1 \<Longrightarrow> imm_ran s r [] s1 (remaining s1 r)"
  by (intro imm_ranI [of _ "[]" r]) (simp_all add: imm_grows_def)

lemma imm_outstanding [simp]:
  "imm_inv (s\<lparr>outstandingHead := x\<rparr>) q p r \<longleftrightarrow> imm_inv s q p r" "live (s\<lparr>outstandingHead := x\<rparr>) = live s"
  "remaining (s\<lparr>outstandingHead := x\<rparr>) r = remaining s r"
  "imm_ran s0 r cs (s\<lparr>outstandingHead := x\<rparr>) r' \<longleftrightarrow> imm_ran s0 r cs s r'"
  "imm_ran (s\<lparr>outstandingHead := x\<rparr>) r cs s' r' \<longleftrightarrow> imm_ran s r cs s' r'"
proof -
  show l: "live (s\<lparr>outstandingHead := x\<rparr>) = live s" for s x by (simp add: live_def)
  then show r: "remaining (s\<lparr>outstandingHead := x\<rparr>) r = remaining s r" for s x r by (simp add: remaining_def)
  show "imm_ran s0 r cs (s\<lparr>outstandingHead := x\<rparr>) r' \<longleftrightarrow> imm_ran s0 r cs s r'"
    "imm_ran (s\<lparr>outstandingHead := x\<rparr>) r cs s' r' \<longleftrightarrow> imm_ran s r cs s' r'" by (simp_all add: imm_ran_def cleared_since_def l r)
  show "imm_inv (s\<lparr>outstandingHead := x\<rparr>) q p r \<longleftrightarrow> imm_inv s q p r"
    by (simp add: imm_inv_def l refs_def seg_links [of "s\<lparr>outstandingHead := x\<rparr>" s])
qed

subsection \<open>The loop\<close>

text \<open>The kept rest is where the native side will find it, or its head has been cleared since.\<close>

definition outstanding_ok :: "immediates \<Rightarrow> nat list \<Rightarrow> bool" where
  "outstanding_ok s r \<longleftrightarrow>
     outstandingHead s = first_or r None \<or> (\<exists>i. outstandingHead s = Some i \<and> objects s i \<noteq> None \<and> i \<notin> live s)"

definition imm_good :: "immediate_host \<Rightarrow> immediate_outcome \<Rightarrow> bool" where
  "imm_good h out \<longleftrightarrow> out = ImmediatesDone \<or> (\<exists>e. out = ImmediatesThrew e \<and> imm_throws h e)"

lemma outstanding_grows:
  assumes "imm_inv s q p r" "imm_grows s s'" "outstanding_ok s r"
  shows "outstanding_ok s' (remaining s' r)"
proof (cases "\<exists>i. outstandingHead s = Some i \<and> objects s i \<noteq> None \<and> i \<notin> live s'")
  case True
  then show ?thesis using assms(2) by (auto simp: outstanding_ok_def imm_grows_def)
next
  case False
  then have "\<not> (\<exists>i. outstandingHead s = Some i \<and> objects s i \<noteq> None \<and> i \<notin> live s)"
    using assms(2) unfolding imm_grows_def by blast
  then have o: "outstandingHead s = first_or r None" using assms(3) unfolding outstanding_ok_def by blast
  have "outstandingHead s = first_or (remaining s' r) None"
  proof (cases r)
    case (Cons i t)
    then have "i \<in> live s" using imm_invD(2) [OF assms(1)] by auto
    then have "i \<in> live s'" using False o Cons live_objects by fastforce
    then show ?thesis using o Cons by (simp add: remaining_def)
  qed (use o in \<open>simp add: remaining_def\<close>)
  then show ?thesis using assms(2) by (simp add: outstanding_ok_def imm_grows_def)
qed

lemma immediate_ticks_step:
  assumes "imm_inv s q p r" "immediate_ticks h again s = (e, s')"
  obtains q' where "imm_grows s s'" "imm_inv s' q' p (remaining s' r)" "\<And>x. e = Some x \<Longrightarrow> imm_throws h x" "again \<or> s' = s"
proof (cases again)
  case True
  then have s': "s' = immediate_calls (fst (imm_ticks h s)) s" "e = snd (imm_ticks h s)"
    using assms(2) by (simp_all add: immediate_ticks_def run_immediate_host_def)
  obtain q' where q': "imm_grows s s'" "imm_inv s' q' p (remaining s' r)"
    unfolding s' by (rule imm_stepD [OF immediate_calls_step assms(1)])
  then show ?thesis using s'(2) True by (intro that [of q']) (auto simp: imm_throws_def)
next
  case False
  then show ?thesis using assms remaining_self [OF assms(1)] by (intro that [of q]) (auto simp: immediate_ticks_def)
qed

lemma immediate_loop_step:
  assumes "imm_inv s q p r" "length r < n" "\<not> again \<or> prev = p \<and> p \<noteq> None"
    "outstandingHead s = first_or r None \<or> \<not> again \<and> outstandingHead s = None"
  shows "\<exists>out s' q' p' r' cs. immediate_loop n h (first_or r None) prev again s = Some (out, s') \<and>
    imm_inv s' q' p' r' \<and> imm_ran s r cs s' r' \<and> imm_good h out \<and>
    (if out = ImmediatesDone then r' = [] \<and> outstandingHead s' = None else outstanding_ok s' r')"
  using assms
proof (induction n arbitrary: s q p r prev again)
  case (Suc n)
  note inv = Suc.prems(1)
  show ?case
  proof (cases r)
    case Nil
    then have "immediate_loop (Suc n) h (first_or r None) prev again s = Some (ImmediatesDone, s)" by simp
    then show ?thesis using inv imm_ran_refl [OF inv] Nil Suc.prems(4)
      by (intro exI [of _ ImmediatesDone] exI [of _ s] exI [of _ q] exI [of _ p] exI [of _ "[]"]) (auto simp: imm_good_def)
  next
    case (Cons i t)
    obtain e s1 where ticks: "immediate_ticks h again s = (e, s1)" by (metis surj_pair)
    obtain q1 where s1: "imm_grows s s1" "imm_inv s1 q1 p (remaining s1 r)" "\<And>x. e = Some x \<Longrightarrow> imm_throws h x" "again \<or> s1 = s"
      using immediate_ticks_step [OF inv ticks] by metis
    have ran1: "imm_ran s r [] s1 (remaining s1 r)" by (rule imm_ran_grows [OF s1(1)])
    have exist: "\<forall>j \<in> set r. objects s j \<noteq> None" using imm_invD(2) [OF inv] live_objects by auto
    show ?thesis
    proof (cases e)
      case (Some e')
      then have again: again using ticks by (auto simp: immediate_ticks_def split: if_splits)
      have "immediate_loop (Suc n) h (first_or r None) prev again s = Some (ImmediatesThrew e', s1)"
        using Cons ticks Some by simp
      moreover have "outstanding_ok s1 (remaining s1 r)"
        using outstanding_grows [OF inv s1(1)] Suc.prems(4) again by (simp add: outstanding_ok_def)
      ultimately show ?thesis using s1 ran1 Some
        by (intro exI [of _ "ImmediatesThrew e'"] exI [of _ s1] exI [of _ q1] exI [of _ p] exI [of _ "remaining s1 r"]
            exI [of _ "[]"]) (simp add: imm_good_def)
    next
      case None
      obtain I where I: "objects s1 i = Some I" using s1(1) exist Cons unfolding imm_grows_def by fastforce
      show ?thesis
      proof (cases "immDestroyed I")
        case True
        then have dead: "i \<notin> live s1" using I by (simp add: live_def)
        then have "again" using s1(4) imm_invD(2) [OF inv] Cons by auto
        then obtain a where a: "prev = Some a" "p = Some a" using Suc.prems(3) by auto
        let ?s = "s1\<lparr>outstandingHead := idleNext s1 a\<rparr>"
        have nx: "idleNext s1 a = first_or (remaining s1 r) None" using imm_invD(7) [OF s1(2) a(2)] by blast
        have len: "length (remaining s1 r) < n"
          using Cons dead Suc.prems(2) by (simp add: remaining_def le_less_trans [OF length_filter_le])
        have run: "immediate_loop (Suc n) h (first_or r None) prev again s =
            immediate_loop n h (first_or (remaining s1 r) None) prev True ?s"
          using Cons ticks None I True a nx by simp
        obtain out s' q' p' r' cs where l: "immediate_loop n h (first_or (remaining s1 r) None) prev True ?s = Some (out, s')"
            "imm_inv s' q' p' r'" "imm_ran ?s (remaining s1 r) cs s' r'" "imm_good h out"
            "if out = ImmediatesDone then r' = [] \<and> outstandingHead s' = None else outstanding_ok s' r'"
          using Suc.IH [of ?s q1 p "remaining s1 r" True prev] s1(2) len a nx by auto
        have "imm_ran s r ([] @ cs) s' r'" using imm_ran_trans [OF ran1 _ exist] l(3) by simp
        then show ?thesis using run l
          by (intro exI [of _ out] exI [of _ s'] exI [of _ q'] exI [of _ p'] exI [of _ r'] exI [of _ cs]) simp
      next
        case False
        then have lv: "i \<in> live s1" using I by (simp add: live_def)
        then have rem: "remaining s1 r = i # remaining s1 t" using Cons by (simp add: remaining_def)
        obtain out s2 where call: "call_immediate h i I s1 = (out, s2)" by (metis surj_pair)
        obtain q2 where s2: "imm_inv s2 q2 (Some i) (remaining s2 (remaining s1 t))"
            "outstandingHead s2 = first_or (remaining s2 (remaining s1 t)) None"
            "calledImmediates s2 = calledImmediates s1 @ [i]" "cleared_since s1 s2 [i]"
            "\<And>e. out = ImmediatesThrew e \<Longrightarrow> imm_throws h e"
            "\<And>j. objects s1 j \<noteq> None \<Longrightarrow> objects s2 j \<noteq> None \<and> (j \<in> live s2 \<longrightarrow> j \<in> live s1)" "i \<notin> live s2"
          using call_immediate_step [OF s1(2) [unfolded rem] I call] by blast
        let ?r = "remaining s2 (remaining s1 t)"
        have "imm_ran s1 (remaining s1 r) [i] s2 ?r"
          using s2(3,4,6,7) unfolding rem by (intro imm_ranI [of _ "[i]" "remaining s1 t"]) simp_all
        then have ran2: "imm_ran s r [i] s2 ?r" using imm_ran_trans [OF ran1 _ exist] by fastforce
        have run: "immediate_loop (Suc n) h (first_or r None) prev again s =
            (case out of ImmediatesDone \<Rightarrow> immediate_loop n h (first_or ?r None) (Some i) True s2 | _ \<Rightarrow> Some (out, s2))"
          using Cons ticks None I False call s2(2) by (cases out) simp_all
        show ?thesis
        proof (cases "out = ImmediatesDone")
          case True
          have "length ?r \<le> length t"
            unfolding remaining_def by (meson le_trans length_filter_le)
          then have "length ?r < n" using Suc.prems(2) Cons by simp
          then obtain out' s' q' p' r' cs where l: "immediate_loop n h (first_or ?r None) (Some i) True s2 = Some (out', s')"
              "imm_inv s' q' p' r'" "imm_ran s2 ?r cs s' r'" "imm_good h out'"
              "if out' = ImmediatesDone then r' = [] \<and> outstandingHead s' = None else outstanding_ok s' r'"
            using Suc.IH [OF s2(1), of True "Some i"] s2(2) by auto
          have "imm_ran s r ([i] @ cs) s' r'" by (rule imm_ran_trans [OF ran2 l(3) exist])
          then show ?thesis using run True l
            by (intro exI [of _ out'] exI [of _ s'] exI [of _ q'] exI [of _ p'] exI [of _ r'] exI [of _ "[i] @ cs"]) simp
        next
          case F: False
          then have "immediate_loop (Suc n) h (first_or r None) prev again s = Some (out, s2)" using run by (cases out) simp_all
          moreover have "imm_good h out" using F s2(5) by (cases out) (auto simp: imm_good_def)
          ultimately show ?thesis using F s2(1,2) ran2
            by (intro exI [of _ out] exI [of _ s2] exI [of _ q2] exI [of _ "Some i"] exI [of _ ?r] exI [of _ "[i]"])
              (simp add: outstanding_ok_def)
        qed
      qed
    qed
  qed
qed simp

subsection \<open>Reachable states\<close>

definition imm_fuel :: "immediates \<Rightarrow> nat" where
  "imm_fuel s = nextImmediate s + 1"

inductive immediates_reach :: "immediate_host \<Rightarrow> immediates \<Rightarrow> bool" for h where
  imm_reach_start: "immediates_reach h (start_immediates a)"
| imm_reach_calls: "immediates_reach h s \<Longrightarrow> immediates_reach h (immediate_calls cs s)"
| imm_reach_pass: "immediates_reach h s \<Longrightarrow> processImmediate (imm_fuel s) h s = Some (out, s') \<Longrightarrow> immediates_reach h s'"

definition run_queue :: "immediates \<Rightarrow> nat option" where
  "run_queue s = (if outstandingHead s \<noteq> None then outstandingHead s else queueHead s)"

fun follow :: "immediates \<Rightarrow> nat option \<Rightarrow> nat list \<Rightarrow> bool" where
  "follow s x [] \<longleftrightarrow> x = None"
| "follow s x (y # ys) \<longleftrightarrow> x = Some y \<and> follow s (idleNext s y) ys"

lemma seg_follow: "seg s p xs None \<Longrightarrow> follow s (first_or xs None) xs"
  by (induction xs arbitrary: p) auto

lemma fuel_enough:
  assumes "imm_inv s q p r"
  shows "length (q @ r) < imm_fuel s"
proof -
  have "set (q @ r) \<subseteq> {..<nextImmediate s}"
    using imm_invD(2,8) [OF assms] by (fastforce simp: live_def)
  then have "card (set (q @ r)) \<le> nextImmediate s" by (metis card_lessThan card_mono finite_lessThan)
  then show ?thesis using distinct_card [OF imm_invD(1) [OF assms]] by (simp add: imm_fuel_def)
qed

lemma process_stuck:
  assumes "outstandingHead s = Some i" "objects s i \<noteq> None" "i \<notin> live s" "0 < n"
  shows "processImmediate n h s = Some (ImmediatesThrew (TypeError ''Cannot read properties of undefined''), s)"
  using assms by (cases n) (auto simp: processImmediate_def Let_def immediate_ticks_def live_def)

lemma process_step:
  assumes inv: "imm_inv s q p r" and ok: "outstandingHead s = first_or r None"
  shows "\<exists>out s' q' p' r' xs cs. processImmediate (imm_fuel s) h s = Some (out, s') \<and> imm_inv s' q' p' r' \<and> outstanding_ok s' r' \<and>
    follow s (run_queue s) xs \<and> distinct xs \<and> set xs \<subseteq> live s \<and>
    imm_ran s xs cs s' r' \<and> imm_good h out \<and> (out = ImmediatesDone \<longrightarrow> r' = [])"
proof -
  note d = imm_invD [OF inv] and fuel = fuel_enough [OF inv]
  define out where "out \<longleftrightarrow> r \<noteq> []"
  define xs where "xs = (if out then r else q)"
  define p0 where "p0 = (if out then p else None)"
  define q0 where "q0 = (if out then q else [])"
  define s0 where "s0 = (if out then s else s\<lparr>queueHead := None, queueTail := None, hasOutstanding := True\<rparr>)"
  have o: "outstandingHead s \<noteq> None \<longleftrightarrow> out" using ok by (cases r) (simp_all add: out_def)
  have head: "run_queue s = first_or xs None" using o ok d(4) by (auto simp: run_queue_def xs_def)
  have follow: "follow s (run_queue s) xs" using seg_follow d(3,6) unfolding head xs_def by auto
  have same: "live s0 = live s" "objects s0 = objects s" "calledImmediates s0 = calledImmediates s"
    "clearedImmediates s0 = clearedImmediates s" by (simp_all add: s0_def live_def)
  have "seg s0 None q None \<longleftrightarrow> seg s None q None" by (rule seg_links) (simp_all add: s0_def)
  then have i0: "imm_inv s0 q0 p0 xs"
  proof (cases out)
    case True
    then show ?thesis using inv by (simp add: s0_def q0_def p0_def xs_def)
  next
    case False
    then have "r = []" by (simp add: out_def)
    then show ?thesis using False d(1-3) d(8-10) \<open>seg s0 None q None \<longleftrightarrow> seg s None q None\<close>
      by (auto simp: imm_inv_def same q0_def p0_def xs_def refs_def) (auto simp: s0_def refs_def)
  qed
  have len: "length xs < imm_fuel s" using fuel by (simp add: xs_def)
  have o0: "outstandingHead s0 = first_or xs None \<or> \<not> False \<and> outstandingHead s0 = None"
    using ok o by (auto simp: s0_def xs_def)
  obtain res s' q' p' r' cs where l: "immediate_loop (imm_fuel s) h (first_or xs None) None False s0 = Some (res, s')"
      "imm_inv s' q' p' r'" "imm_ran s0 xs cs s' r'" "imm_good h res"
      "if res = ImmediatesDone then r' = [] \<and> outstandingHead s' = None else outstanding_ok s' r'"
    using immediate_loop_step [OF i0 len _ o0, of None h] by blast
  have ran: "imm_ran s xs cs s' r'" using l(3) by (simp add: imm_ran_def cleared_since_def same)
  have run: "processImmediate (imm_fuel s) h s =
      (if res = ImmediatesDone then Some (res, s'\<lparr>outstandingHead := None, hasOutstanding := False\<rparr>) else Some (res, s'))"
  proof -
    have "immediate_loop (imm_fuel s) h (if out then outstandingHead s else queueHead s) None False s0 = Some (res, s')"
      using l(1) head o by (simp add: run_queue_def)
    then have *: "processImmediate (imm_fuel s) h s = (case Some (res, s') of
        Some (ImmediatesDone, s) \<Rightarrow> (let s = (if out then s\<lparr>outstandingHead := None\<rparr> else s) in Some (ImmediatesDone, s\<lparr>hasOutstanding := False\<rparr>))
      | r \<Rightarrow> r)"
      unfolding processImmediate_def Let_def o s0_def by simp
    show ?thesis
    proof (cases res)
      case ImmediatesDone
      then have "s'\<lparr>outstandingHead := None\<rparr> = s'" using l(5) by simp
      then show ?thesis using ImmediatesDone by (simp add: * Let_def)
    qed (simp_all add: *)
  qed
  let ?s = "s'\<lparr>outstandingHead := None, hasOutstanding := False\<rparr>"
  have fin: "imm_inv ?s q' p' r' \<longleftrightarrow> imm_inv s' q' p' r'" "imm_ran s xs cs ?s r' \<longleftrightarrow> imm_ran s xs cs s' r'"
    by (simp_all add: imm_inv_def imm_ran_def cleared_since_def live_def refs_def remaining_def seg_links [of ?s s'])
  have sub: "distinct xs" "set xs \<subseteq> live s" using d(1,2) by (auto simp: xs_def)
  show ?thesis
  proof (cases "res = ImmediatesDone")
    case True
    then have "outstanding_ok ?s r'" using l(5) by (simp add: outstanding_ok_def)
    then show ?thesis using True run l fin follow sub ran
      by (intro exI [of _ res] exI [of _ ?s] exI [of _ q'] exI [of _ p'] exI [of _ r'] exI [of _ xs] exI [of _ cs]) simp
  next
    case False
    then show ?thesis using run l follow sub ran
      by (intro exI [of _ res] exI [of _ s'] exI [of _ q'] exI [of _ p'] exI [of _ r'] exI [of _ xs] exI [of _ cs]) simp
  qed
qed

lemma imm_reach_inv: "immediates_reach h s \<Longrightarrow> \<exists>q p r. imm_inv s q p r \<and> outstanding_ok s r"
proof (induction rule: immediates_reach.induct)
  case (imm_reach_start a)
  have "imm_inv (start_immediates a) [] None []" "outstanding_ok (start_immediates a) []"
    by (simp_all add: imm_inv_def start_immediates_def live_def refs_def outstanding_ok_def)
  then show ?case by blast
next
  case (imm_reach_calls s cs)
  then obtain q p r where "imm_inv s q p r" "outstanding_ok s r" by blast
  then show ?case using immediate_calls_step outstanding_grows by (metis imm_stepD)
next
  case (imm_reach_pass s out s')
  then obtain q p r where i: "imm_inv s q p r" "outstanding_ok s r" by blast
  show ?case
  proof (cases "outstandingHead s = first_or r None")
    case True
    from process_step [OF i(1) this, of h] imm_reach_pass.hyps show ?thesis by auto
  next
    case False
    then obtain j where "outstandingHead s = Some j" "objects s j \<noteq> None" "j \<notin> live s"
      using i(2) by (auto simp: outstanding_ok_def)
    then have "s' = s" using process_stuck [of s j "imm_fuel s" h] imm_reach_pass.hyps by (simp add: imm_fuel_def)
    then show ?thesis using i by blast
  qed
qed

subsection \<open>Properties\<close>

definition quiet_immediates :: immediate_host where
  "quiet_immediates = \<lparr>imm_callback = (\<lambda>f args s. ([], None)), imm_ticks = (\<lambda>s. ([], None))\<rparr>"

abbreviation two_immediates :: immediates where
  "two_immediates \<equiv> immediate_calls [SetImmediate (JFunction 7) [], SetImmediate (JFunction 8) []] (start_immediates idle_fields)"

lemma two_immediates_reach: "immediates_reach quiet_immediates two_immediates"
  by (intro imm_reach_calls imm_reach_start)

lemmas immediate_simps = start_immediates_def idle_fields_def setImmediate_def validateFunction_def new_Immediate_def
  init_immediate_resource_def newAsyncId_def getDefaultTriggerAsyncId_def initHooksExist_def upd_immediate_def immediate_ref_def
  toggleImmediateRef_def queue_append_def queue_remove_def set_next_def set_prev_def clearImmediate_def emitDestroy_def
  emitBefore_def emitAfter_def pushAsyncContext_def popAsyncContext_def stack_read_def native_pop_def enabledHooksExist_def
  processImmediate_def imm_fuel_def eval_nat_numeral
  immediate_ticks_def run_immediate_host_def call_immediate_def enter_immediate_def invoke_immediate_def leave_immediate_def Let_def

text \<open>
  In every state that calls and passes reach, the two counts the native side reads are the number
  of immediates that wait and the number of those with a reference.
\<close>

lemma immediate_counts:
  assumes "immediates_reach h s"
  shows "infoCount s = int (card {i. \<exists>I. objects s i = Some I \<and> \<not> immDestroyed I}) \<and>
    infoRefCount s = int (card {i. \<exists>I. objects s i = Some I \<and> \<not> immDestroyed I \<and> immRefed I = Some True})"
proof -
  obtain q p r where i: "imm_inv s q p r" using imm_reach_inv [OF assms] by blast
  have "infoCount s = int (card (live s))"
    using imm_invD(1,2,9) [OF i] distinct_card by metis
  moreover have "refs s = {i. \<exists>I. objects s i = Some I \<and> \<not> immDestroyed I \<and> immRefed I = Some True}"
    using imm_invD(8) [OF i] by (fastforce simp: refs_def immediate_ok_def)
  ultimately show ?thesis using imm_invD(10) [OF i] by (simp add: live_def)
qed

lemma immediate_counts_witness:
  "infoCount two_immediates = int (card {i. \<exists>I. objects two_immediates i = Some I \<and> \<not> immDestroyed I}) \<and>
    infoRefCount two_immediates =
      int (card {i. \<exists>I. objects two_immediates i = Some I \<and> \<not> immDestroyed I \<and> immRefed I = Some True})"
  by (rule immediate_counts [OF two_immediates_reach])

text \<open>
  C27: When the kept rest, if there is one, is not headed by a cleared immediate, a pass ends. It runs
  over the immediates of one queue, which are all waiting when it begins, and calls the callbacks of
  some of them, in order and each once, and of no other. When it is done none of them waits; each
  one that no longer waits, also when the pass throws, has had its callback called or was cleared
  during the pass. What the pass throws is what a callback or the tick queue threw.
\<close>

theorem process_immediate_order:
  assumes "immediates_reach h s" "\<And>i I. outstandingHead s = Some i \<Longrightarrow> objects s i = Some I \<Longrightarrow> \<not> immDestroyed I"
  shows "\<exists>out s' xs cs ds. processImmediate (imm_fuel s) h s = Some (out, s') \<and>
    follow s (run_queue s) xs \<and> distinct xs \<and> (\<forall>i \<in> set xs. \<exists>I. objects s i = Some I \<and> \<not> immDestroyed I) \<and>
    calledImmediates s' = calledImmediates s @ cs \<and> subseq cs xs \<and>
    clearedImmediates s' = clearedImmediates s @ ds \<and>
    (\<forall>i \<in> set xs. i \<in> set cs \<or> i \<in> set ds \<or> (\<exists>I. objects s' i = Some I \<and> \<not> immDestroyed I)) \<and>
    (out = ImmediatesDone \<and> (\<forall>i \<in> set xs. \<exists>I. objects s' i = Some I \<and> immDestroyed I) \<or>
     (\<exists>e. out = ImmediatesThrew e \<and>
       ((\<exists>f args s. snd (imm_callback h f args s) = Some e) \<or> (\<exists>s. snd (imm_ticks h s) = Some e))))"
proof -
  obtain q p r where i: "imm_inv s q p r" "outstanding_ok s r" using imm_reach_inv [OF assms(1)] by blast
  have "outstandingHead s = first_or r None"
    using i(2) assms(2) by (fastforce simp: outstanding_ok_def live_def)
  from process_step [OF i(1) this, of h] obtain out s' q' p' r' xs cs where
    l: "processImmediate (imm_fuel s) h s = Some (out, s')" "follow s (run_queue s) xs" "distinct xs" "set xs \<subseteq> live s"
      "imm_ran s xs cs s' r'" "imm_good h out" "out = ImmediatesDone \<longrightarrow> r' = []" by metis
  obtain r1 r2 where r: "xs = r1 @ r2" "subseq cs r1" "r' = remaining s' r2" "\<forall>i \<in> set r1. i \<notin> live s'"
    using l(5) by (auto simp: imm_ran_def)
  have "subseq cs xs" using r(1,2) by (metis list_emb_append2 subseq_order.order_trans subseq_rev_drop_many)
  moreover have "\<exists>I. objects s' i = Some I \<and> immDestroyed I" if "out = ImmediatesDone" "i \<in> set xs" for i
  proof -
    have "objects s i \<noteq> None" using l(4) that(2) live_objects by blast
    then have "objects s' i \<noteq> None" using l(5) by (simp add: imm_ran_def)
    moreover have "i \<notin> live s'"
    proof (cases "i \<in> set r1")
      case False
      then have "i \<in> set r2" "remaining s' r2 = []" using r(1,3) l(7) that by auto
      then show ?thesis unfolding remaining_def filter_empty_conv by blast
    qed (use r(4) in blast)
    ultimately show ?thesis by (auto simp: live_def)
  qed
  moreover obtain ds where ds: "clearedImmediates s' = clearedImmediates s @ ds" "live s \<subseteq> live s' \<union> set ds \<union> set cs"
    using l(5) by (auto simp: imm_ran_def cleared_since_def)
  moreover have "i \<in> set cs \<or> i \<in> set ds \<or> (\<exists>I. objects s' i = Some I \<and> \<not> immDestroyed I)" if "i \<in> set xs" for i
  proof -
    have "i \<in> live s' \<union> set ds \<union> set cs" using that ds(2) l(4) by blast
    then show ?thesis by (auto simp: live_def)
  qed
  moreover have "\<exists>I. objects s i = Some I \<and> \<not> immDestroyed I" if "i \<in> set xs" for i
    using that l(4) by (auto simp: live_def)
  moreover have "calledImmediates s' = calledImmediates s @ cs" using l(5) by (simp add: imm_ran_def)
  moreover have "out = ImmediatesDone \<or> (\<exists>e. out = ImmediatesThrew e \<and>
      ((\<exists>f args s. snd (imm_callback h f args s) = Some e) \<or> (\<exists>s. snd (imm_ticks h s) = Some e)))"
    using l(6) by (simp add: imm_good_def imm_throws_def)
  ultimately show ?thesis using l(1-3) by (intro exI [of _ out] exI [of _ s'] exI [of _ xs] exI [of _ cs] exI [of _ ds]) blast
qed

theorem process_immediate_order_witness:
  "\<exists>out s' xs cs ds. processImmediate (imm_fuel two_immediates) quiet_immediates two_immediates = Some (out, s') \<and>
    follow two_immediates (run_queue two_immediates) xs \<and> distinct xs \<and>
    (\<forall>i \<in> set xs. \<exists>I. objects two_immediates i = Some I \<and> \<not> immDestroyed I) \<and>
    calledImmediates s' = calledImmediates two_immediates @ cs \<and> subseq cs xs \<and>
    clearedImmediates s' = clearedImmediates two_immediates @ ds \<and>
    (\<forall>i \<in> set xs. i \<in> set cs \<or> i \<in> set ds \<or> (\<exists>I. objects s' i = Some I \<and> \<not> immDestroyed I)) \<and>
    (out = ImmediatesDone \<and> (\<forall>i \<in> set xs. \<exists>I. objects s' i = Some I \<and> immDestroyed I) \<or>
     (\<exists>e. out = ImmediatesThrew e \<and>
       ((\<exists>f args s. snd (imm_callback quiet_immediates f args s) = Some e) \<or> (\<exists>s. snd (imm_ticks quiet_immediates s) = Some e))))"
proof -
  have "outstandingHead two_immediates = None" by (simp add: immediate_simps)
  then show ?thesis using process_immediate_order [OF two_immediates_reach] by fastforce
qed

text \<open>
  The first of three immediates throws, which keeps the other two; then the second is cleared and a
  fourth is made, as a handler of the exception can do.
\<close>

definition throwing_immediates :: immediate_host where
  "throwing_immediates = \<lparr>imm_callback = (\<lambda>f args s. ([], if f = 7 then Some (TypeError ''thrown'') else None)),
     imm_ticks = (\<lambda>s. ([], None))\<rparr>"

definition thrown_queue :: immediates where
  "thrown_queue = (case processImmediate 4 throwing_immediates
       (immediate_calls [SetImmediate (JFunction 7) [], SetImmediate (JFunction 8) [], SetImmediate (JFunction 9) []]
          (start_immediates idle_fields)) of
     Some (_, s) \<Rightarrow> s | None \<Rightarrow> start_immediates idle_fields)"

definition blocked_queue :: immediates where
  "blocked_queue = immediate_calls [ClearImmediate (Some 1), SetImmediate (JFunction 9) []] thrown_queue"

lemma three_immediates_eval:
  "immediate_calls [SetImmediate (JFunction 7) [], SetImmediate (JFunction 8) [], SetImmediate (JFunction 9) []]
     (start_immediates idle_fields) =
     \<lparr>idleNext = [0 \<mapsto> 1, 1 \<mapsto> 2], idlePrev = [1 \<mapsto> 0, 2 \<mapsto> 1],
      objects =
        [0 \<mapsto> \<lparr>onImmediate = Some 7, immArgv = None, immDestroyed = False, immRefed = Some True, imm_async_id = 2,
               imm_trigger_id = Some 0, imm_frame = 0\<rparr>,
         1 \<mapsto> \<lparr>onImmediate = Some 8, immArgv = None, immDestroyed = False, immRefed = Some True, imm_async_id = 3,
               imm_trigger_id = Some 0, imm_frame = 0\<rparr>,
         2 \<mapsto> \<lparr>onImmediate = Some 9, immArgv = None, immDestroyed = False, immRefed = Some True, imm_async_id = 4,
               imm_trigger_id = Some 0, imm_frame = 0\<rparr>],
      queueHead = Some 0, queueTail = Some 2, outstandingHead = None, infoCount = 3, infoRefCount = 3, hasOutstanding = False,
      toggleLog = [True],
      immAsync = idle_fields\<lparr>asyncIdCounter := 4\<rparr>,
      immContext = 0, nextImmediate = 3, calledImmediates = [], clearedImmediates = []\<rparr>"
  by (simp add: immediate_simps)

lemma thrown_queue_eval:
  "thrown_queue =
     \<lparr>idleNext = [0 \<mapsto> 1, 1 \<mapsto> 2], idlePrev = [1 \<mapsto> 0, 2 \<mapsto> 1],
      objects =
        [1 \<mapsto> \<lparr>onImmediate = Some 8, immArgv = None, immDestroyed = False, immRefed = Some True, imm_async_id = 3,
               imm_trigger_id = Some 0, imm_frame = 0\<rparr>,
         2 \<mapsto> \<lparr>onImmediate = Some 9, immArgv = None, immDestroyed = False, immRefed = Some True, imm_async_id = 4,
               imm_trigger_id = Some 0, imm_frame = 0\<rparr>,
         0 \<mapsto> \<lparr>onImmediate = None, immArgv = None, immDestroyed = True, immRefed = None, imm_async_id = 2,
               imm_trigger_id = Some 0, imm_frame = 0\<rparr>],
      queueHead = None, queueTail = None, outstandingHead = Some 1, infoCount = 2, infoRefCount = 2, hasOutstanding = True,
      toggleLog = [True],
      immAsync = idle_fields\<lparr>asyncIdCounter := 4, executionId := Some 2, stackLength := 1\<rparr>,
      immContext = 0, nextImmediate = 3, calledImmediates = [0], clearedImmediates = []\<rparr>"
  unfolding thrown_queue_def three_immediates_eval
  by (simp add: throwing_immediates_def immediate_simps)

lemma queue_remove_fields [simp]:
  "objects (queue_remove i s) = objects s" "outstandingHead (queue_remove i s) = outstandingHead s"
  "calledImmediates (queue_remove i s) = calledImmediates s" "infoCount (queue_remove i s) = infoCount s"
  "nextImmediate (queue_remove i s) = nextImmediate s"
  by (simp_all add: queue_remove_def Let_def set_next_def set_prev_def split: option.split)

lemma clear_fields:
  assumes "objects s i = Some I" "onImmediate I = Some f" "\<not> immDestroyed I"
  shows "outstandingHead (clearImmediate (Some i) s) = outstandingHead s"
    "calledImmediates (clearImmediate (Some i) s) = calledImmediates s"
    "infoCount (clearImmediate (Some i) s) = infoCount s - 1" "nextImmediate (clearImmediate (Some i) s) = nextImmediate s"
    "objects (clearImmediate (Some i) s) = (objects s)(i \<mapsto> I\<lparr>immDestroyed := True, immRefed := None, onImmediate := None\<rparr>)"
  using assms by (simp_all add: clearImmediate_def Let_def) (simp_all add: upd_immediate_def toggleImmediateRef_def)

lemma set_fields:
  assumes "objects s i \<noteq> None" "i < nextImmediate s"
  shows "outstandingHead (do_immediate_call (SetImmediate (JFunction f) args) s) = outstandingHead s"
    "calledImmediates (do_immediate_call (SetImmediate (JFunction f) args) s) = calledImmediates s"
    "infoCount (do_immediate_call (SetImmediate (JFunction f) args) s) = infoCount s + 1"
    "objects (do_immediate_call (SetImmediate (JFunction f) args) s) i = objects s i"
proof -
  obtain a n where n: "newAsyncId (immAsync s) = (n, a)" by (metis surj_pair)
  show "outstandingHead (do_immediate_call (SetImmediate (JFunction f) args) s) = outstandingHead s"
    "calledImmediates (do_immediate_call (SetImmediate (JFunction f) args) s) = calledImmediates s"
    "infoCount (do_immediate_call (SetImmediate (JFunction f) args) s) = infoCount s + 1"
    "objects (do_immediate_call (SetImmediate (JFunction f) args) s) i = objects s i"
    using assms n by (simp_all add: setImmediate_def validateFunction_def new_Immediate_def immediate_ref_def
        init_immediate_resource_def Let_def upd_immediate_def set_next_def set_prev_def toggleImmediateRef_def)
qed

text \<open>
  From then on every pass throws a TypeError of its own, reading \<^verbatim>\<open>_idleNext\<close> of an undefined
  \<^verbatim>\<open>prevImmediate\<close>, and changes nothing: the third and the fourth immediate wait and are never called.
\<close>

lemma cleared_outstanding_blocks:
  "calledImmediates blocked_queue = [0] \<and> infoCount blocked_queue = 2 \<and>
   processImmediate (Suc n) h blocked_queue =
     Some (ImmediatesThrew (TypeError ''Cannot read properties of undefined''), blocked_queue)"
proof -
  have b: "calledImmediates blocked_queue = [0]" "infoCount blocked_queue = 2" "outstandingHead blocked_queue = Some 1"
    "\<exists>I. objects blocked_queue 1 = Some I \<and> immDestroyed I"
  proof -
    let ?c = "clearImmediate (Some 1) thrown_queue"
    have o: "objects thrown_queue 1 = Some \<lparr>onImmediate = Some 8, immArgv = None, immDestroyed = False, immRefed = Some True,
        imm_async_id = 3, imm_trigger_id = Some 0, imm_frame = 0\<rparr>" by (simp add: thrown_queue_eval)
    note c = clear_fields [OF o]
    have "objects ?c 1 \<noteq> None" "1 < nextImmediate ?c" using c(4,5) by (simp_all add: thrown_queue_eval)
    note set_fields [OF this, of 9 "[]"]
    then show "calledImmediates blocked_queue = [0]" "infoCount blocked_queue = 2" "outstandingHead blocked_queue = Some 1"
      "\<exists>I. objects blocked_queue 1 = Some I \<and> immDestroyed I"
      using c by (simp_all add: blocked_queue_def thrown_queue_eval del: do_immediate_call.simps(1))
  qed
  then show ?thesis using process_stuck [of blocked_queue 1 "Suc n" h] by (auto simp: live_def)
qed

end
