(* ===== verification/PathCore.thy ===== *)
theory PathCore
  imports Prelude
begin

text \<open>
  The part of lib/path.js that \<^verbatim>\<open>path.posix\<close> and \<^verbatim>\<open>path.win32\<close> share: the separator
  predicates, \<^verbatim>\<open>normalizeString\<close> with its character loop, \<^verbatim>\<open>_format\<close>, and the
  backward scans that \<^verbatim>\<open>dirname\<close>, \<^verbatim>\<open>basename\<close>, \<^verbatim>\<open>extname\<close> and \<^verbatim>\<open>parse\<close> repeat in both
  objects. The lemmas relate the loops to the segments of the path: \<open>split_on\<close> at the separators.
\<close>

subsection \<open>Character codes and predicates\<close>

abbreviation (input) CHAR_DOT :: nat where "CHAR_DOT \<equiv> 46"
abbreviation (input) CHAR_FORWARD_SLASH :: nat where "CHAR_FORWARD_SLASH \<equiv> 47"
abbreviation (input) CHAR_BACKWARD_SLASH :: nat where "CHAR_BACKWARD_SLASH \<equiv> 92"
abbreviation (input) CHAR_COLON :: nat where "CHAR_COLON \<equiv> 58"
abbreviation (input) CHAR_QUESTION_MARK :: nat where "CHAR_QUESTION_MARK \<equiv> 63"
abbreviation (input) CHAR_UPPERCASE_A :: nat where "CHAR_UPPERCASE_A \<equiv> 65"
abbreviation (input) CHAR_UPPERCASE_Z :: nat where "CHAR_UPPERCASE_Z \<equiv> 90"
abbreviation (input) CHAR_LOWERCASE_A :: nat where "CHAR_LOWERCASE_A \<equiv> 97"
abbreviation (input) CHAR_LOWERCASE_Z :: nat where "CHAR_LOWERCASE_Z \<equiv> 122"

definition isPathSeparator :: "nat \<Rightarrow> bool" where
  "isPathSeparator code \<longleftrightarrow> code = CHAR_FORWARD_SLASH \<or> code = CHAR_BACKWARD_SLASH"

definition isPosixPathSeparator :: "nat \<Rightarrow> bool" where
  "isPosixPathSeparator code \<longleftrightarrow> code = CHAR_FORWARD_SLASH"

definition isWindowsDeviceRoot :: "nat \<Rightarrow> bool" where
  "isWindowsDeviceRoot code \<longleftrightarrow>
     (code \<ge> CHAR_UPPERCASE_A \<and> code \<le> CHAR_UPPERCASE_Z) \<or>
     (code \<ge> CHAR_LOWERCASE_A \<and> code \<le> CHAR_LOWERCASE_Z)"

subsection \<open>normalizeString\<close>

record norm_state =
  ns_res :: jsstring
  lastSegmentLength :: int
  lastSlash :: int
  dots :: int

definition norm_init :: norm_state where
  "norm_init = \<lparr>ns_res = [], lastSegmentLength = 0, lastSlash = -1, dots = 0\<rparr>"

text \<open>The branch of a separator at position \<open>i\<close> when the segment before it is \<^verbatim>\<open>..\<close>.\<close>

definition norm_dotdot :: "bool \<Rightarrow> nat \<Rightarrow> int \<Rightarrow> norm_state \<Rightarrow> norm_state" where
  "norm_dotdot allowAboveRoot separator i st =
     (let res = ns_res st; len = int (length res);
          above = (if allowAboveRoot
                   then st\<lparr>ns_res := res @ (if len > 0 then [separator, CHAR_DOT, CHAR_DOT]
                                           else [CHAR_DOT, CHAR_DOT]),
                           lastSegmentLength := 2, lastSlash := i, dots := 0\<rparr>
                   else st\<lparr>lastSlash := i, dots := 0\<rparr>)
      in if len < 2 \<or> lastSegmentLength st \<noteq> 2 \<or>
            charCodeAt res (len - 1) \<noteq> Some CHAR_DOT \<or> charCodeAt res (len - 2) \<noteq> Some CHAR_DOT
         then (if len > 2 then
                 (let lastSlashIndex = len - lastSegmentLength st - 1
                  in if lastSlashIndex = -1
                     then st\<lparr>ns_res := [], lastSegmentLength := 0, lastSlash := i, dots := 0\<rparr>
                     else (let res' = slice res 0 lastSlashIndex
                           in st\<lparr>ns_res := res',
                                 lastSegmentLength := int (length res') - 1 - lastIndexOf res' separator,
                                 lastSlash := i, dots := 0\<rparr>))
               else if len \<noteq> 0
               then st\<lparr>ns_res := [], lastSegmentLength := 0, lastSlash := i, dots := 0\<rparr>
               else above)
         else above)"

text \<open>One iteration of the loop at position \<open>i\<close> with the character \<open>code\<close>.\<close>

definition norm_step :: "jsstring \<Rightarrow> bool \<Rightarrow> nat \<Rightarrow> (nat \<Rightarrow> bool) \<Rightarrow> int \<Rightarrow> nat \<Rightarrow> norm_state \<Rightarrow> norm_state" where
  "norm_step path allowAboveRoot separator isSep i code st =
     (if isSep code then
        if lastSlash st = i - 1 \<or> dots st = 1 then st\<lparr>lastSlash := i, dots := 0\<rparr>
        else if dots st = 2 then norm_dotdot allowAboveRoot separator i st
        else st\<lparr>ns_res := (if length (ns_res st) > 0
                          then ns_res st @ [separator] @ slice path (lastSlash st + 1) i
                          else slice path (lastSlash st + 1) i),
                lastSegmentLength := i - lastSlash st - 1, lastSlash := i, dots := 0\<rparr>
      else if code = CHAR_DOT \<and> dots st \<noteq> -1 then st\<lparr>dots := dots st + 1\<rparr>
      else st\<lparr>dots := -1\<rparr>)"

function norm_loop :: "jsstring \<Rightarrow> bool \<Rightarrow> nat \<Rightarrow> (nat \<Rightarrow> bool) \<Rightarrow> nat \<Rightarrow> nat \<Rightarrow> norm_state \<Rightarrow> norm_state" where
  "norm_loop path allowAboveRoot separator isSep i code st =
     (if i \<le> length path then
        if i < length path then
          norm_loop path allowAboveRoot separator isSep (Suc i) (path ! i)
            (norm_step path allowAboveRoot separator isSep (int i) (path ! i) st)
        else if isSep code then st
        else norm_loop path allowAboveRoot separator isSep (Suc i) CHAR_FORWARD_SLASH
               (norm_step path allowAboveRoot separator isSep (int i) CHAR_FORWARD_SLASH st)
      else st)"
  by pat_completeness auto
termination
  by (relation "measure (\<lambda>(path, _, _, _, i, _, _). Suc (length path) - i)") auto

declare norm_loop.simps [simp del]

definition normalizeString :: "jsstring \<Rightarrow> bool \<Rightarrow> nat \<Rightarrow> (nat \<Rightarrow> bool) \<Rightarrow> jsstring" where
  "normalizeString path allowAboveRoot separator isSep =
     ns_res (norm_loop path allowAboveRoot separator isSep 0 0 norm_init)"

subsection \<open>Formatting\<close>

text \<open>
  The path object of \<^verbatim>\<open>format\<close> and \<^verbatim>\<open>parse\<close>. A missing or empty field is the empty string:
  the code only tests them for truthiness.
\<close>

record path_object =
  root :: jsstring
  dir :: jsstring
  base :: jsstring
  ext :: jsstring
  name :: jsstring

definition formatExt :: "jsstring \<Rightarrow> jsstring" where
  "formatExt e = (if e \<noteq> [] then (if charCodeAt e 0 = Some CHAR_DOT then [] else [CHAR_DOT]) @ e else [])"

definition format_object :: "nat \<Rightarrow> path_object \<Rightarrow> jsstring" where
  "format_object sep pathObject =
     (let d = (if dir pathObject \<noteq> [] then dir pathObject else root pathObject);
          b = (if base pathObject \<noteq> [] then base pathObject
               else name pathObject @ formatExt (ext pathObject))
      in if d = [] then b
         else if d = root pathObject then d @ b else d @ [sep] @ b)"

text \<open>\<open>None\<close> is an argument that is not an object, which \<^verbatim>\<open>validateObject\<close> refuses.\<close>

definition format_path :: "nat \<Rightarrow> path_object option \<Rightarrow> jsstring result" where
  "format_path sep arg =
     (case arg of None \<Rightarrow> Inl (ERR_INVALID_ARG_TYPE ''pathObject'' ''Object'')
      | Some pathObject \<Rightarrow> Inr (format_object sep pathObject))"

subsection \<open>The backward scans\<close>

text \<open>
  Each scan reads positions \<open>k - 1\<close> down to \<open>low\<close>; its last arguments are the loop variables.
  \<open>dirname\<close>: the separator before the last component, or \<open>-1\<close>.
\<close>

fun dirname_scan :: "(nat \<Rightarrow> bool) \<Rightarrow> jsstring \<Rightarrow> nat \<Rightarrow> nat \<Rightarrow> bool \<Rightarrow> int" where
  "dirname_scan isSep path low 0 matchedSlash = -1"
| "dirname_scan isSep path low (Suc i) matchedSlash =
     (if i < low then -1
      else if isSep (path ! i)
      then (if \<not> matchedSlash then int i else dirname_scan isSep path low i matchedSlash)
      else dirname_scan isSep path low i False)"

text \<open>\<open>basename\<close> without a suffix: the pair \<open>(start, end)\<close>.\<close>

fun basename_scan :: "(nat \<Rightarrow> bool) \<Rightarrow> jsstring \<Rightarrow> nat \<Rightarrow> nat \<Rightarrow> bool \<Rightarrow> int \<Rightarrow> int \<times> int" where
  "basename_scan isSep path low 0 matchedSlash end' = (int low, end')"
| "basename_scan isSep path low (Suc i) matchedSlash end' =
     (if i < low then (int low, end')
      else if isSep (path ! i)
      then (if \<not> matchedSlash then (int i + 1, end') else basename_scan isSep path low i matchedSlash end')
      else if end' = -1 then basename_scan isSep path low i False (int i + 1)
      else basename_scan isSep path low i matchedSlash end')"

text \<open>\<open>basename\<close> with a suffix: \<open>(start, end, firstNonSlashEnd)\<close>.\<close>

fun suffix_scan ::
  "(nat \<Rightarrow> bool) \<Rightarrow> jsstring \<Rightarrow> jsstring \<Rightarrow> nat \<Rightarrow> nat \<Rightarrow> bool \<Rightarrow> int \<Rightarrow> int \<Rightarrow> int \<Rightarrow> int \<times> int \<times> int" where
  "suffix_scan isSep path suffix low 0 matchedSlash extIdx firstNonSlashEnd end' =
     (int low, end', firstNonSlashEnd)"
| "suffix_scan isSep path suffix low (Suc i) matchedSlash extIdx firstNonSlashEnd end' =
     (if i < low then (int low, end', firstNonSlashEnd)
      else if isSep (path ! i)
      then (if \<not> matchedSlash then (int i + 1, end', firstNonSlashEnd)
            else suffix_scan isSep path suffix low i matchedSlash extIdx firstNonSlashEnd end')
      else
        (let matchedSlash' = (if firstNonSlashEnd = -1 then False else matchedSlash);
             first' = (if firstNonSlashEnd = -1 then int i + 1 else firstNonSlashEnd)
         in if extIdx \<ge> 0 then
              if charCodeAt suffix extIdx = Some (path ! i) then
                (let extIdx' = extIdx - 1
                 in suffix_scan isSep path suffix low i matchedSlash' extIdx' first'
                      (if extIdx' = -1 then int i else end'))
              else suffix_scan isSep path suffix low i matchedSlash' (-1) first' first'
            else suffix_scan isSep path suffix low i matchedSlash' extIdx first' end'))"

text \<open>\<open>extname\<close> and \<open>parse\<close>.\<close>

record ext_state =
  startDot :: int
  startPart :: int
  endPos :: int
  matchedSlash :: bool
  preDotState :: int

definition ext_char :: "nat \<Rightarrow> nat \<Rightarrow> ext_state \<Rightarrow> ext_state" where
  "ext_char i code st =
     (let st = (if endPos st = -1 then st\<lparr>matchedSlash := False, endPos := int i + 1\<rparr> else st)
      in if code = CHAR_DOT
         then (if startDot st = -1 then st\<lparr>startDot := int i\<rparr>
               else if preDotState st \<noteq> 1 then st\<lparr>preDotState := 1\<rparr> else st)
         else if startDot st \<noteq> -1 then st\<lparr>preDotState := -1\<rparr> else st)"

fun ext_scan :: "(nat \<Rightarrow> bool) \<Rightarrow> jsstring \<Rightarrow> nat \<Rightarrow> nat \<Rightarrow> ext_state \<Rightarrow> ext_state" where
  "ext_scan isSep path low 0 st = st"
| "ext_scan isSep path low (Suc i) st =
     (if i < low then st
      else if isSep (path ! i)
      then (if \<not> matchedSlash st then st\<lparr>startPart := int i + 1\<rparr> else ext_scan isSep path low i st)
      else ext_scan isSep path low i (ext_char i (path ! i) st))"

definition ext_init :: "int \<Rightarrow> ext_state" where
  "ext_init part = \<lparr>startDot = -1, startPart = part, endPos = -1, matchedSlash = True, preDotState = 0\<rparr>"

text \<open>The test after the scan: the component has no extension.\<close>

definition no_ext :: "ext_state \<Rightarrow> bool" where
  "no_ext st \<longleftrightarrow> startDot st = -1 \<or> preDotState st = 0 \<or>
     (preDotState st = 1 \<and> startDot st = endPos st - 1 \<and> startDot st = startPart st + 1)"

subsection \<open>The reference: a stack of segments\<close>

text \<open>
  One segment of the input acts on the stack of output segments: empty and \<^verbatim>\<open>.\<close> segments are
  dropped, \<^verbatim>\<open>..\<close> removes the last segment, or stays when there is none to remove and the path
  may climb above its root.
\<close>

definition seg_step :: "bool \<Rightarrow> jsstring list \<Rightarrow> jsstring \<Rightarrow> jsstring list" where
  "seg_step allow stack seg =
     (if seg = [] \<or> seg = [CHAR_DOT] then stack
      else if seg = [CHAR_DOT, CHAR_DOT] then
        if stack = [] \<or> last stack = [CHAR_DOT, CHAR_DOT]
        then (if allow then stack @ [[CHAR_DOT, CHAR_DOT]] else stack)
        else butlast stack
      else stack @ [seg])"

definition resolve_segments :: "bool \<Rightarrow> jsstring list \<Rightarrow> jsstring list" where
  "resolve_segments allow segs = foldl (seg_step allow) [] segs"

definition dots_of :: "jsstring \<Rightarrow> int" where
  "dots_of c = (if \<forall>x \<in> set c. x = CHAR_DOT then int (length c) else -1)"

definition seg_len :: "jsstring list \<Rightarrow> int" where
  "seg_len stack = (if stack = [] then 0 else int (length (last stack)))"

definition stack_ok :: "(nat \<Rightarrow> bool) \<Rightarrow> jsstring list \<Rightarrow> bool" where
  "stack_ok isSep stack \<longleftrightarrow> (\<forall>seg \<in> set stack. seg \<noteq> [] \<and> (\<forall>x \<in> set seg. \<not> isSep x))"

lemma stack_ok_step:
  "stack_ok isSep stack \<Longrightarrow> (\<And>x. x \<in> set seg \<Longrightarrow> \<not> isSep x) \<Longrightarrow> stack_ok isSep (seg_step allow stack seg)"
  by (auto simp: stack_ok_def seg_step_def dest: in_set_butlastD)

lemma stack_ok_resolve:
  "(\<And>seg x. seg \<in> set segs \<Longrightarrow> x \<in> set seg \<Longrightarrow> \<not> isSep x) \<Longrightarrow> stack_ok isSep (resolve_segments allow segs)"
  by (induction segs rule: rev_induct)
    (auto simp: resolve_segments_def intro: stack_ok_step, simp add: stack_ok_def)

lemma dots_of_simps:
  "dots_of c = 1 \<longleftrightarrow> c = [CHAR_DOT]" "dots_of c = 2 \<longleftrightarrow> c = [CHAR_DOT, CHAR_DOT]"
  "dots_of [] = 0" "dots_of c \<noteq> -1 \<longleftrightarrow> (\<forall>x \<in> set c. x = CHAR_DOT)"
  by (auto simp: dots_of_def numeral_2_eq_2 length_Suc_conv)

lemma dots_of_snoc:
  "dots_of (c @ [x]) = (if x = CHAR_DOT \<and> dots_of c \<noteq> -1 then dots_of c + 1 else -1)"
  by (auto simp: dots_of_def)

text \<open>\<open>norm_dotdot\<close> pops or pushes on the stack that the result string represents.\<close>

lemma norm_dotdot_stack:
  assumes st: "ns_res st = join [sep] stack" "lastSegmentLength st = seg_len stack"
    and ok: "stack_ok isSep stack" and sep: "isSep sep"
  shows "norm_dotdot allow sep i st =
     (let stack' = seg_step allow stack [CHAR_DOT, CHAR_DOT]
      in st\<lparr>ns_res := join [sep] stack', lastSegmentLength := seg_len stack', lastSlash := i, dots := 0\<rparr>)"
proof (cases stack rule: rev_cases)
  case Nil
  then show ?thesis using st by (cases st) (simp add: norm_dotdot_def seg_step_def seg_len_def)
next
  case (snoc xs x)
  have x: "x \<noteq> []" "sep \<notin> set x" and xs: "stack_ok isSep xs"
    using ok sep by (auto simp: snoc stack_ok_def)
  have last_xs: "xs \<noteq> [] \<Longrightarrow> last xs \<noteq> [] \<and> sep \<notin> set (last xs)"
    using xs sep by (auto simp: stack_ok_def)
  have xs_ne: "xs \<noteq> [] \<Longrightarrow> join [sep] xs \<noteq> []"
    using xs join_eq_Nil [of xs] by (auto simp: stack_ok_def)
  have idx: "xs \<noteq> [] \<Longrightarrow> int (length (join [sep] xs)) - 1 - lastIndexOf (join [sep] xs) sep = int (length (last xs))"
    using last_xs by (cases xs rule: rev_cases) (auto simp: join_snoc lastIndexOf_append lastIndexOf_none)
  show ?thesis
  proof (cases "x = [CHAR_DOT, CHAR_DOT]")
    case True
    then show ?thesis using st join_snoc [of "[sep]" "xs @ [x]" x]
      by (cases st) (auto simp: norm_dotdot_def Let_def seg_step_def snoc join_snoc seg_len_def
          charCodeAt_def nth_append nat_diff_distrib)
  next
    case False
    let ?len = "int (length (ns_res st))"
    have "\<not> (length x = 2 \<and> x ! 0 = CHAR_DOT \<and> x ! Suc 0 = CHAR_DOT)"
      using False by (auto simp: numeral_2_eq_2 length_Suc_conv)
    then have guard: "?len < 2 \<or> lastSegmentLength st \<noteq> 2 \<or>
        charCodeAt (ns_res st) (?len - 1) \<noteq> Some CHAR_DOT \<or> charCodeAt (ns_res st) (?len - 2) \<noteq> Some CHAR_DOT"
      using st x by (auto simp: snoc join_snoc seg_len_def charCodeAt_def nth_append nat_diff_distrib nat_add_distrib)
    have "xs \<noteq> [] \<Longrightarrow> 1 < int (length (join [sep] xs)) + int (length x)"
      using x xs_ne by (cases x; cases "join [sep] xs") auto
    then show ?thesis
      unfolding norm_dotdot_def Let_def if_P [OF guard] using st False idx x(1)
      by (cases "xs = []") (auto simp: seg_step_def snoc join_snoc seg_len_def slice_zero)
  qed
qed

text \<open>What the loop variables mean when the first \<open>i\<close> characters have been read.\<close>

definition norm_inv :: "jsstring \<Rightarrow> bool \<Rightarrow> nat \<Rightarrow> (nat \<Rightarrow> bool) \<Rightarrow> nat \<Rightarrow> norm_state \<Rightarrow> bool" where
  "norm_inv path allow sep isSep i st \<longleftrightarrow>
     (let segs = split_on isSep (take i path); cur = last segs;
          stack = resolve_segments allow (butlast segs)
      in ns_res st = join [sep] stack \<and> lastSegmentLength st = seg_len stack \<and>
         lastSlash st = int i - 1 - int (length cur) \<and> dots st = dots_of cur)"

lemma norm_inv_init: "norm_inv path allow sep isSep 0 norm_init"
  by (simp add: norm_inv_def norm_init_def resolve_segments_def seg_len_def dots_of_def)

text \<open>A separator after the current segment \<open>cur\<close> applies \<open>seg_step\<close> to the stack.\<close>

lemma norm_step_sep:
  assumes inv: "norm_inv path allow sep isSep i st" and i: "i \<le> length path"
    and sep: "isSep sep" and code: "isSep code"
  shows "norm_step path allow sep isSep (int i) code st =
    (let stack = resolve_segments allow (split_on isSep (take i path))
     in st\<lparr>ns_res := join [sep] stack, lastSegmentLength := seg_len stack, lastSlash := int i, dots := 0\<rparr>)"
proof -
  let ?segs = "split_on isSep (take i path)"
  let ?cur = "last ?segs" and ?stack = "resolve_segments allow (butlast ?segs)"
  have st: "ns_res st = join [sep] ?stack" "lastSegmentLength st = seg_len ?stack"
    "lastSlash st = int i - 1 - int (length ?cur)" "dots st = dots_of ?cur"
    using inv by (simp_all add: norm_inv_def Let_def)
  have step: "resolve_segments allow ?segs = seg_step allow ?stack ?cur"
  proof -
    have "?segs = butlast ?segs @ [?cur]" by simp
    then show ?thesis unfolding resolve_segments_def by (metis foldl_Cons foldl_Nil foldl_append)
  qed
  have ok: "stack_ok isSep ?stack"
    by (rule stack_ok_resolve) (auto dest: in_set_butlastD split_on_no_sep)
  obtain pre where pre: "take i path = pre @ ?cur" using split_on_last_suffix by blast
  then have len: "length pre + length ?cur = i" using i by (metis length_append length_take min.absorb2)
  have slice: "slice path (lastSlash st + 1) (int i) = ?cur"
  proof -
    have "lastSlash st + 1 = int (length pre)" using len st(3) by linarith
    then have "slice path (lastSlash st + 1) (int i) = drop (length pre) (take i path)"
      using len i by (simp only: slice_nonneg) (simp add: drop_take)
    then show ?thesis using pre by (metis append_eq_conv_conj)
  qed
  have ne: "?stack \<noteq> [] \<longleftrightarrow> join [sep] ?stack \<noteq> []"
    using ok join_eq_Nil [of ?stack] by (auto simp: stack_ok_def)
  have slash: "lastSlash st = int i - 1 \<longleftrightarrow> ?cur = []" by (simp add: st(3))
  consider "?cur = [] \<or> ?cur = [CHAR_DOT]" | "?cur = [CHAR_DOT, CHAR_DOT]"
    | "?cur \<noteq> []" "?cur \<noteq> [CHAR_DOT]" "?cur \<noteq> [CHAR_DOT, CHAR_DOT]" by blast
  then show ?thesis
  proof cases
    case 1
    then show ?thesis using code slash st
      by (cases st) (auto simp: norm_step_def step seg_step_def dots_of_simps Let_def)
  next
    case 2
    then show ?thesis using code slash st norm_dotdot_stack [OF st(1,2) ok sep]
      by (simp add: norm_step_def step dots_of_simps)
  next
    case 3
    then have "seg_step allow ?stack ?cur = ?stack @ [?cur]" by (simp add: seg_step_def)
    then show ?thesis using 3 code slash slice st ne
      by (simp add: norm_step_def step dots_of_simps join_snoc seg_len_def Let_def)
  qed
qed

lemma norm_step_inv:
  assumes inv: "norm_inv path allow sep isSep i st" and i: "i < length path" and sep: "isSep sep"
  shows "norm_inv path allow sep isSep (Suc i) (norm_step path allow sep isSep (int i) (path ! i) st)"
proof (cases "isSep (path ! i)")
  case True
  then show ?thesis using norm_step_sep [OF inv _ sep True] i
    by (simp add: norm_inv_def Let_def take_Suc_conv_app_nth split_on_snoc dots_of_simps)
next
  case False
  then show ?thesis using inv i
    by (auto simp: norm_inv_def Let_def take_Suc_conv_app_nth split_on_snoc norm_step_def dots_of_snoc)
qed

lemma norm_loop_correct:
  assumes "norm_inv path allow sep isSep i st" "i \<le> length path" "isSep sep" "isSep CHAR_FORWARD_SLASH"
    and "i = length path \<Longrightarrow> isSep code \<longleftrightarrow> path \<noteq> [] \<and> isSep (last path)"
  shows "ns_res (norm_loop path allow sep isSep i code st)
    = join [sep] (resolve_segments allow (split_on isSep path))"
  using assms
proof (induction path allow sep isSep i code st rule: norm_loop.induct)
  case (1 path allow sep isSep i code st)
  show ?case
  proof (cases "i < length path")
    case True
    have "Suc i = length path \<Longrightarrow> path \<noteq> [] \<and> path ! i = last path"
      by (cases path rule: rev_cases) auto
    then show ?thesis using 1 True norm_step_inv [OF "1.prems"(1) True "1.prems"(3)]
      by (subst norm_loop.simps) auto
  next
    case False
    then have i: "i = length path" using 1 by simp
    show ?thesis
    proof (cases "isSep code")
      case True
      then obtain p c where "path = p @ [c]" "isSep c" using 1 i by (cases path rule: rev_cases) auto
      then show ?thesis using 1 i True
        by (subst norm_loop.simps) (simp add: norm_inv_def Let_def split_on_snoc resolve_segments_def seg_step_def)
    next
      case False
      then show ?thesis using 1 i norm_step_sep [OF "1.prems"(1), of CHAR_FORWARD_SLASH]
        by (subst norm_loop.simps) (auto simp: norm_loop.simps [of _ _ _ _ "Suc (length path)"] Let_def)
    qed
  qed
qed

theorem normalizeString_segments:
  assumes "isSep sep" "isSep CHAR_FORWARD_SLASH" "\<not> isSep 0"
  shows "normalizeString path allow sep isSep = join [sep] (resolve_segments allow (split_on isSep path))"
  unfolding normalizeString_def using assms
  by (intro norm_loop_correct norm_inv_init) auto

end
