(* ===== verification/PathPosix.thy ===== *)
theory PathPosix
  imports PathCore
begin

text \<open>
  \<^verbatim>\<open>path.posix\<close> of lib/path.js. An argument is a JavaScript value, because every function
  first checks that it got a string; a result is an error or a string. The working directory
  \<^verbatim>\<open>process.cwd()\<close> is a parameter: a string, or the error the system call gives.
\<close>

type_synonym cwd = "jsstring result"

subsection \<open>resolve, normalize, isAbsolute, join\<close>

text \<open>\<^verbatim>\<open>posixCwd\<close>: on Windows the backslashes become slashes and the drive is cut off.\<close>

definition posixCwd :: "bool \<Rightarrow> cwd \<Rightarrow> cwd" where
  "posixCwd isWindows cwd =
     (if isWindows
      then bind cwd (\<lambda>d. let d' = map (\<lambda>c. if c = CHAR_BACKWARD_SLASH then CHAR_FORWARD_SLASH else c) d
                         in Inr (slice_from d' (indexOf d' CHAR_FORWARD_SLASH)))
      else cwd)"

definition starts_with_slash :: "jsstring \<Rightarrow> bool" where
  "starts_with_slash s \<longleftrightarrow> charCodeAt s 0 = Some CHAR_FORWARD_SLASH"

text \<open>
  The argument loop of \<^verbatim>\<open>resolve\<close>, last argument first. The arguments not yet read are the
  first \<open>i\<close> ones; the result is \<open>(resolvedPath, resolvedAbsolute)\<close>.
\<close>

fun posix_resolve_loop :: "jsval list \<Rightarrow> nat \<Rightarrow> jsstring \<Rightarrow> bool \<Rightarrow> (jsstring \<times> bool) result" where
  "posix_resolve_loop args 0 resolvedPath resolvedAbsolute = Inr (resolvedPath, resolvedAbsolute)"
| "posix_resolve_loop args (Suc i) resolvedPath resolvedAbsolute =
     (if resolvedAbsolute then Inr (resolvedPath, resolvedAbsolute)
      else bind (validateString (args ! i) (''paths['' @ dec i @ '']''))
        (\<lambda>path. if path = [] then posix_resolve_loop args i resolvedPath resolvedAbsolute
                else posix_resolve_loop args i (path @ [CHAR_FORWARD_SLASH] @ resolvedPath)
                       (starts_with_slash path)))"

definition posix_resolve_tail :: "cwd \<Rightarrow> jsval list \<Rightarrow> jsstring result" where
  "posix_resolve_tail cwd args =
     bind (posix_resolve_loop args (length args) [] False) (\<lambda>(path, abs).
       bind (if abs then Inr (path, abs)
             else bind cwd (\<lambda>d. Inr (d @ [CHAR_FORWARD_SLASH] @ path, starts_with_slash d)))
         (\<lambda>(resolvedPath, resolvedAbsolute).
            let p = normalizeString resolvedPath (\<not> resolvedAbsolute) CHAR_FORWARD_SLASH isPosixPathSeparator
            in Inr (if resolvedAbsolute then CHAR_FORWARD_SLASH # p
                    else if length p > 0 then p else [CHAR_DOT])))"

definition posix_resolve :: "cwd \<Rightarrow> jsval list \<Rightarrow> jsstring result" where
  "posix_resolve cwd args =
     (if length args = 0 \<or> (length args = 1 \<and> (args ! 0 = JStr [] \<or> args ! 0 = JStr [CHAR_DOT]))
      then bind cwd (\<lambda>d. if starts_with_slash d then Inr d else posix_resolve_tail cwd args)
      else posix_resolve_tail cwd args)"

definition posix_normalize_string :: "jsstring \<Rightarrow> jsstring" where
  "posix_normalize_string path =
     (if length path = 0 then [CHAR_DOT]
      else
        let isAbsolute = (charCodeAt path 0 = Some CHAR_FORWARD_SLASH);
            trailingSeparator = (charCodeAt path (int (length path) - 1) = Some CHAR_FORWARD_SLASH);
            p = normalizeString path (\<not> isAbsolute) CHAR_FORWARD_SLASH isPosixPathSeparator
        in if length p = 0
           then (if isAbsolute then [CHAR_FORWARD_SLASH]
                 else if trailingSeparator then [CHAR_DOT, CHAR_FORWARD_SLASH] else [CHAR_DOT])
           else let p' = (if trailingSeparator then p @ [CHAR_FORWARD_SLASH] else p)
                in if isAbsolute then CHAR_FORWARD_SLASH # p' else p')"

definition posix_normalize :: "jsval \<Rightarrow> jsstring result" where
  "posix_normalize path = bind (validateString path ''path'') (\<lambda>p. Inr (posix_normalize_string p))"

definition posix_isAbsolute :: "jsval \<Rightarrow> bool result" where
  "posix_isAbsolute path =
     bind (validateString path ''path'')
       (\<lambda>p. Inr (length p > 0 \<and> charCodeAt p 0 = Some CHAR_FORWARD_SLASH))"

fun join_args :: "jsval list \<Rightarrow> jsstring list result" where
  "join_args [] = Inr []"
| "join_args (arg # args) =
     bind (validateString arg ''path'') (\<lambda>s.
       bind (join_args args) (\<lambda>path. Inr (if length s > 0 then s # path else path)))"

definition posix_join :: "jsval list \<Rightarrow> jsstring result" where
  "posix_join args =
     (if length args = 0 then Inr [CHAR_DOT]
      else bind (join_args args) (\<lambda>path.
        if length path = 0 then Inr [CHAR_DOT]
        else posix_normalize (JStr (join [CHAR_FORWARD_SLASH] path))))"

subsection \<open>relative\<close>

text \<open>
  The common prefix loop: \<open>(i, lastCommonSep)\<close> where the characters after the root first differ,
  or \<open>len\<close>, and the last separator before.
\<close>

function common_scan :: "nat \<Rightarrow> jsstring \<Rightarrow> jsstring \<Rightarrow> nat \<Rightarrow> nat \<Rightarrow> nat \<Rightarrow> nat \<Rightarrow> int \<Rightarrow> nat \<times> int" where
  "common_scan sep from to fromStart toStart len i lastCommonSep =
     (if i < len then
        if from ! (fromStart + i) \<noteq> to ! (toStart + i) then (i, lastCommonSep)
        else common_scan sep from to fromStart toStart len (Suc i)
               (if from ! (fromStart + i) = sep then int i else lastCommonSep)
      else (i, lastCommonSep))"
  by pat_completeness auto
termination
  by (relation "measure (\<lambda>(_, _, _, _, _, len, i, _). len - i)") auto

declare common_scan.simps [simp del]

text \<open>The loop that writes one \<^verbatim>\<open>..\<close> for every component of \<open>from\<close> after the common part.\<close>

function up_loop :: "nat \<Rightarrow> jsstring \<Rightarrow> nat \<Rightarrow> nat \<Rightarrow> jsstring \<Rightarrow> jsstring" where
  "up_loop sep from fromEnd i out =
     (if i \<le> fromEnd then
        up_loop sep from fromEnd (Suc i)
          (if i = fromEnd \<or> from ! i = sep
           then out @ (if length out = 0 then [CHAR_DOT, CHAR_DOT] else [sep, CHAR_DOT, CHAR_DOT])
           else out)
      else out)"
  by pat_completeness auto
termination
  by (relation "measure (\<lambda>(_, _, fromEnd, i, _). Suc fromEnd - i)") auto

declare up_loop.simps [simp del]

text \<open>The part of \<^verbatim>\<open>relative\<close> after both paths are resolved.\<close>

definition posix_relative_resolved :: "jsstring \<Rightarrow> jsstring \<Rightarrow> jsstring" where
  "posix_relative_resolved from to =
     (if from = to then []
      else
        let fromEnd = length from; fromLen = int fromEnd - 1; toLen = int (length to) - 1;
            len = (if fromLen < toLen then fromLen else toLen);
            (i, lastCommonSep) = common_scan CHAR_FORWARD_SLASH from to 1 1 (nat len) 0 (-1);
            finish = (\<lambda>lastSep.
              up_loop CHAR_FORWARD_SLASH from fromEnd (nat (1 + lastSep + 1)) []
                @ slice_from to (1 + lastSep))
        in if int i = len then
             if toLen > len then
               if charCodeAt to (1 + int i) = Some CHAR_FORWARD_SLASH then slice_from to (1 + int i + 1)
               else if i = 0 then slice_from to (1 + int i)
               else finish lastCommonSep
             else if fromLen > len then
               if charCodeAt from (1 + int i) = Some CHAR_FORWARD_SLASH then finish (int i)
               else if i = 0 then finish 0
               else finish lastCommonSep
             else finish lastCommonSep
           else finish lastCommonSep)"

definition posix_relative :: "cwd \<Rightarrow> jsval \<Rightarrow> jsval \<Rightarrow> jsstring result" where
  "posix_relative cwd from to =
     bind (validateString from ''from'') (\<lambda>f. bind (validateString to ''to'') (\<lambda>t.
       if f = t then Inr []
       else bind (posix_resolve cwd [JStr f]) (\<lambda>from'. bind (posix_resolve cwd [JStr t]) (\<lambda>to'.
         Inr (posix_relative_resolved from' to')))))"

subsection \<open>toNamespacedPath, dirname, basename, extname\<close>

definition posix_toNamespacedPath :: "jsval \<Rightarrow> jsval" where
  "posix_toNamespacedPath path = path"

definition posix_dirname_string :: "jsstring \<Rightarrow> jsstring" where
  "posix_dirname_string path =
     (if length path = 0 then [CHAR_DOT]
      else
        let hasRoot = (charCodeAt path 0 = Some CHAR_FORWARD_SLASH);
            end' = dirname_scan isPosixPathSeparator path 1 (length path) True
        in if end' = -1 then (if hasRoot then [CHAR_FORWARD_SLASH] else [CHAR_DOT])
           else if hasRoot \<and> end' = 1 then [CHAR_FORWARD_SLASH, CHAR_FORWARD_SLASH]
           else slice path 0 end')"

definition posix_dirname :: "jsval \<Rightarrow> jsstring result" where
  "posix_dirname path = bind (validateString path ''path'') (\<lambda>p. Inr (posix_dirname_string p))"

definition posix_basename_string :: "jsstring \<Rightarrow> jsstring option \<Rightarrow> jsstring" where
  "posix_basename_string path suffix =
     (case suffix of
        Some suf \<Rightarrow>
          if length suf > 0 \<and> length suf \<le> length path then
            if suf = path then []
            else (let (start, end', first) = suffix_scan isPosixPathSeparator path suf 0 (length path)
                        True (int (length suf) - 1) (-1) (-1)
                  in slice path start
                       (if start = end' then first
                        else if end' = -1 then int (length path) else end'))
          else (let (start, end') = basename_scan isPosixPathSeparator path 0 (length path) True (-1)
                in if end' = -1 then [] else slice path start end')
      | None \<Rightarrow> (let (start, end') = basename_scan isPosixPathSeparator path 0 (length path) True (-1)
                in if end' = -1 then [] else slice path start end'))"

text \<open>The suffix argument is validated before the path, and only when it is given.\<close>

definition posix_basename :: "jsval \<Rightarrow> jsval \<Rightarrow> jsstring result" where
  "posix_basename path suffix =
     bind (if suffix = Undefined then Inr None
           else bind (validateString suffix ''suffix'') (\<lambda>s. Inr (Some s)))
       (\<lambda>suf. bind (validateString path ''path'') (\<lambda>p. Inr (posix_basename_string p suf)))"

definition posix_extname_string :: "jsstring \<Rightarrow> jsstring" where
  "posix_extname_string path =
     (let st = ext_scan isPosixPathSeparator path 0 (length path) (ext_init 0)
      in if startDot st = -1 \<or> endPos st = -1 \<or> no_ext st then []
         else slice path (startDot st) (endPos st))"

definition posix_extname :: "jsval \<Rightarrow> jsstring result" where
  "posix_extname path = bind (validateString path ''path'') (\<lambda>p. Inr (posix_extname_string p))"

subsection \<open>format and parse\<close>

definition posix_format :: "path_object option \<Rightarrow> jsstring result" where
  "posix_format = format_path CHAR_FORWARD_SLASH"

definition posix_parse_string :: "jsstring \<Rightarrow> path_object" where
  "posix_parse_string path =
     (if length path = 0 then \<lparr>root = [], dir = [], base = [], ext = [], name = []\<rparr>
      else
        let isAbsolute = (charCodeAt path 0 = Some CHAR_FORWARD_SLASH);
            ret = \<lparr>root = (if isAbsolute then [CHAR_FORWARD_SLASH] else []),
                   dir = [], base = [], ext = [], name = []\<rparr>;
            st = ext_scan isPosixPathSeparator path (if isAbsolute then 1 else 0) (length path) (ext_init 0);
            start = (if startPart st = 0 \<and> isAbsolute then 1 else startPart st);
            ret = (if endPos st \<noteq> -1
                   then (if no_ext st
                         then ret\<lparr>base := slice path start (endPos st), name := slice path start (endPos st)\<rparr>
                         else ret\<lparr>name := slice path start (startDot st),
                                  base := slice path start (endPos st),
                                  ext := slice path (startDot st) (endPos st)\<rparr>)
                   else ret)
        in if startPart st > 0 then ret\<lparr>dir := slice path 0 (startPart st - 1)\<rparr>
           else if isAbsolute then ret\<lparr>dir := [CHAR_FORWARD_SLASH]\<rparr>
           else ret)"

definition posix_parse :: "jsval \<Rightarrow> path_object result" where
  "posix_parse path = bind (validateString path ''path'') (\<lambda>p. Inr (posix_parse_string p))"

end
