(* ===== verification/PathWin32.thy ===== *)
theory PathWin32
  imports PathPosix
begin

text \<open>
  \<^verbatim>\<open>path.win32\<close> of lib/path.js. The environment is a parameter: the case mappings of Unicode
  (\<^verbatim>\<open>toLowerCase\<close>, \<^verbatim>\<open>toUpperCase\<close>), \<^verbatim>\<open>process.cwd()\<close>, the hidden variables \<^verbatim>\<open>=C:\<close> with the working
  directory of a drive, and whether the host is Windows.
\<close>

record win_env =
  toLower :: "jsstring \<Rightarrow> jsstring"
  toUpper :: "jsstring \<Rightarrow> jsstring"
  processCwd :: cwd
  driveCwd :: "jsstring \<Rightarrow> jsstring option"
  isWindows :: bool

abbreviation (input) BSL :: nat where "BSL \<equiv> 92"

subsection \<open>Reading the path\<close>

definition sep_at :: "jsstring \<Rightarrow> int \<Rightarrow> bool" where
  "sep_at path i = (case charCodeAt path i of None \<Rightarrow> False | Some c \<Rightarrow> isPathSeparator c)"

definition drive_at :: "jsstring \<Rightarrow> int \<Rightarrow> bool" where
  "drive_at path i = (case charCodeAt path i of None \<Rightarrow> False | Some c \<Rightarrow> isWindowsDeviceRoot c)"

definition WINDOWS_RESERVED_NAMES :: "jsstring list" where
  "WINDOWS_RESERVED_NAMES =
     [js ''CON'', js ''PRN'', js ''AUX'', js ''NUL'',
      js ''COM1'', js ''COM2'', js ''COM3'', js ''COM4'', js ''COM5'', js ''COM6'', js ''COM7'', js ''COM8'', js ''COM9'',
      js ''LPT1'', js ''LPT2'', js ''LPT3'', js ''LPT4'', js ''LPT5'', js ''LPT6'', js ''LPT7'', js ''LPT8'', js ''LPT9'',
      js ''COM'' @ [0xb9], js ''COM'' @ [0xb2], js ''COM'' @ [0xb3],
      js ''LPT'' @ [0xb9], js ''LPT'' @ [0xb2], js ''LPT'' @ [0xb3]]"

definition isWindowsReservedName :: "win_env \<Rightarrow> jsstring \<Rightarrow> int \<Rightarrow> bool" where
  "isWindowsReservedName env path colonIndex \<longleftrightarrow>
     toUpper env (slice path 0 colonIndex) \<in> set WINDOWS_RESERVED_NAMES"

text \<open>The \<open>while\<close> loops that advance over units that satisfy a test.\<close>

function skip_while :: "(nat \<Rightarrow> bool) \<Rightarrow> jsstring \<Rightarrow> nat \<Rightarrow> nat" where
  "skip_while P path j = (if j < length path \<and> P (path ! j) then skip_while P path (Suc j) else j)"
  by pat_completeness auto
termination
  by (relation "measure (\<lambda>(P, path, j). length path - j)") auto

declare skip_while.simps [simp del]

text \<open>
  The UNC root of a path that begins with two separators: \<open>(firstPart, last, j)\<close> after the third
  loop, where \<open>last\<close> is the start of the share name and \<open>j\<close> its end.
\<close>

definition unc_match :: "jsstring \<Rightarrow> (jsstring \<times> nat \<times> nat) option" where
  "unc_match path =
     (let len = length path;
          j1 = skip_while (\<lambda>c. \<not> isPathSeparator c) path 2
      in if j1 < len \<and> j1 \<noteq> 2 then
           (let firstPart = slice path 2 (int j1);
                j2 = skip_while isPathSeparator path j1
            in if j2 < len \<and> j2 \<noteq> j1
               then Some (firstPart, j2, skip_while (\<lambda>c. \<not> isPathSeparator c) path j2)
               else None)
         else None)"

subsection \<open>resolve\<close>

text \<open>The root of one path: \<open>(device, rootEnd, isAbsolute)\<close>.\<close>

definition win_resolve_root :: "jsstring \<Rightarrow> jsstring \<times> nat \<times> bool" where
  "win_resolve_root path =
     (let len = length path in
      if len = 1 then (if sep_at path 0 then ([], 1, True) else ([], 0, False))
      else if sep_at path 0 then
        if sep_at path 1 then
          (case unc_match path of
             None \<Rightarrow> ([], 0, True)
           | Some (firstPart, last', j) \<Rightarrow>
               if j = len \<or> j \<noteq> last' then
                 if firstPart \<noteq> js ''.'' \<and> firstPart \<noteq> js ''?''
                 then ([BSL, BSL] @ firstPart @ [BSL] @ slice path (int last') (int j), j, True)
                 else ([BSL, BSL] @ firstPart, 4, True)
               else ([], 0, True))
        else ([], 1, True)
      else if drive_at path 0 \<and> charCodeAt path 1 = Some CHAR_COLON then
        if len > 2 \<and> sep_at path 2 then (slice path 0 2, 3, True) else (slice path 0 2, 2, False)
      else ([], 0, False))"

record win_state =
  resolvedDevice :: jsstring
  resolvedTail :: jsstring
  resolvedAbsolute :: bool

text \<open>The body of the loop for one path, and whether it leaves the loop.\<close>

definition win_resolve_path :: "win_env \<Rightarrow> jsstring \<Rightarrow> win_state \<Rightarrow> win_state \<times> bool" where
  "win_resolve_path env path st =
     (let (device, rootEnd, isAbsolute) = win_resolve_root path in
      if length device > 0 \<and> length (resolvedDevice st) > 0 \<and>
         toLower env device \<noteq> toLower env (resolvedDevice st)
      then (st, False)
      else
        (let st = (if length device > 0 \<and> length (resolvedDevice st) = 0
                   then st\<lparr>resolvedDevice := device\<rparr> else st)
         in if resolvedAbsolute st then (st, length (resolvedDevice st) > 0)
            else (let st = st\<lparr>resolvedTail := slice_from path (int rootEnd) @ [BSL] @ resolvedTail st,
                              resolvedAbsolute := isAbsolute\<rparr>
                  in (st, isAbsolute \<and> length (resolvedDevice st) > 0))))"

definition win_fast_path :: "jsval list \<Rightarrow> jsstring \<Rightarrow> bool" where
  "win_fast_path args path \<longleftrightarrow>
     length args = 0 \<or>
     (length args = 1 \<and> (args ! 0 = JStr [] \<or> args ! 0 = JStr [CHAR_DOT]) \<and> sep_at path 0)"

text \<open>The working directory of the drive \<open>dev\<close>: the hidden variable, or the process directory.\<close>

definition win_drive_path :: "win_env \<Rightarrow> jsstring \<Rightarrow> jsstring result" where
  "win_drive_path env dev =
     bind (case driveCwd env dev of
             Some d \<Rightarrow> if d \<noteq> [] then Inr d else processCwd env
           | None \<Rightarrow> processCwd env)
       (\<lambda>path. Inr (if toLower env (slice path 0 2) \<noteq> toLower env dev \<and> charCodeAt path 2 = Some BSL
                    then dev @ [BSL] else path))"

datatype win_outcome = Returned jsstring | Resolved win_state

text \<open>The loop; its last round, after all the arguments, takes a working directory as the path.\<close>

fun win_resolve_loop :: "win_env \<Rightarrow> jsval list \<Rightarrow> nat \<Rightarrow> win_state \<Rightarrow> win_outcome result" where
  "win_resolve_loop env args 0 st =
     (if length (resolvedDevice st) = 0 then
        bind (processCwd env) (\<lambda>path.
          if win_fast_path args path
          then Inr (Returned (if \<not> isWindows env
                              then map (\<lambda>c. if c = CHAR_FORWARD_SLASH then BSL else c) path else path))
          else Inr (Resolved (fst (win_resolve_path env path st))))
      else bind (win_drive_path env (resolvedDevice st)) (\<lambda>path.
             Inr (Resolved (fst (win_resolve_path env path st)))))"
| "win_resolve_loop env args (Suc i) st =
     bind (validateString (args ! i) (''paths['' @ dec i @ '']'')) (\<lambda>path.
       if length path = 0 then win_resolve_loop env args i st
       else (let (st', leave) = win_resolve_path env path st
             in if leave then Inr (Resolved st') else win_resolve_loop env args i st'))"

definition win_resolve_finish :: "win_state \<Rightarrow> jsstring" where
  "win_resolve_finish st =
     (let tail = normalizeString (resolvedTail st) (\<not> resolvedAbsolute st) BSL isPathSeparator
      in if resolvedAbsolute st then resolvedDevice st @ [BSL] @ tail
         else if resolvedDevice st @ tail \<noteq> [] then resolvedDevice st @ tail else [CHAR_DOT])"

definition win_resolve :: "win_env \<Rightarrow> jsval list \<Rightarrow> jsstring result" where
  "win_resolve env args =
     bind (win_resolve_loop env args (length args)
             \<lparr>resolvedDevice = [], resolvedTail = [], resolvedAbsolute = False\<rparr>)
       (\<lambda>r. case r of Returned path \<Rightarrow> Inr path | Resolved st \<Rightarrow> Inr (win_resolve_finish st))"

subsection \<open>normalize\<close>

text \<open>The root: an early result for a bare UNC root, or \<open>(rootEnd, device, isAbsolute)\<close>.\<close>

definition win_normalize_root :: "win_env \<Rightarrow> jsstring \<Rightarrow> jsstring + (nat \<times> jsstring option \<times> bool)" where
  "win_normalize_root env path =
     (let len = length path in
      if sep_at path 0 then
        if sep_at path 1 then
          (case unc_match path of
             None \<Rightarrow> Inr (0, None, True)
           | Some (firstPart, last', j) \<Rightarrow>
               if j = len \<or> j \<noteq> last' then
                 if firstPart = js ''.'' \<or> firstPart = js ''?'' then
                   (let colonIndex = indexOf path CHAR_COLON;
                        possibleDevice = slice path 4 (colonIndex + 1)
                    in if isWindowsReservedName env possibleDevice (int (length possibleDevice) - 1)
                       then Inr (4 + length possibleDevice, Some ([BSL, BSL, CHAR_QUESTION_MARK, BSL] @ possibleDevice), True)
                       else Inr (4, Some ([BSL, BSL] @ firstPart), True))
                 else if j = len
                 then Inl ([BSL, BSL] @ firstPart @ [BSL] @ slice_from path (int last') @ [BSL])
                 else Inr (j, Some ([BSL, BSL] @ firstPart @ [BSL] @ slice path (int last') (int j)), True)
               else Inr (0, None, True))
        else Inr (1, None, True)
      else
        (let colonIndex = indexOf path CHAR_COLON in
         if colonIndex > 0 then
           if drive_at path 0 \<and> colonIndex = 1 then
             if len > 2 \<and> sep_at path 2 then Inr (3, Some (slice path 0 2), True)
             else Inr (2, Some (slice path 0 2), False)
           else if isWindowsReservedName env path colonIndex
           then Inr (nat (colonIndex + 1), Some (slice path 0 (colonIndex + 1)), False)
           else Inr (0, None, False)
         else Inr (0, None, False)))"

text \<open>The \<open>do\<close> loop over the colons: some colon ends the path or stands before a separator.\<close>

function colon_loop :: "jsstring \<Rightarrow> nat \<Rightarrow> bool" where
  "colon_loop path index =
     (if int index = int (length path) - 1 \<or> sep_at path (int index + 1) then True
      else (let index' = indexOf_from path CHAR_COLON (index + 1)
            in if index' \<noteq> -1 then colon_loop path (nat index') else False))"
  by pat_completeness auto
termination
proof (relation "measure (\<lambda>(path, index). length path - index)", simp)
  fix path :: jsstring and index x
  assume "x = indexOf_from path CHAR_COLON (index + 1)" "x \<noteq> -1"
  then have "int (index + 1) \<le> x" "x < int (length path)"
    using indexOf_from_bounds [of path CHAR_COLON "index + 1"] by auto
  then show "((path, nat x), (path, index)) \<in> measure (\<lambda>(path, index). length path - index)" by auto
qed

declare colon_loop.simps [simp del]

definition win_normalize_tail :: "jsstring \<Rightarrow> nat \<Rightarrow> bool \<Rightarrow> jsstring" where
  "win_normalize_tail path rootEnd isAbsolute =
     (let len = length path;
          tail = (if rootEnd < len
                  then normalizeString (slice_from path (int rootEnd)) (\<not> isAbsolute) BSL isPathSeparator
                  else []);
          tail = (if length tail = 0 \<and> \<not> isAbsolute then [CHAR_DOT] else tail)
      in if length tail > 0 \<and> sep_at path (int len - 1) then tail @ [BSL] else tail)"

definition win_normalize_string :: "win_env \<Rightarrow> jsstring \<Rightarrow> jsstring" where
  "win_normalize_string env path =
     (if length path = 0 then [CHAR_DOT]
      else if length path = 1 then (if charCodeAt path 0 = Some CHAR_FORWARD_SLASH then [BSL] else path)
      else case win_normalize_root env path of
        Inl early \<Rightarrow> early
      | Inr (rootEnd, device, isAbsolute) \<Rightarrow>
          (let tail = win_normalize_tail path rootEnd isAbsolute;
               colonIndex = indexOf path CHAR_COLON
           in if \<not> isAbsolute \<and> device = None \<and> CHAR_COLON \<in> set path \<and>
                 ((length tail \<ge> 2 \<and> drive_at tail 0 \<and> charCodeAt tail 1 = Some CHAR_COLON) \<or>
                  colon_loop path (nat colonIndex))
              then [CHAR_DOT, BSL] @ tail
              else if isWindowsReservedName env path colonIndex
              then [CHAR_DOT, BSL] @ (case device of Some d \<Rightarrow> d | None \<Rightarrow> []) @ tail
              else case device of
                None \<Rightarrow> if isAbsolute then [BSL] @ tail else tail
              | Some d \<Rightarrow> if isAbsolute then d @ [BSL] @ tail else d @ tail))"

definition win_normalize :: "win_env \<Rightarrow> jsval \<Rightarrow> jsstring result" where
  "win_normalize env path =
     bind (validateString path ''path'') (\<lambda>p. Inr (win_normalize_string env p))"

definition win_isAbsolute_string :: "jsstring \<Rightarrow> bool" where
  "win_isAbsolute_string path =
     (if length path = 0 then False
      else sep_at path 0 \<or>
           (length path > 2 \<and> drive_at path 0 \<and> charCodeAt path 1 = Some CHAR_COLON \<and> sep_at path 2))"

definition win_isAbsolute :: "jsval \<Rightarrow> bool result" where
  "win_isAbsolute path = bind (validateString path ''path'') (\<lambda>p. Inr (win_isAbsolute_string p))"

subsection \<open>join\<close>

text \<open>The leading separators that \<open>join\<close> replaces by one, unless the first argument is a UNC path.\<close>

definition win_join_slashes :: "jsstring \<Rightarrow> nat \<times> bool" where
  "win_join_slashes firstPart =
     (let firstLen = length firstPart in
      if sep_at firstPart 0 then
        if firstLen > 1 \<and> sep_at firstPart 1 then
          if firstLen > 2 then (if sep_at firstPart 2 then (3, True) else (2, False)) else (2, True)
        else (1, True)
      else (0, True))"

definition win_join_head :: "jsstring \<Rightarrow> jsstring \<Rightarrow> jsstring" where
  "win_join_head firstPart joined =
     (let (slashCount, needsReplace) = win_join_slashes firstPart
      in if needsReplace then
           (let slashCount = skip_while isPathSeparator joined slashCount
            in if slashCount \<ge> 2 then BSL # slice_from joined (int slashCount) else joined)
         else joined)"

text \<open>The parts between backslashes; a run of backslashes counts as one.\<close>

function win_join_parts :: "jsstring \<Rightarrow> jsstring \<Rightarrow> jsstring list \<Rightarrow> jsstring list" where
  "win_join_parts [] part parts = (if part \<noteq> [] then parts @ [part] else parts)"
| "win_join_parts (c # cs) part parts =
     (if c = BSL
      then win_join_parts (dropWhile (\<lambda>x. x = BSL) cs) [] (if part \<noteq> [] then parts @ [part] else parts)
      else win_join_parts cs (part @ [c]) parts)"
  by pat_completeness auto
termination
  by (relation "measure (\<lambda>(cs, _, _). length cs)") (auto simp: le_imp_less_Suc length_dropWhile_le)

definition win_has_reserved_part :: "win_env \<Rightarrow> jsstring list \<Rightarrow> bool" where
  "win_has_reserved_part env parts =
     list_ex (\<lambda>p. indexOf p CHAR_COLON \<noteq> -1 \<and> isWindowsReservedName env p (indexOf p CHAR_COLON)) parts"

definition win_join :: "win_env \<Rightarrow> jsval list \<Rightarrow> jsstring result" where
  "win_join env args =
     (if length args = 0 then Inr [CHAR_DOT]
      else bind (join_args args) (\<lambda>path.
        if length path = 0 then Inr [CHAR_DOT]
        else (let joined = win_join_head (path ! 0) (join [BSL] path)
              in if win_has_reserved_part env (win_join_parts joined [] [])
                 then Inr (map (\<lambda>c. if c = CHAR_FORWARD_SLASH then BSL else c) joined)
                 else win_normalize env (JStr joined))))"

subsection \<open>relative\<close>

text \<open>The branch for paths whose length changes under \<^verbatim>\<open>toLowerCase\<close>: it compares whole components.\<close>

definition win_split :: "jsstring \<Rightarrow> jsstring list" where
  "win_split p = (let parts = split_on (\<lambda>c. c = BSL) p
                  in if last parts = [] then butlast parts else parts)"

fun common_parts :: "win_env \<Rightarrow> jsstring list \<Rightarrow> jsstring list \<Rightarrow> nat" where
  "common_parts env (x # xs) (y # ys) =
     (if toLower env x \<noteq> toLower env y then 0 else Suc (common_parts env xs ys))"
| "common_parts env xs ys = 0"

definition dotdot_bsl :: "nat \<Rightarrow> jsstring" where
  "dotdot_bsl n = concat (replicate n [CHAR_DOT, CHAR_DOT, BSL])"

definition win_relative_split :: "win_env \<Rightarrow> jsstring \<Rightarrow> jsstring \<Rightarrow> jsstring" where
  "win_relative_split env fromOrig toOrig =
     (let fromSplit = win_split fromOrig; toSplit = win_split toOrig;
          fromLen = length fromSplit; toLen = length toSplit;
          len = (if fromLen < toLen then fromLen else toLen);
          i = common_parts env fromSplit toSplit
      in if i = 0 then toOrig
         else if i = len then
           if toLen > len then join [BSL] (drop i toSplit)
           else if fromLen > len then dotdot_bsl (fromLen - 1 - i) @ [CHAR_DOT, CHAR_DOT]
           else []
         else dotdot_bsl (fromLen - i) @ join [BSL] (drop i toSplit))"

text \<open>The trailing backslashes that the comparison leaves out.\<close>

fun trim_end :: "jsstring \<Rightarrow> nat \<Rightarrow> nat \<Rightarrow> nat" where
  "trim_end s start 0 = 0"
| "trim_end s start (Suc e) = (if e > start \<and> charCodeAt s (int e) = Some BSL then trim_end s start e else Suc e)"

text \<open>The last part of \<open>relative\<close>, once the common prefix ends after \<open>lastCommonSep\<close>.\<close>

definition win_relative_out :: "jsstring \<Rightarrow> nat \<Rightarrow> nat \<Rightarrow> jsstring \<Rightarrow> nat \<Rightarrow> nat \<Rightarrow> int \<Rightarrow> jsstring" where
  "win_relative_out from fromStart fromEnd toOrig toStart toEnd lastCommonSep =
     (let out = up_loop BSL from fromEnd (nat (int fromStart + lastCommonSep + 1)) [];
          start = int toStart + lastCommonSep
      in if length out > 0 then out @ slice toOrig start (int toEnd)
         else slice toOrig (if charCodeAt toOrig start = Some BSL then start + 1 else start) (int toEnd))"

definition win_relative_scan :: "jsstring \<Rightarrow> jsstring \<Rightarrow> jsstring \<Rightarrow> jsstring" where
  "win_relative_scan from to toOrig =
     (let fromStart = skip_while (\<lambda>c. c = BSL) from 0;
          fromEnd = trim_end from fromStart (length from);
          fromLen = fromEnd - fromStart;
          toStart = skip_while (\<lambda>c. c = BSL) to 0;
          toEnd = trim_end to toStart (length to);
          toLen = toEnd - toStart;
          len = (if fromLen < toLen then fromLen else toLen);
          (i, lastCommonSep) = common_scan BSL from to fromStart toStart len 0 (-1);
          finish = win_relative_out from fromStart fromEnd toOrig toStart toEnd
      in if i \<noteq> len then (if lastCommonSep = -1 then toOrig else finish lastCommonSep)
         else if toLen > len \<and> charCodeAt to (int (toStart + i)) = Some BSL
         then slice_from toOrig (int (toStart + i + 1))
         else if toLen > len \<and> i = 2 then slice_from toOrig (int (toStart + i))
         else (let sep = (if fromLen > len then
                            (if charCodeAt from (int (fromStart + i)) = Some BSL then int i
                             else if i = 2 then 3 else lastCommonSep)
                          else lastCommonSep)
               in finish (if sep = -1 then 0 else sep)))"

definition win_relative :: "win_env \<Rightarrow> jsval \<Rightarrow> jsval \<Rightarrow> jsstring result" where
  "win_relative env from to =
     bind (validateString from ''from'') (\<lambda>f. bind (validateString to ''to'') (\<lambda>t.
       if f = t then Inr []
       else bind (win_resolve env [JStr f]) (\<lambda>fromOrig. bind (win_resolve env [JStr t]) (\<lambda>toOrig.
         if fromOrig = toOrig then Inr []
         else (let f' = toLower env fromOrig; t' = toLower env toOrig
               in if f' = t' then Inr []
                  else if length fromOrig \<noteq> length f' \<or> length toOrig \<noteq> length t'
                  then Inr (win_relative_split env fromOrig toOrig)
                  else Inr (win_relative_scan f' t' toOrig))))))"

subsection \<open>toNamespacedPath and dirname\<close>

definition win_namespaced :: "jsstring \<Rightarrow> jsstring \<Rightarrow> jsstring" where
  "win_namespaced path resolvedPath =
     (if length resolvedPath \<le> 2 then path
      else if charCodeAt resolvedPath 0 = Some BSL then
        if charCodeAt resolvedPath 1 = Some BSL \<and>
           charCodeAt resolvedPath 2 \<noteq> Some CHAR_QUESTION_MARK \<and> charCodeAt resolvedPath 2 \<noteq> Some CHAR_DOT
        then [BSL, BSL, CHAR_QUESTION_MARK, BSL] @ js ''UNC'' @ [BSL] @ slice_from resolvedPath 2
        else resolvedPath
      else if drive_at resolvedPath 0 \<and> charCodeAt resolvedPath 1 = Some CHAR_COLON \<and>
              charCodeAt resolvedPath 2 = Some BSL
      then [BSL, BSL, CHAR_QUESTION_MARK, BSL] @ resolvedPath
      else resolvedPath)"

definition win_toNamespacedPath :: "win_env \<Rightarrow> jsval \<Rightarrow> jsval result" where
  "win_toNamespacedPath env path =
     (case path of
        JStr p \<Rightarrow> if length p = 0 then Inr path
                   else bind (win_resolve env [JStr p]) (\<lambda>r. Inr (JStr (win_namespaced p r)))
      | _ \<Rightarrow> Inr path)"

text \<open>\<open>None\<close> is a bare UNC root, which \<open>dirname\<close> returns as it is; otherwise \<open>(rootEnd, offset)\<close>.\<close>

definition win_dirname_root :: "jsstring \<Rightarrow> (int \<times> nat) option" where
  "win_dirname_root path =
     (let len = length path in
      if sep_at path 0 then
        if sep_at path 1 then
          (case unc_match path of
             None \<Rightarrow> Some (1, 1)
           | Some (firstPart, last', j) \<Rightarrow>
               if j = len then None
               else if j \<noteq> last' then Some (int (j + 1), j + 1) else Some (1, 1))
        else Some (1, 1)
      else if drive_at path 0 \<and> charCodeAt path 1 = Some CHAR_COLON then
        (let rootEnd = (if len > 2 \<and> sep_at path 2 then 3 else 2) in Some (int rootEnd, rootEnd))
      else Some (-1, 0))"

definition win_dirname_string :: "jsstring \<Rightarrow> jsstring" where
  "win_dirname_string path =
     (let len = length path in
      if len = 0 then [CHAR_DOT]
      else if len = 1 then (if sep_at path 0 then path else [CHAR_DOT])
      else case win_dirname_root path of
        None \<Rightarrow> path
      | Some (rootEnd, offset) \<Rightarrow>
          (let end' = dirname_scan isPathSeparator path offset len True
           in if end' = -1
              then (if rootEnd = -1 then [CHAR_DOT] else slice path 0 rootEnd)
              else slice path 0 end'))"

definition win_dirname :: "jsval \<Rightarrow> jsstring result" where
  "win_dirname path = bind (validateString path ''path'') (\<lambda>p. Inr (win_dirname_string p))"

subsection \<open>basename, extname, format, parse\<close>

definition win_drive_prefix :: "jsstring \<Rightarrow> bool" where
  "win_drive_prefix path \<longleftrightarrow> length path \<ge> 2 \<and> drive_at path 0 \<and> charCodeAt path 1 = Some CHAR_COLON"

definition win_basename_string :: "jsstring \<Rightarrow> jsstring option \<Rightarrow> jsstring" where
  "win_basename_string path suffix =
     (let start = (if win_drive_prefix path then 2 else 0);
          plain = (let (start', end') = basename_scan isPathSeparator path start (length path) True (-1)
                   in if end' = -1 then [] else slice path start' end')
      in case suffix of
           None \<Rightarrow> plain
         | Some suf \<Rightarrow>
             if length suf > 0 \<and> length suf \<le> length path then
               if suf = path then []
               else (let (start', end', first) = suffix_scan isPathSeparator path suf start (length path)
                           True (int (length suf) - 1) (-1) (-1)
                     in slice path start'
                          (if start' = end' then first
                           else if end' = -1 then int (length path) else end'))
             else plain)"

definition win_basename :: "jsval \<Rightarrow> jsval \<Rightarrow> jsstring result" where
  "win_basename path suffix =
     bind (if suffix = Undefined then Inr None
           else bind (validateString suffix ''suffix'') (\<lambda>s. Inr (Some s)))
       (\<lambda>suf. bind (validateString path ''path'') (\<lambda>p. Inr (win_basename_string p suf)))"

definition win_extname_string :: "jsstring \<Rightarrow> jsstring" where
  "win_extname_string path =
     (let start = (if win_drive_prefix path then 2 else 0);
          st = ext_scan isPathSeparator path start (length path) (ext_init (int start))
      in if startDot st = -1 \<or> endPos st = -1 \<or> no_ext st then []
         else slice path (startDot st) (endPos st))"

definition win_extname :: "jsval \<Rightarrow> jsstring result" where
  "win_extname path = bind (validateString path ''path'') (\<lambda>p. Inr (win_extname_string p))"

definition win_format :: "path_object option \<Rightarrow> jsstring result" where
  "win_format = format_path BSL"

definition root_only :: "jsstring \<Rightarrow> path_object" where
  "root_only path = \<lparr>root = path, dir = path, base = [], ext = [], name = []\<rparr>"

text \<open>\<open>None\<close> is a bare drive root, with which \<open>parse\<close> exits early.\<close>

definition win_parse_root :: "jsstring \<Rightarrow> nat option" where
  "win_parse_root path =
     (let len = length path in
      if sep_at path 0 then
        if sep_at path 1 then
          (case unc_match path of
             None \<Rightarrow> Some 1
           | Some (firstPart, last', j) \<Rightarrow>
               if j = len then Some j else if j \<noteq> last' then Some (j + 1) else Some 1)
        else Some 1
      else if drive_at path 0 \<and> charCodeAt path 1 = Some CHAR_COLON then
        if len \<le> 2 then None
        else if sep_at path 2 then (if len = 3 then None else Some 3)
        else Some 2
      else Some 0)"

definition win_parse_tail :: "jsstring \<Rightarrow> nat \<Rightarrow> path_object" where
  "win_parse_tail path rootEnd =
     (let ret = \<lparr>root = (if rootEnd > 0 then slice path 0 (int rootEnd) else []),
                 dir = [], base = [], ext = [], name = []\<rparr>;
          st = ext_scan isPathSeparator path rootEnd (length path) (ext_init (int rootEnd));
          ret = (if endPos st \<noteq> -1
                 then (if no_ext st
                       then ret\<lparr>base := slice path (startPart st) (endPos st),
                                name := slice path (startPart st) (endPos st)\<rparr>
                       else ret\<lparr>name := slice path (startPart st) (startDot st),
                                base := slice path (startPart st) (endPos st),
                                ext := slice path (startDot st) (endPos st)\<rparr>)
                 else ret)
      in if startPart st > 0 \<and> startPart st \<noteq> int rootEnd
         then ret\<lparr>dir := slice path 0 (startPart st - 1)\<rparr>
         else ret\<lparr>dir := root ret\<rparr>)"

definition win_parse_string :: "jsstring \<Rightarrow> path_object" where
  "win_parse_string path =
     (if length path = 0 then \<lparr>root = [], dir = [], base = [], ext = [], name = []\<rparr>
      else if length path = 1 then
        (if sep_at path 0 then root_only path
         else \<lparr>root = [], dir = [], base = path, ext = [], name = path\<rparr>)
      else case win_parse_root path of
        None \<Rightarrow> root_only path
      | Some rootEnd \<Rightarrow> win_parse_tail path rootEnd)"

definition win_parse :: "jsval \<Rightarrow> path_object result" where
  "win_parse path = bind (validateString path ''path'') (\<lambda>p. Inr (win_parse_string p))"

end
