(* ===== verification/PathPosixProps.thy ===== *)
theory PathPosixProps
  imports PathPosix
begin

text \<open>
  Properties of \<^verbatim>\<open>path.posix\<close>: \<open>resolve\<close> is a sequence of \<^verbatim>\<open>cd\<close> commands on the list of
  segments of the current directory, \<open>normalize\<close> is a normal form, \<open>relative\<close> inverts
  \<open>resolve\<close>, and the backward scans compute the last component, its directory and its extension.
\<close>

subsection \<open>Segments of a posix path\<close>

abbreviation (input) SLASH :: nat where "SLASH \<equiv> 47"

definition segments :: "jsstring \<Rightarrow> jsstring list" where
  "segments p = split_on isPosixPathSeparator p"

definition normal_seg :: "jsstring \<Rightarrow> bool" where
  "normal_seg s \<longleftrightarrow> s \<noteq> [] \<and> s \<noteq> [CHAR_DOT] \<and> s \<noteq> [CHAR_DOT, CHAR_DOT] \<and> SLASH \<notin> set s"

definition absolute_path :: "jsstring list \<Rightarrow> jsstring" where
  "absolute_path xs = SLASH # join [SLASH] xs"

text \<open>A canonical absolute path is what \<^verbatim>\<open>getcwd\<close> returns: no empty, dot or dot-dot segment.\<close>

definition canonical :: "jsstring \<Rightarrow> bool" where
  "canonical p \<longleftrightarrow> p = absolute_path (resolve_segments False (segments p))"

lemma posix_sep [simp]: "isPosixPathSeparator c \<longleftrightarrow> c = SLASH"
  by (simp add: isPosixPathSeparator_def)

lemma normalizeString_posix:
  "normalizeString p allow SLASH isPosixPathSeparator = join [SLASH] (resolve_segments allow (segments p))"
  unfolding segments_def by (rule normalizeString_segments) simp_all

lemma segments_ne [simp]: "segments p \<noteq> []"
  by (simp add: segments_def)

lemma segments_slash: "segments (p @ SLASH # q) = segments p @ segments q"
  by (simp add: segments_def split_on_append_sep)

lemma segments_Cons: "segments (SLASH # q) = [] # segments q"
  using segments_slash [of "[]" q] by (simp add: segments_def)

lemma segments_no_slash: "s \<in> set (segments p) \<Longrightarrow> SLASH \<notin> set s"
  using split_on_no_sep [of s isPosixPathSeparator p] by (auto simp: segments_def)

lemma segments_join: "xs \<noteq> [] \<Longrightarrow> (\<And>x. x \<in> set xs \<Longrightarrow> SLASH \<notin> set x) \<Longrightarrow> segments (join [SLASH] xs) = xs"
  unfolding segments_def by (rule split_on_join) auto

lemma join_segments: "join [SLASH] (segments p) = p"
proof (induction p rule: rev_induct)
  case (snoc c p)
  let ?s = "segments p"
  have "join [SLASH] ?s = (if butlast ?s = [] then last ?s else join [SLASH] (butlast ?s) @ SLASH # last ?s)"
    using join_snoc [of "[SLASH]" "butlast ?s" "last ?s"] by (simp only: append_butlast_last_id [OF segments_ne]) simp
  then show ?case using snoc
    by (auto simp: segments_def split_on_snoc join_snoc split: if_splits)
qed (simp add: segments_def)

lemma seg_step_normal: "normal_seg s \<Longrightarrow> seg_step allow xs s = xs @ [s]"
  by (simp add: seg_step_def normal_seg_def)

lemma foldl_normal: "\<forall>s \<in> set ys. normal_seg s \<Longrightarrow> foldl (seg_step allow) xs ys = xs @ ys"
  by (induction ys arbitrary: xs) (auto simp: seg_step_normal)

lemma seg_step_keeps_normal:
  "SLASH \<notin> set s \<Longrightarrow> \<forall>x \<in> set xs. normal_seg x \<Longrightarrow> \<forall>x \<in> set (seg_step False xs s). normal_seg x"
  by (auto simp: seg_step_def normal_seg_def dest: in_set_butlastD)

lemma foldl_keeps_normal:
  "(\<And>s. s \<in> set ys \<Longrightarrow> SLASH \<notin> set s) \<Longrightarrow> \<forall>x \<in> set xs. normal_seg x \<Longrightarrow>
   \<forall>x \<in> set (foldl (seg_step False) xs ys). normal_seg x"
proof (induction ys arbitrary: xs)
  case (Cons y ys)
  show ?case unfolding foldl_Cons
    by (rule Cons.IH) (use Cons.prems seg_step_keeps_normal [of y xs] in auto)
qed simp

lemma resolve_normal: "\<forall>x \<in> set (resolve_segments False (segments p)). normal_seg x"
  unfolding resolve_segments_def by (rule foldl_keeps_normal) (auto dest: segments_no_slash)

lemma segments_absolute:
  "\<forall>x \<in> set xs. normal_seg x \<Longrightarrow> resolve_segments allow (segments (absolute_path xs)) = xs"
proof (cases "xs = []")
  case True
  then show ?thesis
    by (simp add: absolute_path_def segments_Cons) (simp add: segments_def resolve_segments_def seg_step_def)
next
  case False
  moreover assume *: "\<forall>x \<in> set xs. normal_seg x"
  ultimately have "segments (absolute_path xs) = [] # xs"
    by (simp add: absolute_path_def segments_Cons segments_join normal_seg_def)
  moreover have "seg_step allow [] [] = []" by (simp add: seg_step_def)
  ultimately show ?thesis using foldl_normal [OF *, of allow "[]"] by (simp add: resolve_segments_def)
qed

lemma canonical_absolute: "\<forall>x \<in> set xs. normal_seg x \<Longrightarrow> canonical (absolute_path xs)"
  by (simp add: canonical_def segments_absolute)

lemma canonicalE:
  assumes "canonical d"
  obtains xs where "d = absolute_path xs" "\<forall>x \<in> set xs. normal_seg x" "resolve_segments False (segments d) = xs"
  using assms resolve_normal [of d] by (auto simp: canonical_def)

lemma starts_with_slash_simps [simp]:
  "\<not> starts_with_slash []" "starts_with_slash (c # s) \<longleftrightarrow> c = SLASH"
  by (simp_all add: starts_with_slash_def charCodeAt_0)

subsection \<open>resolve is a sequence of cd commands\<close>

definition cd :: "jsstring list \<Rightarrow> jsstring \<Rightarrow> jsstring list" where
  "cd d p = (if p = [] then d
             else if starts_with_slash p then resolve_segments False (segments p)
             else foldl (seg_step False) d (segments p))"

lemma posix_resolve_loop_cd:
  "i \<le> length ps \<Longrightarrow>
   \<exists>r a. posix_resolve_loop (map JStr ps) i acc False = Inr (r, a) \<and>
     (\<forall>d. foldl (seg_step False) (if a then [] else d) (segments r)
        = foldl (seg_step False) (foldl cd d (take i ps)) (segments acc))"
proof (induction i arbitrary: acc)
  case (Suc i)
  let ?p = "ps ! i"
  have take: "take (Suc i) ps = take i ps @ [?p]" using Suc.prems by (simp add: take_Suc_conv_app_nth)
  show ?case
  proof (cases "?p = [] \<or> \<not> starts_with_slash ?p")
    case True
    then show ?thesis
      using Suc.IH [of acc] Suc.IH [of "?p @ SLASH # acc"] Suc.prems
      by (cases "?p = []") (auto simp: take cd_def segments_slash)
  next
    case False
    moreover have "map JStr ps ! i = JStr ?p" using Suc.prems by simp
    ultimately have "posix_resolve_loop (map JStr ps) (Suc i) acc False = Inr (?p @ SLASH # acc, True)"
      by (cases i) auto
    then show ?thesis using False
      by (intro exI [of _ "?p @ SLASH # acc"] exI [of _ True])
        (simp add: take cd_def segments_slash resolve_segments_def del: posix_resolve_loop.simps)
  qed
qed (auto intro: exI [of _ False])

lemma posix_resolve_tail_cd:
  assumes "starts_with_slash d"
  shows "posix_resolve_tail (Inr d) (map JStr ps)
    = Inr (absolute_path (foldl cd (resolve_segments False (segments d)) ps))"
proof -
  obtain r a where r: "posix_resolve_loop (map JStr ps) (length ps) [] False = Inr (r, a)"
    and sem: "\<And>D. foldl (seg_step False) (if a then [] else D) (segments r)
        = foldl (seg_step False) (foldl cd D ps) (segments [])"
    using posix_resolve_loop_cd [of "length ps" ps "[]"] by auto
  have nil: "foldl (seg_step False) D (segments []) = D" for D
    by (simp add: segments_def seg_step_def)
  show ?thesis
    using assms sem [of "resolve_segments False (segments d)"]
    by (cases a) (auto simp: posix_resolve_tail_def r nil normalizeString_posix absolute_path_def
        segments_slash resolve_segments_def)
qed

lemma posix_resolve_cd_aux:
  assumes "canonical d"
  shows "posix_resolve (Inr d) (map JStr ps)
    = Inr (absolute_path (foldl cd (resolve_segments False (segments d)) ps))"
proof -
  have slash: "starts_with_slash d"
    using assms by (auto simp: absolute_path_def elim: canonicalE)
  show ?thesis
  proof (cases "ps = [] \<or> ps = [[]] \<or> ps = [[CHAR_DOT]]")
    case True
    moreover have "cd D [CHAR_DOT] = D" for D by (simp add: cd_def segments_def seg_step_def)
    moreover have "cd D [] = D" for D by (simp add: cd_def)
    ultimately have "foldl cd (resolve_segments False (segments d)) ps = resolve_segments False (segments d)"
      by auto
    moreover have "posix_resolve (Inr d) (map JStr ps) = Inr d"
      using True slash by (auto simp: posix_resolve_def)
    ultimately show ?thesis using assms by (simp add: canonical_def)
  next
    case False
    then have "posix_resolve (Inr d) (map JStr ps) = posix_resolve_tail (Inr d) (map JStr ps)"
      by (auto simp: posix_resolve_def length_Suc_conv)
    then show ?thesis using posix_resolve_tail_cd [OF slash] by simp
  qed
qed

subsection \<open>relative\<close>

text \<open>
  Two absolute paths given by their segments; the text after the root is \<open>join [SLASH] xs\<close>.
  The scan stops at the first difference and remembers the last common separator.
\<close>

definition last_sep :: "jsstring \<Rightarrow> int" where
  "last_sep s = lastIndexOf s SLASH"

lemma last_sep_snoc: "last_sep (s @ [c]) = (if c = SLASH then int (length s) else last_sep s)"
  using lastIndexOf_append [of SLASH "[]" s] by (simp add: last_sep_def lastIndexOf_snoc_neq)

lemma common_scan_spec:
  assumes "common_scan SLASH (SLASH # a) (SLASH # b) 1 1 len i ls = (j, ls')"
    and "i \<le> len" "len \<le> length a" "len \<le> length b" "take i a = take i b" "ls = last_sep (take i a)"
  shows "j \<le> len \<and> take j a = take j b \<and> ls' = last_sep (take j a) \<and> (j < len \<longrightarrow> a ! j \<noteq> b ! j)"
  using assms
proof (induction SLASH "SLASH # a" "SLASH # b" "1::nat" "1::nat" len i ls rule: common_scan.induct)
  case (1 len i ls)
  show ?case
  proof (cases "i < len \<and> a ! i = b ! i")
    case True
    then have "common_scan SLASH (SLASH # a) (SLASH # b) 1 1 len (Suc i) (if a ! i = SLASH then int i else ls) = (j, ls')"
      using "1.prems"(1) by (subst (asm) common_scan.simps) simp
    then show ?thesis
      using True "1.prems" "1.hyps" by (simp add: take_Suc_conv_app_nth last_sep_snoc)
  next
    case False
    then show ?thesis using 1(2-) by (subst (asm) common_scan.simps) (auto split: if_splits)
  qed
qed

text \<open>One \<^verbatim>\<open>..\<close> per component of the rest of \<open>from\<close>.\<close>

definition ups :: "nat \<Rightarrow> jsstring" where
  "ups n = join [SLASH] (replicate n [CHAR_DOT, CHAR_DOT])"

lemma ups_Suc: "ups (Suc n) = (if n = 0 then [] else ups n @ [SLASH]) @ [CHAR_DOT, CHAR_DOT]"
  unfolding ups_def by (simp only: replicate_append_same [symmetric] replicate_Suc join_snoc) simp

lemma ups_eq_Nil: "ups n = [] \<longleftrightarrow> n = 0"
  unfolding ups_def by (subst join_eq_Nil) auto

lemma length_segments: "length (segments s) = Suc (count_list s SLASH)"
  by (induction s rule: rev_induct) (auto simp: segments_def split_on_snoc)

lemma up_loop_spec:
  "i \<le> length from \<Longrightarrow>
   up_loop SLASH from (length from) i (ups n) = ups (n + Suc (count_list (drop i from) SLASH))"
proof (induction "length from - i" arbitrary: i n)
  case 0
  then have "i = length from" by simp
  then show ?case
    by (simp add: up_loop.simps [of _ _ _ "length from"] up_loop.simps [of _ _ _ "Suc (length from)"] ups_Suc ups_eq_Nil)
next
  case (Suc k)
  let ?n = "if from ! i = SLASH then Suc n else n"
  have drop: "drop i from = from ! i # drop (Suc i) from"
    using Suc by (simp add: Cons_nth_drop_Suc)
  have out: "(if from ! i = SLASH
      then ups n @ (if length (ups n) = 0 then [CHAR_DOT, CHAR_DOT] else [SLASH, CHAR_DOT, CHAR_DOT])
      else ups n) = ups ?n" by (simp add: ups_Suc ups_eq_Nil)
  have "up_loop SLASH from (length from) i (ups n) = up_loop SLASH from (length from) (Suc i) (ups ?n)"
    using Suc.hyps(2) Suc.prems unfolding out [symmetric] by (subst up_loop.simps) auto
  also have "\<dots> = ups (?n + Suc (count_list (drop (Suc i) from) SLASH))"
    by (rule Suc.hyps(1)) (use Suc in auto)
  finally show ?case by (simp add: drop)
qed

definition rel_finish :: "jsstring \<Rightarrow> jsstring \<Rightarrow> int \<Rightarrow> jsstring" where
  "rel_finish a b c = up_loop SLASH (SLASH # a) (length (SLASH # a)) (nat (1 + c + 1)) []
     @ slice_from (SLASH # b) (1 + c)"

lemma rel_finish_eq:
  assumes "k \<le> length a" "k \<le> Suc (length b)"
  shows "rel_finish a b (int k - 1) = ups (length (segments (drop k a))) @ drop k (SLASH # b)"
proof -
  have "rel_finish a b (int k - 1)
      = up_loop SLASH (SLASH # a) (length (SLASH # a)) (Suc k) (ups 0) @ slice_from (SLASH # b) (int k)"
    by (simp add: rel_finish_def ups_def nat_add_distrib)
  also have "up_loop SLASH (SLASH # a) (length (SLASH # a)) (Suc k) (ups 0) = ups (length (segments (drop k a)))"
    using up_loop_spec [of "Suc k" "SLASH # a" 0] assms by (simp add: length_segments)
  finally show ?thesis using assms by (simp add: slice_from_nonneg)
qed

lemma ups_join: "n > 0 \<Longrightarrow> bs \<noteq> [] \<Longrightarrow>
    ups n @ SLASH # join [SLASH] bs = join [SLASH] (replicate n [CHAR_DOT, CHAR_DOT] @ bs)"
  unfolding ups_def by (subst join_append) auto

text \<open>What the result of \<open>relative\<close> means for the segments of both paths.\<close>

definition rel_of :: "jsstring list \<Rightarrow> jsstring list \<Rightarrow> jsstring \<Rightarrow> bool" where
  "rel_of xs ys r \<longleftrightarrow> (\<exists>ps as bs. xs = ps @ as \<and> ys = ps @ bs \<and>
     r = join [SLASH] (replicate (length as) [CHAR_DOT, CHAR_DOT] @ bs))"

lemma rel_ofI: "xs = ps @ as \<Longrightarrow> ys = ps @ bs \<Longrightarrow>
    r = join [SLASH] (replicate (length as) [CHAR_DOT, CHAR_DOT] @ bs) \<Longrightarrow> rel_of xs ys r"
  unfolding rel_of_def by blast

lemma segments_joined: "\<forall>x \<in> set xs. normal_seg x \<Longrightarrow> xs \<noteq> [] \<Longrightarrow> segments (join [SLASH] xs) = xs"
  by (rule segments_join) (auto simp: normal_seg_def)

lemma rel_finish_rel_of:
  assumes x: "segments a = xs" "segments b = ys"
    and c: "c = -1 \<or> (0 \<le> c \<and> c < int (length a) \<and> c < int (length b) \<and> a ! nat c = SLASH \<and> b ! nat c = SLASH
              \<and> take (nat c) a = take (nat c) b)"
  shows "rel_of xs ys (rel_finish a b c)"
proof (cases "c = -1")
  case True
  have "rel_finish a b c = ups (length xs) @ SLASH # join [SLASH] ys"
    unfolding x [symmetric] using rel_finish_eq [of 0 a b] True by (simp add: join_segments)
  also have "\<dots> = join [SLASH] (replicate (length xs) [CHAR_DOT, CHAR_DOT] @ ys)"
    using x by (intro ups_join) auto
  finally show ?thesis by (intro rel_ofI [of _ "[]"]) simp_all
next
  case False
  let ?n = "nat c"
  have n: "?n < length a" "?n < length b" "a ! ?n = SLASH" "b ! ?n = SLASH" "take ?n a = take ?n b" "c = int ?n"
    using False c by auto
  have a: "a = take ?n a @ SLASH # drop (Suc ?n) a" and b: "b = take ?n a @ SLASH # drop (Suc ?n) b"
    using n id_take_nth_drop [of ?n a] id_take_nth_drop [of ?n b] by simp_all
  have "drop ?n b = SLASH # drop (Suc ?n) b"
    using Cons_nth_drop_Suc [of ?n b] n by simp
  moreover have "rel_finish a b c = ups (length (segments (drop (Suc ?n) a))) @ drop (Suc ?n) (SLASH # b)"
    using n rel_finish_eq [of "Suc ?n" a b] by simp
  ultimately have "rel_finish a b c = ups (length (segments (drop (Suc ?n) a))) @ SLASH # drop (Suc ?n) b"
    by simp
  also have "\<dots> = join [SLASH] (replicate (length (segments (drop (Suc ?n) a))) [CHAR_DOT, CHAR_DOT]
      @ segments (drop (Suc ?n) b))"
    using ups_join [of "length (segments (drop (Suc ?n) a))" "segments (drop (Suc ?n) b)"]
    by (simp add: join_segments)
  finally show ?thesis
    using segments_slash [of "take ?n a" "drop (Suc ?n) a"] segments_slash [of "take ?n a" "drop (Suc ?n) b"] a b x
    by (intro rel_ofI [of _ "segments (take ?n a)" "segments (drop (Suc ?n) a)" _ "segments (drop (Suc ?n) b)"]) simp_all
qed

lemma take_eq_less: "take i a = take i b \<Longrightarrow> n \<le> i \<Longrightarrow> take n a = take n b"
  by (metis take_take min.absorb1)

lemma rel_finish_last_sep:
  assumes "segments a = xs" "segments b = ys" "i \<le> length a" "i \<le> length b" "take i a = take i b"
  shows "rel_of xs ys (rel_finish a b (last_sep (take i a)))"
proof (rule rel_finish_rel_of [OF assms(1,2)])
  let ?c = "last_sep (take i a)"
  show "?c = -1 \<or> (0 \<le> ?c \<and> ?c < int (length a) \<and> ?c < int (length b) \<and> a ! nat ?c = SLASH \<and> b ! nat ?c = SLASH
          \<and> take (nat ?c) a = take (nat ?c) b)"
  proof (cases "?c = -1")
    case False
    then have n: "0 \<le> ?c" "?c < int i" "take i a ! nat ?c = SLASH"
      using lastIndexOf_nth [of "take i a" SLASH ?c] assms(3) by (auto simp: last_sep_def)
    then have "nat ?c < i" by simp
    moreover have "take (nat ?c) a = take (nat ?c) b"
      using \<open>nat ?c < i\<close> by (intro take_eq_less [OF assms(5)]) simp
    moreover have "take i b ! nat ?c = SLASH" using n(3) assms(5) by simp
    ultimately have "a ! nat ?c = SLASH \<and> b ! nat ?c = SLASH \<and> take (nat ?c) a = take (nat ?c) b"
      using n(3) by (simp only: nth_take)
    then show ?thesis using n assms by auto
  qed simp
qed

lemma join_nth_0: "x \<noteq> [] \<Longrightarrow> join sep (x # xs) ! 0 = x ! 0"
  by (cases xs) (simp_all add: nth_append)

lemma normal_join_hd:
  assumes "\<forall>x \<in> set xs. normal_seg x" "join [SLASH] xs \<noteq> []"
  shows "join [SLASH] xs ! 0 \<noteq> SLASH"
proof -
  obtain x xs' where "xs = x # xs'" using assms(2) by (cases xs) auto
  moreover from this have "x \<noteq> []" "SLASH \<notin> set x" using assms(1) by (auto simp: normal_seg_def)
  ultimately show ?thesis by (cases x) (auto simp: join_nth_0)
qed

lemma normal_join_Nil: "\<forall>x \<in> set xs. normal_seg x \<Longrightarrow> join [SLASH] xs = [] \<longleftrightarrow> xs = []"
  by (rule join_eq_Nil) (auto simp: normal_seg_def)

text \<open>The text of a nonempty list of segments, cut at a separator.\<close>

lemma relative_prefix:
  assumes "i < length b" "b ! i = SLASH"
  shows "segments b = segments (take i b) @ segments (drop (Suc i) b)"
  using id_take_nth_drop [OF assms(1)] assms(2) segments_slash [of "take i b" "drop (Suc i) b"] by simp

lemma rel_of_down:
  assumes "segments a = xs" "segments b = ys" "length a < length b" "take (length a) b = a" "b ! length a = SLASH"
  shows "rel_of xs ys (drop (Suc (length a)) b)"
  using relative_prefix [of "length a" b] assms
  by (intro rel_ofI [of _ xs "[]" _ "segments (drop (Suc (length a)) b)"]) (simp_all add: join_segments)

lemma rel_of_up:
  assumes "segments a = xs" "segments b = ys" "length b < length a" "take (length b) a = b" "a ! length b = SLASH"
  shows "rel_of xs ys (rel_finish a b (int (length b)))"
proof -
  have "rel_finish a b (int (length b)) = ups (length (segments (drop (Suc (length b)) a)))"
    using rel_finish_eq [of "Suc (length b)" a b] assms by simp
  then show ?thesis
    using relative_prefix [of "length b" a] assms
    by (intro rel_ofI [of _ ys "segments (drop (Suc (length b)) a)" _ "[]"]) (simp_all add: ups_def)
qed

lemma rel_of_from_root:
  assumes "\<forall>x \<in> set ys. normal_seg x"
  shows "rel_of [] ys (join [SLASH] ys)"
  by (intro rel_ofI [of _ "[]" "[]" _ ys]) simp_all

lemma rel_of_to_root:
  assumes "\<forall>x \<in> set xs. normal_seg x" "xs \<noteq> []"
  shows "rel_of xs [] (rel_finish (join [SLASH] xs) [] 0)"
proof -
  let ?a = "join [SLASH] xs"
  have ne: "?a \<noteq> []" using assms normal_join_Nil by blast
  then have "drop 0 ?a = ?a ! 0 # drop 1 ?a" using Cons_nth_drop_Suc [of 0 ?a] by simp
  then have "length (segments (drop 1 ?a)) = length (segments ?a)"
    using normal_join_hd [OF assms(1) ne] by (simp add: length_segments) (metis count_list.simps(2))
  then have "rel_finish ?a [] 0 = ups (length xs)"
    using rel_finish_eq [of 1 ?a "[]"] ne segments_joined [OF assms] by (simp add: Suc_le_eq)
  then show ?thesis
    by (intro rel_ofI [of _ "[]" xs _ "[]"]) (simp_all add: ups_def)
qed

lemma charCodeAt_Suc: "charCodeAt (c # s) (1 + int i) = charCodeAt s (int i)"
  by (simp add: charCodeAt_def nat_add_distrib)

lemma relative_resolved_eq:
  assumes "common_scan SLASH (SLASH # a) (SLASH # b) 1 1 (min (length a) (length b)) 0 (-1) = (i, ls)"
    and "i \<le> min (length a) (length b)"
  shows "posix_relative_resolved (SLASH # a) (SLASH # b) =
    (if a = b then []
     else if i = min (length a) (length b) \<and> length a < length b \<and> charCodeAt b (int i) = Some SLASH
       then drop (Suc i) b
     else if i = min (length a) (length b) \<and> length a < length b \<and> i = 0 then b
     else if i = min (length a) (length b) \<and> length b < length a \<and> charCodeAt a (int i) = Some SLASH
       then rel_finish a b (int i)
     else if i = min (length a) (length b) \<and> length b < length a \<and> i = 0 then rel_finish a b 0
     else rel_finish a b ls)"
proof -
  have len: "(if int (length (SLASH # a)) - 1 < int (length (SLASH # b)) - 1
        then int (length (SLASH # a)) - 1 else int (length (SLASH # b)) - 1) = int (min (length a) (length b))"
    by simp
  have sl: "slice_from (SLASH # b) (1 + int i) = drop i b" "slice_from (SLASH # b) (1 + int i + 1) = drop (Suc i) b"
    if "i < length b"
    using that by (simp_all add: slice_from_nonneg nat_add_distrib)
  show ?thesis
    unfolding posix_relative_resolved_def Let_def len nat_int assms(1) prod.case rel_finish_def [symmetric]
    using assms(2) sl by (auto simp: charCodeAt_Suc)
qed


lemma relative_segments:
  assumes xs: "\<forall>x \<in> set xs. normal_seg x" and ys: "\<forall>x \<in> set ys. normal_seg x"
  shows "rel_of xs ys (posix_relative_resolved (absolute_path xs) (absolute_path ys))"
proof -
  let ?a = "join [SLASH] xs" and ?b = "join [SLASH] ys"
  let ?len = "min (length ?a) (length ?b)"
  obtain i ls where scan: "common_scan SLASH (SLASH # ?a) (SLASH # ?b) 1 1 ?len 0 (-1) = (i, ls)"
    by fastforce
  have spec: "i \<le> ?len" "take i ?a = take i ?b" "ls = last_sep (take i ?a)"
    using common_scan_spec [OF scan] by (auto simp: last_sep_def)
  note eq = relative_resolved_eq [OF scan spec(1)]
  have nil: "?a = [] \<longleftrightarrow> xs = []" "?b = [] \<longleftrightarrow> ys = []"
    using xs ys by (simp_all add: normal_join_Nil)
  consider "?a = ?b" | "xs = []" "ys \<noteq> []" | "ys = []" "xs \<noteq> []" | "xs \<noteq> []" "ys \<noteq> []" "?a \<noteq> ?b"
    by fastforce
  then show ?thesis
  proof cases
    case 1
    then have "xs = ys" using nil segments_joined [OF xs] segments_joined [OF ys] by metis
    then show ?thesis unfolding absolute_path_def eq by (intro rel_ofI [of _ xs "[]" _ "[]"]) simp_all
  next
    case 2
    then show ?thesis
      unfolding absolute_path_def eq using rel_of_from_root [OF ys] normal_join_hd [OF ys] nil spec(1)
      by (auto simp: charCodeAt_nth)
  next
    case 3
    then show ?thesis
      unfolding absolute_path_def eq using rel_of_to_root [OF xs] normal_join_hd [OF xs] nil spec(1)
      by (auto simp: charCodeAt_nth)
  next
    case 4
    then have seg: "segments ?a = xs" "segments ?b = ys" using segments_joined xs ys by auto
    have fin: "rel_of xs ys (rel_finish ?a ?b ls)"
      using rel_finish_last_sep [OF seg, of i] spec by simp
    have down: "rel_of xs ys (drop (Suc i) ?b)"
      if "i = ?len" "length ?a < length ?b" "charCodeAt ?b (int i) = Some SLASH"
      using rel_of_down [OF seg] that spec(2) by (simp add: charCodeAt_nth)
    have up: "rel_of xs ys (rel_finish ?a ?b (int i))"
      if "i = ?len" "length ?b < length ?a" "charCodeAt ?a (int i) = Some SLASH"
      using rel_of_up [OF seg] that spec(2) by (simp add: charCodeAt_nth)
    have "?len \<noteq> 0" using 4 nil by simp
    then show ?thesis
      unfolding absolute_path_def eq using fin down up 4(3) by auto
  qed
qed

subsection \<open>Going up and down again\<close>

lemma foldl_dotdot:
  "\<forall>x \<in> set D. normal_seg x \<Longrightarrow>
   foldl (seg_step False) D (replicate n [CHAR_DOT, CHAR_DOT]) = take (length D - n) D"
proof (induction n arbitrary: D)
  case (Suc n)
  have "seg_step False D [CHAR_DOT, CHAR_DOT] = butlast D"
    using Suc.prems by (cases D rule: rev_cases) (auto simp: seg_step_def normal_seg_def)
  moreover have "\<forall>x \<in> set (butlast D). normal_seg x" using Suc.prems by (auto dest: in_set_butlastD)
  ultimately show ?case using Suc.IH [of "butlast D"]
    by (simp add: butlast_conv_take min_def)
qed simp

lemma cd_relative:
  assumes "rel_of xs ys r" "\<forall>x \<in> set xs. normal_seg x" "\<forall>x \<in> set ys. normal_seg x"
  shows "cd xs r = ys"
proof -
  obtain ps as bs where *: "xs = ps @ as" "ys = ps @ bs"
      "r = join [SLASH] (replicate (length as) [CHAR_DOT, CHAR_DOT] @ bs)"
    using assms(1) by (auto simp: rel_of_def)
  let ?segs = "replicate (length as) [CHAR_DOT, CHAR_DOT] @ bs"
  have fold: "foldl (seg_step False) xs ?segs = ys"
    using foldl_dotdot [OF assms(2), of "length as"] foldl_normal [of bs False ps] assms(3) * by simp
  show ?thesis
  proof (cases "?segs = []")
    case True
    then show ?thesis using * by (simp add: cd_def)
  next
    case False
    have "\<forall>x \<in> set bs. normal_seg x" using assms(3) *(2) by simp
    then have "x \<in> set bs \<or> x = [CHAR_DOT, CHAR_DOT] \<Longrightarrow> x \<noteq> [] \<and> SLASH \<notin> set x" for x
      unfolding normal_seg_def by fastforce
    then have good: "x \<noteq> []" "SLASH \<notin> set x" if "x \<in> set ?segs" for x
      using that by (simp_all add: in_set_replicate) blast+
    have "segments r = ?segs" unfolding *(3) using False good by (intro segments_join) auto
    moreover obtain s ss where s: "?segs = s # ss" using False by (cases ?segs) auto
    moreover have "s \<noteq> []" "SLASH \<notin> set s" using good [of s] unfolding s by simp_all
    then have "\<not> starts_with_slash r" "r \<noteq> []"
      unfolding *(3) s by (cases ss; cases s; simp)+
    ultimately show ?thesis using fold by (simp add: cd_def)
  qed
qed

lemma resolve_one: "canonical d \<Longrightarrow>
  posix_resolve (Inr d) [JStr p] = Inr (absolute_path (cd (resolve_segments False (segments d)) p))"
  using posix_resolve_cd_aux [of d "[p]"] by simp

lemma cd_normal: "\<forall>x \<in> set D. normal_seg x \<Longrightarrow> \<forall>x \<in> set (cd D p). normal_seg x"
  using resolve_normal [of p] foldl_keeps_normal [of "segments p" D]
  by (auto simp: cd_def dest: segments_no_slash)

subsection \<open>normalize\<close>

text \<open>A relative path resolves to some leading \<^verbatim>\<open>..\<close> and normal segments.\<close>

lemma resolve_allow_shape:
  "(\<And>s. s \<in> set ys \<Longrightarrow> SLASH \<notin> set s) \<Longrightarrow> 
   \<exists>n zs. foldl (seg_step True) (replicate m [CHAR_DOT,CHAR_DOT] @ xs) ys = replicate n [CHAR_DOT,CHAR_DOT] @ zs \<and> (\<forall>z\<in>set zs. normal_seg z)"
  if "\<forall>x \<in> set xs. normal_seg x"
  using that
proof (induction ys arbitrary: m xs)
  case Nil then show ?case by auto
next
  case (Cons y ys)
  have dot: "normal_seg y \<or> y = [] \<or> y = [CHAR_DOT] \<or> y = [CHAR_DOT,CHAR_DOT]"
    using Cons.prems(1) [of y] by (auto simp: normal_seg_def)
  have step: "\<exists>m' xs'. seg_step True (replicate m [CHAR_DOT,CHAR_DOT] @ xs) y = replicate m' [CHAR_DOT,CHAR_DOT] @ xs' \<and> (\<forall>x \<in> set xs'. normal_seg x)"
  proof (cases "y = [CHAR_DOT,CHAR_DOT]")
    case True
    show ?thesis
    proof (cases xs rule: rev_cases)
      case Nil
      then show ?thesis using True
        by (intro exI [of _ "Suc m"] exI [of _ "[]"]) (auto simp: seg_step_def replicate_append_same)
    next
      case (snoc zs z)
      then have "seg_step True (replicate m [CHAR_DOT,CHAR_DOT] @ xs) y = replicate m [CHAR_DOT,CHAR_DOT] @ zs"
        using True Cons.prems(2) by (simp add: seg_step_def normal_seg_def butlast_append)
      then show ?thesis using snoc Cons.prems(2) by auto
    qed
  next
    case False
    show ?thesis
    proof (cases "normal_seg y")
      case True
      then show ?thesis using Cons.prems(2)
        by (intro exI [of _ m] exI [of _ "xs @ [y]"]) (auto simp: seg_step_normal)
    next
      case f: False
      then have "seg_step True (replicate m [CHAR_DOT,CHAR_DOT] @ xs) y = replicate m [CHAR_DOT,CHAR_DOT] @ xs"
        using False dot by (auto simp: seg_step_def)
      then show ?thesis using Cons.prems(2) by blast
    qed
  qed
  then show ?case using Cons.IH Cons.prems(1) by (metis foldl_Cons list.set_intros(2))
qed
lemma resolve_True_fixed:
  "\<forall>z \<in> set zs. normal_seg z \<Longrightarrow>
   foldl (seg_step True) [] (replicate n [CHAR_DOT, CHAR_DOT] @ zs) = replicate n [CHAR_DOT, CHAR_DOT] @ zs"
proof -
  assume *: "\<forall>z \<in> set zs. normal_seg z"
  have "foldl (seg_step True) (replicate m [CHAR_DOT, CHAR_DOT]) (replicate n [CHAR_DOT, CHAR_DOT])
      = replicate (m + n) [CHAR_DOT, CHAR_DOT]" for m
  proof (induction n arbitrary: m)
    case (Suc n)
    have "seg_step True (replicate m [CHAR_DOT, CHAR_DOT]) [CHAR_DOT, CHAR_DOT] = replicate (Suc m) [CHAR_DOT, CHAR_DOT]"
      by (auto simp: seg_step_def replicate_append_same)
    then show ?case using Suc [of "Suc m"] by simp
  qed simp
  from this [of 0] have "foldl (seg_step True) [] (replicate n [CHAR_DOT, CHAR_DOT]) = replicate n [CHAR_DOT, CHAR_DOT]"
    by simp
  then show ?thesis using foldl_normal [OF *] by simp
qed

lemma resolve_fixed:
  "foldl (seg_step allow) [] (resolve_segments allow (segments p)) = resolve_segments allow (segments p)"
proof (cases allow)
  case True
  obtain n zs where "resolve_segments True (segments p) = replicate n [CHAR_DOT, CHAR_DOT] @ zs" "\<forall>z \<in> set zs. normal_seg z"
    using resolve_allow_shape [of "[]" "segments p" 0] segments_no_slash by (auto simp: resolve_segments_def)
  then show ?thesis using True resolve_True_fixed by simp
next
  case False
  then show ?thesis using foldl_normal [OF resolve_normal] by simp
qed

lemma resolve_parts:
  assumes "s \<in> set (resolve_segments allow (segments p))"
  shows "s \<noteq> [] \<and> SLASH \<notin> set s"
  using stack_ok_resolve [of "segments p" "\<lambda>c. c = SLASH" allow] assms segments_no_slash
  unfolding stack_ok_def by metis

lemma last_join: "xs \<noteq> [] \<Longrightarrow> last xs \<noteq> [] \<Longrightarrow> last (join sep xs) = last (last xs)"
  by (cases xs rule: rev_cases) (auto simp: join_snoc)

lemma charCodeAt_last: "charCodeAt p (int (length p) - 1) = (if p = [] then None else Some (last p))"
  by (cases p rule: rev_cases) (simp_all add: charCodeAt_def nth_append)

text \<open>The normal form over the resolved segments.\<close>

definition normal_form :: "bool \<Rightarrow> bool \<Rightarrow> jsstring list \<Rightarrow> jsstring" where
  "normal_form isabs trail xs = (if isabs then [SLASH] else []) @
     (if xs = [] then (if isabs then [] else [CHAR_DOT] @ (if trail then [SLASH] else []))
      else join [SLASH] xs @ (if trail then [SLASH] else []))"

lemma posix_normalize_normal_form:
  "p \<noteq> [] \<Longrightarrow> posix_normalize_string p =
     normal_form (starts_with_slash p) (last p = SLASH) (resolve_segments (\<not> starts_with_slash p) (segments p))"
proof -
  have "join [SLASH] (resolve_segments allow (segments p)) = [] \<longleftrightarrow> resolve_segments allow (segments p) = []" for allow
    by (rule join_eq_Nil) (use resolve_parts in blast)
  moreover assume "p \<noteq> []"
  ultimately show ?thesis
    unfolding posix_normalize_string_def Let_def normalizeString_posix charCodeAt_last normal_form_def
      starts_with_slash_def by simp
qed

lemma segments_normal_form:
  assumes "\<And>s. s \<in> set xs \<Longrightarrow> s \<noteq> [] \<and> SLASH \<notin> set s" "xs \<noteq> []"
  shows "segments (normal_form isabs trail xs) = (if isabs then [[]] else []) @ xs @ (if trail then [[]] else [])"
proof -
  have "segments [] = [[]]" by (simp add: segments_def)
  moreover have "segments (join [SLASH] xs) = xs" using assms by (intro segments_join) auto
  ultimately show ?thesis using assms segments_slash [of "join [SLASH] xs" "[]"]
    by (simp add: normal_form_def segments_Cons)
qed

lemma normal_form_ends:
  assumes "\<And>s. s \<in> set xs \<Longrightarrow> s \<noteq> [] \<and> SLASH \<notin> set s" "xs \<noteq> []"
  shows "normal_form isabs trail xs \<noteq> []" "starts_with_slash (normal_form isabs trail xs) = isabs"
    "last (normal_form isabs trail xs) = SLASH \<longleftrightarrow> trail"
proof -
  obtain x xs' where x: "xs = x # xs'" using assms(2) by (cases xs) auto
  obtain c x' where c: "x = c # x'" "c \<noteq> SLASH" using assms(1) [of x] x by (cases x) auto
  have "hd (join [SLASH] xs) = c" "join [SLASH] xs \<noteq> []" using x c by (cases xs'; simp)+
  moreover have "last xs \<noteq> []" "SLASH \<notin> set (last xs)"
    using assms(1) [OF last_in_set [OF assms(2)]] by auto
  then have "last (join [SLASH] xs) \<noteq> SLASH"
    using last_join [OF assms(2), of "[SLASH]"] last_in_set [of "last xs"] by metis
  ultimately show "normal_form isabs trail xs \<noteq> []" "starts_with_slash (normal_form isabs trail xs) = isabs"
    "last (normal_form isabs trail xs) = SLASH \<longleftrightarrow> trail"
    using c(2) assms(2) by (cases "join [SLASH] xs"; auto simp: normal_form_def)+
qed

lemma normalize_fixed:
  assumes xs: "\<And>s. s \<in> set xs \<Longrightarrow> s \<noteq> [] \<and> SLASH \<notin> set s"
    and fixed: "foldl (seg_step (\<not> isabs)) [] xs = xs"
  shows "posix_normalize_string (normal_form isabs trail xs) = normal_form isabs trail xs"
proof (cases "xs = []")
  case True
  have "\<forall>isabs trail. posix_normalize_string (normal_form isabs trail []) = normal_form isabs trail []"
    by code_simp
  then show ?thesis using True by simp
next
  case False
  let ?q = "normal_form isabs trail xs"
  have "resolve_segments (\<not> isabs) (segments ?q) = xs"
    using segments_normal_form [OF xs False, of isabs trail] fixed
    by (cases isabs) (simp_all add: resolve_segments_def seg_step_def [of _ _ "[]"])
  then show ?thesis
    using posix_normalize_normal_form [of ?q] normal_form_ends [OF xs False, of isabs trail] by simp
qed

text \<open>
  C13: \<open>normalize\<close> is idempotent, on every string: its result is a normal form.
\<close>

theorem posix_normalize_idempotent:
  "bind (posix_normalize p) (\<lambda>q. posix_normalize (JStr q)) = posix_normalize p"
proof (cases p)
  case (JStr s)
  have "posix_normalize_string (posix_normalize_string s) = posix_normalize_string s"
  proof (cases "s = []")
    case True
    show ?thesis unfolding True by code_simp
  next
    case False
    show ?thesis unfolding posix_normalize_normal_form [OF False]
      by (rule normalize_fixed) (use resolve_parts resolve_fixed in blast)+
  qed
  then show ?thesis using JStr by (simp add: posix_normalize_def)
qed (simp_all add: posix_normalize_def validateString_def)

text \<open>Normalizing keeps the meaning.\<close>

lemma seg_step_commute:
  assumes "s \<noteq> [CHAR_DOT, CHAR_DOT] \<or> ys = [] \<or> last ys = [CHAR_DOT, CHAR_DOT] \<or> normal_seg (last ys)"
  shows "foldl (seg_step False) D (seg_step True ys s) = seg_step False (foldl (seg_step False) D ys) s"
  using assms by (cases ys rule: rev_cases) (auto simp: seg_step_def normal_seg_def split: if_splits)

lemma resolve_True_last:
  assumes "\<And>s. s \<in> set ss \<Longrightarrow> SLASH \<notin> set s"
  shows "resolve_segments True ss = [] \<or> last (resolve_segments True ss) = [CHAR_DOT, CHAR_DOT]
    \<or> normal_seg (last (resolve_segments True ss))"
proof -
  obtain n zs where "resolve_segments True ss = replicate n [CHAR_DOT, CHAR_DOT] @ zs" "\<forall>z \<in> set zs. normal_seg z"
    using resolve_allow_shape [of "[]" ss 0] assms by (auto simp: resolve_segments_def)
  then show ?thesis by (cases zs rule: rev_cases; cases n) auto
qed

lemma resolve_True_meaning:
  "(\<And>s. s \<in> set ss \<Longrightarrow> SLASH \<notin> set s) \<Longrightarrow>
   foldl (seg_step False) D (resolve_segments True ss) = foldl (seg_step False) D ss"
proof (induction ss rule: rev_induct)
  case (snoc s ss)
  have "resolve_segments True (ss @ [s]) = seg_step True (resolve_segments True ss) s"
    by (simp add: resolve_segments_def)
  then show ?case
    using snoc resolve_True_last [of ss] seg_step_commute [of s "resolve_segments True ss" D] by simp
qed (simp add: resolve_segments_def)

lemma cd_normalize: "cd D (posix_normalize_string p) = cd D p"
proof (cases "p = []")
  case True
  then show ?thesis
    by (simp add: posix_normalize_string_def cd_def) (simp add: segments_def seg_step_def)
next
  case False
  let ?a = "starts_with_slash p" let ?xs = "resolve_segments (\<not> ?a) (segments p)"
  let ?t = "last p = SLASH"
  have N: "posix_normalize_string p = normal_form ?a ?t ?xs" by (rule posix_normalize_normal_form [OF False])
  have segs: "\<And>s. s \<in> set ?xs \<Longrightarrow> s \<noteq> [] \<and> SLASH \<notin> set s" by (rule resolve_parts)
  have rel: "foldl (seg_step False) D (resolve_segments True (segments p)) = foldl (seg_step False) D (segments p)"
    by (rule resolve_True_meaning) (rule segments_no_slash)
  show ?thesis
  proof (cases "?xs = []")
    case True
    have "cd D (normal_form False t []) = D" "cd D (normal_form True t []) = []" for t
      by (cases t; simp add: normal_form_def cd_def; simp add: segments_def resolve_segments_def seg_step_def)+
    then show ?thesis using True N False rel by (cases ?a) (simp_all add: cd_def)
  next
    case ne: False
    have "foldl (seg_step False) E (segments (normal_form ?a ?t ?xs)) = foldl (seg_step False) E ?xs" for E
      using segments_normal_form [OF segs ne, of ?a ?t] by (simp add: seg_step_def [of _ _ "[]"])
    then show ?thesis
      using N normal_form_ends [OF segs ne, of ?a ?t] rel False resolve_fixed [of False p]
      by (cases ?a) (simp_all add: cd_def resolve_segments_def)
  qed
qed

text \<open>
  Normalizing the arguments does not change what \<open>resolve\<close> answers.
\<close>

lemma posix_resolve_normalize:
  assumes "canonical d"
  shows "posix_resolve (Inr d) (map (\<lambda>p. JStr (posix_normalize_string p)) ps) = posix_resolve (Inr d) (map JStr ps)"
proof -
  have "foldl cd D (map posix_normalize_string ps) = foldl cd D ps" for D
    by (induction ps arbitrary: D) (simp_all add: cd_normalize)
  then show ?thesis
    using posix_resolve_cd_aux [OF assms, of "map posix_normalize_string ps"] posix_resolve_cd_aux [OF assms, of ps]
    by (simp add: comp_def)
qed

lemma posix_resolve_normalize_witness:
  "posix_resolve (Inr (js ''/u'')) [JStr (posix_normalize_string (js ''a//../b/''))]
     = posix_resolve (Inr (js ''/u'')) [JStr (js ''a//../b/'')]"
proof -
  have "canonical (js ''/u'')" by code_simp
  then show ?thesis using posix_resolve_normalize [of "js ''/u''" "[js ''a//../b/'']"] by simp
qed

text \<open>
  C6: following the answer of \<open>relative(from, to)\<close> from \<open>from\<close> leads to \<open>to\<close>: \<open>relative\<close> always returns
  when the working directory is canonical, and \<open>resolve(from, relative(from, to))\<close> is
  \<open>resolve(to)\<close>, for all strings.
\<close>

theorem posix_relative_resolve:
  assumes "canonical d"
  shows "\<exists>r. posix_relative (Inr d) (JStr f) (JStr t) = Inr r \<and>
    posix_resolve (Inr d) [JStr f, JStr r] = posix_resolve (Inr d) [JStr t]"
proof -
  let ?D = "resolve_segments False (segments d)"
  have normal: "\<forall>x \<in> set (cd ?D p). normal_seg x" for p
    by (rule cd_normal) (rule resolve_normal)
  have two: "posix_resolve (Inr d) [JStr f, JStr r] = Inr (absolute_path (cd (cd ?D f) r))" for r
    using posix_resolve_cd_aux [OF assms, of "[f, r]"] by simp
  show ?thesis
  proof (cases "f = t")
    case True
    then show ?thesis using two [of "[]"] by (simp add: posix_relative_def resolve_one [OF assms] cd_def)
  next
    case False
    let ?r = "posix_relative_resolved (absolute_path (cd ?D f)) (absolute_path (cd ?D t))"
    have "cd (cd ?D f) ?r = cd ?D t"
      by (rule cd_relative [OF relative_segments]) (use normal in auto)
    then show ?thesis using False two by (simp add: posix_relative_def resolve_one [OF assms])
  qed
qed

lemma posix_relative_resolve_witness:
  "posix_relative (Inr (js ''/home/u'')) (JStr (js ''../a/b'')) (JStr (js ''/home/c'')) = Inr (js ''../../c'') \<and>
   posix_resolve (Inr (js ''/home/u'')) [JStr (js ''../a/b''), JStr (js ''../../c'')]
     = posix_resolve (Inr (js ''/home/u'')) [JStr (js ''/home/c'')]"
proof -
  have c: "canonical (js ''/home/u'')" by code_simp
  have "posix_relative (Inr (js ''/home/u'')) (JStr (js ''../a/b'')) (JStr (js ''/home/c'')) = Inr (js ''../../c'')"
    by code_simp
  then show ?thesis using posix_relative_resolve [OF c, of "js ''../a/b''" "js ''/home/c''"] by simp
qed

text \<open>
  C5: with a canonical working directory, \<open>resolve\<close> never fails on strings and is the list
  machine of \<^verbatim>\<open>cd\<close>: an absolute argument replaces the segments, a relative one walks down from
  them, an empty one is skipped.
\<close>

theorem posix_resolve_cd:
  assumes "canonical d"
  shows "posix_resolve (Inr d) (map JStr ps)
    = Inr (absolute_path (foldl cd (resolve_segments False (segments d)) ps))"
  using assms by (rule posix_resolve_cd_aux)

lemma posix_resolve_cd_witness:
  "posix_resolve (Inr (js ''/home/u'')) [JStr (js ''a/./b''), JStr (js ''../c''), JStr []] = Inr (js ''/home/u/a/c'')"
proof -
  have c: "canonical (js ''/home/u'')" by code_simp
  have "absolute_path (foldl cd (resolve_segments False (segments (js ''/home/u''))) [js ''a/./b'', js ''../c'', []])
      = js ''/home/u/a/c''" by code_simp
  then show ?thesis using posix_resolve_cd [OF c, of "[js ''a/./b'', js ''../c'', []]"] by simp
qed

end
