(* ===== verification/PathScans.thy ===== *)
theory PathScans
  imports PathPosixProps
begin

text \<open>
  What the backward scans of \<^verbatim>\<open>dirname\<close>, \<^verbatim>\<open>basename\<close>, \<^verbatim>\<open>extname\<close> and \<^verbatim>\<open>parse\<close> find. A path is
  a directory part, a last component and trailing separators; every scan is described
  once over that decomposition, for any separator test, and the properties follow.
\<close>

subsection \<open>The decomposition\<close>

definition comp_parts :: "(nat \<Rightarrow> bool) \<Rightarrow> jsstring \<Rightarrow> jsstring \<Rightarrow> jsstring \<Rightarrow> jsstring \<Rightarrow> bool" where
  "comp_parts isSep p d c t \<longleftrightarrow> p = d @ c @ t \<and> c \<noteq> [] \<and> (\<forall>x \<in> set c. \<not> isSep x) \<and>
     (\<forall>x \<in> set t. isSep x) \<and> (d = [] \<or> isSep (last d))"

lemma split_suffix: "\<exists>u t. s = u @ t \<and> (\<forall>x \<in> set t. P x) \<and> (u = [] \<or> \<not> P (last u))"
proof (induction s rule: rev_induct)
  case (snoc c s)
  show ?case
  proof (cases "P c")
    case True
    obtain u t where "s = u @ t" "\<forall>x \<in> set t. P x" "u = [] \<or> \<not> P (last u)" using snoc by blast
    then show ?thesis using True by (intro exI [of _ u] exI [of _ "t @ [c]"]) auto
  next
    case False
    then show ?thesis by (intro exI [of _ "s @ [c]"] exI [of _ "[]"]) auto
  qed
qed simp

lemma comp_parts_cases:
  obtains "\<forall>x \<in> set p. isSep x" | d c t where "comp_parts isSep p d c t"
proof -
  obtain u t where ut: "p = u @ t" "\<forall>x \<in> set t. isSep x" "u = [] \<or> \<not> isSep (last u)"
    using split_suffix [of p isSep] by blast
  obtain d c where dc: "u = d @ c" "\<forall>x \<in> set c. \<not> isSep x" "d = [] \<or> isSep (last d)"
    using split_suffix [of u "\<lambda>x. \<not> isSep x"] by blast
  show ?thesis
  proof (cases "c = []")
    case True
    then have "u = []" using ut(3) dc by auto
    then show ?thesis using ut that(1) by simp
  next
    case False
    then show ?thesis using ut dc that(2) [of d c t] by (simp add: comp_parts_def)
  qed
qed

lemma comp_parts_nth:
  assumes "comp_parts isSep p d c t"
  shows "\<And>i. length (d @ c) \<le> i \<Longrightarrow> i < length p \<Longrightarrow> isSep (p ! i)"
    and "\<And>i. length d \<le> i \<Longrightarrow> i < length (d @ c) \<Longrightarrow> \<not> isSep (p ! i)"
    and "d \<noteq> [] \<Longrightarrow> isSep (p ! (length d - 1))"
  using assms by (auto simp: comp_parts_def nth_append last_conv_nth)

subsection \<open>basename and dirname scans\<close>

lemma basename_scan_skip:
  "(\<And>i. m \<le> i \<Longrightarrow> i < k \<Longrightarrow> isSep (p ! i)) \<Longrightarrow> low \<le> m \<Longrightarrow> m \<le> k \<Longrightarrow>
   basename_scan isSep p low k True e = basename_scan isSep p low m True e"
  by (induction k) (auto simp: le_Suc_eq)

lemma basename_scan_comp:
  "(\<And>i. m \<le> i \<Longrightarrow> i < k \<Longrightarrow> \<not> isSep (p ! i)) \<Longrightarrow> low \<le> m \<Longrightarrow> m \<le> k \<Longrightarrow> e \<noteq> -1 \<Longrightarrow>
   basename_scan isSep p low k False e = basename_scan isSep p low m False e"
  by (induction k) (auto simp: le_Suc_eq)

lemma basename_scan_stop:
  "m = low \<or> (low < m \<and> isSep (p ! (m - 1))) \<Longrightarrow> basename_scan isSep p low m False e = (int m, e)"
  by (cases m) auto

lemma basename_scan_parts:
  assumes "comp_parts isSep p d c t" "low \<le> length d"
  shows "basename_scan isSep p low (length p) True (-1) = (int (length d), int (length (d @ c)))"
proof -
  note nth = comp_parts_nth [OF assms(1)]
  have p: "length (d @ c) \<le> length p" "c \<noteq> []" using assms(1) by (auto simp: comp_parts_def)
  obtain k where k: "length (d @ c) = Suc k" "length d \<le> k" using p(2) by (cases c) auto
  have "basename_scan isSep p low (length p) True (-1) = basename_scan isSep p low (Suc k) True (-1)"
    using nth(1) p assms(2) k by (intro basename_scan_skip) auto
  also have "\<dots> = basename_scan isSep p low k False (int (Suc k))"
    using nth(2) [of k] k assms(2) by (simp add: add.commute)
  also have "\<dots> = basename_scan isSep p low (length d) False (int (Suc k))"
    using nth(2) k assms(2) by (intro basename_scan_comp) auto
  also have "\<dots> = (int (length d), int (Suc k))"
    using nth(3) assms(2) by (intro basename_scan_stop) (cases d; auto)
  finally show ?thesis using k by simp
qed

lemma basename_scan_all:
  "\<forall>x \<in> set p. isSep x \<Longrightarrow> low \<le> length p \<Longrightarrow> basename_scan isSep p low (length p) True (-1) = (int low, -1)"
  using basename_scan_skip [of low "length p" isSep p low "-1"] by (cases low) simp_all

lemma dirname_scan_skip:
  "(\<And>i. m \<le> i \<Longrightarrow> i < k \<Longrightarrow> isSep (p ! i)) \<Longrightarrow> low \<le> m \<Longrightarrow> m \<le> k \<Longrightarrow>
   dirname_scan isSep p low k True = dirname_scan isSep p low m True"
  by (induction k) (auto simp: le_Suc_eq)

lemma dirname_scan_comp:
  "(\<And>i. m \<le> i \<Longrightarrow> i < k \<Longrightarrow> \<not> isSep (p ! i)) \<Longrightarrow> low \<le> m \<Longrightarrow> m \<le> k \<Longrightarrow>
   dirname_scan isSep p low k False = dirname_scan isSep p low m False"
  by (induction k) (auto simp: le_Suc_eq)

lemma dirname_scan_low: "k \<le> low \<Longrightarrow> dirname_scan isSep p low k b = -1"
  by (cases k) auto

lemma dirname_scan_parts:
  assumes "comp_parts isSep p d c t"
  shows "dirname_scan isSep p low (length p) True = (if low < length d then int (length d) - 1 else -1)"
proof -
  note nth = comp_parts_nth [OF assms(1)]
  have p: "length (d @ c) \<le> length p" "c \<noteq> []" using assms(1) by (auto simp: comp_parts_def)
  obtain k where k: "length (d @ c) = Suc k" "length d \<le> k" using p(2) by (cases c) auto
  show ?thesis
  proof (cases "low \<le> k")
    case True
    let ?m = "max low (length d)"
    have "dirname_scan isSep p low (length p) True = dirname_scan isSep p low (Suc k) True"
      using nth(1) p True k by (intro dirname_scan_skip) auto
    also have "\<dots> = dirname_scan isSep p low k False"
      using nth(2) [of k] k True by simp
    also have "\<dots> = dirname_scan isSep p low ?m False"
      using nth(2) k True by (intro dirname_scan_comp) auto
    also have "\<dots> = (if low < length d then int (length d) - 1 else -1)"
    proof (cases "low < length d")
      case True
      then obtain n where "length d = Suc n" "low \<le> n" by (cases "length d") auto
      moreover from this have "isSep (p ! n)" using nth(3) by (cases d) auto
      ultimately show ?thesis using True by auto
    qed (simp add: dirname_scan_low)
    finally show ?thesis .
  next
    case False
    then have "dirname_scan isSep p low (length p) True = dirname_scan isSep p low (min low (length p)) True"
      using nth(1) k by (cases "low \<le> length p") (auto intro!: dirname_scan_skip simp: min_def)
    then show ?thesis using False k by (simp add: dirname_scan_low)
  qed
qed

lemma dirname_scan_all: "\<forall>x \<in> set p. isSep x \<Longrightarrow> dirname_scan isSep p low (length p) True = -1"
  using dirname_scan_skip [of low "length p" isSep p low]
  by (cases "low \<le> length p") (simp_all add: dirname_scan_low)

subsection \<open>The extension scan\<close>

text \<open>The component is read backwards; \<open>ext_chars\<close> is what the characters do to the state.\<close>

lemma ext_scan_skip:
  "(\<And>i. m \<le> i \<Longrightarrow> i < k \<Longrightarrow> isSep (p ! i)) \<Longrightarrow> low \<le> m \<Longrightarrow> m \<le> k \<Longrightarrow> matchedSlash st \<Longrightarrow>
   ext_scan isSep p low k st = ext_scan isSep p low m st"
  by (induction k) (auto simp: le_Suc_eq)

fun ext_chars :: "jsstring \<Rightarrow> nat \<Rightarrow> ext_state \<Rightarrow> ext_state" where
  "ext_chars [] m st = st"
| "ext_chars (x # c) m st = ext_char m x (ext_chars c (Suc m) st)"

lemma ext_chars_snoc: "ext_chars (c @ [x]) m st = ext_chars c m (ext_char (m + length c) x st)"
  by (induction c arbitrary: m) auto

lemma ext_scan_comp:
  "p = d @ c @ t \<Longrightarrow> \<forall>x \<in> set c. \<not> isSep x \<Longrightarrow> low \<le> length d \<Longrightarrow>
   ext_scan isSep p low (length d + length c) st = ext_scan isSep p low (length d) (ext_chars c (length d) st)"
proof (induction c arbitrary: t st rule: rev_induct)
  case (snoc x c)
  have "p ! (length d + length c) = x" using snoc.prems(1) by (simp add: nth_append)
  then show ?case using snoc.IH [of "x # t"] snoc.prems by (simp add: ext_chars_snoc)
qed simp

definition ext_result :: "jsstring \<Rightarrow> nat \<Rightarrow> ext_state" where
  "ext_result c m = (let k = lastIndexOf c CHAR_DOT in
     \<lparr>startDot = (if k = -1 then -1 else int m + k), startPart = 0, endPos = int (m + length c), matchedSlash = False,
      preDotState = (if k \<le> 0 then 0 else if hd c = CHAR_DOT then 1 else -1)\<rparr>)"

lemma ext_chars_result: "c \<noteq> [] \<Longrightarrow> ext_chars c m (ext_init 0) = ext_result c m"
proof (induction c arbitrary: m)
  case (Cons x c)
  have ge: "lastIndexOf c CHAR_DOT \<ge> -1" by (rule lastIndexOf_ge)
  show ?case
  proof (cases "c = []")
    case True
    then show ?thesis by (simp add: ext_char_def ext_init_def ext_result_def)
  next
    case False
    then have "lastIndexOf c CHAR_DOT = 0 \<Longrightarrow> hd c = CHAR_DOT"
      using lastIndexOf_nth [of c CHAR_DOT 0] by (simp add: hd_conv_nth)
    then show ?thesis using False Cons.IH [of "Suc m"] ge
      by (auto simp: ext_char_def ext_result_def Let_def)
  qed
qed simp

text \<open>The extension of a component: from its last dot, unless that is the first character or the component is \<^verbatim>\<open>..\<close>.\<close>

definition ext_of :: "jsstring \<Rightarrow> jsstring" where
  "ext_of c = (let k = lastIndexOf c CHAR_DOT in
     if k \<le> 0 \<or> c = [CHAR_DOT, CHAR_DOT] then [] else drop (nat k) c)"

lemma ext_scan_parts:
  assumes "comp_parts isSep p d c t" "low \<le> length d"
  shows "ext_scan isSep p low (length p) (ext_init 0)
    = (ext_result c (length d))\<lparr>startPart := (if low < length d then int (length d) else 0)\<rparr>"
proof -
  have p: "length (d @ c) \<le> length p" "c \<noteq> []" "p = d @ c @ t" "\<forall>x \<in> set c. \<not> isSep x"
    using assms(1) by (auto simp: comp_parts_def)
  have "ext_scan isSep p low (length p) (ext_init 0) = ext_scan isSep p low (length d + length c) (ext_init 0)"
    using comp_parts_nth(1) [OF assms(1)] p assms(2) by (intro ext_scan_skip) (auto simp: ext_init_def)
  also have "\<dots> = ext_scan isSep p low (length d) (ext_result c (length d))"
    using ext_scan_comp [OF p(3,4) assms(2)] ext_chars_result [OF p(2)] by simp
  also have "\<dots> = (ext_result c (length d))\<lparr>startPart := (if low < length d then int (length d) else 0)\<rparr>"
    using comp_parts_nth(3) [OF assms(1)] assms(2)
    by (cases d rule: rev_cases) (auto simp: ext_result_def Let_def)
  finally show ?thesis .
qed

lemma ext_scan_all:
  assumes "\<forall>x \<in> set p. isSep x"
  shows "ext_scan isSep p low (length p) (ext_init 0) = ext_init 0"
proof -
  have "ext_scan isSep p low k (ext_init 0) = ext_init 0" if "k \<le> length p" for k
    using that assms by (induction k) (auto simp: ext_init_def)
  then show ?thesis by simp
qed

lemma no_ext_result:
  assumes "c \<noteq> []"
  shows "no_ext ((ext_result c n)\<lparr>startPart := int n\<rparr>) \<longleftrightarrow> ext_of c = []"
    and "no_ext ((ext_result c (Suc n))\<lparr>startPart := int n\<rparr>) \<longleftrightarrow> ext_of c = [] \<and> c \<noteq> [CHAR_DOT, CHAR_DOT]"
proof -
  let ?k = "lastIndexOf c CHAR_DOT"
  have k: "?k \<ge> -1" "?k \<noteq> -1 \<Longrightarrow> 0 \<le> ?k \<and> ?k < int (length c) \<and> c ! nat ?k = CHAR_DOT"
    using lastIndexOf_ge lastIndexOf_nth by blast+
  have dots: "hd c = CHAR_DOT \<and> ?k = 1 \<and> length c = 2 \<longleftrightarrow> c = [CHAR_DOT, CHAR_DOT]"
    using k(2) by (auto simp: length_Suc_conv numeral_2_eq_2)
  have nil: "drop (nat ?k) c = [] \<longleftrightarrow> False" if "?k > 0" using k(2) that by auto
  show "no_ext ((ext_result c n)\<lparr>startPart := int n\<rparr>) \<longleftrightarrow> ext_of c = []"
    unfolding dots [symmetric] no_ext_def ext_of_def ext_result_def Let_def using k(1) nil by auto
  show "no_ext ((ext_result c (Suc n))\<lparr>startPart := int n\<rparr>) \<longleftrightarrow> ext_of c = [] \<and> c \<noteq> [CHAR_DOT, CHAR_DOT]"
    unfolding dots [symmetric] no_ext_def ext_of_def ext_result_def Let_def using k(1) nil by auto
qed

subsection \<open>The posix functions over the decomposition\<close>

abbreviation posix_parts :: "jsstring \<Rightarrow> jsstring \<Rightarrow> jsstring \<Rightarrow> jsstring \<Rightarrow> bool" where
  "posix_parts \<equiv> comp_parts isPosixPathSeparator"

abbreviation all_slash :: "jsstring \<Rightarrow> bool" where
  "all_slash p \<equiv> \<forall>x \<in> set p. isPosixPathSeparator x"

lemma posix_basename_parts: "posix_parts p d c t \<Longrightarrow> posix_basename_string p None = c"
  using basename_scan_parts [of isPosixPathSeparator p d c t 0]
  by (simp add: posix_basename_string_def) (simp add: comp_parts_def slice_nonneg)

lemma posix_basename_all: "all_slash p \<Longrightarrow> posix_basename_string p None = []"
  using basename_scan_all [of p isPosixPathSeparator 0] by (simp add: posix_basename_string_def)

lemma posix_extname_parts: "posix_parts p d c t \<Longrightarrow> posix_extname_string p = ext_of c"
proof -
  assume p: "posix_parts p d c t"
  have c: "c \<noteq> []" "p = d @ c @ t" using p by (auto simp: comp_parts_def)
  let ?k = "lastIndexOf c CHAR_DOT"
  have k: "?k \<noteq> -1 \<Longrightarrow> 0 \<le> ?k \<and> ?k < int (length c)" using lastIndexOf_nth by blast
  have scan: "ext_scan isPosixPathSeparator p 0 (length p) (ext_init 0)
      = (ext_result c (length d))\<lparr>startPart := int (length d)\<rparr>"
    using ext_scan_parts [OF p, of 0] by (simp add: ext_result_def Let_def)
  have "slice p (int (length d) + ?k) (int (length d + length c)) = drop (nat ?k) c" if "?k \<noteq> -1"
    using k [OF that] c(2) by (simp add: slice_nonneg nat_add_distrib)
  then show ?thesis
    using no_ext_result(1) [OF c(1), of "length d"]
    by (auto simp: posix_extname_string_def scan ext_result_def ext_of_def Let_def split: if_splits)
qed

lemma posix_extname_all: "all_slash p \<Longrightarrow> posix_extname_string p = []"
  using ext_scan_all [of p isPosixPathSeparator 0] by (simp add: posix_extname_string_def ext_init_def)

lemma posix_dirname_parts:
  "posix_parts p d c t \<Longrightarrow> posix_dirname_string p =
     (if d = [] then [CHAR_DOT] else if d = [SLASH] \<or> d = [SLASH, SLASH] then d else butlast d)"
proof -
  assume p: "posix_parts p d c t"
  have c: "c \<noteq> []" "p = d @ c @ t" "\<forall>x \<in> set c. x \<noteq> SLASH" "d \<noteq> [] \<Longrightarrow> last d = SLASH"
    using p by (auto simp: comp_parts_def)
  have "slice p 0 (int (length d) - 1) = butlast d" if "d \<noteq> []"
    using that c(2) by (cases d) (simp_all add: slice_zero butlast_conv_take take_Cons')
  then show ?thesis
    unfolding posix_dirname_string_def Let_def dirname_scan_parts [OF p, of 1] using c
    by (cases d; cases "tl d"; cases c) (auto simp: charCodeAt_0 Suc_le_eq)
qed

lemma posix_dirname_all: "all_slash p \<Longrightarrow> posix_dirname_string p = (if p = [] then [CHAR_DOT] else [SLASH])"
  using dirname_scan_all [of p isPosixPathSeparator 1]
  by (cases p) (auto simp: posix_dirname_string_def charCodeAt_0)

text \<open>\<open>parse\<close> skips the root before it scans.\<close>

definition at_root :: "jsstring \<Rightarrow> bool" where
  "at_root d \<longleftrightarrow> d = [SLASH]"

lemma posix_parse_parts:
  assumes p: "posix_parts p d c t"
  shows "posix_parse_string p =
    (let e = (if at_root d \<and> c = [CHAR_DOT, CHAR_DOT] then [CHAR_DOT] else ext_of c) in
     \<lparr>root = (if starts_with_slash p then [SLASH] else []),
      dir = (if d = [] then [] else if at_root d then d else butlast d),
      base = c, ext = e, name = take (length c - length e) c\<rparr>)"
proof -
  have c: "c \<noteq> []" "p = d @ c @ t" "\<forall>x \<in> set c. x \<noteq> SLASH" "d \<noteq> [] \<Longrightarrow> last d = SLASH" "p \<noteq> []"
    using p by (auto simp: comp_parts_def)
  let ?k = "lastIndexOf c CHAR_DOT" and ?isAbs = "starts_with_slash p" and ?n = "length d"
  let ?low = "if ?isAbs then 1 else 0::nat"
  have k: "?k \<ge> -1" "?k \<noteq> -1 \<Longrightarrow> 0 \<le> ?k \<and> ?k < int (length c)" using lastIndexOf_nth lastIndexOf_ge by blast+
  have isabs: "?isAbs \<Longrightarrow> d \<noteq> [] \<and> hd d = SLASH" "\<not> ?isAbs \<Longrightarrow> d \<noteq> [SLASH]"
    using c by (cases d; cases c; auto)+
  then have low: "?low \<le> ?n" by (cases d) auto
  have cases: "?low < ?n \<longleftrightarrow> d \<noteq> [] \<and> \<not> at_root d" "at_root d \<Longrightarrow> ?isAbs"
    using isabs low c(2) by (cases d; cases "tl d"; auto simp: at_root_def)+
  define s where "s = (if ?low < ?n then int ?n else 0)"
  have scan: "ext_scan isPosixPathSeparator p ?low (length p) (ext_init 0) = (ext_result c ?n)\<lparr>startPart := s\<rparr>"
    unfolding s_def by (rule ext_scan_parts [OF p low])
  have start: "(if s = 0 \<and> ?isAbs then 1 else s) = int ?n"
  proof (cases "d = [] \<or> at_root d")
    case True
    then have "s = 0" "?isAbs \<longleftrightarrow> at_root d" using cases isabs(1) unfolding s_def by auto
    then show ?thesis using True by (auto simp: at_root_def)
  next
    case False
    then show ?thesis using cases(1) unfolding s_def by simp
  qed
  have noext: "no_ext ((ext_result c ?n)\<lparr>startPart := s\<rparr>) \<longleftrightarrow> ext_of c = [] \<and> \<not> (at_root d \<and> c = [CHAR_DOT, CHAR_DOT])"
    using no_ext_result(1) [OF c(1), of ?n] no_ext_result(2) [OF c(1), of 0] cases
    by (cases "at_root d") (auto simp: s_def at_root_def)
  have sl: "slice p (int ?n) (int (?n + length c)) = c" using c(2) by (simp add: slice_nonneg)
  have ext: "slice p (int ?n + ?k) (int (?n + length c)) = drop (nat ?k) c"
      "slice p (int ?n) (int ?n + ?k) = take (nat ?k) c" if "?k \<noteq> -1"
  proof -
    have "0 \<le> ?k" "nat ?k \<le> length c" using k(2) [OF that] by auto
    then show "slice p (int ?n + ?k) (int (?n + length c)) = drop (nat ?k) c"
      "slice p (int ?n) (int ?n + ?k) = take (nat ?k) c"
      using c(2) k(2) [OF that] by (simp_all add: slice_nonneg nat_add_distrib)
  qed
  have dir: "slice p 0 (int ?n - 1) = butlast d" if "d \<noteq> []"
    using that c(2) by (cases d) (simp_all add: slice_zero butlast_conv_take take_Cons')
  have dots: "lastIndexOf [CHAR_DOT, CHAR_DOT] CHAR_DOT = 1" "ext_of [CHAR_DOT, CHAR_DOT] = []"
    by code_simp+
  let ?st = "(ext_result c ?n)\<lparr>startPart := s\<rparr>"
  let ?e = "if at_root d \<and> c = [CHAR_DOT, CHAR_DOT] then [CHAR_DOT] else ext_of c"
  have st: "startPart ?st = s" "endPos ?st = int (?n + length c)" "startDot ?st = (if ?k = -1 then -1 else int ?n + ?k)"
    by (simp_all add: ext_result_def Let_def)
  have e: "?k \<noteq> -1 \<and> ?e = drop (nat ?k) c" if "\<not> no_ext ?st"
  proof (cases "at_root d \<and> c = [CHAR_DOT, CHAR_DOT]")
    case False
    then have "ext_of c \<noteq> []" using that noext by blast
    then show ?thesis using False by (auto simp: ext_of_def Let_def split: if_splits)
  qed (simp add: dots)
  have names: "(if no_ext ?st then r\<lparr>base := slice p (int ?n) (endPos ?st), name := slice p (int ?n) (endPos ?st)\<rparr>
      else r\<lparr>name := slice p (int ?n) (startDot ?st), base := slice p (int ?n) (endPos ?st),
             ext := slice p (startDot ?st) (endPos ?st)\<rparr>)
     = r\<lparr>base := c, ext := ?e, name := take (length c - length ?e) c\<rparr>" if "ext r = []" for r :: path_object
  proof (cases "no_ext ?st")
    case True
    then have "?e = []" using noext by auto
    then show ?thesis unfolding st sl using True that by simp
  next
    case False
    then have *: "?k \<noteq> -1" "?e = drop (nat ?k) c" using e by blast+
    moreover have "0 \<le> ?k" "nat ?k \<le> length c" using k(2) [OF *(1)] by auto
    ultimately have "length c - length ?e = nat ?k" by simp
    then show ?thesis unfolding st using False sl ext * by simp
  qed
  have dirs: "s > 0 \<longleftrightarrow> d \<noteq> [] \<and> \<not> at_root d" using cases(1) low by (auto simp: s_def)
  have root0: "?isAbs \<longleftrightarrow> at_root d" if "\<not> s > 0" using that dirs isabs(1) cases(2) by blast
  have d0: "d = [] \<or> d = [SLASH]" if "\<not> s > 0" using that dirs by (auto simp: at_root_def)
  have end': "endPos ?st \<noteq> -1" "length p \<noteq> 0" using c(5) st by simp_all
  have sdir: "slice p 0 (s - 1) = butlast d" if "s > 0" using that dir dirs by (auto simp: s_def split: if_splits)
  show ?thesis
    unfolding posix_parse_string_def Let_def starts_with_slash_def [symmetric] scan
    unfolding st(1) start if_P [OF end'(1)] if_not_P [OF end'(2)]
    unfolding names [of "\<lparr>root = if ?isAbs then [SLASH] else [], dir = [], base = [], ext = [], name = []\<rparr>", OF path_object.select_convs(4)]
    using sdir dirs root0 d0 by (cases "s > 0") (auto simp: at_root_def Let_def)
qed

lemma posix_parse_all:
  "all_slash p \<Longrightarrow> posix_parse_string p =
    \<lparr>root = (if p = [] then [] else [SLASH]), dir = (if p = [] then [] else [SLASH]), base = [], ext = [], name = []\<rparr>"
  using ext_scan_all [of p isPosixPathSeparator 1]
  by (cases p) (auto simp: posix_parse_string_def ext_init_def charCodeAt_0)

subsection \<open>What the pieces of a path mean\<close>

lemma segments_trailing: "all_slash t \<Longrightarrow> segments (u @ t) = segments u @ replicate (length t) []"
proof (induction t rule: rev_induct)
  case (snoc x t)
  then have "segments (u @ t @ [x]) = segments (u @ t) @ [[]]"
    using segments_slash [of "u @ t" "[]"] by (simp add: segments_def)
  then show ?case using snoc by (simp add: replicate_append_same)
qed simp

lemma foldl_seg_empty: "foldl (seg_step allow) D (replicate n []) = D"
  by (induction n) (simp_all add: seg_step_def)

definition walk :: "jsstring list \<Rightarrow> jsstring \<Rightarrow> jsstring list" where
  "walk D p = foldl (seg_step False) D (segments p)"

lemma cd_walk: "cd D p = walk (if starts_with_slash p then [] else D) p"
  by (simp add: cd_def walk_def resolve_segments_def) (simp add: segments_def seg_step_def)

lemma walk_slash: "walk D (p @ SLASH # q) = walk (walk D p) q"
  by (simp add: walk_def segments_slash)

lemma walk_trailing: "all_slash t \<Longrightarrow> walk D (u @ t) = walk D u"
  by (simp add: walk_def segments_trailing foldl_seg_empty)

lemma walk_all: "all_slash t \<Longrightarrow> walk D t = D"
  using walk_trailing [of t D "[]"] by (simp add: walk_def segments_def seg_step_def)

lemma walk_comp: "\<forall>x \<in> set c. \<not> isPosixPathSeparator x \<Longrightarrow> walk D c = seg_step False D c"
  using split_on_single [of c isPosixPathSeparator] by (simp add: walk_def segments_def)

lemma walk_parts:
  assumes "posix_parts p d c t"
  shows "walk D p = seg_step False (walk D d) c"
proof -
  have p: "p = (d @ c) @ t" "all_slash t" "\<forall>x \<in> set c. \<not> isPosixPathSeparator x" "d = [] \<or> last d = SLASH"
    using assms by (auto simp: comp_parts_def)
  have "walk D (d @ c) = seg_step False (walk D d) c"
  proof (cases d rule: rev_cases)
    case Nil
    then show ?thesis using walk_comp [OF p(3)] by (simp add: walk_all)
  next
    case (snoc d' x)
    then show ?thesis using p(4) walk_slash [of D d' c] walk_slash [of D d' "[]"] walk_comp [OF p(3)]
      by (simp add: walk_all)
  qed
  then show ?thesis using walk_trailing [OF p(2), of D "d @ c"] p(1) by simp
qed

lemma starts_with_slash_append: "u \<noteq> [] \<Longrightarrow> starts_with_slash (u @ v) = starts_with_slash u"
  by (cases u) auto

lemma cd_parts:
  assumes "posix_parts p d c t"
  shows "cd D p = seg_step False (walk (if starts_with_slash d then [] else D) d) c"
proof -
  have "starts_with_slash p = starts_with_slash d"
    using assms by (cases d; cases c) (auto simp: comp_parts_def)
  then show ?thesis using walk_parts [OF assms] by (simp add: cd_walk)
qed

lemma cd_comp: "c \<noteq> [] \<Longrightarrow> \<forall>x \<in> set c. \<not> isPosixPathSeparator x \<Longrightarrow> cd D c = seg_step False D c"
  by (cases c) (simp_all add: cd_walk walk_comp)

lemma cd_dirname:
  assumes "posix_parts p d c t"
  shows "cd D (posix_dirname_string p) = walk (if starts_with_slash d then [] else D) d"
proof -
  have c: "d = [] \<or> last d = SLASH" using assms by (auto simp: comp_parts_def)
  have walk: "walk D (butlast d) = walk D d" if "d \<noteq> []" for D
    using c that walk_slash [of D "butlast d" "[]"] append_butlast_last_id [of d] by (simp add: walk_all)
  have sws: "starts_with_slash (butlast d) = starts_with_slash d" if "butlast d \<noteq> []"
    using that starts_with_slash_append [OF that, of "[last d]"] by (cases d) auto
  have nil: "butlast d = [] \<longleftrightarrow> d = [] \<or> d = [SLASH]" using c by (cases d) auto
  show ?thesis
    unfolding posix_dirname_parts [OF assms] using walk sws nil
    by (cases "butlast d = []") (auto simp: cd_walk walk_comp seg_step_def)
qed

lemma cd_dirname_basename: "cd (cd D (posix_dirname_string p)) (posix_basename_string p None) = cd D p"
proof (cases p rule: comp_parts_cases [where isSep = isPosixPathSeparator])
  case 1
  then show ?thesis
    unfolding posix_dirname_all [OF 1] posix_basename_all [OF 1]
    by (cases p) (auto simp: cd_walk walk_all walk_comp seg_step_def)
next
  case (2 d c t)
  then have "c \<noteq> []" "\<forall>x \<in> set c. \<not> isPosixPathSeparator x" by (auto simp: comp_parts_def)
  then show ?thesis
    unfolding posix_basename_parts [OF 2] cd_dirname [OF 2] cd_parts [OF 2] by (rule cd_comp)
qed

lemma format_parse_parts:
  assumes "posix_parts p d c t"
  shows "format_object SLASH (posix_parse_string p) = (if d = [SLASH, SLASH] then [SLASH] else d) @ c"
proof -
  have c: "c \<noteq> []" "d = [] \<or> last d = SLASH" "p = d @ c @ t" "\<forall>x \<in> set c. x \<noteq> SLASH"
    using assms by (auto simp: comp_parts_def)
  have sws: "starts_with_slash p = starts_with_slash d" using c by (cases d; cases c) auto
  consider "d = []" | "d = [SLASH]" | "d = [SLASH, SLASH]" | "d \<noteq> []" "butlast d \<noteq> []" "butlast d \<noteq> [SLASH]"
    using c(2) by (cases d rule: rev_cases) auto
  then show ?thesis
  proof cases
    case 4
    then have "butlast d @ SLASH # c = d @ c" "d \<noteq> [SLASH, SLASH]" "d \<noteq> [SLASH]"
      using c(2) append_butlast_last_id [of d] by (metis append.assoc append_Cons append_Nil, auto)
    then show ?thesis
      using c(1) 4 by (simp add: posix_parse_parts [OF assms] format_object_def Let_def at_root_def)
  qed (use c(1) sws in \<open>simp_all add: posix_parse_parts [OF assms] format_object_def Let_def at_root_def\<close>)
qed

lemma cd_format_parse: "cd D (format_object SLASH (posix_parse_string p)) = cd D p"
proof (cases p rule: comp_parts_cases [where isSep = isPosixPathSeparator])
  case 1
  then have "format_object SLASH (posix_parse_string p) = (if p = [] then [] else [SLASH])"
    unfolding posix_parse_all [OF 1] by (simp add: format_object_def formatExt_def)
  then show ?thesis using 1 by (cases p) (auto simp: cd_walk walk_all)
next
  case (2 d c t)
  let ?d = "if d = [SLASH, SLASH] then [SLASH] else d"
  have q: "posix_parts (?d @ c) ?d c []" using 2 by (auto simp: comp_parts_def)
  have "walk E ?d = walk E d" for E using walk_all [of ?d] walk_all [of d] by auto
  moreover have "starts_with_slash ?d = starts_with_slash d" by auto
  ultimately show ?thesis using cd_parts [OF q] cd_parts [OF 2] format_parse_parts [OF 2] by simp
qed

subsection \<open>Properties\<close>

text \<open>
  a path is its directory followed by its last component: resolving \<open>basename(p)\<close> from
  \<open>dirname(p)\<close> gives what \<open>p\<close> resolves to, for every string, whatever slashes surround the component.
\<close>

lemma posix_dirname_basename:
  assumes "canonical d"
  shows "posix_resolve (Inr d) [JStr (posix_dirname_string p), JStr (posix_basename_string p None)]
    = posix_resolve (Inr d) [JStr p]"
  using posix_resolve_cd_aux [OF assms, of "[posix_dirname_string p, posix_basename_string p None]"]
    posix_resolve_cd_aux [OF assms, of "[p]"] cd_dirname_basename by simp

lemma posix_dirname_basename_witness:
  "posix_resolve (Inr (js ''/u'')) [JStr (posix_dirname_string (js ''//a/b//'')), JStr (posix_basename_string (js ''//a/b//'') None)]
    = posix_resolve (Inr (js ''/u'')) [JStr (js ''//a/b//'')]"
proof -
  have "canonical (js ''/u'')" by code_simp
  then show ?thesis using posix_dirname_basename [of "js ''/u''" "js ''//a/b//''"] by simp
qed

text \<open>
  \<open>basename\<close> without a suffix is the last nonempty segment of the path, or empty when there is
  none, and \<open>extname\<close> is the part of that component from its last dot, except when the dot is its
  first character or the component is \<^verbatim>\<open>..\<close>. No hypothesis on the path.
\<close>

lemma posix_basename_extname:
  "posix_basename_string p None = (if filter (\<lambda>s. s \<noteq> []) (segments p) = [] then []
     else last (filter (\<lambda>s. s \<noteq> []) (segments p)))
   \<and> posix_extname_string p = ext_of (posix_basename_string p None)"
proof (cases p rule: comp_parts_cases [where isSep = isPosixPathSeparator])
  case 1
  then have "segments p = replicate (Suc (length p)) []"
    using segments_trailing [of p "[]"] by (simp add: segments_def)
  then show ?thesis using 1 by (simp add: posix_basename_all posix_extname_all ext_of_def)
next
  case (2 d c t)
  then have p: "p = (d @ c) @ t" "all_slash t" "c \<noteq> []" "\<forall>x \<in> set c. \<not> isPosixPathSeparator x" "d = [] \<or> last d = SLASH"
    by (auto simp: comp_parts_def)
  have c: "segments c = [c]" unfolding segments_def by (rule split_on_single) (use p(4) in auto)
  have "\<exists>ss. segments (d @ c) = ss @ [c]"
  proof (cases d rule: rev_cases)
    case (snoc d' x)
    then show ?thesis using p(5) segments_slash [of d' c] c by simp
  qed (simp add: c)
  then obtain ss where "segments p = ss @ [c] @ replicate (length t) []"
    using segments_trailing [OF p(2), of "d @ c"] p(1) by auto
  then show ?thesis using p(3) 2 by (simp add: posix_basename_parts posix_extname_parts)
qed

text \<open>
  C14: \<open>format(parse(p))\<close> names the same file as \<open>p\<close>, from every working directory and for every string.
\<close>

theorem posix_format_parse:
  assumes "canonical d"
  shows "bind (posix_parse (JStr p)) (\<lambda>o'. bind (posix_format (Some o')) (\<lambda>q. posix_resolve (Inr d) [JStr q]))
    = posix_resolve (Inr d) [JStr p]"
  using posix_resolve_cd_aux [OF assms, of "[p]"]
    posix_resolve_cd_aux [OF assms, of "[format_object SLASH (posix_parse_string p)]"] cd_format_parse
  by (simp add: posix_parse_def posix_format_def format_path_def)

lemma posix_format_parse_witness:
  "bind (posix_parse (JStr (js ''//x'')))
     (\<lambda>o'. bind (posix_format (Some o')) (\<lambda>q. posix_resolve (Inr (js ''/u'')) [JStr q]))
    = posix_resolve (Inr (js ''/u'')) [JStr (js ''//x'')]"
proof -
  have "canonical (js ''/u'')" by code_simp
  then show ?thesis using posix_format_parse [of "js ''/u''" "js ''//x''"] by blast
qed

text \<open>The paths whose only component is a \<^verbatim>\<open>..\<close> directly below the root.\<close>

definition root_dotdot :: "jsstring \<Rightarrow> bool" where
  "root_dotdot p \<longleftrightarrow> take 3 p = [SLASH, CHAR_DOT, CHAR_DOT] \<and> list_all (\<lambda>x. x = SLASH) (drop 3 p)"

lemma root_dotdot_parts:
  assumes "posix_parts p d c t"
  shows "root_dotdot p \<longleftrightarrow> d = [SLASH] \<and> c = [CHAR_DOT, CHAR_DOT]"
proof
  assume r: "root_dotdot p"
  then have "p = [SLASH] @ [CHAR_DOT, CHAR_DOT] @ drop 3 p"
    using append_take_drop_id [of 3 p] by (simp add: root_dotdot_def)
  then have q: "posix_parts p [SLASH] [CHAR_DOT, CHAR_DOT] (drop 3 p)"
    using r by (simp add: comp_parts_def root_dotdot_def list_all_iff)
  have "butlast d = [SLASH] \<Longrightarrow> d = [SLASH, SLASH]"
    using assms by (cases d rule: rev_cases) (auto simp: comp_parts_def)
  then have "d = [SLASH]"
    using posix_dirname_parts [OF q] posix_dirname_parts [OF assms] by (auto split: if_splits)
  then show "d = [SLASH] \<and> c = [CHAR_DOT, CHAR_DOT]"
    using posix_basename_parts [OF q] posix_basename_parts [OF assms] by simp
next
  assume "d = [SLASH] \<and> c = [CHAR_DOT, CHAR_DOT]"
  then show "root_dotdot p" using assms by (auto simp: comp_parts_def root_dotdot_def list_all_iff)
qed

lemma ext_of_suffix: "take (length c - length (ext_of c)) c @ ext_of c = c"
  using lastIndexOf_nth [of c CHAR_DOT] by (auto simp: ext_of_def Let_def le_nat_iff)

text \<open>
  \<open>parse\<close> agrees with the other functions: its base is \<open>basename\<close>, its name and extension make up
  the base, and its extension is \<open>extname\<close>, except on the paths whose only component is a \<^verbatim>\<open>..\<close>
  directly below the root, where \<open>parse\<close> answers \<^verbatim>\<open>.\<close> and \<open>extname\<close> the empty string.
\<close>

lemma posix_parse_agrees:
  "base (posix_parse_string p) = posix_basename_string p None \<and>
   name (posix_parse_string p) @ ext (posix_parse_string p) = base (posix_parse_string p) \<and>
   ext (posix_parse_string p) = (if root_dotdot p then [CHAR_DOT] else posix_extname_string p)"
proof (cases p rule: comp_parts_cases [where isSep = isPosixPathSeparator])
  case 1
  moreover have "CHAR_DOT \<notin> set (take 3 p)" using bspec [OF 1, of CHAR_DOT] in_set_takeD [of CHAR_DOT 3 p] by auto
  then have "\<not> root_dotdot p" unfolding root_dotdot_def by fastforce
  ultimately show ?thesis
    by (simp add: posix_parse_all posix_basename_all posix_extname_all)
next
  case (2 d c t)
  let ?e = "if root_dotdot p then [CHAR_DOT] else ext_of c"
  have "base (posix_parse_string p) = c" "ext (posix_parse_string p) = ?e"
      "name (posix_parse_string p) = take (length c - length ?e) c"
    unfolding posix_parse_parts [OF 2] Let_def at_root_def root_dotdot_parts [OF 2] by simp_all
  moreover have "take (length c - length ?e) c @ ?e = c"
    using ext_of_suffix [of c] root_dotdot_parts [OF 2] by auto
  ultimately show ?thesis by (simp add: posix_basename_parts [OF 2] posix_extname_parts [OF 2])
qed

end
