(* ===== verification/PathWin32Props.thy ===== *)
theory PathWin32Props
  imports PathWin32 PathScans
begin

text \<open>
  Properties of \<^verbatim>\<open>path.win32\<close>: \<open>normalize\<close> keeps a relative path relative, so that a hidden device
  cannot come to the front, and the scans of \<^verbatim>\<open>parse\<close>, \<^verbatim>\<open>basename\<close> and \<^verbatim>\<open>extname\<close> agree.
\<close>

subsection \<open>The text of a normalized tail\<close>

lemma set_split_on: "seg \<in> set (split_on P s) \<Longrightarrow> set seg \<subseteq> set s"
proof (induction s rule: rev_induct)
  case (snoc c s)
  show ?case
  proof (cases "P c")
    case True
    then show ?thesis using snoc by (auto simp: split_on_snoc)
  next
    case False
    have "seg \<in> set (butlast (split_on P s)) \<Longrightarrow> seg \<in> set (split_on P s)" by (rule in_set_butlastD)
    moreover have "set (last (split_on P s)) \<subseteq> set s"
      using split_on_last_suffix [of s P] by (metis Un_upper2 set_append)
    ultimately show ?thesis using False snoc by (auto simp: split_on_snoc)
  qed
qed simp

lemma set_seg_step: "set (seg_step allow xs s) \<subseteq> set xs \<union> {s, [CHAR_DOT, CHAR_DOT]}"
  by (auto simp: seg_step_def dest: in_set_butlastD)

lemma set_resolve_segments: "set (resolve_segments allow ss) \<subseteq> set ss \<union> {[CHAR_DOT, CHAR_DOT]}"
proof (induction ss rule: rev_induct)
  case (snoc s ss)
  then show ?case using set_seg_step [of allow "resolve_segments allow ss" s]
    by (auto simp: resolve_segments_def)
qed (simp add: resolve_segments_def)

lemma set_join: "set (join sep xs) \<subseteq> set sep \<union> (\<Union>x \<in> set xs. set x)"
  by (induction sep xs rule: join.induct) auto

definition win_segments :: "bool \<Rightarrow> jsstring \<Rightarrow> jsstring list" where
  "win_segments allow p = resolve_segments allow (split_on isPathSeparator p)"

lemma normalizeString_win: "normalizeString p allow BSL isPathSeparator = join [BSL] (win_segments allow p)"
  unfolding win_segments_def by (rule normalizeString_segments) (simp_all add: isPathSeparator_def)

lemma win_segments_ok: "s \<in> set (win_segments allow p) \<Longrightarrow> s \<noteq> [] \<and> (\<forall>x \<in> set s. \<not> isPathSeparator x)"
  using stack_ok_resolve [of "split_on isPathSeparator p" isPathSeparator allow] split_on_no_sep
  unfolding stack_ok_def win_segments_def by metis

lemma win_tail_chars: "set (normalizeString p allow BSL isPathSeparator) \<subseteq> set p \<union> {BSL, CHAR_DOT}"
proof -
  have "set s \<subseteq> set p \<union> {CHAR_DOT}" if "s \<in> set (win_segments allow p)" for s
  proof -
    have "s \<in> set (split_on isPathSeparator p) \<or> s = [CHAR_DOT, CHAR_DOT]"
      using that set_resolve_segments [of allow "split_on isPathSeparator p"] by (auto simp: win_segments_def)
    then show ?thesis using set_split_on [of s isPathSeparator p] by auto
  qed
  then show ?thesis
    unfolding normalizeString_win using set_join [of "[BSL]" "win_segments allow p"] by fastforce
qed

lemma sep_at_0: "sep_at (c # s) 0 = isPathSeparator c" "\<not> sep_at [] 0"
  by (simp_all add: sep_at_def charCodeAt_def)

lemma win_tail_start: "\<not> sep_at (normalizeString p allow BSL isPathSeparator) 0"
proof (cases "win_segments allow p")
  case (Cons s ss)
  then obtain c s' where "s = c # s'" "\<not> isPathSeparator c"
    using win_segments_ok [of s allow p] by (cases s) auto
  then show ?thesis using Cons by (cases ss) (simp_all add: normalizeString_win sep_at_0)
qed (simp add: normalizeString_win sep_at_0)

subsection \<open>Relative paths stay relative\<close>

definition win_relative_path :: "jsstring \<Rightarrow> bool" where
  "win_relative_path p \<longleftrightarrow> \<not> sep_at p 0 \<and> \<not> win_drive_prefix p"

lemma win_relative_dot: "win_relative_path (CHAR_DOT # s)"
  by (simp add: win_relative_path_def sep_at_0 isPathSeparator_def win_drive_prefix_def drive_at_def charCodeAt_0
      isWindowsDeviceRoot_def)

lemma win_relative_no_colon: "\<not> sep_at p 0 \<Longrightarrow> CHAR_COLON \<notin> set p \<Longrightarrow> win_relative_path p"
  by (cases p; cases "tl p") (auto simp: win_relative_path_def win_drive_prefix_def charCodeAt_def)

lemma win_relative_prefix:
  assumes "win_relative_path p" "2 \<le> n" "n \<le> length p"
  shows "win_relative_path (take n p @ q)"
proof -
  obtain a b r where "p = a # b # r" using assms(2,3) by (cases p; cases "tl p") auto
  moreover obtain m where "n = Suc (Suc m)" using assms(2) by (cases n; cases "n - 1") auto
  ultimately show ?thesis using assms(1)
    by (simp add: win_relative_path_def sep_at_0 win_drive_prefix_def drive_at_def charCodeAt_def)
qed

lemma win_tail_relative:
  assumes "\<not> (length (win_normalize_tail p 0 False) \<ge> 2 \<and> drive_at (win_normalize_tail p 0 False) 0
      \<and> charCodeAt (win_normalize_tail p 0 False) 1 = Some CHAR_COLON) \<or> CHAR_COLON \<notin> set p"
  shows "win_relative_path (win_normalize_tail p 0 False)"
proof -
  let ?t = "win_normalize_tail p 0 False" and ?n = "normalizeString (slice_from p 0) True BSL isPathSeparator"
  have p: "slice_from p 0 = p" by (simp add: slice_from_nonneg)
  have shape: "?t = ?n \<or> ?t = ?n @ [BSL] \<and> ?n \<noteq> [] \<or> hd ?t = CHAR_DOT \<and> ?t \<noteq> [] \<or> ?t = []"
    by (auto simp: win_normalize_tail_def Let_def)
  have start: "\<not> sep_at ?t 0"
    using shape win_tail_start [of p True] unfolding p
    by (cases "normalizeString p True BSL isPathSeparator"; cases ?t)
      (auto simp: sep_at_0 isPathSeparator_def)
  have "CHAR_COLON \<notin> set p \<Longrightarrow> CHAR_COLON \<notin> set ?t"
    using win_tail_chars [of p True] unfolding win_normalize_tail_def Let_def
    by (auto simp: p split: if_splits)
  then show ?thesis
    using assms start win_relative_no_colon [of ?t] by (auto simp: win_relative_path_def win_drive_prefix_def)
qed

lemma indexOf_nth: "indexOf s c \<noteq> -1 \<Longrightarrow> s ! nat (indexOf s c) = c"
proof (induction s)
  case (Cons x s)
  then show ?case
    using indexOf_bounds [of s c]
    by (cases "x = c"; cases "indexOf s c = -1") (auto simp: Let_def nat_add_distrib)
qed simp

lemma win_normalize_root_relative:
  assumes "win_relative_path p"
  shows "win_normalize_root env p = Inr (0, None, False) \<or>
    (\<exists>n. win_normalize_root env p = Inr (n, Some (take n p), False) \<and> 2 \<le> n \<and> n \<le> length p)"
proof -
  let ?i = "indexOf p CHAR_COLON"
  have i: "?i = -1 \<or> (0 \<le> ?i \<and> ?i < int (length p))" by (rule indexOf_bounds)
  have nosep: "\<not> sep_at p 0" using assms by (simp add: win_relative_path_def)
  have nodrive: "\<not> (drive_at p 0 \<and> ?i = 1)"
    using assms i indexOf_nth [of p CHAR_COLON]
    by (auto simp: win_relative_path_def win_drive_prefix_def charCodeAt_def)
  show ?thesis
  proof (cases "?i > 0 \<and> isWindowsReservedName env p ?i")
    case True
    then have "slice p 0 (?i + 1) = take (nat (?i + 1)) p" using i by (intro slice_zero) auto
    then show ?thesis unfolding win_normalize_root_def Let_def using True nosep nodrive i
      by (auto intro!: exI [of _ "nat (?i + 1)"])
  next
    case False
    then show ?thesis unfolding win_normalize_root_def Let_def using nosep nodrive by auto
  qed
qed

text \<open>
  C7: a relative path cannot be turned into an absolute one, or one on a drive, by climbing over a
  first component: \<open>normalize\<close> of a path that begins with neither a separator nor a drive letter
  and a colon begins with neither (CVE-2024-36139), whatever the case mapping of the host.
\<close>

theorem win_normalize_relative:
  assumes "win_relative_path p"
  shows "win_relative_path (win_normalize_string env p)"
proof (cases "length p < 2")
  case True
  then show ?thesis
    using assms win_relative_dot [of "[]"]
    by (cases p) (auto simp: win_normalize_string_def charCodeAt_0 win_relative_path_def sep_at_0 isPathSeparator_def)
next
  case False
  let ?t = "win_normalize_tail p 0 False"
  from win_normalize_root_relative [OF assms, of env] show ?thesis
  proof (elim disjE exE conjE)
    assume "win_normalize_root env p = Inr (0, None, False)"
    then show ?thesis
      using False win_tail_relative [of p]
      by (auto simp: win_normalize_string_def Let_def win_relative_dot)
  next
    fix n
    assume "win_normalize_root env p = Inr (n, Some (take n p), False)" "2 \<le> n" "n \<le> length p"
    then show ?thesis
      using False win_relative_prefix [OF assms]
      by (auto simp: win_normalize_string_def Let_def win_relative_dot)
  qed
qed

text \<open>A host whose case mappings are those of the ASCII letters, for concrete inputs.\<close>

definition ascii_upper :: "nat \<Rightarrow> nat" where
  "ascii_upper c = (if CHAR_LOWERCASE_A \<le> c \<and> c \<le> CHAR_LOWERCASE_Z then c - 32 else c)"

definition ascii_lower :: "nat \<Rightarrow> nat" where
  "ascii_lower c = (if CHAR_UPPERCASE_A \<le> c \<and> c \<le> CHAR_UPPERCASE_Z then c + 32 else c)"

definition ascii_env :: win_env where
  "ascii_env = \<lparr>toLower = map ascii_lower, toUpper = map ascii_upper,
     processCwd = Inr (js ''C:'' @ [BSL, 119]), driveCwd = (\<lambda>d. None), isWindows = True\<rparr>"

lemma win_normalize_relative_witness:
  "win_relative_path (js ''a/../C:/b'') \<and> win_normalize_string ascii_env (js ''a/../C:/b'') = [CHAR_DOT, BSL] @ js ''C:'' @ [BSL] @ js ''b''
   \<and> win_relative_path (win_normalize_string ascii_env (js ''a/../C:/b''))"
proof -
  have "win_relative_path (js ''a/../C:/b'')" by code_simp
  moreover have "win_normalize_string ascii_env (js ''a/../C:/b'') = [CHAR_DOT, BSL] @ js ''C:'' @ [BSL] @ js ''b''"
    by code_simp
  ultimately show ?thesis using win_normalize_relative [of "js ''a/../C:/b''" ascii_env] by blast
qed

text \<open>
  The test for reserved device names at the end of \<open>normalize\<close> also runs when the path has no
  colon: then it drops the last character, so that \<^verbatim>\<open>COM10\<close> and \<^verbatim>\<open>cons\<close>, which are ordinary names, get a
  prefix, while the reserved names themselves do not.
\<close>

lemma win_normalize_reserved_no_colon:
  "win_normalize_string ascii_env (js ''COM10'') = [CHAR_DOT, BSL] @ js ''COM10'' \<and>
   win_normalize_string ascii_env (js ''cons'') = [CHAR_DOT, BSL] @ js ''cons'' \<and>
   win_normalize_string ascii_env (js ''COM1'') = js ''COM1''"
  by code_simp

end
