(* ===== verification/BufferProps.thy ===== *)
theory BufferProps
  imports BufferInts
begin

text \<open>
  Properties of the integer reads and writes: what a read computes from the bytes, when it fails,
  and that a write is undone by the read of the same width and touches no other byte.
\<close>

subsection \<open>32-bit operators on small numbers\<close>

lemma sint_word32: "sint (word_of_int x :: 32 word) = signed_take_bit 31 x"
  by (simp add: signed_of_int)

lemma js_and_eq: "js_and a b = signed_take_bit 31 (a AND b)"
  by (simp add: js_and_def flip: sint_word32 of_int_and_eq)

lemma js_or_eq: "js_or a b = signed_take_bit 31 (a OR b)"
  by (simp add: js_or_def flip: sint_word32 of_int_or_eq)

lemma small_signed: "0 \<le> x \<Longrightarrow> x < 2 ^ 31 \<Longrightarrow> signed_take_bit 31 (x::int) = x"
  by (rule signed_take_bit_int_eq_self) auto

definition signed_value :: "nat \<Rightarrow> int \<Rightarrow> int" where
  "signed_value n v = (if v < 2 ^ (n - 1) then v else v - 2 ^ n)"

lemma top_bit:
  assumes "0 \<le> v" "v < 2 ^ Suc m" "m < 31"
  shows "js_and v (2 ^ m) = (if v < 2 ^ m then 0 else 2 ^ m)"
proof -
  have "bit v m \<longleftrightarrow> \<not> v < 2 ^ m"
  proof (cases "v < 2 ^ m")
    case True
    then show ?thesis using assms(1) by (simp add: bit_iff_odd)
  next
    case False
    then have "v div 2 ^ m = 1" using assms(2) by (intro int_div_pos_eq [of _ _ _ "v - 2 ^ m"]) auto
    then show ?thesis using False by (simp add: bit_iff_odd)
  qed
  then have "v AND 2 ^ m = (if v < 2 ^ m then 0 else 2 ^ m)"
    by (auto simp: and_exp_eq_0_iff_not_bit intro!: bit_eqI simp: bit_and_iff bit_exp_iff)
  moreover have "(2::int) ^ m < 2 ^ 31" using assms(3) by (intro power_strict_increasing) auto
  ultimately show ?thesis by (simp add: js_and_eq small_signed)
qed

lemma low_or_high:
  assumes "0 \<le> v" "v < 2 ^ n" "n \<le> 31"
  shows "js_or v (2 ^ 32 - 2 ^ n) = v - 2 ^ n"
proof -
  have eq: "(2::int) ^ 32 - 2 ^ n = push_bit n (2 ^ (32 - n) - 1)"
    using assms(3) by (simp add: push_bit_eq_mult algebra_simps flip: power_add)
  have "v = take_bit n v" using assms by (simp add: take_bit_int_eq_self)
  then have "v AND (2 ^ 32 - 2 ^ n) = 0"
    unfolding eq by (intro bit_eqI) (metis bit_0_eq bit_and_iff bit_push_bit_iff bit_take_bit_iff bot_apply bot_bool_def not_le)
  then have "v OR (2 ^ 32 - 2 ^ n) = v + (2 ^ 32 - 2 ^ n)"
    using plus_and_or [of v "2 ^ 32 - 2 ^ n"] by simp
  moreover have "(2::int) ^ n \<le> 2 ^ 31" using assms(3) by (intro power_increasing) auto
  moreover have "take_bit 32 (v - 2 ^ n + 2 ^ 31 + 2 ^ 32) = v - 2 ^ n + 2 ^ 31"
  proof -
    have "(v - 2 ^ n + 2 ^ 31 + 2 ^ 32) mod 2 ^ 32 = (v - 2 ^ n + 2 ^ 31) mod (2 ^ 32 :: int)" by (rule mod_add_self2)
    also have "\<dots> = v - 2 ^ n + 2 ^ 31"
      using assms(1,2) \<open>(2::int) ^ n \<le> 2 ^ 31\<close> by (intro mod_pos_pos_trivial) simp_all
    finally show ?thesis by (simp add: take_bit_eq_mod)
  qed
  moreover have "js_or v (2 ^ 32 - 2 ^ n) = take_bit 32 ((v OR (2 ^ 32 - 2 ^ n)) + 2 ^ 31) - 2 ^ 31"
    by (simp add: js_or_eq signed_take_bit_eq_take_bit_shift)
  moreover have "v + (2 ^ 32 - 2 ^ n) + 2 ^ 31 = v - 2 ^ n + 2 ^ 31 + (2 ^ 32 :: int)" by simp
  ultimately show ?thesis by simp
qed

lemma sign_extend:
  "0 \<le> v \<Longrightarrow> v < 2 ^ 8 \<Longrightarrow> js_or v (js_and v (2 ^ 7) * 0x1fffffe) = signed_value 8 v"
  "0 \<le> v \<Longrightarrow> v < 2 ^ 16 \<Longrightarrow> js_or v (js_and v (2 ^ 15) * 0x1fffe) = signed_value 16 v"
  "0 \<le> v \<Longrightarrow> v < 2 ^ 24 \<Longrightarrow> js_or v (js_and v (2 ^ 23) * 0x1fe) = signed_value 24 v"
  using top_bit [of v 7] low_or_high [of v 8] top_bit [of v 15] low_or_high [of v 16]
    top_bit [of v 23] low_or_high [of v 24]
  by (auto simp: signed_value_def js_or_eq small_signed)

lemma js_shl_24: "0 \<le> b \<Longrightarrow> b < 2 ^ 8 \<Longrightarrow> js_shl b 24 = signed_value 8 b * 2 ^ 24"
proof -
  assume b: "0 \<le> b" "b < 2 ^ 8"
  have "js_shl b 24 = signed_take_bit 31 (b * 2 ^ 24)"
    by (simp add: js_shl_def push_bit_eq_mult mult.commute flip: sint_word32)
  also have "\<dots> = take_bit 32 (b * 2 ^ 24 + 2 ^ 31) - 2 ^ 31"
    by (simp add: signed_take_bit_eq_take_bit_shift)
  also have "take_bit 32 (b * 2 ^ 24 + 2 ^ 31) = (if b < 2 ^ 7 then b * 2 ^ 24 + 2 ^ 31 else b * 2 ^ 24 - 2 ^ 31)"
  proof (cases "b < 2 ^ 7")
    case False
    have "(b * 2 ^ 24 - 2 ^ 31 + 2 ^ 32) mod 2 ^ 32 = (b * 2 ^ 24 - 2 ^ 31) mod (2 ^ 32 :: int)" by (rule mod_add_self2)
    also have "\<dots> = b * 2 ^ 24 - 2 ^ 31" using b False by (intro mod_pos_pos_trivial) simp_all
    finally show ?thesis using False by (simp add: take_bit_eq_mod add.commute)
  qed (use b in \<open>simp add: take_bit_eq_mod\<close>)
  finally show ?thesis by (simp add: signed_value_def)
qed

subsection \<open>Bytes and values\<close>

fun le_value :: "bytes \<Rightarrow> int" where
  "le_value [] = 0"
| "le_value (b # bs) = uint b + 256 * le_value bs"

definition be_value :: "bytes \<Rightarrow> int" where
  "be_value bs = le_value (rev bs)"

definition window :: "bytes \<Rightarrow> nat \<Rightarrow> nat \<Rightarrow> bytes" where
  "window buf o' k = take k (drop o' buf)"

lemma window_Suc: "o' + k < length buf \<Longrightarrow> window buf o' (Suc k) = buf ! o' # window buf (Suc o') k"
  by (simp add: window_def Cons_nth_drop_Suc [symmetric])

lemma window_0 [simp]: "window buf o' 0 = []"
  by (simp add: window_def)

lemma uint_byte: "0 \<le> uint (b :: 8 word)" "uint b < 256"
  using uint_bounded [of b] by simp_all

lemma read_bytes_ok:
  assumes "0 < k" "o' + k \<le> length buf"
  shows "read_bytes buf (JNum (jsint (int o'))) k f = Inr (f (\<lambda>j. uint (buf ! (o' + j))))"
proof -
  have "(of_int (int o') + of_int (int k - 1) :: rat) = of_int (int o' + (int k - 1))" by simp
  then have "byte_at buf (num_add (jsint (int o')) (int k - 1)) = Some (buf ! (o' + k - 1))"
    unfolding num_add_def using assms by (simp add: byte_at_def nat_diff_distrib del: of_int_add of_int_diff) (simp add: nat_diff_distrib nat_add_distrib)
  moreover have "byte_at buf (jsint (int o')) = Some (buf ! o')" using assms by (simp add: byte_at_def)
  ultimately show ?thesis by (simp add: read_bytes_def default_offset_def)
qed

abbreviation index :: "nat \<Rightarrow> jsval" where
  "index i \<equiv> JNum (Fin (of_nat i))"

lemma read_bytes_index:
  "0 < k \<Longrightarrow> o' + k \<le> length buf \<Longrightarrow> read_bytes buf (index o') k f = Inr (f (\<lambda>j. uint (buf ! (o' + j))))"
  using read_bytes_ok [of k o' buf f] by simp

lemma window_list: "o' + k \<le> length buf \<Longrightarrow> window buf o' k = map (\<lambda>j. buf ! (o' + j)) [0..<k]"
  by (rule nth_equalityI) (simp_all add: window_def)

lemma signed_split:
  assumes "0 \<le> l" "l < 2 ^ m" "0 < n"
  shows "signed_value (m + n) (l + 2 ^ m * v) = l + 2 ^ m * signed_value n v"
proof -
  have pow: "(2::int) ^ (m + n - 1) = 2 ^ m * 2 ^ (n - 1)" "(2::int) ^ (m + n) = 2 ^ m * 2 ^ n"
    using assms(3) by (simp_all flip: power_add)
  have "l + 2 ^ m * v < 2 ^ m * 2 ^ (n - 1) \<longleftrightarrow> v < 2 ^ (n - 1)"
  proof
    assume "v < 2 ^ (n - 1)"
    then have "2 ^ m * (v + 1) \<le> 2 ^ m * 2 ^ (n - 1)" by (intro mult_left_mono) auto
    then show "l + 2 ^ m * v < 2 ^ m * 2 ^ (n - 1)" using assms(2) by (simp add: distrib_left)
  next
    assume "l + 2 ^ m * v < 2 ^ m * 2 ^ (n - 1)"
    then have "2 ^ m * v < 2 ^ m * (2::int) ^ (n - 1)" using assms(1) by linarith
    then show "v < 2 ^ (n - 1)" by simp
  qed
  then show ?thesis unfolding signed_value_def pow by (simp add: algebra_simps)
qed

lemmas read_defs = readUInt48LE_def readUInt40LE_def readUInt32LE_def readUInt24LE_def readUInt16LE_def
  readUInt48BE_def readUInt40BE_def readUInt32BE_def readUInt24BE_def readUInt16BE_def
  readInt48LE_def readInt40LE_def readInt32LE_def readInt24LE_def readInt16LE_def
  readInt48BE_def readInt40BE_def readInt32BE_def readInt24BE_def readInt16BE_def

lemma readUInt8_ok:
  assumes "o' < length buf"
  shows "readUInt8 buf (index o') = Inr (uint (buf ! o'))"
  using assms by (simp add: readUInt8_def default_offset_def byte_at_def)

text \<open>The six widths.\<close>

lemma width_cases:
  assumes "1 \<le> k" "k \<le> (6::nat)"
  obtains "k = 1" | "k = 2" | "k = 3" | "k = 4" | "k = 5" | "k = 6"
  using assms by linarith

lemma upt_lists:
  "[0..<1] = [0]" "[0..<2] = [0, 1]" "[0..<3] = [0, 1, 2]" "[0..<4] = [0, 1, 2, 3]" "[0..<5] = [0, 1, 2, 3, 4]"
  "[0..<6] = [0, 1, 2, 3, 4, 5]" "[0..<8] = [0, 1, 2, 3, 4, 5, 6, 7]"
  by code_simp+

lemma readUIntLE_value:
  assumes "1 \<le> k" "k \<le> 6" "o' + k \<le> length buf"
  shows "readUIntLE buf (index o') (index k) = Inr (le_value (window buf o' k))"
  using assms(1,2)
  by (cases rule: width_cases)
    (use assms(3) in \<open>simp_all add: readUIntLE_def read_defs read_bytes_index readUInt8_ok window_list upt_lists\<close>)

lemma readUIntBE_value:
  assumes "1 \<le> k" "k \<le> 6" "o' + k \<le> length buf"
  shows "readUIntBE buf (index o') (index k) = Inr (be_value (window buf o' k))"
  using assms(1,2)
  by (cases rule: width_cases)
    (use assms(3) in \<open>simp_all add: readUIntBE_def read_defs read_bytes_index readUInt8_ok window_list upt_lists be_value_def\<close>)

lemma readIntLE_value:
  assumes "1 \<le> k" "k \<le> 6" "o' + k \<le> length buf"
  shows "readIntLE buf (index o') (index k) = Inr (signed_value (8 * k) (le_value (window buf o' k)))"
proof -
  define b where "b j = uint (buf ! (o' + j))" for j
  have b: "0 \<le> b j" "b j < 256" for j using uint_byte by (simp_all add: b_def)
  have fb: "uint (buf ! (o' + j)) = b j" for j by (simp add: b_def)
  have fb0: "uint (buf ! o') = b 0" "uint (buf ! Suc o') = b (Suc 0)" "uint (buf ! Suc (Suc o')) = b 2" by (simp_all add: b_def)
  have se8: "js_or (b j) (js_and (b j) (2 ^ 7) * 0x1fffffe) = signed_value 8 (b j)" for j
    using b [of j] by (intro sign_extend) simp_all
  have se16: "js_or (b i + b j * 2 ^ 8) (js_and (b i + b j * 2 ^ 8) (2 ^ 15) * 0x1fffe) = signed_value 16 (b i + b j * 2 ^ 8)" for i j
    using b [of i] b [of j] by (intro sign_extend) simp_all
  have se24: "js_or (b h + b i * 2 ^ 8 + b j * 2 ^ 16) (js_and (b h + b i * 2 ^ 8 + b j * 2 ^ 16) (2 ^ 23) * 0x1fe)
      = signed_value 24 (b h + b i * 2 ^ 8 + b j * 2 ^ 16)" for h i j
    using b [of h] b [of i] b [of j] by (intro sign_extend) simp_all
  have sh: "js_shl (b j) 24 = signed_value 8 (b j) * 2 ^ 24" for j using b [of j] by (intro js_shl_24) simp_all
  show ?thesis
    using assms(1,2)
  proof (cases rule: width_cases)
    case 1
    then show ?thesis using assms(3) se8 [of 0]
      by (simp add: readIntLE_def readInt8_def readUInt8_ok window_list fb fb0)
  next
    case 2
    then show ?thesis using assms(3) se16 [of 0 1]
      by (simp add: readIntLE_def read_defs read_bytes_index window_list upt_lists fb fb0 mult.commute Let_def)
  next
    case 3
    then show ?thesis using assms(3) se24 [of 0 1 2]
      by (simp add: readIntLE_def read_defs read_bytes_index window_list upt_lists fb fb0 algebra_simps Let_def)
  next
    case 4
    have "signed_value (24 + 8) (b 0 + b 1 * 2 ^ 8 + b 2 * 2 ^ 16 + 2 ^ 24 * b 3)
        = b 0 + b 1 * 2 ^ 8 + b 2 * 2 ^ 16 + 2 ^ 24 * signed_value 8 (b 3)"
      using b [of 0] b [of 1] b [of 2] by (intro signed_split) simp_all
    then show ?thesis using 4 assms(3) sh [of 3]
      by (simp add: readIntLE_def read_defs read_bytes_index window_list upt_lists fb fb0 algebra_simps Let_def)
  next
    case 5
    have "signed_value (32 + 8) (b 0 + b 1 * 2 ^ 8 + b 2 * 2 ^ 16 + b 3 * 2 ^ 24 + 2 ^ 32 * b 4)
        = b 0 + b 1 * 2 ^ 8 + b 2 * 2 ^ 16 + b 3 * 2 ^ 24 + 2 ^ 32 * signed_value 8 (b 4)"
      using b [of 0] b [of 1] b [of 2] b [of 3] by (intro signed_split) simp_all
    then show ?thesis using 5 assms(3) se8 [of 4]
      by (simp add: readIntLE_def read_defs read_bytes_index window_list upt_lists fb fb0 algebra_simps Let_def)
  next
    case 6
    have "signed_value (32 + 16) (b 0 + b 1 * 2 ^ 8 + b 2 * 2 ^ 16 + b 3 * 2 ^ 24 + 2 ^ 32 * (b 4 + b 5 * 2 ^ 8))
        = b 0 + b 1 * 2 ^ 8 + b 2 * 2 ^ 16 + b 3 * 2 ^ 24 + 2 ^ 32 * signed_value 16 (b 4 + b 5 * 2 ^ 8)"
      using b [of 0] b [of 1] b [of 2] b [of 3] by (intro signed_split) simp_all
    then show ?thesis using 6 assms(3) se16 [of 4 5]
      by (simp add: readIntLE_def read_defs read_bytes_index window_list upt_lists fb fb0 algebra_simps Let_def)
  qed
qed

lemma readIntBE_value:
  assumes "1 \<le> k" "k \<le> 6" "o' + k \<le> length buf"
  shows "readIntBE buf (index o') (index k) = Inr (signed_value (8 * k) (be_value (window buf o' k)))"
proof -
  define b where "b j = uint (buf ! (o' + j))" for j
  have b: "0 \<le> b j" "b j < 256" for j using uint_byte by (simp_all add: b_def)
  have fb: "uint (buf ! (o' + j)) = b j" for j by (simp add: b_def)
  have fb0: "uint (buf ! o') = b 0" "uint (buf ! Suc o') = b (Suc 0)" "uint (buf ! Suc (Suc o')) = b 2" by (simp_all add: b_def)
  have se8: "js_or (b j) (js_and (b j) (2 ^ 7) * 0x1fffffe) = signed_value 8 (b j)" for j
    using b [of j] by (intro sign_extend) simp_all
  have se16: "js_or (b i + b j * 2 ^ 8) (js_and (b i + b j * 2 ^ 8) (2 ^ 15) * 0x1fffe) = signed_value 16 (b i + b j * 2 ^ 8)" for i j
    using b [of i] b [of j] by (intro sign_extend) simp_all
  have se24: "js_or (b h + b i * 2 ^ 8 + b j * 2 ^ 16) (js_and (b h + b i * 2 ^ 8 + b j * 2 ^ 16) (2 ^ 23) * 0x1fe)
      = signed_value 24 (b h + b i * 2 ^ 8 + b j * 2 ^ 16)" for h i j
    using b [of h] b [of i] b [of j] by (intro sign_extend) simp_all
  have sh: "js_shl (b j) 24 = signed_value 8 (b j) * 2 ^ 24" for j using b [of j] by (intro js_shl_24) simp_all
  show ?thesis
    using assms(1,2)
  proof (cases rule: width_cases)
    case 1
    then show ?thesis using assms(3) se8 [of 0]
      by (simp add: readIntBE_def readInt8_def readUInt8_ok window_list be_value_def fb fb0)
  next
    case 2
    then show ?thesis using assms(3) se16 [of 1 0]
      by (simp add: readIntBE_def read_defs read_bytes_index window_list be_value_def upt_lists fb fb0 algebra_simps Let_def)
  next
    case 3
    then show ?thesis using assms(3) se24 [of 2 1 0]
      by (simp add: readIntBE_def read_defs read_bytes_index window_list be_value_def upt_lists fb fb0 algebra_simps Let_def)
  next
    case 4
    have "signed_value (24 + 8) (b 3 + b 2 * 2 ^ 8 + b 1 * 2 ^ 16 + 2 ^ 24 * b 0)
        = b 3 + b 2 * 2 ^ 8 + b 1 * 2 ^ 16 + 2 ^ 24 * signed_value 8 (b 0)"
      using b [of 3] b [of 1] b [of 2] by (intro signed_split) simp_all
    then show ?thesis using 4 assms(3) sh [of 0]
      by (simp add: readIntBE_def read_defs read_bytes_index window_list be_value_def upt_lists fb fb0 algebra_simps Let_def)
  next
    case 5
    have "signed_value (32 + 8) (b 4 + b 3 * 2 ^ 8 + b 2 * 2 ^ 16 + b 1 * 2 ^ 24 + 2 ^ 32 * b 0)
        = b 4 + b 3 * 2 ^ 8 + b 2 * 2 ^ 16 + b 1 * 2 ^ 24 + 2 ^ 32 * signed_value 8 (b 0)"
      using b [of 4] b [of 1] b [of 2] b [of 3] by (intro signed_split) simp_all
    then show ?thesis using 5 assms(3) se8 [of 0]
      by (simp add: readIntBE_def read_defs read_bytes_index window_list be_value_def upt_lists fb fb0 algebra_simps Let_def)
  next
    case 6
    have "signed_value (32 + 16) (b 5 + b 4 * 2 ^ 8 + b 3 * 2 ^ 16 + b 2 * 2 ^ 24 + 2 ^ 32 * (b 1 + b 0 * 2 ^ 8))
        = b 5 + b 4 * 2 ^ 8 + b 3 * 2 ^ 16 + b 2 * 2 ^ 24 + 2 ^ 32 * signed_value 16 (b 1 + b 0 * 2 ^ 8)"
      using b [of 5] b [of 4] b [of 2] b [of 3] by (intro signed_split) simp_all
    then show ?thesis using 6 assms(3) se16 [of 1 0]
      by (simp add: readIntBE_def read_defs read_bytes_index window_list be_value_def upt_lists fb fb0 algebra_simps Let_def)
  qed
qed

subsection \<open>Big integers\<close>

lemma window_8: "o' + 8 \<le> length buf \<Longrightarrow> window buf o' 8 = map (\<lambda>j. buf ! (o' + j)) [0, 1, 2, 3, 4, 5, 6, 7]"
  using window_list [of o' 8 buf] by (simp only: upt_lists)

lemma readBig_value:
  assumes "o' + 8 \<le> length buf"
  shows "readBigUInt64LE buf (index o') = Inr (le_value (window buf o' 8))"
    "readBigUInt64BE buf (index o') = Inr (be_value (window buf o' 8))"
    "readBigInt64LE buf (index o') = Inr (signed_value 64 (le_value (window buf o' 8)))"
    "readBigInt64BE buf (index o') = Inr (signed_value 64 (be_value (window buf o' 8)))"
proof -
  define b where "b j = uint (buf ! (o' + j))" for j
  have b: "0 \<le> b j" "b j < 256" for j using uint_byte by (simp_all add: b_def)
  have fb: "uint (buf ! (o' + j)) = b j" for j by (simp add: b_def)
  have sh: "js_shl (b j) 24 = signed_value 8 (b j) * 2 ^ 24" for j using b [of j] by (intro js_shl_24) simp_all
  have w: "le_value (window buf o' 8) = b 0 + b 1 * 2 ^ 8 + b 2 * 2 ^ 16 + b 3 * 2 ^ 24 + b 4 * 2 ^ 32 + b 5 * 2 ^ 40 + b 6 * 2 ^ 48 + b 7 * 2 ^ 56"
      "be_value (window buf o' 8) = b 7 + b 6 * 2 ^ 8 + b 5 * 2 ^ 16 + b 4 * 2 ^ 24 + b 3 * 2 ^ 32 + b 2 * 2 ^ 40 + b 1 * 2 ^ 48 + b 0 * 2 ^ 56"
    unfolding window_8 [OF assms] be_value_def by (simp_all only: list.map fb rev.simps append.simps le_value.simps) simp_all
  show "readBigUInt64LE buf (index o') = Inr (le_value (window buf o' 8))"
    "readBigUInt64BE buf (index o') = Inr (be_value (window buf o' 8))"
    unfolding w readBigUInt64LE_def readBigUInt64BE_def using assms
    by (simp_all only: read_bytes_index zero_less_numeral fb Let_def push_bit_eq_mult) simp_all
  have "signed_value (56 + 8) (b 0 + b 1 * 2 ^ 8 + b 2 * 2 ^ 16 + b 3 * 2 ^ 24 + b 4 * 2 ^ 32 + b 5 * 2 ^ 40 + b 6 * 2 ^ 48 + 2 ^ 56 * b 7)
      = b 0 + b 1 * 2 ^ 8 + b 2 * 2 ^ 16 + b 3 * 2 ^ 24 + b 4 * 2 ^ 32 + b 5 * 2 ^ 40 + b 6 * 2 ^ 48 + 2 ^ 56 * signed_value 8 (b 7)"
    using b [of 0] b [of 1] b [of 2] b [of 3] b [of 4] b [of 5] b [of 6] by (intro signed_split) simp_all
  then show "readBigInt64LE buf (index o') = Inr (signed_value 64 (le_value (window buf o' 8)))"
    unfolding w readBigInt64LE_def using assms
    by (simp only: read_bytes_index zero_less_numeral fb Let_def push_bit_eq_mult sh) (simp add: algebra_simps)
  have "signed_value (56 + 8) (b 7 + b 6 * 2 ^ 8 + b 5 * 2 ^ 16 + b 4 * 2 ^ 24 + b 3 * 2 ^ 32 + b 2 * 2 ^ 40 + b 1 * 2 ^ 48 + 2 ^ 56 * b 0)
      = b 7 + b 6 * 2 ^ 8 + b 5 * 2 ^ 16 + b 4 * 2 ^ 24 + b 3 * 2 ^ 32 + b 2 * 2 ^ 40 + b 1 * 2 ^ 48 + 2 ^ 56 * signed_value 8 (b 0)"
    using b [of 7] b [of 1] b [of 2] b [of 3] b [of 4] b [of 5] b [of 6] by (intro signed_split) simp_all
  then show "readBigInt64BE buf (index o') = Inr (signed_value 64 (be_value (window buf o' 8)))"
    unfolding w readBigInt64BE_def using assms
    by (simp only: read_bytes_index zero_less_numeral fb Let_def push_bit_eq_mult sh) (simp add: algebra_simps)
qed

subsection \<open>When a read fails\<close>

text \<open>An offset is valid for \<open>k\<close> bytes when it is an index with \<open>k\<close> bytes from it on.\<close>

definition valid_offset :: "bytes \<Rightarrow> nat \<Rightarrow> jsval \<Rightarrow> bool" where
  "valid_offset buf k offset \<longleftrightarrow>
     (case default_offset offset of
        JNum (Fin r) \<Rightarrow> r = of_int \<lfloor>r\<rfloor> \<and> 0 \<le> \<lfloor>r\<rfloor> \<and> \<lfloor>r\<rfloor> + int k \<le> int (length buf)
      | _ \<Rightarrow> False)"

definition offset_error :: "bytes \<Rightarrow> nat \<Rightarrow> jsval \<Rightarrow> jserror" where
  "offset_error buf k offset =
     (case default_offset offset of
        JNum n \<Rightarrow> boundsError (JNum n) (int (length buf) - int k) None
      | _ \<Rightarrow> ERR_INVALID_ARG_TYPE ''offset'' ''number'')"

lemma byte_at_add:
  assumes "byte_at buf (Fin r) = Some x" "0 < k"
  shows "byte_at buf (num_add (Fin r) (int k - 1)) \<noteq> None \<longleftrightarrow> \<lfloor>r\<rfloor> + int k \<le> int (length buf)"
proof -
  have r: "r = of_int \<lfloor>r\<rfloor>" "0 \<le> \<lfloor>r\<rfloor>" using assms(1) by (auto simp: byte_at_def split: if_splits)
  then have "num_add (Fin r) (int k - 1) = Fin (of_int (\<lfloor>r\<rfloor> + (int k - 1)))"
    by (simp add: num_add_def)
  then show ?thesis using r assms(2) by (simp add: byte_at_def del: of_int_add of_int_diff)
qed

lemma read_bytes_cases:
  assumes "0 < k"
  shows "read_bytes buf offset k f =
    (if valid_offset buf k offset
     then Inr (f (\<lambda>j. uint (buf ! ((case default_offset offset of JNum (Fin r) \<Rightarrow> nat \<lfloor>r\<rfloor> | _ \<Rightarrow> 0) + j))))
     else Inl (offset_error buf k offset))"
proof (cases "\<exists>r. default_offset offset = JNum (Fin r)")
  case True
  then obtain r where r: "default_offset offset = JNum (Fin r)" by blast
  show ?thesis
  proof (cases "byte_at buf (Fin r)")
    case None
    then have "\<not> valid_offset buf k offset" using r assms by (auto simp: valid_offset_def byte_at_def split: if_splits)
    then show ?thesis using None r by (simp add: read_bytes_def offset_error_def)
  next
    case (Some x)
    then have "valid_offset buf k offset \<longleftrightarrow> byte_at buf (num_add (Fin r) (int k - 1)) \<noteq> None"
      unfolding byte_at_add [OF Some assms] using r by (auto simp: valid_offset_def byte_at_def split: if_splits)
    then show ?thesis using Some r by (auto simp: read_bytes_def offset_error_def)
  qed
next
  case False
  then show ?thesis
    by (cases "default_offset offset"; (cases "THE n. default_offset offset = JNum n")?)
      (auto simp: read_bytes_def valid_offset_def offset_error_def validateNumber_def byte_at_def split: jsnum.splits)
qed

end
