(* ===== verification/BufferWrites.thy ===== *)
theory BufferWrites
  imports BufferProps
begin

text \<open>
  The integer writes of lib/internal/buffer.js: the bytes they store, that the read of the same
  width and byte order gives the value back, that no other byte changes, and when they fail.
\<close>

subsection \<open>Bytes of an integer\<close>

definition int_byte :: "int \<Rightarrow> nat \<Rightarrow> 8 word" where
  "int_byte v j = word_of_int (drop_bit (8 * j) v)"

definition le_bytes :: "nat \<Rightarrow> int \<Rightarrow> bytes" where
  "le_bytes k v = map (int_byte v) [0..<k]"

lemma length_le_bytes [simp]: "length (le_bytes k v) = k"
  by (simp add: le_bytes_def)

lemma js_ushr_eq: "js_ushr a n = drop_bit n (take_bit 32 a)"
  by (simp add: js_ushr_def unsigned_drop_bit_eq drop_bit_take_bit unsigned_of_int)

lemma js_shr_eq: "js_shr a n = drop_bit n (signed_take_bit 31 a)"
  by (simp add: js_shr_def sint_signed_drop_bit_eq signed_of_int)

lemma byte_0: "word_of_int v = int_byte v 0"
  by (simp add: int_byte_def)

lemma ushr_byte: "j < 3 \<Longrightarrow> int_byte (js_ushr v 8) j = int_byte v (j + 1)"
  by (auto simp: int_byte_def js_ushr_eq bit_simps algebra_simps intro!: bit_word_eqI)

lemma shr_byte:
  assumes "j < 3"
  shows "int_byte (js_shr v 8) j = int_byte v (j + 1)"
proof (rule bit_word_eqI)
  fix n
  assume n: "n < LENGTH(8)"
  then have "min 31 (8 + (8 * j + n)) = 8 + (8 * j + n)" using assms by simp
  then show "bit (int_byte (js_shr v 8) j) n = bit (int_byte v (j + 1)) n"
    using n by (simp add: int_byte_def js_shr_eq bit_simps algebra_simps)
qed

lemma high_byte: "int_byte (drop_bit 32 v) j = int_byte v (j + 4)"
  by (auto simp: int_byte_def bit_simps algebra_simps intro!: bit_word_eqI)

lemma mask_byte:
  assumes "j < 4"
  shows "int_byte (v AND 0xffffffff) j = int_byte v j"
proof -
  have "v AND 0xffffffff = take_bit 32 v" by (simp add: take_bit_eq_mask mask_eq_exp_minus_1)
  then show ?thesis using assms by (auto simp: int_byte_def bit_simps intro!: bit_word_eqI)
qed

lemma le_bytes_lists:
  "le_bytes 1 v = [int_byte v 0]"
  "le_bytes 2 v = [int_byte v 0, int_byte v 1]"
  "le_bytes 3 v = [int_byte v 0, int_byte v 1, int_byte v 2]"
  "le_bytes 4 v = [int_byte v 0, int_byte v 1, int_byte v 2, int_byte v 3]"
  "le_bytes 5 v = [int_byte v 0, int_byte v 1, int_byte v 2, int_byte v 3, int_byte v 4]"
  "le_bytes 6 v = [int_byte v 0, int_byte v 1, int_byte v 2, int_byte v 3, int_byte v 4, int_byte v 5]"
  "le_bytes 8 v = [int_byte v 0, int_byte v 1, int_byte v 2, int_byte v 3, int_byte v 4, int_byte v 5, int_byte v 6, int_byte v 7]"
  by (simp_all only: le_bytes_def upt_lists list.map)

lemmas stored_bytes = byte_0 ushr_byte shr_byte high_byte mask_byte le_bytes_lists

lemma le_value_append: "le_value (xs @ ys) = le_value xs + 256 ^ length xs * le_value ys"
  by (induction xs) (simp_all add: algebra_simps)

lemma le_value_bytes: "le_value (le_bytes k v) = take_bit (8 * k) v"
proof (induction k)
  case 0
  then show ?case by (simp add: le_bytes_def)
next
  case (Suc k)
  have "le_bytes (Suc k) v = le_bytes k v @ [int_byte v k]" by (simp add: le_bytes_def)
  then have "le_value (le_bytes (Suc k) v) = take_bit (8 * k) v + 256 ^ k * take_bit 8 (drop_bit (8 * k) v)"
    using Suc by (simp add: le_value_append int_byte_def unsigned_of_int)
  also have "\<dots> = take_bit (8 * Suc k) v"
    using zmod_zmult2_eq [of "2 ^ 8" v "2 ^ (8 * k)"] power_mult [of "2::int" 8 k]
    by (simp add: take_bit_eq_mod drop_bit_eq_div power_add mult.commute add.commute)
  finally show ?case .
qed

lemma signed_value_take_bit:
  assumes "- (2 ^ (n - 1)) \<le> v" "v < 2 ^ (n - 1)" "0 < n"
  shows "signed_value n (take_bit n v) = v"
proof -
  have p: "(2::int) ^ n = 2 * 2 ^ (n - 1)" using assms(3) by (cases n) auto
  show ?thesis
  proof (cases "0 \<le> v")
    case True
    then show ?thesis using assms p by (simp add: take_bit_int_eq_self signed_value_def)
  next
    case False
    have "take_bit n v = v + 2 ^ n"
    proof -
      have "(v + 2 ^ n) mod 2 ^ n = v + 2 ^ n" using False assms p by (intro mod_pos_pos_trivial) auto
      then show ?thesis by (simp add: take_bit_eq_mod)
    qed
    then show ?thesis using False assms p by (simp add: signed_value_def)
  qed
qed

subsection \<open>The stores\<close>

definition overwrite :: "bytes \<Rightarrow> nat \<Rightarrow> bytes \<Rightarrow> bytes" where
  "overwrite buf o' bs = take o' buf @ bs @ drop (o' + length bs) buf"

lemma overwrite_facts:
  assumes "o' + length bs \<le> length buf"
  shows "length (overwrite buf o' bs) = length buf" "window (overwrite buf o' bs) o' (length bs) = bs"
    "j < o' \<or> o' + length bs \<le> j \<Longrightarrow> overwrite buf o' bs ! j = buf ! j"
  using assms by (auto simp: overwrite_def window_def nth_append)

lemma put_overwrite:
  assumes "o' + k \<le> length buf" "length bs = k"
    and "\<And>pre xs post. length xs = k \<Longrightarrow> put (pre @ xs @ post) (length pre) st = pre @ bs @ post"
  shows "put buf o' st = overwrite buf o' bs"
proof -
  have "buf = take o' buf @ window buf o' k @ drop (o' + k) buf"
    by (metis add.commute append_take_drop_id drop_drop window_def)
  then show ?thesis
    using assms(3) [of "window buf o' k" "take o' buf" "drop (o' + k) buf"] assms(1,2)
    by (simp add: overwrite_def window_def)
qed

lemma checkBounds_index: "o' + k < length buf \<Longrightarrow> checkBounds buf (index o') k = Inr o'"
proof -
  assume a: "o' + k < length buf"
  have "(of_nat o' + of_nat k :: rat) = of_int (int (o' + k))" by simp
  then have "byte_at buf (num_add (Fin (of_nat o')) (int k)) = Some (buf ! (o' + k))"
    unfolding num_add_def using a by (simp add: byte_at_def nat_int_add)
  moreover have "byte_at buf (Fin (of_nat o')) = Some (buf ! o')" using a by (simp add: byte_at_def)
  ultimately show ?thesis by (simp add: checkBounds_def)
qed

lemma checkInt_index:
  "mn \<le> v \<Longrightarrow> v \<le> mx \<Longrightarrow> o' + k < length buf \<Longrightarrow> checkInt (jsint v) mn mx buf (index o') k = Inr o'"
  by (simp add: checkInt_def num_greater_def num_less_def checkBounds_index)

lemma list_6:
  "length xs = 1 \<Longrightarrow> \<exists>a. xs = [a]"
  "length xs = 2 \<Longrightarrow> \<exists>a b. xs = [a, b]"
  "length xs = 3 \<Longrightarrow> \<exists>a b c. xs = [a, b, c]"
  "length xs = 4 \<Longrightarrow> \<exists>a b c d. xs = [a, b, c, d]"
  "length xs = 5 \<Longrightarrow> \<exists>a b c d e. xs = [a, b, c, d, e]"
  "length xs = 6 \<Longrightarrow> \<exists>a b c d e f. xs = [a, b, c, d, e, f]"
  "length xs = 8 \<Longrightarrow> \<exists>a b c d e f g h. xs = [a, b, c, d, e, f, g, h]"
  by (auto simp: numeral_eq_Suc length_Suc_conv)

lemma put_here:
  "put (pre @ xs @ post) (length pre) st = pre @ put (xs @ post) 0 st"
  by (induction st arbitrary: xs rule: rev_induct) (auto simp: put_def list_update_append split: prod.splits)

lemma number_parts [simp]: "to_integer (jsint v) = v" "floor_high (jsint v) = drop_bit 32 v"
  using floor_divide_of_int_eq [of v "2 ^ 32", where ?'a = rat]
  by (simp_all add: to_integer_def floor_high_def drop_bit_eq_div)

lemma put_overwrite':
  assumes "o' + k \<le> length buf" "length bs = k"
    and "\<And>xs post. length xs = k \<Longrightarrow> put (xs @ post) 0 st = bs @ post"
  shows "put buf o' st = overwrite buf o' bs"
  using assms(1,2) by (rule put_overwrite) (simp add: put_here assms(3))

lemma put_lists:
  "length xs = 2 \<Longrightarrow> put (xs @ post) 0 [(0, a), (1, b)] = [word_of_int a, word_of_int b] @ post"
  "length xs = 2 \<Longrightarrow> put (xs @ post) 0 [(0, b), (1, a)] = [word_of_int b, word_of_int a] @ post"
  "length xs = 3 \<Longrightarrow> put (xs @ post) 0 [(0, a), (1, b), (2, c)] = map word_of_int [a, b, c] @ post"
  "length xs = 3 \<Longrightarrow> put (xs @ post) 0 [(2, a), (1, b), (0, c)] = map word_of_int [c, b, a] @ post"
  "length xs = 4 \<Longrightarrow> put (xs @ post) 0 [(0, a), (1, b), (2, c), (3, d)] = map word_of_int [a, b, c, d] @ post"
  "length xs = 4 \<Longrightarrow> put (xs @ post) 0 [(3, a), (2, b), (1, c), (0, d)] = map word_of_int [d, c, b, a] @ post"
  "length xs = 5 \<Longrightarrow> put (xs @ post) 0 [(0, a), (1, b), (2, c), (3, d), (4, e)] = map word_of_int [a, b, c, d, e] @ post"
  "length xs = 5 \<Longrightarrow> put (xs @ post) 0 [(0, e), (4, a), (3, b), (2, c), (1, d)] = map word_of_int [e, d, c, b, a] @ post"
  "length xs = 6 \<Longrightarrow> put (xs @ post) 0 [(0, a), (1, b), (2, c), (3, d), (4, e), (5, f)] = map word_of_int [a, b, c, d, e, f] @ post"
  "length xs = 6 \<Longrightarrow> put (xs @ post) 0 [(0, f), (1, e), (5, a), (4, b), (3, c), (2, d)] = map word_of_int [f, e, d, c, b, a] @ post"
  "length xs = 8 \<Longrightarrow> put (xs @ post) 0 [(0, a), (1, b), (2, c), (3, d), (4, e), (5, f), (6, g), (7, h)]
     = map word_of_int [a, b, c, d, e, f, g, h] @ post"
  "length xs = 8 \<Longrightarrow> put (xs @ post) 0 [(7, a), (6, b), (5, c), (4, d), (3, e), (2, f), (1, g), (0, h)]
     = map word_of_int [h, g, f, e, d, c, b, a] @ post"
  by (auto dest!: list_6 simp: put_def)

text \<open>What each writer of a fixed width stores, for a value in the range it is called with.\<close>

lemma writeU_Int_LE_stores:
  assumes "mn \<le> v" "v \<le> mx"
  shows "o' + 6 \<le> length buf \<Longrightarrow> writeU_Int48LE buf (jsint v) (index o') mn mx = Inr (o' + 6, overwrite buf o' (le_bytes 6 v))"
    "o' + 5 \<le> length buf \<Longrightarrow> writeU_Int40LE buf (jsint v) (index o') mn mx = Inr (o' + 5, overwrite buf o' (le_bytes 5 v))"
    "o' + 4 \<le> length buf \<Longrightarrow> writeU_Int32LE buf (jsint v) (index o') mn mx = Inr (o' + 4, overwrite buf o' (le_bytes 4 v))"
    "o' + 3 \<le> length buf \<Longrightarrow> writeU_Int24LE buf (jsint v) (index o') mn mx = Inr (o' + 3, overwrite buf o' (le_bytes 3 v))"
    "o' + 2 \<le> length buf \<Longrightarrow> writeU_Int16LE buf (jsint v) (index o') mn mx = Inr (o' + 2, overwrite buf o' (le_bytes 2 v))"
  unfolding writeU_Int48LE_def writeU_Int40LE_def writeU_Int32LE_def writeU_Int24LE_def writeU_Int16LE_def
  using assms
  by (auto simp: checkInt_index Let_def put_lists stored_bytes simp del: One_nat_def add_2_eq_Suc' intro!: put_overwrite')

lemma writeU_Int_BE_stores:
  assumes "mn \<le> v" "v \<le> mx"
  shows "o' + 6 \<le> length buf \<Longrightarrow> writeU_Int48BE buf (jsint v) (index o') mn mx = Inr (o' + 6, overwrite buf o' (rev (le_bytes 6 v)))"
    "o' + 5 \<le> length buf \<Longrightarrow> writeU_Int40BE buf (jsint v) (index o') mn mx = Inr (o' + 5, overwrite buf o' (rev (le_bytes 5 v)))"
    "o' + 4 \<le> length buf \<Longrightarrow> writeU_Int32BE buf (jsint v) (index o') mn mx = Inr (o' + 4, overwrite buf o' (rev (le_bytes 4 v)))"
    "o' + 3 \<le> length buf \<Longrightarrow> writeU_Int24BE buf (jsint v) (index o') mn mx = Inr (o' + 3, overwrite buf o' (rev (le_bytes 3 v)))"
    "o' + 2 \<le> length buf \<Longrightarrow> writeU_Int16BE buf (jsint v) (index o') mn mx = Inr (o' + 2, overwrite buf o' (rev (le_bytes 2 v)))"
  unfolding writeU_Int48BE_def writeU_Int40BE_def writeU_Int32BE_def writeU_Int24BE_def writeU_Int16BE_def
  using assms
  by (auto simp: checkInt_index Let_def put_lists stored_bytes simp del: One_nat_def add_2_eq_Suc' intro!: put_overwrite')

lemma writeU_Int8_stores:
  assumes "mn \<le> v" "v \<le> mx" "o' < length buf"
  shows "writeU_Int8 buf (jsint v) (index o') mn mx = Inr (o' + 1, overwrite buf o' (le_bytes 1 v))"
  using assms
  by (simp add: writeU_Int8_def num_greater_def num_less_def byte_at_def put_def overwrite_def le_bytes_lists
      byte_0 upd_conv_take_nth_drop [of o' buf] del: One_nat_def)

lemma writeBigU_Int64_stores:
  assumes "mn \<le> v" "v \<le> mx" "o' + 8 \<le> length buf"
  shows "writeBigU_Int64LE buf v (index o') mn mx = Inr (o' + 8, overwrite buf o' (le_bytes 8 v))"
    "writeBigU_Int64BE buf v (index o') mn mx = Inr (o' + 8, overwrite buf o' (rev (le_bytes 8 v)))"
proof -
  have "checkBigInt v mn mx buf (index o') 7 = Inr o'"
    using assms by (simp add: checkBigInt_def checkBounds_index)
  then show "writeBigU_Int64LE buf v (index o') mn mx = Inr (o' + 8, overwrite buf o' (le_bytes 8 v))"
    "writeBigU_Int64BE buf v (index o') mn mx = Inr (o' + 8, overwrite buf o' (rev (le_bytes 8 v)))"
    using assms(3)
    by (auto simp: writeBigU_Int64LE_def writeBigU_Int64BE_def Let_def put_lists stored_bytes
        simp del: One_nat_def intro!: put_overwrite')
qed

text \<open>What the writers of a variable width store.\<close>

lemma writeInt_LE_stores:
  assumes "1 \<le> k" "k \<le> 6" "o' + k \<le> length buf"
  shows "0 \<le> v \<Longrightarrow> v < 2 ^ (8 * k) \<Longrightarrow> writeUIntLE buf (jsint v) (index o') (index k) = Inr (o' + k, overwrite buf o' (le_bytes k v))"
    "- (2 ^ (8 * k - 1)) \<le> v \<Longrightarrow> v < 2 ^ (8 * k - 1) \<Longrightarrow> writeIntLE buf (jsint v) (index o') (index k) = Inr (o' + k, overwrite buf o' (le_bytes k v))"
  using assms(1,2)
  by (cases rule: width_cases; use assms(3) in \<open>simp add: writeUIntLE_def writeIntLE_def writeU_Int_LE_stores writeU_Int8_stores\<close>)+

lemma rev_byte: "rev (le_bytes (Suc 0) v) = le_bytes (Suc 0) v"
  by (simp add: le_bytes_def)

lemma writeInt_BE_stores:
  assumes "1 \<le> k" "k \<le> 6" "o' + k \<le> length buf"
  shows "0 \<le> v \<Longrightarrow> v < 2 ^ (8 * k) \<Longrightarrow> writeUIntBE buf (jsint v) (index o') (index k) = Inr (o' + k, overwrite buf o' (rev (le_bytes k v)))"
    "- (2 ^ (8 * k - 1)) \<le> v \<Longrightarrow> v < 2 ^ (8 * k - 1) \<Longrightarrow> writeIntBE buf (jsint v) (index o') (index k) = Inr (o' + k, overwrite buf o' (rev (le_bytes k v)))"
  using assms(1,2)
  by (cases rule: width_cases; use assms(3) in \<open>simp add: writeUIntBE_def writeIntBE_def writeU_Int_BE_stores writeU_Int8_stores rev_byte\<close>)+

subsection \<open>Failures\<close>

text \<open>The error of an access of \<open>k\<close> bytes at an offset that is not an index with \<open>k\<close> bytes from it on.\<close>

definition offset_failure :: "bytes \<Rightarrow> nat \<Rightarrow> jsval \<Rightarrow> jserror" where
  "offset_failure buf k offset =
     (case offset of
        JNum n \<Rightarrow>
          if \<not> is_whole n then ERR_OUT_OF_RANGE ''offset'' AnInteger
          else if length buf < k then ERR_BUFFER_OUT_OF_BOUNDS
          else ERR_OUT_OF_RANGE ''offset'' (Between 0 (of_int (int (length buf) - int k)) False)
      | _ \<Rightarrow> ERR_INVALID_ARG_TYPE ''offset'' ''number'')"

lemma offset_error_failure: "offset \<noteq> Undefined \<Longrightarrow> offset_error buf k offset = offset_failure buf k offset"
  by (auto simp: offset_error_def offset_failure_def default_offset_def boundsError_def split: jsval.split)

lemma valid_offset_index: "valid_offset buf k offset \<Longrightarrow> offset \<noteq> Undefined \<Longrightarrow> \<exists>n. offset = index n \<and> n + k \<le> length buf"
proof -
  assume v: "valid_offset buf k offset" and u: "offset \<noteq> Undefined"
  then obtain r where r: "offset = JNum (Fin r)" "r = of_int \<lfloor>r\<rfloor>" "0 \<le> \<lfloor>r\<rfloor>" "\<lfloor>r\<rfloor> + int k \<le> int (length buf)"
    by (auto simp: valid_offset_def default_offset_def split: jsval.splits jsnum.splits)
  then have "offset = index (nat \<lfloor>r\<rfloor>)" by (metis nat_0_le of_int_of_nat_eq)
  then show ?thesis using r by (intro exI [of _ "nat \<lfloor>r\<rfloor>"]) auto
qed

lemma read_bytes_invalid:
  "0 < k \<Longrightarrow> offset \<noteq> Undefined \<Longrightarrow> \<not> valid_offset buf k offset \<Longrightarrow> read_bytes buf offset k f = Inl (offset_failure buf k offset)"
  by (simp add: read_bytes_cases offset_error_failure)

lemma readUInt8_read_bytes: "readUInt8 buf offset = read_bytes buf offset 1 (\<lambda>b. b 0)"
proof -
  have "num_add n 0 = n" for n by (cases n) (simp_all add: num_add_def)
  then show ?thesis unfolding readUInt8_def read_bytes_def
    by (intro arg_cong [where f = "bind _"] ext) (auto simp: byte_at_def split: option.splits jsnum.splits)
qed

lemma checkBounds_read_bytes: "offset \<noteq> Undefined \<Longrightarrow> \<not> valid_offset buf (Suc k) offset \<Longrightarrow> checkBounds buf offset k = Inl (offset_failure buf (Suc k) offset)"
proof -
  assume a: "offset \<noteq> Undefined" "\<not> valid_offset buf (Suc k) offset"
  have "checkBounds buf offset k = Inl e" if "read_bytes buf offset (Suc k) (\<lambda>b. 0) = Inl e" for e
    using that a(1) unfolding checkBounds_def read_bytes_def default_offset_def
    by (cases "validateNumber offset ''offset''") (auto simp: byte_at_def add.commute split: option.splits jsnum.splits if_splits)
  with a show ?thesis by (simp add: read_bytes_invalid)
qed

subsection \<open>Properties\<close>

text \<open>
  C18: Every read of one to six bytes computes the integer the bytes denote in its byte order, in
  two's complement for the signed ones; the 32-bit masks and shifts of the sign extension are exact.
\<close>

theorem buffer_read_value:
  assumes "1 \<le> k" "k \<le> 6" "o' + k \<le> length buf"
  shows "readUIntLE buf (index o') (index k) = Inr (le_value (window buf o' k)) \<and>
    readUIntBE buf (index o') (index k) = Inr (be_value (window buf o' k)) \<and>
    readIntLE buf (index o') (index k) = Inr (signed_value (8 * k) (le_value (window buf o' k))) \<and>
    readIntBE buf (index o') (index k) = Inr (signed_value (8 * k) (be_value (window buf o' k)))"
  using assms by (simp only: readUIntLE_value readUIntBE_value readIntLE_value readIntBE_value)

theorem buffer_read_value_witness:
  "readUIntBE [7, 254, 1] (index 1) (index 2) = Inr 0xfe01 \<and> readIntBE [7, 254, 1] (index 1) (index 2) = Inr (- 0x1ff)"
  using buffer_read_value [of 2 1 "[7, 254, 1]"] by (simp add: window_def be_value_def signed_value_def)

text \<open>
  C20: A read of one to six bytes at an offset that is not an index with that many bytes from it on
  fails, whatever value the offset is, and with the error for its case: not a number, not an integer,
  a buffer too short, an offset out of range. No read answers from bytes outside the buffer.
\<close>

theorem buffer_read_error:
  assumes "1 \<le> k" "k \<le> 6" "offset \<noteq> Undefined" "\<nexists>n. offset = index n \<and> n + k \<le> length buf"
  shows "readUIntLE buf offset (index k) = Inl (offset_failure buf k offset) \<and>
    readUIntBE buf offset (index k) = Inl (offset_failure buf k offset) \<and>
    readIntLE buf offset (index k) = Inl (offset_failure buf k offset) \<and>
    readIntBE buf offset (index k) = Inl (offset_failure buf k offset)"
proof -
  have i: "\<not> valid_offset buf k offset" using assms valid_offset_index by blast
  show ?thesis
    using assms(1,2) by (cases rule: width_cases) (use i assms(3) in \<open>simp_all add: readUIntLE_def readUIntBE_def
      readIntLE_def readIntBE_def read_defs readInt8_def readUInt8_read_bytes read_bytes_invalid\<close>)
qed

theorem buffer_read_error_witness:
  "readIntLE [1, 2, 3] (index 2) (index 2) = Inl (ERR_OUT_OF_RANGE ''offset'' (Between 0 1 False))"
  using buffer_read_error [of 2 "index 2" "[1, 2, 3]"] by (simp add: offset_failure_def is_whole_def)

definition outside_same :: "bytes \<Rightarrow> nat \<Rightarrow> nat \<Rightarrow> bytes \<Rightarrow> bool" where
  "outside_same buf o' k buf' \<longleftrightarrow> length buf' = length buf \<and> (\<forall>j < length buf. j < o' \<or> o' + k \<le> j \<longrightarrow> buf' ! j = buf ! j)"

lemma outside_overwrite: "o' + length bs \<le> length buf \<Longrightarrow> outside_same buf o' (length bs) (overwrite buf o' bs)"
  by (auto simp: outside_same_def overwrite_facts)

lemma overwrite_le:
  assumes "o' + k \<le> length buf"
  shows "le_value (window (overwrite buf o' (le_bytes k v)) o' k) = take_bit (8 * k) v"
    "be_value (window (overwrite buf o' (rev (le_bytes k v))) o' k) = take_bit (8 * k) v"
    "outside_same buf o' k (overwrite buf o' (le_bytes k v))" "outside_same buf o' k (overwrite buf o' (rev (le_bytes k v)))"
    "length (overwrite buf o' (le_bytes k v)) = length buf" "length (overwrite buf o' (rev (le_bytes k v))) = length buf"
  using assms overwrite_facts(2) [of o' "le_bytes k v" buf] overwrite_facts(2) [of o' "rev (le_bytes k v)" buf]
    outside_overwrite [of o' "le_bytes k v" buf] outside_overwrite [of o' "rev (le_bytes k v)" buf]
  by (simp_all add: le_value_bytes be_value_def overwrite_facts)

text \<open>
  C19: A write of one to six bytes of an integer of its range succeeds at every index with the room,
  returns the offset after it, changes no byte outside, and the read of the same width, sign and byte
  order gives the integer back.
\<close>

theorem buffer_write_read:
  assumes "1 \<le> k" "k \<le> 6" "o' + k \<le> length buf"
  shows "(0 \<le> v \<and> v < 2 ^ (8 * k) \<longrightarrow>
      (\<exists>b. writeUIntLE buf (jsint v) (index o') (index k) = Inr (o' + k, b) \<and>
        readUIntLE b (index o') (index k) = Inr v \<and> outside_same buf o' k b) \<and>
      (\<exists>b. writeUIntBE buf (jsint v) (index o') (index k) = Inr (o' + k, b) \<and>
        readUIntBE b (index o') (index k) = Inr v \<and> outside_same buf o' k b)) \<and>
    (- (2 ^ (8 * k - 1)) \<le> v \<and> v < 2 ^ (8 * k - 1) \<longrightarrow>
      (\<exists>b. writeIntLE buf (jsint v) (index o') (index k) = Inr (o' + k, b) \<and>
        readIntLE b (index o') (index k) = Inr v \<and> outside_same buf o' k b) \<and>
      (\<exists>b. writeIntBE buf (jsint v) (index o') (index k) = Inr (o' + k, b) \<and>
        readIntBE b (index o') (index k) = Inr v \<and> outside_same buf o' k b))"
proof (intro conjI impI; elim conjE)
  note w = writeInt_LE_stores [OF assms] writeInt_BE_stores [OF assms]
  note r = readUIntLE_value readUIntBE_value readIntLE_value readIntBE_value
  {
    assume v: "0 \<le> v" "v < 2 ^ (8 * k)"
    then have t: "take_bit (8 * k) v = v" by (simp add: take_bit_int_eq_self)
    show "\<exists>b. writeUIntLE buf (jsint v) (index o') (index k) = Inr (o' + k, b) \<and>
        readUIntLE b (index o') (index k) = Inr v \<and> outside_same buf o' k b"
      using v assms t by (intro exI [of _ "overwrite buf o' (le_bytes k v)"]) (simp add: w r overwrite_le)
    show "\<exists>b. writeUIntBE buf (jsint v) (index o') (index k) = Inr (o' + k, b) \<and>
        readUIntBE b (index o') (index k) = Inr v \<and> outside_same buf o' k b"
      using v assms t by (intro exI [of _ "overwrite buf o' (rev (le_bytes k v))"]) (simp add: w r overwrite_le)
  }
  {
    assume v: "- (2 ^ (8 * k - 1)) \<le> v" "v < 2 ^ (8 * k - 1)"
    then have t: "signed_value (8 * k) (take_bit (8 * k) v) = v" using assms by (intro signed_value_take_bit) auto
    show "\<exists>b. writeIntLE buf (jsint v) (index o') (index k) = Inr (o' + k, b) \<and>
        readIntLE b (index o') (index k) = Inr v \<and> outside_same buf o' k b"
      using v assms t by (intro exI [of _ "overwrite buf o' (le_bytes k v)"]) (simp add: w r overwrite_le)
    show "\<exists>b. writeIntBE buf (jsint v) (index o') (index k) = Inr (o' + k, b) \<and>
        readIntBE b (index o') (index k) = Inr v \<and> outside_same buf o' k b"
      using v assms t by (intro exI [of _ "overwrite buf o' (rev (le_bytes k v))"]) (simp add: w r overwrite_le)
  }
qed

theorem buffer_write_read_witness:
  "\<exists>b. writeIntBE [1, 2, 3, 4] (jsint (- 2)) (index 1) (index 3) = Inr (4, b) \<and> readIntBE b (index 1) (index 3) = Inr (- 2) \<and>
    outside_same [1, 2, 3, 4] 1 3 b"
  using buffer_write_read [of 3 1 "[1, 2, 3, 4]" "- 2"] by simp

text \<open>
  The eight-byte BigInt writes and reads are inverse in both byte orders, signed and unsigned,
  and change no other byte.
\<close>

lemma buffer_bigint_write_read:
  assumes "o' + 8 \<le> length buf"
  shows "(0 \<le> v \<and> v < 2 ^ 64 \<longrightarrow>
      (\<exists>b. writeBigUInt64LE buf v (index o') = Inr (o' + 8, b) \<and> readBigUInt64LE b (index o') = Inr v \<and> outside_same buf o' 8 b) \<and>
      (\<exists>b. writeBigUInt64BE buf v (index o') = Inr (o' + 8, b) \<and> readBigUInt64BE b (index o') = Inr v \<and> outside_same buf o' 8 b)) \<and>
    (- (2 ^ 63) \<le> v \<and> v < 2 ^ 63 \<longrightarrow>
      (\<exists>b. writeBigInt64LE buf v (index o') = Inr (o' + 8, b) \<and> readBigInt64LE b (index o') = Inr v \<and> outside_same buf o' 8 b) \<and>
      (\<exists>b. writeBigInt64BE buf v (index o') = Inr (o' + 8, b) \<and> readBigInt64BE b (index o') = Inr v \<and> outside_same buf o' 8 b))"
proof (intro conjI impI; elim conjE)
  note w = writeBigUInt64LE_def writeBigUInt64BE_def writeBigInt64LE_def writeBigInt64BE_def default_offset_def
    writeBigU_Int64_stores readBig_value overwrite_le
  {
    assume v: "0 \<le> v" "v < 2 ^ 64"
    then have t: "take_bit 64 v = v" by (simp add: take_bit_int_eq_self)
    show "\<exists>b. writeBigUInt64LE buf v (index o') = Inr (o' + 8, b) \<and> readBigUInt64LE b (index o') = Inr v \<and> outside_same buf o' 8 b"
      using v assms t by (intro exI [of _ "overwrite buf o' (le_bytes 8 v)"]) (simp add: w)
    show "\<exists>b. writeBigUInt64BE buf v (index o') = Inr (o' + 8, b) \<and> readBigUInt64BE b (index o') = Inr v \<and> outside_same buf o' 8 b"
      using v assms t by (intro exI [of _ "overwrite buf o' (rev (le_bytes 8 v))"]) (simp add: w)
  }
  {
    assume v: "- (2 ^ 63) \<le> v" "v < 2 ^ 63"
    then have t: "signed_value 64 (take_bit 64 v) = v" by (intro signed_value_take_bit) auto
    show "\<exists>b. writeBigInt64LE buf v (index o') = Inr (o' + 8, b) \<and> readBigInt64LE b (index o') = Inr v \<and> outside_same buf o' 8 b"
      using v assms t by (intro exI [of _ "overwrite buf o' (le_bytes 8 v)"]) (simp add: w)
    show "\<exists>b. writeBigInt64BE buf v (index o') = Inr (o' + 8, b) \<and> readBigInt64BE b (index o') = Inr v \<and> outside_same buf o' 8 b"
      using v assms t by (intro exI [of _ "overwrite buf o' (rev (le_bytes 8 v))"]) (simp add: w)
  }
qed

lemma buffer_bigint_write_read_witness:
  "\<exists>b. writeBigInt64BE (replicate 9 0) (- 5) (index 1) = Inr (9, b) \<and> readBigInt64BE b (index 1) = Inr (- 5) \<and>
    outside_same (replicate 9 0) 1 8 b"
  using buffer_bigint_write_read [of 1 "replicate 9 0" "- 5"] by simp

text \<open>The range a write reports: bits for five and six bytes, the bounds for the others.\<close>

definition reported_range :: "bool \<Rightarrow> nat \<Rightarrow> range_desc" where
  "reported_range sgnd k =
     (if sgnd then (if k \<le> 4 then Between (- (2 ^ (8 * k - 1))) (2 ^ (8 * k - 1) - 1) False else SignedBits (8 * k - 1) False)
      else (if k \<le> 4 then Between 0 (2 ^ (8 * k) - 1) False else UnsignedBits (8 * k) False))"

lemma checkInt_value_error:
  "num_greater value mx \<or> num_less value mn \<Longrightarrow>
    checkInt value mn mx buf offset b = Inl (ERR_OUT_OF_RANGE ''value'' (int_range mn mx b False))"
  by (simp add: checkInt_def)

lemma checkInt_offset_error:
  "\<not> num_greater value mx \<Longrightarrow> \<not> num_less value mn \<Longrightarrow> offset \<noteq> Undefined \<Longrightarrow> \<not> valid_offset buf (Suc k) offset \<Longrightarrow>
    checkInt value mn mx buf offset k = Inl (offset_failure buf (Suc k) offset)"
  by (simp add: checkInt_def checkBounds_read_bytes)

lemma writeU_Int8_value_error:
  "num_greater value mx \<or> num_less value mn \<Longrightarrow>
    writeU_Int8 buf value (JNum n) mn mx = Inl (ERR_OUT_OF_RANGE ''value'' (Between (of_int mn) (of_int mx) False))"
  by (simp add: writeU_Int8_def)

lemma writeU_Int8_offset_error:
  assumes "\<not> num_greater value mx" "\<not> num_less value mn" "offset \<noteq> Undefined" "\<not> valid_offset buf 1 offset"
  shows "writeU_Int8 buf value offset mn mx = Inl (offset_failure buf 1 offset)"
proof -
  have "writeU_Int8 buf value offset mn mx = Inl e" if "read_bytes buf offset 1 (\<lambda>b. 0) = Inl e" for e
    using that assms(1-3) unfolding writeU_Int8_def read_bytes_def default_offset_def
    by (cases "validateNumber offset ''offset''")
      (auto simp: byte_at_def num_add_def split: option.splits jsnum.splits if_splits)
  with assms show ?thesis by (simp add: read_bytes_invalid)
qed

lemmas write_defs = writeU_Int48LE_def writeU_Int40LE_def writeU_Int32LE_def writeU_Int24LE_def writeU_Int16LE_def
  writeU_Int48BE_def writeU_Int40BE_def writeU_Int32BE_def writeU_Int24BE_def writeU_Int16BE_def

lemma write_value_error:
  assumes "1 \<le> k" "k \<le> 6"
  shows "(num_less value 0 \<or> num_greater value (2 ^ (8 * k) - 1) \<longrightarrow>
      writeUIntLE buf value (JNum n) (index k) = Inl (ERR_OUT_OF_RANGE ''value'' (reported_range False k)) \<and>
      writeUIntBE buf value (JNum n) (index k) = Inl (ERR_OUT_OF_RANGE ''value'' (reported_range False k))) \<and>
    (num_less value (- (2 ^ (8 * k - 1))) \<or> num_greater value (2 ^ (8 * k - 1) - 1) \<longrightarrow>
      writeIntLE buf value (JNum n) (index k) = Inl (ERR_OUT_OF_RANGE ''value'' (reported_range True k)) \<and>
      writeIntBE buf value (JNum n) (index k) = Inl (ERR_OUT_OF_RANGE ''value'' (reported_range True k)))"
  using assms
  by (cases rule: width_cases)
    (auto simp: writeUIntLE_def writeUIntBE_def writeIntLE_def writeIntBE_def write_defs checkInt_value_error
      writeU_Int8_value_error reported_range_def int_range_def)

lemma write_offset_error:
  assumes "1 \<le> k" "k \<le> 6" "offset \<noteq> Undefined" "\<nexists>n. offset = index n \<and> n + k \<le> length buf"
  shows "(\<not> num_less value 0 \<and> \<not> num_greater value (2 ^ (8 * k) - 1) \<longrightarrow>
      writeUIntLE buf value offset (index k) = Inl (offset_failure buf k offset) \<and>
      writeUIntBE buf value offset (index k) = Inl (offset_failure buf k offset)) \<and>
    (\<not> num_less value (- (2 ^ (8 * k - 1))) \<and> \<not> num_greater value (2 ^ (8 * k - 1) - 1) \<longrightarrow>
      writeIntLE buf value offset (index k) = Inl (offset_failure buf k offset) \<and>
      writeIntBE buf value offset (index k) = Inl (offset_failure buf k offset))"
proof -
  have i: "\<not> valid_offset buf k offset" using assms valid_offset_index by blast
  show ?thesis
    using assms(1,2) by (cases rule: width_cases) (use i assms(3) in \<open>auto simp: writeUIntLE_def writeUIntBE_def
      writeIntLE_def writeIntBE_def write_defs checkInt_offset_error
      checkInt_offset_error [where k = "Suc 0", folded numeral_2_eq_2] writeU_Int8_offset_error\<close>)
qed

text \<open>
  A write of one to six bytes of a number outside the range of its width and sign, an infinity
  included, fails with the range, before the bounds of the offset are looked at. A write of a number
  in range, at an offset that is not an index with the room, fails with the error of the read at that
  offset. Neither stores anything.
\<close>

lemma buffer_write_error:
  assumes "1 \<le> k" "k \<le> 6"
  shows "(num_less value 0 \<or> num_greater value (2 ^ (8 * k) - 1) \<longrightarrow>
      writeUIntLE buf value (JNum n) (index k) = Inl (ERR_OUT_OF_RANGE ''value'' (reported_range False k)) \<and>
      writeUIntBE buf value (JNum n) (index k) = Inl (ERR_OUT_OF_RANGE ''value'' (reported_range False k))) \<and>
    (num_less value (- (2 ^ (8 * k - 1))) \<or> num_greater value (2 ^ (8 * k - 1) - 1) \<longrightarrow>
      writeIntLE buf value (JNum n) (index k) = Inl (ERR_OUT_OF_RANGE ''value'' (reported_range True k)) \<and>
      writeIntBE buf value (JNum n) (index k) = Inl (ERR_OUT_OF_RANGE ''value'' (reported_range True k))) \<and>
    (offset \<noteq> Undefined \<and> (\<nexists>n. offset = index n \<and> n + k \<le> length buf) \<longrightarrow>
      (\<not> num_less value 0 \<and> \<not> num_greater value (2 ^ (8 * k) - 1) \<longrightarrow>
        writeUIntLE buf value offset (index k) = Inl (offset_failure buf k offset) \<and>
        writeUIntBE buf value offset (index k) = Inl (offset_failure buf k offset)) \<and>
      (\<not> num_less value (- (2 ^ (8 * k - 1))) \<and> \<not> num_greater value (2 ^ (8 * k - 1) - 1) \<longrightarrow>
        writeIntLE buf value offset (index k) = Inl (offset_failure buf k offset) \<and>
        writeIntBE buf value offset (index k) = Inl (offset_failure buf k offset)))"
  using write_value_error [OF assms, of "value" buf n] write_offset_error [OF assms, of offset buf "value"] by blast

lemma buffer_write_error_witness:
  "writeIntLE [0, 0] (Fin (255 / 2)) (index 0) (index 1) = Inl (ERR_OUT_OF_RANGE ''value'' (Between (- 128) 127 False)) \<and>
   writeUIntLE [0, 0] (jsint 3) (index 1) (index 2) = Inl (ERR_OUT_OF_RANGE ''offset'' (Between 0 0 False))"
  using buffer_write_error [of 1 "Fin (255 / 2)" "[0, 0]" "Fin 0"] buffer_write_error [of 2 "jsint 3" "[0, 0]" "Fin 0" "index 1"]
  by (simp add: num_greater_def num_less_def reported_range_def offset_failure_def is_whole_def)

end
