(* ===== verification/SearchParams.thy ===== *)
theory SearchParams
  imports QueryEscape "HOL-Library.List_Lexorder"
begin

text \<open>
  The class \<^verbatim>\<open>URLSearchParams\<close> of lib/internal/url.js: its list \<^verbatim>\<open>#searchParams\<close> of names and values in
  turn, and its associated URL. The URL is of any type: the class only calls
  \<^verbatim>\<open>setURLSearchParamsModified\<close> on it, the argument \<open>notify\<close>, which reads the list of its own params
  object and so is given that list. A receiver is \<open>None\<close> where it is no params object; the arguments
  of a call are a list, short where some are not given.
\<close>

subsection \<open>Strings of values\<close>

text \<open>
  \<open>pe_unescape\<close> is what \<^verbatim>\<open>querystring.unescape\<close> was replaced with, \<open>None\<close> where it is
  \<^verbatim>\<open>qsUnescape\<close>. \<open>object_toString\<close> is the string of an object, from its own methods.
\<close>

record params_env =
  pe_query :: query_env
  pe_unescape :: "(jsstring \<Rightarrow> jsstring) option"
  object_toString :: "nat \<Rightarrow> jsstring result"

definition params_unescape :: "params_env \<Rightarrow> jsstring \<Rightarrow> jsstring" where
  "params_unescape env s =
     (case pe_unescape env of None \<Rightarrow> qsUnescape (pe_query env) s False | Some f \<Rightarrow> f s)"

definition template_string :: "params_env \<Rightarrow> jsval \<Rightarrow> jsstring result" where
  "template_string env v =
     (case v of
        JStr s \<Rightarrow> Inr s
      | Undefined \<Rightarrow> Inr (js ''undefined'')
      | Null \<Rightarrow> Inr (js ''null'')
      | JBool b \<Rightarrow> Inr (if b then js ''true'' else js ''false'')
      | JNum (Fin r) \<Rightarrow> Inr (number_toString (pe_query env) r)
      | JNum NaN \<Rightarrow> Inr (js ''NaN'')
      | JNum PosInf \<Rightarrow> Inr (js ''Infinity'')
      | JNum NegInf \<Rightarrow> Inr (js ''-Infinity'')
      | JBigInt i \<Rightarrow> Inr (bigint_toString i)
      | JFunction f \<Rightarrow> object_toString env f
      | JObject f \<Rightarrow> object_toString env f)"

text \<open>\<^verbatim>\<open>toWellFormed\<close> of the language: a lone surrogate becomes U+FFFD.\<close>

fun toWellFormed :: "jsstring \<Rightarrow> jsstring" where
  "toWellFormed [] = []"
| "toWellFormed [c] = [if 0xD800 \<le> c \<and> c < 0xE000 then 0xFFFD else c]"
| "toWellFormed (c # d # s) =
     (if 0xD800 \<le> c \<and> c < 0xDC00 \<and> 0xDC00 \<le> d \<and> d < 0xE000 then c # d # toWellFormed s
      else (if 0xD800 \<le> c \<and> c < 0xE000 then 0xFFFD else c) # toWellFormed (d # s))"

definition usv_string :: "params_env \<Rightarrow> jsval \<Rightarrow> jsstring result" where
  "usv_string env v = bind (template_string env v) (\<lambda>s. Inr (toWellFormed s))"

subsection \<open>Parsing\<close>

record params_state =
  ps_out :: "jsstring list"
  seenSep :: bool
  ps_buf :: jsstring
  ps_encoded :: bool
  encodeCheck :: nat
  pairStart :: nat
  lastPos :: nat

text \<open>What is in \<open>buf\<close> when a name or a value ends at \<open>i\<close>, and its text.\<close>

definition flush_buf :: "jsstring \<Rightarrow> nat \<Rightarrow> params_state \<Rightarrow> jsstring" where
  "flush_buf qs i st = (if lastPos st < i then ps_buf st @ slice qs (int (lastPos st)) (int i) else ps_buf st)"

definition take_piece :: "params_env \<Rightarrow> jsstring \<Rightarrow> nat \<Rightarrow> params_state \<Rightarrow> jsstring" where
  "take_piece env qs i st =
     (let b = flush_buf qs i st in if ps_encoded st then params_unescape env b else b)"

definition params_step :: "params_env \<Rightarrow> jsstring \<Rightarrow> nat \<Rightarrow> params_state \<Rightarrow> params_state" where
  "params_step env qs i st =
     (let code = qs ! i in
      if code = 38 then
        (if pairStart st = i then st\<lparr>pairStart := i + 1, lastPos := i + 1\<rparr>
         else st\<lparr>ps_out := ps_out st @ take_piece env qs i st # (if \<not> seenSep st then [[]] else []),
                 seenSep := False, ps_buf := [], ps_encoded := False, encodeCheck := 0,
                 pairStart := i + 1, lastPos := i + 1\<rparr>)
      else if \<not> seenSep st \<and> code = 61 then
        st\<lparr>ps_out := ps_out st @ [take_piece env qs i st], seenSep := True, ps_buf := [], ps_encoded := False,
           encodeCheck := 0, lastPos := i + 1\<rparr>
      else if code = 43 then st\<lparr>ps_buf := flush_buf qs i st @ [32], lastPos := i + 1\<rparr>
      else if \<not> ps_encoded st then
        (if code = 37 then st\<lparr>encodeCheck := 1\<rparr>
         else if encodeCheck st > 0 then
           (if isHexTable code
            then st\<lparr>encodeCheck := encodeCheck st + 1, ps_encoded := (encodeCheck st + 1 = 3)\<rparr>
            else st\<lparr>encodeCheck := 0\<rparr>)
         else st)
      else st)"

function params_loop :: "params_env \<Rightarrow> jsstring \<Rightarrow> nat \<Rightarrow> params_state \<Rightarrow> jsstring list" where
  "params_loop env qs i st =
     (if i < length qs then params_loop env qs (i + 1) (params_step env qs i st)
      else if pairStart st = i then ps_out st
      else ps_out st @ take_piece env qs i st # (if \<not> seenSep st then [[]] else []))"
  by pat_completeness auto
termination
  by (relation "measure (\<lambda>(_, qs, i, _). length qs - i)") auto

declare params_loop.simps [simp del]

definition parseParams :: "params_env \<Rightarrow> jsstring \<Rightarrow> jsstring list" where
  "parseParams env qs =
     (let i = (if charCodeAt qs 0 = Some 63 then 1 else 0)
      in params_loop env qs i
           \<lparr>ps_out = [], seenSep = False, ps_buf = [], ps_encoded = False, encodeCheck = 0, pairStart = i, lastPos = i\<rparr>)"

subsection \<open>Printing\<close>

definition params_noEscape :: "nat \<Rightarrow> bool" where
  "params_noEscape c \<longleftrightarrow>
     c = 42 \<or> c = 45 \<or> c = 46 \<or> 48 \<le> c \<and> c < 58 \<or> 65 \<le> c \<and> c < 91 \<or> c = 95 \<or> 97 \<le> c \<and> c < 123"

definition paramHexTable :: "nat \<Rightarrow> jsstring" where
  "paramHexTable c = (if c = 32 then [43] else hexTable c)"

text \<open>A name with no value after it would be \<^verbatim>\<open>encodeStr(undefined)\<close>, which reads a property of undefined.\<close>

definition serialize_pair :: "jsstring \<Rightarrow> jsstring option \<Rightarrow> jsstring result" where
  "serialize_pair k v =
     bind (encodeStr k params_noEscape paramHexTable) (\<lambda>encodedParam.
       case v of
         None \<Rightarrow> Inl (TypeError ''undefined.length'')
       | Some v \<Rightarrow> bind (encodeStr v params_noEscape paramHexTable) (\<lambda>encodedValue.
           Inr (encodedParam @ [61] @ encodedValue)))"

function serialize_loop :: "jsstring list \<Rightarrow> nat \<Rightarrow> jsstring \<Rightarrow> jsstring result" where
  "serialize_loop array i output =
     (if i < length array then
        bind (serialize_pair (array ! i) (if i + 1 < length array then Some (array ! (i + 1)) else None))
          (\<lambda>t. serialize_loop array (i + 2) (output @ [38] @ t))
      else Inr output)"
  by pat_completeness auto
termination
  by (relation "measure (\<lambda>(array, i, _). length array - i)") auto

declare serialize_loop.simps [simp del]

definition serializeParams :: "jsstring list \<Rightarrow> jsstring result" where
  "serializeParams array =
     (if length array = 0 then Inr []
      else bind (serialize_pair (array ! 0) (if 1 < length array then Some (array ! 1) else None))
             (serialize_loop array 2))"

subsection \<open>The constructor\<close>

record 'u params =
  searchParams :: "jsstring list"
  context_url :: "'u option"

text \<open>
  What the constructor is given: nothing, a params object that iterates as the class does, another
  iterable, an object whose iterator method is no function, an object with its own keys, strings or symbols (None) (each with
  whether it is enumerable), or a primitive. A pair of an iterable is null or undefined, an array, an iterable, or
  something else.
\<close>

datatype pair_init = NullPair | ArrayPair "jsval list" | IterablePair "jsval list" | OtherPair

datatype params_init =
    NoInit
  | ParamsInit "jsstring list"
  | IterableInit "pair_init list"
  | BadIterableInit
  | RecordInit "(jsstring option \<times> bool \<times> jsval) list"
  | PrimitiveInit jsval

definition invalid_tuple :: jserror where
  "invalid_tuple = ERR_INVALID_TUPLE ''Each query pair'' ''[name, value]''"

fun push_elements :: "params_env \<Rightarrow> jsval list \<Rightarrow> jsstring list \<Rightarrow> jsstring list result" where
  "push_elements env [] list = Inr list"
| "push_elements env (v # vs) list = bind (usv_string env v) (\<lambda>s. push_elements env vs (list @ [s]))"

fun push_pairs :: "params_env \<Rightarrow> pair_init list \<Rightarrow> jsstring list \<Rightarrow> jsstring list result" where
  "push_pairs env [] list = Inr list"
| "push_pairs env (pair # init) list =
     (case pair of
        NullPair \<Rightarrow> Inl invalid_tuple
      | ArrayPair vs \<Rightarrow>
          (if length vs \<noteq> 2 then Inl invalid_tuple
           else bind (usv_string env (vs ! 0)) (\<lambda>k. bind (usv_string env (vs ! 1)) (\<lambda>v.
                  push_pairs env init (list @ [k, v]))))
      | IterablePair vs \<Rightarrow>
          bind (push_elements env vs list) (\<lambda>list'.
            if length vs \<noteq> 2 then Inl invalid_tuple else push_pairs env init list')
      | OtherPair \<Rightarrow> Inl invalid_tuple)"

fun push_record ::
    "params_env \<Rightarrow> (jsstring option \<times> bool \<times> jsval) list \<Rightarrow> (jsstring \<rightharpoonup> nat) \<Rightarrow> jsstring list \<Rightarrow>
     jsstring list result" where
  "push_record env [] visited list = Inr list"
| "push_record env ((key, enumerable, v) # init) visited list =
     (if enumerable then
        (case key of
           None \<Rightarrow> Inl (TypeError ''Cannot convert a Symbol value to a string'')
         | Some key \<Rightarrow>
             (let typedKey = toWellFormed key in
              bind (usv_string env v) (\<lambda>typedValue.
                case visited typedKey of
                  Some keyIdx \<Rightarrow> push_record env init visited (list[keyIdx := typedValue])
                | None \<Rightarrow>
                    push_record env init (visited(typedKey \<mapsto> length list + 2 - 1)) (list @ [typedKey, typedValue]))))
      else push_record env init visited list)"

definition new_params :: "params_env \<Rightarrow> params_init \<Rightarrow> 'u params result" where
  "new_params env init =
     bind (case init of
             NoInit \<Rightarrow> Inr []
           | ParamsInit childParams \<Rightarrow> Inr childParams
           | IterableInit pairs \<Rightarrow> push_pairs env pairs []
           | BadIterableInit \<Rightarrow> Inl (ERR_ARG_NOT_ITERABLE ''Query pairs'')
           | RecordInit own \<Rightarrow> push_record env own Map.empty []
           | PrimitiveInit v \<Rightarrow>
               bind (usv_string env v) (\<lambda>s. Inr (if s \<noteq> [] then parseParams env s else [])))
       (\<lambda>list. Inr \<lparr>searchParams = list, context_url = None\<rparr>)"

text \<open>The setter the class hands to the URL class.\<close>

definition setURLSearchParams :: "params_env \<Rightarrow> 'u params \<Rightarrow> jsstring option \<Rightarrow> 'u params" where
  "setURLSearchParams env p query =
     p\<lparr>searchParams := (case query of None \<Rightarrow> [] | Some q \<Rightarrow> parseParams env q)\<rparr>"

subsection \<open>Methods\<close>

definition this_params :: "'u params option \<Rightarrow> 'u params result" where
  "this_params this = (case this of None \<Rightarrow> Inl (ERR_INVALID_THIS ''URLSearchParams'') | Some p \<Rightarrow> Inr p)"

definition touch :: "(jsstring list \<Rightarrow> 'u \<Rightarrow> 'u) \<Rightarrow> 'u params \<Rightarrow> 'u params" where
  "touch notify p =
     (case context_url p of
        None \<Rightarrow> p
      | Some u \<Rightarrow> p\<lparr>context_url := Some (notify (searchParams p) u)\<rparr>)"

definition params_size :: "'u params option \<Rightarrow> rat result" where
  "params_size this = bind (this_params this) (\<lambda>p. Inr (of_nat (length (searchParams p)) / 2))"

definition params_append ::
    "(jsstring list \<Rightarrow> 'u \<Rightarrow> 'u) \<Rightarrow> params_env \<Rightarrow> 'u params option \<Rightarrow> jsval list \<Rightarrow> 'u params result" where
  "params_append notify env this args =
     bind (this_params this) (\<lambda>p.
       if length args < 2 then Inl (ERR_MISSING_ARGS [''name'', ''value''])
       else bind (usv_string env (args ! 0)) (\<lambda>name. bind (usv_string env (args ! 1)) (\<lambda>val.
         Inr (touch notify (p\<lparr>searchParams := searchParams p @ [name, val]\<rparr>)))))"

text \<open>An optional second argument: not given and undefined are the same.\<close>

definition optional_value :: "params_env \<Rightarrow> jsval list \<Rightarrow> jsstring option result" where
  "optional_value env args =
     (if length args < 2 \<or> args ! 1 = Undefined then Inr None
      else bind (usv_string env (args ! 1)) (\<lambda>s. Inr (Some s)))"

definition value_at :: "jsstring list \<Rightarrow> nat \<Rightarrow> jsval" where
  "value_at list i = (if i < length list then JStr (list ! i) else Undefined)"

definition pair_matches :: "jsstring \<Rightarrow> jsstring option \<Rightarrow> jsstring list \<Rightarrow> nat \<Rightarrow> bool" where
  "pair_matches name val list i \<longleftrightarrow>
     list ! i = name \<and> (case val of None \<Rightarrow> True | Some v \<Rightarrow> value_at list (i + 1) = JStr v)"

definition splice2 :: "nat \<Rightarrow> jsstring list \<Rightarrow> jsstring list" where
  "splice2 i list = take i list @ drop (i + 2) list"

function delete_loop :: "jsstring \<Rightarrow> jsstring option \<Rightarrow> jsstring list \<Rightarrow> nat \<Rightarrow> jsstring list" where
  "delete_loop name val list i =
     (if i < length list then
        (if pair_matches name val list i then delete_loop name val (splice2 i list) i
         else delete_loop name val list (i + 2))
      else list)"
  by pat_completeness auto
termination
  by (relation "measure (\<lambda>(_, _, list, i). length list - i)") (auto simp: splice2_def)

definition params_delete ::
    "(jsstring list \<Rightarrow> 'u \<Rightarrow> 'u) \<Rightarrow> params_env \<Rightarrow> 'u params option \<Rightarrow> jsval list \<Rightarrow> 'u params result" where
  "params_delete notify env this args =
     bind (this_params this) (\<lambda>p.
       if length args < 1 then Inl (ERR_MISSING_ARGS [''name''])
       else bind (usv_string env (args ! 0)) (\<lambda>name. bind (optional_value env args) (\<lambda>val.
         Inr (touch notify (p\<lparr>searchParams := delete_loop name val (searchParams p) 0\<rparr>)))))"

function get_loop :: "jsstring \<Rightarrow> jsstring list \<Rightarrow> nat \<Rightarrow> jsval" where
  "get_loop name list i =
     (if i < length list then
        (if list ! i = name then value_at list (i + 1) else get_loop name list (i + 2))
      else Null)"
  by pat_completeness auto
termination
  by (relation "measure (\<lambda>(_, list, i). length list - i)") auto

definition params_get :: "params_env \<Rightarrow> 'u params option \<Rightarrow> jsval list \<Rightarrow> jsval result" where
  "params_get env this args =
     bind (this_params this) (\<lambda>p.
       if length args < 1 then Inl (ERR_MISSING_ARGS [''name''])
       else bind (usv_string env (args ! 0)) (\<lambda>name. Inr (get_loop name (searchParams p) 0)))"

function getAll_loop :: "jsstring \<Rightarrow> jsstring list \<Rightarrow> nat \<Rightarrow> jsval list \<Rightarrow> jsval list" where
  "getAll_loop name list i values =
     (if i < length list then
        getAll_loop name list (i + 2) (if list ! i = name then values @ [value_at list (i + 1)] else values)
      else values)"
  by pat_completeness auto
termination
  by (relation "measure (\<lambda>(_, list, i, _). length list - i)") auto

definition params_getAll :: "params_env \<Rightarrow> 'u params option \<Rightarrow> jsval list \<Rightarrow> jsval list result" where
  "params_getAll env this args =
     bind (this_params this) (\<lambda>p.
       if length args < 1 then Inl (ERR_MISSING_ARGS [''name''])
       else bind (usv_string env (args ! 0)) (\<lambda>name. Inr (getAll_loop name (searchParams p) 0 [])))"

function has_loop :: "jsstring \<Rightarrow> jsstring option \<Rightarrow> jsstring list \<Rightarrow> nat \<Rightarrow> bool" where
  "has_loop name val list i =
     (if i < length list then (if pair_matches name val list i then True else has_loop name val list (i + 2))
      else False)"
  by pat_completeness auto
termination
  by (relation "measure (\<lambda>(_, _, list, i). length list - i)") auto

definition params_has :: "params_env \<Rightarrow> 'u params option \<Rightarrow> jsval list \<Rightarrow> bool result" where
  "params_has env this args =
     bind (this_params this) (\<lambda>p.
       if length args < 1 then Inl (ERR_MISSING_ARGS [''name''])
       else bind (usv_string env (args ! 0)) (\<lambda>name. bind (optional_value env args) (\<lambda>val.
         Inr (has_loop name val (searchParams p) 0))))"

text \<open>A store one past the end of an array extends it.\<close>

definition store_at :: "jsstring list \<Rightarrow> nat \<Rightarrow> jsstring \<Rightarrow> jsstring list" where
  "store_at list i v = (if i < length list then list[i := v] else list @ [v])"

function set_loop :: "jsstring \<Rightarrow> jsstring \<Rightarrow> jsstring list \<Rightarrow> nat \<Rightarrow> bool \<Rightarrow> jsstring list \<times> bool" where
  "set_loop name val list i found =
     (if i < length list then
        (if list ! i = name then
           (if \<not> found then set_loop name val (store_at list (i + 1) val) (i + 2) True
            else set_loop name val (splice2 i list) i found)
         else set_loop name val list (i + 2) found)
      else (list, found))"
  by pat_completeness auto
termination
  by (relation "measure (\<lambda>(_, _, list, i, _). length list - i)") (auto simp: splice2_def store_at_def)

definition params_set ::
    "(jsstring list \<Rightarrow> 'u \<Rightarrow> 'u) \<Rightarrow> params_env \<Rightarrow> 'u params option \<Rightarrow> jsval list \<Rightarrow> 'u params result" where
  "params_set notify env this args =
     bind (this_params this) (\<lambda>p.
       if length args < 2 then Inl (ERR_MISSING_ARGS [''name'', ''value''])
       else bind (usv_string env (args ! 0)) (\<lambda>name. bind (usv_string env (args ! 1)) (\<lambda>val.
         let (list, found) = set_loop name val (searchParams p) 0 False
         in Inr (touch notify (p\<lparr>searchParams := (if \<not> found then list @ [name, val] else list)\<rparr>)))))"

definition params_toString :: "'u params option \<Rightarrow> jsstring result" where
  "params_toString this = bind (this_params this) (\<lambda>p. serializeParams (searchParams p))"

declare delete_loop.simps [simp del] get_loop.simps [simp del] getAll_loop.simps [simp del]
  has_loop.simps [simp del] set_loop.simps [simp del]

subsection \<open>Iterating\<close>

datatype iterator_kind = KeyKind | ValueKind | PairKind

record params_iterator =
  it_kind :: iterator_kind
  it_index :: nat

datatype iterator_item = Item jsval | PairItem jsval jsval

text \<open>\<^verbatim>\<open>entries\<close>, \<^verbatim>\<open>keys\<close> and \<^verbatim>\<open>values\<close>.\<close>

definition params_iterate :: "iterator_kind \<Rightarrow> 'u params option \<Rightarrow> params_iterator result" where
  "params_iterate k this = bind (this_params this) (\<lambda>_. Inr \<lparr>it_kind = k, it_index = 0\<rparr>)"

text \<open>\<^verbatim>\<open>next\<close>: \<open>None\<close> is done. The target is read at every call.\<close>

definition iterator_next ::
    "params_iterator option \<Rightarrow> jsstring list \<Rightarrow> (iterator_item option \<times> params_iterator) result" where
  "iterator_next this list =
     (case this of
        None \<Rightarrow> Inl (ERR_INVALID_THIS ''URLSearchParamsIterator'')
      | Some it \<Rightarrow>
          (if it_index it \<ge> length list then Inr (None, it)
           else
             (let name = value_at list (it_index it);
                  val = value_at list (it_index it + 1);
                  item = (case it_kind it of KeyKind \<Rightarrow> Item name | ValueKind \<Rightarrow> Item val | PairKind \<Rightarrow> PairItem name val)
              in Inr (Some item, it\<lparr>it_index := it_index it + 2\<rparr>))))"

text \<open>
  \<^verbatim>\<open>forEach\<close>: the callback may do anything to the params object, which is part of the state \<open>'s\<close>, or
  throw; the list is read again after every call, so the loop may run for ever.
\<close>

partial_function (option) forEach_loop ::
    "(jsval \<Rightarrow> jsval \<Rightarrow> 's \<Rightarrow> 's result) \<Rightarrow> ('s \<Rightarrow> jsstring list) \<Rightarrow> nat \<Rightarrow> 's \<Rightarrow> 's result option" where
  "forEach_loop callback params_of i s =
     (if i < length (params_of s) then
        (case callback (value_at (params_of s) (i + 1)) (value_at (params_of s) i) s of
           Inl e \<Rightarrow> Some (Inl e)
         | Inr s' \<Rightarrow> forEach_loop callback params_of (i + 2) s')
      else Some (Inr s))"

definition params_forEach ::
    "(nat \<Rightarrow> jsval \<Rightarrow> jsval \<Rightarrow> 's \<Rightarrow> 's result) \<Rightarrow> ('s \<Rightarrow> jsstring list) \<Rightarrow> 's \<Rightarrow> bool \<Rightarrow> jsval \<Rightarrow> 's result option" where
  "params_forEach run params_of s valid_this callback =
     (if \<not> valid_this then Some (Inl (ERR_INVALID_THIS ''URLSearchParams''))
      else case validateFunction callback ''callback'' of
        Inl e \<Rightarrow> Some (Inl e)
      | Inr f \<Rightarrow> forEach_loop (run f) params_of 0 s)"

end
