(* ===== verification/Mime.thy ===== *)
theory Mime
  imports SearchParams
begin

text \<open>
  MIME types: lib/internal/mime.js.

  The classes of code units of the regular expressions, the parser of type and subtype, the class
  \<^verbatim>\<open>MIMEParams\<close>, whose text is parsed when a method first needs it, and the class
  \<^verbatim>\<open>MIMEType\<close> over it. The private fields are the fields of two records. The
  \<^verbatim>\<open>SafeMap\<close> of the parameters is a list of pairs in insertion order. The generators
  \<^verbatim>\<open>entries\<close>, \<^verbatim>\<open>keys\<close> and \<^verbatim>\<open>values\<close> are the
  lists they yield when nothing is changed between their steps.
\<close>

subsection \<open>Classes of code units and searches\<close>

text \<open>A unit is in \<open>http_token\<close> when \<^verbatim>\<open>NOT_HTTP_TOKEN_CODE_POINT\<close> does not match it; \<open>http_quoted\<close> likewise.\<close>

definition http_token :: "nat \<Rightarrow> bool" where
  "http_token c \<longleftrightarrow>
     c \<in> {33, 35, 36, 37, 38, 39, 42, 43, 45, 46, 94, 95, 96, 124, 126} \<or>
     65 \<le> c \<and> c \<le> 90 \<or> 97 \<le> c \<and> c \<le> 122 \<or> 48 \<le> c \<and> c \<le> 57"

definition http_quoted :: "nat \<Rightarrow> bool" where
  "http_quoted c \<longleftrightarrow> c = 9 \<or> 32 \<le> c \<and> c \<le> 126 \<or> 0x80 \<le> c \<and> c \<le> 0xFF"

definition http_space :: "nat \<Rightarrow> bool" where
  "http_space c \<longleftrightarrow> c = 13 \<or> c = 10 \<or> c = 9 \<or> c = 32"

text \<open>\<^verbatim>\<open>search\<close> for a class: the first index or \<open>-1\<close>; for a class or the end: the first index or the length.\<close>

definition search_or_end :: "(nat \<Rightarrow> bool) \<Rightarrow> jsstring \<Rightarrow> nat" where
  "search_or_end p s = length (takeWhile (\<lambda>c. \<not> p c) s)"

definition search_class :: "(nat \<Rightarrow> bool) \<Rightarrow> jsstring \<Rightarrow> int" where
  "search_class p s = (if list_ex p s then int (search_or_end p s) else -1)"

definition end_beginning_whitespace :: "jsstring \<Rightarrow> nat" where
  "end_beginning_whitespace s = search_or_end (\<lambda>c. \<not> http_space c) s"

definition start_ending_whitespace :: "jsstring \<Rightarrow> nat" where
  "start_ending_whitespace s = length (dropWhile http_space (rev s))"

definition equals_semicolon_or_end :: "jsstring \<Rightarrow> nat" where
  "equals_semicolon_or_end s = search_or_end (\<lambda>c. c = 59 \<or> c = 61) s"

text \<open>\<^verbatim>\<open>toASCIILower\<close>: on ASCII text \<^verbatim>\<open>toLowerCase\<close>, otherwise a loop over the units.\<close>

definition lower_unit :: "nat \<Rightarrow> nat" where
  "lower_unit c = (if 65 \<le> c \<and> c \<le> 90 then c + 32 else c)"

fun lower_loop :: "jsstring \<Rightarrow> jsstring \<Rightarrow> jsstring" where
  "lower_loop [] result = result"
| "lower_loop (c # s) result = lower_loop s (result @ [if 65 \<le> c \<and> c \<le> 90 then lower_unit c else c])"

definition toASCIILower :: "jsstring \<Rightarrow> jsstring" where
  "toASCIILower s = (if \<not> list_ex (\<lambda>c. 0x7F < c) s then map lower_unit s else lower_loop s [])"

subsection \<open>Type and subtype\<close>

definition parseTypeAndSubtype :: "jsstring \<Rightarrow> (jsstring \<times> jsstring \<times> nat) result" where
  "parseTypeAndSubtype str =
     (let position = end_beginning_whitespace str;
          typeEnd = indexOf_from str 47 position;
          trimmedType = (if typeEnd = -1 then slice_from str (int position) else slice str (int position) typeEnd);
          invalidTypeIndex = search_class (\<lambda>c. \<not> http_token c) trimmedType
      in if trimmedType = [] \<or> invalidTypeIndex \<noteq> -1 \<or> typeEnd = -1
         then Inl (ERR_INVALID_MIME_SYNTAX ''type'' str invalidTypeIndex)
         else (let position = nat typeEnd + 1;
                   type = toASCIILower trimmedType;
                   subtypeEnd = indexOf_from str 59 position;
                   rawSubtype = (if subtypeEnd = -1 then slice_from str (int position)
                                 else slice str (int position) subtypeEnd);
                   position = position + length rawSubtype;
                   position = (if subtypeEnd \<noteq> -1 then position + 1 else position);
                   trimmedSubtype = slice rawSubtype 0 (int (start_ending_whitespace rawSubtype));
                   invalidSubtypeIndex = search_class (\<lambda>c. \<not> http_token c) trimmedSubtype
               in if trimmedSubtype = [] \<or> invalidSubtypeIndex \<noteq> -1
                  then Inl (ERR_INVALID_MIME_SYNTAX ''subtype'' str invalidSubtypeIndex)
                  else Inr (type, toASCIILower trimmedSubtype, position)))"

subsection \<open>Quoted values\<close>

fun removeBackslashes :: "jsstring \<Rightarrow> jsstring" where
  "removeBackslashes [] = []"
| "removeBackslashes [c] = [c]"
| "removeBackslashes (c # d # s) = (if c = 92 then d # removeBackslashes s else c # removeBackslashes (d # s))"

definition escapeQuoteOrSolidus :: "jsstring \<Rightarrow> jsstring" where
  "escapeQuoteOrSolidus s = concat (map (\<lambda>c. if c = 34 \<or> c = 92 then [92, c] else [c]) s)"

definition encode_value :: "jsstring \<Rightarrow> jsstring" where
  "encode_value v =
     (if v = [] then [34, 34]
      else if search_class (\<lambda>c. \<not> http_token c) v = -1 then v
      else [34] @ escapeQuoteOrSolidus v @ [34])"

text \<open>
  \<^verbatim>\<open>QUOTED_VALUE_PATTERN\<close> takes escaped units and units other than the quote as long as
  there are any, then the closing quote: the length of the match, whether it ends in a backslash
  that escapes nothing (\<^verbatim>\<open>$1\<close>), whether it ends in a quote (\<^verbatim>\<open>$2\<close>).
\<close>

fun quoted_match :: "jsstring \<Rightarrow> nat \<times> bool \<times> bool" where
  "quoted_match [] = (0, False, False)"
| "quoted_match [c] = (1, c = 92, c = 34)"
| "quoted_match (c # d # s) =
     (if c = 34 then (1, False, True)
      else if c = 92 then (let (n, r) = quoted_match s in (n + 2, r))
      else (let (n, r) = quoted_match (d # s) in (n + 1, r)))"

definition quoted_value :: "jsstring \<Rightarrow> nat \<times> jsstring" where
  "quoted_value s =
     (let (n, backslash, closed) = quoted_match s;
          matched = slice s 0 (int n);
          inside = (if backslash \<or> closed then slice matched 0 (-1) else matched);
          v = removeBackslashes inside
      in (n, if backslash then v @ [92] else v))"

subsection \<open>Parameters\<close>

text \<open>\<open>mp_string\<close> is \<open>None\<close> for \<^verbatim>\<open>null\<close>.\<close>

record mime_params =
  mp_data :: "(jsstring \<times> jsstring) list"
  mp_processed :: bool
  mp_string :: "jsstring option"

definition new_mime_params :: mime_params where
  "new_mime_params = \<lparr>mp_data = [], mp_processed = True, mp_string = None\<rparr>"

definition instantiateMimeParams :: "jsstring \<Rightarrow> mime_params" where
  "instantiateMimeParams str = new_mime_params\<lparr>mp_string := Some str, mp_processed := False\<rparr>"

fun data_set :: "jsstring \<Rightarrow> jsstring \<Rightarrow> (jsstring \<times> jsstring) list \<Rightarrow> (jsstring \<times> jsstring) list" where
  "data_set k v [] = [(k, v)]"
| "data_set k v ((k', v') # d) = (if k' = k then (k, v) # d else (k', v') # data_set k v d)"

definition store_param :: "jsstring \<Rightarrow> jsstring \<Rightarrow> (jsstring \<times> jsstring) list \<Rightarrow> (jsstring \<times> jsstring) list" where
  "store_param name v data =
     (if name \<noteq> [] \<and> search_class (\<lambda>c. \<not> http_token c) name = -1 \<and>
         search_class (\<lambda>c. \<not> http_quoted c) v = -1 \<and> map_of data name = None
      then data_set name v data else data)"

text \<open>One turn of the loop of \<^verbatim>\<open>#parse\<close>; \<open>None\<close> is its \<^verbatim>\<open>break\<close>.\<close>

definition param_step ::
  "jsstring \<Rightarrow> nat \<Rightarrow> nat \<Rightarrow> (jsstring \<times> jsstring) list \<Rightarrow> (nat \<times> (jsstring \<times> jsstring) list) option" where
  "param_step str endOfSource position data =
     (let position = position + end_beginning_whitespace (slice_from str (int position));
          afterParameterName = equals_semicolon_or_end (slice_from str (int position)) + position;
          parameterString = toASCIILower (slice str (int position) (int afterParameterName));
          position = afterParameterName
      in if position < endOfSource \<and> charCodeAt str (int position) = Some 59 then Some (position + 1, data)
         else (let position = (if position < endOfSource then position + 1 else position)
               in if position \<ge> endOfSource then None
                  else if charCodeAt str (int position) = Some 34
                  then (let position = position + 1;
                            (n, v) = quoted_value (slice_from str (int position))
                        in Some (position + n + 1, store_param parameterString v data))
                  else (let valueEnd = indexOf_from str 59 position;
                            rawValue = (if valueEnd = -1 then slice_from str (int position)
                                        else slice str (int position) valueEnd);
                            position = position + length rawValue;
                            trimmedValue = slice rawValue 0 (int (start_ending_whitespace rawValue))
                        in if trimmedValue = [] then Some (position, data)
                           else Some (position + 1, store_param parameterString trimmedValue data))))"

lemma param_step_advances: "param_step str e i d = Some (j, d') \<Longrightarrow> i < j"
  by (auto simp: param_step_def Let_def split: if_splits prod.splits)

function mime_loop :: "jsstring \<Rightarrow> nat \<Rightarrow> nat \<Rightarrow> (jsstring \<times> jsstring) list \<Rightarrow> (jsstring \<times> jsstring) list" where
  "mime_loop str endOfSource position data =
     (if position < endOfSource then
        (case param_step str endOfSource position data of
           None \<Rightarrow> data
         | Some (position', data') \<Rightarrow> mime_loop str endOfSource position' data')
      else data)"
  by pat_completeness auto
termination
  by (relation "measure (\<lambda>(str, endOfSource, position, data). endOfSource - position)")
    (auto dest: param_step_advances)

declare mime_loop.simps [simp del]

definition mime_parse :: "mime_params \<Rightarrow> mime_params" where
  "mime_parse p =
     (if mp_processed p then p
      else (case mp_string p of
              None \<Rightarrow> p  \<comment> \<open>never: an instance without text is processed\<close>
            | Some str \<Rightarrow>
                (let position = 0;
                     endOfSource = start_ending_whitespace (slice_from str (int position)) + position
                 in p\<lparr>mp_data := mime_loop str endOfSource position (mp_data p), mp_processed := True\<rparr>)))"

text \<open>
  The methods. A name that is not a string is converted by \<^verbatim>\<open>set\<close> only; the others look for
  the value itself, which no entry has.
\<close>

definition mime_delete :: "jsval \<Rightarrow> mime_params \<Rightarrow> mime_params" where
  "mime_delete name p =
     (let p = mime_parse p
      in case name of
           JStr n \<Rightarrow> p\<lparr>mp_data := filter (\<lambda>(k, _). k \<noteq> n) (mp_data p)\<rparr>
         | _ \<Rightarrow> p)"

definition mime_has :: "jsval \<Rightarrow> mime_params \<Rightarrow> bool \<times> mime_params" where
  "mime_has name p =
     (let p = mime_parse p
      in (case name of JStr n \<Rightarrow> map_of (mp_data p) n \<noteq> None | _ \<Rightarrow> False, p))"

definition mime_get :: "jsval \<Rightarrow> mime_params \<Rightarrow> jsval \<times> mime_params" where
  "mime_get name p =
     (let p = mime_parse p
      in (case name of
            JStr n \<Rightarrow> (case map_of (mp_data p) n of Some v \<Rightarrow> JStr v | None \<Rightarrow> Null)
          | _ \<Rightarrow> Null, p))"

text \<open>\<^verbatim>\<open>set\<close> parses before it converts and checks, so it answers the new state beside an error.\<close>

definition mime_set :: "params_env \<Rightarrow> jsval \<Rightarrow> jsval \<Rightarrow> mime_params \<Rightarrow> unit result \<times> mime_params" where
  "mime_set env name v p =
     (let p = mime_parse p
      in case bind (template_string env name) (\<lambda>n. bind (template_string env v) (\<lambda>v. Inr (n, v))) of
           Inl e \<Rightarrow> (Inl e, p)
         | Inr (n, v) \<Rightarrow>
             (let invalidNameIndex = search_class (\<lambda>c. \<not> http_token c) n;
                  invalidValueIndex = search_class (\<lambda>c. \<not> http_quoted c) v
              in if n = [] \<or> invalidNameIndex \<noteq> -1
                 then (Inl (ERR_INVALID_MIME_SYNTAX ''parameter name'' n invalidNameIndex), p)
                 else if invalidValueIndex \<noteq> -1
                 then (Inl (ERR_INVALID_MIME_SYNTAX ''parameter value'' v invalidValueIndex), p)
                 else (Inr (), p\<lparr>mp_data := data_set n v (mp_data p)\<rparr>)))"

definition mime_entries :: "mime_params \<Rightarrow> (jsstring \<times> jsstring) list \<times> mime_params" where
  "mime_entries p = (let p = mime_parse p in (mp_data p, p))"

definition mime_keys :: "mime_params \<Rightarrow> jsstring list \<times> mime_params" where
  "mime_keys p = (let p = mime_parse p in (map fst (mp_data p), p))"

definition mime_values :: "mime_params \<Rightarrow> jsstring list \<times> mime_params" where
  "mime_values p = (let p = mime_parse p in (map snd (mp_data p), p))"

fun mime_params_text :: "(jsstring \<times> jsstring) list \<Rightarrow> jsstring \<Rightarrow> jsstring" where
  "mime_params_text [] ret = ret"
| "mime_params_text ((key, v) # d) ret =
     mime_params_text d ((if ret \<noteq> [] then ret @ [59] else ret) @ key @ [61] @ encode_value v)"

definition mime_params_toString :: "mime_params \<Rightarrow> jsstring \<times> mime_params" where
  "mime_params_toString p = (let p = mime_parse p in (mime_params_text (mp_data p) [], p))"

subsection \<open>The class MIMEType\<close>

record mime_type =
  mt_type :: jsstring
  mt_subtype :: jsstring
  mt_parameters :: mime_params

definition mime_new :: "params_env \<Rightarrow> jsval \<Rightarrow> mime_type result" where
  "mime_new env v =
     bind (template_string env v) (\<lambda>string.
     bind (parseTypeAndSubtype string) (\<lambda>(type, subtype, position).
       Inr \<lparr>mt_type = type, mt_subtype = subtype,
            mt_parameters = instantiateMimeParams (slice_from string (int position))\<rparr>))"

definition mime_set_type :: "params_env \<Rightarrow> jsval \<Rightarrow> mime_type \<Rightarrow> mime_type result" where
  "mime_set_type env v m =
     bind (template_string env v) (\<lambda>v.
       let invalidTypeIndex = search_class (\<lambda>c. \<not> http_token c) v
       in if v = [] \<or> invalidTypeIndex \<noteq> -1 then Inl (ERR_INVALID_MIME_SYNTAX ''type'' v invalidTypeIndex)
          else Inr (m\<lparr>mt_type := toASCIILower v\<rparr>))"

definition mime_set_subtype :: "params_env \<Rightarrow> jsval \<Rightarrow> mime_type \<Rightarrow> mime_type result" where
  "mime_set_subtype env v m =
     bind (template_string env v) (\<lambda>v.
       let invalidSubtypeIndex = search_class (\<lambda>c. \<not> http_token c) v
       in if v = [] \<or> invalidSubtypeIndex \<noteq> -1 then Inl (ERR_INVALID_MIME_SYNTAX ''subtype'' v invalidSubtypeIndex)
          else Inr (m\<lparr>mt_subtype := toASCIILower v\<rparr>))"

definition mime_essence :: "mime_type \<Rightarrow> jsstring" where
  "mime_essence m = mt_type m @ [47] @ mt_subtype m"

definition mime_toString :: "mime_type \<Rightarrow> jsstring \<times> mime_type" where
  "mime_toString m =
     (let (paramStr, p) = mime_params_toString (mt_parameters m);
          ret = mt_type m @ [47] @ mt_subtype m
      in (if paramStr \<noteq> [] then ret @ [59] @ paramStr else ret, m\<lparr>mt_parameters := p\<rparr>))"

end
