(* ===== verification/MimeProps.thy ===== *)
theory MimeProps
  imports Mime
begin

text \<open>
  What MIME types keep and promise: names of parameters are distinct nonempty tokens and values are
  quotable, type and subtype are lower case tokens, and the text of a MIME type is read back as the
  same type, subtype and parameters, with the names in lower case.
\<close>

subsection \<open>Searches\<close>

lemma search_class_none: "search_class p s = -1 \<longleftrightarrow> list_all (\<lambda>c. \<not> p c) s"
  by (auto simp: search_class_def list_ex_iff list_all_iff)

lemma search_or_end_append:
  "list_all (\<lambda>c. \<not> p c) s \<Longrightarrow> t = [] \<or> p (hd t) \<Longrightarrow> search_or_end p (s @ t) = length s"
  by (cases t) (auto simp: search_or_end_def list_all_iff takeWhile_append takeWhile_eq_all_conv [THEN iffD2])

lemma whitespace_start: "s \<noteq> [] \<Longrightarrow> \<not> http_space (hd s) \<Longrightarrow> end_beginning_whitespace s = 0"
  by (cases s) (auto simp: end_beginning_whitespace_def search_or_end_def)

lemma whitespace_end: "s \<noteq> [] \<Longrightarrow> \<not> http_space (last s) \<Longrightarrow> start_ending_whitespace s = length s"
  by (cases s rule: rev_cases) (auto simp: start_ending_whitespace_def)

lemma whitespace_end_le: "start_ending_whitespace s \<le> length s"
  using length_dropWhile_le [of http_space "rev s"] by (simp add: start_ending_whitespace_def)

lemma indexOf_none: "c \<notin> set s \<Longrightarrow> indexOf s c = -1"
  by (induction s) auto

lemma indexOf_found: "c \<notin> set s \<Longrightarrow> indexOf (s @ c # t) c = int (length s)"
  by (induction s) auto

lemma slice_from_middle: "slice_from (pre @ s) (int (length pre)) = s"
  by (simp add: slice_from_nonneg)

lemma charCodeAt_middle: "charCodeAt (pre @ c # s) (int (length pre)) = Some c"
  by (simp add: charCodeAt_def)

text \<open>The piece from a position to a separator or to the end.\<close>

lemma piece_to:
  assumes "c \<notin> set s" "t = [] \<or> hd t = c"
  shows "indexOf_from (pre @ s @ t) c (length pre) = (if t = [] then -1 else int (length pre + length s))"
    and "(if t = [] then slice_from (pre @ s @ t) (int (length pre))
          else slice (pre @ s @ t) (int (length pre)) (int (length pre + length s))) = s"
proof -
  show "indexOf_from (pre @ s @ t) c (length pre) = (if t = [] then -1 else int (length pre + length s))"
    using assms by (cases t) (auto simp: indexOf_from_def indexOf_none indexOf_found)
  show "(if t = [] then slice_from (pre @ s @ t) (int (length pre))
          else slice (pre @ s @ t) (int (length pre)) (int (length pre + length s))) = s"
    using slice_middle [of pre s t] by (auto simp: slice_from_middle)
qed

subsection \<open>Lower case\<close>

lemma lower_loop_map: "lower_loop s r = r @ map lower_unit s"
  by (induction s arbitrary: r) (auto simp: lower_unit_def)

lemma toASCIILower_map: "toASCIILower s = map lower_unit s"
  by (simp add: toASCIILower_def lower_loop_map)

lemma lower_unit_idem: "lower_unit (lower_unit c) = lower_unit c"
  by (simp add: lower_unit_def)

lemma http_token_lower: "http_token c \<Longrightarrow> http_token (lower_unit c)"
  by (auto simp: http_token_def lower_unit_def)

definition token :: "jsstring \<Rightarrow> bool" where
  "token s \<longleftrightarrow> s \<noteq> [] \<and> list_all http_token s"

definition lower_token :: "jsstring \<Rightarrow> bool" where
  "lower_token s \<longleftrightarrow> token s \<and> map lower_unit s = s"

lemma token_lower: "token s \<Longrightarrow> lower_token (toASCIILower s)"
  by (auto simp: token_def lower_token_def toASCIILower_map list_all_iff http_token_lower lower_unit_idem)

lemma token_check: "s \<noteq> [] \<and> search_class (\<lambda>c. \<not> http_token c) s = -1 \<longleftrightarrow> token s"
  by (simp add: search_class_none token_def)

lemma token_units:
  assumes "token s"
  shows "\<not> http_space (hd s)" "\<not> http_space (last s)" "hd s \<noteq> 34" "s \<noteq> []"
    "59 \<notin> set s" "61 \<notin> set s" "47 \<notin> set s" "list_all http_quoted s"
proof -
  have "\<And>c. http_token c \<Longrightarrow> \<not> http_space c \<and> c \<noteq> 34 \<and> c \<noteq> 59 \<and> c \<noteq> 61 \<and> c \<noteq> 47 \<and> http_quoted c"
    by (auto simp: http_token_def http_space_def http_quoted_def)
  then show "\<not> http_space (hd s)" "\<not> http_space (last s)" "hd s \<noteq> 34" "s \<noteq> []"
    "59 \<notin> set s" "61 \<notin> set s" "47 \<notin> set s" "list_all http_quoted s"
    using assms by (auto simp: token_def list_all_iff)
qed

subsection \<open>The invariant of the parameters\<close>

definition params_ok :: "(jsstring \<times> jsstring) list \<Rightarrow> bool" where
  "params_ok d \<longleftrightarrow> distinct (map fst d) \<and> list_all (\<lambda>(k, v). token k \<and> list_all http_quoted v) d"

lemma data_set_new: "map_of d k = None \<Longrightarrow> data_set k v d = d @ [(k, v)]"
  by (induction d) (auto split: if_splits)

lemma data_set_keys: "fst ` set (data_set k v d) = insert k (fst ` set d)"
  by (induction k v d rule: data_set.induct) auto

lemma data_set_map_of: "map_of (data_set k v d) = (map_of d)(k \<mapsto> v)"
  by (induction d) auto

lemma data_set_ok: "params_ok d \<Longrightarrow> token k \<Longrightarrow> list_all http_quoted v \<Longrightarrow> params_ok (data_set k v d)"
  by (induction d) (auto simp: params_ok_def data_set_keys)

lemma params_ok_filter: "params_ok d \<Longrightarrow> params_ok (filter p d)"
  by (auto simp: params_ok_def distinct_map list_all_iff intro: inj_on_subset)

lemma store_param_eq:
  "store_param k v d =
     (if token k \<and> list_all http_quoted v \<and> map_of d k = None then d @ [(k, v)] else d)"
  using token_check [of k] by (auto simp: store_param_def data_set_new search_class_none)

lemma store_param_ok: "params_ok d \<Longrightarrow> params_ok (store_param k v d)"
  by (auto simp: store_param_eq data_set_ok simp flip: data_set_new [of d k])

text \<open>What \<open>#parse\<close> can do to the data: store entries with lower case names.\<close>

lemma param_step_data:
  "param_step str e i d = Some (j, d') \<Longrightarrow> d' = d \<or> (\<exists>k v. d' = store_param (toASCIILower k) v d)"
  by (auto simp: param_step_def Let_def split: if_splits prod.splits)

definition lower_names :: "(jsstring \<times> jsstring) list \<Rightarrow> bool" where
  "lower_names d \<longleftrightarrow> list_all (\<lambda>(k, _). map lower_unit k = k) d"

lemma mime_loop_ok:
  "params_ok d \<Longrightarrow> lower_names d \<Longrightarrow>
     params_ok (mime_loop str e i d) \<and> lower_names (mime_loop str e i d)"
proof (induction str e i d rule: mime_loop.induct)
  case (1 str e i d)
  show ?case
  proof (cases "i < e \<and> param_step str e i d \<noteq> None")
    case True
    then obtain j d' where step: "param_step str e i d = Some (j, d')" by auto
    from param_step_data [OF this] 1(2,3) have "params_ok d' \<and> lower_names d'"
      by (auto simp: store_param_ok)
        (auto simp: store_param_eq lower_names_def toASCIILower_map lower_unit_idem split: if_splits)
    with 1 True step show ?thesis by (subst (1 2) mime_loop.simps) auto
  next
    case False
    with 1(2,3) show ?thesis by (subst (1 2) mime_loop.simps) (auto split: option.splits)
  qed
qed

definition mime_params_ok :: "mime_params \<Rightarrow> bool" where
  "mime_params_ok p \<longleftrightarrow>
     params_ok (mp_data p) \<and> (mp_processed p \<or> mp_string p \<noteq> None \<and> mp_data p = [])"

lemma new_mime_params_ok: "mime_params_ok new_mime_params" "mime_params_ok (instantiateMimeParams s)"
  by (simp_all add: mime_params_ok_def new_mime_params_def instantiateMimeParams_def params_ok_def)

lemma mime_parse_ok:
  assumes "mime_params_ok p"
  shows "mime_params_ok (mime_parse p)" "mp_processed (mime_parse p)" "mime_parse (mime_parse p) = mime_parse p"
proof -
  have "lower_names []" by (simp add: lower_names_def)
  with assms show "mime_params_ok (mime_parse p)" "mp_processed (mime_parse p)" "mime_parse (mime_parse p) = mime_parse p"
    by (auto simp: mime_parse_def mime_params_ok_def mime_loop_ok Let_def split: option.splits)
qed

subsection \<open>Every MIME type made by calls\<close>

datatype mime_call =
    SetType jsval | SetSubtype jsval | SetParam jsval jsval | DeleteParam jsval | GetParam jsval | HasParam jsval
  | Entries | Keys | Values | ToString

definition mime_on :: "(mime_params \<Rightarrow> 'a \<times> mime_params) \<Rightarrow> mime_type \<Rightarrow> mime_type" where
  "mime_on f m = m\<lparr>mt_parameters := snd (f (mt_parameters m))\<rparr>"

text \<open>A call that throws leaves what it had changed: the setters nothing, \<^verbatim>\<open>set\<close> the parsed text.\<close>

fun mime_do :: "params_env \<Rightarrow> mime_type \<Rightarrow> mime_call \<Rightarrow> mime_type" where
  "mime_do env m (SetType v) = (case mime_set_type env v m of Inr m' \<Rightarrow> m' | Inl _ \<Rightarrow> m)"
| "mime_do env m (SetSubtype v) = (case mime_set_subtype env v m of Inr m' \<Rightarrow> m' | Inl _ \<Rightarrow> m)"
| "mime_do env m (SetParam k v) = mime_on (mime_set env k v) m"
| "mime_do env m (DeleteParam k) = mime_on (\<lambda>p. ((), mime_delete k p)) m"
| "mime_do env m (GetParam k) = mime_on (mime_get k) m"
| "mime_do env m (HasParam k) = mime_on (mime_has k) m"
| "mime_do env m Entries = mime_on mime_entries m"
| "mime_do env m Keys = mime_on mime_keys m"
| "mime_do env m Values = mime_on mime_values m"
| "mime_do env m ToString = snd (mime_toString m)"

definition mime_run :: "params_env \<Rightarrow> mime_call list \<Rightarrow> mime_type \<Rightarrow> mime_type" where
  "mime_run env calls m = foldl (mime_do env) m calls"

definition mime_ok :: "mime_type \<Rightarrow> bool" where
  "mime_ok m \<longleftrightarrow> lower_token (mt_type m) \<and> lower_token (mt_subtype m) \<and> mime_params_ok (mt_parameters m)"

lemma mime_params_keep:
  assumes "mime_params_ok p"
  shows "mime_params_ok (mime_delete k p)" "mime_params_ok (snd (mime_get k p))"
    "mime_params_ok (snd (mime_has k p))" "mime_params_ok (snd (mime_set env j v p))"
    "mime_params_ok (snd (mime_params_toString p))"
proof -
  note parsed = mime_parse_ok [OF assms]
  show "mime_params_ok (mime_delete k p)" "mime_params_ok (snd (mime_get k p))"
    "mime_params_ok (snd (mime_has k p))" "mime_params_ok (snd (mime_params_toString p))"
    using parsed
    by (auto simp: mime_delete_def mime_get_def mime_has_def mime_params_toString_def Let_def
        mime_params_ok_def params_ok_filter split: jsval.splits)
  show "mime_params_ok (snd (mime_set env j v p))"
    using parsed
    by (auto simp: mime_set_def Let_def search_class_none mime_params_ok_def token_def intro!: data_set_ok
        split: sum.splits)
qed

text \<open>The methods are the operations of a map on the parsed parameters.\<close>

lemma map_of_without: "map_of (filter (\<lambda>(k, _). k \<noteq> n) d) = (map_of d)(n := None)"
  by (induction d) auto

lemma mime_methods:
  fixes p :: mime_params
  defines "entry \<equiv> \<lambda>p. map_of (mp_data (mime_parse p))"
  assumes "mime_params_ok p"
  shows "mime_has (JStr n) p = (entry p n \<noteq> None, mime_parse p)"
    and "fst (mime_get (JStr n) p) = (case entry p n of Some v \<Rightarrow> JStr v | None \<Rightarrow> Null)"
    and "entry (mime_delete (JStr n) p) = (entry p)(n := None)"
    and "mime_set env (JStr n) (JStr v) p = (r, q) \<Longrightarrow>
      entry q = (if token n \<and> list_all http_quoted v then (entry p)(n \<mapsto> v) else entry p) \<and>
      (r = Inr () \<longleftrightarrow> token n \<and> list_all http_quoted v)"
proof -
  note parsed = mime_parse_ok [OF assms(2)]
  then have done1: "mime_parse (mime_parse p\<lparr>mp_data := d\<rparr>) = mime_parse p\<lparr>mp_data := d\<rparr>" for d
    by (simp add: mime_parse_def)
  show "mime_has (JStr n) p = (entry p n \<noteq> None, mime_parse p)"
    "fst (mime_get (JStr n) p) = (case entry p n of Some v \<Rightarrow> JStr v | None \<Rightarrow> Null)"
    by (simp_all add: mime_has_def mime_get_def entry_def Let_def)
  show "entry (mime_delete (JStr n) p) = (entry p)(n := None)"
    by (simp add: mime_delete_def entry_def Let_def done1 map_of_without)
  show "mime_set env (JStr n) (JStr v) p = (r, q) \<Longrightarrow>
      entry q = (if token n \<and> list_all http_quoted v then (entry p)(n \<mapsto> v) else entry p) \<and>
      (r = Inr () \<longleftrightarrow> token n \<and> list_all http_quoted v)"
    using parsed(3)
    by (auto simp: mime_set_def template_string_def entry_def Let_def search_class_none token_def done1
        data_set_map_of split: if_splits)
qed

lemma parse_type_ok:
  assumes "parseTypeAndSubtype s = Inr (t, u, n)"
  shows "lower_token t" "lower_token u"
  using assms
  by (auto simp: parseTypeAndSubtype_def Let_def token_lower simp flip: token_check split: if_splits)

lemma mime_new_ok:
  assumes "mime_new env v = Inr m"
  shows "mime_ok m" "mt_parameters m = instantiateMimeParams (the (mp_string (mt_parameters m)))"
  using assms
  by (auto simp: mime_new_def bind_eq_Inr mime_ok_def new_mime_params_ok
      dest: parse_type_ok split: prod.splits) (simp add: instantiateMimeParams_def)

lemma mime_call_ok: "mime_ok m \<Longrightarrow> mime_ok (mime_do env m c)"
proof (cases c)
  case (SetType v)
  assume "mime_ok m"
  with SetType show ?thesis
    by (auto simp: mime_ok_def mime_set_type_def Let_def bind_eq_Inr token_lower simp flip: token_check
        split: sum.splits if_splits)
next
  case (SetSubtype v)
  assume "mime_ok m"
  with SetSubtype show ?thesis
    by (auto simp: mime_ok_def mime_set_subtype_def Let_def bind_eq_Inr token_lower simp flip: token_check
        split: sum.splits if_splits)
qed (auto simp: mime_ok_def mime_on_def mime_params_keep mime_parse_ok mime_entries_def mime_keys_def
    mime_values_def mime_toString_def mime_params_toString_def Let_def)

lemma mime_run_ok: "mime_ok m \<Longrightarrow> mime_ok (mime_run env calls m)"
  by (induction calls arbitrary: m) (auto simp: mime_run_def mime_call_ok)

end
