(* ===== verification/SearchParamsText.thy ===== *)
theory SearchParamsText
  imports SearchParams
begin

text \<open>
  \<^verbatim>\<open>parseParams\<close> and \<^verbatim>\<open>serializeParams\<close>. \<open>form_pairs\<close> is the parser as a specification has it: split at the
  ampersands, drop the empty pieces, split a piece at its first equals sign, then turn plus signs into
  spaces and decode. The one loop over positions with its flags gives the same list, and reading what
  was printed gives the list back.
\<close>

subsection \<open>The specification\<close>

definition flat :: "(jsstring \<times> jsstring) list \<Rightarrow> jsstring list" where
  "flat ps = concat (map (\<lambda>p. [fst p, snd p]) ps)"

definition plus_space :: "jsstring \<Rightarrow> jsstring" where
  "plus_space s = map (\<lambda>c. if c = 43 then 32 else c) s"

text \<open>Whether a percent sign with two hex digits was seen, a plus sign in between being skipped.\<close>

fun triple_check :: "bool \<times> nat \<Rightarrow> nat \<Rightarrow> bool \<times> nat" where
  "triple_check (enc, ec) c =
     (if c = 43 \<or> enc then (enc, ec)
      else if c = 37 then (enc, 1)
      else if ec > 0 then (if isHexTable c then (ec + 1 = 3, ec + 1) else (enc, 0))
      else (enc, ec))"

definition has_triple :: "jsstring \<Rightarrow> bool" where
  "has_triple s = fst (foldl triple_check (False, 0) s)"

definition piece_text :: "params_env \<Rightarrow> jsstring \<Rightarrow> jsstring" where
  "piece_text env s = (if has_triple s then params_unescape env (plus_space s) else plus_space s)"

definition form_pair :: "params_env \<Rightarrow> jsstring \<Rightarrow> jsstring \<times> jsstring" where
  "form_pair env s =
     (piece_text env (takeWhile (\<lambda>c. c \<noteq> 61) s), piece_text env (drop 1 (dropWhile (\<lambda>c. c \<noteq> 61) s)))"

definition form_pairs :: "params_env \<Rightarrow> jsstring \<Rightarrow> (jsstring \<times> jsstring) list" where
  "form_pairs env qs = map (form_pair env) (filter (\<lambda>s. s \<noteq> []) (split_on (\<lambda>c. c = 38) qs))"

lemma flat_simps [simp]: "flat [] = []" "flat (p # ps) = fst p # snd p # flat ps" "flat (ps @ qs) = flat ps @ flat qs"
  by (simp_all add: flat_def)

lemma length_flat [simp]: "length (flat ps) = 2 * length ps"
  by (induction ps) simp_all

lemma flat_eq_Nil [simp]: "flat ps = [] \<longleftrightarrow> ps = []"
  by (cases ps) simp_all

lemma piece_text_Nil [simp]: "piece_text env [] = []"
  by (simp add: piece_text_def has_triple_def plus_space_def)

lemma plus_space_simps [simp]: "plus_space [] = []" "plus_space (s @ t) = plus_space s @ plus_space t"
  "plus_space (c # s) = (if c = 43 then 32 else c) # plus_space s"
  by (simp_all add: plus_space_def)

subsection \<open>The loop on the rest of the text\<close>

text \<open>\<open>p\<close> is the text of the name or value so far, \<open>seen\<close> whether its equals sign was seen.\<close>

fun form_run :: "params_env \<Rightarrow> bool \<Rightarrow> jsstring \<Rightarrow> jsstring \<Rightarrow> jsstring list" where
  "form_run env seen p [] =
     (if \<not> seen \<and> p = [] then [] else piece_text env p # (if seen then [] else [[]]))"
| "form_run env seen p (c # s) =
     (if c = 38 then
        (if \<not> seen \<and> p = [] then [] else piece_text env p # (if seen then [] else [[]])) @ form_run env False [] s
      else if \<not> seen \<and> c = 61 then piece_text env p # form_run env True [] s
      else form_run env seen (p @ [c]) s)"

definition params_at :: "jsstring \<Rightarrow> nat \<Rightarrow> bool \<Rightarrow> jsstring \<Rightarrow> params_state \<Rightarrow> bool" where
  "params_at qs i seen p st \<longleftrightarrow>
     seenSep st = seen \<and> lastPos st \<le> i \<and> i \<le> length qs \<and>
     ps_buf st @ pending_text qs (lastPos st) i = plus_space p \<and>
     (ps_encoded st, encodeCheck st) = foldl triple_check (False, 0) p \<and>
     (pairStart st = i \<longleftrightarrow> \<not> seen \<and> p = []) \<and> pairStart st \<le> i"

lemma flush_buf_at:
  "lastPos st \<le> i \<Longrightarrow> i \<le> length qs \<Longrightarrow> flush_buf qs i st = ps_buf st @ pending_text qs (lastPos st) i"
  using pending_text_simps(1) [of "lastPos st" i qs] by (simp add: flush_buf_def pending_text_def split: if_splits)

lemma take_piece_at: "params_at qs i seen p st \<Longrightarrow> take_piece env qs i st = piece_text env p"
  by (auto simp: params_at_def take_piece_def piece_text_def has_triple_def flush_buf_at Let_def dest: sym [of "(_, _)"])

lemma params_step_char:
  assumes at: "params_at qs i seen p st" and i: "i < length qs" "qs ! i \<noteq> 38" "\<not> (\<not> seen \<and> qs ! i = 61)"
  shows "params_at qs (i + 1) seen (p @ [qs ! i]) (params_step env qs i st)"
    and "ps_out (params_step env qs i st) = ps_out st"
proof -
  have st: "seenSep st = seen" "lastPos st \<le> i" "ps_buf st @ pending_text qs (lastPos st) i = plus_space p"
      "foldl triple_check (False, 0) p = (ps_encoded st, encodeCheck st)" "pairStart st \<le> i"
    using at by (auto simp: params_at_def)
  have pend: "pending_text qs (lastPos st) (Suc i) = pending_text qs (lastPos st) i @ [qs ! i]"
    using st(2) i(1) by (rule pending_text_simps(2))
  show "params_at qs (i + 1) seen (p @ [qs ! i]) (params_step env qs i st)"
    using st i by (auto simp: params_at_def params_step_def Let_def flush_buf_at pend pending_text_simps)
  show "ps_out (params_step env qs i st) = ps_out st"
    using st(1) i by (auto simp: params_step_def Let_def)
qed

lemma params_loop_run:
  "params_at qs i seen p st \<Longrightarrow> params_loop env qs i st = ps_out st @ form_run env seen p (drop i qs)"
proof (induction env qs i st arbitrary: seen p rule: params_loop.induct)
  case (1 env qs i st)
  note at = 1(2) and piece = take_piece_at [OF 1(2)]
  have st: "seenSep st = seen" "pairStart st = i \<longleftrightarrow> \<not> seen \<and> p = []" "i \<le> length qs"
    using at by (simp_all add: params_at_def)
  show ?case
  proof (cases "i < length qs")
    case False
    with st piece [of env] show ?thesis by (subst params_loop.simps) auto
  next
    case True
    have d: "drop i qs = qs ! i # drop (i + 1) qs" using True by (simp add: Cons_nth_drop_Suc)
    note IH = 1(1) [OF True]
    have step: "params_loop env qs i st = params_loop env qs (i + 1) (params_step env qs i st)"
      using True by (subst params_loop.simps) simp
    consider (amp) "qs ! i = 38" | (eq) "qs ! i = 61" "\<not> seen" | (char) "qs ! i \<noteq> 38" "\<not> (\<not> seen \<and> qs ! i = 61)"
      by auto
    then show ?thesis
    proof cases
      case amp
      then have "params_at qs (i + 1) False [] (params_step env qs i st)"
        using at True by (auto simp: params_at_def params_step_def pending_text_simps)
      from IH [OF this] show ?thesis
        using amp st by (auto simp: step d params_step_def piece)
    next
      case eq
      then have "params_at qs (i + 1) True [] (params_step env qs i st)"
        using at True by (auto simp: params_at_def params_step_def pending_text_simps)
      from IH [OF this] show ?thesis
        using eq st by (simp add: step d params_step_def piece)
    next
      case char
      show ?thesis
        using IH [OF params_step_char(1) [OF at True char]] params_step_char(2) [OF at True char] char
        by (auto simp: step d)
    qed
  qed
qed

subsection \<open>The run is the specification\<close>

lemma split_on_prefix:
  "\<forall>c \<in> set p. \<not> P c \<Longrightarrow> split_on P (p @ s) = (p @ hd (split_on P s)) # tl (split_on P s)"
  by (induction p) (auto split: list.splits)

definition pieces_flat :: "params_env \<Rightarrow> jsstring list \<Rightarrow> jsstring list" where
  "pieces_flat env xs = flat (map (form_pair env) (filter (\<lambda>s. s \<noteq> []) xs))"

lemma pieces_flat_Cons:
  "pieces_flat env (x # xs) =
     (if x = [] then [] else [fst (form_pair env x), snd (form_pair env x)]) @ pieces_flat env xs"
  by (simp add: pieces_flat_def)

lemma form_pair_key: "61 \<notin> set p \<Longrightarrow> form_pair env p = (piece_text env p, [])"
proof -
  assume "61 \<notin> set p"
  then have "\<forall>c \<in> set p. c \<noteq> 61" by metis
  then have "takeWhile (\<lambda>c. c \<noteq> 61) p = p" "dropWhile (\<lambda>c. c \<noteq> 61) p = []"
    by (simp_all add: takeWhile_eq_all_conv)
  then show ?thesis by (simp only: form_pair_def drop.simps piece_text_Nil)
qed

lemma form_pair_both: "61 \<notin> set p \<Longrightarrow> form_pair env (p @ 61 # v) = (piece_text env p, piece_text env v)"
proof -
  assume "61 \<notin> set p"
  then have "\<forall>c \<in> set p. c \<noteq> 61" by metis
  then have "takeWhile (\<lambda>c. c \<noteq> 61) (p @ 61 # v) = p" "dropWhile (\<lambda>c. c \<noteq> 61) (p @ 61 # v) = 61 # v"
    by simp_all
  then show ?thesis by (simp add: form_pair_def)
qed

lemma form_run_pieces:
  "61 \<notin> set p \<and> 38 \<notin> set p \<longrightarrow> form_run env False p s = pieces_flat env (split_on (\<lambda>c. c = 38) (p @ s))"
  "form_run env True p s =
     piece_text env (p @ hd (split_on (\<lambda>c. c = 38) s)) # pieces_flat env (tl (split_on (\<lambda>c. c = 38) s))"
proof (induction s arbitrary: p)
  case Nil
  {
    case 1
    have "split_on (\<lambda>c. c = 38) p = [p]" if "38 \<notin> set p" using that by (intro split_on_single) auto
    then show ?case by (auto simp: pieces_flat_def form_pair_key)
  next
    case 2
    show ?case by (simp add: pieces_flat_def)
  }
next
  case (Cons c s)
  {
    case 1
    have pre: "split_on (\<lambda>c. c = 38) (p @ t) = (p @ hd (split_on (\<lambda>c. c = 38) t)) # tl (split_on (\<lambda>c. c = 38) t)"
      if "38 \<notin> set p" for t
      using that by (intro split_on_prefix) auto
    consider (amp) "c = 38" | (eq) "c = 61" | (char) "c \<noteq> 38" "c \<noteq> 61" by auto
    then show ?case
    proof cases
      case amp
      then show ?thesis
        using Cons.IH(1) [of "[]"] pre [of "38 # s"] by (auto simp: pieces_flat_Cons form_pair_key)
    next
      case eq
      then show ?thesis
        using Cons.IH(2) [of "[]"] pre [of "61 # s"]
        by (cases "split_on (\<lambda>c. c = 38) s") (auto simp: pieces_flat_Cons form_pair_both)
    next
      case char
      then show ?thesis using Cons.IH(1) [of "p @ [c]"] by auto
    qed
  next
    case 2
    show ?case
      using Cons.IH(1) [of "[]"] Cons.IH(2) [of "p @ [c]"]
      by (cases "split_on (\<lambda>c. c = 38) s") (auto simp: pieces_flat_Cons)
  }
qed

definition drop_question :: "jsstring \<Rightarrow> jsstring" where
  "drop_question qs = (if take 1 qs = [63] then drop 1 qs else qs)"

text \<open>
  C35: \<^verbatim>\<open>parseParams\<close> is the parser of the specification on the text without a leading question mark.
\<close>

theorem parseParams_form: "parseParams env qs = flat (form_pairs env (drop_question qs))"
proof -
  define i :: nat where "i = (if charCodeAt qs 0 = Some 63 then 1 else 0)"
  have i: "i \<le> length qs" "drop i qs = drop_question qs"
    by (cases qs; simp add: i_def drop_question_def charCodeAt_0)+
  define st where "st = \<lparr>ps_out = [], seenSep = False, ps_buf = [], ps_encoded = False, encodeCheck = 0,
    pairStart = i, lastPos = i\<rparr>"
  have "params_at qs i False [] st" using i(1) by (simp add: params_at_def st_def pending_text_simps)
  from params_loop_run [OF this] form_run_pieces(1) [of "[]" env "drop_question qs"] show ?thesis
    by (simp add: parseParams_def form_pairs_def pieces_flat_def i(2) st_def flip: i_def)
qed

subsection \<open>Decoding\<close>

lemma triple_seen: "fst (foldl triple_check (True, n) s)"
  by (induction s) auto

lemma unhex_isHex: "unhexTable c = Some n \<Longrightarrow> isHexTable c"
  by (auto simp: unhexTable_def isHexTable_def split: if_splits)

lemma no_triple: "37 \<notin> set s \<Longrightarrow> foldl triple_check (False, 0) s = (False, 0)"
  by (induction s) auto

lemma decode_prefix:
  "37 \<notin> set s \<Longrightarrow> decodeURIComponent (s @ t) = map_option ((@) s) (decodeURIComponent t)"
  by (induction s) (cases "decodeURIComponent t"; simp add: decode_plain)+

lemma decode_has_triple:
  assumes "decodeURIComponent (plus_space s) = Some r" "37 \<in> set s"
  shows "has_triple s"
proof -
  obtain pre t where s: "s = pre @ 37 # t" "37 \<notin> set pre" using split_list_first [OF assms(2)] by blast
  then have "37 \<notin> set (plus_space pre)" by (auto simp: plus_space_def)
  then have "\<exists>q. decodeURIComponent (37 # plus_space t) = Some q"
    using assms(1) by (auto simp: s decode_prefix)
  then obtain h l t' where t: "plus_space t = h # l # t'" and "isHexTable h" "isHexTable l"
    by (auto simp: decodeURIComponent.simps(2) unhex_isHex split: list.splits option.splits)
  then obtain u where "t = h # l # u"
    by (auto simp: plus_space_def Cons_eq_map_conv isHexTable_def split: if_splits)
  then show ?thesis
    using \<open>isHexTable h\<close> \<open>isHexTable l\<close> triple_seen [of 3 u]
    by (auto simp: has_triple_def s no_triple isHexTable_def numeral_2_eq_2 numeral_3_eq_3)
qed

text \<open>A piece whose percent sequences are all valid is decoded as the language does.\<close>

lemma piece_decodes:
  assumes "decodeURIComponent (plus_space s) = Some r" "pe_unescape env = None"
  shows "piece_text env s = r"
proof (cases "has_triple s")
  case True
  with assms show ?thesis by (simp add: piece_text_def params_unescape_def qsUnescape_def)
next
  case False
  then have "37 \<notin> set (plus_space s)" using decode_has_triple [OF assms(1)] by (auto simp: plus_space_def)
  then have "decodeURIComponent (plus_space s) = Some (plus_space s)" by (rule decode_no_percent)
  with assms(1) False show ?thesis by (simp add: piece_text_def)
qed

subsection \<open>Printing\<close>

definition keep_space :: "nat \<Rightarrow> bool" where
  "keep_space c \<longleftrightarrow> params_noEscape c \<or> c = 32"

definition space_plus :: "jsstring \<Rightarrow> jsstring" where
  "space_plus s = map (\<lambda>c. if c = 32 then 43 else c) s"

lemma form_units: "params_noEscape c \<Longrightarrow> c < 0x80 \<and> c \<noteq> 32 \<and> c \<noteq> 37 \<and> c \<noteq> 38 \<and> c \<noteq> 43 \<and> c \<noteq> 61 \<and> c \<noteq> 63"
  by (auto simp: params_noEscape_def)

interpretation form: escape_tables params_noEscape paramHexTable
  by unfold_locales (auto simp: paramHexTable_def dest: form_units)

interpretation spaced: escape_tables keep_space hexTable
  by unfold_locales (auto simp: keep_space_def dest: form_units)

lemma space_plus_simps [simp]: "space_plus [] = []" "space_plus (s @ t) = space_plus s @ space_plus t"
  "space_plus (c # s) = (if c = 32 then 43 else c) # space_plus s"
  by (simp_all add: space_plus_def)

lemma hex_digit_ge: "48 \<le> hex_digit n"
  by (simp add: hex_digit_def)

lemma space_plus_hexTable [simp]: "space_plus (hexTable b) = hexTable b"
  using hex_digit_ge [of "b div 16"] hex_digit_ge [of "b mod 16"] by (auto simp: hexTable_def)

lemma space_plus_pct [simp]: "space_plus (pct bs) = pct bs"
  by (induction bs) (simp_all add: pct_def)

lemma map_space_plus:
  "map_option space_plus (map_option ((@) x) r) = map_option ((@) (space_plus x)) (map_option space_plus r)"
  "map_option space_plus (map_option ((#) c) r) = map_option ((#) (if c = 32 then 43 else c)) (map_option space_plus r)"
  by (cases r; simp)+

lemma append_one: "(@) [c] = (#) c"
  by (rule ext) simp

lemma esc_form:
  "esc_with params_noEscape paramHexTable s = map_option space_plus (esc_with keep_space hexTable s)"
proof (induction "params_noEscape" paramHexTable s rule: esc_with.induct)
  case (2 c s)
  have p: "params_noEscape c \<Longrightarrow> c \<noteq> 32" using form_units [of c] by blast
  show ?case
    using 2 p
    by (auto simp: esc_with.simps(2) map_space_plus keep_space_def paramHexTable_def append_one split: list.split)
qed simp

lemma pct_plain: "list_all (\<lambda>b. b < 256) bs \<Longrightarrow> c \<in> set (pct bs) \<Longrightarrow> params_noEscape c \<or> c = 37"
proof (induction bs)
  case (Cons b bs)
  have "isHexTable x \<Longrightarrow> params_noEscape x" for x by (auto simp: isHexTable_def params_noEscape_def)
  then show ?case using Cons by (auto simp: pct_def hexTable_def)
qed (simp add: pct_def)

lemma spaced_units:
  "is_jsstring s \<Longrightarrow> esc_with keep_space hexTable s = Some e \<Longrightarrow> c \<in> set e \<Longrightarrow> keep_space c \<or> c = 37"
proof (induction keep_space hexTable s arbitrary: e rule: esc_with.induct)
  case (2 d s)
  have q: "(0x10000 + (x mod 1024 * 1024 + y mod 1024)) < (0x110000 :: nat)" for x y
    using mod_less_divisor [of 1024 x] mod_less_divisor [of 1024 y] by linarith
  have u: "keep_space x \<or> x = 37" if "x \<in> set (pct (utf8 p))" "p < 0x110000" for x p
    using pct_plain [OF utf8_bytes that(1)] that(2) by (auto simp: keep_space_def)
  have h: "(if d < 128 then hexTable d else pct (utf8 d)) = pct (utf8 d)"
    by (simp add: pct_utf8(1))
  have d: "d < 0x110000" using 2(4) by (simp add: is_jsstring_def)
  show ?case
    using 2 d by (auto simp: esc_with.simps(2) h is_jsstring_def dest!: u [OF _ q] u split: if_splits list.splits)
qed simp

definition form_escape :: "jsstring \<Rightarrow> jsstring" where
  "form_escape s = the (esc_with params_noEscape paramHexTable s)"

definition form_text :: "jsstring \<times> jsstring \<Rightarrow> jsstring" where
  "form_text p = form_escape (fst p) @ 61 # form_escape (snd p)"

lemma form_escape_ok:
  assumes "well_formed s"
  shows "encodeStr s params_noEscape paramHexTable = Inr (form_escape s)"
    and "decodeURIComponent (plus_space (form_escape s)) = Some s"
    and "c \<in> set (form_escape s) \<Longrightarrow> c \<noteq> 38 \<and> c \<noteq> 61 \<and> c \<noteq> 63"
    and "c \<in> set (form_escape s) \<Longrightarrow> params_noEscape c \<or> c = 37 \<or> c = 43"
proof -
  obtain e where e: "esc_with keep_space hexTable s = Some e" "decodeURIComponent e = Some s"
    using spaced.well_formed_esc [OF assms] by blast
  note js = well_formed_jsstring [OF assms]
  have f: "form_escape s = space_plus e" by (simp add: form_escape_def esc_form e)
  have units: "keep_space c \<or> c = 37" if "c \<in> set e" for c using spaced_units [OF js e(1) that] .
  then have "plus_space (space_plus e) = e"
    by (auto simp: plus_space_def space_plus_def keep_space_def dest!: units form_units intro!: map_idI)
  with e(2) f show "decodeURIComponent (plus_space (form_escape s)) = Some s" by simp
  show "encodeStr s params_noEscape paramHexTable = Inr (form_escape s)"
    using encodeStr_esc_with [OF form.escape_tables_axioms js] by (simp add: esc_form e f esc_result_def)
  show "c \<in> set (form_escape s) \<Longrightarrow> c \<noteq> 38 \<and> c \<noteq> 61 \<and> c \<noteq> 63"
    by (auto simp: f space_plus_def keep_space_def dest!: units form_units)
  show "c \<in> set (form_escape s) \<Longrightarrow> params_noEscape c \<or> c = 37 \<or> c = 43"
    by (auto simp: f space_plus_def keep_space_def dest!: units)
qed

lemma flat_nth [simp]: "i < length ps \<Longrightarrow> flat ps ! (2 * i) = fst (ps ! i)"
  "i < length ps \<Longrightarrow> flat ps ! Suc (2 * i) = snd (ps ! i)"
  by (induction ps arbitrary: i) (auto simp: nth_Cons' less_Suc_eq_0_disj)

lemma serialize_pair_ok:
  "well_formed k \<Longrightarrow> well_formed v \<Longrightarrow> serialize_pair k (Some v) = Inr (form_text (k, v))"
  by (simp add: serialize_pair_def form_escape_ok(1) form_text_def)

lemma serialize_loop_text:
  "list_all (\<lambda>p. well_formed (fst p) \<and> well_formed (snd p)) ps \<Longrightarrow> j \<le> length ps \<Longrightarrow>
   serialize_loop (flat ps) (2 * j) t = Inr (t @ concat (map (\<lambda>p. 38 # form_text p) (drop j ps)))"
proof (induction "length ps - j" arbitrary: j t)
  case 0
  then show ?case by (subst serialize_loop.simps) simp
next
  case (Suc n)
  then have j: "j < length ps" by simp
  then have d: "drop j ps = ps ! j # drop (Suc j) ps" by (simp add: Cons_nth_drop_Suc)
  have wf: "well_formed (fst (ps ! j))" "well_formed (snd (ps ! j))"
    using Suc.prems(1) j by (simp_all add: list_all_length)
  have "n = length ps - Suc j" "Suc j \<le> length ps" using Suc.hyps(2) j by simp_all
  from Suc.hyps(1) [OF this(1) Suc.prems(1) this(2)] show ?case
    using j wf by (subst serialize_loop.simps) (simp add: d serialize_pair_ok)
qed

lemma join_concat: "join [38] (x # xs) = x @ concat (map (\<lambda>y. 38 # y) xs)"
  by (induction xs arbitrary: x) simp_all

lemma join_units: "c \<in> set (join [38] xs) \<Longrightarrow> c = 38 \<or> (\<exists>x \<in> set xs. c \<in> set x)"
  by (cases xs) (auto simp: join_concat split: if_splits)

lemma serialize_flat:
  assumes "list_all (\<lambda>p. well_formed (fst p) \<and> well_formed (snd p)) ps"
  shows "serializeParams (flat ps) = Inr (join [38] (map form_text ps))"
proof (cases ps)
  case Nil
  then show ?thesis by (simp add: serializeParams_def)
next
  case (Cons p qs)
  then have "serializeParams (flat ps) = serialize_loop (flat ps) (2 * 1) (form_text p)"
    using assms by (simp add: serializeParams_def serialize_pair_ok)
  also have "\<dots> = Inr (form_text p @ concat (map (\<lambda>p. 38 # form_text p) (drop 1 ps)))"
    using serialize_loop_text [OF assms, of 1 "form_text p"] by (simp add: Cons)
  also have "\<dots> = Inr (join [38] (map form_text ps))" by (simp add: Cons join_concat comp_def)
  finally show ?thesis .
qed

lemma serialize_flat_parse:
  assumes "list_all (\<lambda>p. well_formed (fst p) \<and> well_formed (snd p)) ps" "pe_unescape env = None"
  shows "parseParams env (join [38] (map form_text ps)) = flat ps"
proof -
  define body where "body = join [38] (map form_text ps)"
  have wf: "well_formed (fst p)" "well_formed (snd p)" if "p \<in> set ps" for p
    using assms(1) that by (auto simp: list_all_iff)
  have units: "c \<noteq> 38" "c \<noteq> 63" if "p \<in> set ps" "c \<in> set (form_text p)" for p c
    using form_escape_ok(3) [OF wf(1) [OF that(1)], of c] form_escape_ok(3) [OF wf(2) [OF that(1)], of c] that(2)
    by (auto simp: form_text_def)
  have pair: "form_pair env (form_text p) = p" if "p \<in> set ps" for p
  proof -
    have "61 \<notin> set (form_escape (fst p))" using form_escape_ok(3) [OF wf(1) [OF that]] by blast
    then show ?thesis
      using form_escape_ok(2) [OF wf(1) [OF that]] form_escape_ok(2) [OF wf(2) [OF that]] assms(2)
      by (simp add: form_text_def form_pair_both piece_decodes)
  qed
  have "63 \<notin> set body"
    using units(2) [of _ 63] join_units [of 63 "map form_text ps"] by (fastforce simp: body_def)
  then have q: "drop_question body = body"
    by (cases body) (auto simp: drop_question_def)
  have "form_pairs env body = ps"
  proof (cases "ps = []")
    case False
    then have "split_on (\<lambda>c. c = 38) body = map form_text ps"
      unfolding body_def by (intro split_on_join) (use units in auto)
    moreover have "filter (\<lambda>s. s \<noteq> []) (map form_text ps) = map form_text ps"
      by (auto simp: form_text_def filter_id_conv)
    ultimately show ?thesis by (simp add: form_pairs_def pair map_idI)
  qed (simp add: form_pairs_def body_def)
  then show ?thesis by (simp add: parseParams_form q flip: body_def)
qed

text \<open>
  \<^verbatim>\<open>toString\<close> of a list of well-formed names and values succeeds, and parsing its answer gives the
  list back, with the order and repeated names kept.
\<close>

lemma serialize_parse:
  assumes "list_all (\<lambda>p. well_formed (fst p) \<and> well_formed (snd p)) ps" "pe_unescape env = None"
  shows "\<exists>body. serializeParams (flat ps) = Inr body \<and> parseParams env body = flat ps"
  using serialize_flat [OF assms(1)] serialize_flat_parse [OF assms] by blast

definition ascii_params :: params_env where
  "ascii_params = \<lparr>pe_query = ascii_query, pe_unescape = None, object_toString = (\<lambda>_. Inr (js ''[object Object]''))\<rparr>"

lemma ascii_params_simps [simp]:
  "pe_query ascii_params = ascii_query" "pe_unescape ascii_params = None"
  by (simp_all add: ascii_params_def)

lemma serialize_parse_witness:
  "\<exists>text. serializeParams (flat [(js ''a b'', [0x20AC]), (js ''a b'', []), ([], js ''&=+'')]) = Inr text \<and>
          parseParams ascii_params text = flat [(js ''a b'', [0x20AC]), (js ''a b'', []), ([], js ''&=+'')]"
  by (rule serialize_parse) simp_all

text \<open>
  A percent sign with no digits after a valid triple sends the whole value through
  \<^verbatim>\<open>unescapeBuffer\<close>, which keeps the low byte of U+4E2D.
\<close>

lemma parse_invalid_escape:
  "parseParams ascii_params (js ''a='' @ [0x4E2D] @ js ''%41%'') = [js ''a'', js ''-A%'']"
proof -
  have "unescape_loop [0x4E2D, 37, 52, 49, 37] False 0 [] False = ([45, 65, 37], True)"
    by (simp add: unescape_loop.simps unhexTable_def)
  then have "params_unescape ascii_params [0x4E2D, 37, 52, 49, 37] = [45, 65, 37]"
    by (simp add: params_unescape_def qsUnescape_def unescapeBuffer_def decodeURIComponent.simps unhexTable_def)
  then show ?thesis
    by (simp add: parseParams_form drop_question_def form_pairs_def form_pair_def piece_text_def has_triple_def
        isHexTable_def flat_def)
qed

end
