(* ===== verification/SearchParamsOps.thy ===== *)
theory SearchParamsOps
  imports SearchParamsText
begin

text \<open>
  The methods on the list of names and values in turn, as operations on a list of pairs: every loop by
  index with its splices does what the specification of the method says.
\<close>

definition pair_is :: "jsstring \<Rightarrow> jsstring option \<Rightarrow> jsstring \<times> jsstring \<Rightarrow> bool" where
  "pair_is name val p \<longleftrightarrow> fst p = name \<and> (case val of None \<Rightarrow> True | Some v \<Rightarrow> snd p = v)"

definition set_pair :: "jsstring \<Rightarrow> jsstring \<Rightarrow> (jsstring \<times> jsstring) list \<Rightarrow> (jsstring \<times> jsstring) list" where
  "set_pair name val ps =
     takeWhile (\<lambda>p. fst p \<noteq> name) ps @ (name, val) # filter (\<lambda>p. fst p \<noteq> name) (dropWhile (\<lambda>p. fst p \<noteq> name) ps)"

definition lookup_val :: "jsstring \<Rightarrow> (jsstring \<times> jsstring) list \<Rightarrow> jsval" where
  "lookup_val name ps = (case map_of ps name of None \<Rightarrow> Null | Some v \<Rightarrow> JStr v)"

subsection \<open>One pair of the list\<close>

lemma at_pair [simp]:
  "flat (qs @ p # ps) ! (2 * length qs) = fst p"
  "value_at (flat (qs @ p # ps)) (Suc (2 * length qs)) = JStr (snd p)"
  "value_at (flat (qs @ p # ps)) (2 * length qs) = JStr (fst p)"
  by (simp_all add: value_at_def nth_append)

lemma at_pair_matches [simp]: "pair_matches name val (flat (qs @ p # ps)) (2 * length qs) = pair_is name val p"
  using at_pair [of qs p ps] by (auto simp: pair_matches_def pair_is_def simp del: flat_simps split: option.split)

lemma at_splice [simp]: "splice2 (2 * length qs) (flat (qs @ p # ps)) = flat (qs @ ps)"
  by (simp add: splice2_def numeral_2_eq_2)

lemma at_store [simp]: "store_at (flat (qs @ p # ps)) (Suc (2 * length qs)) v = flat (qs @ (fst p, v) # ps)"
  by (simp add: store_at_def list_update_append)

lemma in_pairs [simp]: "2 * length qs < length (flat (qs @ p # ps))" "\<not> 2 * length qs < length (flat qs)"
  by simp_all

lemma next_pair: "2 * length qs + 2 = 2 * length (qs @ [p])"
  by simp

subsection \<open>The loops\<close>

lemma delete_loop_pairs:
  "delete_loop name val (flat (qs @ ps)) (2 * length qs) = flat (qs @ filter (\<lambda>p. \<not> pair_is name val p) ps)"
proof (induction ps arbitrary: qs)
  case Nil
  show ?case by (subst delete_loop.simps) simp
next
  case (Cons p ps)
  show ?case
    using Cons.IH [of qs] Cons.IH [of "qs @ [p]"]
    by (subst delete_loop.simps) (simp only: in_pairs at_pair_matches at_splice next_pair [of qs p], simp)
qed

lemma get_loop_pairs: "get_loop name (flat (qs @ ps)) (2 * length qs) = lookup_val name ps"
proof (induction ps arbitrary: qs)
  case Nil
  show ?case by (subst get_loop.simps) (simp add: lookup_val_def)
next
  case (Cons p ps)
  show ?case
    using Cons.IH [of "qs @ [p]"] at_pair [of qs p ps]
    by (subst get_loop.simps) (auto simp: lookup_val_def simp del: flat_simps)
qed

lemma getAll_loop_pairs:
  "getAll_loop name (flat (qs @ ps)) (2 * length qs) vs = vs @ map (\<lambda>p. JStr (snd p)) (filter (\<lambda>p. fst p = name) ps)"
proof (induction ps arbitrary: qs vs)
  case Nil
  show ?case by (subst getAll_loop.simps) simp
next
  case (Cons p ps)
  show ?case
    using Cons.IH [of "qs @ [p]"] at_pair [of qs p ps]
    by (subst getAll_loop.simps) (auto simp del: flat_simps)
qed

lemma has_loop_pairs: "has_loop name val (flat (qs @ ps)) (2 * length qs) \<longleftrightarrow> (\<exists>p \<in> set ps. pair_is name val p)"
proof (induction ps arbitrary: qs)
  case Nil
  show ?case by (subst has_loop.simps) simp
next
  case (Cons p ps)
  show ?case
    using Cons.IH [of "qs @ [p]"] at_pair_matches [of name val qs p ps]
    by (subst has_loop.simps) (auto simp del: flat_simps)
qed

lemma set_loop_found:
  "set_loop name val (flat (qs @ ps)) (2 * length qs) True = (flat (qs @ filter (\<lambda>p. fst p \<noteq> name) ps), True)"
proof (induction ps arbitrary: qs)
  case Nil
  show ?case by (subst set_loop.simps) simp
next
  case (Cons p ps)
  show ?case
    using Cons.IH [of qs] Cons.IH [of "qs @ [p]"] at_pair [of qs p ps] at_splice [of qs p ps]
    by (subst set_loop.simps) (auto simp del: flat_simps)
qed

lemma set_loop_pairs:
  "set_loop name val (flat (qs @ ps)) (2 * length qs) False =
     (if name \<in> fst ` set ps then (flat (qs @ set_pair name val ps), True) else (flat (qs @ ps), False))"
proof (induction ps arbitrary: qs)
  case Nil
  show ?case by (subst set_loop.simps) simp
next
  case (Cons p ps)
  show ?case
  proof (cases "fst p = name")
    case True
    then show ?thesis
      using set_loop_found [of name val "qs @ [(name, val)]" ps] at_pair [of qs p ps] at_store [of qs p ps val]
      by (subst set_loop.simps) (auto simp: set_pair_def simp del: flat_simps)
  next
    case False
    then show ?thesis
      using Cons.IH [of "qs @ [p]"] at_pair [of qs p ps]
      by (subst set_loop.simps) (auto simp: set_pair_def simp del: flat_simps)
  qed
qed

lemmas loops_from_start =
  delete_loop_pairs [where qs = "[]", simplified] get_loop_pairs [where qs = "[]", simplified]
  getAll_loop_pairs [where qs = "[]", simplified] has_loop_pairs [where qs = "[]", simplified]
  set_loop_pairs [where qs = "[]", simplified]

subsection \<open>The methods\<close>

text \<open>The pairs a params object stands for.\<close>

definition holds_pairs :: "'u params \<Rightarrow> (jsstring \<times> jsstring) list \<Rightarrow> bool" where
  "holds_pairs p ps \<longleftrightarrow> searchParams p = flat ps"

text \<open>What a method leaves: the pairs, and the URL told of them.\<close>

definition with_pairs :: "(jsstring list \<Rightarrow> 'u \<Rightarrow> 'u) \<Rightarrow> 'u params \<Rightarrow> (jsstring \<times> jsstring) list \<Rightarrow> 'u params" where
  "with_pairs notify p ps =
     \<lparr>searchParams = flat ps, context_url = map_option (notify (flat ps)) (context_url p)\<rparr>"

lemma touch_pairs: "touch notify (p\<lparr>searchParams := flat ps\<rparr>) = with_pairs notify p ps"
  by (cases p) (simp add: touch_def with_pairs_def split: option.split)

lemma holds_with_pairs: "holds_pairs (with_pairs notify p ps) ps"
  by (simp add: holds_pairs_def with_pairs_def)

lemmas method_simps = this_params_def optional_value_def usv_string_def template_string_def touch_pairs
  loops_from_start holds_pairs_def

text \<open>
  C34: on an object that holds the pairs \<open>ps\<close>, every method with string arguments is the operation of
  the specification on them: append adds a pair at the end, delete drops the matching pairs, get and
  getAll look at the pairs of the name, has asks for a matching pair, set replaces the first pair of
  the name and drops the others or appends, and size counts the pairs. The names and values are made
  well formed first.
\<close>

theorem params_methods:
  assumes "holds_pairs p ps"
  shows "params_append notify env (Some p) [JStr k, JStr v] =
           Inr (with_pairs notify p (ps @ [(toWellFormed k, toWellFormed v)])) \<and>
         params_delete notify env (Some p) [JStr k] =
           Inr (with_pairs notify p (filter (\<lambda>q. fst q \<noteq> toWellFormed k) ps)) \<and>
         params_delete notify env (Some p) [JStr k, JStr v] =
           Inr (with_pairs notify p (filter (\<lambda>q. q \<noteq> (toWellFormed k, toWellFormed v)) ps)) \<and>
         params_get env (Some p) [JStr k] = Inr (lookup_val (toWellFormed k) ps) \<and>
         params_getAll env (Some p) [JStr k] =
           Inr (map (\<lambda>q. JStr (snd q)) (filter (\<lambda>q. fst q = toWellFormed k) ps)) \<and>
         params_has env (Some p) [JStr k] = Inr (toWellFormed k \<in> fst ` set ps) \<and>
         params_has env (Some p) [JStr k, JStr v] = Inr ((toWellFormed k, toWellFormed v) \<in> set ps) \<and>
         params_set notify env (Some p) [JStr k, JStr v] =
           Inr (with_pairs notify p (set_pair (toWellFormed k) (toWellFormed v) ps)) \<and>
         params_size (Some p) = Inr (of_nat (length ps))"
proof -
  have list: "searchParams p = flat ps" using assms by (simp add: holds_pairs_def)
  let ?k = "toWellFormed k" and ?v = "toWellFormed v"
  have is1: "pair_is ?k None q \<longleftrightarrow> fst q = ?k" and is2: "pair_is ?k (Some ?v) q \<longleftrightarrow> q = (?k, ?v)" for q
    by (cases q; simp add: pair_is_def)+
  have set: "set_pair ?k ?v ps = ps @ [(?k, ?v)]" if "?k \<notin> fst ` set ps"
  proof -
    have "\<forall>q \<in> set ps. fst q \<noteq> ?k" using that by force
    then have "takeWhile (\<lambda>q. fst q \<noteq> ?k) ps = ps" "dropWhile (\<lambda>q. fst q \<noteq> ?k) ps = []"
      by (simp_all add: takeWhile_eq_all_conv)
    then show ?thesis by (simp only: set_pair_def filter.simps)
  qed
  have snoc: "flat ps @ [?k, ?v] = flat (ps @ [(?k, ?v)])" by simp
  have "params_append notify env (Some p) [JStr k, JStr v] = Inr (with_pairs notify p (ps @ [(?k, ?v)]))"
    by (simp add: params_append_def method_simps list snoc del: flat_simps)
  moreover have "params_delete notify env (Some p) [JStr k] =
      Inr (with_pairs notify p (filter (\<lambda>q. fst q \<noteq> ?k) ps))"
    by (simp add: params_delete_def method_simps list is1)
  moreover have "params_delete notify env (Some p) [JStr k, JStr v] =
      Inr (with_pairs notify p (filter (\<lambda>q. q \<noteq> (?k, ?v)) ps))"
    by (simp add: params_delete_def method_simps list is2)
  moreover have "params_get env (Some p) [JStr k] = Inr (lookup_val ?k ps)"
    by (simp add: params_get_def method_simps list)
  moreover have "params_getAll env (Some p) [JStr k] = Inr (map (\<lambda>q. JStr (snd q)) (filter (\<lambda>q. fst q = ?k) ps))"
    by (simp add: params_getAll_def method_simps list)
  moreover have "params_has env (Some p) [JStr k] = Inr (?k \<in> fst ` set ps)"
    by (force simp: params_has_def method_simps list is1)
  moreover have "params_has env (Some p) [JStr k, JStr v] = Inr ((?k, ?v) \<in> set ps)"
    by (simp add: params_has_def method_simps list is2)
  moreover have "params_set notify env (Some p) [JStr k, JStr v] = Inr (with_pairs notify p (set_pair ?k ?v ps))"
    by (auto simp: params_set_def method_simps list snoc set simp del: flat_simps)
  moreover have "params_size (Some p) = Inr (of_nat (length ps))"
    by (simp add: params_size_def method_simps list)
  ultimately show ?thesis by (intro conjI)
qed

theorem params_methods_witness:
  "params_append (\<lambda>_ u. u + (1::int)) ascii_params (Some \<lparr>searchParams = flat [(js ''a'', js ''b'')], context_url = Some 0\<rparr>)
     [JStr (js ''c''), JStr [0xD800]] =
   Inr \<lparr>searchParams = flat [(js ''a'', js ''b''), (js ''c'', [0xFFFD])], context_url = Some 1\<rparr>"
  using params_methods [of "\<lparr>searchParams = flat [(js ''a'', js ''b'')], context_url = Some 0\<rparr>" "[(js ''a'', js ''b'')]"
      "\<lambda>_ u. u + (1::int)" ascii_params "js ''c''" "[0xD800]"]
  by (simp add: holds_pairs_def with_pairs_def)

subsection \<open>Iterating\<close>

fun each_pair :: "(jsval \<Rightarrow> jsval \<Rightarrow> 's \<Rightarrow> 's result) \<Rightarrow> (jsstring \<times> jsstring) list \<Rightarrow> 's \<Rightarrow> 's result" where
  "each_pair callback [] s = Inr s"
| "each_pair callback (p # ps) s = bind (callback (JStr (snd p)) (JStr (fst p)) s) (each_pair callback ps)"

text \<open>
  As long as the callback leaves the list alone, \<^verbatim>\<open>forEach\<close> returns: it calls the callback with every
  value and name in order, up to the first call that throws.
\<close>

lemma forEach_pairs:
  assumes "\<And>v k s s'. callback v k s = Inr s' \<Longrightarrow> params_of s' = params_of s"
  shows "params_of s = flat (qs @ ps) \<Longrightarrow>
    forEach_loop callback params_of (2 * length qs) s = Some (each_pair callback ps s)"
proof (induction ps arbitrary: qs s)
  case Nil
  then show ?case by (subst forEach_loop.simps) simp
next
  case (Cons p ps)
  have at: "value_at (params_of s) (Suc (2 * length qs)) = JStr (snd p)" "value_at (params_of s) (2 * length qs) = JStr (fst p)"
    unfolding Cons.prems by (rule at_pair)+
  have more: "2 * length qs < length (params_of s)" using Cons.prems by simp
  show ?case
  proof (cases "callback (JStr (snd p)) (JStr (fst p)) s")
    case (Inl e)
    then show ?thesis by (subst forEach_loop.simps) (simp add: more at)
  next
    case (Inr s')
    then have "params_of s' = flat ((qs @ [p]) @ ps)" using assms Cons.prems by simp
    from Cons.IH [OF this] Inr show ?thesis by (subst forEach_loop.simps) (simp add: more at)
  qed
qed

text \<open>A call of \<^verbatim>\<open>next\<close> gives the pair at the position of the iterator, or says that there is none.\<close>

lemma iterator_next_pair:
  "iterator_next (Some \<lparr>it_kind = k, it_index = 2 * length qs\<rparr>) (flat (qs @ p # ps)) =
     Inr (Some (case k of KeyKind \<Rightarrow> Item (JStr (fst p)) | ValueKind \<Rightarrow> Item (JStr (snd p))
                | PairKind \<Rightarrow> PairItem (JStr (fst p)) (JStr (snd p))),
          \<lparr>it_kind = k, it_index = 2 * length (qs @ [p])\<rparr>)"
  "iterator_next (Some \<lparr>it_kind = k, it_index = 2 * length qs\<rparr>) (flat qs) =
     Inr (None, \<lparr>it_kind = k, it_index = 2 * length qs\<rparr>)"
  using at_pair [of qs p ps] by (simp_all add: iterator_next_def Let_def del: flat_simps)

end
