(* ===== verification/SearchParamsSort.thy ===== *)
theory SearchParamsSort
  imports SearchParamsOps
begin

text \<open>
  \<^verbatim>\<open>sort\<close>: an insertion sort in place for fewer than 100 entries of the list, a bottom-up merge sort with
  two buffers otherwise. Both are the stable sort of the pairs by name, names compared by code units.
\<close>

subsection \<open>Insertion sort\<close>

text \<open>The hole \<open>h\<close> is \<^verbatim>\<open>j + 2\<close>, so \<^verbatim>\<open>j >= 0\<close> is \<open>2 \<le> h\<close>.\<close>

function insert_loop :: "jsstring \<Rightarrow> jsstring list \<Rightarrow> nat \<Rightarrow> jsstring list \<times> nat" where
  "insert_loop curKey a h =
     (if 2 \<le> h \<and> a ! (h - 2) > curKey
      then insert_loop curKey (a[h := a ! (h - 2), h + 1 := a ! (h - 1)]) (h - 2)
      else (a, h))"
  by pat_completeness auto
termination
  by (relation "measure (\<lambda>(_, _, h). h)") auto

function insertion_loop :: "jsstring list \<Rightarrow> nat \<Rightarrow> nat \<Rightarrow> jsstring list" where
  "insertion_loop a len i =
     (if i < len then
        (let curKey = a ! i;
             curVal = a ! (i + 1);
             (a, h) = insert_loop curKey a i
         in insertion_loop (a[h := curKey, h + 1 := curVal]) len (i + 2))
      else a)"
  by pat_completeness auto
termination
  by (relation "measure (\<lambda>(_, len, i). len - i)") auto

declare insert_loop.simps [simp del] insertion_loop.simps [simp del]

subsection \<open>Merge sort\<close>

function copy_loop :: "jsstring list \<Rightarrow> jsstring list \<Rightarrow> nat \<Rightarrow> nat \<Rightarrow> nat \<Rightarrow> jsstring list" where
  "copy_loop buffer out base l sz =
     (if l < sz then copy_loop (buffer[l := out ! (base + l)]) out base (l + 1) sz else buffer)"
  by pat_completeness auto
termination
  by (relation "measure (\<lambda>(_, _, _, l, sz). sz - l)") auto

function merge_loop ::
    "jsstring list \<Rightarrow> jsstring list \<Rightarrow> nat \<Rightarrow> nat \<Rightarrow> jsstring list \<Rightarrow> nat \<Rightarrow> nat \<Rightarrow> nat \<Rightarrow>
     jsstring list \<times> nat \<times> nat \<times> nat" where
  "merge_loop lBuffer rBuffer sizeLeft sizeRight out l r j =
     (if l < sizeLeft \<and> r < sizeRight then
        (if lBuffer ! l \<le> rBuffer ! r
         then merge_loop lBuffer rBuffer sizeLeft sizeRight
                (out[j := lBuffer ! l, j + 1 := lBuffer ! (l + 1)]) (l + 2) r (j + 2)
         else merge_loop lBuffer rBuffer sizeLeft sizeRight
                (out[j := rBuffer ! r, j + 1 := rBuffer ! (r + 1)]) l (r + 2) (j + 2))
      else (out, l, r, j))"
  by pat_completeness auto
termination
  by (relation "measure (\<lambda>(_, _, sizeLeft, sizeRight, _, l, r, _). (sizeLeft - l) + (sizeRight - r))") auto

function drain_loop :: "jsstring list \<Rightarrow> nat \<Rightarrow> jsstring list \<Rightarrow> nat \<Rightarrow> nat \<Rightarrow> jsstring list \<times> nat" where
  "drain_loop buffer sz out l j =
     (if l < sz then drain_loop buffer sz (out[j := buffer ! l]) (l + 1) (j + 1) else (out, j))"
  by pat_completeness auto
termination
  by (relation "measure (\<lambda>(_, sz, _, l, _). sz - l)") auto

declare copy_loop.simps [simp del] merge_loop.simps [simp del] drain_loop.simps [simp del]

text \<open>\<^verbatim>\<open>merge\<close>, with the buffers it leaves.\<close>

definition merge_range ::
    "jsstring list \<Rightarrow> nat \<Rightarrow> nat \<Rightarrow> nat \<Rightarrow> jsstring list \<Rightarrow> jsstring list \<Rightarrow>
     jsstring list \<times> jsstring list \<times> jsstring list" where
  "merge_range out start mid stop lBuffer rBuffer =
     (let sizeLeft = mid - start;
          sizeRight = stop - mid;
          lBuffer = copy_loop lBuffer out start 0 sizeLeft;
          rBuffer = copy_loop rBuffer out mid 0 sizeRight;
          (out, l, r, j) = merge_loop lBuffer rBuffer sizeLeft sizeRight out 0 0 start;
          (out, j) = drain_loop lBuffer sizeLeft out l j;
          (out, j) = drain_loop rBuffer sizeRight out r j
      in (out, lBuffer, rBuffer))"

text \<open>The variable \<^verbatim>\<open>step\<close> starts at 2 and doubles: after \<open>k\<close> rounds it is \<open>2 ^ (k + 1)\<close>.\<close>

function merge_starts ::
    "nat \<Rightarrow> nat \<Rightarrow> jsstring list \<Rightarrow> nat \<Rightarrow> jsstring list \<Rightarrow> jsstring list \<Rightarrow>
     jsstring list \<times> jsstring list \<times> jsstring list" where
  "merge_starts len k a start lBuffer rBuffer =
     (if int start < int len - 2 then
        (let step = 2 ^ (k + 1);
             mid = start + step;
             stop = mid + step;
             stop = (if stop < len then stop else len);
             (a, lBuffer, rBuffer) =
               (if mid > stop then (a, lBuffer, rBuffer) else merge_range a start mid stop lBuffer rBuffer)
         in merge_starts len k a (start + 2 * step) lBuffer rBuffer)
      else (a, lBuffer, rBuffer))"
  by pat_completeness auto
termination
  by (relation "measure (\<lambda>(len, _, _, start, _, _). len - start)") (auto intro!: diff_less_mono2)

function merge_steps :: "nat \<Rightarrow> nat \<Rightarrow> jsstring list \<Rightarrow> jsstring list \<Rightarrow> jsstring list \<Rightarrow> jsstring list" where
  "merge_steps len k a lBuffer rBuffer =
     (if 2 ^ (k + 1) < len then
        (let (a, lBuffer, rBuffer) = merge_starts len k a 0 lBuffer rBuffer
         in merge_steps len (k + 1) a lBuffer rBuffer)
      else a)"
  by pat_completeness auto
termination
proof (relation "measure (\<lambda>(len, k, _). len - k)", goal_cases)
  case (2 len k a l r)
  then have "k < len" using less_exp [of "k + 1"] by linarith
  then show ?case by simp
qed simp

declare merge_starts.simps [simp del] merge_steps.simps [simp del]

definition sort_list :: "jsstring list \<Rightarrow> jsstring list" where
  "sort_list a =
     (let len = length a in
      if len \<le> 2 then a
      else if len < 100 then insertion_loop a len 2
      else merge_steps len 0 a (replicate len []) (replicate len []))"

definition params_sort ::
    "(jsstring list \<Rightarrow> 'u \<Rightarrow> 'u) \<Rightarrow> 'u params option \<Rightarrow> 'u params result" where
  "params_sort notify this =
     bind (this_params this) (\<lambda>p. Inr (touch notify (p\<lparr>searchParams := sort_list (searchParams p)\<rparr>)))"

subsection \<open>Stable sorting\<close>

abbreviation by_name :: "(jsstring \<times> jsstring) list \<Rightarrow> (jsstring \<times> jsstring) list" where
  "by_name \<equiv> sort_key fst"

lemma by_name_stable: "filter (\<lambda>p. fst p = k) (by_name ps) = filter (\<lambda>p. fst p = k) ps"
  by (simp add: sort_key_stable)

lemma by_nameI:
  assumes "mset qs = mset ps" "sorted (map fst qs)"
    and "\<And>k. filter (\<lambda>p. fst p = k) qs = filter (\<lambda>p. fst p = k) ps"
  shows "by_name ps = qs"
  using assms(3) by (intro properties_for_sort_key assms(1,2)) (simp add: eq_commute)

lemma by_name_insert:
  assumes "by_name ps = xs @ ys" "\<forall>p \<in> set ys. k < fst p" "xs = [] \<or> fst (last xs) \<le> k"
  shows "by_name (ps @ [(k, v)]) = xs @ (k, v) # ys"
proof (rule by_nameI)
  have m: "mset (xs @ ys) = mset ps" by (simp flip: assms(1))
  then show "mset (xs @ (k, v) # ys) = mset (ps @ [(k, v)])" by simp
  have s: "sorted (map fst (xs @ ys))" by (simp flip: assms(1))
  then have "\<forall>p \<in> set xs. fst p \<le> k"
    using assms(3) by (cases xs rule: rev_cases) (auto simp: sorted_append intro: order_trans)
  with s assms(2) show "sorted (map fst (xs @ (k, v) # ys))"
    by (auto simp: sorted_append intro: less_imp_le)
  fix l
  have "filter (\<lambda>p. fst p = l) (xs @ ys) = filter (\<lambda>p. fst p = l) ps"
    by (simp only: by_name_stable flip: assms(1))
  moreover have "filter (\<lambda>p. fst p = k) ys = []" using assms(2) by (auto simp: filter_empty_conv)
  ultimately show "filter (\<lambda>p. fst p = l) (xs @ (k, v) # ys) = filter (\<lambda>p. fst p = l) (ps @ [(k, v)])"
    by auto
qed

fun merge_pairs :: "(jsstring \<times> jsstring) list \<Rightarrow> (jsstring \<times> jsstring) list \<Rightarrow> (jsstring \<times> jsstring) list" where
  "merge_pairs [] ys = ys"
| "merge_pairs xs [] = xs"
| "merge_pairs (x # xs) (y # ys) =
     (if fst x \<le> fst y then x # merge_pairs xs (y # ys) else y # merge_pairs (x # xs) ys)"

lemma merge_pairs_mset: "mset (merge_pairs xs ys) = mset xs + mset ys"
  by (induction xs ys rule: merge_pairs.induct) auto

lemma merge_pairs_set: "set (merge_pairs xs ys) = set xs \<union> set ys"
  by (induction xs ys rule: merge_pairs.induct) auto

lemma merge_pairs_sorted:
  "sorted (map fst xs) \<Longrightarrow> sorted (map fst ys) \<Longrightarrow> sorted (map fst (merge_pairs xs ys))"
  by (induction xs ys rule: merge_pairs.induct) (auto simp: merge_pairs_set intro: order_trans)

lemma merge_pairs_stable:
  "sorted (map fst xs) \<Longrightarrow>
   filter (\<lambda>p. fst p = k) (merge_pairs xs ys) = filter (\<lambda>p. fst p = k) xs @ filter (\<lambda>p. fst p = k) ys"
proof (induction xs ys rule: merge_pairs.induct)
  case (3 x xs y ys)
  have "filter (\<lambda>p. fst p = fst y) (x # xs) = []" if "\<not> fst x \<le> fst y"
    using that 3(3) by (auto simp: filter_empty_conv)
  then show ?case using 3 by auto
qed auto

lemma by_name_merge: "merge_pairs (by_name xs) (by_name ys) = by_name (xs @ ys)"
  by (rule by_nameI [symmetric]) (simp_all add: merge_pairs_mset merge_pairs_sorted merge_pairs_stable by_name_stable)

subsection \<open>The insertion sort sorts\<close>

lemma at_second [simp]: "flat (qs @ p # ps) ! Suc (2 * length qs) = snd p"
  by (simp add: nth_append)

lemma at_put [simp]: "(flat (qs @ p # ps))[2 * length qs := k, Suc (2 * length qs) := v] = flat (qs @ (k, v) # ps)"
  by (simp add: list_update_append)

lemma insert_loop_pairs:
  "\<exists>ys zs z'. xs = ys @ zs \<and> (\<forall>p \<in> set zs. k < fst p) \<and> (ys = [] \<or> fst (last ys) \<le> k) \<and>
     insert_loop k (flat (xs @ z # rest)) (2 * length xs) = (flat (ys @ z' # zs @ rest), 2 * length ys)"
proof (induction xs arbitrary: z rest rule: rev_induct)
  case Nil
  show ?case by (rule exI [of _ "[]"], rule exI [of _ "[]"], rule exI [of _ z]) (subst insert_loop.simps, simp)
next
  case (snoc x xs)
  let ?a = "flat (xs @ x # z # rest)"
  have first: "?a ! (2 * length xs) = fst x" and second: "?a ! Suc (2 * length xs) = snd x"
    using at_pair(1) [of xs x "z # rest"] at_second [of xs x "z # rest"] by simp_all
  show ?case
  proof (cases "k < fst x")
    case True
    have "?a[2 * length (xs @ [x]) := fst x, Suc (2 * length (xs @ [x])) := snd x] = flat (xs @ x # x # rest)"
      using at_put [of "xs @ [x]" z rest "fst x" "snd x"] by simp
    then have "insert_loop k ?a (2 * length (xs @ [x])) = insert_loop k (flat (xs @ x # x # rest)) (2 * length xs)"
      by (subst insert_loop.simps) (use True first second in simp)
    moreover obtain ys zs z' where "xs = ys @ zs" "\<forall>p \<in> set zs. k < fst p" "ys = [] \<or> fst (last ys) \<le> k"
        "insert_loop k (flat (xs @ x # x # rest)) (2 * length xs) = (flat (ys @ z' # zs @ x # rest), 2 * length ys)"
      using snoc.IH [of x "x # rest"] by blast
    ultimately show ?thesis
      using True by (intro exI [of _ ys] exI [of _ "zs @ [x]"] exI [of _ z']) auto
  next
    case False
    then have "insert_loop k ?a (2 * length (xs @ [x])) = (?a, 2 * length (xs @ [x]))"
      by (subst insert_loop.simps) (use first in simp)
    then show ?thesis
      using False by (intro exI [of _ "xs @ [x]"] exI [of _ "[]"] exI [of _ z]) auto
  qed
qed

lemma insertion_loop_sorts:
  "len = 2 * (length xs + length ps) \<Longrightarrow>
   insertion_loop (flat (by_name xs @ ps)) len (2 * length xs) = flat (by_name (xs @ ps))"
proof (induction ps arbitrary: xs)
  case Nil
  then show ?case by (subst insertion_loop.simps) simp
next
  case (Cons p ps)
  obtain k v where p: "p = (k, v)" by (cases p)
  obtain ys zs z' where split: "by_name xs = ys @ zs" "\<forall>p \<in> set zs. k < fst p" "ys = [] \<or> fst (last ys) \<le> k"
      and loop: "insert_loop k (flat (by_name xs @ p # ps)) (2 * length xs) = (flat (ys @ z' # zs @ ps), 2 * length ys)"
    using insert_loop_pairs [of "by_name xs" k p ps] unfolding length_sort by blast
  have sorted: "by_name (xs @ [p]) = ys @ (k, v) # zs" unfolding p by (rule by_name_insert [OF split])
  have at: "flat (by_name xs @ p # ps) ! (2 * length xs) = k" "flat (by_name xs @ p # ps) ! Suc (2 * length xs) = v"
    using at_pair(1) [of "by_name xs" p ps] at_second [of "by_name xs" p ps] by (simp_all add: p)
  have "insertion_loop (flat (by_name xs @ p # ps)) len (2 * length xs) =
        insertion_loop (flat (by_name (xs @ [p]) @ ps)) len (2 * length (xs @ [p]))"
    by (subst insertion_loop.simps)
       (use Cons.prems at loop at_put [of ys z' "zs @ ps" k v] in \<open>simp add: sorted Let_def del: flat_simps\<close>)
  also have "\<dots> = flat (by_name ((xs @ [p]) @ ps))" by (rule Cons.IH) (use Cons.prems in simp)
  finally show ?case by simp
qed

subsection \<open>Merging\<close>

lemma copy_loop_run:
  "l \<le> sz \<Longrightarrow> sz \<le> length buffer \<Longrightarrow> base + sz \<le> length out \<Longrightarrow>
   copy_loop buffer out base l sz = take l buffer @ take (sz - l) (drop (base + l) out) @ drop sz buffer"
proof (induction buffer out base l sz rule: copy_loop.induct)
  case (1 buffer out base l sz)
  show ?case
  proof (cases "l < sz")
    case True
    then have "take (sz - l) (drop (base + l) out) = out ! (base + l) # take (sz - Suc l) (drop (base + Suc l) out)"
      using "1.prems" by (simp add: Cons_nth_drop_Suc [symmetric] take_Cons')
    moreover have "take (Suc l) (buffer[l := out ! (base + l)]) = take l buffer @ [out ! (base + l)]"
      using True "1.prems" by (simp add: take_Suc_conv_app_nth)
    ultimately show ?thesis
      using 1 True by (subst copy_loop.simps) simp
  next
    case False
    then show ?thesis using "1.prems" by (subst copy_loop.simps) simp
  qed
qed

lemma drain_loop_run:
  "l \<le> sz \<Longrightarrow> sz \<le> length buffer \<Longrightarrow> j + (sz - l) \<le> length out \<Longrightarrow>
   drain_loop buffer sz out l j =
     (take j out @ take (sz - l) (drop l buffer) @ drop (j + (sz - l)) out, j + (sz - l))"
proof (induction buffer sz out l j rule: drain_loop.induct)
  case (1 buffer sz out l j)
  show ?case
  proof (cases "l < sz")
    case True
    then have "take (sz - l) (drop l buffer) = buffer ! l # take (sz - Suc l) (drop (Suc l) buffer)"
      using "1.prems" by (simp add: Cons_nth_drop_Suc [symmetric] take_Cons')
    moreover have "take (Suc j) (out[j := buffer ! l]) = take j out @ [buffer ! l]"
      using True "1.prems" by (simp add: take_Suc_conv_app_nth)
    moreover have "Suc (j + sz - Suc l) = j + sz - l" using True by simp
    ultimately show ?thesis
      using 1 True by (subst drain_loop.simps) simp
  next
    case False
    then show ?thesis using "1.prems" by (subst drain_loop.simps) simp
  qed
qed

lemma take_flat: "take (2 * length ps) (flat ps @ xs) = flat ps" "drop (2 * length ps) (flat ps @ xs) = xs"
  by simp_all

definition finish_merge ::
    "jsstring list \<Rightarrow> jsstring list \<Rightarrow> nat \<Rightarrow> nat \<Rightarrow> jsstring list \<times> nat \<times> nat \<times> nat \<Rightarrow> jsstring list" where
  "finish_merge lb rb sl sr =
     (\<lambda>(out, l, r, j). case drain_loop lb sl out l j of (out, j) \<Rightarrow> fst (drain_loop rb sr out r j))"

lemma finish_merge_run:
  assumes "ls = [] \<or> rs = []" "length stale = length ls + length rs"
  shows "finish_merge (flat (L @ ls) @ lj) (flat (R @ rs) @ rj) (2 * (length L + length ls)) (2 * (length R + length rs))
           (flat (M @ stale @ B), 2 * length L, 2 * length R, 2 * length M) = flat (M @ ls @ rs @ B)"
  using assms by (auto simp: finish_merge_def drain_loop_run take_flat)

lemma buffer_at:
  "(flat (L @ p # ls) @ junk) ! (2 * length L) = fst p"
  "(flat (L @ p # ls) @ junk) ! Suc (2 * length L) = snd p"
  by (simp_all add: nth_append)

lemma merge_loop_pairs:
  "length stale = length ls + length rs \<Longrightarrow> lb = flat (L @ ls) @ lj \<Longrightarrow> rb = flat (R @ rs) @ rj \<Longrightarrow>
   sl = 2 * (length L + length ls) \<Longrightarrow> sr = 2 * (length R + length rs) \<Longrightarrow>
   finish_merge lb rb sl sr
     (merge_loop lb rb sl sr (flat (M @ stale @ B)) (2 * length L) (2 * length R) (2 * length M)) =
   flat (M @ merge_pairs ls rs @ B)"
proof (induction ls rs arbitrary: L R M stale rule: merge_pairs.induct)
  case (1 rs)
  then show ?case
    using finish_merge_run [of "[]" rs stale L lj R rj M B] by (subst merge_loop.simps) simp
next
  case (2 x xs)
  then show ?case
    using finish_merge_run [of "x # xs" "[]" stale L lj R rj M B] by (subst merge_loop.simps) simp
next
  case (3 x xs y ys)
  obtain z stale' where stale: "stale = z # stale'" using "3.prems"(1) by (cases stale) auto
  have at: "lb ! (2 * length L) = fst x" "lb ! Suc (2 * length L) = snd x"
      "rb ! (2 * length R) = fst y" "rb ! Suc (2 * length R) = snd y"
    using "3.prems" buffer_at by simp_all
  have more: "2 * length L < sl" "2 * length R < sr" using "3.prems" by simp_all
  show ?case
  proof (cases "fst x \<le> fst y")
    case True
    then have "merge_loop lb rb sl sr (flat (M @ stale @ B)) (2 * length L) (2 * length R) (2 * length M) =
        merge_loop lb rb sl sr (flat ((M @ [x]) @ stale' @ B)) (2 * length (L @ [x])) (2 * length R) (2 * length (M @ [x]))"
      by (subst merge_loop.simps) (use more at at_put [of M z "stale' @ B" "fst x" "snd x"] in \<open>simp add: stale\<close>)
    moreover have "length stale' = length xs + length (y # ys)" "lb = flat ((L @ [x]) @ xs) @ lj"
        "sl = 2 * (length (L @ [x]) + length xs)"
      using "3.prems" stale by simp_all
    ultimately show ?thesis
      using "3.IH"(1) [OF True _ _ "3.prems"(3) _ "3.prems"(5), of stale' "L @ [x]" "M @ [x]"] True by simp
  next
    case False
    then have "merge_loop lb rb sl sr (flat (M @ stale @ B)) (2 * length L) (2 * length R) (2 * length M) =
        merge_loop lb rb sl sr (flat ((M @ [y]) @ stale' @ B)) (2 * length L) (2 * length (R @ [y])) (2 * length (M @ [y]))"
      by (subst merge_loop.simps) (use more at at_put [of M z "stale' @ B" "fst y" "snd y"] in \<open>simp add: stale\<close>)
    moreover have "length stale' = length (x # xs) + length ys" "rb = flat ((R @ [y]) @ ys) @ rj"
        "sr = 2 * (length (R @ [y]) + length ys)"
      using "3.prems" stale by simp_all
    ultimately show ?thesis
      using "3.IH"(2) [OF False _ "3.prems"(2) _ "3.prems"(4), of stale' "R @ [y]" "M @ [y]"] False by simp
  qed
qed

lemma merge_range_pairs:
  assumes "2 * length L \<le> length lb" "2 * length R \<le> length rb"
  shows "\<exists>lb' rb'. merge_range (flat (A @ L @ R @ B)) (2 * length A) (2 * length A + 2 * length L)
             (2 * length A + 2 * length L + 2 * length R) lb rb = (flat (A @ merge_pairs L R @ B), lb', rb') \<and>
           length lb' = length lb \<and> length rb' = length rb"
proof -
  let ?a = "flat (A @ L @ R @ B)"
  define lb' where "lb' = copy_loop lb ?a (2 * length A) 0 (2 * length L)"
  define rb' where "rb' = copy_loop rb ?a (2 * length A + 2 * length L) 0 (2 * length R)"
  have l: "lb' = flat ([] @ L) @ drop (2 * length L) lb"
    unfolding lb'_def by (subst copy_loop_run) (use assms in \<open>simp_all add: take_flat\<close>)
  have r: "rb' = flat ([] @ R) @ drop (2 * length R) rb"
    unfolding rb'_def by (subst copy_loop_run) (use assms in \<open>simp_all add: take_flat\<close>)
  have "finish_merge lb' rb' (2 * length L) (2 * length R)
      (merge_loop lb' rb' (2 * length L) (2 * length R) ?a 0 0 (2 * length A)) = flat (A @ merge_pairs L R @ B)"
    using merge_loop_pairs [OF _ l r, of "L @ R" "2 * length L" "2 * length R" A B] by (simp del: flat_simps)
  then have "fst (merge_range ?a (2 * length A) (2 * length A + 2 * length L)
      (2 * length A + 2 * length L + 2 * length R) lb rb) = flat (A @ merge_pairs L R @ B)"
    by (simp add: merge_range_def finish_merge_def Let_def split_beta lb'_def rb'_def del: flat_simps)
  moreover have "snd (merge_range ?a (2 * length A) (2 * length A + 2 * length L)
      (2 * length A + 2 * length L + 2 * length R) lb rb) = (lb', rb')"
    by (simp add: merge_range_def Let_def split_beta lb'_def rb'_def del: flat_simps)
  moreover have "length lb' = length lb" "length rb' = length rb" using l r assms by simp_all
  ultimately show ?thesis by (metis prod.collapse)
qed

subsection \<open>Rounds\<close>

function chunk_sort :: "nat \<Rightarrow> (jsstring \<times> jsstring) list \<Rightarrow> (jsstring \<times> jsstring) list" where
  "chunk_sort c ps = (if c = 0 \<or> ps = [] then [] else by_name (take c ps) @ chunk_sort c (drop c ps))"
  by pat_completeness auto
termination
  by (relation "measure (\<lambda>(_, ps). length ps)") auto

declare chunk_sort.simps [simp del]

lemma chunk_sort_Nil [simp]: "chunk_sort c [] = []"
  by (subst chunk_sort.simps) simp

lemma length_chunk_sort: "0 < c \<Longrightarrow> length (chunk_sort c ps) = length ps"
proof (induction c ps rule: chunk_sort.induct)
  case (1 c ps)
  then show ?case by (subst chunk_sort.simps) auto
qed

lemma chunk_sort_all: "length ps \<le> c \<Longrightarrow> 0 < c \<Longrightarrow> chunk_sort c ps = by_name ps"
  by (subst chunk_sort.simps) auto

lemma chunk_sort_one: "chunk_sort 1 ps = ps"
proof (induction ps)
  case (Cons p ps)
  then show ?case by (subst chunk_sort.simps) simp
qed simp

lemma merge_starts_done: "int len - 2 \<le> int start \<Longrightarrow> merge_starts len k a start lb rb = (a, lb, rb)"
  by (subst merge_starts.simps) simp

lemma merge_starts_past: "len \<le> start \<Longrightarrow> merge_starts len k a start lb rb = (a, lb, rb)"
  by (rule merge_starts_done) simp

lemma merge_starts_round:
  assumes "len = 2 * (length D + length ps)" "len \<le> length lb" "len \<le> length rb" "c = 2 ^ k"
  shows "\<exists>lb' rb'. merge_starts len k (flat (D @ chunk_sort c ps)) (2 * length D) lb rb =
             (flat (D @ chunk_sort (2 * c) ps), lb', rb') \<and> length lb' = length lb \<and> length rb' = length rb"
  using assms
proof (induction "length ps" arbitrary: D ps lb rb rule: less_induct)
  case less
  have c: "0 < c" using less.prems by simp
  consider (one) "length ps \<le> 1" | (short) "1 < length ps" "length ps < c" | (two) "1 < length ps" "c \<le> length ps"
    by linarith
  then show ?case
  proof cases
    case one
    then have "chunk_sort c ps = ps" "chunk_sort (2 * c) ps = ps"
      using c by (cases ps; simp add: chunk_sort_all)+
    then show ?thesis using one less.prems by (simp add: merge_starts_done)
  next
    case short
    have "merge_starts len k (flat (D @ chunk_sort c ps)) (2 * length D) lb rb =
        merge_starts len k (flat (D @ chunk_sort c ps)) (2 * length D + 2 * 2 ^ (k + 1)) lb rb"
      by (subst merge_starts.simps) (use short less.prems in simp)
    also have "\<dots> = (flat (D @ chunk_sort c ps), lb, rb)"
      by (rule merge_starts_past) (use short less.prems in simp)
    finally show ?thesis using short c by (simp add: chunk_sort_all)
  next
    case two
    let ?L = "by_name (take c ps)" and ?R = "by_name (take c (drop c ps))" and ?B = "chunk_sort c (drop (2 * c) ps)"
    let ?D = "D @ by_name (take (2 * c) ps)" and ?a = "flat (D @ chunk_sort c ps)"
    have split: "chunk_sort c ps = ?L @ ?R @ ?B"
      using c two by (subst chunk_sort.simps, subst chunk_sort.simps) (auto simp: mult_2 add.commute)
    have both: "merge_pairs ?L ?R = by_name (take (2 * c) ps)"
      by (simp add: by_name_merge mult_2 take_add)
    have after: "chunk_sort (2 * c) ps = by_name (take (2 * c) ps) @ chunk_sort (2 * c) (drop (2 * c) ps)"
      using c two by (subst chunk_sort.simps) auto
    let ?m = "2 * length D + 2 ^ (k + 1)"
    let ?s = "if ?m + 2 ^ (k + 1) < len then ?m + 2 ^ (k + 1) else len"
    have mid: "2 * length D + 2 * length ?L = ?m"
      using two less.prems by simp
    have stop: "?m + 2 * length ?R = ?s"
      using two less.prems by (auto simp: min_def)
    have fits: "2 * length ?L \<le> length lb" "2 * length ?R \<le> length rb"
      using two less.prems by (auto simp: min_def)
    obtain lb' rb' where merged: "merge_range ?a (2 * length D) ?m ?s lb rb = (flat (?D @ ?B), lb', rb')"
        "length lb' = length lb" "length rb' = length rb"
      using merge_range_pairs [OF fits, of D ?B] unfolding mid stop both split append_assoc by blast
    have more: "int (2 * length D) < int len - 2" and inside: "\<not> ?s < ?m"
      using two less.prems by auto
    have step: "merge_starts len k ?a (2 * length D) lb rb =
        merge_starts len k (flat (?D @ ?B)) (2 * length D + 2 * 2 ^ (k + 1)) lb' rb'"
      by (subst merge_starts.simps) (simp only: Let_def more inside merged(1) if_True if_False prod.case)
    show ?thesis
    proof (cases "length ps \<le> 2 * c")
      case True
      then have "drop (2 * c) ps = []" "len \<le> 2 * length D + 2 * 2 ^ (k + 1)" using less.prems by simp_all
      then show ?thesis using step merged(2,3) after by (simp add: merge_starts_past)
    next
      case False
      have shorter: "length (drop (2 * c) ps) < length ps" using False c by simp
      have "2 * length D + 2 * 2 ^ (k + 1) = 2 * length ?D" using False less.prems by simp
      moreover have "\<exists>l r. merge_starts len k (flat (?D @ ?B)) (2 * length ?D) lb' rb' =
          (flat (?D @ chunk_sort (2 * c) (drop (2 * c) ps)), l, r) \<and> length l = length lb' \<and> length r = length rb'"
        by (rule less.hyps) (use shorter False less.prems merged(2,3) in auto)
      ultimately show ?thesis using step merged(2,3) after by (simp only: append_assoc)
    qed
  qed
qed

lemma merge_steps_sorts:
  "len = 2 * length ps \<Longrightarrow> len \<le> length lb \<Longrightarrow> len \<le> length rb \<Longrightarrow>
   merge_steps len k (flat (chunk_sort (2 ^ k) ps)) lb rb = flat (by_name ps)"
proof (induction "len - k" arbitrary: k lb rb rule: less_induct)
  case less
  show ?case
  proof (cases "2 ^ (k + 1) < len")
    case True
    obtain lb' rb' where r: "merge_starts len k (flat (chunk_sort (2 ^ k) ps)) 0 lb rb =
        (flat (chunk_sort (2 * 2 ^ k) ps), lb', rb')" "length lb' = length lb" "length rb' = length rb"
      using merge_starts_round [of len "[]" ps lb rb "2 ^ k" k] less.prems by auto
    have "len - (k + 1) < len - k" using True less_exp [of "k + 1"] by linarith
    then have "merge_steps len (k + 1) (flat (chunk_sort (2 ^ (k + 1)) ps)) lb' rb' = flat (by_name ps)"
      by (rule less.hyps) (use less.prems r in simp_all)
    then show ?thesis using True r(1) by (subst merge_steps.simps) simp
  next
    case False
    then have "length ps \<le> 2 ^ k" using less.prems by simp
    then show ?thesis using False by (subst merge_steps.simps) (simp add: chunk_sort_all)
  qed
qed

lemma sort_list_pairs: "sort_list (flat ps) = flat (by_name ps)"
proof -
  consider (tiny) "length ps \<le> 1" | (small) "1 < length ps" "length ps < 50" | (large) "50 \<le> length ps"
    by linarith
  then show ?thesis
  proof cases
    case tiny
    then show ?thesis by (cases ps) (simp_all add: sort_list_def)
  next
    case small
    then obtain p qs where ps: "ps = p # qs" by (cases ps) auto
    have "insertion_loop (flat (by_name [p] @ qs)) (2 * (length [p] + length qs)) (2 * length [p]) =
        flat (by_name ([p] @ qs))"
      by (rule insertion_loop_sorts) simp
    then show ?thesis using small by (simp add: sort_list_def ps numeral_2_eq_2)
  next
    case large
    then show ?thesis
      using merge_steps_sorts [of "2 * length ps" ps "replicate (2 * length ps) []" "replicate (2 * length ps) []" 0]
        chunk_sort_one [of ps]
      by (simp add: sort_list_def)
  qed
qed

text \<open>
  C32: \<^verbatim>\<open>sort\<close> sorts the pairs by name, names compared by code units, and keeps the order of pairs with
  the same name, whichever of its two algorithms the length of the list selects.
\<close>

theorem params_sort_stable:
  assumes "holds_pairs p ps"
  shows "params_sort notify (Some p) = Inr (with_pairs notify p (sort_key fst ps))"
  using assms by (simp add: params_sort_def this_params_def holds_pairs_def sort_list_pairs touch_pairs)

theorem params_sort_stable_witness:
  "params_sort (\<lambda>_ u. u) (Some \<lparr>searchParams = flat [([0xFFFD], js ''1''), (js ''b'', js ''2''), ([0xD83D, 0xDE00], []), (js ''b'', js ''1'')],
       context_url = None :: unit option\<rparr>) =
   Inr \<lparr>searchParams = flat [(js ''b'', js ''2''), (js ''b'', js ''1''), ([0xD83D, 0xDE00], []), ([0xFFFD], js ''1'')],
        context_url = None\<rparr>"
proof -
  let ?ps = "[([0xFFFD], js ''1''), (js ''b'', js ''2''), ([0xD83D, 0xDE00], []), (js ''b'', js ''1'')]"
  have "sort_key fst ?ps = [(js ''b'', js ''2''), (js ''b'', js ''1''), ([0xD83D, 0xDE00], []), ([0xFFFD], js ''1'')]"
    by simp
  then show ?thesis
    using params_sort_stable [of "\<lparr>searchParams = flat ?ps, context_url = None :: unit option\<rparr>" ?ps "\<lambda>_ u. u"]
    by (simp add: holds_pairs_def with_pairs_def)
qed

end
