(* ===== verification/SearchParamsInv.thy ===== *)
theory SearchParamsInv
  imports SearchParamsSort
begin

text \<open>
  What every params object satisfies: its list is a list of pairs of well-formed strings, whatever it
  was made from and whatever calls were made. So \<^verbatim>\<open>toString\<close> never throws, and a params object made from
  its answer holds the same pairs.
\<close>

subsection \<open>Well-formed text\<close>

lemma well_formed_ascii: "c < 0xD800 \<Longrightarrow> well_formed (a @ c # b) \<longleftrightarrow> well_formed a \<and> well_formed b"
proof (induction a rule: well_formed.induct)
  case 1
  then show ?case by (cases b) simp_all
next
  case (2 x)
  then show ?case by (cases b) auto
qed auto

lemma well_formed_append: "well_formed a \<Longrightarrow> well_formed b \<Longrightarrow> well_formed (a @ b)"
proof (induction a rule: well_formed.induct)
  case (2 x)
  then show ?case by (cases b) auto
qed (auto split: if_splits)

lemma well_formed_Cons: "c < 0x10000 \<Longrightarrow> c < 0xD800 \<or> 0xE000 \<le> c \<Longrightarrow> well_formed s \<Longrightarrow> well_formed (c # s)"
  using well_formed_append [of "[c]" s] by auto

lemma well_formed_toWellFormed: "is_jsstring s \<Longrightarrow> well_formed (toWellFormed s)"
  by (induction s rule: toWellFormed.induct) (auto simp: is_jsstring_def intro: well_formed_Cons)

lemma toWellFormed_id: "well_formed s \<Longrightarrow> toWellFormed s = s"
proof (induction s rule: toWellFormed.induct)
  case (3 c d s)
  then show ?case by (cases "0xD800 \<le> c \<and> c < 0xE000") auto
qed auto

lemma well_formed_utf16: "p < 0x110000 \<Longrightarrow> p < 0xD800 \<or> 0xE000 \<le> p \<Longrightarrow> well_formed (utf16 p)"
proof -
  assume p: "p < 0x110000" "p < 0xD800 \<or> 0xE000 \<le> p"
  have "(p - 0x10000) div 1024 < 1024" using p(1) by (simp add: div_less_iff_less_mult)
  moreover have "(p - 0x10000) mod 1024 < 1024" by simp
  ultimately show ?thesis using p by (auto simp: utf16_def)
qed

lemma hex_ascii: "unhexTable c = Some n \<Longrightarrow> c < 0xD800"
  by (auto simp: unhexTable_def split: if_splits)

lemma well_formed_cons_ascii: "c < 0xD800 \<Longrightarrow> well_formed (c # s) \<longleftrightarrow> well_formed s"
  using well_formed_ascii [of c "[]" s] by simp

lemma cont_bytes_rest:
  "cont_bytes n s = Some (bs, t) \<Longrightarrow> well_formed s \<Longrightarrow> well_formed t \<and> length bs = n"
  by (induction n s arbitrary: bs t rule: cont_bytes.induct)
     (auto simp: well_formed_cons_ascii hex_ascii split: option.splits bool.splits if_splits)

lemma utf8_point_scalar:
  assumes "utf8_point b bs = Some p" "length bs \<in> {1, 2, 3}"
  shows "p < 0x110000" "p < 0xD800 \<or> 0xE000 \<le> p"
proof -
  have m: "x mod 64 < 64" "x mod 32 < 32" "x mod 16 < 16" for x :: nat by simp_all
  consider x where "bs = [x]" | x y where "bs = [x, y]" | x y z where "bs = [x, y, z]"
    using assms(2) by (auto simp: length_Suc_conv numeral_2_eq_2 numeral_3_eq_3)
  then have "p < 0x110000 \<and> (p < 0xD800 \<or> 0xE000 \<le> p)"
  proof cases
    case (1 x)
    then have "p = 64 * (b mod 32) + x mod 64" using assms(1) by (simp add: utf8_point_def Let_def split: if_splits)
    then show ?thesis using m(1) [of x] m(2) [of b] by linarith
  next
    case (2 x y)
    then have "p = 64 * (64 * (b mod 16) + x mod 64) + y mod 64" "p < 0xD800 \<or> 0xE000 \<le> p"
      using assms(1) by (auto simp: utf8_point_def Let_def split: if_splits)
    moreover have "64 * (64 * u + v) + w < 0x110000" if "u < 16" "v < 64" "w < 64" for u v w :: nat
    proof -
      have "64 * q + w < 0x110000" if "q < 1024" for q using that \<open>w < 64\<close> by linarith
      moreover have "64 * u + v < 1024" using \<open>u < 16\<close> \<open>v < 64\<close> by linarith
      ultimately show ?thesis by blast
    qed
    ultimately have "p < 0x110000" using m(1) [of x] m(1) [of y] m(3) [of b] by blast
    with \<open>p < 0xD800 \<or> 0xE000 \<le> p\<close> show ?thesis by blast
  next
    case 3
    then show ?thesis using assms(1) by (auto simp: utf8_point_def Let_def split: if_splits)
  qed
  then show "p < 0x110000" "p < 0xD800 \<or> 0xE000 \<le> p" by blast+
qed

lemma well_formed_decode: "well_formed s \<Longrightarrow> decodeURIComponent s = Some r \<Longrightarrow> well_formed r"
proof (induction "length s" arbitrary: s r rule: less_induct)
  case less
  show ?case
  proof (cases s)
    case Nil
    then show ?thesis using less.prems by simp
  next
    case (Cons c s')
    show ?thesis
    proof (cases "c = 37")
      case False
      then obtain r' where r: "r = c # r'" "decodeURIComponent s' = Some r'"
        using less.prems(2) by (auto simp: Cons decode_plain)
      show ?thesis
      proof (cases "0xD800 \<le> c \<and> c < 0xE000")
        case True
        then obtain d t where s': "s' = d # t" "c < 0xDC00" "0xDC00 \<le> d" "d < 0xE000" "well_formed t"
          using less.prems(1) Cons by (cases s') auto
        then obtain q where "r' = d # q" "decodeURIComponent t = Some q"
          using r(2) by (auto simp: decode_plain)
        then show ?thesis using less.hyps [of t q] s' True by (simp add: r Cons)
      next
        case c: False
        then have "well_formed s'" "c < 0x10000" using less.prems(1) Cons by (cases s'; auto)+
        then show ?thesis using less.hyps [of s' r'] r c by (auto simp: Cons intro!: well_formed_Cons)
      qed
    next
      case True
      obtain h l t a b where t: "s' = h # l # t" "unhexTable h = Some a" "unhexTable l = Some b"
        using less.prems(2) by (auto simp: Cons True decodeURIComponent.simps(2) split: list.splits option.splits)
      have wf: "well_formed t"
        using less.prems(1) hex_ascii [OF t(2)] hex_ascii [OF t(3)]
        by (auto simp: Cons True t(1) well_formed_cons_ascii split: if_splits)
      define B where "B = 16 * a + b"
      show ?thesis
      proof (cases "B < 0x80")
        case small: True
        then obtain q where "r = B # q" "decodeURIComponent t = Some q"
          using less.prems(2) by (auto simp: Cons True t B_def decodeURIComponent.simps(2))
        then show ?thesis using less.hyps [of t q] wf small by (simp add: Cons t well_formed_cons_ascii)
      next
        case False
        define n :: nat where "n = (if B < 0xE0 then 1 else if B < 0xF0 then 2 else 3)"
        then have n: "n \<in> {1, 2, 3}" by simp
        from False obtain bs t' p q where d: "cont_bytes n t = Some (bs, t')" "utf8_point B bs = Some p"
            "decodeURIComponent t' = Some q" "r = utf16 p @ q"
          using less.prems(2)
          unfolding n_def
          by (auto simp: Cons True t Let_def decodeURIComponent.simps(2) simp flip: B_def split: if_split_asm option.split_asm)
        have "well_formed t'" "length bs = n" "length t' \<le> length t"
          using cont_bytes_rest [OF d(1) wf] cont_bytes_shorter [OF d(1)] by simp_all
        moreover have "well_formed (utf16 p)"
          by (rule well_formed_utf16) (use utf8_point_scalar [OF d(2)] n \<open>length bs = n\<close> in auto)
        ultimately show ?thesis
          using less.hyps [of t' q] d by (simp add: Cons t well_formed_append)
      qed
    qed
  qed
qed

lemma well_formed_plus_space: "well_formed (plus_space s) \<longleftrightarrow> well_formed s"
  by (induction s rule: well_formed.induct) auto

lemma well_formed_split:
  "well_formed s \<Longrightarrow> x \<in> set (split_on (\<lambda>c. c = 38) s) \<Longrightarrow> well_formed x"
proof (induction "length s" arbitrary: s rule: less_induct)
  case less
  show ?case
  proof (cases "38 \<in> set s")
    case True
    then obtain a b where s: "s = a @ 38 # b" "38 \<notin> set a" by (meson split_list_first)
    then have "split_on (\<lambda>c. c = 38) a = [a]" by (intro split_on_single) auto
    then show ?thesis
      using less.prems less.hyps [of b] by (auto simp: s split_on_append_sep well_formed_ascii)
  next
    case False
    then have "split_on (\<lambda>c. c = 38) s = [s]" by (intro split_on_single) auto
    then show ?thesis using less.prems by simp
  qed
qed

lemma well_formed_key_value:
  assumes "well_formed s"
  shows "well_formed (takeWhile (\<lambda>c. c \<noteq> 61) s)" "well_formed (drop 1 (dropWhile (\<lambda>c. c \<noteq> 61) s))"
proof -
  have "well_formed (takeWhile (\<lambda>c. c \<noteq> 61) s) \<and> well_formed (drop 1 (dropWhile (\<lambda>c. c \<noteq> 61) s))"
  proof (cases "dropWhile (\<lambda>c. c \<noteq> 61) s")
    case Nil
    then have "takeWhile (\<lambda>c. c \<noteq> 61) s = s" using takeWhile_dropWhile_id [of "\<lambda>c. c \<noteq> 61" s] by (metis append_Nil2)
    then show ?thesis using assms Nil by (simp only: drop_Nil well_formed.simps)
  next
    case (Cons c b)
    then have "c = 61" using hd_dropWhile [of "\<lambda>c. c \<noteq> 61" s] by simp
    then have "s = takeWhile (\<lambda>c. c \<noteq> 61) s @ 61 # b"
      using takeWhile_dropWhile_id [of "\<lambda>c. c \<noteq> 61" s] Cons by metis
    then have "well_formed (takeWhile (\<lambda>c. c \<noteq> 61) s) \<and> well_formed b"
      using assms well_formed_ascii [of 61 "takeWhile (\<lambda>c. c \<noteq> 61) s" b] by simp
    then show ?thesis using Cons by simp
  qed
  then show "well_formed (takeWhile (\<lambda>c. c \<noteq> 61) s)" "well_formed (drop 1 (dropWhile (\<lambda>c. c \<noteq> 61) s))"
    by blast+
qed

subsection \<open>The invariant\<close>

definition wf_pairs :: "(jsstring \<times> jsstring) list \<Rightarrow> bool" where
  "wf_pairs ps \<longleftrightarrow> list_all (\<lambda>p. well_formed (fst p) \<and> well_formed (snd p)) ps"

definition list_ok :: "jsstring list \<Rightarrow> bool" where
  "list_ok xs \<longleftrightarrow> (\<exists>ps. xs = flat ps \<and> wf_pairs ps)"

text \<open>
  The parameters give strings: what a Number or an object prints is a string of 16-bit units, and
  decoding UTF-8 bytes gives well-formed text.
\<close>

definition env_ok :: "params_env \<Rightarrow> bool" where
  "env_ok env \<longleftrightarrow>
     pe_unescape env = None \<and> (\<forall>bs. well_formed (buffer_toString (pe_query env) bs)) \<and>
     (\<forall>r. is_jsstring (number_toString (pe_query env) r)) \<and>
     (\<forall>f s. object_toString env f = Inr s \<longrightarrow> is_jsstring s)"

definition val_ok :: "jsval \<Rightarrow> bool" where
  "val_ok v \<longleftrightarrow> (\<forall>s. v = JStr s \<longrightarrow> is_jsstring s)"

fun pair_init_ok :: "pair_init \<Rightarrow> bool" where
  "pair_init_ok (ArrayPair vs) \<longleftrightarrow> list_all val_ok vs"
| "pair_init_ok (IterablePair vs) \<longleftrightarrow> list_all val_ok vs"
| "pair_init_ok _ \<longleftrightarrow> True"

fun init_ok :: "params_init \<Rightarrow> bool" where
  "init_ok (IterableInit pairs) \<longleftrightarrow> list_all pair_init_ok pairs"
| "init_ok (RecordInit own) \<longleftrightarrow> list_all (\<lambda>(k, _, v). pred_option is_jsstring k \<and> val_ok v) own"
| "init_ok (PrimitiveInit v) \<longleftrightarrow> val_ok v"
| "init_ok (ParamsInit _) \<longleftrightarrow> False"
| "init_ok _ \<longleftrightarrow> True"

inductive params_reach :: "params_env \<Rightarrow> (jsstring list \<Rightarrow> 'u \<Rightarrow> 'u) \<Rightarrow> 'u params \<Rightarrow> bool"
  for env :: params_env and notify :: "jsstring list \<Rightarrow> 'u \<Rightarrow> 'u" where
  make: "init_ok init \<Longrightarrow> new_params env init = Inr p \<Longrightarrow> params_reach env notify p"
| copy: "params_reach env notify q \<Longrightarrow> new_params env (ParamsInit (searchParams q)) = Inr p \<Longrightarrow> params_reach env notify p"
| attach: "params_reach env notify p \<Longrightarrow> params_reach env notify (p\<lparr>context_url := u\<rparr>)"
| query: "params_reach env notify p \<Longrightarrow> (\<And>q. query = Some q \<Longrightarrow> well_formed q) \<Longrightarrow>
    params_reach env notify (setURLSearchParams env p query)"
| append_call: "params_reach env notify p \<Longrightarrow> list_all val_ok args \<Longrightarrow>
    params_append notify env (Some p) args = Inr p' \<Longrightarrow> params_reach env notify p'"
| delete_call: "params_reach env notify p \<Longrightarrow> list_all val_ok args \<Longrightarrow>
    params_delete notify env (Some p) args = Inr p' \<Longrightarrow> params_reach env notify p'"
| set_call: "params_reach env notify p \<Longrightarrow> list_all val_ok args \<Longrightarrow>
    params_set notify env (Some p) args = Inr p' \<Longrightarrow> params_reach env notify p'"
| sort_call: "params_reach env notify p \<Longrightarrow> params_sort notify (Some p) = Inr p' \<Longrightarrow> params_reach env notify p'"

lemma list_ok_Nil [simp]: "list_ok []"
  by (auto simp: list_ok_def wf_pairs_def intro: exI [of _ "[]"])

lemma list_ok_flat: "wf_pairs ps \<Longrightarrow> list_ok (flat ps)"
  by (auto simp: list_ok_def)

lemma list_ok_snoc: "list_ok xs \<Longrightarrow> well_formed k \<Longrightarrow> well_formed v \<Longrightarrow> list_ok (xs @ [k, v])"
proof -
  assume "list_ok xs" and wf: "well_formed k" "well_formed v"
  then obtain ps where "xs = flat ps" "wf_pairs ps" by (auto simp: list_ok_def)
  then have "xs @ [k, v] = flat (ps @ [(k, v)])" "wf_pairs (ps @ [(k, v)])" using wf by (simp_all add: wf_pairs_def)
  then show ?thesis unfolding list_ok_def by blast
qed

lemma ascii_jsstring: "is_jsstring (js s)"
proof -
  have "(of_char c :: nat) < 2 ^ 16" for c :: char
    by (rule less_trans [OF nat_of_char_less_256]) simp
  then show ?thesis by (simp add: js_def is_jsstring_def list_all_iff)
qed

lemma bigint_jsstring: "is_jsstring (bigint_toString i)"
  by (simp only: bigint_toString_def ascii_jsstring split: if_split) simp

lemma usv_ok: "env_ok env \<Longrightarrow> val_ok v \<Longrightarrow> usv_string env v = Inr s \<Longrightarrow> well_formed s"
  unfolding usv_string_def bind_eq_Inr template_string_def
  by (auto simp: env_ok_def val_ok_def ascii_jsstring bigint_jsstring simp del: js_Cons
      intro!: well_formed_toWellFormed split: jsval.splits jsnum.splits bool.splits)

lemma piece_text_ok: "env_ok env \<Longrightarrow> well_formed s \<Longrightarrow> well_formed (piece_text env s)"
  using well_formed_decode [of "plus_space s"]
  by (auto simp: piece_text_def params_unescape_def qsUnescape_def env_ok_def well_formed_plus_space split: option.split)

lemma parse_ok: "env_ok env \<Longrightarrow> well_formed q \<Longrightarrow> list_ok (parseParams env q)"
proof -
  assume a: "env_ok env" "well_formed q"
  have "well_formed (drop_question q)"
    using a(2) well_formed_cons_ascii [of 63] by (cases q) (auto simp: drop_question_def)
  then have "wf_pairs (form_pairs env (drop_question q))"
    using a(1) by (auto simp: wf_pairs_def form_pairs_def form_pair_def list_all_iff
        simp del: One_nat_def intro!: piece_text_ok well_formed_key_value dest: well_formed_split)
  then show ?thesis by (simp add: parseParams_form list_ok_flat)
qed

lemma push_elements_pair:
  assumes "env_ok env" "list_all val_ok vs" "length vs = 2" "push_elements env vs list = Inr r" "list_ok list"
  shows "list_ok r"
proof -
  obtain a b where "vs = [a, b]" using assms(3) by (auto simp: numeral_2_eq_2 length_Suc_conv)
  then show ?thesis
    using assms list_ok_snoc [OF assms(5)] usv_ok [OF assms(1)] by (auto simp: bind_eq_Inr)
qed

lemma push_pairs_ok:
  "env_ok env \<Longrightarrow> list_all pair_init_ok pairs \<Longrightarrow> push_pairs env pairs list = Inr r \<Longrightarrow> list_ok list \<Longrightarrow> list_ok r"
proof (induction pairs arbitrary: list)
  case (Cons pair pairs)
  show ?case
  proof (cases pair)
    case (ArrayPair vs)
    then obtain k v where "usv_string env (vs ! 0) = Inr k" "usv_string env (vs ! 1) = Inr v"
        "push_pairs env pairs (list @ [k, v]) = Inr r" "length vs = 2"
      using Cons.prems(3) by (auto simp: bind_eq_Inr split: if_splits)
    then show ?thesis
      using Cons ArrayPair usv_ok [OF Cons.prems(1)] list_ok_snoc [OF Cons.prems(4)]
      by (auto simp: length_Suc_conv numeral_2_eq_2)
  next
    case (IterablePair vs)
    then show ?thesis
      using Cons push_elements_pair by (auto simp: bind_eq_Inr split: if_splits)
  qed (use Cons in auto)
qed simp

definition visited_ok :: "(jsstring \<rightharpoonup> nat) \<Rightarrow> jsstring list \<Rightarrow> bool" where
  "visited_ok visited list \<longleftrightarrow> (\<forall>k i. visited k = Some i \<longrightarrow> odd i \<and> i < length list)"

lemma list_ok_update: "list_ok list \<Longrightarrow> odd i \<Longrightarrow> i < length list \<Longrightarrow> well_formed v \<Longrightarrow> list_ok (list[i := v])"
proof -
  assume a: "list_ok list" "odd i" "i < length list" "well_formed v"
  obtain ps where ps: "list = flat ps" "wf_pairs ps" using a(1) by (auto simp: list_ok_def)
  obtain j where i: "i = Suc (2 * j)" using a(2) by (auto elim: oddE)
  then have "j < length ps" using a(3) ps(1) by simp
  then obtain xs p ys where s: "ps = xs @ p # ys" "j = length xs" by (metis id_take_nth_drop length_take min.absorb4)
  have "list[i := v] = flat (xs @ (fst p, v) # ys)" by (simp add: ps(1) s i list_update_append)
  moreover have "wf_pairs (xs @ (fst p, v) # ys)" using ps(2) a(4) s by (simp add: wf_pairs_def)
  ultimately show ?thesis unfolding list_ok_def by blast
qed

lemma push_record_ok:
  "env_ok env \<Longrightarrow> list_all (\<lambda>(k, _, v). pred_option is_jsstring k \<and> val_ok v) own \<Longrightarrow> push_record env own visited list = Inr r \<Longrightarrow>
   list_ok list \<Longrightarrow> visited_ok visited list \<Longrightarrow> list_ok r"
proof (induction own arbitrary: visited list)
  case (Cons f own)
  obtain k e v where k: "f = (k, e, v)" by (cases f)
  have even: "even (length list)" using Cons.prems(4) by (auto simp: list_ok_def)
  show ?case
  proof (cases e)
    case True
    then obtain key where f: "f = (Some key, e, v)" using Cons.prems(3) k by (cases k) auto
    obtain val where val: "usv_string env v = Inr val" using Cons.prems(3) True by (auto simp: f bind_eq_Inr Let_def)
    have ok: "well_formed (toWellFormed key)" "well_formed val"
      using Cons.prems(2) usv_ok [OF Cons.prems(1) _ val] by (auto simp: f intro: well_formed_toWellFormed)
    show ?thesis
    proof (cases "visited (toWellFormed key)")
      case None
      then have p: "push_record env own (visited(toWellFormed key \<mapsto> Suc (length list))) (list @ [toWellFormed key, val]) = Inr r"
        using Cons.prems(3) True val by (simp add: f Let_def)
      show ?thesis
        by (rule Cons.IH [OF Cons.prems(1) _ p list_ok_snoc [OF Cons.prems(4) ok]])
           (use Cons.prems(2,5) even in \<open>auto simp: visited_ok_def intro: less_SucI\<close>)
    next
      case (Some i)
      then have i: "odd i" "i < length list" using Cons.prems(5) by (auto simp: visited_ok_def)
      have p: "push_record env own visited (list[i := val]) = Inr r"
        using Cons.prems(3) True val Some by (simp add: f Let_def)
      show ?thesis
        by (rule Cons.IH [OF Cons.prems(1) _ p list_ok_update [OF Cons.prems(4) i ok(2)]])
           (use Cons.prems(2,5) in \<open>auto simp: visited_ok_def\<close>)
    qed
  qed (use Cons in \<open>auto simp: k\<close>)
qed simp

lemma new_params_ok: "env_ok env \<Longrightarrow> init_ok init \<Longrightarrow> new_params env init = Inr p \<Longrightarrow> list_ok (searchParams p)"
  by (cases init)
     (auto simp: new_params_def bind_eq_Inr visited_ok_def intro: push_pairs_ok push_record_ok
        intro!: parse_ok dest: usv_ok split: if_splits)

lemma touch_list [simp]: "searchParams (touch notify p) = searchParams p"
  by (simp add: touch_def split: option.split)

lemma wf_pairs_mono: "wf_pairs ps \<Longrightarrow> set qs \<subseteq> set ps \<Longrightarrow> wf_pairs qs"
  by (auto simp: wf_pairs_def list_all_iff)

lemma set_set_pair: "set (set_pair k v ps) \<subseteq> insert (k, v) (set ps)"
  by (auto simp: set_pair_def dest: set_takeWhileD set_dropWhileD)

lemma call_args: "list_all val_ok args \<Longrightarrow> i < length args \<Longrightarrow> val_ok (args ! i)"
  by (simp add: list_all_length)

lemma two_args_wf:
  assumes "env_ok env" "list_all val_ok args" "2 \<le> length args"
    and "usv_string env (args ! 0) = Inr k" "usv_string env (args ! 1) = Inr v"
  shows "well_formed k" "well_formed v"
proof -
  have i: "0 < length args" "1 < length args" using assms(3) by linarith+
  show "well_formed k" by (rule usv_ok [OF assms(1) call_args [OF assms(2) i(1)] assms(4)])
  show "well_formed v" by (rule usv_ok [OF assms(1) call_args [OF assms(2) i(2)] assms(5)])
qed

lemma params_append_ok:
  assumes "env_ok env" "list_ok (searchParams p)" "list_all val_ok args" "params_append notify env (Some p) args = Inr p'"
  shows "list_ok (searchParams p')"
proof -
  obtain k v where kv: "2 \<le> length args" "usv_string env (args ! 0) = Inr k" "usv_string env (args ! 1) = Inr v"
      and "p' = touch notify (p\<lparr>searchParams := searchParams p @ [k, v]\<rparr>)"
    using assms(4) by (auto simp: params_append_def this_params_def bind_eq_Inr split: if_splits)
  then show ?thesis using list_ok_snoc [OF assms(2) two_args_wf [OF assms(1,3) kv]] by simp
qed

lemma params_delete_ok:
  assumes "list_ok (searchParams p)" "params_delete notify env (Some p) args = Inr p'"
  shows "list_ok (searchParams p')"
proof -
  obtain ps where ps: "searchParams p = flat ps" "wf_pairs ps" using assms(1) by (auto simp: list_ok_def)
  obtain k v where "p' = touch notify (p\<lparr>searchParams := delete_loop k v (searchParams p) 0\<rparr>)"
    using assms(2) by (auto simp: params_delete_def this_params_def bind_eq_Inr split: if_splits)
  then show ?thesis
    using ps(2) by (auto simp: ps(1) loops_from_start intro!: list_ok_flat elim: wf_pairs_mono)
qed

lemma params_set_ok:
  assumes "env_ok env" "list_ok (searchParams p)" "list_all val_ok args" "params_set notify env (Some p) args = Inr p'"
  shows "list_ok (searchParams p')"
proof -
  obtain ps where ps: "searchParams p = flat ps" "wf_pairs ps" using assms(2) by (auto simp: list_ok_def)
  obtain k v where kv: "2 \<le> length args" "usv_string env (args ! 0) = Inr k" "usv_string env (args ! 1) = Inr v"
      and run: "(let (list, found) = set_loop k v (flat ps) 0 False
            in Inr (touch notify (p\<lparr>searchParams := (if \<not> found then list @ [k, v] else list)\<rparr>))) = (Inr p' :: _ result)"
    using assms(4) by (auto simp: params_set_def this_params_def bind_eq_Inr ps(1) split: if_splits)
  have p': "searchParams p' = (if k \<in> fst ` set ps then flat (set_pair k v ps) else flat ps @ [k, v])"
    using run by (cases "k \<in> fst ` set ps") (auto simp: loops_from_start)
  have wf: "well_formed k" "well_formed v" using two_args_wf [OF assms(1,3) kv] .
  then have "wf_pairs ((k, v) # ps)" using ps(2) by (simp add: wf_pairs_def)
  then have "wf_pairs (set_pair k v ps)" using set_set_pair [of k v ps] by (elim wf_pairs_mono) simp
  then show ?thesis
    using list_ok_snoc [OF list_ok_flat [OF ps(2)] wf] by (simp add: p' list_ok_flat)
qed

lemma params_sort_ok:
  assumes "list_ok (searchParams p)" "params_sort notify (Some p) = Inr p'"
  shows "list_ok (searchParams p')"
proof -
  obtain ps where ps: "searchParams p = flat ps" "wf_pairs ps" using assms(1) by (auto simp: list_ok_def)
  then have "searchParams p' = flat (by_name ps)"
    using assms(2) by (auto simp: params_sort_def this_params_def sort_list_pairs)
  then show ?thesis using ps(2) by (auto intro!: list_ok_flat elim: wf_pairs_mono)
qed

lemma reach_list_ok:
  assumes "env_ok env"
  shows "params_reach env notify p \<Longrightarrow> list_ok (searchParams p)"
proof (induction rule: params_reach.induct)
  case (copy q p)
  then show ?case by (auto simp: new_params_def)
next
  case (query p query)
  then show ?case using assms by (auto simp: setURLSearchParams_def intro: parse_ok split: option.split)
qed (auto intro: new_params_ok [OF assms] params_append_ok [OF assms] params_delete_ok params_set_ok [OF assms]
      params_sort_ok)

text \<open>
  C31: whatever a params object was made from and whatever calls were made, \<^verbatim>\<open>toString\<close> returns, and
  parsing its answer gives the list of the object.
\<close>

theorem params_toString_parse:
  assumes "env_ok env" "params_reach env notify p"
  shows "\<exists>body. params_toString (Some p) = Inr body \<and> parseParams env body = searchParams p"
proof -
  obtain ps where ps: "searchParams p = flat ps" "list_all (\<lambda>p. well_formed (fst p) \<and> well_formed (snd p)) ps"
    using reach_list_ok [OF assms] by (auto simp: list_ok_def wf_pairs_def)
  then show ?thesis
    using serialize_flat [OF ps(2)] serialize_flat_parse [OF ps(2)] assms(1)
    by (simp add: params_toString_def this_params_def env_ok_def)
qed

text \<open>Parameters that satisfy the hypothesis: bytes are decoded as seven-bit text.\<close>

definition seven_bit_params :: params_env where
  "seven_bit_params =
     \<lparr>pe_query = \<lparr>allocUnsafe = (\<lambda>n. replicate n 0), buffer_toString = map (\<lambda>b. b mod 128),
                  number_toString = (\<lambda>r. js (dec (nat \<lfloor>r\<rfloor>)))\<rparr>,
      pe_unescape = None, object_toString = (\<lambda>_. Inr (js ''[object Object]''))\<rparr>"

lemma seven_bit_ok: "env_ok seven_bit_params"
proof -
  have "well_formed (map (\<lambda>b. b mod 128) bs)" for bs :: "nat list"
  proof (induction bs)
    case (Cons b bs)
    have "b mod 128 < 128" by simp
    then have "b mod 128 < 0xD800" by linarith
    then show ?case using Cons by (simp add: well_formed_cons_ascii)
  qed simp
  then show ?thesis by (simp add: env_ok_def seven_bit_params_def ascii_jsstring del: js_Cons)
qed

theorem params_toString_parse_witness:
  "\<exists>body. params_toString (Some \<lparr>searchParams = [js ''a'', [0x20AC], js ''b c'', [0xFFFD]], context_url = None :: unit option\<rparr>) =
            Inr body \<and>
     parseParams seven_bit_params body = [js ''a'', [0x20AC], js ''b c'', [0xFFFD]]"
proof -
  let ?p = "\<lparr>searchParams = [js ''a'', [0x20AC]], context_url = None :: unit option\<rparr>"
  let ?q = "\<lparr>searchParams = [js ''a'', [0x20AC], js ''b c'', [0xFFFD]], context_url = None :: unit option\<rparr>"
  have "params_reach seven_bit_params (\<lambda>_ u. u) ?p"
    by (rule params_reach.make [where init = "IterableInit [ArrayPair [JStr (js ''a''), JStr [0x20AC]]]"])
       (simp_all add: val_ok_def is_jsstring_def new_params_def usv_string_def template_string_def)
  then have "params_reach seven_bit_params (\<lambda>_ u. u) ?q"
    by (rule params_reach.append_call [where args = "[JStr (js ''b c''), JStr [0xD800]]"])
       (simp_all add: val_ok_def is_jsstring_def params_append_def this_params_def usv_string_def template_string_def
          touch_def)
  from params_toString_parse [OF seven_bit_ok this] show ?thesis by simp
qed

end
