(* ===== verification/MimeText.thy ===== *)
theory MimeText
  imports MimeProps SearchParamsInv
begin

text \<open>
  The text of a MIME type and what the parser makes of it: quoted values, one parameter, the list of
  parameters, type and subtype, and the property that prints and reads any MIME type.
\<close>

subsection \<open>Quoted values\<close>

lemma escape_simps [simp]:
  "escapeQuoteOrSolidus [] = []"
  "escapeQuoteOrSolidus (c # s) = (if c = 34 \<or> c = 92 then [92, c] else [c]) @ escapeQuoteOrSolidus s"
  by (simp_all add: escapeQuoteOrSolidus_def)

lemma remove_plain: "c \<noteq> 92 \<Longrightarrow> removeBackslashes (c # s) = c # removeBackslashes s"
  by (cases s) auto

lemma remove_escape: "removeBackslashes (escapeQuoteOrSolidus v) = v"
  by (induction v) (auto simp: remove_plain)

interpretation quoted_pairs: codec "\<lambda>_. True" "\<lambda>v. Inr (escapeQuoteOrSolidus v)" "\<lambda>s. Inr (removeBackslashes s)"
  by unfold_locales (simp add: remove_escape)

lemma match_plain:
  "c \<noteq> 34 \<Longrightarrow> c \<noteq> 92 \<Longrightarrow> quoted_match (c # s) = (let (n, r) = quoted_match s in (n + 1, r))"
  by (cases s) auto

lemma match_escape:
  "quoted_match (escapeQuoteOrSolidus v @ 34 # rest) = (length (escapeQuoteOrSolidus v) + 1, False, True)"
proof (induction v)
  case Nil
  show ?case by (cases rest) auto
qed (auto simp: match_plain)

lemma quoted_value_escape:
  "quoted_value (escapeQuoteOrSolidus v @ 34 # rest) = (length (escapeQuoteOrSolidus v) + 1, v)"
proof -
  let ?e = "escapeQuoteOrSolidus v"
  have "slice (?e @ 34 # rest) 0 (int (length ?e + 1)) = ?e @ [34]"
    using slice_middle [of "[]" "?e @ [34]" rest] by simp
  moreover have "slice (?e @ [34]) 0 (-1) = ?e"
    by (simp add: slice_def slice_pos_def)
  ultimately show ?thesis
    by (simp add: quoted_value_def match_escape remove_escape)
qed

subsection \<open>One parameter\<close>

definition entry_text :: "jsstring \<times> jsstring \<Rightarrow> jsstring" where
  "entry_text e = fst e @ [61] @ encode_value (snd e)"

lemma encode_value_cases:
  obtains (plain) "token v" "encode_value v = v"
  | (quoted) "encode_value v = 34 # escapeQuoteOrSolidus v @ [34]"
  using token_check [of v] by (cases "v = []") (auto simp: encode_value_def)

lemma entry_text_ends:
  assumes "token (fst e)"
  shows "entry_text e \<noteq> []" "\<not> http_space (last (entry_text e))"
proof -
  show "entry_text e \<noteq> []" by (simp add: entry_text_def)
  show "\<not> http_space (last (entry_text e))"
    by (cases "snd e" rule: encode_value_cases) (auto simp: entry_text_def http_space_def dest: token_units(2,4))
qed

text \<open>The parser in front of a name and an equals sign.\<close>

lemma step_name:
  assumes str: "str = pre @ k @ 61 # s" and k: "token k" and s: "s \<noteq> []"
  shows "param_step str (length str) (length pre) d =
     (let position = length pre + length k + 1
      in if hd s = 34
         then (let (n, v) = quoted_value (tl s)
               in Some (position + 1 + n + 1, store_param (toASCIILower k) v d))
         else (let valueEnd = indexOf_from str 59 position;
                   rawValue = (if valueEnd = -1 then slice_from str (int position)
                               else slice str (int position) valueEnd);
                   trimmedValue = slice rawValue 0 (int (start_ending_whitespace rawValue))
               in if trimmedValue = [] then Some (position + length rawValue, d)
                  else Some (position + length rawValue + 1, store_param (toASCIILower k) trimmedValue d)))"
proof -
  have rest: "slice_from str (int (length pre)) = k @ 61 # s"
    by (simp add: str slice_from_middle)
  have start: "end_beginning_whitespace (k @ 61 # s) = 0"
    using token_units(1,4) [OF k] by (intro whitespace_start) auto
  have stop: "equals_semicolon_or_end (k @ 61 # s) = length k"
    using token_units(5,6) [OF k] unfolding equals_semicolon_or_end_def
    by (intro search_or_end_append) (auto simp: list_all_iff)
  have name: "slice str (int (length pre)) (int (length k + length pre)) = k"
    using slice_middle [of pre k "61 # s"] by (simp add: str add.commute)
  have eq: "charCodeAt str (int (length k + length pre)) = Some 61"
    using charCodeAt_middle [of "pre @ k" 61 s] by (simp add: str add.commute)
  have val: "charCodeAt str (int (length pre + length k + 1)) = Some (hd s)"
    using s charCodeAt_middle [of "pre @ k @ [61]" "hd s" "tl s"] by (simp add: str)
  have after: "slice_from str (int (length pre + length k + 1 + 1)) = tl s"
    using s slice_from_middle [of "pre @ k @ [61, hd s]" "tl s"] by (cases s) (simp_all add: str)
  have len: "length k + length pre < length str" "\<not> length str \<le> length pre + length k + 1"
    using s by (cases s; simp add: str)+
  show ?thesis
    unfolding param_step_def Let_def rest start add_0_right stop name eq
    using len val after by (simp add: add.commute add.left_commute split: prod.splits)
qed

lemma step_entry:
  assumes str: "str = pre @ entry_text (k, v) @ rest" and k: "token k" and rest: "rest = [] \<or> hd rest = 59"
  shows "param_step str (length str) (length pre) d =
    Some (length pre + length (entry_text (k, v)) + 1, store_param (toASCIILower k) v d)"
proof (cases v rule: encode_value_cases)
  case plain
  note units = token_units [OF plain(1)]
  have str': "str = pre @ k @ 61 # v @ rest" by (simp add: str entry_text_def plain)
  have pos: "str = (pre @ k @ [61]) @ v @ rest" "length pre + length k + 1 = length (pre @ k @ [61])"
    by (simp_all add: str')
  have raw: "indexOf_from str 59 (length pre + length k + 1) =
      (if rest = [] then -1 else int (length pre + length k + 1 + length v))"
    "(if rest = [] then slice_from str (int (length pre + length k + 1))
      else slice str (int (length pre + length k + 1)) (int (length pre + length k + 1 + length v))) = v"
    using piece_to [OF units(5) rest, of "pre @ k @ [61]"] unfolding pos by fast+
  have trim: "slice v 0 (int (start_ending_whitespace v)) = v"
    using whitespace_end [OF units(4,2)] by (simp add: slice_zero)
  have hd: "hd (v @ rest) = hd v" "hd v \<noteq> 34" using units by auto
  have "param_step str (length str) (length pre) d =
      Some (length pre + length k + 1 + length v + 1, store_param (toASCIILower k) v d)"
    using raw trim hd units(4)
    by (subst step_name [OF str' k]) (auto simp: Let_def split: if_splits)
  then show ?thesis by (simp add: entry_text_def plain)
next
  case quoted
  have str': "str = pre @ k @ 61 # 34 # escapeQuoteOrSolidus v @ 34 # rest"
    by (simp add: str entry_text_def quoted)
  show ?thesis
    by (subst step_name [OF str' k]) (simp_all add: quoted_value_escape entry_text_def quoted)
qed

subsection \<open>All parameters\<close>

definition entries_text :: "(jsstring \<times> jsstring) list \<Rightarrow> jsstring" where
  "entries_text d = join [59] (map entry_text d)"

definition keep_first :: "(jsstring \<times> jsstring) list \<Rightarrow> (jsstring \<times> jsstring) list \<Rightarrow> (jsstring \<times> jsstring) list" where
  "keep_first d r = fold (\<lambda>(k, v) r. if map_of r k = None then r @ [(k, v)] else r) d r"

definition lowered :: "(jsstring \<times> jsstring) list \<Rightarrow> (jsstring \<times> jsstring) list" where
  "lowered d = keep_first (map (\<lambda>(k, v). (map lower_unit k, v)) d) []"

lemma mime_params_text_join:
  "mime_params_text d ret = (if d = [] then ret else if ret = [] then entries_text d else ret @ [59] @ entries_text d)"
proof (induction d arbitrary: ret)
  case (Cons e d)
  then show ?case by (cases e; cases d) (auto simp: entries_text_def entry_text_def)
qed simp

lemma loop_entries:
  assumes "list_all (\<lambda>(k, v). token k \<and> list_all http_quoted v) d" "str = pre @ entries_text d"
  shows "mime_loop str (length str) (length pre) r =
    keep_first (map (\<lambda>(k, v). (map lower_unit k, v)) d) r"
  using assms
proof (induction d arbitrary: pre r)
  case Nil
  then show ?case by (subst mime_loop.simps) (simp add: entries_text_def keep_first_def)
next
  case (Cons e d)
  obtain k v where e: "e = (k, v)" by (cases e)
  define rest where "rest = (if d = [] then [] else 59 # entries_text d)"
  have str: "str = pre @ entry_text (k, v) @ rest"
    using Cons.prems(2) by (cases d) (auto simp: entries_text_def rest_def e)
  have k: "token k" "list_all http_quoted v" using Cons.prems(1) by (simp_all add: e)
  define r' where "r' = store_param (toASCIILower k) v r"
  have r': "r' = (if map_of r (map lower_unit k) = None then r @ [(map lower_unit k, v)] else r)"
    using token_lower [OF k(1)] k by (simp add: r'_def store_param_eq lower_token_def toASCIILower_map)
  have "mime_loop str (length str) (length pre) r =
      mime_loop str (length str) (length pre + length (entry_text (k, v)) + 1) r'"
    using step_entry [OF str k(1), of r] by (subst mime_loop.simps) (simp add: rest_def r'_def str entry_text_def)
  also have "\<dots> = keep_first (map (\<lambda>(k, v). (map lower_unit k, v)) d) r'"
  proof (cases d)
    case Nil
    then show ?thesis by (subst mime_loop.simps) (simp add: str rest_def keep_first_def)
  next
    case (Cons e' d')
    then have "str = (pre @ entry_text (k, v) @ [59]) @ entries_text d" by (simp add: str rest_def)
    from Cons.IH [OF _ this] Cons.prems(1) show ?thesis by simp
  qed
  finally show ?case by (simp add: keep_first_def r' e)
qed

lemma keep_first_same:
  "distinct (map fst (r @ d)) \<Longrightarrow> keep_first d r = r @ d"
proof (induction d arbitrary: r)
  case (Cons e d)
  obtain k v where e: "e = (k, v)" by (cases e)
  have "map_of r k = None" using Cons.prems by (auto simp: e map_of_eq_None_iff)
  then have "keep_first (e # d) r = keep_first d (r @ [e])" by (simp add: keep_first_def e)
  with Cons.IH [of "r @ [e]"] Cons.prems show ?case by simp
qed (simp add: keep_first_def)

lemma lowered_same: "params_ok d \<Longrightarrow> lower_names d \<Longrightarrow> lowered d = d"
proof -
  assume ok: "params_ok d" and low: "lower_names d"
  have "map (\<lambda>(k, v). (map lower_unit k, v)) d = d"
    using low by (intro map_idI) (auto simp: lower_names_def list_all_iff)
  with ok keep_first_same [of "[]" d] show "lowered d = d" by (simp add: lowered_def params_ok_def)
qed

lemma entries_text_ends:
  assumes "list_all (\<lambda>(k, v). token k \<and> list_all http_quoted v) d" "d \<noteq> []"
  shows "entries_text d \<noteq> []" "\<not> http_space (last (entries_text d))"
proof -
  obtain d' e where d: "d = d' @ [e]" using assms(2) by (cases d rule: rev_cases) auto
  have e: "entry_text e \<noteq> []" "\<not> http_space (last (entry_text e))"
    using entry_text_ends [of e] assms(1) by (auto simp: d split: prod.splits)
  then show "entries_text d \<noteq> []" "\<not> http_space (last (entries_text d))"
    by (auto simp: entries_text_def d join_snoc)
qed

lemma parse_entries:
  assumes "list_all (\<lambda>(k, v). token k \<and> list_all http_quoted v) d"
  shows "mp_data (mime_parse (instantiateMimeParams (entries_text d))) = lowered d"
proof -
  have "start_ending_whitespace (entries_text d) = length (entries_text d)"
  proof (cases "d = []")
    case True
    then show ?thesis by (simp add: entries_text_def start_ending_whitespace_def)
  qed (use assms in \<open>simp add: whitespace_end entries_text_ends\<close>)
  moreover have "slice_from (entries_text d) 0 = entries_text d"
    using slice_from_middle [of "[]" "entries_text d"] by simp
  moreover have "mime_loop (entries_text d) (length (entries_text d)) 0 [] = lowered d"
    using loop_entries [OF assms, of "entries_text d" "[]" "[]"] by (simp add: lowered_def)
  ultimately show ?thesis
    by (simp add: mime_parse_def instantiateMimeParams_def new_mime_params_def Let_def)
qed

subsection \<open>Type and subtype\<close>

lemma parse_type:
  assumes str: "str = t @ 47 # u @ rest" and t: "lower_token t" and u: "lower_token u"
    and rest: "rest = [] \<or> hd rest = 59"
  shows "parseTypeAndSubtype str =
    Inr (t, u, length t + 1 + length u + (if rest = [] then 0 else 1))"
proof -
  have tok: "token t" "token u" and low: "toASCIILower t = t" "toASCIILower u = u"
    using t u by (simp_all add: lower_token_def toASCIILower_map)
  note ut = token_units [OF tok(1)] and uu = token_units [OF tok(2)]
  have start: "end_beginning_whitespace str = 0"
    using ut(1,4) by (intro whitespace_start) (auto simp: str)
  have "indexOf_from ([] @ t @ 47 # u @ rest) 47 (length []) = int (length t)"
    "slice ([] @ t @ 47 # u @ rest) (int (length [])) (int (length [] + length t)) = t"
    using piece_to(1) [OF ut(7), of "47 # u @ rest" "[]"] slice_middle [of "[]" t "47 # u @ rest"] by simp_all
  then have type: "indexOf_from str 47 0 = int (length t)" "slice str 0 (int (length t)) = t"
    by (simp_all add: str)
  have pos: "str = (t @ [47]) @ u @ rest" "nat (int (length t)) + 1 = length (t @ [47])" by (simp_all add: str)
  have raw: "indexOf_from str 59 (nat (int (length t)) + 1) = (if rest = [] then -1 else int (length (t @ [47]) + length u))"
    "(if rest = [] then slice_from str (int (nat (int (length t)) + 1))
      else slice str (int (nat (int (length t)) + 1)) (int (length (t @ [47]) + length u))) = u"
    using piece_to [OF uu(5) rest, of "t @ [47]"] unfolding pos by fast+
  have trim: "slice u 0 (int (start_ending_whitespace u)) = u"
    using whitespace_end [OF uu(4,2)] by (simp add: slice_zero)
  have good: "search_class (\<lambda>c. \<not> http_token c) t = -1" "search_class (\<lambda>c. \<not> http_token c) u = -1"
    using tok token_check by blast+
  show ?thesis
    unfolding parseTypeAndSubtype_def Let_def start
    using raw trim good low type ut(4) uu(4) by (auto split: if_splits)
qed

subsection \<open>Printing and reading\<close>

definition mime_entries_of :: "mime_type \<Rightarrow> (jsstring \<times> jsstring) list" where
  "mime_entries_of m = mp_data (mime_parse (mt_parameters m))"

lemma mime_text:
  assumes "mime_ok m"
  shows "fst (mime_toString m) =
    mt_type m @ 47 # mt_subtype m @ (if mime_entries_of m = [] then [] else 59 # entries_text (mime_entries_of m))"
proof -
  have "params_ok (mime_entries_of m)"
    using assms mime_parse_ok(1) by (auto simp: mime_ok_def mime_entries_of_def mime_params_ok_def)
  then have "mime_entries_of m \<noteq> [] \<Longrightarrow> entries_text (mime_entries_of m) \<noteq> []"
    by (simp add: entries_text_ends(1) params_ok_def)
  then show ?thesis
    by (simp add: mime_toString_def mime_params_toString_def mime_params_text_join Let_def flip: mime_entries_of_def)
qed

lemma mime_reparse:
  assumes "mime_ok m"
  shows "\<exists>q. mime_new env (JStr (fst (mime_toString m))) = Inr q \<and> mt_type q = mt_type m \<and>
    mt_subtype q = mt_subtype m \<and> mime_entries_of q = lowered (mime_entries_of m)"
proof -
  let ?d = "mime_entries_of m" and ?s = "fst (mime_toString m)"
  define rest where "rest = (if ?d = [] then [] else 59 # entries_text ?d)"
  define n where "n = length (mt_type m) + 1 + length (mt_subtype m) + (if rest = [] then 0 else 1)"
  have ok: "list_all (\<lambda>(k, v). token k \<and> list_all http_quoted v) ?d"
    using assms mime_parse_ok(1) by (auto simp: mime_ok_def mime_entries_of_def mime_params_ok_def params_ok_def)
  have s: "?s = mt_type m @ 47 # mt_subtype m @ rest" using mime_text [OF assms] by (simp add: rest_def)
  have "parseTypeAndSubtype ?s = Inr (mt_type m, mt_subtype m, n)"
    using parse_type [OF s] assms by (auto simp: mime_ok_def rest_def n_def)
  moreover have "slice_from ?s (int n) = entries_text ?d"
  proof (cases "?d = []")
    case True
    then show ?thesis
      using slice_from_middle [of ?s "[]"] by (simp add: s n_def rest_def entries_text_def)
  next
    case False
    then show ?thesis
      using slice_from_middle [of "mt_type m @ 47 # mt_subtype m @ [59]" "entries_text ?d"]
      by (simp add: s n_def rest_def add.commute add.left_commute)
  qed
  ultimately show ?thesis
    using parse_entries [OF ok] by (simp add: mime_new_def template_string_def mime_entries_of_def)
qed

text \<open>Names stay in lower case until \<^verbatim>\<open>set\<close> is called.\<close>

lemma mime_parse_lower: "mime_params_ok p \<Longrightarrow> lower_names (mp_data p) \<Longrightarrow> lower_names (mp_data (mime_parse p))"
  by (auto simp: mime_parse_def Let_def mime_params_ok_def mime_loop_ok split: option.splits)

lemma mime_do_lower:
  assumes "mime_ok m" "lower_names (mp_data (mt_parameters m))" "\<And>k v. c \<noteq> SetParam k v"
  shows "lower_names (mp_data (mt_parameters (mime_do env m c)))"
proof -
  have "lower_names (mp_data (mime_parse (mt_parameters m)))"
    using assms(1,2) mime_parse_lower by (simp add: mime_ok_def)
  with assms(2,3) show ?thesis
    by (cases c)
      (auto simp: mime_set_type_def mime_set_subtype_def mime_on_def mime_delete_def mime_get_def mime_has_def
        mime_entries_def mime_keys_def mime_values_def mime_toString_def mime_params_toString_def bind_eq_Inr
        Let_def lower_names_def list_all_iff split: sum.splits jsval.splits if_splits)
qed

lemma mime_run_lower:
  "mime_ok m \<Longrightarrow> lower_names (mp_data (mt_parameters m)) \<Longrightarrow> \<forall>k v. SetParam k v \<notin> set calls \<Longrightarrow>
     lower_names (mp_data (mt_parameters (mime_run env calls m)))"
proof (induction calls arbitrary: m)
  case (Cons c calls)
  then have "lower_names (mp_data (mt_parameters (mime_do env m c)))"
    by (intro mime_do_lower) auto
  with Cons.IH [OF mime_call_ok [OF Cons.prems(1)]] Cons.prems(3) show ?case
    by (simp add: mime_run_def)
qed (simp add: mime_run_def)

lemma mime_entries_lower:
  assumes "mime_new env v = Inr m" "\<forall>k v. SetParam k v \<notin> set calls"
  shows "lowered (mime_entries_of (mime_run env calls m)) = mime_entries_of (mime_run env calls m)"
proof -
  let ?m = "mime_run env calls m"
  have ok: "mime_ok m" "mime_ok ?m" using mime_new_ok(1) [OF assms(1)] mime_run_ok by auto
  have "mp_data (mt_parameters m) = []"
    using mime_new_ok(2) [OF assms(1)] by (metis instantiateMimeParams_def new_mime_params_def mime_params.select_convs(1) mime_params.update_convs(2,3))
  then have "lower_names (mp_data (mt_parameters ?m))"
    using ok(1) assms(2) by (intro mime_run_lower) (auto simp: lower_names_def)
  then have "lower_names (mime_entries_of ?m)" "params_ok (mime_entries_of ?m)"
    using ok(2) mime_parse_lower mime_parse_ok(1) by (auto simp: mime_entries_of_def mime_ok_def mime_params_ok_def)
  then show ?thesis by (simp add: lowered_same)
qed

definition mime_sample :: jsstring where
  "mime_sample = js '' Text/b; C=\"d !\";f; g=\"'' @ [34]"

definition mime_sample_type :: mime_type where
  "mime_sample_type = \<lparr>mt_type = js ''text'', mt_subtype = js ''b'',
     mt_parameters = instantiateMimeParams (js '' C=\"d !\";f; g=\"'' @ [34])\<rparr>"

lemma mime_sample_new: "mime_new seven_bit_params (JStr mime_sample) = Inr mime_sample_type"
  by code_simp

text \<open>
  C38: Whatever a MIMEType is made from and whatever calls are made on it, later calls that throw
  included, its type and subtype are nonempty tokens in lower case, the names of its parameters are
  distinct nonempty tokens and the values are made of units that may stand in a quoted string.
\<close>

theorem mime_type_invariant:
  assumes "mime_new env v = Inr m" "m' = mime_run env calls m"
  shows "lower_token (mt_type m') \<and> lower_token (mt_subtype m') \<and> params_ok (mime_entries_of m') \<and>
    (\<exists>s. mt_parameters m = instantiateMimeParams s)"
  using mime_run_ok [OF mime_new_ok(1) [OF assms(1)], of env calls] mime_new_ok(2) [OF assms(1)] mime_parse_ok(1)
  by (auto simp: assms(2) mime_ok_def mime_entries_of_def mime_params_ok_def)

theorem mime_type_invariant_witness:
  "params_ok (mime_entries_of (mime_run seven_bit_params
       [SetType (JStr (js ''X'')), SetParam (JStr (js ''H'')) (JStr (js ''; '')), SetParam (JStr []) (JStr [])] mime_sample_type)) \<and>
   lower_token (mt_type (mime_run seven_bit_params
       [SetType (JStr (js ''X'')), SetParam (JStr (js ''H'')) (JStr (js ''; '')), SetParam (JStr []) (JStr [])] mime_sample_type))"
  using mime_type_invariant [OF mime_sample_new refl] by blast

text \<open>
  C37: The text that toString answers for a MIMEType, after any calls, is accepted by the constructor
  and read back as the same type, the same subtype and the same parameters in the same order, with
  names in lower case and the first of two names that differ in case only; without calls of set
  exactly the same parameters.
\<close>

theorem mime_type_roundtrip:
  assumes "mime_new env v = Inr m" "m' = mime_run env calls m"
  shows "\<exists>q. mime_new env (JStr (fst (mime_toString m'))) = Inr q \<and>
    mt_type q = mt_type m' \<and> mt_subtype q = mt_subtype m' \<and>
    mime_entries_of q = lowered (mime_entries_of m') \<and>
    ((\<forall>k v. SetParam k v \<notin> set calls) \<longrightarrow> mime_entries_of q = mime_entries_of m')"
  using mime_reparse [OF mime_run_ok [OF mime_new_ok(1) [OF assms(1)], of env calls], of env]
    mime_entries_lower [OF assms(1), of calls]
  by (auto simp: assms(2))

theorem mime_type_roundtrip_witness:
  "\<exists>q. mime_new seven_bit_params (JStr (js ''text/b;c=\"d !\";g=\"\"'')) = Inr q \<and>
     mime_entries_of q = [(js ''c'', js ''d !''), (js ''g'', [])]"
proof -
  let ?m = "mime_run seven_bit_params [GetParam (JStr (js ''f''))] mime_sample_type"
  have "fst (mime_toString ?m) = js ''text/b;c=\"d !\";g=\"\"''"
    "mime_entries_of ?m = [(js ''c'', js ''d !''), (js ''g'', [])]"
    by code_simp+
  with mime_type_roundtrip [OF mime_sample_new refl, of "[GetParam (JStr (js ''f''))]"] show ?thesis by auto
qed

text \<open>What follows a quoted value is not skipped up to the next semicolon: it is read as a parameter.\<close>

lemma parameter_after_quoted:
  "mime_entries_of (mime_sample_type\<lparr>mt_parameters := instantiateMimeParams (js ''a=\"b\" c=d'')\<rparr>) =
     [(js ''a'', js ''b''), (js ''c'', js ''d'')]"
  by code_simp

text \<open>A quoted value without its closing quote keeps the space at the end of the text.\<close>

lemma open_quote_keeps_space:
  "mime_entries_of (mime_sample_type\<lparr>mt_parameters := instantiateMimeParams (js ''a=\"b '')\<rparr>) = [(js ''a'', js ''b '')]"
  by code_simp

end
