(* ===== verification/UrlClass.thy ===== *)
theory UrlClass
  imports SearchParamsInv
begin

text \<open>
  The class \<^verbatim>\<open>URL\<close> of lib/internal/url.js. The URL parser is native code and a parameter: an operation
  of the binding gives the new href together with the offsets it leaves in \<^verbatim>\<open>urlComponents\<close>, or \<open>None\<close>
  where it gives false. An update of the search alone has no result in the binding and cannot fail.
\<close>

subsection \<open>State\<close>

record url_context =
  c_href :: jsstring
  protocol_end :: nat
  username_end :: nat
  host_start :: nat
  host_end :: nat
  pathname_start :: nat
  search_start :: nat
  hash_start :: nat
  c_port :: nat
  scheme_type :: nat

definition omitted :: nat where
  "omitted = 4294967295"

definition hasPort :: "url_context \<Rightarrow> bool" where
  "hasPort c \<longleftrightarrow> c_port c \<noteq> omitted"

definition hasSearch :: "url_context \<Rightarrow> bool" where
  "hasSearch c \<longleftrightarrow> search_start c \<noteq> omitted"

definition hasHash :: "url_context \<Rightarrow> bool" where
  "hasHash c \<longleftrightarrow> hash_start c \<noteq> omitted"

definition empty_context :: url_context where
  "empty_context = \<lparr>c_href = [], protocol_end = 0, username_end = 0, host_start = 0, host_end = 0,
     pathname_start = 0, search_start = 0, hash_start = 0, c_port = 0, scheme_type = 1\<rparr>"

datatype update_action = KProtocol | KHost | KHostname | KPort | KUsername | KPassword | KPathname | KHash | KHref

record url_env =
  parse_url :: "jsstring \<Rightarrow> jsstring option \<Rightarrow> url_context option"
  path_to_url :: "jsstring \<Rightarrow> bool \<Rightarrow> jsstring option \<Rightarrow> url_context option"
  update_url :: "jsstring \<Rightarrow> update_action \<Rightarrow> jsstring \<Rightarrow> url_context option"
  update_search :: "jsstring \<Rightarrow> jsstring \<Rightarrow> url_context"
  can_parse :: "jsstring \<Rightarrow> jsstring option \<Rightarrow> bool"
  ue_params :: params_env

text \<open>
  \<open>url_params\<close> is the list of the params object, \<open>None\<close> before it is asked for. Its associated URL is
  this one.
\<close>

record url =
  url_ctx :: url_context
  url_params :: "jsstring list option"
  searchParamsModified :: bool

subsection \<open>The search\<close>

definition getSearchFromContext :: "url_context \<Rightarrow> jsstring" where
  "getSearchFromContext c =
     (if \<not> hasSearch c then []
      else
        (let endsAt = (if hasHash c then hash_start c else length (c_href c))
         in if int endsAt - int (search_start c) \<le> 1 then []
            else slice (c_href c) (int (search_start c)) (int endsAt)))"

definition getSearchFromParams :: "url \<Rightarrow> jsstring result" where
  "getSearchFromParams u =
     (case url_params u of
        None \<Rightarrow> Inr []
      | Some list \<Rightarrow>
          (if length list = 0 then Inr []
           else bind (serializeParams list) (\<lambda>s. Inr (63 # s))))"

text \<open>\<^verbatim>\<open>#ensureSearchParamsUpdated\<close> and \<^verbatim>\<open>#updateContext\<close> call each other; the flag is reset before the call.\<close>

function ensure_params_updated :: "url_env \<Rightarrow> url \<Rightarrow> url result"
  and update_context :: "url_env \<Rightarrow> url \<Rightarrow> url_context \<Rightarrow> bool \<Rightarrow> url result"
where
  "ensure_params_updated env u =
     (if searchParamsModified u then
        (let u = u\<lparr>searchParamsModified := False\<rparr>
         in bind (getSearchFromParams u) (\<lambda>s.
              update_context env u (update_search env (c_href (url_ctx u)) s) False))
      else Inr u)"
| "update_context env u c shouldUpdateSearchParams =
     bind (if shouldUpdateSearchParams \<and> url_params u \<noteq> None
           then (if searchParamsModified u then getSearchFromParams u else Inr (getSearchFromContext (url_ctx u)))
           else Inr [])
       (\<lambda>previousSearch.
         let u = u\<lparr>url_ctx := c\<rparr>
         in if url_params u = None then Inr u
            else if shouldUpdateSearchParams \<and> previousSearch \<noteq> getSearchFromContext c
            then ensure_params_updated env
                   (u\<lparr>url_params := Some (parseParams (ue_params env) (getSearchFromContext c)),
                      searchParamsModified := False\<rparr>)
            else ensure_params_updated env u)"
  by pat_completeness auto
termination
  by (relation "measure (\<lambda>a. case a of Inl (_, u) \<Rightarrow> (if searchParamsModified u then 2 else 0)
                         | Inr (_, u, _, _) \<Rightarrow> (if searchParamsModified u then 3 else 1))") auto

declare ensure_params_updated.simps [simp del] update_context.simps [simp del]

text \<open>What the params object calls when its list has changed to \<open>list\<close>.\<close>

definition setURLSearchParamsModified :: "url_env \<Rightarrow> jsstring list \<Rightarrow> url \<Rightarrow> url result" where
  "setURLSearchParamsModified env list u =
     (let u = u\<lparr>url_params := Some list, searchParamsModified := True\<rparr>
      in if hasSearch (url_ctx u)
         then update_context env u (update_search env (c_href (url_ctx u)) []) False
         else Inr u)"

subsection \<open>Making a URL\<close>

datatype parse_symbol = NoSymbol | KParseURL | KCreateFromPosixPath | KCreateFromWindowsPath | OtherSymbol

definition binding_href :: "url_env \<Rightarrow> parse_symbol \<Rightarrow> jsstring \<Rightarrow> jsstring option \<Rightarrow> url_context option" where
  "binding_href env symb input base =
     (case symb of
        KCreateFromPosixPath \<Rightarrow> path_to_url env input False base
      | KCreateFromWindowsPath \<Rightarrow> path_to_url env input True base
      | _ \<Rightarrow> parse_url env input base)"

definition url_new :: "url_env \<Rightarrow> jsval list \<Rightarrow> parse_symbol \<Rightarrow> url result" where
  "url_new env args symb =
     (if args = [] then Inl (ERR_MISSING_ARGS [''url''])
      else bind (template_string (ue_params env) (args ! 0)) (\<lambda>input.
        bind (if length args < 2 \<or> args ! 1 = Undefined then Inr None
              else bind (template_string (ue_params env) (args ! 1)) (\<lambda>s. Inr (Some s)))
          (\<lambda>base.
            let u = \<lparr>url_ctx = empty_context, url_params = None, searchParamsModified = False\<rparr>
            in case binding_href env symb input base of
                 Some c \<Rightarrow> update_context env u c False
               | None \<Rightarrow> (if symb = NoSymbol \<or> symb = OtherSymbol then Inl (ERR_INVALID_URL input) else Inr u))))"

definition url_href :: "url_env \<Rightarrow> url \<Rightarrow> (jsstring \<times> url) result" where
  "url_href env u = bind (ensure_params_updated env u) (\<lambda>u. Inr (c_href (url_ctx u), u))"

definition url_static_parse :: "url_env \<Rightarrow> jsval list \<Rightarrow> url option result" where
  "url_static_parse env args =
     (if args = [] then Inl (ERR_MISSING_ARGS [''url''])
      else bind (url_new env args KParseURL) (\<lambda>u.
        bind (url_href env u) (\<lambda>(href, u). Inr (if href \<noteq> [] then Some u else None))))"

definition url_canParse :: "url_env \<Rightarrow> jsval list \<Rightarrow> bool result" where
  "url_canParse env args =
     (if args = [] then Inl (ERR_MISSING_ARGS [''url''])
      else bind (template_string (ue_params env) (args ! 0)) (\<lambda>url.
        if length args < 2 \<or> args ! 1 = Undefined then Inr (can_parse env url None)
        else bind (template_string (ue_params env) (args ! 1)) (\<lambda>base. Inr (can_parse env url (Some base)))))"

subsection \<open>Reading\<close>

definition url_toString :: "url_env \<Rightarrow> url \<Rightarrow> (jsstring \<times> url) result" where
  "url_toString env u = bind (ensure_params_updated env u) (\<lambda>u. Inr (c_href (url_ctx u), u))"

definition url_toJSON :: "url_env \<Rightarrow> url \<Rightarrow> (jsstring \<times> url) result" where
  "url_toJSON env u = bind (ensure_params_updated env u) (\<lambda>u. Inr (c_href (url_ctx u), u))"

definition url_search :: "url_env \<Rightarrow> url \<Rightarrow> (jsstring \<times> url) result" where
  "url_search env u = bind (ensure_params_updated env u) (\<lambda>u. Inr (getSearchFromContext (url_ctx u), u))"

definition url_protocol :: "url_context \<Rightarrow> jsstring" where
  "url_protocol c = slice (c_href c) 0 (int (protocol_end c))"

definition url_username :: "url_context \<Rightarrow> jsstring" where
  "url_username c =
     (if protocol_end c + 2 < username_end c
      then slice (c_href c) (int (protocol_end c + 2)) (int (username_end c)) else [])"

definition url_password :: "url_context \<Rightarrow> jsstring" where
  "url_password c =
     (if int (host_start c) - int (username_end c) > 0
      then slice (c_href c) (int (username_end c + 1)) (int (host_start c)) else [])"

definition host_begin :: "url_context \<Rightarrow> nat" where
  "host_begin c = (if charCodeAt (c_href c) (int (host_start c)) = Some 64 then host_start c + 1 else host_start c)"

definition url_host :: "url_context \<Rightarrow> jsstring" where
  "url_host c =
     (if host_begin c = host_end c then []
      else slice (c_href c) (int (host_begin c)) (int (pathname_start c)))"

definition url_hostname :: "url_context \<Rightarrow> jsstring" where
  "url_hostname c = slice (c_href c) (int (host_begin c)) (int (host_end c))"

definition url_port :: "url_context \<Rightarrow> jsstring" where
  "url_port c = (if hasPort c then js (dec (c_port c)) else [])"

definition url_pathname :: "url_context \<Rightarrow> jsstring" where
  "url_pathname c =
     (if hasSearch c then slice (c_href c) (int (pathname_start c)) (int (search_start c))
      else if hasHash c then slice (c_href c) (int (pathname_start c)) (int (hash_start c))
      else slice_from (c_href c) (int (pathname_start c)))"

definition url_hash :: "url_context \<Rightarrow> jsstring" where
  "url_hash c =
     (if \<not> hasHash c \<or> int (length (c_href c)) - int (hash_start c) \<le> 1 then []
      else slice_from (c_href c) (int (hash_start c)))"

text \<open>The URL that the origin of a \<^verbatim>\<open>blob:\<close> URL is read from is made by the constructor; what it throws is caught.\<close>

definition url_origin :: "url_env \<Rightarrow> url \<Rightarrow> jsstring" where
  "url_origin env u =
     (let c = url_ctx u;
          protocol = slice (c_href c) 0 (int (protocol_end c))
      in if scheme_type c \<noteq> 1 then
           (if scheme_type c = 6 then js ''null'' else protocol @ js ''//'' @ url_host c)
         else if protocol = js ''blob:'' \<and> length (url_pathname c) > 0 then
           (case url_new env [JStr (url_pathname c)] NoSymbol of
              Inr out \<Rightarrow>
                (if scheme_type (url_ctx out) = 0 \<or> scheme_type (url_ctx out) = 2
                 then url_protocol (url_ctx out) @ js ''//'' @ url_host (url_ctx out)
                 else js ''null'')
            | Inl _ \<Rightarrow> js ''null'')
         else js ''null'')"

subsection \<open>Writing\<close>

text \<open>\<^verbatim>\<open>set protocol\<close>, \<^verbatim>\<open>username\<close>, \<^verbatim>\<open>password\<close>, \<^verbatim>\<open>host\<close>, \<^verbatim>\<open>hostname\<close>, \<^verbatim>\<open>port\<close>, \<^verbatim>\<open>pathname\<close> and \<^verbatim>\<open>hash\<close>.\<close>

definition url_set_part :: "url_env \<Rightarrow> update_action \<Rightarrow> url \<Rightarrow> jsval \<Rightarrow> url result" where
  "url_set_part env action u v =
     bind (template_string (ue_params env) v) (\<lambda>s.
       case update_url env (c_href (url_ctx u)) action s of
         None \<Rightarrow> Inr u
       | Some c \<Rightarrow> update_context env u c False)"

definition url_set_href :: "url_env \<Rightarrow> url \<Rightarrow> jsval \<Rightarrow> url result" where
  "url_set_href env u v =
     bind (template_string (ue_params env) v) (\<lambda>s.
       case update_url env (c_href (url_ctx u)) KHref s of
         None \<Rightarrow> Inl (ERR_INVALID_URL s)
       | Some c \<Rightarrow> update_context env u c True)"

definition url_set_search :: "url_env \<Rightarrow> url \<Rightarrow> jsval \<Rightarrow> url result" where
  "url_set_search env u v =
     bind (usv_string (ue_params env) v) (\<lambda>s.
       update_context env u (update_search env (c_href (url_ctx u)) s) True)"

definition url_searchParams :: "url_env \<Rightarrow> url \<Rightarrow> url result" where
  "url_searchParams env u =
     (if url_params u = None then
        bind (new_params (ue_params env) (PrimitiveInit (JStr (getSearchFromContext (url_ctx u)))) :: unit params result)
          (\<lambda>p. Inr (u\<lparr>url_params := Some (searchParams p), searchParamsModified := False\<rparr>))
      else Inr u)"

text \<open>
  A call of a method on \<^verbatim>\<open>url.searchParams\<close>. The URL the params object is associated with is a
  result, the error where telling it has thrown.
\<close>

definition tell_url :: "url_env \<Rightarrow> jsstring list \<Rightarrow> url result \<Rightarrow> url result" where
  "tell_url env list r = bind r (setURLSearchParamsModified env list)"

definition on_params :: "url_env \<Rightarrow> (url result params \<Rightarrow> url result params result) \<Rightarrow> url \<Rightarrow> url result" where
  "on_params env method u =
     bind (url_searchParams env u) (\<lambda>u.
       case url_params u of
         None \<Rightarrow> Inr u
       | Some list \<Rightarrow>
           bind (method \<lparr>searchParams = list, context_url = Some (Inr u)\<rparr>) (\<lambda>p.
             case context_url p of None \<Rightarrow> Inr u | Some r \<Rightarrow> r))"

subsection \<open>Options of a request\<close>

record http_options =
  o_protocol :: jsstring
  o_hostname :: jsstring
  o_hash :: jsstring
  o_search :: jsstring
  o_pathname :: jsstring
  o_path :: jsstring
  o_href :: jsstring
  o_port :: "nat option"
  o_auth :: "jsstring option"

definition decode_or_throw :: "jsstring \<Rightarrow> jsstring result" where
  "decode_or_throw s = (case decodeURIComponent s of None \<Rightarrow> Inl URIError | Some r \<Rightarrow> Inr r)"

text \<open>\<^verbatim>\<open>urlToHttpOptions\<close> of a URL that has no enumerable properties of its own.\<close>

definition urlToHttpOptions :: "url_env \<Rightarrow> url \<Rightarrow> (http_options \<times> url) result" where
  "urlToHttpOptions env u =
     bind (url_search env u) (\<lambda>(search, u2).
       bind (url_href env u2) (\<lambda>(href, u3).
         let c = url_ctx u;
             hostname = url_hostname c;
             username = url_username c;
             password = url_password c;
             auth = (if username \<noteq> [] \<or> password \<noteq> []
                     then bind (decode_or_throw username) (\<lambda>n. bind (decode_or_throw password) (\<lambda>p.
                            Inr (Some (n @ [58] @ p))))
                     else Inr None)
         in bind auth (\<lambda>auth. Inr
              (\<lparr>o_protocol = url_protocol (url_ctx u2),
                o_hostname = (if charCodeAt hostname 0 = Some 91 then slice hostname 1 (- 1) else hostname),
                o_hash = url_hash (url_ctx u2), o_search = search, o_pathname = url_pathname c,
                o_path = url_pathname c @ search, o_href = href,
                o_port = (if hasPort c then Some (c_port c) else None), o_auth = auth\<rparr>, u3))))"

end
