(* ===== verification/UrlProps.thy ===== *)
theory UrlProps
  imports UrlClass
begin

text \<open>
  A URL and its params object stay in step. The parser is a parameter; \<open>binding_ok\<close> is what the
  URL Standard says of it: the search of a URL is ASCII, a part other than the search is changed without
  changing the search, and a search of form-encoded text is taken over as it is.
\<close>

definition bound_context :: "url_env \<Rightarrow> url_context \<Rightarrow> bool" where
  "bound_context env c \<longleftrightarrow>
     c = empty_context \<or> (\<exists>s b. parse_url env s b = Some c) \<or> (\<exists>s w b. path_to_url env s w b = Some c) \<or>
     (\<exists>h a v. update_url env h a v = Some c) \<or> (\<exists>h s. update_search env h s = c)"

definition form_unit :: "nat \<Rightarrow> bool" where
  "form_unit c \<longleftrightarrow> params_noEscape c \<or> c = 37 \<or> c = 38 \<or> c = 43 \<or> c = 61"

definition form_search :: "jsstring \<Rightarrow> bool" where
  "form_search s \<longleftrightarrow> s = [] \<or> (\<exists>t. s = 63 # t \<and> t \<noteq> [] \<and> list_all form_unit t)"

definition binding_ok :: "url_env \<Rightarrow> bool" where
  "binding_ok env \<longleftrightarrow>
     (\<forall>c. bound_context env c \<longrightarrow> well_formed (getSearchFromContext c)) \<and>
     (\<forall>c a v c'. bound_context env c \<longrightarrow> a \<noteq> KHref \<longrightarrow> update_url env (c_href c) a v = Some c' \<longrightarrow>
        getSearchFromContext c' = getSearchFromContext c) \<and>
     (\<forall>h s. form_search s \<longrightarrow> getSearchFromContext (update_search env h s) = s)"

inductive url_reach :: "url_env \<Rightarrow> url \<Rightarrow> bool" for env :: url_env where
  make: "url_new env args symb = Inr u \<Longrightarrow> url_reach env u"
| read: "url_reach env u \<Longrightarrow> url_href env u = Inr (h, u') \<Longrightarrow> url_reach env u'"
| params: "url_reach env u \<Longrightarrow> url_searchParams env u = Inr u' \<Longrightarrow> url_reach env u'"
| part: "url_reach env u \<Longrightarrow> action \<noteq> KHref \<Longrightarrow> url_set_part env action u v = Inr u' \<Longrightarrow> url_reach env u'"
| href: "url_reach env u \<Longrightarrow> url_set_href env u v = Inr u' \<Longrightarrow> url_reach env u'"
| search: "url_reach env u \<Longrightarrow> url_set_search env u v = Inr u' \<Longrightarrow> url_reach env u'"
| append: "url_reach env u \<Longrightarrow> list_all val_ok args \<Longrightarrow>
    on_params env (\<lambda>p. params_append (tell_url env) (ue_params env) (Some p) args) u = Inr u' \<Longrightarrow> url_reach env u'"
| delete: "url_reach env u \<Longrightarrow> list_all val_ok args \<Longrightarrow>
    on_params env (\<lambda>p. params_delete (tell_url env) (ue_params env) (Some p) args) u = Inr u' \<Longrightarrow> url_reach env u'"
| set: "url_reach env u \<Longrightarrow> list_all val_ok args \<Longrightarrow>
    on_params env (\<lambda>p. params_set (tell_url env) (ue_params env) (Some p) args) u = Inr u' \<Longrightarrow> url_reach env u'"
| sort: "url_reach env u \<Longrightarrow>
    on_params env (\<lambda>p. params_sort (tell_url env) (Some p)) u = Inr u' \<Longrightarrow> url_reach env u'"

subsection \<open>The invariant\<close>

definition url_ok :: "url_env \<Rightarrow> url \<Rightarrow> bool" where
  "url_ok env u \<longleftrightarrow>
     bound_context env (url_ctx u) \<and> (url_params u = None \<longrightarrow> \<not> searchParamsModified u) \<and>
     (\<forall>list. url_params u = Some list \<longrightarrow> list_ok list \<and>
        (\<not> searchParamsModified u \<longrightarrow> parseParams (ue_params env) (getSearchFromContext (url_ctx u)) = list))"

definition world_ok :: "url_env \<Rightarrow> bool" where
  "world_ok env \<longleftrightarrow> env_ok (ue_params env) \<and> binding_ok env"

lemma url_ok_bound: "url_ok env u \<Longrightarrow> bound_context env (url_ctx u)"
  by (simp add: url_ok_def)

lemma form_text_units: "well_formed (fst p) \<Longrightarrow> well_formed (snd p) \<Longrightarrow> c \<in> set (form_text p) \<Longrightarrow> form_unit c"
  using form_escape_ok(4) [of "fst p" c] form_escape_ok(4) [of "snd p" c] by (auto simp: form_text_def form_unit_def)

lemma join_form_units:
  assumes "wf_pairs ps"
  shows "list_all form_unit (join [38] (map form_text ps))"
  using assms join_units [of _ "map form_text ps"] form_text_units
  by (fastforce simp: list_all_iff wf_pairs_def form_unit_def)

lemma params_text:
  assumes "list_ok list" "url_params u = Some list"
  shows "\<exists>s. getSearchFromParams u = Inr s \<and> form_search s \<and>
             (env_ok env \<longrightarrow> parseParams env s = list)"
proof -
  obtain ps where ps: "list = flat ps" "wf_pairs ps" using assms(1) by (auto simp: list_ok_def)
  have wf: "list_all (\<lambda>p. well_formed (fst p) \<and> well_formed (snd p)) ps" using ps(2) by (simp add: wf_pairs_def)
  show ?thesis
  proof (cases "ps = []")
    case True
    then show ?thesis
      using assms(2) by (simp add: getSearchFromParams_def ps form_search_def parseParams_form drop_question_def form_pairs_def)
  next
    case False
    let ?t = "join [38] (map form_text ps)"
    have t: "list_all form_unit ?t" "?t \<noteq> []"
      using join_form_units [OF ps(2)] False by (cases ps; auto simp: join_concat form_text_def)+
    have "63 \<notin> set ?t" using t(1) by (auto simp: list_all_iff form_unit_def params_noEscape_def)
    then have "drop_question ?t = ?t" by (cases ?t) (auto simp: drop_question_def)
    then have "parseParams env (63 # ?t) = parseParams env ?t"
      by (simp add: parseParams_form drop_question_def)
    then have "env_ok env \<longrightarrow> parseParams env (63 # ?t) = list"
      using serialize_flat_parse [OF wf, of env] by (simp add: env_ok_def ps(1))
    then show ?thesis
      using assms(2) False t serialize_flat [OF wf] by (simp add: getSearchFromParams_def ps(1) form_search_def)
  qed
qed

lemma update_context_quiet:
  "\<not> searchParamsModified u \<Longrightarrow> update_context env u c False = Inr (u\<lparr>url_ctx := c\<rparr>)"
  by (simp add: update_context.simps ensure_params_updated.simps Let_def)

lemma update_context_False:
  "update_context env u c False =
     (if url_params u = None then Inr (u\<lparr>url_ctx := c\<rparr>) else ensure_params_updated env (u\<lparr>url_ctx := c\<rparr>))"
  by (simp add: update_context.simps Let_def)

lemma bound_update: "bound_context env (update_search env h s)"
  by (auto simp: bound_context_def)

text \<open>Bringing the URL up to date.\<close>

lemma ensure_ok:
  assumes "world_ok env" "bound_context env (url_ctx u)" "url_params u = None \<longrightarrow> \<not> searchParamsModified u"
    and "\<And>list. url_params u = Some list \<Longrightarrow> list_ok list"
    and "\<And>list. url_params u = Some list \<Longrightarrow> \<not> searchParamsModified u \<Longrightarrow>
           parseParams (ue_params env) (getSearchFromContext (url_ctx u)) = list"
  shows "\<exists>u'. ensure_params_updated env u = Inr u' \<and> url_ok env u' \<and> \<not> searchParamsModified u' \<and>
           url_params u' = url_params u \<and>
           (searchParamsModified u \<longrightarrow> getSearchFromParams u = Inr (getSearchFromContext (url_ctx u')))"
proof (cases "searchParamsModified u")
  case False
  then show ?thesis using assms by (simp add: ensure_params_updated.simps url_ok_def)
next
  case True
  then obtain list where list: "url_params u = Some list" using assms(3) by (cases "url_params u") auto
  let ?u = "u\<lparr>searchParamsModified := False\<rparr>"
  obtain s where s: "getSearchFromParams u = Inr s" "form_search s" "parseParams (ue_params env) s = list"
    using params_text [OF assms(4) [OF list] list, of "ue_params env"] assms(1) by (auto simp: world_ok_def)
  have su: "getSearchFromParams ?u = Inr s" using s(1) by (simp add: getSearchFromParams_def)
  let ?c = "update_search env (c_href (url_ctx u)) s"
  have c: "getSearchFromContext ?c = s" using assms(1) s(2) by (simp add: world_ok_def binding_ok_def)
  have "ensure_params_updated env u = Inr (?u\<lparr>url_ctx := ?c\<rparr>)"
    by (subst ensure_params_updated.simps) (simp add: True su update_context_quiet Let_def)
  moreover have "url_ok env (?u\<lparr>url_ctx := ?c\<rparr>)"
    using list s assms(4) by (simp add: url_ok_def c bound_update)
  ultimately show ?thesis using True s(1) c by simp
qed

lemma ensure_url_ok:
  assumes "world_ok env" "url_ok env u"
  shows "\<exists>u'. ensure_params_updated env u = Inr u' \<and> url_ok env u' \<and> \<not> searchParamsModified u' \<and>
           url_params u' = url_params u \<and>
           (searchParamsModified u \<longrightarrow> getSearchFromParams u = Inr (getSearchFromContext (url_ctx u')))"
  using ensure_ok [OF assms(1), of u] assms(2) by (simp add: url_ok_def)

lemma update_part_ok:
  assumes "world_ok env" "url_ok env u" "bound_context env c"
    and "getSearchFromContext c = getSearchFromContext (url_ctx u)"
  shows "\<exists>u'. update_context env u c False = Inr u' \<and> url_ok env u'"
proof (cases "url_params u")
  case None
  then show ?thesis using assms by (simp add: update_context_False url_ok_def)
next
  case (Some list)
  then show ?thesis
    using ensure_ok [OF assms(1), of "u\<lparr>url_ctx := c\<rparr>"] assms(2-4) by (auto simp: update_context_False url_ok_def)
qed

lemma update_search_ok:
  assumes "world_ok env" "url_ok env u" "bound_context env c"
  shows "\<exists>u'. update_context env u c True = Inr u' \<and> url_ok env u'"
proof (cases "url_params u")
  case None
  then show ?thesis using assms by (simp add: update_context.simps url_ok_def Let_def)
next
  case (Some list)
  have list: "list_ok list" using assms(2) Some by (simp add: url_ok_def)
  define previous where
    "previous = (if searchParamsModified u then getSearchFromParams u else Inr (getSearchFromContext (url_ctx u)))"
  obtain prev where prev: "previous = Inr prev"
    using params_text [OF list Some] by (cases "searchParamsModified u") (auto simp: previous_def)
  have run: "update_context env u c True =
      (if prev \<noteq> getSearchFromContext c
       then ensure_params_updated env
              (u\<lparr>url_ctx := c, url_params := Some (parseParams (ue_params env) (getSearchFromContext c)),
                 searchParamsModified := False\<rparr>)
       else ensure_params_updated env (u\<lparr>url_ctx := c\<rparr>))"
    using Some by (simp add: update_context.simps Let_def prev flip: previous_def)
  show ?thesis
  proof (cases "prev = getSearchFromContext c")
    case True
    have "parseParams (ue_params env) (getSearchFromContext c) = list" if "\<not> searchParamsModified u"
      using that assms(2) Some True prev by (simp add: previous_def url_ok_def)
    then show ?thesis
      using ensure_ok [OF assms(1), of "u\<lparr>url_ctx := c\<rparr>"] assms(3) Some list by (auto simp: run True)
  next
    case False
    have "well_formed (getSearchFromContext c)" "env_ok (ue_params env)"
      using assms(1,3) by (simp_all add: world_ok_def binding_ok_def)
    then have "list_ok (parseParams (ue_params env) (getSearchFromContext c))" by (rule parse_ok [rotated])
    then show ?thesis using assms(3) False by (simp add: run ensure_params_updated.simps url_ok_def)
  qed
qed

lemma modified_ok:
  assumes "world_ok env" "url_ok env u" "list_ok list"
  shows "\<exists>u'. setURLSearchParamsModified env list u = Inr u' \<and> url_ok env u' \<and> url_params u' = Some list \<and>
           (searchParamsModified u' \<or> getSearchFromParams u' = Inr (getSearchFromContext (url_ctx u'))) \<and>
           (searchParamsModified u' \<longleftrightarrow> \<not> hasSearch (url_ctx u))"
proof -
  let ?u = "u\<lparr>url_params := Some list, searchParamsModified := True\<rparr>"
  let ?c = "update_search env (c_href (url_ctx u)) []"
  show ?thesis
  proof (cases "hasSearch (url_ctx u)")
    case True
    then have run: "setURLSearchParamsModified env list u = ensure_params_updated env (?u\<lparr>url_ctx := ?c\<rparr>)"
      by (simp add: setURLSearchParamsModified_def Let_def update_context_False)
    have "\<exists>u'. ensure_params_updated env (?u\<lparr>url_ctx := ?c\<rparr>) = Inr u' \<and> url_ok env u' \<and> \<not> searchParamsModified u' \<and>
        url_params u' = Some list \<and>
        getSearchFromParams (?u\<lparr>url_ctx := ?c\<rparr>) = Inr (getSearchFromContext (url_ctx u'))"
      using ensure_ok [OF assms(1), of "?u\<lparr>url_ctx := ?c\<rparr>"] assms(3) by (simp add: bound_update)
    then show ?thesis using True by (auto simp: run getSearchFromParams_def)
  next
    case False
    then show ?thesis using assms by (simp add: setURLSearchParamsModified_def Let_def url_ok_def)
  qed
qed

lemma searchParams_ok:
  assumes "world_ok env" "url_ok env u"
  shows "\<exists>u' list. url_searchParams env u = Inr u' \<and> url_ok env u' \<and> url_params u' = Some list"
proof (cases "url_params u")
  case None
  let ?s = "getSearchFromContext (url_ctx u)"
  have wf: "well_formed ?s" and e: "env_ok (ue_params env)" using assms by (simp_all add: world_ok_def binding_ok_def url_ok_def)
  have "usv_string (ue_params env) (JStr ?s) = Inr ?s"
    using toWellFormed_id [OF wf] by (simp add: usv_string_def template_string_def)
  then have "url_searchParams env u =
      Inr (u\<lparr>url_params := Some (if ?s \<noteq> [] then parseParams (ue_params env) ?s else []), searchParamsModified := False\<rparr>)"
    using None by (simp add: url_searchParams_def new_params_def)
  moreover have "parseParams (ue_params env) [] = []"
    by (simp add: parseParams_form drop_question_def form_pairs_def)
  ultimately show ?thesis using parse_ok [OF e wf] assms(2) by (auto simp: url_ok_def)
next
  case (Some list)
  then show ?thesis using assms(2) by (simp add: url_searchParams_def)
qed

subsection \<open>Calls on the params object\<close>

definition good_method :: "url_env \<Rightarrow> (url result params \<Rightarrow> url result params result) \<Rightarrow> bool" where
  "good_method env m \<longleftrightarrow>
     (\<forall>p p'. m p = Inr p' \<longrightarrow> list_ok (searchParams p) \<longrightarrow>
        list_ok (searchParams p') \<and> (\<exists>l. p' = touch (tell_url env) (p\<lparr>searchParams := l\<rparr>)))"

lemma method_touch:
  "params_append notify env (Some p) args = Inr p' \<Longrightarrow> \<exists>l. p' = touch notify (p\<lparr>searchParams := l\<rparr>)"
  "params_delete notify env (Some p) args = Inr p' \<Longrightarrow> \<exists>l. p' = touch notify (p\<lparr>searchParams := l\<rparr>)"
  "params_sort notify (Some p) = Inr p' \<Longrightarrow> \<exists>l. p' = touch notify (p\<lparr>searchParams := l\<rparr>)"
  by (auto simp: params_append_def params_delete_def params_sort_def this_params_def bind_eq_Inr split: if_splits)

lemma set_touch:
  assumes "params_set notify env (Some p) args = Inr p'"
  shows "\<exists>l. p' = touch notify (p\<lparr>searchParams := l\<rparr>)"
proof -
  obtain k v where "(let (list, found) = set_loop k v (searchParams p) 0 False
      in Inr (touch notify (p\<lparr>searchParams := (if \<not> found then list @ [k, v] else list)\<rparr>))) = (Inr p' :: _ result)"
    using assms by (auto simp: params_set_def this_params_def bind_eq_Inr split: if_splits)
  then show ?thesis by (cases "set_loop k v (searchParams p) 0 False") auto
qed

lemma good_methodI:
  assumes "\<And>p p'. m p = Inr p' \<Longrightarrow> list_ok (searchParams p) \<Longrightarrow> list_ok (searchParams p')"
    and "\<And>p p'. m p = Inr p' \<Longrightarrow> \<exists>l. p' = touch (tell_url env) (p\<lparr>searchParams := l\<rparr>)"
  shows "good_method env m"
  using assms by (simp add: good_method_def)

lemma good_methods:
  assumes "env_ok (ue_params env)"
  shows "list_all val_ok args \<Longrightarrow> good_method env (\<lambda>p. params_append (tell_url env) (ue_params env) (Some p) args)"
    and "good_method env (\<lambda>p. params_delete (tell_url env) (ue_params env) (Some p) args)"
    and "list_all val_ok args \<Longrightarrow> good_method env (\<lambda>p. params_set (tell_url env) (ue_params env) (Some p) args)"
    and "good_method env (\<lambda>p. params_sort (tell_url env) (Some p))"
proof -
  show "good_method env (\<lambda>p. params_append (tell_url env) (ue_params env) (Some p) args)" if "list_all val_ok args"
    by (rule good_methodI) (rule params_append_ok [OF assms _ that], assumption, assumption, rule method_touch(1))
  show "good_method env (\<lambda>p. params_delete (tell_url env) (ue_params env) (Some p) args)"
    by (rule good_methodI) (rule params_delete_ok, assumption, assumption, rule method_touch(2))
  show "good_method env (\<lambda>p. params_set (tell_url env) (ue_params env) (Some p) args)" if "list_all val_ok args"
    by (rule good_methodI) (rule params_set_ok [OF assms _ that], assumption, assumption, rule set_touch)
  show "good_method env (\<lambda>p. params_sort (tell_url env) (Some p))"
    by (rule good_methodI) (rule params_sort_ok, assumption, assumption, rule method_touch(3))
qed

lemma on_params_ok:
  assumes "world_ok env" "url_ok env u" "good_method env m" "on_params env m u = Inr u'"
  shows "url_ok env u' \<and>
         (searchParamsModified u' \<or> getSearchFromParams u' = Inr (getSearchFromContext (url_ctx u')))"
proof -
  obtain u1 list where u1: "url_searchParams env u = Inr u1" "url_ok env u1" "url_params u1 = Some list"
    using searchParams_ok [OF assms(1,2)] by blast
  let ?p = "\<lparr>searchParams = list, context_url = Some (Inr u1)\<rparr>"
  obtain p where p: "m ?p = Inr p" "(case context_url p of None \<Rightarrow> Inr u1 | Some r \<Rightarrow> r) = Inr u'"
    using assms(4) u1 by (auto simp: on_params_def bind_eq_Inr)
  have "list_ok list" using u1 by (simp add: url_ok_def)
  then obtain l where l: "list_ok l" "p = touch (tell_url env) (?p\<lparr>searchParams := l\<rparr>)"
    using assms(3) p(1) unfolding good_method_def by fastforce
  then have "setURLSearchParamsModified env l u1 = Inr u'"
    using p(2) by (simp add: touch_def tell_url_def)
  with modified_ok [OF assms(1) u1(2) l(1)] show ?thesis by auto
qed

subsection \<open>Every URL\<close>

lemma empty_search: "getSearchFromContext empty_context = []"
  by (simp add: getSearchFromContext_def empty_context_def hasSearch_def hasHash_def omitted_def)

lemma url_new_ok:
  assumes "url_new env args symb = Inr u"
  shows "url_ok env u"
proof -
  let ?u = "\<lparr>url_ctx = empty_context, url_params = None, searchParamsModified = False\<rparr>"
  from assms have "args \<noteq> []" by (auto simp: url_new_def)
  then obtain input base where run: "(case binding_href env symb input base of
      Some c \<Rightarrow> update_context env ?u c False
    | None \<Rightarrow> (if symb = NoSymbol \<or> symb = OtherSymbol then Inl (ERR_INVALID_URL input) else Inr ?u)) = Inr u"
    using assms by (simp only: url_new_def bind_eq_Inr Let_def if_False) blast
  show ?thesis
  proof (cases "binding_href env symb input base")
    case None
    then show ?thesis using run by (auto simp: url_ok_def bound_context_def split: if_splits)
  next
    case (Some c)
    have "bound_context env c"
      using Some by (cases symb) (auto simp: binding_href_def bound_context_def)
    then show ?thesis using run Some by (auto simp: update_context_quiet url_ok_def)
  qed
qed

lemma reach_url_ok:
  assumes w: "world_ok env"
  shows "url_reach env u \<Longrightarrow> url_ok env u"
proof (induction rule: url_reach.induct)
  case (make args symb u)
  then show ?case by (rule url_new_ok)
next
  case (read u h u')
  then show ?case using ensure_url_ok [OF w read.IH] by (auto simp: url_href_def)
next
  case (params u u')
  then show ?case using searchParams_ok [OF w params.IH] by auto
next
  case (part u action v u')
  then obtain s where s: "(case update_url env (c_href (url_ctx u)) action s of
      None \<Rightarrow> Inr u | Some c \<Rightarrow> update_context env u c False) = Inr u'"
    by (auto simp: url_set_part_def bind_eq_Inr)
  show ?case
  proof (cases "update_url env (c_href (url_ctx u)) action s")
    case None
    then show ?thesis using s part.IH by simp
  next
    case (Some c)
    then have bound: "bound_context env c" unfolding bound_context_def by blast
    have "getSearchFromContext c = getSearchFromContext (url_ctx u)"
      using w url_ok_bound [OF part.IH] part.hyps(2) Some unfolding world_ok_def binding_ok_def by blast
    from update_part_ok [OF w part.IH bound this] show ?thesis using s Some by auto
  qed
next
  case (href u v u')
  then obtain s c where c: "update_url env (c_href (url_ctx u)) KHref s = Some c" "update_context env u c True = Inr u'"
    by (auto simp: url_set_href_def bind_eq_Inr split: option.splits)
  then have "bound_context env c" by (auto simp: bound_context_def)
  from update_search_ok [OF w href.IH this] show ?case using c(2) by auto
next
  case (search u v u')
  then obtain s where "update_context env u (update_search env (c_href (url_ctx u)) s) True = Inr u'"
    by (auto simp: url_set_search_def bind_eq_Inr)
  then show ?case using update_search_ok [OF w search.IH bound_update [of env "c_href (url_ctx u)" s]] by auto
next
  case (append u args u')
  then show ?case using on_params_ok [OF w append.IH] good_methods(1) w by (auto simp: world_ok_def)
next
  case (delete u args u')
  then show ?case using on_params_ok [OF w delete.IH] good_methods(2) w by (auto simp: world_ok_def)
next
  case (set u args u')
  then show ?case using on_params_ok [OF w set.IH] good_methods(3) w by (auto simp: world_ok_def)
next
  case (sort u u')
  then show ?case using on_params_ok [OF w sort.IH] good_methods(4) w by (auto simp: world_ok_def)
qed

text \<open>
  C33: whatever was done to a URL and to its params object, reading \<^verbatim>\<open>href\<close> and \<^verbatim>\<open>search\<close> returns, leaves
  the params object as it is, and parsing the search read gives the list of the params object.
\<close>

theorem url_params_in_sync:
  assumes "world_ok env" "url_reach env u"
  shows "\<exists>u'. url_href env u = Inr (c_href (url_ctx u'), u') \<and>
              url_search env u = Inr (getSearchFromContext (url_ctx u'), u') \<and>
              url_params u' = url_params u \<and>
              (\<forall>list. url_params u = Some list \<longrightarrow>
                 parseParams (ue_params env) (getSearchFromContext (url_ctx u')) = list)"
proof -
  obtain u' where u': "ensure_params_updated env u = Inr u'" "url_ok env u'" "\<not> searchParamsModified u'"
      "url_params u' = url_params u"
    using ensure_url_ok [OF assms(1) reach_url_ok [OF assms]] by blast
  then show ?thesis by (auto simp: url_href_def url_search_def url_ok_def)
qed

text \<open>
  after a call that appends, deletes, sets or sorts on the params object of a URL, the search of the
  URL reads as the text of the params object, with a question mark before it unless it is empty.
\<close>

lemma url_params_written:
  assumes "world_ok env" "url_reach env u" "list_all val_ok args"
    and "m \<in> {\<lambda>p. params_append (tell_url env) (ue_params env) (Some p) args,
              \<lambda>p. params_delete (tell_url env) (ue_params env) (Some p) args,
              \<lambda>p. params_set (tell_url env) (ue_params env) (Some p) args,
              \<lambda>p. params_sort (tell_url env) (Some p)}"
    and "on_params env m u = Inr u'"
  shows "\<exists>body u''. getSearchFromParams u' = Inr body \<and> url_search env u' = Inr (body, u'')"
proof -
  have m: "good_method env m"
    using assms(1,4) good_methods(1,3) [OF _ assms(3)] good_methods(2,4) by (auto simp: world_ok_def)
  have ok: "url_ok env u'"
    and told: "searchParamsModified u' \<or> getSearchFromParams u' = Inr (getSearchFromContext (url_ctx u'))"
    using on_params_ok [OF assms(1) reach_url_ok [OF assms(1,2)] m assms(5)] by blast+
  show ?thesis
  proof (cases "searchParamsModified u'")
    case True
    then show ?thesis using ensure_url_ok [OF assms(1) ok] by (auto simp: url_search_def)
  next
    case False
    then show ?thesis using told by (simp add: url_search_def ensure_params_updated.simps)
  qed
qed

text \<open>
  The comment on \<^verbatim>\<open>setURLSearchParamsModified\<close> says that the URL is updated at the next read or write and that an existing search
  is removed without cascading back. Removing it runs \<^verbatim>\<open>#updateContext\<close>, which writes the new search at
  once.
\<close>

lemma modified_at_once:
  assumes "world_ok env" "url_ok env u" "list_ok list" "hasSearch (url_ctx u)"
  shows "\<exists>u'. setURLSearchParamsModified env list u = Inr u' \<and> \<not> searchParamsModified u' \<and>
              getSearchFromParams u' = Inr (getSearchFromContext (url_ctx u'))"
  using modified_ok [OF assms(1-3)] assms(4) by auto

subsection \<open>A parser\<close>

text \<open>
  Parameters that satisfy the hypotheses: the only URL is \<^verbatim>\<open>a:/b\<close> with any search; an update of
  another part changes nothing.
\<close>

definition tiny_context :: "jsstring \<Rightarrow> url_context" where
  "tiny_context s =
     \<lparr>c_href = js ''a:/b'' @ s, protocol_end = 2, username_end = 2, host_start = 2, host_end = 2, pathname_start = 2,
      search_start = (if s = [] then omitted else 4), hash_start = omitted, c_port = omitted, scheme_type = 1\<rparr>"

definition tiny_env :: url_env where
  "tiny_env =
     \<lparr>parse_url = (\<lambda>s b. Some (tiny_context [])), path_to_url = (\<lambda>s w b. None),
      update_url = (\<lambda>h a v. if h = [] then None else Some (tiny_context (let s = drop 4 h in if well_formed s then s else []))),
      update_search = (\<lambda>h s. tiny_context (if well_formed s then s else [])),
      can_parse = (\<lambda>s b. True), ue_params = seven_bit_params\<rparr>"

lemma tiny_search: "getSearchFromContext (tiny_context s) = (if length s \<le> 1 then [] else s)"
proof -
  have "slice (js ''a:/b'' @ s) 4 (int (length (js ''a:/b'' @ s))) = s"
    by (subst slice_nonneg) auto
  then show ?thesis
    by (cases s) (auto simp: getSearchFromContext_def hasSearch_def hasHash_def tiny_context_def omitted_def Let_def)
qed

lemma form_search_well_formed: "form_search s \<Longrightarrow> well_formed s"
proof -
  have "well_formed t" if "list_all form_unit t" for t
    using that by (induction t) (auto simp: well_formed_cons_ascii form_unit_def params_noEscape_def)
  then show "form_search s \<Longrightarrow> well_formed s" by (auto simp: form_search_def well_formed_cons_ascii)
qed

lemma tiny_bound: "bound_context tiny_env c \<Longrightarrow> c = empty_context \<or> (\<exists>s. c = tiny_context s \<and> well_formed s)"
  by (auto simp: bound_context_def tiny_env_def Let_def split: if_splits)

lemma tiny_world: "world_ok tiny_env"
proof -
  have keep: "getSearchFromContext c' = getSearchFromContext c"
    if c: "bound_context tiny_env c" and u: "update_url tiny_env (c_href c) a v = Some c'" for c a v c'
    using tiny_bound [OF c]
  proof
    assume "c = empty_context"
    then show ?thesis using u by (simp add: tiny_env_def empty_context_def)
  next
    assume "\<exists>s. c = tiny_context s \<and> well_formed s"
    then obtain s where s: "c = tiny_context s" "well_formed s" by blast
    then have "c_href c = js ''a:/b'' @ s" by (simp add: tiny_context_def)
    then have "c' = tiny_context s" using u s(2) by (simp add: tiny_env_def)
    then show ?thesis by (simp add: s(1))
  qed
  have "well_formed (getSearchFromContext c)" if "bound_context tiny_env c" for c
    using tiny_bound [OF that] by (auto simp: empty_search tiny_search)
  moreover have "getSearchFromContext (update_search tiny_env h s) = s" if "form_search s" for h s
    using that form_search_well_formed [OF that] by (auto simp: tiny_env_def tiny_search form_search_def Suc_le_eq)
  ultimately have "binding_ok tiny_env" using keep unfolding binding_ok_def by blast
  then show ?thesis using seven_bit_ok by (simp add: world_ok_def tiny_env_def)
qed

definition tiny_url :: url where
  "tiny_url = \<lparr>url_ctx = tiny_context [], url_params = None, searchParamsModified = False\<rparr>"

definition tiny_written :: url where
  "tiny_written = \<lparr>url_ctx = tiny_context [], url_params = Some [js ''a'', js ''b c''], searchParamsModified = True\<rparr>"

lemma tiny_reach: "url_reach tiny_env tiny_url"
proof (rule url_reach.make)
  have "parse_url tiny_env s b = Some (tiny_context [])" for s b by (simp add: tiny_env_def)
  then show "url_new tiny_env [JStr (js ''a:/b'')] NoSymbol = Inr tiny_url"
    by (simp add: url_new_def template_string_def binding_href_def update_context_quiet tiny_url_def)
qed

lemma tiny_append:
  "on_params tiny_env (\<lambda>p. params_append (tell_url tiny_env) (ue_params tiny_env) (Some p) [JStr (js ''a''), JStr (js ''b c'')])
     tiny_url = Inr tiny_written"
proof -
  have "\<not> hasSearch (tiny_context [])" by (simp add: hasSearch_def tiny_context_def)
  then show ?thesis
    by (simp add: on_params_def url_searchParams_def tiny_url_def tiny_search new_params_def usv_string_def
        template_string_def params_append_def this_params_def touch_def tell_url_def setURLSearchParamsModified_def
        tiny_written_def)
qed

lemma tiny_args: "list_all val_ok [JStr (js ''a''), JStr (js ''b c'')]"
  by (simp add: val_ok_def is_jsstring_def)

theorem url_params_in_sync_witness:
  "\<exists>u'. url_href tiny_env tiny_written = Inr (c_href (url_ctx u'), u') \<and>
        url_params u' = Some [js ''a'', js ''b c''] \<and>
        parseParams (ue_params tiny_env) (getSearchFromContext (url_ctx u')) = [js ''a'', js ''b c'']"
proof -
  have "url_reach tiny_env tiny_written" by (rule url_reach.append [OF tiny_reach tiny_args tiny_append])
  from url_params_in_sync [OF tiny_world this] show ?thesis by (auto simp: tiny_written_def)
qed

lemma url_params_written_witness:
  "\<exists>body u''. getSearchFromParams tiny_written = Inr body \<and> url_search tiny_env tiny_written = Inr (body, u'')"
  by (rule url_params_written [OF tiny_world tiny_reach tiny_args insertI1 tiny_append])

subsection \<open>The parts of an href\<close>

text \<open>The offsets as the parser documents them: in order, within the href, \<open>omitted\<close> past any href.\<close>

definition layout_ok :: "url_context \<Rightarrow> bool" where
  "layout_ok c \<longleftrightarrow>
     protocol_end c \<le> username_end c \<and> username_end c \<le> host_start c \<and> host_start c \<le> host_end c \<and>
     host_end c \<le> pathname_start c \<and> pathname_start c \<le> length (c_href c) \<and>
     (hasSearch c \<longrightarrow> pathname_start c \<le> search_start c \<and> search_start c < length (c_href c)) \<and>
     (hasHash c \<longrightarrow> pathname_start c \<le> hash_start c \<and> hash_start c < length (c_href c)) \<and>
     (hasSearch c \<and> hasHash c \<longrightarrow> search_start c < hash_start c)"

text \<open>
  From the path on an href is its pathname, its search and its hash; a lone question mark or number sign
  reads as no search or no hash.
\<close>

lemma href_tail:
  assumes "layout_ok c"
  shows "\<exists>q h. drop (pathname_start c) (c_href c) = url_pathname c @ q @ h \<and>
     getSearchFromContext c = (if length q \<le> 1 then [] else q) \<and> url_hash c = (if length h \<le> 1 then [] else h)"
proof -
  let ?n = "length (c_href c)" and ?p = "pathname_start c" and ?s = "search_start c" and ?h = "hash_start c"
  have cut: "drop a (c_href c) = take (b - a) (drop a (c_href c)) @ drop b (c_href c)" if "a \<le> b" for a b
    using append_take_drop_id [of "b - a" "drop a (c_href c)"] that by (simp add: add.commute)
  have sl: "slice (c_href c) (int a) (int b) = take (b - a) (drop a (c_href c))" if "a \<le> b" "b \<le> ?n" for a b
    using that by (simp add: slice_nonneg)
  have sf: "slice_from (c_href c) (int a) = drop a (c_href c)" if "a \<le> ?n" for a
    using that by (simp add: slice_from_nonneg)
  consider "hasSearch c" "hasHash c" | "hasSearch c" "\<not> hasHash c" | "\<not> hasSearch c" "hasHash c"
    | "\<not> hasSearch c" "\<not> hasHash c" by blast
  then show ?thesis
  proof cases
    case 1
    then have o: "?p \<le> ?s" "?s < ?h" "?h < ?n" using assms by (simp_all add: layout_ok_def)
    show ?thesis
      by (rule exI [of _ "take (?h - ?s) (drop ?s (c_href c))"], rule exI [of _ "drop ?h (c_href c)"])
         (use 1 o cut [of ?p ?s] cut [of ?s ?h] sl [of ?p ?s] sl [of ?s ?h] sf [of ?h] in
           \<open>auto simp: url_pathname_def getSearchFromContext_def url_hash_def Let_def\<close>)
  next
    case 2
    then have o: "?p \<le> ?s" "?s < ?n" using assms by (simp_all add: layout_ok_def)
    show ?thesis
      by (rule exI [of _ "drop ?s (c_href c)"], rule exI [of _ "[]"])
         (use 2 o cut [of ?p ?s] sl [of ?p ?s] sl [of ?s ?n] in
           \<open>auto simp: url_pathname_def getSearchFromContext_def url_hash_def Let_def\<close>)
  next
    case 3
    then have o: "?p \<le> ?h" "?h < ?n" using assms by (simp_all add: layout_ok_def)
    show ?thesis
      by (rule exI [of _ "[]"], rule exI [of _ "drop ?h (c_href c)"])
         (use 3 o cut [of ?p ?h] sl [of ?p ?h] sf [of ?h] in
           \<open>auto simp: url_pathname_def getSearchFromContext_def url_hash_def Let_def\<close>)
  next
    case 4
    then show ?thesis
      by (intro exI [of _ "[]"]) (use assms sf [of ?p] in
           \<open>simp add: url_pathname_def getSearchFromContext_def url_hash_def layout_ok_def\<close>)
  qed
qed

end
