(* ===== verification/UrlFiles.thy ===== *)
theory UrlFiles
  imports UrlProps PathWin32
begin

text \<open>
  File URLs: \<^verbatim>\<open>fileURLToPath\<close>, \<^verbatim>\<open>fileURLToPathBuffer\<close> and \<^verbatim>\<open>pathToFileURL\<close> of lib/internal/url.js, and
  \<^verbatim>\<open>percentDecode\<close> of lib/internal/data_url.js. The native \<^verbatim>\<open>domainToUnicode\<close> is a parameter.
\<close>

record file_env =
  fe_url :: url_env
  fe_win :: win_env
  domainToUnicode :: "jsstring \<Rightarrow> jsstring"

subsection \<open>Characters\<close>

definition codePointAt :: "jsstring \<Rightarrow> nat \<Rightarrow> nat option" where
  "codePointAt s i =
     (if i < length s then
        (if 0xD800 \<le> s ! i \<and> s ! i < 0xDC00 \<and> i + 1 < length s \<and> 0xDC00 \<le> s ! (i + 1) \<and> s ! (i + 1) < 0xE000
         then Some (0x10000 + (s ! i - 0xD800) * 1024 + (s ! (i + 1) - 0xDC00))
         else Some (s ! i))
      else None)"

text \<open>A point \<^verbatim>\<open>| 0x20\<close>; undefined counts as 0.\<close>

definition lower_bit :: "nat option \<Rightarrow> nat" where
  "lower_bit c = (case c of None \<Rightarrow> 0x20 | Some p \<Rightarrow> p OR 0x20)"

subsection \<open>The path of a file URL\<close>

text \<open>The loops that look for an encoded separator: \<open>tests\<close> are the digit and the lower-case letter after the sign.\<close>

function encoded_sep_loop :: "(nat \<times> nat) list \<Rightarrow> jsstring \<Rightarrow> nat \<Rightarrow> bool" where
  "encoded_sep_loop tests pathname n =
     (if n < length pathname then
        (if pathname ! n = 37 \<and>
            list_ex (\<lambda>(digit, letter). charCodeAt pathname (int n + 1) = Some digit \<and>
                       lower_bit (codePointAt pathname (n + 2)) = letter) tests
         then True
         else encoded_sep_loop tests pathname (n + 1))
      else False)"
  by pat_completeness auto
termination
  by (relation "measure (\<lambda>(_, pathname, n). length pathname - n)") auto

declare encoded_sep_loop.simps [simp del]

definition posix_tests :: "(nat \<times> nat) list" where
  "posix_tests = [(50, 102)]"

definition win_tests :: "(nat \<times> nat) list" where
  "win_tests = [(50, 102), (53, 99)]"

definition decode_path :: "jsstring \<Rightarrow> jsstring result" where
  "decode_path pathname = (if 37 \<in> set pathname then decode_or_throw pathname else Inr pathname)"

definition getPathFromURLPosix :: "url_context \<Rightarrow> jsstring result" where
  "getPathFromURLPosix c =
     (if url_hostname c \<noteq> [] then Inl ERR_INVALID_FILE_URL_HOST
      else if encoded_sep_loop posix_tests (url_pathname c) 0
      then Inl (ERR_INVALID_FILE_URL_PATH ''must not include encoded / characters'')
      else decode_path (url_pathname c))"

definition to_backslashes :: "jsstring \<Rightarrow> jsstring" where
  "to_backslashes s = map (\<lambda>c. if c = 47 then 92 else c) s"

definition getPathFromURLWin32 :: "file_env \<Rightarrow> url_context \<Rightarrow> jsstring result" where
  "getPathFromURLWin32 env c =
     (let hostname = url_hostname c; pathname = url_pathname c
      in if encoded_sep_loop win_tests pathname 0
         then Inl (ERR_INVALID_FILE_URL_PATH (''must not include encoded '' @ CHR 0x5C # '' or / characters''))
         else bind (decode_path (to_backslashes pathname)) (\<lambda>pathname.
           if hostname \<noteq> [] then Inr ([92, 92] @ domainToUnicode env hostname @ pathname)
           else
             (let letter = lower_bit (codePointAt pathname 1)
              in if letter < 97 \<or> letter > 122 \<or> charCodeAt pathname 2 \<noteq> Some 58
                 then Inl (ERR_INVALID_FILE_URL_PATH ''must be absolute'')
                 else Inr (slice_from pathname 1))))"

subsection \<open>The same as bytes\<close>

definition isHexCharByte :: "nat option \<Rightarrow> bool" where
  "isHexCharByte byte =
     (case byte of
        None \<Rightarrow> False
      | Some b \<Rightarrow> 0x30 \<le> b \<and> b \<le> 0x39 \<or> 0x41 \<le> b \<and> b \<le> 0x46 \<or> 0x61 \<le> b \<and> b \<le> 0x66)"

definition hexByteToNumber :: "nat \<Rightarrow> nat" where
  "hexByteToNumber byte = (if 0x30 \<le> byte \<and> byte \<le> 0x39 then byte - 48 else (byte AND 0xDF) - 55)"

function percent_loop :: "nat list \<Rightarrow> nat \<Rightarrow> nat list \<Rightarrow> nat list" where
  "percent_loop input i output =
     (if i < length input then
        (let byte = input ! i in
         if byte \<noteq> 0x25 then percent_loop input (i + 1) (output @ [byte])
         else if \<not> (isHexCharByte (charCodeAt input (int i + 1)) \<and> isHexCharByte (charCodeAt input (int i + 2)))
         then percent_loop input (i + 1) (output @ [0x25])
         else percent_loop input (i + 3)
                (output @ [(push_bit 4 (hexByteToNumber (input ! (i + 1))) OR hexByteToNumber (input ! (i + 2))) mod 256]))
      else output)"
  by pat_completeness auto
termination
  by (relation "measure (\<lambda>(input, i, _). length input - i)") auto

declare percent_loop.simps [simp del]

definition percentDecode :: "nat list \<Rightarrow> nat list" where
  "percentDecode input = percent_loop input 0 []"

text \<open>\<^verbatim>\<open>Buffer.from(s, 'utf8')\<close>: the UTF-8 bytes of the points of the string, lone surrogates replaced.\<close>

fun utf8_of :: "jsstring \<Rightarrow> nat list" where
  "utf8_of [] = []"
| "utf8_of (c # s) =
     (if 0xD800 \<le> c \<and> c < 0xDC00 then
        (case s of
           d # t \<Rightarrow>
             (if 0xDC00 \<le> d \<and> d < 0xE000
              then utf8 (0x10000 + (c - 0xD800) * 1024 + (d - 0xDC00)) @ utf8_of t
              else utf8 0xFFFD @ utf8_of s)
         | [] \<Rightarrow> utf8 0xFFFD)
      else if 0xDC00 \<le> c \<and> c < 0xE000 then utf8 0xFFFD @ utf8_of s
      else utf8 c @ utf8_of s)"

definition getPathBufferFromURLPosix :: "url_context \<Rightarrow> nat list result" where
  "getPathBufferFromURLPosix c =
     (if url_hostname c \<noteq> [] then Inl ERR_INVALID_FILE_URL_HOST
      else Inr (percentDecode (utf8_of (url_pathname c))))"

definition getPathBufferFromURLWin32 :: "file_env \<Rightarrow> url_context \<Rightarrow> nat list result" where
  "getPathBufferFromURLWin32 env c =
     (let hostname = url_hostname c;
          decoded = percentDecode (utf8_of (to_backslashes (url_pathname c)))
      in if hostname \<noteq> [] then Inr ([92, 92] @ utf8_of (domainToUnicode env hostname) @ decoded)
         else
           (let letter = lower_bit (charCodeAt decoded 1)
            in if letter < 97 \<or> letter > 122 \<or> charCodeAt decoded 2 \<noteq> Some 58
               then Inl (ERR_INVALID_FILE_URL_PATH ''must be absolute'')
               else Inr (drop 1 decoded)))"

subsection \<open>The entry points\<close>

text \<open>The argument: a string, a URL object, or something that is neither. \<open>windows\<close> is the option, if given.\<close>

datatype file_arg = FilePath jsstring | FileURL url | NoURL

definition isURL :: "url \<Rightarrow> bool" where
  "isURL u \<longleftrightarrow> c_href (url_ctx u) \<noteq> [] \<and> url_protocol (url_ctx u) \<noteq> []"

definition file_url_arg :: "file_env \<Rightarrow> file_arg \<Rightarrow> url_context result" where
  "file_url_arg env path =
     bind (case path of
             FilePath s \<Rightarrow> url_new (fe_url env) [JStr s] NoSymbol
           | FileURL u \<Rightarrow>
               bind (ensure_params_updated (fe_url env) u) (\<lambda>u.
                 if isURL u then Inr u else Inl (ERR_INVALID_ARG_TYPE ''path'' ''string or URL''))
           | NoURL \<Rightarrow> Inl (ERR_INVALID_ARG_TYPE ''path'' ''string or URL''))
       (\<lambda>u. if url_protocol (url_ctx u) \<noteq> js ''file:'' then Inl (ERR_INVALID_URL_SCHEME ''file'')
            else Inr (url_ctx u))"

definition on_windows :: "file_env \<Rightarrow> bool option \<Rightarrow> bool" where
  "on_windows env windows = (case windows of None \<Rightarrow> isWindows (fe_win env) | Some b \<Rightarrow> b)"

definition fileURLToPath :: "file_env \<Rightarrow> file_arg \<Rightarrow> bool option \<Rightarrow> jsstring result" where
  "fileURLToPath env path windows =
     bind (file_url_arg env path) (\<lambda>c.
       if on_windows env windows then getPathFromURLWin32 env c else getPathFromURLPosix c)"

definition fileURLToPathBuffer :: "file_env \<Rightarrow> file_arg \<Rightarrow> bool option \<Rightarrow> nat list result" where
  "fileURLToPathBuffer env path windows =
     bind (file_url_arg env path) (\<lambda>c.
       if on_windows env windows then getPathBufferFromURLWin32 env c else getPathBufferFromURLPosix c)"

definition toPathIfFileURL :: "file_env \<Rightarrow> url \<Rightarrow> jsstring result" where
  "toPathIfFileURL env u = fileURLToPath env (FileURL u) None"

text \<open>
  What \<^verbatim>\<open>pathToFileURL\<close> gives to the constructor: the path, the host name of a UNC path, and the symbol.
  \<^verbatim>\<open>path.sep\<close> is the separator of the host, whatever the option says.
\<close>

definition starts_with :: "jsstring \<Rightarrow> jsstring \<Rightarrow> bool" where
  "starts_with s p \<longleftrightarrow> take (length p) s = p"

definition unc_parts :: "jsstring \<Rightarrow> (jsstring \<times> jsstring) result" where
  "unc_parts resolved =
     (let prefixLength = (if starts_with resolved [92, 92, 63, 92, 85, 78, 67, 92] then 8 else 2);
          hostnameEndIndex = indexOf_from resolved 92 prefixLength
      in if hostnameEndIndex = -1 then Inl (ERR_INVALID_ARG_VALUE ''path'' ''Missing UNC resource path'')
         else if hostnameEndIndex = 2 then Inl (ERR_INVALID_ARG_VALUE ''path'' ''Empty UNC servername'')
         else Inr (slice_from resolved hostnameEndIndex, slice resolved (int prefixLength) hostnameEndIndex))"

definition path_sep :: "file_env \<Rightarrow> nat" where
  "path_sep env = (if isWindows (fe_win env) then 92 else 47)"

definition pathToFileURL_args ::
    "file_env \<Rightarrow> jsstring \<Rightarrow> bool option \<Rightarrow> (jsstring \<times> jsstring option \<times> parse_symbol) result" where
  "pathToFileURL_args env filepath windows =
     (let windows = on_windows env windows;
          isUNC = windows \<and> starts_with filepath [92, 92]
      in bind (if isUNC then Inr filepath
               else if windows then win_resolve (fe_win env) [JStr filepath]
               else posix_resolve (posixCwd (isWindows (fe_win env)) (processCwd (fe_win env))) [JStr filepath])
           (\<lambda>resolved.
             if isUNC \<or> windows \<and> starts_with resolved [92, 92] then
               bind (unc_parts resolved) (\<lambda>(path, hostname). Inr (path, Some hostname, KCreateFromWindowsPath))
             else
               (let filePathLast = charCodeAt filepath (int (length filepath) - 1);
                    slash = (filePathLast = Some 47 \<or> windows \<and> filePathLast = Some 92) \<and>
                            charCodeAt resolved (int (length resolved) - 1) \<noteq> Some (path_sep env);
                    resolved = (if slash then resolved @ [47] else resolved)
                in Inr (resolved, None, if windows then KCreateFromWindowsPath else KCreateFromPosixPath))))"

definition pathToFileURL :: "file_env \<Rightarrow> jsstring \<Rightarrow> bool option \<Rightarrow> url result" where
  "pathToFileURL env filepath windows =
     bind (pathToFileURL_args env filepath windows) (\<lambda>(path, hostname, symb).
       url_new (fe_url env) [JStr path, case hostname of None \<Rightarrow> Undefined | Some h \<Rightarrow> JStr h] symb)"

subsection \<open>Decoding piece by piece\<close>

lemma no_hex: "\<not> isHexTable c \<Longrightarrow> unhexTable c = None"
  by (auto simp: unhexTable_def isHexTable_def)

lemma cont_bytes_stop:
  "c \<noteq> 37 \<Longrightarrow> cont_bytes (Suc n) (c # b) = None"
  "\<not> isHexTable c \<Longrightarrow> cont_bytes (Suc n) (v # c # b) = None"
proof -
  show "c \<noteq> 37 \<Longrightarrow> cont_bytes (Suc n) (c # b) = None"
    by (cases b; cases "tl b") (simp_all split: bool.split option.split)
  show "\<not> isHexTable c \<Longrightarrow> cont_bytes (Suc n) (v # c # b) = None"
    by (cases b) (simp_all add: no_hex split: bool.split option.split)
qed

lemma cont_bytes_split:
  assumes "\<not> isHexTable c" "c \<noteq> 37"
  shows "cont_bytes n (a @ c # b) = map_option (\<lambda>(bs, t). (bs, t @ c # b)) (cont_bytes n a)"
  using assms
proof (induction n a rule: cont_bytes.induct)
  case (2 n d h l s)
  then show ?case by (auto split: option.split bool.split simp: option.map_comp intro!: option.map_cong)
qed (auto simp: cont_bytes_stop no_hex split: bool.split option.split)

lemma cont_bytes_suffix: "cont_bytes n s = Some (bs, t) \<Longrightarrow> \<exists>e. s = e @ t"
proof (induction n arbitrary: s bs)
  case (Suc n)
  then obtain c h l s' bs' where "s = c # h # l # s'" "cont_bytes n s' = Some (bs', t)"
    by (cases "(Suc n, s)" rule: cont_bytes.cases) (auto split: option.splits bool.splits if_splits)
  with Suc.IH [of s' bs'] show ?case by (metis append_Cons)
qed simp

definition both :: "jsstring option \<Rightarrow> nat \<Rightarrow> jsstring option \<Rightarrow> jsstring option" where
  "both x c y = (case (x, y) of (Some x, Some y) \<Rightarrow> Some (x @ c # y) | _ \<Rightarrow> None)"

lemma both_simps [simp]:
  "both None c y = None" "both x c None = None" "both (Some x') c (Some y') = Some (x' @ c # y')"
  "both (map_option ((#) d) x) c y = map_option ((#) d) (both x c y)"
  "both (map_option ((@) s) x) c y = map_option ((@) s) (both x c y)"
  by (cases x; cases y; simp add: both_def)+

lemma decode_split:
  assumes "\<not> isHexTable c" "c \<noteq> 37"
  shows "decodeURIComponent (a @ c # b) = both (decodeURIComponent a) c (decodeURIComponent b)"
proof (induction "length a" arbitrary: a rule: less_induct)
  case less
  note nh = no_hex [OF assms(1)]
  show ?case
  proof (cases a)
    case Nil
    have "map_option ((#) c) y = both (Some []) c y" for y by (cases y) simp_all
    then show ?thesis using assms(2) by (simp add: Nil decode_plain)
  next
    case (Cons d a')
    show ?thesis
    proof (cases "d = 37")
      case False
      then show ?thesis using less [of a'] by (simp add: Cons decode_plain)
    next
      case True
      consider "a' = []" | h where "a' = [h]" | h l t where "a' = h # l # t"
        by (metis list.exhaust)
      then show ?thesis
      proof cases
        case 1
        then show ?thesis by (auto simp: Cons True decodeURIComponent.simps(2) nh split: list.split)
      next
        case (2 h)
        then show ?thesis by (auto simp: Cons True decodeURIComponent.simps(2) nh split: list.split option.split)
      next
        case (3 h l t)
        have IH: "decodeURIComponent (t' @ c # b) = both (decodeURIComponent t') c (decodeURIComponent b)"
          if "length t' \<le> length t" for t'
          by (rule less) (use that 3 Cons in simp)
        show ?thesis
        proof (cases "unhexTable h"; cases "unhexTable l")
          fix x y
          assume xy: "unhexTable h = Some x" "unhexTable l = Some y"
          define B where "B = 16 * x + y"
          define n :: nat where "n = (if B < 0xE0 then 1 else if B < 0xF0 then 2 else 3)"
          have run: "decodeURIComponent (37 # h # l # u) =
              (if B < 0x80 then map_option ((#) B) (decodeURIComponent u)
               else if B < 0xC0 \<or> 0xF8 \<le> B then None
               else case cont_bytes n u of
                 None \<Rightarrow> None
               | Some (bs, u') \<Rightarrow>
                   (case utf8_point B bs of
                      None \<Rightarrow> None
                    | Some p \<Rightarrow> map_option ((@) (utf16 p)) (decodeURIComponent u')))" for u
            unfolding n_def by (simp add: decodeURIComponent.simps(2) xy Let_def flip: B_def)
          show ?thesis
            using IH [of t] IH cont_bytes_shorter [of n t] cont_bytes_split [OF assms, of n t b]
            by (auto simp: Cons True 3 run split: option.split)
        qed (simp_all add: Cons True 3 decodeURIComponent.simps(2))
      qed
    qed
  qed
qed

subsection \<open>Separators\<close>

text \<open>A unit of the answer is a unit of the text, or an encoded ASCII character, or not ASCII.\<close>

lemma decode_units:
  "decodeURIComponent s = Some r \<Longrightarrow> x \<in> set r \<Longrightarrow> x < 0x80 \<Longrightarrow>
   x \<in> set s \<or> (\<exists>pre h l post a b. s = pre @ 37 # h # l # post \<and> unhexTable h = Some a \<and> unhexTable l = Some b \<and>
                  x = 16 * a + b)"
proof (induction "length s" arbitrary: s r rule: less_induct)
  case less
  have IH: "\<exists>pre h l post a b. e @ t = pre @ 37 # h # l # post \<and> unhexTable h = Some a \<and> unhexTable l = Some b \<and>
      x = 16 * a + b" if "s = e @ t" "e \<noteq> []" "decodeURIComponent t = Some q" "x \<in> set q" "x \<notin> set s" for e t q
  proof -
    have "\<exists>pre h l post a b. t = pre @ 37 # h # l # post \<and> unhexTable h = Some a \<and> unhexTable l = Some b \<and>
        x = 16 * a + b"
      using less.hyps [of t q] less.prems(3) that by auto
    then show ?thesis by (metis append.assoc)
  qed
  show ?case
  proof (cases s)
    case Nil
    then show ?thesis using less.prems by simp
  next
    case (Cons c s')
    show ?thesis
    proof (cases "c = 37")
      case False
      then obtain q where "r = c # q" "decodeURIComponent s' = Some q"
        using less.prems(1) by (auto simp: Cons decode_plain)
      then show ?thesis using IH [of "[c]" s' q] less.prems(2) Cons by auto
    next
      case True
      obtain h l t a b where t: "s' = h # l # t" "unhexTable h = Some a" "unhexTable l = Some b"
        using less.prems(1) by (auto simp: Cons True decodeURIComponent.simps(2) split: list.splits option.splits)
      define B where "B = 16 * a + b"
      show ?thesis
      proof (cases "B < 0x80")
        case small: True
        then obtain q where q: "r = B # q" "decodeURIComponent t = Some q"
          using less.prems(1) by (auto simp: Cons True t B_def decodeURIComponent.simps(2))
        show ?thesis
        proof (cases "x = B")
          case True
          then have "s = [] @ 37 # h # l # t" using Cons t \<open>c = 37\<close> by simp
          then show ?thesis using t(2,3) True unfolding B_def by blast
        next
          case False
          then show ?thesis using IH [of "[c, h, l]" t q] q less.prems(2) Cons t by auto
        qed
      next
        case False
        define n :: nat where "n = (if B < 0xE0 then 1 else if B < 0xF0 then 2 else 3)"
        from False obtain bs t' p q where d: "cont_bytes n t = Some (bs, t')" "utf8_point B bs = Some p"
            "decodeURIComponent t' = Some q" "r = utf16 p @ q"
          using less.prems(1) unfolding n_def
          by (auto simp: Cons True t Let_def decodeURIComponent.simps(2) simp flip: B_def split: if_split_asm option.split_asm)
        have "0x80 \<le> p"
          using d(2) by (auto simp: utf8_point_def Let_def split: if_splits list.splits)
        then have "x \<notin> set (utf16 p)" using less.prems(3) by (auto simp: utf16_def)
        then have "x \<in> set q" using less.prems(2) d(4) by simp
        moreover obtain e where "t = e @ t'" using cont_bytes_suffix [OF d(1)] by blast
        ultimately show ?thesis using IH [of "[c, h, l] @ e" t' q] d(3) Cons t by auto
      qed
    qed
  qed
qed

definition encodes :: "(nat \<Rightarrow> bool) \<Rightarrow> jsstring \<Rightarrow> bool" where
  "encodes P s \<longleftrightarrow>
     (\<exists>pre h l post a b. s = pre @ 37 # h # l # post \<and> unhexTable h = Some a \<and> unhexTable l = Some b \<and> P (16 * a + b))"

lemma encodes_part: "encodes P t \<Longrightarrow> encodes P (s @ t @ u)"
  unfolding encodes_def by (metis append.assoc append_Cons)

lemma decode_keeps_out:
  assumes "\<And>c. P c \<Longrightarrow> c < 0x80" "decodeURIComponent s = Some r" "\<not> encodes P s" "\<forall>x \<in> set s. \<not> P x"
  shows "\<forall>x \<in> set r. \<not> P x"
proof
  fix x
  assume "x \<in> set r"
  then show "\<not> P x"
    using decode_units [OF assms(2), of x] assms(1,3,4) unfolding encodes_def by metis
qed

lemma decode_split_on:
  assumes P: "\<And>c. P c \<Longrightarrow> c < 0x80 \<and> \<not> isHexTable c \<and> c \<noteq> 37"
  shows "decodeURIComponent s = Some r \<Longrightarrow> \<not> encodes P s \<Longrightarrow>
    map Some (split_on P r) = map decodeURIComponent (split_on P s)"
proof (induction "length s" arbitrary: s r rule: less_induct)
  case less
  have out: "split_on P q = [q]" if "\<forall>x \<in> set t. \<not> P x" "decodeURIComponent t = Some q" "\<not> encodes P t" for t q
    by (rule split_on_single) (rule decode_keeps_out [OF _ that(2,3,1)], use P in blast)
  show ?case
  proof (cases "\<exists>x \<in> set s. P x")
    case True
    then obtain a c b where s: "s = a @ c # b" "P c" "\<forall>x \<in> set a. \<not> P x"
      using split_list_first_prop [of s P] by blast
    then have "\<not> isHexTable c" "c \<noteq> 37" using P by blast+
    then obtain x y where xy: "decodeURIComponent a = Some x" "decodeURIComponent b = Some y" "r = x @ c # y"
      using less.prems(1) by (auto simp: s(1) decode_split both_def split: option.splits)
    have "\<not> encodes P a" "\<not> encodes P b"
      using less.prems(2) encodes_part [of P a "[]" "c # b"] encodes_part [of P b "a @ [c]" "[]"] by (auto simp: s(1))
    then show ?thesis
      using less.hyps [of b y] out [OF s(3) xy(1)] xy s
      by (simp add: split_on_append_sep split_on_single)
  next
    case False
    then show ?thesis using less.prems out [of s r] by (simp add: split_on_single)
  qed
qed

lemma encoded_sep_loop_iff:
  "encoded_sep_loop tests s n \<longleftrightarrow>
     (\<exists>i \<ge> n. i < length s \<and> s ! i = 37 \<and>
        list_ex (\<lambda>(digit, letter). charCodeAt s (int i + 1) = Some digit \<and> lower_bit (codePointAt s (i + 2)) = letter) tests)"
proof (induction tests s n rule: encoded_sep_loop.induct)
  case (1 tests s n)
  have split: "(\<exists>i \<ge> n. P i) \<longleftrightarrow> P n \<or> (\<exists>i \<ge> n + 1. P i)" for P
    by (metis Suc_eq_plus1 Suc_leD le_antisym not_less_eq_eq order_refl)
  show ?case
    using 1 by (subst encoded_sep_loop.simps, subst split) (auto split: if_splits)
qed

lemma unhex_values:
  "unhexTable c = Some n \<Longrightarrow>
   c = 48 + n \<and> n < 10 \<or> c = 55 + n \<and> 10 \<le> n \<and> n < 16 \<or> c = 87 + n \<and> 10 \<le> n \<and> n < 16"
  by (auto simp: unhexTable_def split: if_splits)

lemma encodes_found:
  assumes "s = pre @ 37 # h # l # post" "l < 0xD800" "(h, l OR 0x20) \<in> set tests"
  shows "encoded_sep_loop tests s 0"
proof -
  have "length pre < length s" "s ! length pre = 37" "charCodeAt s (int (length pre) + 1) = Some h"
      "codePointAt s (length pre + 2) = Some l"
    using assms(1,2) by (simp_all add: nth_append charCodeAt_def codePointAt_def nat_add_distrib)
  then show ?thesis
    using assms(3) by (force simp: encoded_sep_loop_iff list_ex_iff lower_bit_def)
qed

lemma encoded_digits:
  assumes "unhexTable h = Some a" "unhexTable l = Some b"
  shows "16 * a + b = 47 \<Longrightarrow> h = 50 \<and> l OR 0x20 = 102" "16 * a + b = 92 \<Longrightarrow> h = 53 \<and> l OR 0x20 = 99"
proof -
  have b: "b < 16" using unhex_values [OF assms(2)] by auto
  show "h = 50 \<and> l OR 0x20 = 102" if "16 * a + b = 47"
  proof -
    have "a = 2" using that b by linarith
    moreover from this have "b = 15" using that by simp
    ultimately show ?thesis using unhex_values [OF assms(1)] unhex_values [OF assms(2)] by auto
  qed
  show "h = 53 \<and> l OR 0x20 = 99" if "16 * a + b = 92"
  proof -
    have "a = 5" using that b by linarith
    moreover from this have "b = 12" using that by simp
    ultimately show ?thesis using unhex_values [OF assms(1)] unhex_values [OF assms(2)] by auto
  qed
qed

lemma posix_not_encoded: "\<not> encoded_sep_loop posix_tests s 0 \<Longrightarrow> \<not> encodes (\<lambda>c. c = 47) s"
  using encodes_found [of s _ _ _ _ posix_tests] encoded_digits(1) hex_ascii
  unfolding encodes_def posix_tests_def by fastforce

lemma win_not_encoded: "\<not> encoded_sep_loop win_tests s 0 \<Longrightarrow> \<not> encodes (\<lambda>c. c = 47 \<or> c = 92) s"
  using encodes_found [of s _ _ _ _ win_tests] encoded_digits hex_ascii
  unfolding encodes_def win_tests_def by fastforce

lemma decode_path_Some: "decode_path s = Inr r \<Longrightarrow> decodeURIComponent s = Some r"
  using decode_no_percent [of s] by (auto simp: decode_path_def decode_or_throw_def split: if_splits option.splits)

text \<open>
  C36: the path that \<^verbatim>\<open>fileURLToPath\<close> makes of a file URL has the directories and names of the URL: split
  at its slashes it is the pathname split at its slashes, each piece decoded. No encoded character of
  the URL becomes a separator.
\<close>

theorem posix_file_path_segments:
  assumes "getPathFromURLPosix c = Inr path"
  shows "map Some (split_on (\<lambda>c. c = 47) path) = map decodeURIComponent (split_on (\<lambda>c. c = 47) (url_pathname c))"
proof (rule decode_split_on)
  show "decodeURIComponent (url_pathname c) = Some path" "\<not> encodes (\<lambda>c. c = 47) (url_pathname c)"
    using assms by (auto simp: getPathFromURLPosix_def decode_path_Some posix_not_encoded split: if_splits)
qed (simp add: isHexTable_def)

definition file_context :: url_context where
  "file_context =
     \<lparr>c_href = js ''file:///a%20b/c'', protocol_end = 5, username_end = 7, host_start = 7, host_end = 7,
      pathname_start = 7, search_start = omitted, hash_start = omitted, c_port = omitted, scheme_type = 6\<rparr>"

theorem posix_file_path_segments_witness:
  "getPathFromURLPosix file_context = Inr (js ''/a b/c'') \<and>
   map Some (split_on (\<lambda>c. c = 47) (js ''/a b/c'')) =
     map decodeURIComponent (split_on (\<lambda>c. c = 47) (url_pathname file_context))"
proof -
  have "\<not> encoded_sep_loop posix_tests (js ''/a%20b/c'') 0"
    by (simp add: encoded_sep_loop.simps posix_tests_def charCodeAt_def codePointAt_def lower_bit_def)
  moreover have "decode_path (js ''/a%20b/c'') = Inr (js ''/a b/c'')" by code_simp
  moreover have "url_pathname file_context = js ''/a%20b/c''" "url_hostname file_context = []"
    by (simp_all add: file_context_def url_pathname_def url_hostname_def host_begin_def hasSearch_def hasHash_def
        slice_from_def slice_def slice_pos_def charCodeAt_def)
  ultimately have "getPathFromURLPosix file_context = Inr (js ''/a b/c'')"
    by (simp only: getPathFromURLPosix_def) simp
  with posix_file_path_segments [OF this] show ?thesis by blast
qed

lemma encodes_backslashes: "encodes (\<lambda>c. c = 92) (to_backslashes s) \<Longrightarrow> encodes (\<lambda>c. c = 47 \<or> c = 92) s"
proof -
  assume "encodes (\<lambda>c. c = 92) (to_backslashes s)"
  then obtain pre h l post a b where e: "to_backslashes s = pre @ 37 # h # l # post" "unhexTable h = Some a"
      "unhexTable l = Some b" "16 * a + b = 92"
    unfolding encodes_def by blast
  then obtain pre' x y z post' where s: "s = pre' @ x # y # z # post'" "(if x = 47 then 92 else x) = 37"
      "(if y = 47 then 92 else y) = h" "(if z = 47 then 92 else z) = l"
    unfolding to_backslashes_def by (auto simp: map_eq_append_conv map_eq_Cons_conv)
  have "h \<noteq> 92" "l \<noteq> 92" using e(2,3) by (auto simp: unhexTable_def)
  then have "x = 37" "y = h" "z = l" using s(2-4) by (auto split: if_splits)
  then show ?thesis using e(2-4) s(1) unfolding encodes_def by blast
qed

lemma split_backslashes:
  "split_on (\<lambda>c. c = 92) (to_backslashes s) = split_on (\<lambda>c. c = 47 \<or> c = 92) s"
  by (induction s) (auto simp: to_backslashes_def split: list.split)

text \<open>The same on Windows, where both slashes separate; the slash before the drive letter is dropped.\<close>

lemma win_file_path_segments:
  assumes "getPathFromURLWin32 env c = Inr path" "url_hostname c = []"
  shows "\<exists>whole. path = slice_from whole 1 \<and>
     map Some (split_on (\<lambda>c. c = 92) whole) =
       map decodeURIComponent (split_on (\<lambda>c. c = 47 \<or> c = 92) (url_pathname c))"
proof -
  obtain whole where w: "decode_path (to_backslashes (url_pathname c)) = Inr whole" "path = slice_from whole 1"
      "\<not> encoded_sep_loop win_tests (url_pathname c) 0"
    using assms by (auto simp: getPathFromURLWin32_def Let_def bind_eq_Inr split: if_splits)
  have "map Some (split_on (\<lambda>c. c = 92) whole) =
      map decodeURIComponent (split_on (\<lambda>c. c = 92) (to_backslashes (url_pathname c)))"
    by (rule decode_split_on [OF _ decode_path_Some [OF w(1)]])
       (use encodes_backslashes win_not_encoded [OF w(3)] in \<open>auto simp: isHexTable_def\<close>)
  then show ?thesis using w(2) by (auto simp: split_backslashes)
qed

text \<open>
  The slash that \<^verbatim>\<open>resolve\<close> strips is added back unless the path ends with the separator of the host: for
  a Windows path on another host the root of a drive keeps its backslash and gets a slash too.
\<close>

definition posix_win :: win_env where
  "posix_win =
     \<lparr>toLower = (\<lambda>s. s), toUpper = (\<lambda>s. s), processCwd = Inr (js ''/''), driveCwd = (\<lambda>d. None), isWindows = False\<rparr>"

definition posix_host :: "file_env" where
  "posix_host = \<lparr>fe_url = tiny_env, fe_win = posix_win, domainToUnicode = (\<lambda>s. s)\<rparr>"

lemma windows_root_elsewhere:
  "pathToFileURL_args posix_host [67, 58, 92] (Some True) = Inr ([67, 58, 92, 47], None, KCreateFromWindowsPath)"
proof -
  have "win_resolve posix_win [JStr [67, 58, 92]] = Inr [67, 58, 92]" by code_simp
  then show ?thesis
    by (simp add: pathToFileURL_args_def posix_host_def on_windows_def starts_with_def charCodeAt_def path_sep_def)
       (simp add: posix_win_def)
qed

text \<open>An extended UNC path with no server name is accepted: only position 2 counts as an empty name.\<close>

lemma empty_unc_server:
  "pathToFileURL_args posix_host [92, 92, 63, 92, 85, 78, 67, 92, 92, 120] (Some True) =
     Inr ([92, 120], Some [], KCreateFromWindowsPath)"
proof -
  have "unc_parts [92, 92, 63, 92, 85, 78, 67, 92, 92, 120] = Inr ([92, 120], [])" by code_simp
  then show ?thesis by (simp add: pathToFileURL_args_def on_windows_def starts_with_def)
qed

end
