(* ===== verification/DataUrl.thy ===== *)
theory DataUrl
  imports MimeText UrlFiles
begin

text \<open>
  Data URLs: lib/internal/data_url.js, over the MIME types of lib/internal/mime.js and the
  percent decoder of \<open>UrlFiles\<close>. The record \<open>data_url\<close> holds what the getters of the URL
  answer; \<open>getters_of\<close> reads them from a URL of the class of \<open>UrlClass\<close>. \<^verbatim>\<open>TextEncoder\<close> is \<open>utf8_of\<close>; what the native
  \<^verbatim>\<open>Buffer.from(s, 'base64')\<close> answers is a parameter.
\<close>

record data_url =
  du_protocol :: jsstring
  du_href :: jsstring
  du_hash :: jsstring

definition getters_of :: "url_env \<Rightarrow> url \<Rightarrow> data_url result" where
  "getters_of env u =
     bind (url_href env u) (\<lambda>(href, u').
       Inr \<lparr>du_protocol = url_protocol (url_ctx u), du_href = href, du_hash = url_hash (url_ctx u')\<rparr>)"

datatype data_answer = Failure | DataStruct mime_type "nat list"

definition URLSerializer :: "data_url \<Rightarrow> bool \<Rightarrow> jsstring" where
  "URLSerializer url excludeFragment =
     (let href = du_href url
      in if \<not> excludeFragment then href
         else (let hashLength = length (du_hash url);
                   serialized = (if hashLength = 0 then href else slice href 0 (int (length href) - int hashLength))
               in if hashLength = 0 \<and> charCodeAt href (int (length href) - 1) = Some 35
                  then slice serialized 0 (-1) else serialized))"

text \<open>The sequence and the new position.\<close>

definition collectASequenceOfCodePointsFast :: "nat \<Rightarrow> jsstring \<Rightarrow> nat \<Rightarrow> jsstring \<times> nat" where
  "collectASequenceOfCodePointsFast char input start =
     (let idx = indexOf_from input char start
      in if idx = -1 then (slice_from input (int start), length input)
         else (slice input (int start) idx, nat idx))"

definition stringPercentDecode :: "jsstring \<Rightarrow> nat list" where
  "stringPercentDecode input = percentDecode (utf8_of input)"

subsection \<open>White space\<close>

definition isASCIIWhitespace :: "nat \<Rightarrow> bool" where
  "isASCIIWhitespace char \<longleftrightarrow> char = 13 \<or> char = 10 \<or> char = 9 \<or> char = 12 \<or> char = 32"

function lead_loop :: "(nat \<Rightarrow> bool) \<Rightarrow> jsstring \<Rightarrow> nat \<Rightarrow> nat" where
  "lead_loop predicate str lead =
     (if lead < length str \<and> predicate (str ! lead) then lead_loop predicate str (lead + 1) else lead)"
  by pat_completeness auto
termination
  by (relation "measure (\<lambda>(predicate, str, lead). length str - lead)") auto

function trail_loop :: "(nat \<Rightarrow> bool) \<Rightarrow> jsstring \<Rightarrow> int \<Rightarrow> int" where
  "trail_loop predicate str trail =
     (if 0 < trail \<and> predicate (str ! nat trail) then trail_loop predicate str (trail - 1) else trail)"
  by pat_completeness auto
termination
  by (relation "measure (\<lambda>(predicate, str, trail). nat trail)") auto

declare lead_loop.simps [simp del] trail_loop.simps [simp del]

definition removeChars :: "jsstring \<Rightarrow> bool \<Rightarrow> bool \<Rightarrow> (nat \<Rightarrow> bool) \<Rightarrow> jsstring" where
  "removeChars str leading trailing predicate =
     (let lead = (if leading then lead_loop predicate str 0 else 0);
          trail = int (length str) - 1;
          trail = (if trailing then trail_loop predicate str trail else trail)
      in if lead = 0 \<and> trail = int (length str) - 1 then str else slice str (int lead) (trail + 1))"

definition removeASCIIWhitespace :: "jsstring \<Rightarrow> bool \<Rightarrow> bool \<Rightarrow> jsstring" where
  "removeASCIIWhitespace str leading trailing = removeChars str leading trailing isASCIIWhitespace"

subsection \<open>Base64\<close>

definition base64_unit :: "nat \<Rightarrow> bool" where
  "base64_unit c \<longleftrightarrow> c = 43 \<or> c = 47 \<or> 48 \<le> c \<and> c \<le> 57 \<or> 65 \<le> c \<and> c \<le> 90 \<or> 97 \<le> c \<and> c \<le> 122"

text \<open>\<open>None\<close> is \<^verbatim>\<open>'failure'\<close>.\<close>

definition forgivingBase64 :: "(jsstring \<Rightarrow> nat list) \<Rightarrow> jsstring \<Rightarrow> nat list option" where
  "forgivingBase64 from_base64 data =
     (let data = filter (\<lambda>c. \<not> isASCIIWhitespace c) data;
          dataLength = length data;
          dataLength =
            (if dataLength mod 4 = 0 \<and> charCodeAt data (int dataLength - 1) = Some 61
             then (if charCodeAt data (int (dataLength - 1) - 1) = Some 61 then dataLength - 1 - 1 else dataLength - 1)
             else dataLength)
      in if dataLength mod 4 = 1 then None
         else if search_class (\<lambda>c. \<not> base64_unit c)
                   (if length data = dataLength then data else slice data 0 (int dataLength)) \<noteq> -1 then None
         else Some (from_base64 data))"

text \<open>
  A byte becomes the unit with its value. From 65535 bytes on the code works in pieces; the last
  piece is shorter, and the loop ends after it, so \<^verbatim>\<open>addition\<close> is computed anew in each turn.
\<close>

function isomorphic_loop :: "nat list \<Rightarrow> nat \<Rightarrow> jsstring \<Rightarrow> jsstring" where
  "isomorphic_loop input i result =
     (if i < length input then
        (let addition = (if i + (push_bit 15 2 - 1) > length input then length input - i else push_bit 15 2 - 1)
         in isomorphic_loop input (i + addition) (result @ take addition (drop i input)))
      else result)"
  by pat_completeness auto
termination
  by (relation "measure (\<lambda>(input, i, result). length input - i)") auto

declare isomorphic_loop.simps [simp del]

definition isomorphicDecode :: "nat list \<Rightarrow> jsstring" where
  "isomorphicDecode input =
     (if push_bit 15 2 - 1 > length input then input else isomorphic_loop input 0 [])"

subsection \<open>The processor\<close>

text \<open>The test \<^verbatim>\<open>/;(\u0020){0,}base64$/i\<close>. Without the flag u only ASCII letters lose their case.\<close>

definition ends_base64 :: "jsstring \<Rightarrow> bool" where
  "ends_base64 s \<longleftrightarrow>
     (let n = length s - 6
      in 6 \<le> length s \<and> map lower_unit (drop n s) = js ''base64'' \<and>
         (case dropWhile (\<lambda>c. c = 32) (rev (take n s)) of [] \<Rightarrow> False | c # _ \<Rightarrow> c = 59))"

text \<open>From the percent-decoding of the body on: steps 10 to 15 of the comments.\<close>

definition data_struct :: "params_env \<Rightarrow> (jsstring \<Rightarrow> nat list) \<Rightarrow> jsstring \<Rightarrow> jsstring \<Rightarrow> data_answer result" where
  "data_struct env from_base64 mimeType encodedBody =
     (let body = stringPercentDecode encodedBody;
          is_base64 = ends_base64 mimeType
      in case (if is_base64 then forgivingBase64 from_base64 (isomorphicDecode body) else Some body) of
           None \<Rightarrow> Inr Failure
         | Some body \<Rightarrow>
             (let mimeType =
                    (if is_base64
                     then (let mimeType = slice mimeType 0 (-6);
                               mimeType = rev (dropWhile (\<lambda>c. c = 32) (rev mimeType))
                           in slice mimeType 0 (-1))
                     else mimeType);
                  mimeType = (if charCodeAt mimeType 0 = Some 59 then js ''text/plain'' @ mimeType else mimeType)
              in case mime_new env (JStr mimeType) of
                   Inr mimeTypeRecord \<Rightarrow> Inr (DataStruct mimeTypeRecord body)
                 | Inl _ \<Rightarrow>
                     bind (mime_new env (JStr (js ''text/plain;charset=US-ASCII'')))
                       (\<lambda>mimeTypeRecord. Inr (DataStruct mimeTypeRecord body))))"

definition dataURLProcessor :: "params_env \<Rightarrow> (jsstring \<Rightarrow> nat list) \<Rightarrow> data_url \<Rightarrow> data_answer result" where
  "dataURLProcessor env from_base64 dataURL =
     (if du_protocol dataURL \<noteq> js ''data:'' then Inl ERR_INTERNAL_ASSERTION
      else
        (let input = slice_from (URLSerializer dataURL True) 5;
             (mimeType, position) = collectASequenceOfCodePointsFast 44 input 0;
             mimeTypeLength = length mimeType;
             mimeType = removeASCIIWhitespace mimeType True True
         in if position \<ge> length input then Inr Failure
            else data_struct env from_base64 mimeType (slice_from input (int mimeTypeLength + 1))))"

end
