(* ===== verification/DataUrlProps.thy ===== *)
theory DataUrlProps
  imports DataUrl
begin

text \<open>
  What the data URL processor answers: the loops of its helpers against their specifications, then
  every URL with the scheme \<^verbatim>\<open>data:\<close>, and the URL made of a MIME type and bytes.
\<close>

subsection \<open>White space and pieces\<close>

definition strip :: "jsstring \<Rightarrow> jsstring" where
  "strip s = rev (dropWhile isASCIIWhitespace (rev (dropWhile isASCIIWhitespace s)))"

lemma lead_loop_count: "lead_loop p s i = i + length (takeWhile p (drop i s))"
proof (induction p s i rule: lead_loop.induct)
  case (1 p s i)
  show ?case
  proof (cases "i < length s")
    case True
    with 1 show ?thesis by (subst lead_loop.simps) (auto simp flip: Cons_nth_drop_Suc)
  qed (subst lead_loop.simps, simp)
qed

lemma trail_loop_count:
  "0 \<le> t \<Longrightarrow> t < int (length s) \<Longrightarrow>
     trail_loop p s t = max 0 (int (length (dropWhile p (rev (take (nat t + 1) s)))) - 1)"
proof (induction p s t rule: trail_loop.induct)
  case (1 p s t)
  have "nat t < length s" using 1(2,3) by linarith
  then have take: "rev (take (nat t + 1) s) = s ! nat t # rev (take (nat t) s)"
    by (simp add: take_Suc_conv_app_nth)
  show ?case
  proof (cases "0 < t \<and> p (s ! nat t)")
    case True
    then have "nat (t - 1) + 1 = nat t" by linarith
    with True 1 take show ?thesis by (subst trail_loop.simps) simp
  next
    case False
    show ?thesis
    proof (cases "t = 0")
      case True
      with take show ?thesis by (subst trail_loop.simps) simp
    next
      case t: False
      with False 1(2) have "\<not> p (s ! nat t)" "0 < t" by auto
      with take \<open>nat t < length s\<close> show ?thesis by (subst trail_loop.simps) simp
    qed
  qed
qed

lemma rev_dropWhile_rev: "rev (dropWhile p (rev s)) = take (length (dropWhile p (rev s))) s"
proof -
  have "s = rev (takeWhile p (rev s) @ dropWhile p (rev s))" by simp
  then have "s = rev (dropWhile p (rev s)) @ rev (takeWhile p (rev s))" by (metis rev_append)
  then show ?thesis by (metis append_eq_conv_conj length_rev)
qed

lemma removeASCIIWhitespace_strip: "removeASCIIWhitespace s True True = strip s"
proof (cases "\<forall>c \<in> set s. isASCIIWhitespace c")
  let ?p = isASCIIWhitespace
  case True
  then have all: "takeWhile ?p s = s" "dropWhile ?p s = []" "dropWhile ?p (rev s) = []" by simp_all
  show ?thesis
  proof (cases "s = []")
    case False
    then have "trail_loop ?p s (int (length s) - 1) = 0" by (subst trail_loop_count) (simp_all add: all)
    then show ?thesis
      using False by (simp add: removeASCIIWhitespace_def removeChars_def lead_loop_count all strip_def slice_def
          slice_pos_def)
  qed (simp add: removeASCIIWhitespace_def removeChars_def lead_loop_count strip_def trail_loop.simps)
next
  let ?p = isASCIIWhitespace
  case False
  define a where "a = takeWhile ?p s"
  have "dropWhile ?p s \<noteq> []" using False by auto
  then obtain x y where xy: "dropWhile ?p s = x # y" by (cases "dropWhile ?p s") auto
  then have s: "s = a @ x # y" and x: "\<not> ?p x"
    using takeWhile_dropWhile_id [of ?p s] hd_dropWhile [of ?p s] by (simp_all add: a_def)
  define z where "z = dropWhile ?p (rev (x # y))"
  have z: "dropWhile ?p (rev s) = z @ rev a" "z \<noteq> []"
    using x by (auto simp: s z_def dropWhile_append)
  then have trail: "trail_loop ?p s (int (length s) - 1) = int (length a + length z) - 1"
    by (subst trail_loop_count) (cases z; simp add: s)+
  have take: "take (length a + length z) s = a @ rev z"
    using rev_dropWhile_rev [of ?p s] z by (simp add: add.commute)
  then have "s = a @ rev z @ drop (length a + length z) s"
    using append_take_drop_id [of "length a + length z" s] by simp
  then have "slice s (int (length a)) (int (length a + length z)) = rev z"
    using slice_middle [of a "rev z" "drop (length a + length z) s"] by simp
  moreover have "rev z = s" if "length a = 0" "length a + length z = length s"
    using take that by simp
  moreover have "strip s = rev z" by (simp add: strip_def xy z_def)
  ultimately show ?thesis
    using trail by (auto simp: removeASCIIWhitespace_def removeChars_def lead_loop_count Let_def simp flip: a_def)
qed

lemma strip_ends:
  assumes "s \<noteq> []" "\<not> isASCIIWhitespace (hd s)" "\<not> isASCIIWhitespace (last s)"
  shows "strip s = s"
proof -
  have "dropWhile isASCIIWhitespace s = s" using assms(1,2) by (cases s) auto
  moreover have "dropWhile isASCIIWhitespace (rev s) = rev s"
    using assms(1,3) by (cases s rule: rev_cases) auto
  ultimately show ?thesis by (simp add: strip_def)
qed

lemma indexOf_collect: "collectASequenceOfCodePointsFast c (a @ c # b) 0 = (a, length a)" if "c \<notin> set a"
  using that slice_middle [of "[]" a "c # b"]
  by (simp add: collectASequenceOfCodePointsFast_def indexOf_from_def indexOf_found)

lemma collect_all: "c \<notin> set s \<Longrightarrow> collectASequenceOfCodePointsFast c s 0 = (s, length s)"
  using slice_from_middle [of "[]" s]
  by (simp add: collectASequenceOfCodePointsFast_def indexOf_from_def indexOf_none)

lemma take_then_drop: "take n (drop i s) @ drop (i + n) s = drop i s"
  by (metis append_take_drop_id drop_drop add.commute)

lemma isomorphic_same: "isomorphicDecode input = input"
proof -
  have "isomorphic_loop input i r = r @ drop i input" for i r
  proof (induction input i r rule: isomorphic_loop.induct)
    case (1 input i r)
    show ?case
    proof (cases "i < length input")
      case True
      with 1 show ?thesis
        by (subst isomorphic_loop.simps)
          (simp add: Let_def take_then_drop)
    qed (subst isomorphic_loop.simps, simp)
  qed
  then show ?thesis by (simp add: isomorphicDecode_def)
qed

subsection \<open>Percent decoding\<close>

fun percent_ref :: "nat list \<Rightarrow> nat list" where
  "percent_ref (c # a # b # s) =
     (if c = 0x25 \<and> isHexCharByte (Some a) \<and> isHexCharByte (Some b)
      then (16 * hexByteToNumber a + hexByteToNumber b) # percent_ref s
      else c # percent_ref (a # b # s))"
| "percent_ref s = s"

lemma hexByteToNumber_less:
  assumes "isHexCharByte (Some b)"
  shows "hexByteToNumber b < 16"
proof (cases "b \<le> 57")
  case True
  with assms show ?thesis by (auto simp: isHexCharByte_def hexByteToNumber_def)
next
  case False
  with assms have "b = 65 \<or> b = 66 \<or> b = 67 \<or> b = 68 \<or> b = 69 \<or> b = 70 \<or>
      b = 97 \<or> b = 98 \<or> b = 99 \<or> b = 100 \<or> b = 101 \<or> b = 102"
    by (simp add: isHexCharByte_def) arith
  then show ?thesis by (elim disjE) (simp_all add: hexByteToNumber_def)
qed

lemma nibbles:
  fixes a b :: nat
  assumes "b < 16" "a < 16"
  shows "(push_bit 4 a OR b) mod 256 = 16 * a + b"
proof -
  have "take_bit 4 b = b" using assms(1) by (simp add: take_bit_nat_eq_self)
  then have "bit b n \<Longrightarrow> n < 4" for n by (metis bit_take_bit_iff)
  then have "push_bit 4 a AND b = 0" by (force simp: bit_eq_iff bit_simps)
  then have "push_bit 4 a OR b = 16 * a + b"
    by (simp add: push_bit_eq_mult flip: disjunctive_add_eq_or)
  then show ?thesis using assms by simp
qed

lemma hex_digit_byte:
  assumes "d < 16"
  shows "isHexCharByte (Some (hex_digit d)) \<and> hexByteToNumber (hex_digit d) = d"
proof (cases "d < 10")
  case True
  then show ?thesis by (simp add: hexByteToNumber_def hex_digit_def isHexCharByte_def)
next
  case False
  with assms have "d = 10 \<or> d = 11 \<or> d = 12 \<or> d = 13 \<or> d = 14 \<or> d = 15" by arith
  then show ?thesis by (elim disjE) (simp_all add: hexByteToNumber_def hex_digit_def isHexCharByte_def)
qed

lemma percent_ref_short: "length s < 3 \<Longrightarrow> percent_ref s = s"
  by (cases s rule: percent_ref.cases) auto

lemma percent_loop_ref: "percent_loop input i out = out @ percent_ref (drop i input)"
proof (induction input i out rule: percent_loop.induct)
  case (1 input i out)
  show ?case
  proof (cases "i + 2 < length input")
    case True
    let ?a = "input ! (i + 1)" and ?b = "input ! (i + 2)"
    have d: "drop (i + 1) input = ?a # ?b # drop (i + 3) input" "drop i input = input ! i # ?a # ?b # drop (i + 3) input"
      using True by (simp_all add: Cons_nth_drop_Suc numeral_eq_Suc)
    have at: "charCodeAt input (int i + 1) = Some ?a" "charCodeAt input (int i + 2) = Some ?b"
      using True by (simp_all add: charCodeAt_def nat_add_distrib)
    have "percent_loop input i out =
        (if input ! i = 37 \<and> isHexCharByte (Some ?a) \<and> isHexCharByte (Some ?b)
         then percent_loop input (i + 3) (out @ [16 * hexByteToNumber ?a + hexByteToNumber ?b])
         else percent_loop input (i + 1) (out @ [input ! i]))"
      using True by (subst percent_loop.simps) (simp add: Let_def at nibbles hexByteToNumber_less del: add_2_eq_Suc')
    with 1 True d at show ?thesis
      by (cases "input ! i = 37") (simp_all add: nibbles hexByteToNumber_less del: add_2_eq_Suc' One_nat_def add_Suc_right)
  next
    case False
    show ?thesis
    proof (cases "i < length input")
      case i: True
      have none: "charCodeAt input (int i + 2) = None" using False by (simp add: charCodeAt_def)
      have "percent_loop input i out = percent_loop input (i + 1) (out @ [input ! i])"
        using i by (subst percent_loop.simps) (simp add: Let_def none isHexCharByte_def)
      also have "\<dots> = out @ [input ! i] @ percent_ref (drop (i + 1) input)"
        using 1 i none by (cases "input ! i = 37") (simp_all add: isHexCharByte_def)
      finally show ?thesis
        using False i by (simp add: percent_ref_short Cons_nth_drop_Suc)
    qed (subst percent_loop.simps, simp)
  qed
qed

lemma percentDecode_ref: "percentDecode input = percent_ref input"
  by (simp add: percentDecode_def percent_loop_ref)

lemma percent_ref_pct: "list_all (\<lambda>b. b < 256) bs \<Longrightarrow> percent_ref (pct bs) = bs"
proof (induction bs)
  case (Cons b bs)
  then have "b div 16 < 16" "b mod 16 < 16" by auto
  then show ?case
    using Cons hex_digit_byte [of "b div 16"] hex_digit_byte [of "b mod 16"] by (simp add: pct_def hexTable_def)
qed (simp add: pct_def)

interpretation percent_bytes: codec "list_all (\<lambda>b. b < 256)" "\<lambda>bs. Inr (pct bs)" "\<lambda>s. Inr (percentDecode s)"
  by unfold_locales (simp add: percentDecode_ref percent_ref_pct)

lemma utf8_of_ascii: "list_all (\<lambda>c. c < 0x80) s \<Longrightarrow> utf8_of s = s"
  by (induction s) (auto simp: utf8_def)

lemma pct_units: "list_all (\<lambda>b. b < 256) bs \<Longrightarrow> list_all (\<lambda>c. 0x20 < c \<and> c < 0x7F \<and> c \<noteq> 35 \<and> c \<noteq> 63) (pct bs)"
  by (induction bs) (auto simp: pct_def hexTable_def hex_digit_def)

subsection \<open>The processor\<close>

definition us_ascii_mime :: mime_type where
  "us_ascii_mime =
     \<lparr>mt_type = js ''text'', mt_subtype = js ''plain'', mt_parameters = instantiateMimeParams (js ''charset=US-ASCII'')\<rparr>"

lemma mime_default: "mime_new env (JStr (js ''text/plain;charset=US-ASCII'')) = Inr us_ascii_mime"
  by code_simp

text \<open>
  Base64 with white space left out: at most two equals signs at the end of a text of whole groups are
  padding, the rest is of the alphabet and no single unit is left over.
\<close>

definition without_padding :: "jsstring \<Rightarrow> jsstring" where
  "without_padding d =
     (if length d mod 4 = 0 \<and> d \<noteq> [] \<and> last d = 61
      then (if butlast d \<noteq> [] \<and> last (butlast d) = 61 then butlast (butlast d) else butlast d) else d)"

definition base64_ref :: "(jsstring \<Rightarrow> nat list) \<Rightarrow> jsstring \<Rightarrow> nat list option" where
  "base64_ref from_base64 data =
     (let d = filter (\<lambda>c. \<not> isASCIIWhitespace c) data
      in if list_all base64_unit (without_padding d) \<and> length (without_padding d) mod 4 \<noteq> 1
         then Some (from_base64 d) else None)"

lemma charCodeAt_end: "charCodeAt d (int (length d) - 1) = Some c \<longleftrightarrow> d \<noteq> [] \<and> last d = c"
  by (cases d rule: rev_cases) (auto simp: charCodeAt_def)

lemma charCodeAt_before_end:
  "charCodeAt d (int (length d - 1) - 1) = Some c \<longleftrightarrow> butlast d \<noteq> [] \<and> last (butlast d) = c"
proof -
  have "charCodeAt d (int (length d - 1) - 1) = charCodeAt (butlast d) (int (length (butlast d)) - 1)"
    by (auto simp: charCodeAt_def nth_butlast nat_diff_distrib)
  then show ?thesis by (simp only: charCodeAt_end)
qed

lemma forgivingBase64_ref: "forgivingBase64 from_base64 data = base64_ref from_base64 data"
proof -
  define d where "d = filter (\<lambda>c. \<not> isASCIIWhitespace c) data"
  define n where "n = (if length d mod 4 = 0 \<and> charCodeAt d (int (length d) - 1) = Some 61
    then (if charCodeAt d (int (length d - 1) - 1) = Some 61 then length d - 1 - 1 else length d - 1) else length d)"
  have short: "butlast d = [] \<Longrightarrow> length d \<le> Suc 0" by (cases d) (auto split: if_splits)
  have n: "n = length (without_padding d)" "n \<le> length d"
    unfolding n_def without_padding_def charCodeAt_end charCodeAt_before_end
    using short by simp_all
  have take: "take n d = without_padding d"
    by (simp add: n(1)) (simp add: without_padding_def butlast_conv_take take_take min_absorb1)
  have "(if length d = n then d else slice d 0 (int n)) = without_padding d"
    using take n(2) by (auto simp: slice_zero)
  then have "forgivingBase64 from_base64 data =
      (if n mod 4 = 1 then None
       else if search_class (\<lambda>c. \<not> base64_unit c) (without_padding d) \<noteq> -1 then None else Some (from_base64 d))"
    unfolding forgivingBase64_def Let_def d_def [symmetric] n_def [symmetric] by (simp only:)
  then show ?thesis
    by (simp add: base64_ref_def Let_def search_class_none n(1) flip: d_def)
qed

text \<open>The body: percent-decoded, then decoded as base64 when the text before it ends so.\<close>

definition data_body :: "(jsstring \<Rightarrow> nat list) \<Rightarrow> jsstring \<Rightarrow> jsstring \<Rightarrow> nat list option" where
  "data_body from_base64 mimeType encodedBody =
     (let bytes = percent_ref (utf8_of encodedBody)
      in if ends_base64 mimeType then base64_ref from_base64 bytes else Some bytes)"

text \<open>The text before it without the marker, with the default type in front of parameters alone.\<close>

definition data_mime_text :: "jsstring \<Rightarrow> jsstring" where
  "data_mime_text mt =
     (let t = (if ends_base64 mt then butlast (rev (dropWhile (\<lambda>c. c = 32) (rev (take (length mt - 6) mt)))) else mt)
      in if t \<noteq> [] \<and> hd t = 59 then js ''text/plain'' @ t else t)"

definition data_mime :: "params_env \<Rightarrow> jsstring \<Rightarrow> mime_type" where
  "data_mime env mt = (case mime_new env (JStr (data_mime_text mt)) of Inr m \<Rightarrow> m | Inl _ \<Rightarrow> us_ascii_mime)"

lemma slice_butlast: "slice s 0 (-1) = butlast s"
  by (cases s) (simp_all add: slice_def slice_pos_def butlast_conv_take nat_diff_distrib)

lemma slice_drop_last: "0 < n \<Longrightarrow> n \<le> length s \<Longrightarrow> slice s 0 (- int n) = take (length s - n) s"
  by (simp add: slice_def slice_pos_def nat_diff_distrib)

lemma charCodeAt_hd: "charCodeAt s 0 = Some c \<longleftrightarrow> s \<noteq> [] \<and> hd s = c"
  by (cases s) (auto simp: charCodeAt_0)

lemma data_struct_answers:
  "data_struct env b64 mt body =
     Inr (case data_body b64 mt body of None \<Rightarrow> Failure | Some bytes \<Rightarrow> DataStruct (data_mime env mt) bytes)"
proof -
  have marked: "ends_base64 mt \<Longrightarrow> slice mt 0 (-6) = take (length mt - 6) mt"
    using slice_drop_last [of 6 mt] by (simp add: ends_base64_def Let_def)
  define default where "default = js ''text/plain;charset=US-ASCII''"
  define plain where "plain = js ''text/plain''"
  have "data_struct env b64 mt body =
      (case data_body b64 mt body of
         None \<Rightarrow> Inr Failure
       | Some bytes \<Rightarrow>
           (case mime_new env (JStr (data_mime_text mt)) of
              Inr m \<Rightarrow> Inr (DataStruct m bytes)
            | Inl _ \<Rightarrow> bind (mime_new env (JStr default)) (\<lambda>m. Inr (DataStruct m bytes))))"
    unfolding data_struct_def data_body_def data_mime_text_def stringPercentDecode_def percentDecode_ref
      isomorphic_same Let_def slice_butlast charCodeAt_hd forgivingBase64_ref default_def [symmetric] plain_def [symmetric]
    using marked
    by (cases "ends_base64 mt"; cases "base64_ref b64 (percent_ref (utf8_of body))") (auto simp: slice_butlast)
  then show ?thesis
    using mime_default [of env, folded default_def] by (simp add: data_mime_def split: option.split sum.split)
qed

definition data_input :: "data_url \<Rightarrow> jsstring" where
  "data_input url = drop 5 (URLSerializer url True)"

lemma slice_from_drop: "slice_from s (int n) = drop n s"
  by (cases "n \<le> length s") (simp_all add: slice_from_def slice_def slice_pos_def)

lemma processor_split:
  assumes "du_protocol url = js ''data:''" "data_input url = mt @ 44 # body" "44 \<notin> set mt"
  shows "dataURLProcessor env b64 url = data_struct env b64 (strip mt) body"
proof -
  have "slice_from (URLSerializer url True) 5 = mt @ 44 # body"
    using slice_from_drop [of "URLSerializer url True" 5] assms(2) by (simp add: data_input_def)
  moreover have "slice_from (mt @ 44 # body) (int (length mt) + 1) = body"
    using slice_from_drop [of "mt @ 44 # body" "length mt + 1"] by (simp add: add.commute)
  ultimately show ?thesis
    using indexOf_collect [OF assms(3), of body] assms(1)
    by (simp add: dataURLProcessor_def Let_def removeASCIIWhitespace_strip)
qed

lemma processor_no_comma:
  assumes "du_protocol url = js ''data:''" "44 \<notin> set (data_input url)"
  shows "dataURLProcessor env b64 url = Inr Failure"
  using slice_from_drop [of "URLSerializer url True" 5] collect_all [OF assms(2)] assms(1)
  by (simp add: dataURLProcessor_def Let_def data_input_def)

definition split_first :: "nat \<Rightarrow> jsstring \<Rightarrow> (jsstring \<times> jsstring) option" where
  "split_first c s =
     (if c \<in> set s then Some (takeWhile (\<lambda>x. x \<noteq> c) s, tl (dropWhile (\<lambda>x. x \<noteq> c) s)) else None)"

lemma split_first_Some: "split_first c s = Some (a, b) \<Longrightarrow> s = a @ c # b \<and> c \<notin> set a"
proof -
  assume "split_first c s = Some (a, b)"
  then have "c \<in> set s" "a = takeWhile (\<lambda>x. x \<noteq> c) s" "b = tl (dropWhile (\<lambda>x. x \<noteq> c) s)"
    by (auto simp: split_first_def split: if_splits)
  then show ?thesis
    by (induction s arbitrary: a) auto
qed

lemma split_first_None: "split_first c s = None \<longleftrightarrow> c \<notin> set s"
  by (simp add: split_first_def)

lemma data_mime_ok: "mime_ok (data_mime env mt)"
  using mime_new_ok(1) [OF mime_default [of env]] mime_new_ok(1)
  by (auto simp: data_mime_def split: sum.split)

text \<open>
  C39: dataURLProcessor throws for a URL of another scheme only. It fails for a URL without a comma and
  for a body marked as base64 that is none; otherwise the body is the percent-decoded text after the
  first comma, decoded as base64 where marked, and the MIME type is read from the stripped text before
  it, or is text/plain with US-ASCII where that text is none; it is always well formed.
\<close>

theorem data_url_answers:
  "dataURLProcessor env b64 url =
     (if du_protocol url \<noteq> js ''data:'' then Inl ERR_INTERNAL_ASSERTION
      else (case split_first 44 (data_input url) of
              None \<Rightarrow> Inr Failure
            | Some (mt, body) \<Rightarrow>
                (case data_body b64 (strip mt) body of
                   None \<Rightarrow> Inr Failure
                 | Some bytes \<Rightarrow> Inr (DataStruct (data_mime env (strip mt)) bytes)))) \<and>
   mime_ok (data_mime env mt')"
proof -
  have "dataURLProcessor env b64 url = Inl ERR_INTERNAL_ASSERTION" if "du_protocol url \<noteq> js ''data:''"
    using that by (simp add: dataURLProcessor_def)
  then show ?thesis
    using processor_no_comma [of url env b64] processor_split [of url] split_first_Some [of 44 "data_input url"]
      split_first_None [of 44 "data_input url"]
    by (auto simp: data_mime_ok data_struct_answers simp del: js_Cons split: option.split)
qed

subsection \<open>The URL of a MIME type and bytes\<close>

text \<open>Where the text of a MIME type ends: in a token after a solidus or an equals sign, or in a quote.\<close>

lemma mime_text_tail:
  assumes "mime_ok m"
  shows "\<exists>w c tok. fst (mime_toString m) = w @ c # tok \<and> list_all http_token tok \<and> (c = 34 \<or> (c = 47 \<or> c = 61) \<and> tok \<noteq> [])"
proof (cases "mime_entries_of m = []")
  case True
  with mime_text [OF assms] have "fst (mime_toString m) = mt_type m @ 47 # mt_subtype m" by simp
  moreover have "list_all http_token (mt_subtype m)" "mt_subtype m \<noteq> []"
    using assms by (simp_all add: mime_ok_def lower_token_def token_def)
  ultimately show ?thesis by blast
next
  case False
  then obtain d e where d: "mime_entries_of m = d @ [e]" by (cases "mime_entries_of m" rule: rev_cases) auto
  have "\<exists>w. fst (mime_toString m) = w @ entry_text e"
    using mime_text [OF assms] by (auto simp: d entries_text_def join_snoc)
  then obtain w where w: "fst (mime_toString m) = w @ fst e @ 61 # encode_value (snd e)"
    by (auto simp: entry_text_def)
  show ?thesis
  proof (cases "snd e" rule: encode_value_cases)
    case plain
    with w have "fst (mime_toString m) = (w @ fst e) @ 61 # snd e" by simp
    with plain(1) show ?thesis unfolding token_def by blast
  next
    case quoted
    with w have "fst (mime_toString m) = (w @ fst e @ 61 # 34 # escapeQuoteOrSolidus (snd e)) @ 34 # []" by simp
    moreover have "list_all http_token []" by simp
    ultimately show ?thesis by blast
  qed
qed

lemma mime_text_strip:
  assumes "mime_ok m"
  shows "strip (fst (mime_toString m)) = fst (mime_toString m)"
proof (rule strip_ends)
  have ws: "\<And>c. http_token c \<Longrightarrow> \<not> isASCIIWhitespace c"
    by (auto simp: http_token_def isASCIIWhitespace_def)
  show "fst (mime_toString m) \<noteq> []" by (simp add: mime_text [OF assms])
  show "\<not> isASCIIWhitespace (hd (fst (mime_toString m)))"
    using assms ws by (cases "mt_type m") (auto simp: mime_text [OF assms] mime_ok_def lower_token_def token_def)
  obtain w c tok where "fst (mime_toString m) = w @ c # tok" "list_all http_token tok" "c = 34 \<or> c = 47 \<or> c = 61"
    using mime_text_tail [OF assms] by blast
  with ws show "\<not> isASCIIWhitespace (last (fst (mime_toString m)))"
    by (auto simp: list_all_iff isASCIIWhitespace_def)
qed

lemma lower_base64_token: "map lower_unit b = js ''base64'' \<Longrightarrow> list_all http_token b"
proof -
  assume b: "map lower_unit b = js ''base64''"
  have "http_token c" if "c \<in> set b" for c
  proof -
    have "lower_unit c \<in> set (js ''base64'')" using that unfolding b [symmetric] by simp
    then show ?thesis by (auto simp: lower_unit_def http_token_def split: if_splits)
  qed
  then show ?thesis by (simp add: list_all_iff)
qed

lemma mime_text_not_base64:
  assumes "mime_ok m"
  shows "\<not> ends_base64 (fst (mime_toString m))"
proof
  let ?t = "fst (mime_toString m)" and ?n = "length (fst (mime_toString m)) - 6"
  assume "ends_base64 ?t"
  then have b: "list_all http_token (drop ?n ?t)"
    and sp: "\<exists>r. dropWhile (\<lambda>c. c = 32) (rev (take ?n ?t)) = 59 # r"
    using lower_base64_token by (auto simp: ends_base64_def Let_def split: list.splits)
  obtain w c tok where t: "?t = w @ c # tok" "list_all http_token tok" "c = 34 \<or> c = 47 \<or> c = 61"
    using mime_text_tail [OF assms] by blast
  have "rev ?t = rev (drop ?n ?t) @ rev (take ?n ?t)" by (simp flip: rev_append)
  then have "dropWhile http_token (rev ?t) = dropWhile http_token (rev (take ?n ?t))"
    using b by (simp add: dropWhile_append list_all_iff)
  moreover have "dropWhile http_token (rev ?t) = c # rev w"
    using t by (auto simp: dropWhile_append list_all_iff http_token_def)
  moreover have "dropWhile http_token (rev (take ?n ?t)) = rev (take ?n ?t) \<and> hd (rev (take ?n ?t)) \<in> {32, 59}"
    using sp by (cases "rev (take ?n ?t)") (auto simp: http_token_def split: if_splits)
  ultimately have "hd (c # rev w) \<in> {32, 59}" by metis
  then show False using t(3) by auto
qed

lemma data_mime_text_same:
  assumes "mime_ok m"
  shows "data_mime_text (fst (mime_toString m)) = fst (mime_toString m)"
proof -
  obtain c r where c: "mt_type m = c # r" "http_token c"
    using assms by (cases "mt_type m") (auto simp: mime_ok_def lower_token_def token_def)
  then have "hd (fst (mime_toString m)) = c" by (simp add: mime_text [OF assms])
  moreover have "c \<noteq> 59" using c(2) by (auto simp: http_token_def)
  ultimately show ?thesis by (simp add: data_mime_text_def mime_text_not_base64 [OF assms])
qed

text \<open>A fragment is left out, an empty one too, which the getter does not show.\<close>

lemma data_input_fragment:
  assumes "du_href url = js ''data:'' @ rest @ fragment" "rest \<noteq> []" "last rest \<noteq> 35"
    and "fragment = du_hash url \<or> du_hash url = [] \<and> fragment = [35]"
  shows "data_input url = rest"
proof -
  let ?scheme = "js ''data:''"
  have "URLSerializer url True = ?scheme @ rest"
  proof (cases "du_hash url = []")
    case hash: True
    show ?thesis
    proof (cases "fragment = []")
      case True
      have "charCodeAt (?scheme @ rest) (int (length (?scheme @ rest)) - 1) = Some (last rest)"
        using assms(2) charCodeAt_middle [of "?scheme @ butlast rest" "last rest" "[]"] by simp
      then show ?thesis using hash True assms by (simp add: URLSerializer_def Let_def del: js_Cons)
    next
      case False
      with assms(4) hash have f: "fragment = [35]" by auto
      have "charCodeAt (?scheme @ rest @ [35]) (int (length (?scheme @ rest @ [35])) - 1) = Some 35"
        using charCodeAt_middle [of "?scheme @ rest" 35 "[]"] by simp
      then show ?thesis
        using hash f assms(1) slice_butlast [of "?scheme @ rest @ [35]"]
        by (simp add: URLSerializer_def Let_def butlast_append del: js_Cons)
    qed
  next
    case False
    then have "fragment = du_hash url" using assms(4) by auto
    then show ?thesis
      using False assms(1) slice_middle [of "[]" "?scheme @ rest" fragment]
      by (simp add: URLSerializer_def Let_def del: js_Cons)
  qed
  then show ?thesis by (simp add: data_input_def)
qed

text \<open>
  What the URL Standard says of a URL of the scheme data whose path is opaque: the parser takes over
  units from the space to the tilde as they are, but for the number sign and the question mark, and
  ends the path at the number sign that begins a fragment. The offset that stands for no fragment is
  no length of a URL.
\<close>

definition opaque_unit :: "nat \<Rightarrow> bool" where
  "opaque_unit c \<longleftrightarrow> 0x20 \<le> c \<and> c \<le> 0x7E \<and> c \<noteq> 35 \<and> c \<noteq> 63"

definition fragment_unit :: "nat \<Rightarrow> bool" where
  "fragment_unit c \<longleftrightarrow> 0x20 < c \<and> c \<le> 0x7E \<and> c \<notin> {34, 60, 62, 96}"

definition plain_fragment :: "jsstring \<Rightarrow> bool" where
  "plain_fragment f \<longleftrightarrow> f = [] \<or> hd f = 35 \<and> list_all fragment_unit (tl f)"

definition parses_data :: "url_env \<Rightarrow> bool" where
  "parses_data env \<longleftrightarrow>
     (\<forall>path f. path \<noteq> [] \<longrightarrow> list_all opaque_unit path \<longrightarrow> hd path \<noteq> 47 \<longrightarrow> last path \<noteq> 32 \<longrightarrow> plain_fragment f \<longrightarrow>
        5 + length path + length f < omitted \<longrightarrow>
        (\<exists>c. parse_url env (js ''data:'' @ path @ f) None = Some c \<and> c_href c = js ''data:'' @ path @ f \<and>
           protocol_end c = 5 \<and> hash_start c = (if f = [] then omitted else 5 + length path)))"

text \<open>The URL of such a text, and what its getters answer.\<close>

lemma data_url_getters:
  assumes env: "parses_data env" and path: "path \<noteq> []" "list_all opaque_unit path" "hd path \<noteq> 47" "last path \<noteq> 32"
    and f: "plain_fragment f" and len: "5 + length path + length f < omitted"
  obtains u du where "url_new env [JStr (js ''data:'' @ path @ f)] NoSymbol = Inr u" "getters_of env u = Inr du"
    "du_protocol du = js ''data:''" "du_href du = js ''data:'' @ path @ f" "f = du_hash du \<or> du_hash du = [] \<and> f = [35]"
proof -
  let ?s = "js ''data:'' @ path @ f"
  obtain c where c: "parse_url env ?s None = Some c" "c_href c = ?s" "protocol_end c = 5"
      "hash_start c = (if f = [] then omitted else 5 + length path)"
    using env path f len unfolding parses_data_def by blast
  let ?u = "\<lparr>url_ctx = c, url_params = None, searchParamsModified = False\<rparr>"
  have new: "url_new env [JStr ?s] NoSymbol = Inr ?u"
    using c(1) by (simp add: url_new_def template_string_def binding_href_def update_context_quiet del: js_Cons)
  have href: "url_href env ?u = Inr (?s, ?u)"
    by (simp add: url_href_def ensure_params_updated.simps c(2) del: js_Cons)
  have "url_protocol c = js ''data:''"
    using slice_middle [of "[]" "js ''data:''" "path @ f"] c(2,3) by (simp add: url_protocol_def)
  moreover have "f = url_hash c \<or> url_hash c = [] \<and> f = [35]"
  proof (cases "f = []")
    case True
    then show ?thesis using c(4) by (simp add: url_hash_def hasHash_def)
  next
    case False
    then obtain g where g: "f = 35 # g" using f by (cases f) (auto simp: plain_fragment_def)
    have "hasHash c" using c(4) False len by (simp add: hasHash_def)
    moreover have "slice_from ?s (int (length (js ''data:'' @ path))) = f"
      unfolding append_assoc [symmetric] by (rule slice_from_middle)
    ultimately show ?thesis using c(2,4) False g by (cases g) (simp_all add: url_hash_def)
  qed
  moreover have "getters_of env ?u = Inr \<lparr>du_protocol = url_protocol c, du_href = ?s, du_hash = url_hash c\<rparr>"
    by (simp add: getters_of_def href del: js_Cons)
  ultimately show thesis
    using that [OF new, of "\<lparr>du_protocol = url_protocol c, du_href = ?s, du_hash = url_hash c\<rparr>"] by (simp del: js_Cons)
qed

text \<open>
  C40: take the text of any MIMEType, after any calls, whose units are from the space to the tilde but
  for the comma, the number sign and the question mark, which the URL parser does not take over. The
  URL parsed from \<^verbatim>\<open>data:\<close>, that text, a comma, bytes in percent encoding and a fragment is processed to
  the same bytes and to the same type, subtype and parameters, the names in lower case and the first of
  two that differ in case only; without calls of set exactly the same parameters.
\<close>

theorem data_url_roundtrip:
  assumes "mime_new env v = Inr m" "m' = mime_run env calls m" "t = fst (mime_toString m')"
    and "list_all opaque_unit t" "44 \<notin> set t" "list_all (\<lambda>b. b < 256) body" "plain_fragment f"
    and "parses_data uenv" "length t + length (pct body) + length f + 6 < omitted"
  shows "\<exists>u du q. url_new uenv [JStr (js ''data:'' @ (t @ 44 # pct body) @ f)] NoSymbol = Inr u \<and> getters_of uenv u = Inr du \<and>
    dataURLProcessor env b64 du = Inr (DataStruct q body) \<and>
    mt_type q = mt_type m' \<and> mt_subtype q = mt_subtype m' \<and> mime_entries_of q = lowered (mime_entries_of m') \<and>
    ((\<forall>k v. SetParam k v \<notin> set calls) \<longrightarrow> mime_entries_of q = mime_entries_of m')"
proof -
  let ?path = "t @ 44 # pct body"
  have ok: "mime_ok m'" using mime_new_ok(1) [OF assms(1)] assms(2) mime_run_ok by simp
  have units: "list_all (\<lambda>c. c < 0x80) (pct body)" "list_all opaque_unit (pct body)" "32 \<notin> set (pct body)"
    using pct_units [OF assms(6)] by (auto simp: list_all_iff opaque_unit_def)
  have "mt_type m' \<noteq> []" "list_all http_token (mt_type m')" using ok by (simp_all add: mime_ok_def lower_token_def token_def)
  then have hd: "t \<noteq> []" "hd t \<noteq> 47"
    using assms(3) by (cases "mt_type m'"; auto simp: mime_text [OF ok] http_token_def)+
  have path: "?path \<noteq> []" "list_all opaque_unit ?path" "hd ?path \<noteq> 47" "last ?path \<noteq> 32" "last ?path \<noteq> 35"
    using assms(4) units hd by (auto simp: opaque_unit_def list_all_iff dest: last_in_set)
  have "5 + length ?path + length f < omitted" using assms(9) by simp
  from data_url_getters [OF assms(8) path(1-4) assms(7) this]
  obtain u du where u: "url_new uenv [JStr (js ''data:'' @ ?path @ f)] NoSymbol = Inr u" "getters_of uenv u = Inr du"
    "du_protocol du = js ''data:''" "du_href du = js ''data:'' @ ?path @ f" "f = du_hash du \<or> du_hash du = [] \<and> f = [35]" .
  have "data_input du = ?path" by (rule data_input_fragment [OF u(4) path(1,5) u(5)])
  from processor_split [OF u(3) this assms(5)]
  have run: "dataURLProcessor env b64 du = data_struct env b64 t (pct body)"
    by (simp add: assms(3) mime_text_strip [OF ok])
  have "data_body b64 t (pct body) = Some body"
    by (simp add: data_body_def assms(3) mime_text_not_base64 [OF ok] utf8_of_ascii units percent_ref_pct assms(6))
  moreover obtain q where q: "mime_new env (JStr t) = Inr q" "mt_type q = mt_type m'" "mt_subtype q = mt_subtype m'"
    "mime_entries_of q = lowered (mime_entries_of m')"
    using mime_reparse [OF ok, of env] assms(3) by blast
  moreover have "data_mime_text t = t" using data_mime_text_same [OF ok] assms(3) by simp
  ultimately have "dataURLProcessor env b64 du = Inr (DataStruct q body)" by (simp add: run data_struct_answers data_mime_def)
  moreover have "(\<forall>k v. SetParam k v \<notin> set calls) \<longrightarrow> mime_entries_of q = mime_entries_of m'"
    using mime_entries_lower [OF assms(1), of calls] q(4) assms(2) by simp
  ultimately show ?thesis using u(1,2) q(2-4) by blast
qed

text \<open>A parser that satisfies the hypothesis: it takes over every URL of the scheme.\<close>

definition data_env :: url_env where
  "data_env = tiny_env\<lparr>parse_url := (\<lambda>s b.
     if take 5 s \<noteq> js ''data:'' then None
     else Some (empty_context\<lparr>c_href := s, protocol_end := 5,
       hash_start := (if 35 \<in> set s then length (takeWhile (\<lambda>c. c \<noteq> 35) s) else omitted)\<rparr>))\<rparr>"

lemma data_env_parses: "parses_data data_env"
  unfolding parses_data_def
proof (intro allI impI)
  fix path f assume path: "list_all opaque_unit path" and f: "plain_fragment f"
  have p: "35 \<notin> set (js ''data:'' @ path)" using path by (auto simp: list_all_iff opaque_unit_def)
  have "takeWhile (\<lambda>c. c \<noteq> 35) ((js ''data:'' @ path) @ 35 # g) = js ''data:'' @ path" for g
    using p by (subst takeWhile_append2) auto
  then have "hash_start (the (parse_url data_env (js ''data:'' @ path @ f) None)) = (if f = [] then omitted else 5 + length path)"
    using p f by (cases f) (auto simp: data_env_def plain_fragment_def)
  then show "\<exists>c. parse_url data_env (js ''data:'' @ path @ f) None = Some c \<and> c_href c = js ''data:'' @ path @ f \<and>
      protocol_end c = 5 \<and> hash_start c = (if f = [] then omitted else 5 + length path)"
    by (auto simp: data_env_def)
qed

theorem data_url_roundtrip_witness:
  "\<exists>u du q. url_new data_env [JStr (js ''data:text/b;c=\"d !\";g=\"\",%00%2C%FF#top'')] NoSymbol = Inr u \<and>
     getters_of data_env u = Inr du \<and> dataURLProcessor seven_bit_params (\<lambda>_. []) du = Inr (DataStruct q [0, 44, 255]) \<and>
     mime_entries_of q = [(js ''c'', js ''d !''), (js ''g'', [])]"
proof -
  let ?m = "mime_run seven_bit_params [] mime_sample_type"
  let ?t = "js ''text/b;c=\"d !\";g=\"\"''"
  have printed: "?t = fst (mime_toString ?m)"
    and entries: "mime_entries_of ?m = [(js ''c'', js ''d !''), (js ''g'', [])]"
    by code_simp+
  have pct: "pct [0, 44, 255] = js ''%00%2C%FF''" by (simp add: pct_def hexTable_def hex_digit_def)
  have t: "list_all opaque_unit ?t" "44 \<notin> set ?t" by (simp_all add: opaque_unit_def)
  have f: "plain_fragment (js ''#top'')" by (simp add: plain_fragment_def fragment_unit_def)
  have "length ?t + length (pct [0, 44, 255]) + length (js ''#top'') + 6 < omitted" by (simp add: pct omitted_def)
  from data_url_roundtrip [OF mime_sample_new refl printed t _ f data_env_parses this, of "\<lambda>_. []"]
  show ?thesis unfolding entries pct by auto
qed

end
