(* ===== verification/FreeList.thy ===== *)
theory FreeList
  imports Prelude
begin

text \<open>
  The free list of lib/internal/freelist.js, which HTTP uses for its parsers. The constructor is a
  parameter: from the arguments and the state of the program to an object or an error and the new
  state. It gets the free list as its \<^verbatim>\<open>this\<close>, which the constructors of the library do not use.
\<close>

record 'a freelist =
  fl_name :: string
  fl_max :: nat
  fl_list :: "'a list"

definition new_freelist :: "string \<Rightarrow> nat \<Rightarrow> 'a freelist" where
  "new_freelist name m = \<lparr>fl_name = name, fl_max = m, fl_list = []\<rparr>"

definition fl_alloc ::
  "('x \<Rightarrow> 'w \<Rightarrow> 'a result \<times> 'w) \<Rightarrow> 'x \<Rightarrow> 'a freelist \<Rightarrow> 'w \<Rightarrow> 'a result \<times> 'a freelist \<times> 'w" where
  "fl_alloc ctor arguments l w =
     (if fl_list l \<noteq> [] then (Inr (last (fl_list l)), l\<lparr>fl_list := butlast (fl_list l)\<rparr>, w)
      else (let (r, w') = ctor arguments w in (r, l, w')))"

definition fl_free :: "'a \<Rightarrow> 'a freelist \<Rightarrow> bool \<times> 'a freelist" where
  "fl_free obj l =
     (if length (fl_list l) < fl_max l then (True, l\<lparr>fl_list := fl_list l @ [obj]\<rparr>) else (False, l))"

text \<open>
  The pool as its users see it: they hold the objects they were given and give back objects they hold.
  The constructor makes objects that nobody holds.
\<close>

inductive pool :: "('x \<Rightarrow> 'w \<Rightarrow> 'a result \<times> 'w) \<Rightarrow> 'a freelist \<Rightarrow> 'a list \<Rightarrow> bool" for ctor where
  start: "pool ctor (new_freelist name m) []"
| alloc: "pool ctor l held \<Longrightarrow> fl_alloc ctor arguments l w = (Inr obj, l', w') \<Longrightarrow>
    (fl_list l = [] \<Longrightarrow> obj \<notin> set held) \<Longrightarrow> pool ctor l' (obj # held)"
| free: "pool ctor l held \<Longrightarrow> obj \<in> set held \<Longrightarrow> fl_free obj l = (b, l') \<Longrightarrow> pool ctor l' (remove1 obj held)"

text \<open>No object is held twice, held and free, or free twice, and the list keeps its bound.\<close>

lemma pool_distinct:
  assumes "pool ctor l held"
  shows "distinct (held @ fl_list l) \<and> length (fl_list l) \<le> fl_max l"
  using assms
proof induction
  case (alloc l held arguments w obj l' w')
  show ?case
  proof (cases "fl_list l" rule: rev_cases)
    case Nil
    with alloc show ?thesis by (auto simp: fl_alloc_def split: prod.splits)
  next
    case (snoc xs x)
    with alloc show ?thesis by (auto simp: fl_alloc_def)
  qed
next
  case (free l held obj b l')
  then show ?case by (auto simp: fl_free_def split: if_splits)
qed (simp add: new_freelist_def)

text \<open>An object taken back is the next one given out, without a call of the constructor.\<close>

lemma freed_next:
  "fl_free obj l = (True, l') \<Longrightarrow> fl_alloc ctor arguments l' w = (Inr obj, l, w)"
  by (auto simp: fl_free_def fl_alloc_def split: if_splits)

end
