(* ===== verification/Spec2Isabelle.thy ===== *)
theory Spec2Isabelle
  imports QueryExamples PunycodeDomains EventsCalls MyersProps TickQueue TimersExamples ImmediatesProps PathWin32Props BufferWrites DataUrlProps FreeList
begin

text \<open>
  Verification library of the JavaScript core of the runtime, the files of lib/ that keep data
  structures and algorithms of their own. The rest of the repository is glue around native code and
  third-party packages.

  The parts and how they interact.
    \<^item> The event loop: \<^verbatim>\<open>process.nextTick\<close> puts an object into a fixed queue, the tick loop of
      lib/internal/process/task_queues.js runs the queue between all other callbacks and brackets
      each call with the async ids of lib/internal/async_hooks.js. \<^verbatim>\<open>setTimeout\<close> puts a timer into the
      linked list of its duration, the lists wait in a priority queue by expiry, and
      \<^verbatim>\<open>processTimers\<close> runs the lists that are due, with the tick loop between two timers.
      \<^verbatim>\<open>setImmediate\<close> puts an immediate into a queue that \<^verbatim>\<open>processImmediate\<close> takes as a whole.
    \<^item> Events: the class \<^verbatim>\<open>EventEmitter\<close> of lib/events.js calls listeners that may call it again.
    \<^item> Text: the two path modules of lib/path.js, the query strings of lib/querystring.js, Punycode.
    \<^item> URLs: the classes \<^verbatim>\<open>URL\<close> and \<^verbatim>\<open>URLSearchParams\<close> of lib/internal/url.js, which keep each other up
      to date over the native parser; search params escape with the loop of the query strings, and
      file URLs are made from the paths that \<^verbatim>\<open>resolve\<close> answers.
    \<^item> Numbers in buffers: the integer accessors of lib/internal/buffer.js.
    \<^item> Differences of lines, as \<^verbatim>\<open>util.diff\<close> and the assertion errors show them.

  Theories and the code they model.
    \<^item> \<open>Prelude\<close>: JavaScript strings as lists of UTF-16 code units, values, errors, the validators of
      lib/internal/validators.js that are called, the contract \<open>codec\<close> of an encoder and its decoder.
    \<^item> \<open>PathCore\<close>, \<open>PathPosix\<close>, \<open>PathWin32\<close>: lib/path.js, a definition for each function
      (\<open>posix_resolve\<close> for \<^verbatim>\<open>posix.resolve\<close>) on the values it takes, so that a wrong argument is the
      error it throws. \<open>PathPosixProps\<close> shows that \<^verbatim>\<open>resolve\<close> is a walk over segments, that \<^verbatim>\<open>normalize\<close>
      is idempotent and \<^verbatim>\<open>relative\<close> the inverse of \<^verbatim>\<open>resolve\<close>; \<open>PathScans\<close> what the backward scans of
      \<^verbatim>\<open>dirname\<close>, \<^verbatim>\<open>basename\<close>, \<^verbatim>\<open>extname\<close> and \<^verbatim>\<open>parse\<close> find; \<open>PathWin32Props\<close> that \<^verbatim>\<open>normalize\<close> keeps a
      relative path relative.
    \<^item> \<open>FixedQueue\<close>: lib/internal/fixed_queue.js; buffers are the cells of a store. The locale
      \<open>fifo_queue\<close> is the contract its client relies on.
    \<^item> \<open>AsyncIds\<close>: ids, id stack and emit functions of lib/internal/async_hooks.js. The stack is an array
      of 16 pairs; beyond it the push is that of src/internal_binding/binding_async_wrap.cc into a
      vector, and the pop reads past the end, which makes the running ids NaN (\<open>None\<close>).
    \<^item> \<open>TickQueue\<close>: lib/internal/process/task_queues.js over the contract \<open>fifo_queue\<close>. The loop has fuel;
      \<open>2 * work + 2\<close> is enough for a host that schedules \<open>work\<close> more callbacks, and no fuel is enough
      for a callback that schedules itself.
    \<^item> \<open>PriorityQueue\<close>: lib/internal/priority_queue.js. The locales \<open>comparator\<close> and \<open>positions\<close> are what
      it asks of its two callbacks.
    \<^item> \<open>LinkedList\<close>: lib/internal/linkedlist.js, objects as numbers and their links as a map.
    \<^item> \<open>Timers\<close>: the timeouts of lib/internal/timers.js and lib/timers.js. \<open>TimersQueue\<close> interprets
      \<open>comparator\<close> and \<open>positions\<close> for the lists of timers; \<open>TimersInv\<close> states the invariant,
      \<open>TimersOps\<close> that the operations keep it, \<open>TimersRun\<close> and \<open>TimersLoop\<close> what a pass does, and
      \<open>TimersProps\<close> the properties over every reachable state. The loops have the fuel \<open>pass_fuel\<close>,
      twice the number of objects and one, which is shown to be enough. \<open>TimersExamples\<close> evaluates
      two runs.
    \<^item> \<open>Immediates\<close>, \<open>ImmediatesInv\<close>, \<open>ImmediatesProps\<close>: the immediates of the same two files; the
      fuel is the number of objects and one. The state records which callbacks were called and which
      immediates cleared, for the properties only.
    \<^item> \<open>BufferInts\<close>, \<open>BufferProps\<close>, \<open>BufferWrites\<close>: the integer and BigInt reads and writes of
      lib/internal/buffer.js, with the 32-bit operators of the language as words.
    \<^item> \<open>QueryString\<close> and \<open>QueryParse\<close>: lib/querystring.js and lib/internal/querystring.js; the loop body
      of \<^verbatim>\<open>parse\<close> is \<open>parse_step\<close> on a record of its variables. \<open>QueryEscape\<close> shows that escaping is
      read back, \<open>QueryParseProps\<close> that \<^verbatim>\<open>parse\<close> reads what \<^verbatim>\<open>stringify\<close> prints, \<open>QueryObjects\<close> what
      \<^verbatim>\<open>parse\<close> answers for any text, and \<open>QueryExamples\<close> evaluates two texts.
    \<^item> \<open>Punycode\<close>: lib/punycode.js. \<open>PunycodeProps\<close> shows that \<^verbatim>\<open>decode\<close> undoes \<^verbatim>\<open>encode\<close>, by an
      invariant between the encoder and the decoder that has read its output so far; the bound of
      1600 code points keeps every number below 35 to the 6, and so below the overflow checks, which
      compute on integers. The
      fuel of \<^verbatim>\<open>encode\<close> is the number of code points. \<open>PunycodeDomains\<close> does the same for domains.
    \<^item> \<open>SearchParams\<close>: \<^verbatim>\<open>URLSearchParams\<close>, its parser, printer, constructor, methods and iterators. The
      list of names and values in turn is \<open>flat\<close> of a list of pairs. \<open>SearchParamsText\<close> shows that the
      parser is the one of the specification and reads what is printed, \<open>SearchParamsOps\<close> what every
      method does to the pairs, \<open>SearchParamsSort\<close> holds both algorithms of \<^verbatim>\<open>sort\<close> and shows that they
      are the stable sort, \<open>SearchParamsInv\<close> that every object holds well-formed pairs.
    \<^item> \<open>UrlClass\<close>: \<^verbatim>\<open>URL\<close> with the offsets the parser gives; \<open>UrlProps\<close> has the invariant between a URL and
      its search params for a parser that is as the URL Standard says. \<open>UrlFiles\<close>: \<^verbatim>\<open>fileURLToPath\<close>,
      \<^verbatim>\<open>pathToFileURL\<close> and \<^verbatim>\<open>percentDecode\<close> of lib/internal/data_url.js, with the encoded separators.
    \<^item> \<open>Mime\<close>: lib/internal/mime.js; \<open>param_step\<close> is the body of the loop of \<^verbatim>\<open>#parse\<close>, and every turn of it
      goes forward. \<open>MimeProps\<close> has the invariant and what the methods do to the map of parameters,
      \<open>MimeText\<close> that the printed text is read back. \<open>DataUrl\<close>: the processor of lib/internal/data_url.js
      over it; \<open>DataUrlProps\<close> says what it answers for every record of getters, and for the
      URL parsed from a MIME type and bytes, with what the URL Standard says of such a text as the
      hypothesis \<open>parses_data\<close> about the parser. \<open>FreeList\<close>: lib/internal/freelist.js.
    \<^item> \<open>Events\<close>: lib/events.js, an emitter with the stores of the objects it has been. The functions are
      scripts of commands, which use every operation, ask for listeners and call listeners and once
      wrappers themselves; the fuel is the depth to which they emit and call. \<open>EventsInv\<close> has the
      invariant of the stores and what each change of the stores keeps. \<open>EventsSteps\<close> lifts a relation
      of states from the single changes to every operation and to \<^verbatim>\<open>emit\<close> at every depth, once for all,
      in the locales \<open>emitter_relation\<close> and \<open>emitter_steps\<close>; they are interpreted for the invariant, for
      the growth of the record of calls and for the marks of wrappers. \<open>EventsOnce\<close> and \<open>EventsRun\<close> show
      the invariant of once wrappers where programs and listeners are \<open>discreet\<close>: they leave wrappers to
      the emitter, but may remove them. Without that a once listener can run twice
      (\<open>once_runs_twice\<close>). \<open>EventsSpec\<close> states the abstract emitter, a map with answers and calls, and
      that the code refines it; \<open>EventsCalls\<close> what an \<^verbatim>\<open>emit\<close> calls. No fuel is enough for listeners that
      emit their own event for ever; functions that do not use the emitter need one.
    \<^item> \<open>MyersDiff\<close>: lib/internal/assert/myers_diff.js and lib/internal/util/diff.js. \<open>MyersPaths\<close> is about
      the furthest points of the edit graph, in the locale \<open>edit_graph\<close>; \<open>MyersProps\<close> interprets it for
      two lists of lines, shows that the arrays hold these points and that the answer is shortest.

  Parameters. A callback, a microtask and the handling of a rejection are scripts of the host, which
  may call the modelled operations again, throw, and move the time forward. The working directory,
  the directories of the drives, the case mappings of Unicode, what \<^verbatim>\<open>Buffer\<close> makes of bytes and of base64, what
  memory it allocates and how the engine prints a Number are arguments, and so are the native URL parser and what an object
  prints as. A decoder given to \<^verbatim>\<open>parse\<close> of the query strings answers strings or throws.

  Not modelled. The float and double accessors of buffers (bit patterns of doubles), \<^verbatim>\<open>matchesGlob\<close>
  (vendored minimatch), the rejections an emitter captures and its helpers over
  promises and iterators, the registration of async hooks and promise hooks, inspection and the
  promisified timers; streams, web streams, network, file system, modules, workers, crypto and the
  other bindings, which are glue over native handles or need a model of promises first; the URL
  parser, which is native; vendored dependencies under deps/.

  Plan. Streams over \<open>Events\<close>; the pool of HTTP parsers over \<open>FreeList\<close>; the resolution
  of module specifiers over the path component.
\<close>

end
